(* ===== verification/Kernel_Base.thy ===== *)
theory Kernel_Base
  imports Main "HOL-Library.Word"
begin

text \<open>
  Prelude of the development: the machine integers of the kernel, the result type in which every
  operation that can stop the kernel or run into undefined behaviour is modelled, and the generic
  lemmas the component theories share.

  An operation of the C code that can fail returns a \<open>'a res\<close>.  \<open>Inl Bug\<close> is a \<open>BUG\<close> or
  \<open>BUG_ON\<close> of \<open>debug.h\<close> (the kernel prints a message, disables interrupts and halts), \<open>Inl Fault\<close>
  an access through a null, dangling or out-of-range pointer, \<open>Inl Hang\<close> a loop the code enters and
  never leaves, such as the \<open>while (1)\<close> of an unexpected interrupt.
\<close>

section \<open>Machine integers\<close>

type_synonym u8 = "8 word"
type_synonym u16 = "16 word"
type_synonym u32 = "32 word"
type_synonym u64 = "64 word"

section \<open>Results\<close>

datatype trap = Bug | Fault | Hang

type_synonym 'a res = "trap + 'a"

definition bindE :: "'a res \<Rightarrow> ('a \<Rightarrow> 'b res) \<Rightarrow> 'b res" where
  "bindE m f = (case m of Inl t \<Rightarrow> Inl t | Inr x \<Rightarrow> f x)"

definition bug_on :: "bool \<Rightarrow> 'a res \<Rightarrow> 'a res" where
  "bug_on c k = (if c then Inl Bug else k)"

definition fault_on :: "bool \<Rightarrow> 'a res \<Rightarrow> 'a res" where
  "fault_on c k = (if c then Inl Fault else k)"

named_theorems res_simps \<open>elimination of binds and guards from equations over results\<close>
named_theorems heap_upd \<open>effect of a pointer write on the two link maps of a list heap\<close>

lemma bindE_Inl [simp]: "bindE (Inl t) f = Inl t"
  by (simp add: bindE_def)

lemma bindE_Inr [simp]: "bindE (Inr x) f = f x"
  by (simp add: bindE_def)

lemma bindE_assoc: "bindE (bindE m f) g = bindE m (\<lambda>x. bindE (f x) g)"
  by (cases m) simp_all

lemma bindE_eq_Inr [res_simps]: "bindE m f = Inr y \<longleftrightarrow> (\<exists>x. m = Inr x \<and> f x = Inr y)"
  by (cases m) simp_all

lemma bindE_eq_Inl [res_simps]:
  "bindE m f = Inl t \<longleftrightarrow> m = Inl t \<or> (\<exists>x. m = Inr x \<and> f x = Inl t)"
  by (cases m) simp_all

lemma bindE_cong [fundef_cong]:
  "m = m' \<Longrightarrow> (\<And>x. m' = Inr x \<Longrightarrow> f x = f' x) \<Longrightarrow> bindE m f = bindE m' f'"
  by (cases m') simp_all

lemma bug_on_False [simp]: "bug_on False k = k"
  by (simp add: bug_on_def)

lemma bug_on_True [simp]: "bug_on True k = Inl Bug"
  by (simp add: bug_on_def)

lemma bug_on_eq_Inr [res_simps]: "bug_on c k = Inr y \<longleftrightarrow> \<not> c \<and> k = Inr y"
  by (simp add: bug_on_def)

lemma bug_on_cong [fundef_cong]:
  "c = c' \<Longrightarrow> (\<not> c' \<Longrightarrow> k = k') \<Longrightarrow> bug_on c k = bug_on c' k'"
  by (simp add: bug_on_def)

lemma fault_on_False [simp]: "fault_on False k = k"
  by (simp add: fault_on_def)

lemma fault_on_True [simp]: "fault_on True k = Inl Fault"
  by (simp add: fault_on_def)

lemma fault_on_eq_Inr [res_simps]: "fault_on c k = Inr y \<longleftrightarrow> \<not> c \<and> k = Inr y"
  by (simp add: fault_on_def)

lemma fault_on_cong [fundef_cong]:
  "c = c' \<Longrightarrow> (\<not> c' \<Longrightarrow> k = k') \<Longrightarrow> fault_on c k = fault_on c' k'"
  by (simp add: fault_on_def)

text \<open>
  Code with loops that need not end has results \<open>'a res option\<close>, where \<open>None\<close> is a loop that does not
  return.
\<close>

definition bindP :: "'a res option \<Rightarrow> ('a \<Rightarrow> 'b res option) \<Rightarrow> 'b res option" where
  "bindP m f = Option.bind m (\<lambda>r. case r of Inl t \<Rightarrow> Some (Inl t) | Inr x \<Rightarrow> f x)"

lemma bindP_simps [simp]:
  "bindP None f = None" "bindP (Some (Inl t)) f = Some (Inl t)" "bindP (Some (Inr x)) f = f x"
  by (simp_all add: bindP_def)

lemma bindP_mono [partial_function_mono]:
  assumes "mono_option B" "\<And>y. mono_option (\<lambda>f. C y f)"
  shows "mono_option (\<lambda>f. bindP (B f) (\<lambda>y. C y f))"
  unfolding bindP_def
proof (rule bind_mono [OF assms(1)])
  show "mono_option (\<lambda>f. case r of Inl t \<Rightarrow> Some (Inl t) | Inr x \<Rightarrow> C x f)" for r
    using assms(2) by (cases r) (simp_all add: option.const_mono)
qed

lemma bindP_eq_Inr [res_simps]: "bindP m f = Some (Inr y) \<longleftrightarrow> (\<exists>x. m = Some (Inr x) \<and> f x = Some (Inr y))"
  by (cases m; cases "the m") (auto simp: bindP_def)

text \<open>Whether a result is a given trap, without comparing the states of a normal result.\<close>

definition traps :: "trap \<Rightarrow> 'a res \<Rightarrow> bool" where
  "traps t r = (case r of Inl u \<Rightarrow> u = t | Inr _ \<Rightarrow> False)"

lemma traps_iff: "traps t r \<longleftrightarrow> r = Inl t"
  by (auto simp: traps_def split: sum.splits)

section \<open>Lists\<close>

lemma map_remove1_inj:
  "inj_on f (insert x (set xs)) \<Longrightarrow> map f (remove1 x xs) = remove1 (f x) (map f xs)"
  by (induction xs) (auto simp: inj_on_def)

lemma image_remove:
  assumes "f a = y" "\<forall>b\<in>S. b \<noteq> a \<longrightarrow> f b \<noteq> y"
  shows "f ` (S - {a}) = f ` S - {y}"
  using assms by blast

end
