(* ===== verification/KList.thy ===== *)
theory KList
  imports Kernel_Base
begin

text \<open>
  The intrusive doubly linked circular lists of \<open>list.c\<close> and \<open>list.h\<close>.  A node is any object with a
  \<open>struct list_head\<close> inside; the heap maps the nodes that exist to their two links, and a link is
  \<open>None\<close> where the C pointer is null.  Every operation writes the links in the order of the C code
  and faults when it goes through a link that points nowhere.

  The second half relates the heap to lists: \<open>dlist h hd xs\<close> says that the circle starting at the
  head \<open>hd\<close> holds the entries \<open>xs\<close>, and \<open>lists_rep\<close> that a whole family of heads holds disjoint
  lists.  Each operation is shown to be the corresponding operation on the family.
\<close>

section \<open>Model of list.c\<close>

record 'n list_head =
  nxt :: "'n option"
  prv :: "'n option"

type_synonym 'n lheap = "'n \<Rightarrow> 'n list_head option"

definition rd_node :: "'n lheap \<Rightarrow> 'n option \<Rightarrow> 'n list_head res" where
  "rd_node h p = (case p of None \<Rightarrow> Inl Fault
     | Some a \<Rightarrow> (case h a of None \<Rightarrow> Inl Fault | Some n \<Rightarrow> Inr n))"

definition set_nxt :: "'n option \<Rightarrow> 'n option \<Rightarrow> 'n lheap \<Rightarrow> 'n lheap res" where
  "set_nxt p v h = (case p of None \<Rightarrow> Inl Fault
     | Some a \<Rightarrow> (case h a of None \<Rightarrow> Inl Fault | Some n \<Rightarrow> Inr (h(a \<mapsto> n\<lparr>nxt := v\<rparr>))))"

definition set_prv :: "'n option \<Rightarrow> 'n option \<Rightarrow> 'n lheap \<Rightarrow> 'n lheap res" where
  "set_prv p v h = (case p of None \<Rightarrow> Inl Fault
     | Some a \<Rightarrow> (case h a of None \<Rightarrow> Inl Fault | Some n \<Rightarrow> Inr (h(a \<mapsto> n\<lparr>prv := v\<rparr>))))"

definition list_init :: "'n \<Rightarrow> 'n lheap \<Rightarrow> 'n lheap res" where
  "list_init head h =
     bindE (set_prv (Some head) (Some head) h) (\<lambda>h. set_nxt (Some head) (Some head) h)"

definition list_insert :: "'n option \<Rightarrow> 'n option \<Rightarrow> 'n option \<Rightarrow> 'n lheap \<Rightarrow> 'n lheap res" where
  "list_insert new prev next' h =
     bindE (set_prv new prev h) (\<lambda>h.
     bindE (set_nxt new next' h) (\<lambda>h.
     bindE (set_nxt prev new h) (\<lambda>h.
     set_prv next' new h)))"

definition list_add :: "'n \<Rightarrow> 'n \<Rightarrow> 'n lheap \<Rightarrow> 'n lheap res" where
  "list_add new head h =
     bindE (rd_node h (Some head)) (\<lambda>n. list_insert (Some new) (Some head) (nxt n) h)"

definition list_add_tail :: "'n \<Rightarrow> 'n \<Rightarrow> 'n lheap \<Rightarrow> 'n lheap res" where
  "list_add_tail new head h =
     bindE (rd_node h (Some head)) (\<lambda>n. list_insert (Some new) (prv n) (Some head) h)"

definition list_del_between :: "'n option \<Rightarrow> 'n option \<Rightarrow> 'n lheap \<Rightarrow> 'n lheap res" where
  "list_del_between prev next' h =
     bindE (set_nxt prev next' h) (\<lambda>h. set_prv next' prev h)"

definition list_del :: "'n \<Rightarrow> 'n lheap \<Rightarrow> 'n lheap res" where
  "list_del entry h =
     bindE (rd_node h (Some entry)) (\<lambda>n.
     bindE (list_del_between (prv n) (nxt n) h) (\<lambda>h.
     bindE (set_nxt (Some entry) None h) (\<lambda>h.
     set_prv (Some entry) None h)))"

definition list_splice_between ::
  "'n \<Rightarrow> 'n option \<Rightarrow> 'n option \<Rightarrow> 'n lheap \<Rightarrow> 'n lheap res" where
  "list_splice_between lst prev next' h =
     bindE (rd_node h (Some lst)) (\<lambda>n.
     bindE (set_prv (nxt n) prev h) (\<lambda>h.
     bindE (set_nxt prev (nxt n) h) (\<lambda>h.
     bindE (set_nxt (prv n) next' h) (\<lambda>h.
     set_prv next' (prv n) h))))"

definition list_empty :: "'n \<Rightarrow> 'n lheap \<Rightarrow> bool res" where
  "list_empty head h = bindE (rd_node h (Some head)) (\<lambda>n. Inr (nxt n = Some head))"

definition list_splice :: "'n \<Rightarrow> 'n \<Rightarrow> 'n lheap \<Rightarrow> 'n lheap res" where
  "list_splice lst head h =
     bindE (list_empty lst h) (\<lambda>e.
     if e then Inr h
     else bindE (rd_node h (Some head)) (\<lambda>n.
          bindE (list_splice_between lst (Some head) (nxt n) h) (\<lambda>h. list_init lst h)))"

definition list_first :: "'n \<Rightarrow> 'n lheap \<Rightarrow> 'n option res" where
  "list_first head h = bindE (rd_node h (Some head)) (\<lambda>n. Inr (nxt n))"

text \<open>
  The counting loop of \<open>list_size\<close> need not end on a heap whose links do not come back to the head,
  so its result is an option: \<open>None\<close> is a loop that does not return.
\<close>

partial_function (option) list_size_loop ::
  "'n \<Rightarrow> 'n option \<Rightarrow> nat \<Rightarrow> 'n lheap \<Rightarrow> nat res option" where
  "list_size_loop head pos sz h =
     (if pos = Some head then Some (Inr sz)
      else case rd_node h pos of
             Inl t \<Rightarrow> Some (Inl t)
           | Inr n \<Rightarrow> list_size_loop head (nxt n) (Suc sz) h)"

definition list_size :: "'n \<Rightarrow> 'n lheap \<Rightarrow> nat res option" where
  "list_size head h =
     (case rd_node h (Some head) of Inl t \<Rightarrow> Some (Inl t)
      | Inr n \<Rightarrow> list_size_loop head (nxt n) 0 h)"

section \<open>The two link maps of a heap\<close>

definition nx :: "'n lheap \<Rightarrow> 'n \<Rightarrow> 'n option" where
  "nx h a = (case h a of None \<Rightarrow> None | Some n \<Rightarrow> nxt n)"

definition pv :: "'n lheap \<Rightarrow> 'n \<Rightarrow> 'n option" where
  "pv h a = (case h a of None \<Rightarrow> None | Some n \<Rightarrow> prv n)"

lemma nx_SomeD: "nx h a = Some b \<Longrightarrow> a \<in> dom h"
  by (auto simp: nx_def split: option.splits)

lemma pv_SomeD: "pv h a = Some b \<Longrightarrow> a \<in> dom h"
  by (auto simp: pv_def split: option.splits)

lemma rd_node_ok: "a \<in> dom h \<Longrightarrow> \<exists>n. rd_node h (Some a) = Inr n \<and> nxt n = nx h a \<and> prv n = pv h a"
  by (auto simp: rd_node_def nx_def pv_def)

lemma set_nxt_ok [heap_upd]:
  "a \<in> dom h \<Longrightarrow> \<exists>h'. set_nxt (Some a) v h = Inr h' \<and> nx h' = (nx h)(a := v) \<and> pv h' = pv h \<and> dom h' = dom h"
proof -
  assume "a \<in> dom h"
  then obtain n where n: "h a = Some n" by auto
  then have "set_nxt (Some a) v h = Inr (h(a \<mapsto> n\<lparr>nxt := v\<rparr>))" by (simp add: set_nxt_def)
  moreover have "nx (h(a \<mapsto> n\<lparr>nxt := v\<rparr>)) = (nx h)(a := v)" "pv (h(a \<mapsto> n\<lparr>nxt := v\<rparr>)) = pv h"
    using n by (simp_all add: nx_def pv_def fun_eq_iff)
  moreover have "dom (h(a \<mapsto> n\<lparr>nxt := v\<rparr>)) = dom h" using n by auto
  ultimately show ?thesis by blast
qed

lemma set_prv_ok [heap_upd]:
  "a \<in> dom h \<Longrightarrow> \<exists>h'. set_prv (Some a) v h = Inr h' \<and> nx h' = nx h \<and> pv h' = (pv h)(a := v) \<and> dom h' = dom h"
proof -
  assume "a \<in> dom h"
  then obtain n where n: "h a = Some n" by auto
  then have "set_prv (Some a) v h = Inr (h(a \<mapsto> n\<lparr>prv := v\<rparr>))" by (simp add: set_prv_def)
  moreover have "nx (h(a \<mapsto> n\<lparr>prv := v\<rparr>)) = nx h" "pv (h(a \<mapsto> n\<lparr>prv := v\<rparr>)) = (pv h)(a := v)"
    using n by (simp_all add: nx_def pv_def fun_eq_iff)
  moreover have "dom (h(a \<mapsto> n\<lparr>prv := v\<rparr>)) = dom h" using n by auto
  ultimately show ?thesis by blast
qed

text \<open>The effect of a composite operation on the two link maps, when every node it writes exists.\<close>

lemma list_init_links:
  assumes "a \<in> dom h"
  shows "\<exists>h'. list_init a h = Inr h' \<and> nx h' = (nx h)(a := Some a) \<and> pv h' = (pv h)(a := Some a) \<and> dom h' = dom h"
proof -
  obtain h1 where 1: "set_prv (Some a) (Some a) h = Inr h1" "nx h1 = nx h"
      "pv h1 = (pv h)(a := Some a)" "dom h1 = dom h"
    using set_prv_ok [OF assms] by blast
  obtain h2 where 2: "set_nxt (Some a) (Some a) h1 = Inr h2" "nx h2 = (nx h1)(a := Some a)"
      "pv h2 = pv h1" "dom h2 = dom h1"
    using set_nxt_ok assms 1(4) by metis
  from 1 2 show ?thesis by (simp add: list_init_def)
qed

lemma list_insert_links:
  assumes "new \<in> dom h" "p \<in> dom h" "n \<in> dom h"
  shows "\<exists>h'. list_insert (Some new) (Some p) (Some n) h = Inr h'
    \<and> nx h' = (nx h)(new := Some n, p := Some new)
    \<and> pv h' = (pv h)(new := Some p, n := Some new) \<and> dom h' = dom h"
proof -
  obtain h1 where 1: "set_prv (Some new) (Some p) h = Inr h1" "nx h1 = nx h"
      "pv h1 = (pv h)(new := Some p)" "dom h1 = dom h"
    using set_prv_ok [OF assms(1)] by blast
  obtain h2 where 2: "set_nxt (Some new) (Some n) h1 = Inr h2" "nx h2 = (nx h1)(new := Some n)"
      "pv h2 = pv h1" "dom h2 = dom h1"
    using set_nxt_ok assms(1) 1(4) by metis
  obtain h3 where 3: "set_nxt (Some p) (Some new) h2 = Inr h3" "nx h3 = (nx h2)(p := Some new)"
      "pv h3 = pv h2" "dom h3 = dom h2"
    using set_nxt_ok assms(2) 1(4) 2(4) by metis
  obtain h4 where 4: "set_prv (Some n) (Some new) h3 = Inr h4" "nx h4 = nx h3"
      "pv h4 = (pv h3)(n := Some new)" "dom h4 = dom h3"
    using set_prv_ok assms(3) 1(4) 2(4) 3(4) by metis
  from 1 2 3 4 show ?thesis by (simp add: list_insert_def)
qed

lemma list_del_links:
  assumes "e \<in> dom h" "pv h e = Some p" "nx h e = Some n" "p \<in> dom h" "n \<in> dom h"
  shows "\<exists>h'. list_del e h = Inr h'
    \<and> nx h' = (nx h)(p := Some n, e := None)
    \<and> pv h' = (pv h)(n := Some p, e := None) \<and> dom h' = dom h"
proof -
  obtain nd where 0: "rd_node h (Some e) = Inr nd" "nxt nd = Some n" "prv nd = Some p"
    using rd_node_ok [OF assms(1)] assms(2,3) by auto
  obtain h1 where 1: "set_nxt (Some p) (Some n) h = Inr h1" "nx h1 = (nx h)(p := Some n)"
      "pv h1 = pv h" "dom h1 = dom h"
    using set_nxt_ok [OF assms(4)] by blast
  obtain h2 where 2: "set_prv (Some n) (Some p) h1 = Inr h2" "nx h2 = nx h1"
      "pv h2 = (pv h1)(n := Some p)" "dom h2 = dom h1"
    using set_prv_ok assms(5) 1(4) by metis
  obtain h3 where 3: "set_nxt (Some e) None h2 = Inr h3" "nx h3 = (nx h2)(e := None)"
      "pv h3 = pv h2" "dom h3 = dom h2"
    using set_nxt_ok assms(1) 1(4) 2(4) by metis
  obtain h4 where 4: "set_prv (Some e) None h3 = Inr h4" "nx h4 = nx h3"
      "pv h4 = (pv h3)(e := None)" "dom h4 = dom h3"
    using set_prv_ok assms(1) 1(4) 2(4) 3(4) by metis
  from 0 1 2 3 4 show ?thesis by (simp add: list_del_def list_del_between_def)
qed

section \<open>List segments\<close>

fun lseg :: "('n \<Rightarrow> 'n option) \<Rightarrow> ('n \<Rightarrow> 'n option) \<Rightarrow> 'n \<Rightarrow> 'n list \<Rightarrow> 'n \<Rightarrow> bool" where
  "lseg N P a [] b \<longleftrightarrow> N a = Some b \<and> P b = Some a"
| "lseg N P a (x # xs) b \<longleftrightarrow> N a = Some x \<and> P x = Some a \<and> lseg N P x xs b"

lemma lseg_append [simp]:
  "lseg N P a (us @ y # vs) b \<longleftrightarrow> lseg N P a us y \<and> lseg N P y vs b"
  by (induction us arbitrary: a) auto

lemma lseg_upd_next [simp]:
  "p \<noteq> a \<Longrightarrow> p \<notin> set xs \<Longrightarrow> lseg (N(p := v)) P a xs b \<longleftrightarrow> lseg N P a xs b"
  by (induction xs arbitrary: a) auto

lemma lseg_upd_prev [simp]:
  "p \<noteq> b \<Longrightarrow> p \<notin> set xs \<Longrightarrow> lseg N (P(p := v)) a xs b \<longleftrightarrow> lseg N P a xs b"
  by (induction xs arbitrary: a) auto

lemma lseg_cong:
  "(\<And>p. p \<in> insert a (set xs) \<Longrightarrow> N p = N' p) \<Longrightarrow>
   (\<And>p. p \<in> insert b (set xs) \<Longrightarrow> P p = P' p) \<Longrightarrow> lseg N P a xs b \<longleftrightarrow> lseg N' P' a xs b"
  by (induction xs arbitrary: a) auto

lemma lseg_next: "lseg N P a xs b \<Longrightarrow> N a = Some (hd (xs @ [b]))"
  by (cases xs) auto

lemma lseg_prev: "lseg N P a xs b \<Longrightarrow> P b = Some (last (a # xs))"
  by (cases xs rule: rev_cases) auto

lemma lseg_mapped:
  "lseg N P a xs b \<Longrightarrow> p \<in> insert a (set xs) \<Longrightarrow> N p \<noteq> None"
  "lseg N P a xs b \<Longrightarrow> p \<in> insert b (set xs) \<Longrightarrow> P p \<noteq> None"
  by (induction xs arbitrary: a) auto

lemma lseg_insert:
  assumes "lseg N P a (us @ vs) b" "distinct (a # us @ vs)" "b \<notin> set (us @ vs)"
    and "new \<notin> insert a (insert b (set (us @ vs)))"
    and "p = last (a # us)" "n = hd (vs @ [b])"
  shows "lseg (N(new := Some n, p := Some new)) (P(new := Some p, n := Some new)) a (us @ new # vs) b"
  using assms by (cases us rule: rev_cases; cases vs) auto

lemma lseg_delete:
  assumes "lseg N P a (us @ e # vs) b" "distinct (a # us @ e # vs)" "b \<notin> set (us @ e # vs)"
    and "p = last (a # us)" "n = hd (vs @ [b])"
  shows "lseg (N(p := Some n, e := None)) (P(n := Some p, e := None)) a (us @ vs) b"
  using assms by (cases us rule: rev_cases; cases vs) auto

section \<open>Circular lists on the heap\<close>

definition dlist :: "'n lheap \<Rightarrow> 'n \<Rightarrow> 'n list \<Rightarrow> bool" where
  "dlist h a xs \<longleftrightarrow> distinct (a # xs) \<and> lseg (nx h) (pv h) a xs a"

lemma dlist_dom: "dlist h a xs \<Longrightarrow> insert a (set xs) \<subseteq> dom h"
  using lseg_mapped(1) [of "nx h" "pv h" a xs a] nx_SomeD [of h] by (fastforce simp: dlist_def)

lemma dlist_frame:
  assumes "dlist h a xs" "\<And>p. p \<in> insert a (set xs) \<Longrightarrow> nx h' p = nx h p \<and> pv h' p = pv h p"
  shows "dlist h' a xs"
  using assms lseg_cong [of a xs "nx h" "nx h'" a "pv h" "pv h'"] by (auto simp: dlist_def)

lemma dlist_nx: "dlist h a xs \<Longrightarrow> nx h a = Some (hd (xs @ [a]))"
  by (auto simp: dlist_def dest: lseg_next)

lemma dlist_pv: "dlist h a xs \<Longrightarrow> pv h a = Some (last (a # xs))"
  by (auto simp: dlist_def dest: lseg_prev)

lemma list_init_dlist:
  assumes "a \<in> dom h"
  shows "\<exists>h'. list_init a h = Inr h' \<and> dlist h' a [] \<and> dom h' = dom h
    \<and> (\<forall>p. p \<noteq> a \<longrightarrow> nx h' p = nx h p \<and> pv h' p = pv h p)"
  using list_init_links [OF assms] by (auto simp: dlist_def)

lemma dlist_insert:
  assumes d: "dlist h a (us @ vs)" and new: "new \<notin> insert a (set (us @ vs))" "new \<in> dom h"
    and pn: "p = last (a # us)" "n = hd (vs @ [a])"
  shows "\<exists>h'. list_insert (Some new) (Some p) (Some n) h = Inr h' \<and> dlist h' a (us @ new # vs)
    \<and> dom h' = dom h \<and> (\<forall>q. q \<notin> insert a (insert new (set (us @ vs))) \<longrightarrow> nx h' q = nx h q \<and> pv h' q = pv h q)"
proof -
  have "p \<in> insert a (set us)" "n \<in> insert a (set vs)"
    using pn by (auto simp: hd_append intro!: last_in_set split: if_splits)
  with dlist_dom [OF d] have "p \<in> dom h" "n \<in> dom h" by auto
  from list_insert_links [OF new(2) this] obtain h' where
    h': "list_insert (Some new) (Some p) (Some n) h = Inr h'"
      "nx h' = (nx h)(new := Some n, p := Some new)"
      "pv h' = (pv h)(new := Some p, n := Some new)" "dom h' = dom h" by blast
  have "lseg (nx h') (pv h') a (us @ new # vs) a"
    unfolding h'(2,3) using d new pn by (intro lseg_insert) (auto simp: dlist_def)
  moreover have "distinct (a # us @ new # vs)"
    using d new by (auto simp: dlist_def)
  ultimately show ?thesis
    using h' \<open>p \<in> insert a (set us)\<close> \<open>n \<in> insert a (set vs)\<close> by (auto simp: dlist_def)
qed

lemma list_add_dlist:
  assumes "dlist h a xs" "new \<notin> insert a (set xs)" "new \<in> dom h"
  shows "\<exists>h'. list_add new a h = Inr h' \<and> dlist h' a (new # xs) \<and> dom h' = dom h
    \<and> (\<forall>q. q \<notin> insert a (insert new (set xs)) \<longrightarrow> nx h' q = nx h q \<and> pv h' q = pv h q)"
  using dlist_insert [of h a "[]" xs new] assms rd_node_ok [of a h] dlist_dom [OF assms(1)]
  by (auto simp: list_add_def dlist_nx)

lemma list_add_tail_dlist:
  assumes "dlist h a xs" "new \<notin> insert a (set xs)" "new \<in> dom h"
  shows "\<exists>h'. list_add_tail new a h = Inr h' \<and> dlist h' a (xs @ [new]) \<and> dom h' = dom h
    \<and> (\<forall>q. q \<notin> insert a (insert new (set xs)) \<longrightarrow> nx h' q = nx h q \<and> pv h' q = pv h q)"
  using dlist_insert [of h a xs "[]" new] assms rd_node_ok [of a h] dlist_dom [OF assms(1)]
  by (auto simp: list_add_tail_def dlist_pv)

lemma list_del_dlist:
  assumes d: "dlist h a xs" and e: "e \<in> set xs"
  shows "\<exists>h'. list_del e h = Inr h' \<and> dlist h' a (remove1 e xs) \<and> dom h' = dom h
    \<and> (\<forall>q. q \<notin> insert a (set xs) \<longrightarrow> nx h' q = nx h q \<and> pv h' q = pv h q)"
proof -
  obtain us vs where xs: "xs = us @ e # vs" "e \<notin> set us" "e \<notin> set vs"
    using d split_list [OF e] by (auto simp: dlist_def)
  define p where "p = last (a # us)"
  define n where "n = hd (vs @ [a])"
  have pn: "p \<in> insert a (set us)" "n \<in> insert a (set vs)"
    by (auto simp: p_def n_def hd_append intro!: last_in_set split: if_splits)
  have seg: "lseg (nx h) (pv h) a us e" "lseg (nx h) (pv h) e vs a"
    using d xs by (auto simp: dlist_def)
  have "pv h e = Some p" "nx h e = Some n"
    using lseg_prev [OF seg(1)] lseg_next [OF seg(2)] by (auto simp: p_def n_def)
  moreover have "e \<in> dom h" "p \<in> dom h" "n \<in> dom h"
    using dlist_dom [OF d] xs pn by auto
  ultimately obtain h' where h': "list_del e h = Inr h'" "nx h' = (nx h)(p := Some n, e := None)"
      "pv h' = (pv h)(n := Some p, e := None)" "dom h' = dom h"
    using list_del_links [of e h p n] by blast
  have "lseg (nx h') (pv h') a (us @ vs) a"
    unfolding h'(2,3) using d xs by (intro lseg_delete [where e = e]) (auto simp: dlist_def p_def n_def)
  moreover have "remove1 e xs = us @ vs" "distinct (a # us @ vs)"
    using xs d by (auto simp: remove1_append dlist_def)
  ultimately show ?thesis using h' xs pn by (auto simp: dlist_def)
qed

lemma list_empty_dlist: "dlist h a xs \<Longrightarrow> list_empty a h = Inr (xs = [])"
  using rd_node_ok [of a h] dlist_dom [of h a xs] dlist_nx [of h a xs]
  by (cases xs) (auto simp: list_empty_def dlist_def)

lemma list_first_dlist: "dlist h a xs \<Longrightarrow> list_first a h = Inr (Some (hd (xs @ [a])))"
  using rd_node_ok [of a h] dlist_dom [of h a xs] dlist_nx [of h a xs]
  by (auto simp: list_first_def)

lemma list_size_loop_lseg:
  "lseg (nx h) (pv h) b xs a \<Longrightarrow> a \<notin> set xs \<Longrightarrow> list_size_loop a (nx h b) k h = Some (Inr (k + length xs))"
proof (induction xs arbitrary: b k)
  case Nil
  then show ?case by (simp add: list_size_loop.simps)
next
  case (Cons x xs)
  then have "x \<in> dom h" using lseg_mapped(1) [of "nx h" "pv h" b "x # xs" a x] nx_SomeD [of h x] by auto
  then show ?case using Cons rd_node_ok [of x h]
    by (subst list_size_loop.simps) auto
qed

lemma list_size_dlist: "dlist h a xs \<Longrightarrow> list_size a h = Some (Inr (length xs))"
  using rd_node_ok [of a h] dlist_dom [of h a xs] list_size_loop_lseg [of h a xs a 0]
  by (auto simp: list_size_def dlist_def)

lemma list_splice_nonempty_links:
  assumes "dlist h l (y # ys)" "dlist h a xs" "set (l # y # ys) \<inter> set (a # xs) = {}"
  defines "z \<equiv> last (y # ys)" and "n \<equiv> hd (xs @ [a])"
  shows "\<exists>h'. list_splice l a h = Inr h' \<and> dom h' = dom h
    \<and> nx h' = (nx h)(a := Some y, z := Some n, l := Some l)
    \<and> pv h' = (pv h)(y := Some a, n := Some z, l := Some l)"
proof -
  have "z \<in> set (y # ys)" unfolding z_def by (rule last_in_set) simp
  moreover have "n \<in> insert a (set xs)" unfolding n_def by (cases xs) auto
  ultimately have dom: "l \<in> dom h" "y \<in> dom h" "z \<in> dom h" "a \<in> dom h" "n \<in> dom h"
    using dlist_dom [OF assms(1)] dlist_dom [OF assms(2)] by auto
  have lk: "nx h l = Some y" "pv h l = Some z" "nx h a = Some n"
    using dlist_nx [OF assms(1)] dlist_pv [OF assms(1)] dlist_nx [OF assms(2)]
    by (auto simp: z_def n_def)
  obtain nl na where nl: "rd_node h (Some l) = Inr nl" "nxt nl = Some y" "prv nl = Some z"
    and na: "rd_node h (Some a) = Inr na" "nxt na = Some n"
    using rd_node_ok dom lk by metis
  obtain h1 where 1: "set_prv (Some y) (Some a) h = Inr h1" "nx h1 = nx h"
      "pv h1 = (pv h)(y := Some a)" "dom h1 = dom h"
    using set_prv_ok [OF dom(2)] by blast
  obtain h2 where 2: "set_nxt (Some a) (Some y) h1 = Inr h2" "nx h2 = (nx h1)(a := Some y)"
      "pv h2 = pv h1" "dom h2 = dom h"
    using set_nxt_ok dom(4) 1(4) by metis
  obtain h3 where 3: "set_nxt (Some z) (Some n) h2 = Inr h3" "nx h3 = (nx h2)(z := Some n)"
      "pv h3 = pv h2" "dom h3 = dom h"
    using set_nxt_ok dom(3) 2(4) by metis
  obtain h4 where 4: "set_prv (Some n) (Some z) h3 = Inr h4" "nx h4 = nx h3"
      "pv h4 = (pv h3)(n := Some z)" "dom h4 = dom h"
    using set_prv_ok dom(5) 3(4) by metis
  obtain h5 where 5: "list_init l h4 = Inr h5" "nx h5 = (nx h4)(l := Some l)"
      "pv h5 = (pv h4)(l := Some l)" "dom h5 = dom h"
    using list_init_links dom(1) 4(4) by metis
  have "list_empty l h = Inr False"
    using list_empty_dlist [OF assms(1)] by simp
  then show ?thesis
    using nl na 1 2 3 4 5 by (simp add: list_splice_def list_splice_between_def)
qed

lemma list_splice_dlist:
  assumes l: "dlist h l ys" and a: "dlist h a xs" and dj: "set (l # ys) \<inter> set (a # xs) = {}"
  shows "\<exists>h'. list_splice l a h = Inr h' \<and> dlist h' a (ys @ xs) \<and> dlist h' l [] \<and> dom h' = dom h
    \<and> (\<forall>q. q \<notin> set (l # ys) \<union> set (a # xs) \<longrightarrow> nx h' q = nx h q \<and> pv h' q = pv h q)"
proof (cases ys)
  case Nil
  then have "list_splice l a h = Inr h"
    using list_empty_dlist [OF l] by (simp add: list_splice_def)
  then show ?thesis using Nil l a by auto
next
  case (Cons y ys')
  define z where "z = last (y # ys')"
  define n where "n = hd (xs @ [a])"
  obtain us where us: "y # ys' = us @ [z]"
    using append_butlast_last_id [of "y # ys'"] by (metis z_def list.distinct(1))
  obtain h' where h': "list_splice l a h = Inr h'" "dom h' = dom h"
      "nx h' = (nx h)(a := Some y, z := Some n, l := Some l)"
      "pv h' = (pv h)(y := Some a, n := Some z, l := Some l)"
    using list_splice_nonempty_links [of h l y ys' a xs] l a dj Cons by (auto simp: z_def n_def)
  have mem: "z \<in> set ys" "y \<in> set ys" "n \<in> insert a (set xs)"
    using arg_cong [OF us, of set] Cons hd_in_set [of xs] by (auto simp: n_def hd_append)
  have dist: "distinct (l # ys)" "distinct (a # xs)" using l a by (auto simp: dlist_def)
  have segl: "lseg (nx h) (pv h) l ys l" and sega: "lseg (nx h) (pv h) a xs a"
    using l a by (auto simp: dlist_def)
  have 1: "lseg (nx h') (pv h') a us z"
  proof (cases us)
    case Nil
    then show ?thesis using us h'(3,4) mem dist dj Cons by auto
  next
    case (Cons u us')
    then have ys: "ys = y # us' @ [z]" "u = y" using us \<open>ys = y # ys'\<close> by auto
    then have "lseg (nx h) (pv h) y us' z" using segl by simp
    then have "lseg (nx h') (pv h') y us' z"
      unfolding h'(3,4) using dist dj ys mem(3) by (subst lseg_cong [of _ _ _ "nx h" _ _ "pv h"]) auto
    then show ?thesis using Cons ys h'(3,4) dist dj mem by auto
  qed
  have 2: "lseg (nx h') (pv h') z xs a"
  proof (cases xs)
    case Nil
    then show ?thesis using h'(3,4) mem dist dj by (auto simp: n_def)
  next
    case (Cons x xs')
    then have "lseg (nx h) (pv h) x xs' a" using sega by simp
    then have "lseg (nx h') (pv h') x xs' a"
      unfolding h'(3,4) using dist dj Cons mem
      by (subst lseg_cong [of _ _ _ "nx h" _ _ "pv h"]) (auto simp: n_def)
    then show ?thesis using Cons h'(3,4) dist dj mem by (auto simp: n_def)
  qed
  have "lseg (nx h') (pv h') a (us @ z # xs) a" using 1 2 by simp
  moreover have "us @ z # xs = ys @ xs" using us Cons by simp
  ultimately have "dlist h' a (ys @ xs)"
    using dist dj by (auto simp: dlist_def)
  moreover have "dlist h' l []" using h'(3,4) by (simp add: dlist_def)
  ultimately show ?thesis using h' mem by auto
qed

section \<open>Families of disjoint lists\<close>

text \<open>
  A component keeps several lists at once (the free lists of every order, the three slab lists, the
  run queue and the wait queues).  \<open>lists_rep h H F\<close> says that every head of \<open>H\<close> starts a circle
  with the entries \<open>F hd\<close> and that the circles do not share a node.
\<close>

definition lists_rep :: "'n lheap \<Rightarrow> 'n set \<Rightarrow> ('n \<Rightarrow> 'n list) \<Rightarrow> bool" where
  "lists_rep h H F \<longleftrightarrow> (\<forall>a\<in>H. dlist h a (F a)) \<and>
     (\<forall>a\<in>H. \<forall>b\<in>H. a \<noteq> b \<longrightarrow> set (a # F a) \<inter> set (b # F b) = {})"

lemma lists_rep_dlist: "lists_rep h H F \<Longrightarrow> a \<in> H \<Longrightarrow> dlist h a (F a)"
  by (simp add: lists_rep_def)

lemma lists_rep_distinct: "lists_rep h H F \<Longrightarrow> a \<in> H \<Longrightarrow> distinct (F a) \<and> a \<notin> set (F a)"
  by (auto simp: lists_rep_def dlist_def)

lemma lists_rep_disjoint:
  "lists_rep h H F \<Longrightarrow> a \<in> H \<Longrightarrow> b \<in> H \<Longrightarrow> a \<noteq> b \<Longrightarrow> set (a # F a) \<inter> set (b # F b) = {}"
  by (simp add: lists_rep_def)

lemma lists_rep_nodes: "lists_rep h H F \<Longrightarrow> a \<in> H \<Longrightarrow> insert a (set (F a)) \<subseteq> dom h"
  using dlist_dom lists_rep_dlist by metis

text \<open>
  The update rule behind all operations: replacing the list of one head by a list that takes its
  nodes from the old one and from nodes on no list keeps the family.
\<close>

lemma lists_rep_update:
  assumes r: "lists_rep h H F" and a: "a \<in> H" and d: "dlist h' a ys"
    and frame: "\<forall>q. q \<notin> W \<longrightarrow> nx h' q = nx h q \<and> pv h' q = pv h q"
    and fresh: "\<forall>b\<in>H. b \<noteq> a \<longrightarrow> (set ys \<union> W) \<inter> set (b # F b) = {}"
  shows "lists_rep h' H (F(a := ys))"
proof -
  have "dlist h' b (F b)" if b: "b \<in> H" "b \<noteq> a" for b
  proof (rule dlist_frame [OF lists_rep_dlist [OF r b(1)]])
    fix p assume "p \<in> insert b (set (F b))"
    then have "p \<notin> W" using fresh b by auto
    then show "nx h' p = nx h p \<and> pv h' p = pv h p" using frame by simp
  qed
  moreover have "set (a # ys) \<inter> set (b # F b) = {}" if b: "b \<in> H" "b \<noteq> a" for b
    using fresh lists_rep_disjoint [OF r a b(1)] b by auto
  ultimately show ?thesis using r d a by (simp add: lists_rep_def) blast
qed

lemma lists_rep_add:
  assumes r: "lists_rep h H F" and a: "a \<in> H" and new: "new \<in> dom h" "\<forall>b\<in>H. new \<notin> set (b # F b)"
  shows "\<exists>h'. list_add new a h = Inr h' \<and> lists_rep h' H (F(a := new # F a)) \<and> dom h' = dom h"
proof -
  have "new \<notin> insert a (set (F a))" using new(2) a by auto
  from list_add_dlist [OF lists_rep_dlist [OF r a] this new(1)] obtain h' where
    h': "list_add new a h = Inr h'" "dlist h' a (new # F a)" "dom h' = dom h"
      "\<forall>q. q \<notin> insert a (insert new (set (F a))) \<longrightarrow> nx h' q = nx h q \<and> pv h' q = pv h q" by blast
  have "\<forall>b\<in>H. b \<noteq> a \<longrightarrow> (set (new # F a) \<union> insert a (insert new (set (F a)))) \<inter> set (b # F b) = {}"
    using lists_rep_disjoint [OF r a] new(2) by auto
  with lists_rep_update [OF r a h'(2,4)] h'(1,3) show ?thesis by blast
qed

lemma lists_rep_add_tail:
  assumes r: "lists_rep h H F" and a: "a \<in> H" and new: "new \<in> dom h" "\<forall>b\<in>H. new \<notin> set (b # F b)"
  shows "\<exists>h'. list_add_tail new a h = Inr h' \<and> lists_rep h' H (F(a := F a @ [new])) \<and> dom h' = dom h"
proof -
  have "new \<notin> insert a (set (F a))" using new(2) a by auto
  from list_add_tail_dlist [OF lists_rep_dlist [OF r a] this new(1)] obtain h' where
    h': "list_add_tail new a h = Inr h'" "dlist h' a (F a @ [new])" "dom h' = dom h"
      "\<forall>q. q \<notin> insert a (insert new (set (F a))) \<longrightarrow> nx h' q = nx h q \<and> pv h' q = pv h q" by blast
  have "\<forall>b\<in>H. b \<noteq> a \<longrightarrow> (set (F a @ [new]) \<union> insert a (insert new (set (F a)))) \<inter> set (b # F b) = {}"
    using lists_rep_disjoint [OF r a] new(2) by auto
  with lists_rep_update [OF r a h'(2,4)] h'(1,3) show ?thesis by blast
qed

lemma lists_rep_del:
  assumes r: "lists_rep h H F" and a: "a \<in> H" and e: "e \<in> set (F a)"
  shows "\<exists>h'. list_del e h = Inr h' \<and> lists_rep h' H (F(a := remove1 e (F a))) \<and> dom h' = dom h"
proof -
  from list_del_dlist [OF lists_rep_dlist [OF r a] e] obtain h' where
    h': "list_del e h = Inr h'" "dlist h' a (remove1 e (F a))" "dom h' = dom h"
      "\<forall>q. q \<notin> insert a (set (F a)) \<longrightarrow> nx h' q = nx h q \<and> pv h' q = pv h q" by blast
  have "\<forall>b\<in>H. b \<noteq> a \<longrightarrow> (set (remove1 e (F a)) \<union> insert a (set (F a))) \<inter> set (b # F b) = {}"
    using lists_rep_disjoint [OF r a] set_remove1_subset [of e "F a"] by auto
  with lists_rep_update [OF r a h'(2,4)] h'(1,3) show ?thesis by blast
qed

text \<open>A node on no list can change its links or come into being.\<close>

lemma lists_rep_extend:
  assumes r: "lists_rep h H F" and x: "\<forall>b\<in>H. x \<notin> set (b # F b)"
  shows "lists_rep (h(x := v)) H F"
proof -
  have "dlist (h(x := v)) b (F b)" if b: "b \<in> H" for b
  proof (rule dlist_frame [OF lists_rep_dlist [OF r b]])
    fix p assume "p \<in> insert b (set (F b))"
    then have "p \<noteq> x" using x b by auto
    then show "nx (h(x := v)) p = nx h p \<and> pv (h(x := v)) p = pv h p" by (simp add: nx_def pv_def)
  qed
  then show ?thesis using r by (simp add: lists_rep_def)
qed

lemma lists_rep_init:
  assumes r: "lists_rep h H F" and a: "a \<in> dom h" "\<forall>b\<in>H. a \<notin> set (b # F b)"
  shows "\<exists>h'. list_init a h = Inr h' \<and> lists_rep h' (insert a H) (F(a := [])) \<and> dom h' = dom h"
proof -
  from list_init_dlist [OF a(1)] obtain h' where
    h': "list_init a h = Inr h'" "dlist h' a []" "dom h' = dom h"
      "\<forall>q. q \<noteq> a \<longrightarrow> nx h' q = nx h q \<and> pv h' q = pv h q" by blast
  have "dlist h' b (F b)" if b: "b \<in> H" for b
  proof (rule dlist_frame [OF lists_rep_dlist [OF r b]])
    fix p assume "p \<in> insert b (set (F b))"
    then have "p \<noteq> a" using a(2) b by auto
    then show "nx h' p = nx h p \<and> pv h' p = pv h p" using h'(4) by simp
  qed
  then have "lists_rep h' (insert a H) (F(a := []))"
    using r a(2) h'(2) by (auto simp: lists_rep_def)
  then show ?thesis using h' by blast
qed

lemma lists_rep_splice:
  assumes r: "lists_rep h H F" and a: "a \<in> H" "l \<in> H" "a \<noteq> l"
  shows "\<exists>h'. list_splice l a h = Inr h' \<and> lists_rep h' H (F(a := F l @ F a, l := [])) \<and> dom h' = dom h"
proof -
  have dj: "set (l # F l) \<inter> set (a # F a) = {}"
    using lists_rep_disjoint [OF r a(2,1)] a(3) by auto
  from list_splice_dlist [OF lists_rep_dlist [OF r a(2)] lists_rep_dlist [OF r a(1)] dj]
  obtain h' where
    h': "list_splice l a h = Inr h'" "dlist h' a (F l @ F a)" "dlist h' l []" "dom h' = dom h"
      "\<forall>q. q \<notin> set (l # F l) \<union> set (a # F a) \<longrightarrow> nx h' q = nx h q \<and> pv h' q = pv h q" by blast
  have sep: "set (b # F b) \<inter> (set (l # F l) \<union> set (a # F a)) = {}"
    if "b \<in> H" "b \<noteq> a" "b \<noteq> l" for b
    using lists_rep_disjoint [OF r that(1) a(1) that(2)]
      lists_rep_disjoint [OF r that(1) a(2) that(3)] by blast
  have other: "dlist h' b (F b)" if b: "b \<in> H" "b \<noteq> a" "b \<noteq> l" for b
  proof (rule dlist_frame [OF lists_rep_dlist [OF r b(1)]])
    fix p assume "p \<in> insert b (set (F b))"
    then show "nx h' p = nx h p \<and> pv h' p = pv h p" using h'(5) sep [OF b] by auto
  qed
  define G where "G = F(a := F l @ F a, l := [])"
  have "dlist h' b (G b)" if "b \<in> H" for b
    using h'(2,3) other that by (simp add: G_def)
  moreover have "set (b # G b) \<inter> set (c # G c) = {}" if "b \<in> H" "c \<in> H" "b \<noteq> c" for b c
    using that sep [of b] sep [of c] dj lists_rep_disjoint [OF r that] lists_rep_distinct [OF r a(2)]
    by (auto simp: G_def split: if_splits)
  ultimately have "lists_rep h' H G" by (simp add: lists_rep_def)
  then show ?thesis using h' by (auto simp: G_def)
qed

lemma lists_rep_empty: "lists_rep h H F \<Longrightarrow> a \<in> H \<Longrightarrow> list_empty a h = Inr (F a = [])"
  using list_empty_dlist lists_rep_dlist by metis

lemma lists_rep_first: "lists_rep h H F \<Longrightarrow> a \<in> H \<Longrightarrow> list_first a h = Inr (Some (hd (F a @ [a])))"
  using list_first_dlist lists_rep_dlist by metis

section \<open>The interface the other components use\<close>

text \<open>
  What a client of the lists relies on: a representation relation between a store and a family of
  lists, the operations it calls, and the effect of each on the family.  The lemmas inside the
  locale are the idioms of the clients: take the first entry off a queue, move an entry to the
  front of another list, drain a list.
\<close>

locale list_family =
  fixes rep :: "'h \<Rightarrow> 'n set \<Rightarrow> ('n \<Rightarrow> 'n list) \<Rightarrow> bool"
    and nodes :: "'h \<Rightarrow> 'n set"
    and add :: "'n \<Rightarrow> 'n \<Rightarrow> 'h \<Rightarrow> 'h res"
    and add_tail :: "'n \<Rightarrow> 'n \<Rightarrow> 'h \<Rightarrow> 'h res"
    and del :: "'n \<Rightarrow> 'h \<Rightarrow> 'h res"
    and is_empty :: "'n \<Rightarrow> 'h \<Rightarrow> bool res"
    and first :: "'n \<Rightarrow> 'h \<Rightarrow> 'n option res"
  assumes rep_add: "rep h H F \<Longrightarrow> a \<in> H \<Longrightarrow> x \<in> nodes h \<Longrightarrow> \<forall>b\<in>H. x \<notin> set (b # F b) \<Longrightarrow>
      \<exists>h'. add x a h = Inr h' \<and> rep h' H (F(a := x # F a)) \<and> nodes h' = nodes h"
    and rep_add_tail: "rep h H F \<Longrightarrow> a \<in> H \<Longrightarrow> x \<in> nodes h \<Longrightarrow> \<forall>b\<in>H. x \<notin> set (b # F b) \<Longrightarrow>
      \<exists>h'. add_tail x a h = Inr h' \<and> rep h' H (F(a := F a @ [x])) \<and> nodes h' = nodes h"
    and rep_del: "rep h H F \<Longrightarrow> a \<in> H \<Longrightarrow> x \<in> set (F a) \<Longrightarrow>
      \<exists>h'. del x h = Inr h' \<and> rep h' H (F(a := remove1 x (F a))) \<and> nodes h' = nodes h"
    and rep_empty: "rep h H F \<Longrightarrow> a \<in> H \<Longrightarrow> is_empty a h = Inr (F a = [])"
    and rep_first: "rep h H F \<Longrightarrow> a \<in> H \<Longrightarrow> first a h = Inr (Some (hd (F a @ [a])))"
    and rep_distinct: "rep h H F \<Longrightarrow> a \<in> H \<Longrightarrow> distinct (F a) \<and> a \<notin> set (F a)"
    and rep_disjoint: "rep h H F \<Longrightarrow> a \<in> H \<Longrightarrow> b \<in> H \<Longrightarrow> a \<noteq> b \<Longrightarrow>
      set (a # F a) \<inter> set (b # F b) = {}"
    and rep_nodes: "rep h H F \<Longrightarrow> a \<in> H \<Longrightarrow> insert a (set (F a)) \<subseteq> nodes h"
begin

lemma pop_front:
  assumes "rep h H F" "a \<in> H" "F a = x # xs"
  shows "is_empty a h = Inr False" "first a h = Inr (Some x)"
    "\<exists>h'. del x h = Inr h' \<and> rep h' H (F(a := xs)) \<and> nodes h' = nodes h"
  using rep_empty [OF assms(1,2)] rep_first [OF assms(1,2)] rep_del [OF assms(1,2), of x] assms(3)
  by simp_all

text \<open>Which list an entry is on is unique.\<close>

lemma owner_unique:
  "rep h H F \<Longrightarrow> a \<in> H \<Longrightarrow> b \<in> H \<Longrightarrow> x \<in> set (F a) \<Longrightarrow> x \<in> set (F b) \<Longrightarrow> a = b"
  using rep_disjoint [of h H F a b] by auto

lemma entry_not_head: "rep h H F \<Longrightarrow> a \<in> H \<Longrightarrow> x \<in> set (F a) \<Longrightarrow> b \<in> H \<Longrightarrow> x \<noteq> b"
  using rep_disjoint [of h H F a b] rep_distinct [of h H F a] by auto

text \<open>After \<open>del\<close> the entry is on no list, so it can be added anywhere.\<close>

lemma del_free:
  assumes "rep h H F" "a \<in> H" "x \<in> set (F a)"
  shows "\<forall>b\<in>H. x \<notin> set (b # (F(a := remove1 x (F a))) b)"
  using assms owner_unique [OF assms(1)] entry_not_head [OF assms] rep_distinct [OF assms(1,2)]
  by (auto simp: set_remove1_eq)

lemma move_front:
  assumes "rep h H F" "a \<in> H" "b \<in> H" "a \<noteq> b" "x \<in> set (F a)"
  shows "\<exists>h1 h2. del x h = Inr h1 \<and> add x b h1 = Inr h2
    \<and> rep h2 H (F(a := remove1 x (F a), b := x # F b)) \<and> nodes h2 = nodes h"
proof -
  obtain h1 where 1: "del x h = Inr h1" "rep h1 H (F(a := remove1 x (F a)))" "nodes h1 = nodes h"
    using rep_del [OF assms(1,2,5)] by blast
  have "x \<in> nodes h1" using rep_nodes [OF assms(1,2)] assms(5) 1(3) by auto
  moreover have "(F(a := remove1 x (F a))) b = F b" using assms(4) by simp
  ultimately show ?thesis
    using rep_add [OF 1(2) assms(3) _ del_free [OF assms(1,2,5)]] 1(1,3) by metis
qed

end

interpretation kl: list_family lists_rep dom list_add list_add_tail list_del list_empty list_first
proof unfold_locales
qed (simp_all only: lists_rep_add lists_rep_add_tail lists_rep_del lists_rep_empty lists_rep_first
  lists_rep_distinct lists_rep_disjoint lists_rep_nodes simp_thms)

end
