(* ===== verification/Buddy.thy ===== *)
theory Buddy
  imports KList
begin

unbundle bit_operations_syntax

text \<open>
  The physical page allocator of \<open>memory.c\<close> and \<open>memory.h\<close>: a binary buddy system per zone.

  A zone keeps the page frames \<open>zbegin \<le> idx < zend\<close>, one descriptor per frame and one free list per
  order.  Frame numbers are addresses shifted right by 12, so they are below \<open>2 ^ 52\<close> and no sum of
  the code wraps; they are natural numbers here, and every access to \<open>zone->pages\<close> outside the zone
  is a fault.  The \<open>flags\<close> of a descriptor are the 64-bit word of the code with its masks.  The list
  heads of the orders and the \<open>ll\<close> fields of the descriptors are the nodes of one list heap (theory
  \<open>KList\<close>).  The lock of a zone has no state (\<open>spinlock.c\<close>), so \<open>page_alloc_zone\<close> and
  \<open>page_free_zone\<close> are their bodies.
\<close>

section \<open>Page descriptors\<close>

definition MAX_ORDER :: nat where "MAX_ORDER = 18"
definition PAGE_SHIFT :: nat where "PAGE_SHIFT = 12"
definition PAGE_FREE_OFFS :: nat where "PAGE_FREE_OFFS = 8"
definition PAGE_FREE_MASK :: u64 where "PAGE_FREE_MASK = push_bit PAGE_FREE_OFFS 1"
definition PAGE_ORDER_MASK :: u64 where "PAGE_ORDER_MASK = PAGE_FREE_MASK - 1"
definition PAGE_USER_OFFS :: nat where "PAGE_USER_OFFS = 16"

text \<open>
  The union \<open>u\<close> of a descriptor holds an order or the address of the slab cache that owns the page
  (\<open>None\<close> for the null pointer).
\<close>

datatype page_u = UOrder nat | UCache "nat option"

record page =
  flags :: u64
  pu :: page_u

definition page_order :: "page \<Rightarrow> nat" where
  "page_order p = unat (flags p AND PAGE_ORDER_MASK)"

definition page_set_order :: "page \<Rightarrow> nat \<Rightarrow> page res" where
  "page_set_order p order =
     bug_on (order > unat PAGE_ORDER_MASK)
       (Inr (p\<lparr>flags := (flags p AND NOT PAGE_ORDER_MASK) OR word_of_nat order\<rparr>))"

definition page_is_free :: "page \<Rightarrow> bool" where
  "page_is_free p \<longleftrightarrow> flags p AND PAGE_FREE_MASK \<noteq> 0"

definition page_set_free :: "page \<Rightarrow> page" where
  "page_set_free p = p\<lparr>flags := flags p OR PAGE_FREE_MASK\<rparr>"

definition page_set_busy :: "page \<Rightarrow> page" where
  "page_set_busy p = p\<lparr>flags := flags p AND NOT PAGE_FREE_MASK\<rparr>"

definition page_set_bit :: "page \<Rightarrow> nat \<Rightarrow> page" where
  "page_set_bit p b = p\<lparr>flags := flags p OR push_bit (b + PAGE_USER_OFFS) 1\<rparr>"

definition page_clear_bit :: "page \<Rightarrow> nat \<Rightarrow> page" where
  "page_clear_bit p b = p\<lparr>flags := flags p AND NOT (push_bit (b + PAGE_USER_OFFS) 1)\<rparr>"

definition page_test_bit :: "page \<Rightarrow> nat \<Rightarrow> bool" where
  "page_test_bit p b \<longleftrightarrow> flags p AND push_bit (b + PAGE_USER_OFFS) 1 \<noteq> 0"

section \<open>Zones\<close>

text \<open>\<open>OrderHead k\<close> is \<open>zone->order[k]\<close>, \<open>PageLL i\<close> is \<open>zone->pages[i].ll\<close>.\<close>

datatype znode = OrderHead nat | PageLL nat

record zone =
  zbegin :: nat
  zend :: nat
  zlinks :: "znode lheap"
  zpages :: "nat \<Rightarrow> page"

definition zone_page :: "zone \<Rightarrow> nat \<Rightarrow> page res" where
  "zone_page z i = fault_on (i \<ge> zend z - zbegin z) (Inr (zpages z i))"

definition put_page_desc :: "zone \<Rightarrow> nat \<Rightarrow> page \<Rightarrow> zone" where
  "put_page_desc z i p = z\<lparr>zpages := (zpages z)(i := p)\<rparr>"

text \<open>
  The head that \<open>&zone->order[k]\<close> denotes.  The search loop of \<open>__page_alloc_zone\<close> tests the list
  before it tests the bound, so it also reads \<open>order[MAX_ORDER + 1]\<close>, one element past the array;
  in \<open>struct page_alloc_zone\<close> that is the place of \<open>pages[0].ll\<close>.
\<close>

definition order_slot :: "nat \<Rightarrow> znode" where
  "order_slot k = (if k \<le> MAX_ORDER then OrderHead k else PageLL 0)"

section \<open>Allocation in a zone\<close>

function find_order :: "zone \<Rightarrow> nat \<Rightarrow> nat res" where
  "find_order z current =
     bindE (list_empty (order_slot current) (zlinks z)) (\<lambda>e.
       if e \<and> current \<le> MAX_ORDER then find_order z (Suc current) else Inr current)"
  by pat_completeness auto
termination
  by (relation "measure (\<lambda>(z, c). Suc MAX_ORDER - c)") auto

declare find_order.simps [simp del]

text \<open>Mark the block whose first frame is \<open>idx\<close> as free with the given order.\<close>

definition mark_free :: "zone \<Rightarrow> nat \<Rightarrow> nat \<Rightarrow> zone res" where
  "mark_free z i order =
     bindE (zone_page z i) (\<lambda>p.
     bindE (page_set_order p order) (\<lambda>p.
     Inr (put_page_desc z i (page_set_free p))))"

text \<open>
  The splitting loop \<open>while (current != order)\<close>: the upper half goes to the free list one order
  down.  A loop that starts below \<open>order\<close> would shift by a negative amount.
\<close>

fun split_loop :: "nat \<Rightarrow> nat \<Rightarrow> nat \<Rightarrow> zone \<Rightarrow> zone res" where
  "split_loop idx order 0 z = fault_on (order \<noteq> 0) (Inr z)"
| "split_loop idx order (Suc current) z =
     (if Suc current = order then Inr z
      else
        (let bidx = idx XOR 2 ^ current
         in fault_on (bidx < zbegin z)
              (let buddy = bidx - zbegin z
               in bindE (list_add (PageLL buddy) (order_slot current) (zlinks z)) (\<lambda>l.
                  bindE (mark_free (z\<lparr>zlinks := l\<rparr>) buddy current) (\<lambda>z.
                  split_loop idx order current z)))))"

definition page_alloc_in_zone :: "zone \<Rightarrow> nat \<Rightarrow> (nat option \<times> zone) res" where
  "page_alloc_in_zone z order =
     bindE (find_order z order) (\<lambda>current.
     if current > MAX_ORDER then Inr (None, z)
     else
       bindE (list_empty (order_slot current) (zlinks z)) (\<lambda>e.
       bug_on e
        (bindE (list_first (order_slot current) (zlinks z)) (\<lambda>entry.
         case entry of
           Some (PageLL i) \<Rightarrow>
             (let idx = zbegin z + i
              in bindE (zone_page z i) (\<lambda>p.
                 bindE (list_del (PageLL i) (zlinks z)) (\<lambda>l.
                 bindE (split_loop idx order current
                          ((put_page_desc z i (page_set_busy p))\<lparr>zlinks := l\<rparr>)) (\<lambda>z.
                 Inr (Some i, z)))))
         | _ \<Rightarrow> Inl Fault))))"

section \<open>Freeing in a zone\<close>

text \<open>
  The merging loop of \<open>__page_free_zone\<close>.  The code keeps the descriptor \<open>page\<close> of the frame \<open>idx\<close>
  in step with \<open>idx\<close>; the model keeps \<open>idx\<close> only.
\<close>

function merge_loop :: "zone \<Rightarrow> nat \<Rightarrow> nat \<Rightarrow> (zone \<times> nat \<times> nat) res" where
  "merge_loop z idx order =
     (if order < MAX_ORDER then
        (let bidx = idx XOR 2 ^ order
         in if bidx < zbegin z \<or> bidx \<ge> zend z then Inr (z, idx, order)
            else bindE (zone_page z (bidx - zbegin z)) (\<lambda>buddy.
              if \<not> page_is_free buddy \<or> page_order buddy \<noteq> order then Inr (z, idx, order)
              else
                (let idx' = (if bidx < idx then bidx else idx)
                 in bindE (list_del (PageLL (bidx - zbegin z)) (zlinks z)) (\<lambda>l.
                    merge_loop (z\<lparr>zlinks := l\<rparr>) idx' (Suc order)))))
      else Inr (z, idx, order))"
  by pat_completeness auto
termination
  by (relation "measure (\<lambda>(z, i, k). MAX_ORDER - k)") auto

declare merge_loop.simps [simp del]

definition page_free_in_zone :: "zone \<Rightarrow> nat \<Rightarrow> nat \<Rightarrow> zone res" where
  "page_free_in_zone z i order =
     (let idx = zbegin z + i
      in bug_on (idx AND (2 ^ order - 1) \<noteq> 0)
           (bindE (merge_loop z idx order) (\<lambda>(z, idx, order).
            bindE (list_add (PageLL (idx - zbegin z)) (order_slot order) (zlinks z)) (\<lambda>l.
            mark_free (z\<lparr>zlinks := l\<rparr>) (idx - zbegin z) order))))"

section \<open>The allocator over all zones\<close>

text \<open>
  \<open>page_alloc_zones\<close> only ever grows at its tail and is walked from the front: a list of zones.  A
  pointer to a descriptor is the position of its zone and its index in \<open>zone->pages\<close>.
\<close>

type_synonym page_ptr = "nat \<times> nat"

fun zones_alloc :: "nat \<Rightarrow> zone list \<Rightarrow> (page_ptr option \<times> zone list) res" where
  "zones_alloc order [] = Inr (None, [])"
| "zones_alloc order (z # zs) =
     bindE (page_alloc_in_zone z order) (\<lambda>(p, z').
       case p of
         Some i \<Rightarrow> Inr (Some (0, i), z' # zs)
       | None \<Rightarrow> bindE (zones_alloc order zs) (\<lambda>(q, zs').
           Inr (map_option (\<lambda>(n, i). (Suc n, i)) q, z' # zs')))"

definition page_alloc_desc :: "nat \<Rightarrow> zone list \<Rightarrow> (page_ptr option \<times> zone list) res" where
  "page_alloc_desc order zs = (if order > MAX_ORDER then Inr (None, zs) else zones_alloc order zs)"

text \<open>\<open>page_zone\<close>: the zone whose descriptor array a page pointer points into.\<close>

definition page_zone :: "page_ptr \<Rightarrow> zone list \<Rightarrow> zone res" where
  "page_zone p zs =
     bug_on (\<not> (fst p < length zs \<and> snd p < zend (zs ! fst p) - zbegin (zs ! fst p)))
       (Inr (zs ! fst p))"

definition page_addr :: "page_ptr \<Rightarrow> zone list \<Rightarrow> nat res" where
  "page_addr p zs = bindE (page_zone p zs) (\<lambda>z. Inr (push_bit PAGE_SHIFT (zbegin z + snd p)))"

fun zone_find :: "nat \<Rightarrow> zone list \<Rightarrow> nat option" where
  "zone_find idx [] = None"
| "zone_find idx (z # zs) =
     (if idx \<ge> zbegin z \<and> idx < zend z then Some 0 else map_option Suc (zone_find idx zs))"

definition addr_page :: "nat \<Rightarrow> zone list \<Rightarrow> page_ptr res" where
  "addr_page addr zs =
     (let pg = drop_bit PAGE_SHIFT addr
      in bug_on (addr AND (2 ^ PAGE_SHIFT - 1) \<noteq> 0)
           (case zone_find pg zs of
              None \<Rightarrow> Inl Bug
            | Some n \<Rightarrow> Inr (n, pg - zbegin (zs ! n))))"

definition page_alloc :: "nat \<Rightarrow> zone list \<Rightarrow> (nat \<times> zone list) res" where
  "page_alloc order zs =
     (if order > MAX_ORDER then Inr (0, zs)
      else bindE (zones_alloc order zs) (\<lambda>(p, zs').
        case p of
          None \<Rightarrow> Inr (0, zs')
        | Some (n, i) \<Rightarrow> Inr (push_bit PAGE_SHIFT (zbegin (zs' ! n) + i), zs')))"

definition page_free_desc :: "page_ptr option \<Rightarrow> nat \<Rightarrow> zone list \<Rightarrow> zone list res" where
  "page_free_desc p order zs =
     (case p of
        None \<Rightarrow> Inr zs
      | Some (n, i) \<Rightarrow>
          bindE (page_zone (n, i) zs) (\<lambda>z.
          bindE (page_free_in_zone z i order) (\<lambda>z'. Inr (zs[n := z']))))"

definition page_free :: "nat \<Rightarrow> nat \<Rightarrow> zone list \<Rightarrow> zone list res" where
  "page_free addr order zs =
     (if addr = 0 then Inr zs
      else
        (let idx = drop_bit PAGE_SHIFT addr
         in case zone_find idx zs of
              None \<Rightarrow> Inl Bug
            | Some n \<Rightarrow>
                bindE (page_free_in_zone (zs ! n) (idx - zbegin (zs ! n)) order) (\<lambda>z'.
                Inr (zs[n := z']))))"

section \<open>Building the zones\<close>

text \<open>
  The address arithmetic of the two set-up functions is on 64-bit words.  \<open>zone_raw\<close> is the memory
  the boot allocator hands out for a zone: whatever links and descriptors happen to be there.
\<close>

type_synonym zone_raw = "znode lheap \<times> (nat \<Rightarrow> page)"

definition PAGE_SIZE :: u64 where "PAGE_SIZE = 4096"

definition page_up :: "u64 \<Rightarrow> u64" where
  "page_up a = (a + PAGE_SIZE - 1) AND NOT (PAGE_SIZE - 1)"

definition page_down :: "u64 \<Rightarrow> u64" where
  "page_down a = a AND NOT (PAGE_SIZE - 1)"

text \<open>\<open>sizeof (struct page_alloc_zone) + sizeof (struct page) * pages\<close>.\<close>

definition zone_bytes :: "nat \<Rightarrow> nat" where
  "zone_bytes pgs = 376 + 32 * pgs"

fun init_orders :: "nat list \<Rightarrow> znode lheap \<Rightarrow> znode lheap res" where
  "init_orders [] l = Inr l"
| "init_orders (k # ks) l = bindE (list_init (OrderHead k) l) (init_orders ks)"

definition memset_pages :: "nat \<Rightarrow> (nat \<Rightarrow> page) \<Rightarrow> nat \<Rightarrow> page" where
  "memset_pages n pgs = (\<lambda>i. if i < n then \<lparr>flags = 0, pu = UCache None\<rparr> else pgs i)"

text \<open>
  \<open>__page_alloc_zone_setup\<close>.  The size given to \<open>memset\<close> is \<open>sizeof (struct page) * (zone->end -
  zone->end)\<close>, so no descriptor is cleared.  The result is the zone to append, if there is one.
\<close>

definition page_alloc_zone_setup ::
  "(nat \<Rightarrow> zone_raw option) \<Rightarrow> u64 \<Rightarrow> u64 \<Rightarrow> zone option res" where
  "page_alloc_zone_setup balloc zb ze =
     (let begin = unat (drop_bit PAGE_SHIFT (page_up zb));
          end' = unat (drop_bit PAGE_SHIFT (page_down ze))
      in if begin \<ge> end' then Inr None
         else
           (let pgs = end' - begin
            in case balloc (zone_bytes pgs) of
                 None \<Rightarrow> Inl Bug
               | Some (l, ps) \<Rightarrow>
                   bindE (init_orders [0..<Suc MAX_ORDER] l) (\<lambda>l.
                   Inr (Some \<lparr>zbegin = begin, zend = end', zlinks = l,
                              zpages = memset_pages 0 ps\<rparr>))))"

text \<open>The inner loop of \<open>__page_alloc_zone_free\<close>: the largest aligned block that fits.\<close>

function fit_order :: "nat \<Rightarrow> nat \<Rightarrow> nat \<Rightarrow> nat" where
  "fit_order pg end' order =
     (if order < MAX_ORDER then
        (if pg AND 2 ^ order \<noteq> 0 then order
         else if pg + 2 ^ (order + 1) > end' then order
         else fit_order pg end' (Suc order))
      else order)"
  by pat_completeness auto
termination
  by (relation "measure (\<lambda>(p, e, k). MAX_ORDER - k)") auto

declare fit_order.simps [simp del]

text \<open>
  The outer loop \<open>for (page = begin; page != end;)\<close>.  It steps to \<open>end\<close> and never over it; a loop
  that did would not stop.
\<close>

function free_range_loop :: "zone \<Rightarrow> nat \<Rightarrow> nat \<Rightarrow> zone res" where
  "free_range_loop z pg end' =
     (if pg = end' then Inr z
      else if pg > end' then Inl Hang
      else
        (let order = fit_order pg end' 0
         in fault_on (pg < zbegin z)
              (bindE (list_add_tail (PageLL (pg - zbegin z)) (order_slot order) (zlinks z)) (\<lambda>l.
               bindE (mark_free (z\<lparr>zlinks := l\<rparr>) (pg - zbegin z) order) (\<lambda>z.
               free_range_loop z (pg + 2 ^ order) end')))))"
  by pat_completeness auto
termination
  by (relation "measure (\<lambda>(z, p, e). e - p)") (auto intro!: diff_less_mono2)

declare free_range_loop.simps [simp del]

definition page_alloc_zone_free :: "u64 \<Rightarrow> u64 \<Rightarrow> zone list \<Rightarrow> zone list res" where
  "page_alloc_zone_free zb ze zs =
     (let begin_addr = page_up zb;
          begin = (if begin_addr \<noteq> 0 then unat (drop_bit PAGE_SHIFT begin_addr) else 1);
          end' = unat (drop_bit PAGE_SHIFT (page_down ze))
      in if begin \<ge> end' then Inr zs
         else case zone_find begin zs of
                None \<Rightarrow> Inl Bug
              | Some n \<Rightarrow>
                  bug_on (begin < zbegin (zs ! n) \<or> begin \<ge> zend (zs ! n))
                   (bug_on (end' \<le> zbegin (zs ! n) \<or> end' > zend (zs ! n))
                     (bindE (free_range_loop (zs ! n) begin end') (\<lambda>z.
                      Inr (zs[n := z])))))"

text \<open>
  \<open>page_alloc_setup\<close>, over the ranges of the two boot-time trees in ascending order (the dump of
  the zones at its end only prints).  \<open>balloc n\<close> is the memory the \<open>n\<close>-th call of the boot
  allocator returns, given the size.
\<close>

fun setup_zones ::
  "(nat \<Rightarrow> nat \<Rightarrow> zone_raw option) \<Rightarrow> nat \<Rightarrow> (u64 \<times> u64) list \<Rightarrow> zone list \<Rightarrow> zone list res" where
  "setup_zones balloc n [] zs = Inr zs"
| "setup_zones balloc n ((b, e) # rs) zs =
     bindE (page_alloc_zone_setup (balloc n) b e) (\<lambda>z.
     setup_zones balloc (Suc n) rs (case z of None \<Rightarrow> zs | Some z \<Rightarrow> zs @ [z]))"

fun setup_free :: "(u64 \<times> u64) list \<Rightarrow> zone list \<Rightarrow> zone list res" where
  "setup_free [] zs = Inr zs"
| "setup_free ((b, e) # rs) zs = bindE (page_alloc_zone_free b e zs) (setup_free rs)"

definition page_alloc_setup ::
  "(nat \<Rightarrow> nat \<Rightarrow> zone_raw option) \<Rightarrow> (u64 \<times> u64) list \<Rightarrow> (u64 \<times> u64) list \<Rightarrow> zone list res" where
  "page_alloc_setup balloc memory_map free_ranges =
     bindE (setup_zones balloc 0 memory_map []) (setup_free free_ranges)"

end
