(* ===== verification/CString.thy ===== *)
theory CString
  imports Kernel_Base
begin

unbundle bit_operations_syntax

text \<open>
  The byte and string routines of \<open>string.c\<close>, over a memory of bytes.  A \<open>char\<close> is a signed byte, so
  comparisons of characters are comparisons of \<open>sint\<close>.
\<close>

type_synonym memory = "nat \<Rightarrow> u8"

section \<open>Model of string.c\<close>

text \<open>The loop of \<open>strlen\<close> ends at the first zero byte, if there is one.\<close>

partial_function (option) strlen_loop :: "memory \<Rightarrow> nat \<Rightarrow> nat option" where
  "strlen_loop m str = (if m str = 0 then Some (Suc str) else strlen_loop m (Suc str))"

definition strlen :: "memory \<Rightarrow> nat \<Rightarrow> nat option" where
  "strlen m str = map_option (\<lambda>e. e - str - 1) (strlen_loop m str)"

fun memcpy :: "nat \<Rightarrow> nat \<Rightarrow> nat \<Rightarrow> memory \<Rightarrow> memory" where
  "memcpy to from 0 m = m"
| "memcpy to from (Suc n) m = memcpy (Suc to) (Suc from) n (m(to := m from))"

fun memset :: "nat \<Rightarrow> u8 \<Rightarrow> nat \<Rightarrow> memory \<Rightarrow> memory" where
  "memset to fill 0 m = m"
| "memset to fill (Suc n) m = memset (Suc to) fill n (m(to := fill))"

definition digit_to_char :: "int \<Rightarrow> u8" where
  "digit_to_char d = (if d < 10 then word_of_int (d + 0x30) else word_of_int (0x41 + (d - 10)))"

definition char_to_digit :: "u8 \<Rightarrow> u8" where
  "char_to_digit c =
     (if c \<le>s 0x39 \<and> 0x30 \<le>s c then c - 0x30
      else if 0x41 \<le>s c \<and> c \<le>s 0x46 then 10 + (c - 0x41)
      else 10 + (c - 0x61))"

text \<open>
  The two macros of \<open>atoi\<close> have no outer parentheses.  \<open>MIN(ABS(c - 'A'), ABS(c - 'a'))\<close> expands to
  \<open>(x < 0 ? -x : x) < (y < 0 ? -y : y) ? (x < 0 ? -x : x) : (y < 0 ? -y : y)\<close>, where the arguments of
  \<open>MIN\<close> do get parentheses; the sums are on \<open>int\<close>.
\<close>

definition abs_macro :: "int \<Rightarrow> int" where "abs_macro a = (if a < 0 then - a else a)"

definition min_macro :: "int \<Rightarrow> int \<Rightarrow> int" where "min_macro a b = (if a < b then a else b)"

definition atoi_digit :: "u32 \<Rightarrow> u8 \<Rightarrow> u32" where
  "atoi_digit base c =
     (if base > 10 then word_of_int (min_macro (abs_macro (sint c - 0x41)) (abs_macro (sint c - 0x61)))
      else word_of_int (sint c - 0x30))"

fun atoi_loop :: "u8 list \<Rightarrow> u32 \<Rightarrow> u32 \<Rightarrow> u32 \<Rightarrow> u32" where
  "atoi_loop [] base mul acc = acc"
| "atoi_loop (c # cs) base mul acc = atoi_loop cs base (mul * base) (acc + mul * atoi_digit base c)"

definition atoi :: "u8 list \<Rightarrow> u32 \<Rightarrow> u32" where
  "atoi buf base = atoi_loop (rev buf) base 1 0"

fun str_compare :: "memory \<Rightarrow> nat \<Rightarrow> nat \<Rightarrow> nat \<Rightarrow> int" where
  "str_compare m a b 0 = 0"
| "str_compare m a b (Suc n) =
     (if m a <s m b then - 1 else if m b <s m a then 1 else str_compare m (Suc a) (Suc b) n)"

section \<open>Strings in memory\<close>

definition cstr_at :: "memory \<Rightarrow> nat \<Rightarrow> u8 list \<Rightarrow> bool" where
  "cstr_at m a s \<longleftrightarrow> 0 \<notin> set s \<and> (\<forall>i<length s. m (a + i) = s ! i) \<and> m (a + length s) = 0"

lemma cstr_at_Cons: "cstr_at m a (c # s) \<longleftrightarrow> c \<noteq> 0 \<and> m a = c \<and> cstr_at m (Suc a) s"
proof -
  have "(\<forall>i<length (c # s). m (a + i) = (c # s) ! i) \<longleftrightarrow> m a = c \<and> (\<forall>i<length s. m (Suc a + i) = s ! i)"
    by (auto simp: less_Suc_eq_0_disj)
  then show ?thesis by (auto simp: cstr_at_def)
qed

lemma cstr_at_Nil [simp]: "cstr_at m a [] \<longleftrightarrow> m a = 0"
  by (simp add: cstr_at_def)

lemma cstr_at_unique: "cstr_at m a s \<Longrightarrow> cstr_at m a t \<Longrightarrow> s = t"
proof (induction s arbitrary: a t)
  case Nil
  then show ?case by (cases t) (auto simp: cstr_at_Cons)
next
  case (Cons c s)
  then show ?case by (cases t) (auto simp: cstr_at_Cons)
qed

lemma strlen_loop_cstr: "cstr_at m a s \<Longrightarrow> strlen_loop m a = Some (Suc (a + length s))"
proof (induction s arbitrary: a)
  case Nil
  then show ?case by (subst strlen_loop.simps) simp
next
  case (Cons c s)
  then show ?case by (subst strlen_loop.simps) (simp add: cstr_at_Cons)
qed

lemma memcpy_spec:
  "{to..<to + n} \<inter> {from..<from + n} = {} \<Longrightarrow>
   memcpy to from n m x = (if to \<le> x \<and> x < to + n then m (from + (x - to)) else m x)"
proof (induction n arbitrary: to "from" m)
  case 0
  then show ?case by auto
next
  case (Suc n)
  have dj: "{Suc to..<Suc to + n} \<inter> {Suc from..<Suc from + n} = {}"
    using Suc.prems by fastforce
  have ne: "from + d \<noteq> to" if "d < Suc n" for d
    using Suc.prems that by (auto simp: disjoint_iff)
  show ?case
  proof (cases "Suc to \<le> x \<and> x < Suc to + n")
    case True
    then have "Suc from + (x - Suc to) = from + (x - to)" "x - to < Suc n" by auto
    then show ?thesis using True ne [of "x - to"] unfolding memcpy.simps Suc.IH [OF dj] by simp
  next
    case False
    then show ?thesis unfolding memcpy.simps Suc.IH [OF dj] by (cases "x = to") auto
  qed
qed

lemma memset_spec: "memset to fill n m x = (if to \<le> x \<and> x < to + n then fill else m x)"
proof (induction n arbitrary: to m)
  case (Suc n)
  then show ?case by (cases "x = to") (auto simp: Suc.IH)
qed auto

end
