(* ===== verification/Slab.thy ===== *)
theory Slab
  imports Buddy CString
begin

unbundle bit_operations_syntax

text \<open>
  The kernel heap of \<open>alloc.c\<close> and \<open>alloc.h\<close>: slab caches of equal objects on top of the page
  allocator, and the general allocator that picks a cache or whole pages by size.

  A pool is \<open>2 ^ pool_order\<close> pages; the objects start at its first byte and its \<open>struct mem_pool\<close>
  lies at \<open>meta_offs\<close>.  The model keeps the pools in a map from the virtual address of that structure,
  next to the page zones, the list heap and the bytes of the objects.  Addresses are natural numbers:
  physical addresses are below \<open>2 ^ 47\<close>, so \<open>va\<close> does not wrap.
\<close>

section \<open>Sizes\<close>

definition HIGHER_BASE :: nat where "HIGHER_BASE = 0xffff800000000000"

definition va :: "nat \<Rightarrow> nat" where "va phys = phys + HIGHER_BASE"
definition pa :: "nat \<Rightarrow> nat" where "pa virt = virt - HIGHER_BASE"

definition WORD_SZ :: nat where "WORD_SZ = 8"
definition OBJS_PER_WORD :: nat where "OBJS_PER_WORD = WORD_SZ * 8"
definition MIN_POOL_OBJS :: nat where "MIN_POOL_OBJS = 8"
definition PAGE_CACHE_BIT :: nat where "PAGE_CACHE_BIT = 0"

text \<open>\<open>val\<close> starts at 1, so the first conjunct of the test always holds.\<close>

function ilog2_loop :: "nat \<Rightarrow> nat \<Rightarrow> nat \<Rightarrow> nat" where
  "ilog2_loop x val pw =
     (if 0 < val \<and> val < x then ilog2_loop x (2 * val) (pw + 1) else pw)"
  by pat_completeness auto
termination
  by (relation "measure (\<lambda>(x, v, p). x - v)") auto

declare ilog2_loop.simps [simp del]

definition ilog2 :: "nat \<Rightarrow> nat" where "ilog2 x = ilog2_loop x 1 0"

definition ceil_div :: "nat \<Rightarrow> nat \<Rightarrow> nat" where
  "ceil_div divident divisor = (divident + divisor - 1) div divisor"

definition floor_div :: "nat \<Rightarrow> nat \<Rightarrow> nat" where
  "floor_div divident divisor = divident div divisor"

definition align_up :: "nat \<Rightarrow> nat \<Rightarrow> nat" where
  "align_up sz align = align * ceil_div sz align"

definition align_down :: "nat \<Rightarrow> nat \<Rightarrow> nat" where
  "align_down sz align = align * floor_div sz align"

text \<open>
  \<open>sizeof (struct mem_pool)\<close> is 48 and its alignment 8.  The code subtracts the one word that is part
  of the structure before it adds the 48; adding first avoids the wrap for no objects at all.
\<close>

definition meta_size :: "nat \<Rightarrow> nat" where
  "meta_size objs = align_up (48 + ceil_div objs OBJS_PER_WORD * WORD_SZ - WORD_SZ) 8"

record mem_cache =
  meta_offs :: nat
  obj_count :: nat
  mask_words :: nat
  obj_size :: nat
  pool_order :: nat

fun fit_objs :: "nat \<Rightarrow> nat \<Rightarrow> nat \<Rightarrow> nat" where
  "fit_objs osz pool_size 0 = 0"
| "fit_objs osz pool_size (Suc n) =
     (if osz * Suc n + meta_size (Suc n) > pool_size then fit_objs osz pool_size n else Suc n)"

definition mem_cache_layout_setup :: "nat \<Rightarrow> nat \<Rightarrow> mem_cache res" where
  "mem_cache_layout_setup sz align =
     fault_on (align = 0)
      (let osz = align_up sz align;
           min_size = osz * MIN_POOL_OBJS + meta_size MIN_POOL_OBJS;
           order = ilog2 (drop_bit PAGE_SHIFT min_size);
           pool_size = 2 ^ (order + PAGE_SHIFT)
       in fault_on (osz = 0)
           (let objs = fit_objs osz pool_size (pool_size div osz)
            in Inr \<lparr>meta_offs = pool_size - meta_size objs, obj_count = objs,
                    mask_words = ceil_div objs OBJS_PER_WORD, obj_size = osz, pool_order = order\<rparr>))"

section \<open>One pool\<close>

record mem_pool =
  pl_page :: page_ptr
  pl_data :: nat
  pl_free :: nat
  bitmask :: "u64 list"

fun set_words :: "nat \<Rightarrow> nat \<Rightarrow> u64 list \<Rightarrow> u64 list" where
  "set_words w 0 bm = bm"
| "set_words w (Suc n) bm = set_words (Suc w) n (bm[w := NOT 0])"

definition mem_pool_bitmap_setup :: "mem_cache \<Rightarrow> u64 list" where
  "mem_pool_bitmap_setup cache =
     (let words = mask_words cache;
          pos = obj_count cache mod OBJS_PER_WORD;
          word = obj_count cache div OBJS_PER_WORD;
          bm = replicate words 0;
          bm = (if pos \<noteq> 0 then bm[word := NOT (push_bit pos 1 - 1)] else bm)
      in set_words (word + 1) (words - (word + 1)) bm)"

text \<open>
  The two loops of \<open>ffs\<close> are the same scan with steps of 8 and 1 bits; \<open>left\<close> counts the iterations
  that remain until the index is 8.
\<close>

fun ffs_scan :: "nat \<Rightarrow> nat \<Rightarrow> u64 \<Rightarrow> u64 \<Rightarrow> nat \<Rightarrow> nat" where
  "ffs_scan stp 0 bm msk i = i"
| "ffs_scan stp (Suc left) bm msk i =
     (if bm AND msk \<noteq> 0 then i else ffs_scan stp left bm (push_bit stp msk) (Suc i))"

definition ffs :: "u64 \<Rightarrow> nat" where
  "ffs bm =
     (let byte = ffs_scan 8 8 bm 0xff 0;
          bit = ffs_scan 1 8 bm (push_bit (byte * 8) 1) 0
      in byte * 8 + bit)"

fun find_word :: "u64 list \<Rightarrow> nat \<Rightarrow> nat \<Rightarrow> nat option" where
  "find_word bm word 0 = None"
| "find_word bm word (Suc left) =
     (if bm ! word = NOT 0 then find_word bm (Suc word) left else Some word)"

definition mem_pool_alloc :: "mem_cache \<Rightarrow> mem_pool \<Rightarrow> (nat \<times> mem_pool) res" where
  "mem_pool_alloc cache pool =
     bug_on (pl_free pool = 0)
      (case find_word (bitmask pool) 0 (mask_words cache) of
         None \<Rightarrow> Inl Bug
       | Some word \<Rightarrow>
           (let bit = ffs (NOT (bitmask pool ! word));
                pos = OBJS_PER_WORD * word + bit
            in Inr (pl_data pool + pos * obj_size cache,
                    pool\<lparr>bitmask := (bitmask pool)[word := bitmask pool ! word OR push_bit bit 1],
                         pl_free := pl_free pool - 1\<rparr>)))"

text \<open>The offset is computed on 64-bit words, so an address below the pool gives a huge one.\<close>

definition mem_pool_free :: "mem_cache \<Rightarrow> mem_pool \<Rightarrow> nat \<Rightarrow> mem_pool res" where
  "mem_pool_free cache pool ptr =
     (let offs = unat (word_of_nat ptr - word_of_nat (pl_data pool) :: u64);
          pos = offs div obj_size cache;
          word = pos div OBJS_PER_WORD;
          bit = pos mod OBJS_PER_WORD
      in bug_on (pos \<ge> obj_count cache)
          (bug_on (bitmask pool ! word AND push_bit bit 1 = 0)
            (bug_on (pl_free pool + 1 > obj_count cache)
              (Inr (pool\<lparr>bitmask := (bitmask pool)[word := bitmask pool ! word AND NOT (push_bit bit 1)],
                         pl_free := pl_free pool + 1\<rparr>)))))"

section \<open>The state of the heap\<close>

text \<open>
  The list nodes: the three heads of cache \<open>c\<close>, the head \<open>free_slabs\<close> on the stack of
  \<open>mem_cache_shrink\<close>, and the \<open>ll\<close> of the pool whose structure is at address \<open>a\<close>.
\<close>

datatype snode = FreePools nat | PartialPools nat | BusyPools nat | LocalHead | PoolLL nat

record heap =
  hzones :: "zone list"
  hlinks :: "snode lheap"
  hpools :: "nat \<Rightarrow> mem_pool option"
  hcaches :: "nat \<Rightarrow> mem_cache"
  hbytes :: memory

definition rd_pool :: "nat \<Rightarrow> heap \<Rightarrow> mem_pool res" where
  "rd_pool a h = (case hpools h a of None \<Rightarrow> Inl Fault | Some p \<Rightarrow> Inr p)"

definition wr_pool :: "nat \<Rightarrow> mem_pool \<Rightarrow> heap \<Rightarrow> heap" where
  "wr_pool a p h = h\<lparr>hpools := (hpools h)(a \<mapsto> p)\<rparr>"

definition with_links :: "(snode lheap \<Rightarrow> snode lheap res) \<Rightarrow> heap \<Rightarrow> heap res" where
  "with_links f h = bindE (f (hlinks h)) (\<lambda>l. Inr (h\<lparr>hlinks := l\<rparr>))"

text \<open>Reading and writing the descriptor a page pointer points to.\<close>

definition rd_page :: "page_ptr \<Rightarrow> zone list \<Rightarrow> page res" where
  "rd_page p zs = fault_on (fst p \<ge> length zs) (zone_page (zs ! fst p) (snd p))"

definition upd_page :: "(page \<Rightarrow> page) \<Rightarrow> page_ptr \<Rightarrow> zone list \<Rightarrow> zone list res" where
  "upd_page f p zs =
     bindE (rd_page p zs) (\<lambda>pg. Inr (zs[fst p := put_page_desc (zs ! fst p) (snd p) (f pg)]))"

fun upd_pages :: "(page \<Rightarrow> page) \<Rightarrow> page_ptr \<Rightarrow> nat \<Rightarrow> zone list \<Rightarrow> zone list res" where
  "upd_pages f p 0 zs = Inr zs"
| "upd_pages f p (Suc n) zs =
     bindE (upd_page f p zs) (upd_pages f (fst p, Suc (snd p)) n)"

section \<open>Pools of a cache\<close>

text \<open>
  The structure of a new pool comes into being with whatever links the memory holds.
\<close>

definition mem_pool_create :: "nat \<Rightarrow> heap \<Rightarrow> (nat option \<times> heap) res" where
  "mem_pool_create c h =
     (let cache = hcaches h c
      in bindE (page_alloc_desc (pool_order cache) (hzones h)) (\<lambda>(page, zs).
         case page of
           None \<Rightarrow> Inr (None, h\<lparr>hzones := zs\<rparr>)
         | Some p \<Rightarrow>
             bindE (page_addr p zs) (\<lambda>addr.
             (let a = va (addr + meta_offs cache)
              in bindE (upd_pages (\<lambda>pg. (page_set_bit pg PAGE_CACHE_BIT)\<lparr>pu := UCache (Some c)\<rparr>)
                          p (2 ^ pool_order cache) zs) (\<lambda>zs.
                 Inr (Some a,
                   h\<lparr>hzones := zs,
                     hlinks := (hlinks h)(PoolLL a \<mapsto> \<lparr>nxt = None, prv = None\<rparr>),
                     hpools := (hpools h)(a \<mapsto>
                       \<lparr>pl_page = p, pl_data = va addr, pl_free = obj_count cache,
                        bitmask = mem_pool_bitmap_setup cache\<rparr>)\<rparr>))))))"

definition mem_pool_destroy :: "nat \<Rightarrow> nat \<Rightarrow> heap \<Rightarrow> heap res" where
  "mem_pool_destroy c a h =
     (let cache = hcaches h c
      in bindE (rd_pool a h) (\<lambda>pool.
         bug_on (pl_free pool \<noteq> obj_count cache)
          (bindE (upd_pages (\<lambda>pg. (page_clear_bit pg PAGE_CACHE_BIT)\<lparr>pu := UCache None\<rparr>)
                    (pl_page pool) (2 ^ pool_order cache) (hzones h)) (\<lambda>zs.
           bindE (page_free_desc (Some (pl_page pool)) (pool_order cache) zs) (\<lambda>zs.
           Inr (h\<lparr>hzones := zs, hlinks := (hlinks h)(PoolLL a := None),
                 hpools := (hpools h)(a := None)\<rparr>))))))"

definition mem_cache_setup :: "nat \<Rightarrow> nat \<Rightarrow> nat \<Rightarrow> heap \<Rightarrow> heap res" where
  "mem_cache_setup c sz align h =
     bindE (mem_cache_layout_setup sz align) (\<lambda>cache.
     bindE (with_links (list_init (FreePools c)) (h\<lparr>hcaches := (hcaches h)(c := cache)\<rparr>)) (\<lambda>h.
     bindE (with_links (list_init (PartialPools c)) h) (\<lambda>h.
     with_links (list_init (BusyPools c)) h)))"

text \<open>
  The loops that destroy the pools of a list follow the links of the heap, so their result is an
  option: \<open>None\<close> is a loop that does not return.
\<close>

partial_function (option) destroy_loop :: "nat \<Rightarrow> snode \<Rightarrow> snode option \<Rightarrow> heap \<Rightarrow> heap res option" where
  "destroy_loop c head ptr h =
     (if ptr = Some head then Some (Inr h)
      else case ptr of
        Some (PoolLL a) \<Rightarrow>
          (case rd_node (hlinks h) ptr of
             Inl t \<Rightarrow> Some (Inl t)
           | Inr n \<Rightarrow>
               (case mem_pool_destroy c a h of
                  Inl t \<Rightarrow> Some (Inl t)
                | Inr h \<Rightarrow> destroy_loop c head (nxt n) h))
      | _ \<Rightarrow> Some (Inl Fault))"

definition mem_cache_shrink :: "nat \<Rightarrow> heap \<Rightarrow> heap res option" where
  "mem_cache_shrink c h =
     (case bindE (with_links (list_init LocalHead) (h\<lparr>hlinks := (hlinks h)(LocalHead \<mapsto> \<lparr>nxt = None, prv = None\<rparr>)\<rparr>)) (\<lambda>h.
           bindE (with_links (list_splice (FreePools c) LocalHead) h) (\<lambda>h.
           bindE (list_first LocalHead (hlinks h)) (\<lambda>ptr. Inr (ptr, h)))) of
        Inl t \<Rightarrow> Some (Inl t)
      | Inr (ptr, h) \<Rightarrow> destroy_loop c LocalHead ptr h)"

definition mem_cache_release :: "nat \<Rightarrow> heap \<Rightarrow> heap res option" where
  "mem_cache_release c h =
     (case bindE (list_empty (BusyPools c) (hlinks h)) (\<lambda>e. bug_on (\<not> e)
           (bindE (list_empty (PartialPools c) (hlinks h)) (\<lambda>e. bug_on (\<not> e)
           (list_first (FreePools c) (hlinks h))))) of
        Inl t \<Rightarrow> Some (Inl t)
      | Inr ptr \<Rightarrow> destroy_loop c (FreePools c) ptr h)"

section \<open>Objects of a cache\<close>

text \<open>\<open>LIST_ENTRY(list_first(...), struct mem_pool, ll)\<close>.\<close>

definition first_pool :: "snode \<Rightarrow> heap \<Rightarrow> nat res" where
  "first_pool head h =
     bindE (list_first head (hlinks h)) (\<lambda>ptr.
     case ptr of Some (PoolLL a) \<Rightarrow> Inr a | _ \<Rightarrow> Inl Fault)"

definition move_pool :: "nat \<Rightarrow> snode \<Rightarrow> heap \<Rightarrow> heap res" where
  "move_pool a head h =
     bindE (with_links (list_del (PoolLL a)) h) (\<lambda>h. with_links (list_add (PoolLL a) head) h)"

definition mem_cache_alloc :: "nat \<Rightarrow> heap \<Rightarrow> (nat option \<times> heap) res" where
  "mem_cache_alloc c h =
     bindE (list_empty (PartialPools c) (hlinks h)) (\<lambda>e.
     if \<not> e then
       bindE (first_pool (PartialPools c) h) (\<lambda>a.
       bindE (rd_pool a h) (\<lambda>pool.
       bindE (mem_pool_alloc (hcaches h c) pool) (\<lambda>(data, pool).
       bindE (if pl_free pool = 0 then move_pool a (BusyPools c) (wr_pool a pool h)
              else Inr (wr_pool a pool h)) (\<lambda>h.
       Inr (Some data, h)))))
     else
     bindE (list_empty (FreePools c) (hlinks h)) (\<lambda>e.
     if \<not> e then
       bindE (first_pool (FreePools c) h) (\<lambda>a.
       bindE (rd_pool a h) (\<lambda>pool.
       bindE (mem_pool_alloc (hcaches h c) pool) (\<lambda>(data, pool).
       bindE (if pl_free pool \<noteq> obj_count (hcaches h c)
              then move_pool a (PartialPools c) (wr_pool a pool h)
              else Inr (wr_pool a pool h)) (\<lambda>h.
       Inr (Some data, h)))))
     else
       bindE (mem_pool_create c h) (\<lambda>(r, h).
       case r of
         None \<Rightarrow> Inr (None, h)
       | Some a \<Rightarrow>
           bindE (rd_pool a h) (\<lambda>pool.
           bindE (mem_pool_alloc (hcaches h c) pool) (\<lambda>(data, pool).
           bindE (with_links (list_add (PoolLL a) (PartialPools c)) (wr_pool a pool h)) (\<lambda>h.
           Inr (Some data, h)))))))"

definition mem_cache_free :: "nat \<Rightarrow> nat \<Rightarrow> heap \<Rightarrow> heap res" where
  "mem_cache_free c ptr h =
     (let cache = hcaches h c;
          pool_size = 2 ^ (pool_order cache + PAGE_SHIFT);
          a = align_down ptr pool_size + meta_offs cache
      in bindE (rd_pool a h) (\<lambda>pool.
         bindE (mem_pool_free cache pool ptr) (\<lambda>pool.
         bindE (if pl_free pool = 1 then move_pool a (PartialPools c) (wr_pool a pool h)
                else Inr (wr_pool a pool h)) (\<lambda>h.
         if pl_free pool = obj_count cache then move_pool a (FreePools c) h else Inr h))))"

section \<open>The general allocator\<close>

definition mem_pool_size :: "nat list" where
  "mem_pool_size = [
     64, 128, 192, 256, 320, 384, 448,
     512, 576, 640, 704, 768, 832, 896,
     960, 1024, 1152, 1280, 1408, 1536, 1664,
     1792, 1920, 2048, 2304, 2560, 2816, 3072,
     3584, 4096, 5120, 6144, 7168, 8192]"

definition MEM_POOLS :: nat where "MEM_POOLS = length mem_pool_size"

fun lookup_from :: "nat list \<Rightarrow> nat \<Rightarrow> nat \<Rightarrow> nat option" where
  "lookup_from [] i sz = None"
| "lookup_from (s # ss) i sz = (if s \<ge> sz then Some i else lookup_from ss (Suc i) sz)"

definition mem_pool_lookup :: "nat \<Rightarrow> nat option" where
  "mem_pool_lookup sz = lookup_from mem_pool_size 0 sz"

text \<open>\<open>left\<close> counts the iterations until \<open>order\<close> is \<open>MAX_ORDER + 1\<close>.\<close>

fun order_scan :: "nat \<Rightarrow> nat \<Rightarrow> nat \<Rightarrow> nat" where
  "order_scan 0 order sz = order"
| "order_scan (Suc left) order sz =
     (if 2 ^ (order + PAGE_SHIFT) \<ge> sz then order else order_scan left (Suc order) sz)"

definition mem_order_calculate :: "nat \<Rightarrow> nat" where
  "mem_order_calculate sz = order_scan (MAX_ORDER + 1) 0 sz"

fun setup_caches :: "nat \<Rightarrow> nat list \<Rightarrow> heap \<Rightarrow> heap res" where
  "setup_caches i [] h = Inr h"
| "setup_caches i (sz # ss) h =
     bindE (mem_cache_setup i sz (mem_pool_size ! 0) h) (setup_caches (Suc i) ss)"

definition mem_alloc_setup :: "heap \<Rightarrow> heap res" where
  "mem_alloc_setup h = setup_caches 0 mem_pool_size h"

fun shrink_caches :: "nat \<Rightarrow> nat \<Rightarrow> heap \<Rightarrow> heap res option" where
  "shrink_caches i 0 h = Some (Inr h)"
| "shrink_caches i (Suc n) h =
     (case mem_cache_shrink i h of
        None \<Rightarrow> None
      | Some (Inl t) \<Rightarrow> Some (Inl t)
      | Some (Inr h) \<Rightarrow> shrink_caches (Suc i) n h)"

definition mem_alloc_shrink :: "heap \<Rightarrow> heap res option" where
  "mem_alloc_shrink h = shrink_caches 0 MEM_POOLS h"

definition mem_alloc :: "nat \<Rightarrow> heap \<Rightarrow> (nat option \<times> heap) res" where
  "mem_alloc sz h =
     (case mem_pool_lookup sz of
        Some c \<Rightarrow> mem_cache_alloc c h
      | None \<Rightarrow>
          (let order = mem_order_calculate sz
           in bindE (page_alloc_desc order (hzones h)) (\<lambda>(page, zs).
              case page of
                None \<Rightarrow> Inr (None, h\<lparr>hzones := zs\<rparr>)
              | Some p \<Rightarrow>
                  bindE (upd_page (\<lambda>pg. (page_clear_bit pg PAGE_CACHE_BIT)\<lparr>pu := UOrder order\<rparr>) p zs) (\<lambda>zs.
                  bindE (page_addr p zs) (\<lambda>addr.
                  Inr (Some (va addr), h\<lparr>hzones := zs\<rparr>))))))"

definition mem_free :: "nat option \<Rightarrow> heap \<Rightarrow> heap res" where
  "mem_free ptr h =
     (case ptr of
        None \<Rightarrow> Inr h
      | Some ptr \<Rightarrow>
          bindE (addr_page (align_down (pa ptr) 4096) (hzones h)) (\<lambda>p.
          bindE (rd_page p (hzones h)) (\<lambda>page.
          if page_test_bit page PAGE_CACHE_BIT then
            (case pu page of UCache (Some c) \<Rightarrow> mem_cache_free c ptr h | _ \<Rightarrow> Inl Fault)
          else
            (case pu page of
               UOrder order \<Rightarrow>
                 bindE (upd_page (\<lambda>pg. (page_clear_bit pg PAGE_CACHE_BIT)\<lparr>pu := UOrder 0\<rparr>) p (hzones h)) (\<lambda>zs.
                 bindE (page_free (align_down (pa ptr) (2 ^ (order + PAGE_SHIFT))) order zs) (\<lambda>zs.
                 Inr (h\<lparr>hzones := zs\<rparr>)))
             | UCache _ \<Rightarrow> Inl Fault))))"

definition mem_realloc :: "nat option \<Rightarrow> nat \<Rightarrow> heap \<Rightarrow> (nat option \<times> heap) res" where
  "mem_realloc ptr sz h =
     (case ptr of
        None \<Rightarrow> mem_alloc sz h
      | Some old \<Rightarrow>
          bindE (addr_page (align_down (pa old) 4096) (hzones h)) (\<lambda>p.
          bindE (rd_page p (hzones h)) (\<lambda>page.
          bindE (if page_test_bit page PAGE_CACHE_BIT
                 then (case pu page of UCache (Some c) \<Rightarrow> Inr (obj_size (hcaches h c)) | _ \<Rightarrow> Inl Fault)
                 else (case pu page of UOrder order \<Rightarrow> Inr (2 ^ (PAGE_SHIFT + order)) | UCache _ \<Rightarrow> Inl Fault)) (\<lambda>old_size.
          if old_size \<ge> sz then Inr (ptr, h)
          else
            bindE (mem_alloc sz h) (\<lambda>(new, h).
            case new of
              None \<Rightarrow> Inr (None, h)
            | Some a \<Rightarrow>
                bindE (mem_free ptr (h\<lparr>hbytes := memcpy a old old_size (hbytes h)\<rparr>)) (\<lambda>h.
                Inr (Some a, h)))))))"

end
