(* ===== verification/Slab_Pool.thy ===== *)
theory Slab_Pool
  imports Slab
begin

unbundle bit_operations_syntax

text \<open>
  The layout of a slab cache and the bitmap of one pool: what the layout computation guarantees, and
  the operations of a pool as operations on the set of its used slots.
\<close>

section \<open>Layout\<close>

lemma ilog2_loop_spec:
  "0 < x \<Longrightarrow> val = 2 ^ p \<Longrightarrow> p = 0 \<or> 2 ^ (p - 1) < x \<Longrightarrow>
   x \<le> 2 ^ ilog2_loop x val p \<and> (ilog2_loop x val p = 0 \<or> 2 ^ (ilog2_loop x val p - 1) < x)"
proof (induction x val p rule: ilog2_loop.induct)
  case (1 x val p)
  show ?case
  proof (cases "val < x")
    case True
    then have "x \<le> 2 ^ ilog2_loop x (2 * val) (p + 1) \<and>
        (ilog2_loop x (2 * val) (p + 1) = 0 \<or> 2 ^ (ilog2_loop x (2 * val) (p + 1) - 1) < x)"
      using 1 by simp
    moreover have "ilog2_loop x val p = ilog2_loop x (2 * val) (p + 1)"
      using True 1(3) by (subst ilog2_loop.simps) simp
    ultimately show ?thesis by simp
  next
    case False
    then have "ilog2_loop x val p = p" by (subst ilog2_loop.simps) simp
    then show ?thesis using False 1 by auto
  qed
qed

lemma ilog2_0: "ilog2 0 = 0" "ilog2 1 = 0"
  by (simp_all add: ilog2_def ilog2_loop.simps)

text \<open>\<open>ilog2 x\<close> is the least power with \<open>x \<le> 2 ^ ilog2 x\<close>.\<close>

lemma ilog2_spec: "x \<le> 2 ^ ilog2 x" "y < ilog2 x \<Longrightarrow> 2 ^ y < x"
proof -
  have s: "x \<le> 2 ^ ilog2 x \<and> (ilog2 x = 0 \<or> 2 ^ (ilog2 x - 1) < x)"
    using ilog2_loop_spec [of x 1 0] by (cases "x = 0") (simp_all add: ilog2_0, simp add: ilog2_def)
  then show "x \<le> 2 ^ ilog2 x" by simp
  assume y: "y < ilog2 x"
  then have "(2::nat) ^ y \<le> 2 ^ (ilog2 x - 1)" by (intro power_increasing) auto
  then show "2 ^ y < x" using s y by linarith
qed

lemma ceil_div_64: "ceil_div n OBJS_PER_WORD = (n + 63) div 64"
  by (simp add: ceil_div_def OBJS_PER_WORD_def WORD_SZ_def)

lemma meta_size_eq: "meta_size n = 40 + 8 * ((n + 63) div 64)"
proof -
  have "(40 + 8 * c + 8 - 1) div 8 = 5 + c" for c :: nat by presburger
  then show ?thesis
    unfolding meta_size_def align_up_def ceil_div_64 ceil_div_def [of _ 8] WORD_SZ_def by simp
qed

lemma meta_size_mono: "m \<le> n \<Longrightarrow> meta_size m \<le> meta_size n"
  by (auto simp: meta_size_eq intro: div_le_mono)

lemma meta_size_dvd: "8 dvd meta_size n"
  by (simp add: meta_size_eq)

lemma align_up_spec:
  assumes "0 < align"
  shows "sz \<le> align_up sz align" "align_up sz align < sz + align" "align dvd align_up sz align"
proof -
  have "align_up sz align + (sz + align - 1) mod align = sz + align - 1"
    unfolding align_up_def ceil_div_def by (rule mult_div_mod_eq)
  moreover have "(sz + align - 1) mod align < align" using assms by simp
  ultimately show "sz \<le> align_up sz align" "align_up sz align < sz + align" using assms by linarith+
  show "align dvd align_up sz align" by (simp add: align_up_def)
qed

lemma align_down_spec:
  assumes "0 < align"
  shows "align_down a align \<le> a" "a < align_down a align + align" "align dvd align_down a align"
  using assms by (simp_all add: align_down_def floor_div_def dividend_less_times_div)
    (metis add.commute assms dividend_less_times_div)

lemma align_down_unique:
  assumes "align dvd b" "b \<le> a" "a < b + align"
  shows "align_down a align = b"
proof -
  obtain q where q: "b = align * q" using assms(1) by auto
  have "a div align = q" using assms(2,3) q by (intro div_nat_eqI) (auto simp: mult.commute)
  then show ?thesis using q by (simp add: align_down_def floor_div_def)
qed

lemma fit_objs_spec:
  "fit_objs osz ps n \<le> n \<and> (fit_objs osz ps n \<noteq> 0 \<longrightarrow> osz * fit_objs osz ps n + meta_size (fit_objs osz ps n) \<le> ps)
   \<and> (\<forall>j. fit_objs osz ps n < j \<longrightarrow> j \<le> n \<longrightarrow> ps < osz * j + meta_size j)"
  by (induction n) (auto simp: le_Suc_eq)

text \<open>What every later step relies on.\<close>

definition cache_wf :: "mem_cache \<Rightarrow> bool" where
  "cache_wf c \<longleftrightarrow> 0 < obj_size c \<and> 2 \<le> obj_count c \<and> obj_count c * obj_size c \<le> meta_offs c \<and>
     meta_offs c + meta_size (obj_count c) = 2 ^ (pool_order c + PAGE_SHIFT) \<and>
     mask_words c = (obj_count c + 63) div 64 \<and> 8 dvd meta_offs c"

lemma pool_size_bounds:
  fixes osz :: nat
  defines "ms \<equiv> osz * 8 + 48"
  defines "ps \<equiv> (2::nat) ^ (ilog2 (ms div 4096) + 12)"
  shows "4096 \<le> ps" "ms < ps + 4096" "2 * 4096 \<le> ms \<Longrightarrow> ms div 4096 * 4096 \<le> ps"
proof -
  have p: "ps = 2 ^ ilog2 (ms div 4096) * 4096" by (simp add: ps_def power_add)
  have "ms div 4096 \<le> 2 ^ ilog2 (ms div 4096)" by (rule ilog2_spec(1))
  then have le: "ms div 4096 * 4096 \<le> ps" unfolding p by (rule mult_right_mono) simp
  then show "2 * 4096 \<le> ms \<Longrightarrow> ms div 4096 * 4096 \<le> ps" by simp
  show "4096 \<le> ps" by (simp add: p)
  have "ms = ms div 4096 * 4096 + ms mod 4096" "ms mod 4096 < 4096" by simp_all
  then show "ms < ps + 4096" using le by linarith
qed

lemma layout_spec:
  assumes "mem_cache_layout_setup sz align = Inr c" "0 < sz"
  shows "cache_wf c" and "3 \<le> obj_count c" and "obj_size c = align_up sz align"
    and "\<forall>n > obj_count c. 2 ^ (pool_order c + PAGE_SHIFT) < n * obj_size c + meta_size n"
proof -
  define osz where "osz = align_up sz align"
  define order where "order = ilog2 ((osz * 8 + 48) div 4096)"
  define ps where "ps = (2::nat) ^ (order + 12)"
  define objs where "objs = fit_objs osz ps (ps div osz)"
  have al: "0 < align" using assms(1) by (cases "align = 0") (auto simp: mem_cache_layout_setup_def)
  have osz: "0 < osz" using align_up_spec(1) [OF al, of sz] assms(2) by (simp add: osz_def)
  have ms: "meta_size MIN_POOL_OBJS = 48" by (simp add: meta_size_eq MIN_POOL_OBJS_def)
  have c: "c = \<lparr>meta_offs = ps - meta_size objs, obj_count = objs, mask_words = (objs + 63) div 64,
      obj_size = osz, pool_order = order\<rparr>"
    using assms(1) al osz
    unfolding mem_cache_layout_setup_def Let_def osz_def [symmetric] ms ceil_div_64
    by (simp add: MIN_POOL_OBJS_def PAGE_SHIFT_def drop_bit_eq_div objs_def ps_def order_def)
  note fit = fit_objs_spec [of osz ps "ps div osz", folded objs_def]
  have big: "ps < osz * j + meta_size j" if "objs < j" for j
  proof (cases "j \<le> ps div osz")
    case True
    then show ?thesis using fit that by blast
  next
    case False
    then have "ps div osz < j" by simp
    then have "ps < j * osz" using osz by (simp add: div_less_iff_less_mult)
    then show ?thesis by (simp add: mult.commute)
  qed
  have b: "4096 \<le> ps" "osz * 8 + 48 < ps + 4096" "2 * 4096 \<le> osz * 8 + 48 \<Longrightarrow> 2 * 4096 \<le> ps"
  proof -
    show "4096 \<le> ps" "osz * 8 + 48 < ps + 4096"
      using pool_size_bounds(1,2) [of osz] by (simp_all add: ps_def order_def)
    assume two: "2 * 4096 \<le> osz * 8 + 48"
    then have "2 \<le> (osz * 8 + 48) div 4096" by linarith
    then show "2 * 4096 \<le> ps" using pool_size_bounds(3) [of osz] two by (simp add: ps_def order_def)
  qed
  have three: "3 \<le> objs"
  proof (rule ccontr)
    assume "\<not> 3 \<le> objs"
    then have "ps < osz * 3 + 48" using big [of 3] by (simp add: meta_size_eq)
    then show False using b by linarith
  qed
  then have f: "osz * objs + meta_size objs \<le> ps" using fit by simp
  have "8 dvd ps" by (simp add: ps_def power_add)
  then have "8 dvd ps - meta_size objs" using meta_size_dvd by (simp add: dvd_diff_nat)
  then show "cache_wf c" using osz three f by (simp add: cache_wf_def c ps_def PAGE_SHIFT_def mult.commute)
  show "3 \<le> obj_count c" "obj_size c = align_up sz align" using three by (simp_all add: c osz_def)
  show "\<forall>n > obj_count c. 2 ^ (pool_order c + PAGE_SHIFT) < n * obj_size c + meta_size n"
    using big by (simp add: c ps_def PAGE_SHIFT_def mult.commute)
qed

lemma layout_total: "0 < sz \<Longrightarrow> 0 < align \<Longrightarrow> \<exists>c. mem_cache_layout_setup sz align = Inr c"
  using align_up_spec(1) [of align sz] by (simp add: mem_cache_layout_setup_def Let_def)

section \<open>Finding a clear bit\<close>

lemma ffs_scan_spec:
  "i + left = 8 \<Longrightarrow> msk = push_bit (stp * i) m0 \<Longrightarrow>
   i \<le> ffs_scan stp left bm msk i \<and> ffs_scan stp left bm msk i \<le> 8
   \<and> (\<forall>j. i \<le> j \<longrightarrow> j < ffs_scan stp left bm msk i \<longrightarrow> bm AND push_bit (stp * j) m0 = 0)
   \<and> (ffs_scan stp left bm msk i < 8 \<longrightarrow> bm AND push_bit (stp * ffs_scan stp left bm msk i) m0 \<noteq> 0)"
proof (induction stp left bm msk i rule: ffs_scan.induct)
  case (1 stp bm msk i)
  then show ?case by auto
next
  case (2 stp left bm msk i)
  show ?case
  proof (cases "bm AND msk \<noteq> 0")
    case True
    then show ?thesis using 2 by auto
  next
    case False
    have "push_bit stp msk = push_bit (stp * Suc i) m0" using 2(3) by simp
    note ih = 2(1) [OF False _ this]
    have "bm AND push_bit (stp * j) m0 = 0" if "i \<le> j" "j < ffs_scan stp left bm (push_bit stp msk) (Suc i)" for j
      using that ih 2(2,3) False by (cases "j = i") auto
    then show ?thesis using ih 2(2) False by auto
  qed
qed

lemma bit_neg_one64 [simp]: "bit (NOT 0 :: u64) n \<longleftrightarrow> n < 64"
  by (simp add: bit_simps)

lemma and_single_bit: "n < 64 \<Longrightarrow> (bm::u64) AND push_bit n 1 = 0 \<longleftrightarrow> \<not> bit bm n"
  by (simp add: push_bit_eq_mult and_exp_eq_0_iff_not_bit)

lemma and_byte: "b < 8 \<Longrightarrow> (bm::u64) AND push_bit (8 * b) 0xff = 0 \<longleftrightarrow> (\<forall>r<8. \<not> bit bm (8 * b + r))"
proof -
  assume b: "b < 8"
  have ff: "(0xff::u64) = mask 8" by (simp add: mask_eq_exp_minus_1)
  have bits: "bit (bm AND push_bit (8 * b) 0xff) n \<longleftrightarrow> bit bm n \<and> 8 * b \<le> n \<and> n < 8 * b + 8" for n
    unfolding ff using b by (auto simp: bit_simps dest: bit_imp_le_length)
  have "bm AND push_bit (8 * b) 0xff = 0 \<longleftrightarrow> (\<forall>n. \<not> (bit bm n \<and> 8 * b \<le> n \<and> n < 8 * b + 8))"
    using bits by (metis bit_0_eq bit_eqI bot_apply bot_bool_def)
  also have "\<dots> \<longleftrightarrow> (\<forall>r<8. \<not> bit bm (8 * b + r))"
    by (metis le_add1 le_add_diff_inverse nat_add_left_cancel_less)
  finally show ?thesis .
qed

text \<open>\<open>ffs\<close> finds the lowest set bit.\<close>

lemma ffs_spec:
  assumes "bm \<noteq> 0"
  shows "bit bm (ffs bm)" "ffs bm < 64" "j < ffs bm \<Longrightarrow> \<not> bit bm j"
proof -
  define byte where "byte = ffs_scan 8 8 bm 0xff 0"
  define r where "r = ffs_scan 1 8 bm (push_bit (byte * 8) 1) 0"
  have f: "ffs bm = byte * 8 + r" by (simp only: ffs_def byte_def r_def Let_def)
  have s8: "byte \<le> 8" "\<forall>j<byte. bm AND push_bit (8 * j) 0xff = 0"
    "byte < 8 \<longrightarrow> bm AND push_bit (8 * byte) 0xff \<noteq> 0"
    using ffs_scan_spec [of 0 8 "0xff" 8 "0xff" bm] by (auto simp: byte_def)
  have "\<exists>n. bit bm n" using assms by (auto simp: bit_eq_iff)
  then obtain n where "bit bm n" by blast
  then have n: "bit bm n" "n < 64" using bit_imp_le_length [of bm n] by simp_all
  have low: "\<not> bit bm j" if j: "j < byte * 8" for j
  proof -
    have "j div 8 < byte" using j by (simp add: div_less_iff_less_mult)
    then have "\<forall>r<8. \<not> bit bm (8 * (j div 8) + r)" using s8 and_byte [of "j div 8" bm] by auto
    moreover have "8 * (j div 8) + j mod 8 = j" "j mod 8 < 8" by simp_all
    ultimately show ?thesis by metis
  qed
  have b8: "byte < 8" using low [of n] n s8(1) by (cases "byte = 8") auto
  then obtain q where q: "q < 8" "bit bm (8 * byte + q)" using s8(3) and_byte [of byte bm] by auto
  have s1: "r \<le> 8" "\<forall>j<r. bm AND push_bit j (push_bit (byte * 8) 1) = 0"
    "r < 8 \<longrightarrow> bm AND push_bit r (push_bit (byte * 8) 1) \<noteq> 0"
    using ffs_scan_spec [of 0 8 "push_bit (byte * 8) 1" 1 "push_bit (byte * 8) 1" bm] by (auto simp: r_def)
  have bits: "bm AND push_bit j (push_bit (byte * 8) 1) = 0 \<longleftrightarrow> \<not> bit bm (byte * 8 + j)" if "j < 8" for j
  proof -
    have "push_bit j (push_bit (byte * 8) 1) = push_bit (byte * 8 + j) (1::u64)"
      by (simp only: push_bit_push_bit add.commute)
    then show ?thesis using and_single_bit [of "byte * 8 + j" bm] that b8 by simp
  qed
  have r8: "r < 8"
  proof (rule ccontr)
    assume "\<not> r < 8"
    then show False using s1(2) bits [OF q(1)] q by (auto simp: mult.commute)
  qed
  show "bit bm (ffs bm)" using s1(3) bits [OF r8] r8 f by simp
  show "ffs bm < 64" using f b8 r8 by simp
  show "\<not> bit bm j" if "j < ffs bm"
  proof (cases "j < byte * 8")
    case True
    then show ?thesis by (rule low)
  next
    case False
    then have "j - byte * 8 < r" using that f by linarith
    then show ?thesis using s1(2) bits [of "j - byte * 8"] r8 False by simp
  qed
qed

lemma find_word_spec:
  "find_word bm w n = None \<longleftrightarrow> (\<forall>i<n. bm ! (w + i) = NOT 0)"
  "find_word bm w n = Some v \<Longrightarrow> w \<le> v \<and> v < w + n \<and> bm ! v \<noteq> NOT 0 \<and> (\<forall>i. w \<le> i \<longrightarrow> i < v \<longrightarrow> bm ! i = NOT 0)"
proof (induction bm w n rule: find_word.induct)
  case (2 bm w n)
  {
    case 1
    show ?case using 2(1) by (auto simp: less_Suc_eq_0_disj)
  next
    case 2
    show ?case
    proof (cases "bm ! w = NOT 0")
      case True
      then have "Suc w \<le> v \<and> v < Suc w + n \<and> bm ! v \<noteq> NOT 0 \<and> (\<forall>i. Suc w \<le> i \<longrightarrow> i < v \<longrightarrow> bm ! i = NOT 0)"
        using \<open>bm ! w = NOT 0 \<Longrightarrow> find_word bm (Suc w) n = Some v \<Longrightarrow> _\<close> 2 by simp
      then show ?thesis using True by (metis Suc_leD Suc_le_eq add_Suc_right add_Suc_shift le_neq_implies_less)
    next
      case False
      then show ?thesis using 2 by auto
    qed
  }
qed auto

section \<open>The slots of a pool\<close>

definition used :: "u64 list \<Rightarrow> nat \<Rightarrow> bool" where
  "used bm p \<longleftrightarrow> bit (bm ! (p div 64)) (p mod 64)"

definition slots :: "mem_cache \<Rightarrow> mem_pool \<Rightarrow> nat set" where
  "slots c pl = {p. p < obj_count c \<and> used (bitmask pl) p}"

text \<open>
  The bits beyond the last object are set, so the search never finds them, and \<open>pl_free\<close> counts the
  clear bits.
\<close>

definition pool_wf :: "mem_cache \<Rightarrow> mem_pool \<Rightarrow> bool" where
  "pool_wf c pl \<longleftrightarrow> length (bitmask pl) = mask_words c \<and>
     (\<forall>p<64 * mask_words c. obj_count c \<le> p \<longrightarrow> used (bitmask pl) p) \<and>
     pl_free pl + card (slots c pl) = obj_count c"

lemma finite_slots [simp]: "finite (slots c pl)"
  by (simp add: slots_def)

lemma slots_lt: "p \<in> slots c pl \<Longrightarrow> p < obj_count c"
  by (simp add: slots_def)

lemma slot_split: "b < 64 \<Longrightarrow> (p::nat) = 64 * w + b \<longleftrightarrow> p div 64 = w \<and> p mod 64 = b"
  using div_mult_mod_eq [of p 64] by auto

lemma div_less_imp: "(a::nat) div k < b div k \<Longrightarrow> a < b"
  by (meson div_le_mono not_le)

lemma OBJS_64: "OBJS_PER_WORD = 64"
  by (simp add: OBJS_PER_WORD_def WORD_SZ_def)

lemma ceil64: "((n::nat) + 63) div 64 = (if n mod 64 = 0 then n div 64 else n div 64 + 1)"
proof -
  have e: "n + 63 = n div 64 * 64 + (n mod 64 + 63)" by simp
  have "(n + 63) div 64 = n div 64 + (n mod 64 + 63) div 64" by (subst e) (simp only: div_mult_self4 zero_neq_numeral simp_thms)
  moreover have "(n mod 64 + 63) div 64 = (if n mod 64 = 0 then 0 else 1)"
    by (auto intro!: div_nat_eqI)
  ultimately show ?thesis by simp
qed

lemma used_set:
  "w < length bm \<Longrightarrow> b < 64 \<Longrightarrow> used (bm[w := bm ! w OR push_bit b 1]) p \<longleftrightarrow> used bm p \<or> p = 64 * w + b"
  by (auto simp: used_def nth_list_update bit_simps slot_split)

lemma used_clear:
  "w < length bm \<Longrightarrow> b < 64 \<Longrightarrow> used (bm[w := bm ! w AND NOT (push_bit b 1)]) p \<longleftrightarrow> used bm p \<and> p \<noteq> 64 * w + b"
  by (auto simp: used_def nth_list_update bit_simps slot_split)

lemma word_full_iff: "(x::u64) = NOT 0 \<longleftrightarrow> (\<forall>b<64. bit x b)"
  by (auto simp: bit_eq_iff dest: bit_imp_le_length)

lemma obj_word: "cache_wf c \<Longrightarrow> p < obj_count c \<Longrightarrow> p div 64 < mask_words c"
  by (simp add: cache_wf_def)

lemma bitmap_setup_wf:
  assumes "cache_wf c" "bitmask pl = mem_pool_bitmap_setup c" "pl_free pl = obj_count c"
  shows "pool_wf c pl" "slots c pl = {}"
proof -
  let ?w = "obj_count c div 64" and ?p = "obj_count c mod 64" and ?n = "mask_words c"
  have n: "?n = (if ?p = 0 then ?w else ?w + 1)" using assms(1) by (simp add: cache_wf_def ceil64)
  have bm: "mem_pool_bitmap_setup c =
      (if ?p \<noteq> 0 then (replicate ?n 0)[?w := NOT (push_bit ?p 1 - 1)] else replicate ?n 0)"
    using n by (simp add: mem_pool_bitmap_setup_def Let_def OBJS_PER_WORD_def WORD_SZ_def)
  have not: "bit (NOT (push_bit ?p 1 - 1) :: u64) b \<longleftrightarrow> ?p \<le> b" if "b < 64" for b
    using that by (auto simp: push_bit_eq_mult mask_eq_exp_minus_1 [symmetric] bit_simps)
  have u: "used (mem_pool_bitmap_setup c) q \<longleftrightarrow> obj_count c \<le> q" if q: "q < 64 * ?n" for q
  proof -
    have wq: "q div 64 < ?n" using q by (simp add: div_less_iff_less_mult mult.commute)
    show ?thesis
    proof (cases "?p = 0")
      case True
      then have "q div 64 < ?w" using wq n by simp
      then have "q < obj_count c" by (rule div_less_imp)
      then show ?thesis using True bm wq by (simp add: used_def)
    next
      case False
      show ?thesis
      proof (cases "q div 64 = ?w")
        case True
        have "?p \<le> q mod 64 \<longleftrightarrow> obj_count c \<le> q"
          using True div_mult_mod_eq [of q 64] div_mult_mod_eq [of "obj_count c" 64] by linarith
        then show ?thesis using False bm wq True not [of "q mod 64"] by (simp add: used_def)
      next
        case ne: False
        then have "q div 64 < ?w" using wq n False by simp
        then have "q < obj_count c" by (rule div_less_imp)
        then show ?thesis using False bm wq ne by (simp add: used_def)
      qed
    qed
  qed
  have "obj_count c = obj_count c div 64 * 64 + ?p" "?p < 64" by simp_all
  moreover have "?w \<le> ?n" "?p \<noteq> 0 \<Longrightarrow> ?w + 1 \<le> ?n" using n by simp_all
  ultimately have le: "obj_count c \<le> 64 * ?n" by linarith
  show e: "slots c pl = {}" using u le by (auto simp: slots_def assms(2))
  have "length (mem_pool_bitmap_setup c) = ?n" by (simp add: bm)
  then show "pool_wf c pl" using u e assms(2,3) by (simp add: pool_wf_def)
qed

section \<open>Allocation and release of a slot\<close>

lemma mem_pool_alloc_spec:
  assumes c: "cache_wf c" and wf: "pool_wf c pl" and fr: "0 < pl_free pl"
  shows "\<exists>p pl'. mem_pool_alloc c pl = Inr (pl_data pl + p * obj_size c, pl') \<and> p < obj_count c
    \<and> p \<notin> slots c pl \<and> {..<p} \<subseteq> slots c pl \<and> slots c pl' = insert p (slots c pl) \<and> pool_wf c pl'
    \<and> pl_free pl' = pl_free pl - 1 \<and> pl_page pl' = pl_page pl \<and> pl_data pl' = pl_data pl"
proof -
  let ?bm = "bitmask pl"
  have len: "length ?bm = mask_words c" and hi: "\<forall>p<64 * mask_words c. obj_count c \<le> p \<longrightarrow> used ?bm p"
    and cnt: "pl_free pl + card (slots c pl) = obj_count c" using wf by (auto simp: pool_wf_def)
  have "\<exists>q<obj_count c. \<not> used ?bm q"
  proof (rule ccontr)
    assume "\<not> (\<exists>q<obj_count c. \<not> used ?bm q)"
    then have "slots c pl = {..<obj_count c}" by (auto simp: slots_def)
    then show False using cnt fr by simp
  qed
  then obtain q where q: "q < obj_count c" "\<not> used ?bm q" by blast
  have "?bm ! (q div 64) \<noteq> NOT 0" using q(2) by (auto simp: used_def word_full_iff)
  then have "find_word ?bm 0 (mask_words c) \<noteq> None"
    using obj_word [OF c q(1)] by (auto simp: find_word_spec(1))
  then obtain w where w: "find_word ?bm 0 (mask_words c) = Some w" by blast
  have w': "w < mask_words c" "?bm ! w \<noteq> NOT 0" "\<forall>i<w. ?bm ! i = NOT 0"
    using find_word_spec(2) [OF w] by auto
  define b where "b = ffs (NOT (?bm ! w))"
  have nz: "NOT (?bm ! w) \<noteq> 0" using w'(2) by (metis bit.double_compl)
  note f = ffs_spec [OF nz, folded b_def]
  have b: "\<not> bit (?bm ! w) b" "b < 64" "\<forall>j<b. bit (?bm ! w) j"
    using f by (auto simp: bit_simps)
  define p where "p = 64 * w + b"
  define pl' where "pl' = pl\<lparr>bitmask := ?bm[w := ?bm ! w OR push_bit b 1], pl_free := pl_free pl - 1\<rparr>"
  have pd: "p div 64 = w" "p mod 64 = b" using b(2) by (simp_all add: p_def)
  have np: "\<not> used ?bm p" using b(1) by (simp add: used_def pd)
  have "p < 64 * mask_words c" using w'(1) b(2) by (simp add: p_def)
  then have plt: "p < obj_count c" using hi np by (meson not_less)
  have low: "used ?bm j" if "j < p" for j
  proof (cases "j div 64 = w")
    case True
    then have "j mod 64 < b" using that p_def div_mult_mod_eq [of j 64] by linarith
    then show ?thesis using b(3) True by (simp add: used_def)
  next
    case False
    then have "j div 64 < w" using that pd(1) div_le_mono [of j p 64] by linarith
    then show ?thesis using w'(3) by (simp add: used_def)
  qed
  have us: "used (bitmask pl') j \<longleftrightarrow> used ?bm j \<or> j = p" for j
    using used_set [of w ?bm b j] w'(1) b(2) len by (simp add: pl'_def p_def)
  have sl: "slots c pl' = insert p (slots c pl)" using us plt by (auto simp: slots_def)
  have ps: "p \<notin> slots c pl" using np by (simp add: slots_def)
  have "pool_wf c pl'" using len hi us cnt ps fr sl unfolding pool_wf_def by (simp add: pl'_def)
  moreover have "mem_pool_alloc c pl = Inr (pl_data pl + p * obj_size c, pl')"
    using fr w by (simp add: mem_pool_alloc_def Let_def b_def [symmetric] OBJS_PER_WORD_def WORD_SZ_def pl'_def p_def)
  moreover have "{..<p} \<subseteq> slots c pl" using low plt by (auto simp: slots_def)
  ultimately show ?thesis using plt ps sl
    by (intro exI [of _ p] exI [of _ pl']) (simp add: pl'_def)
qed

text \<open>
  \<open>mem_pool_free\<close> takes any address inside an object.  It stops the kernel if the slot is not in use
  or the address is outside the objects of the pool.
\<close>

lemma mem_pool_free_spec:
  assumes c: "cache_wf c" and wf: "pool_wf c pl" and a: "pl_data pl \<le> ptr" "ptr < 2 ^ 64"
  defines "p \<equiv> (ptr - pl_data pl) div obj_size c"
  shows "p \<in> slots c pl \<Longrightarrow> \<exists>pl'. mem_pool_free c pl ptr = Inr pl' \<and> slots c pl' = slots c pl - {p}
      \<and> pool_wf c pl' \<and> pl_free pl' = pl_free pl + 1 \<and> pl_page pl' = pl_page pl \<and> pl_data pl' = pl_data pl"
    and "p \<notin> slots c pl \<Longrightarrow> mem_pool_free c pl ptr = Inl Bug"
proof -
  let ?bm = "bitmask pl" and ?w = "p div 64" and ?b = "p mod 64"
  have offs: "unat (word_of_nat ptr - word_of_nat (pl_data pl) :: u64) = ptr - pl_data pl"
  proof -
    have "(word_of_nat ptr - word_of_nat (pl_data pl) :: u64) = word_of_nat (ptr - pl_data pl)"
      using a(1) by (simp only: of_nat_diff)
    also have "unat (word_of_nat (ptr - pl_data pl) :: u64) = ptr - pl_data pl"
    proof -
      have "ptr - pl_data pl < 2 ^ 64" using a(2) by linarith
      then show ?thesis by (simp add: unat_of_nat)
    qed
    finally show ?thesis .
  qed
  have len: "length ?bm = mask_words c" and hi: "\<forall>p<64 * mask_words c. obj_count c \<le> p \<longrightarrow> used ?bm p"
    and cnt: "pl_free pl + card (slots c pl) = obj_count c" using wf by (auto simp: pool_wf_def)
  have test: "?bm ! ?w AND push_bit ?b 1 = 0 \<longleftrightarrow> \<not> used ?bm p"
    unfolding used_def by (rule and_single_bit) simp
  have run: "mem_pool_free c pl ptr =
      bug_on (p \<ge> obj_count c) (bug_on (\<not> used ?bm p) (bug_on (pl_free pl + 1 > obj_count c)
        (Inr (pl\<lparr>bitmask := ?bm[?w := ?bm ! ?w AND NOT (push_bit ?b 1)], pl_free := pl_free pl + 1\<rparr>))))"
    unfolding mem_pool_free_def Let_def offs OBJS_64 p_def [symmetric] test ..
  show "p \<notin> slots c pl \<Longrightarrow> mem_pool_free c pl ptr = Inl Bug"
    unfolding run by (auto simp: slots_def bug_on_def)
  assume p: "p \<in> slots c pl"
  then have plt: "p < obj_count c" "used ?bm p" by (auto simp: slots_def)
  define pl' where "pl' = pl\<lparr>bitmask := ?bm[?w := ?bm ! ?w AND NOT (push_bit ?b 1)], pl_free := pl_free pl + 1\<rparr>"
  have "1 \<le> card (slots c pl)" using p by (metis card_gt_0_iff empty_iff finite_slots less_eq_Suc_le One_nat_def)
  then have "mem_pool_free c pl ptr = Inr pl'" using run plt cnt by (simp add: pl'_def)
  moreover have us: "used (bitmask pl') j \<longleftrightarrow> used ?bm j \<and> j \<noteq> p" for j
    using used_clear [of ?w ?bm ?b j] obj_word [OF c plt(1)] len by (simp add: pl'_def)
  then have sl: "slots c pl' = slots c pl - {p}" by (auto simp: slots_def)
  moreover have "pool_wf c pl'"
    using len hi us cnt sl p plt \<open>1 \<le> card (slots c pl)\<close> unfolding pool_wf_def by (auto simp: pl'_def)
  ultimately show "\<exists>pl'. mem_pool_free c pl ptr = Inr pl' \<and> slots c pl' = slots c pl - {p}
      \<and> pool_wf c pl' \<and> pl_free pl' = pl_free pl + 1 \<and> pl_page pl' = pl_page pl \<and> pl_data pl' = pl_data pl"
    by (intro exI [of _ pl']) (simp add: pl'_def)
qed

end
