(* ===== verification/Blocks.thy ===== *)
theory Blocks
  imports Kernel_Base
begin

unbundle bit_operations_syntax

text \<open>
  Aligned power-of-two blocks of frame numbers and the buddy arithmetic, shared by the proofs about
  the page allocator: what \<open>idx ^ (1ull << order)\<close> computes, how aligned blocks nest, and that a set
  of frames has only one representation by aligned blocks no two of which are free buddies.
\<close>

section \<open>The buddy of a block\<close>

definition buddy :: "nat \<Rightarrow> nat \<Rightarrow> nat" where
  "buddy k i = i XOR 2 ^ k"

lemma buddy_bit: "buddy k i = (if bit i k then i - 2 ^ k else i + 2 ^ k)"
proof -
  have fl: "buddy k i = flip_bit k i"
    by (simp add: buddy_def flip_bit_eq_xor push_bit_eq_mult)
  show ?thesis
  proof (cases "bit i k")
    case True
    have "i = set_bit k (unset_bit k i)"
      using True by (intro bit_eqI) (auto simp: bit_simps)
    also have "\<dots> = unset_bit k i + 2 ^ k" by (simp add: set_bit_eq bit_simps)
    finally show ?thesis using True by (simp add: fl flip_bit_eq_if)
  next
    case False
    then show ?thesis by (simp add: fl flip_bit_eq_if set_bit_eq)
  qed
qed

lemma bit_imp_ge: "bit (i::nat) k \<Longrightarrow> 2 ^ k \<le> i"
  by (auto simp: bit_iff_odd) (metis div_less even_zero not_le)

lemma buddy_buddy [simp]: "buddy k (buddy k i) = i"
  by (simp add: buddy_def xor.assoc)

lemma buddy_neq [simp]: "buddy k i \<noteq> i" "i \<noteq> buddy k i"
proof -
  have "i - 2 ^ k < i" if "bit i k"
    using bit_imp_ge [OF that] zero_less_power [of "2::nat" k] by linarith
  then show "buddy k i \<noteq> i" by (auto simp: buddy_bit)
  then show "i \<noteq> buddy k i" by simp
qed

lemma buddy_eq_iff: "buddy k i = j \<longleftrightarrow> i = buddy k j"
  by auto

lemma and_mask_dvd: "(i::nat) AND (2 ^ k - 1) = 0 \<longleftrightarrow> 2 ^ k dvd i"
proof -
  have "i AND (2 ^ k - 1) = i AND mask k" by (simp only: mask_eq_exp_minus_1)
  also have "\<dots> = i mod 2 ^ k" by (simp only: take_bit_eq_mask [symmetric] take_bit_eq_mod)
  finally show ?thesis by auto
qed

lemma bit_iff_half_not_dvd: "2 ^ k dvd i \<Longrightarrow> bit (i::nat) k \<longleftrightarrow> \<not> 2 ^ Suc k dvd i"
  by (auto simp: bit_iff_odd elim!: dvdE)

lemma buddy_dvd: "2 ^ k dvd i \<Longrightarrow> 2 ^ k dvd buddy k i"
  by (auto simp: buddy_bit dest: bit_imp_ge intro: dvd_diff_nat)

text \<open>The lower of the two buddies starts the block one order up.\<close>

lemma buddy_lower:
  assumes "2 ^ k dvd i"
  shows "2 ^ Suc k dvd min i (buddy k i)"
proof (cases "bit i k")
  case True
  then obtain q where q: "i = 2 ^ k * q" "odd q"
    using assms by (auto simp: bit_iff_odd elim!: dvdE)
  then have "i - 2 ^ k = 2 ^ Suc k * (q div 2)"
    by (auto elim!: oddE simp: algebra_simps)
  moreover have "min i (buddy k i) = i - 2 ^ k" using True by (simp add: buddy_bit)
  ultimately show ?thesis by simp
next
  case False
  then show ?thesis using assms by (simp add: buddy_bit bit_iff_half_not_dvd)
qed

section \<open>Blocks\<close>

definition blk :: "nat \<Rightarrow> nat \<Rightarrow> nat set" where
  "blk i k = {i ..< i + 2 ^ k}"

definition aligned :: "nat \<Rightarrow> nat \<Rightarrow> bool" where
  "aligned i k \<longleftrightarrow> 2 ^ k dvd i"

lemma blk_self [simp]: "i \<in> blk i k"
  by (simp add: blk_def)

lemma finite_blk [simp]: "finite (blk i k)"
  by (simp add: blk_def)

lemma card_blk [simp]: "card (blk i k) = 2 ^ k"
  by (simp add: blk_def)

lemma mem_blk_iff: "aligned i k \<Longrightarrow> j \<in> blk i k \<longleftrightarrow> j div 2 ^ k = i div 2 ^ k"
proof -
  assume "aligned i k"
  then obtain q where q: "i = 2 ^ k * q" by (auto simp: aligned_def)
  have "j \<in> blk i k \<longleftrightarrow> q * 2 ^ k \<le> j \<and> j < Suc q * 2 ^ k"
    using q by (auto simp: blk_def algebra_simps)
  also have "\<dots> \<longleftrightarrow> j div 2 ^ k = q"
    by (auto simp: div_nat_eqI dividend_less_times_div algebra_simps)
  finally show ?thesis using q by simp
qed

lemma aligned_mono: "aligned i k \<Longrightarrow> j \<le> k \<Longrightarrow> aligned i j"
  by (auto simp: aligned_def intro: dvd_trans [OF le_imp_power_dvd])

text \<open>Aligned blocks nest or are disjoint.\<close>

lemma blk_nested:
  assumes "aligned i k" "aligned j l" "k \<le> l"
  shows "blk i k \<subseteq> blk j l \<or> blk i k \<inter> blk j l = {}"
proof -
  have sub: "x div 2 ^ l = i div 2 ^ l" if "x \<in> blk i k" for x
  proof -
    have "x div 2 ^ k = i div 2 ^ k" using that mem_blk_iff [OF assms(1)] by simp
    then have "x div 2 ^ k div 2 ^ (l - k) = i div 2 ^ k div 2 ^ (l - k)" by simp
    moreover have p: "(2::nat) ^ l = 2 ^ k * 2 ^ (l - k)"
      using assms(3) by (simp add: power_add [symmetric])
    ultimately show ?thesis by (simp only: p div_mult2_eq)
  qed
  have "x \<in> blk j l \<longleftrightarrow> i \<in> blk j l" if "x \<in> blk i k" for x
    using sub [OF that] mem_blk_iff [OF assms(2), of x] mem_blk_iff [OF assms(2), of i] by simp
  then show ?thesis by blast
qed

lemma blk_subset_order: "blk i k \<subseteq> blk j l \<Longrightarrow> k \<le> l"
  using card_mono [OF finite_blk, of "blk i k" j l] by simp

text \<open>A frame aligned to \<open>k\<close> inside an aligned block of order at most \<open>k\<close> is its first frame.\<close>

lemma blk_head:
  assumes "aligned i k" "aligned j l" "l \<le> k" "i \<in> blk j l"
  shows "i = j"
proof -
  have "aligned i l" using assms(1,3) by (rule aligned_mono)
  moreover have "i div 2 ^ l = j div 2 ^ l" using assms mem_blk_iff by blast
  ultimately show ?thesis using assms(2) by (metis aligned_def dvd_div_mult_self)
qed

lemma blk_merge:
  assumes "aligned i k"
  shows "blk (min i (buddy k i)) (Suc k) = blk i k \<union> blk (buddy k i) k"
    and "blk i k \<inter> blk (buddy k i) k = {}"
    and "aligned (min i (buddy k i)) (Suc k)"
    and "aligned (buddy k i) k"
proof -
  show "aligned (min i (buddy k i)) (Suc k)" "aligned (buddy k i) k"
    using assms buddy_lower [of k i] buddy_dvd [of k i] by (simp_all add: aligned_def)
  show "blk (min i (buddy k i)) (Suc k) = blk i k \<union> blk (buddy k i) k"
    "blk i k \<inter> blk (buddy k i) k = {}"
  proof -
    define m where "m = (2::nat) ^ k"
    consider "bit i k" "m \<le> i" | "\<not> bit i k" using bit_imp_ge m_def by blast
    then show "blk (min i (buddy k i)) (Suc k) = blk i k \<union> blk (buddy k i) k"
      "blk i k \<inter> blk (buddy k i) k = {}"
      by (cases; auto simp: blk_def buddy_bit simp flip: m_def)+
  qed
qed

lemma blk_split:
  assumes "aligned i (Suc k)"
  shows "buddy k i = i + 2 ^ k"
    and "blk i (Suc k) = blk i k \<union> blk (buddy k i) k"
    and "blk i k \<inter> blk (buddy k i) k = {}"
    and "aligned i k" and "aligned (buddy k i) k"
proof -
  have a: "aligned i k" using assms by (rule aligned_mono) simp
  then have "\<not> bit i k" using assms by (simp add: aligned_def bit_iff_half_not_dvd)
  then show b: "buddy k i = i + 2 ^ k" by (simp add: buddy_bit)
  then have m: "min i (buddy k i) = i" by (simp add: min_def)
  show "blk i (Suc k) = blk i k \<union> blk (buddy k i) k" "blk i k \<inter> blk (buddy k i) k = {}"
    "aligned i k" "aligned (buddy k i) k"
    using blk_merge [OF a] m a by simp_all
qed

section \<open>Sets of blocks\<close>

definition cover :: "(nat \<times> nat) set \<Rightarrow> nat set" where
  "cover B = (\<Union>(i, k)\<in>B. blk i k)"

definition disjoint_blocks :: "(nat \<times> nat) set \<Rightarrow> bool" where
  "disjoint_blocks B \<longleftrightarrow>
     pairwise (\<lambda>(i, k) (j, l). blk i k \<inter> blk j l = {}) B"

definition coalesced :: "nat \<Rightarrow> (nat \<times> nat) set \<Rightarrow> bool" where
  "coalesced M B \<longleftrightarrow> (\<forall>(i, k)\<in>B. k < M \<longrightarrow> (buddy k i, k) \<notin> B)"

lemma cover_insert: "cover (insert (i, k) B) = blk i k \<union> cover B"
  by (auto simp: cover_def)

lemma cover_Un [simp]: "cover (B \<union> C) = cover B \<union> cover C"
  by (auto simp: cover_def)

lemma cover_empty [simp]: "cover {} = {}"
  by (simp add: cover_def)

lemma in_cover: "(i, k) \<in> B \<Longrightarrow> blk i k \<subseteq> cover B"
  by (auto simp: cover_def)

lemma mem_cover: "(i, k) \<in> B \<Longrightarrow> i \<in> cover B"
  by (rule subsetD [OF in_cover blk_self])

lemma disjoint_blocks_insert:
  "(i, k) \<notin> B \<Longrightarrow> disjoint_blocks (insert (i, k) B) \<longleftrightarrow> disjoint_blocks B \<and> blk i k \<inter> cover B = {}"
proof -
  assume new: "(i, k) \<notin> B"
  have "disjoint_blocks (insert (i, k) B) \<longleftrightarrow>
      disjoint_blocks B \<and> (\<forall>(j, l)\<in>B. blk i k \<inter> blk j l = {} \<and> blk j l \<inter> blk i k = {})"
    using new unfolding disjoint_blocks_def pairwise_insert by auto
  also have "(\<forall>(j, l)\<in>B. blk i k \<inter> blk j l = {} \<and> blk j l \<inter> blk i k = {}) \<longleftrightarrow> blk i k \<inter> cover B = {}"
    unfolding cover_def by blast
  finally show ?thesis .
qed

lemma disjoint_notin: "blk i k \<inter> cover B = {} \<Longrightarrow> (i, k) \<notin> B"
  using mem_cover [of i k B] by (auto simp: disjoint_iff blk_def)

lemma disjoint_blocks_insertI:
  "disjoint_blocks B \<Longrightarrow> blk i k \<inter> cover B = {} \<Longrightarrow> disjoint_blocks (insert (i, k) B)"
  by (simp add: disjoint_blocks_insert disjoint_notin)

lemma disjoint_blocks_empty [simp]: "disjoint_blocks {}"
  by (simp add: disjoint_blocks_def)

lemma disjoint_blocks_single [simp]: "disjoint_blocks {(i, k)}"
  by (simp add: disjoint_blocks_def)

lemma disjoint_blocks_mono: "disjoint_blocks B \<Longrightarrow> C \<subseteq> B \<Longrightarrow> disjoint_blocks C"
  unfolding disjoint_blocks_def by (rule pairwise_subset)

lemma disjoint_blocksD:
  "disjoint_blocks B \<Longrightarrow> (i, k) \<in> B \<Longrightarrow> (j, l) \<in> B \<Longrightarrow> x \<in> blk i k \<Longrightarrow> x \<in> blk j l \<Longrightarrow> i = j \<and> k = l"
  by (fastforce simp: disjoint_blocks_def pairwise_def)

text \<open>
  In a coalesced set every aligned block of free frames lies inside one block of the set, so the
  set is determined by the frames it covers.
\<close>

lemma coalesced_maximal:
  assumes co: "coalesced M B" and al: "\<forall>(i, k)\<in>B. aligned i k"
  shows "aligned i k \<Longrightarrow> k \<le> M \<Longrightarrow> blk i k \<subseteq> cover B \<Longrightarrow> \<exists>(j, l)\<in>B. blk i k \<subseteq> blk j l"
proof (induction k arbitrary: i)
  case 0
  then obtain j l where "(j, l) \<in> B" "i \<in> blk j l" by (auto simp: cover_def blk_def)
  then show ?case by (intro bexI [of _ "(j, l)"]) (auto simp: blk_def)
next
  case (Suc k)
  note sp = blk_split [OF Suc.prems(1)]
  have "blk i k \<subseteq> cover B" "blk (buddy k i) k \<subseteq> cover B" using Suc.prems(3) sp(2) by auto
  then obtain j l j' l' where jl: "(j, l) \<in> B" "blk i k \<subseteq> blk j l"
    and jl': "(j', l') \<in> B" "blk (buddy k i) k \<subseteq> blk j' l'"
    using Suc.IH [OF sp(4)] Suc.IH [OF sp(5)] Suc.prems(2) by auto
  have al': "aligned j l" "aligned j' l'" using al jl jl' by auto
  have up: "blk i (Suc k) \<subseteq> blk m n" if "aligned m n" "n > k" "blk i (Suc k) \<inter> blk m n \<noteq> {}" for m n
    using blk_nested [OF Suc.prems(1) that(1)] that(2,3) by auto
  have "k \<le> l" "k \<le> l'" using blk_subset_order jl(2) jl'(2) by auto
  consider "l > k" | "l' > k" | "l = k" "l' = k" using \<open>k \<le> l\<close> \<open>k \<le> l'\<close> by linarith
  then show ?case
  proof cases
    case 1
    have "i \<in> blk i (Suc k) \<inter> blk j l" using jl(2) sp(2) by auto
    then show ?thesis using up [OF al'(1) 1] jl(1) by blast
  next
    case 2
    have "buddy k i \<in> blk i (Suc k) \<inter> blk j' l'" using jl'(2) sp(2) by auto
    then show ?thesis using up [OF al'(2) 2] jl'(1) by blast
  next
    case 3
    have "i \<in> blk j l" "buddy k i \<in> blk j' l'"
      using jl(2) jl'(2) blk_self [of i k] blk_self [of "buddy k i" k] by blast+
    then have "i = j" "buddy k i = j'"
      using blk_head [OF sp(4) al'(1)] blk_head [OF sp(5) al'(2)] 3 by auto
    then show ?thesis using co jl(1) jl'(1) 3 Suc.prems(2) by (auto simp: coalesced_def)
  qed
qed

theorem coalesced_unique:
  assumes "coalesced M B" "coalesced M C" "disjoint_blocks B" "disjoint_blocks C"
    and "\<forall>(i, k)\<in>B. aligned i k \<and> k \<le> M" "\<forall>(i, k)\<in>C. aligned i k \<and> k \<le> M"
    and "cover B = cover C"
  shows "B = C"
proof -
  have sub: "B \<subseteq> C"
    if B: "coalesced M B" "disjoint_blocks B" "\<forall>(i, k)\<in>B. aligned i k \<and> k \<le> M"
      and C: "coalesced M C" "disjoint_blocks C" "\<forall>(i, k)\<in>C. aligned i k \<and> k \<le> M"
      and eq: "cover B = cover C" for B C
  proof (rule subrelI)
    fix i k assume ik: "(i, k) \<in> B"
    have al: "\<forall>(i, k)\<in>B. aligned i k" "\<forall>(i, k)\<in>C. aligned i k" using B(3) C(3) by auto
    have "\<exists>(j, l)\<in>C. blk i k \<subseteq> blk j l"
      using coalesced_maximal [OF C(1) al(2), of i k] B(3) ik in_cover [OF ik] eq by auto
    then obtain j l where jl: "(j, l) \<in> C" "blk i k \<subseteq> blk j l" by auto
    have "\<exists>(m, n)\<in>B. blk j l \<subseteq> blk m n"
      using coalesced_maximal [OF B(1) al(1), of j l] C(3) jl(1) in_cover [OF jl(1)] eq by auto
    then obtain m n where mn: "(m, n) \<in> B" "blk j l \<subseteq> blk m n" by auto
    have "i \<in> blk i k \<inter> blk m n" using jl(2) mn(2) blk_self [of i k] by blast
    then have "(i, k) = (m, n)" using disjoint_blocksD [OF B(2) ik mn(1), of i] by auto
    then have "blk i k = blk j l" using jl(2) mn(2) by auto
    moreover have "l = k" using calculation blk_subset_order [of i k j l] blk_subset_order [of j l i k] by auto
    moreover have "aligned i k" "aligned j l" using B(3) C(3) ik jl(1) by auto
    then have "i = j" using calculation blk_head [of i k j l] blk_self [of i k] by auto
    ultimately show "(i, k) \<in> C" using jl(1) by simp
  qed
  show ?thesis using sub [of B C] sub [of C B] assms by auto
qed

end
