(* ===== verification/Buddy_Inv.thy ===== *)
theory Buddy_Inv
  imports Buddy Blocks
begin

unbundle bit_operations_syntax

text \<open>
  The invariant of a zone of the page allocator and the proof that every operation keeps it.
\<close>

section \<open>Flag words\<close>

lemma PAGE_FREE_MASK_exp: "PAGE_FREE_MASK = 2 ^ 8"
  by (simp add: PAGE_FREE_MASK_def PAGE_FREE_OFFS_def push_bit_eq_mult)

lemma bit_PAGE_FREE_MASK [simp]: "bit PAGE_FREE_MASK n \<longleftrightarrow> n = 8"
  unfolding PAGE_FREE_MASK_exp bit_exp_iff by auto

lemma PAGE_ORDER_MASK_mask: "PAGE_ORDER_MASK = mask 8"
  by (simp add: PAGE_ORDER_MASK_def PAGE_FREE_MASK_exp mask_eq_exp_minus_1)

lemma unat_PAGE_ORDER_MASK [simp]: "unat PAGE_ORDER_MASK = 255"
  by (simp add: PAGE_ORDER_MASK_def PAGE_FREE_MASK_exp)

lemma page_is_free_bit: "page_is_free p \<longleftrightarrow> bit (flags p) 8"
  by (simp only: page_is_free_def PAGE_FREE_MASK_exp and_exp_eq_0_iff_not_bit not_not)

lemma page_order_take_bit: "page_order p = unat (take_bit 8 (flags p))"
  by (simp add: page_order_def PAGE_ORDER_MASK_mask take_bit_eq_mask)

lemma page_order_eqI:
  "(\<And>n. n < 8 \<Longrightarrow> bit (flags p) n = bit (flags q) n) \<Longrightarrow> page_order p = page_order q"
  unfolding page_order_take_bit by (rule arg_cong [of _ _ unat], rule bit_eqI) (auto simp: bit_simps)

lemma page_set_order_ok: "k \<le> 255 \<Longrightarrow> page_set_order p k =
    Inr (p\<lparr>flags := (flags p AND NOT (mask 8)) OR word_of_nat k\<rparr>)"
  by (simp add: page_set_order_def flip: PAGE_ORDER_MASK_mask)

lemma bit_nat_high: "k \<le> 255 \<Longrightarrow> 8 \<le> n \<Longrightarrow> \<not> bit (k::nat) n"
proof -
  assume k: "k \<le> 255" "8 \<le> n"
  have "k < 2 ^ n" using k power_increasing [of 8 n "2::nat"] by simp
  then show ?thesis by (simp add: bit_iff_odd)
qed

lemma page_set_order_flags:
  assumes "k \<le> 255" "page_set_order p k = Inr q"
  shows "page_order q = k" "8 \<le> n \<Longrightarrow> bit (flags q) n = bit (flags p) n" "pu q = pu p"
proof -
  have q: "q = p\<lparr>flags := (flags p AND NOT (mask 8)) OR word_of_nat k\<rparr>"
    using assms page_set_order_ok by simp
  have "take_bit 8 (flags q) = word_of_nat k"
    using bit_nat_high [OF assms(1)]
    by (intro bit_eqI) (auto simp: q bit_simps not_less dest: bit_imp_le_length)
  then show "page_order q = k" using assms(1) by (simp add: page_order_take_bit unat_of_nat)
  show "8 \<le> n \<Longrightarrow> bit (flags q) n = bit (flags p) n"
    using bit_nat_high [OF assms(1), of n] bit_imp_le_length [of "flags p" n]
    by (auto simp: q bit_simps)
  show "pu q = pu p" by (simp add: q)
qed

lemma page_set_free_simps [simp]:
  "page_is_free (page_set_free p)" "page_order (page_set_free p) = page_order p"
  "pu (page_set_free p) = pu p"
proof -
  show "page_is_free (page_set_free p)"
    by (simp add: page_is_free_bit page_set_free_def bit_simps)
  show "page_order (page_set_free p) = page_order p"
    by (rule page_order_eqI) (auto simp: page_set_free_def bit_simps)
  show "pu (page_set_free p) = pu p" by (simp add: page_set_free_def)
qed

lemma page_set_busy_simps [simp]:
  "\<not> page_is_free (page_set_busy p)" "page_order (page_set_busy p) = page_order p"
  "pu (page_set_busy p) = pu p"
proof -
  show "\<not> page_is_free (page_set_busy p)"
    by (simp add: page_is_free_bit page_set_busy_def bit_simps)
  show "page_order (page_set_busy p) = page_order p"
    by (rule page_order_eqI) (auto simp: page_set_busy_def bit_simps)
  show "pu (page_set_busy p) = pu p" by (simp add: page_set_busy_def)
qed

text \<open>The user bits do not touch what the page allocator keeps in the word.\<close>

lemma page_user_bits [simp]:
  "page_is_free (page_set_bit p b) = page_is_free p" "page_order (page_set_bit p b) = page_order p"
  "page_is_free (page_clear_bit p b) = page_is_free p" "page_order (page_clear_bit p b) = page_order p"
proof -
  show "page_order (page_set_bit p b) = page_order p" "page_order (page_clear_bit p b) = page_order p"
    by (rule page_order_eqI; auto simp: page_set_bit_def page_clear_bit_def PAGE_USER_OFFS_def bit_simps)+
  show "page_is_free (page_set_bit p b) = page_is_free p"
    "page_is_free (page_clear_bit p b) = page_is_free p"
    by (auto simp: page_is_free_bit page_set_bit_def page_clear_bit_def PAGE_USER_OFFS_def bit_simps)
qed

lemma page_test_bit_set_clear:
  "b < 48 \<Longrightarrow> page_test_bit (page_set_bit p b) b" "\<not> page_test_bit (page_clear_bit p b) b"
  by (auto simp: page_test_bit_def page_set_bit_def page_clear_bit_def PAGE_USER_OFFS_def
      push_bit_eq_mult and_exp_eq_0_iff_not_bit bit_simps)

section \<open>The invariant\<close>

text \<open>
  \<open>F k\<close> lists the first frames of the free blocks of order \<open>k\<close> in the order of the list
  \<open>zone->order[k]\<close>.  \<open>A\<close> is the set of blocks handed out and not yet returned, \<open>C\<close> the blocks an
  operation holds in its hands between two statements.  Frames outside all blocks are those the
  memory map never declared free.
\<close>

definition order_heads :: "znode set" where
  "order_heads = OrderHead ` {..MAX_ORDER}"

definition zlists :: "nat \<Rightarrow> (nat \<Rightarrow> nat list) \<Rightarrow> znode \<Rightarrow> znode list" where
  "zlists zb F n = (case n of OrderHead k \<Rightarrow> map (\<lambda>i. PageLL (i - zb)) (F k) | PageLL _ \<Rightarrow> [])"

definition free_blocks :: "(nat \<Rightarrow> nat list) \<Rightarrow> (nat \<times> nat) set" where
  "free_blocks F = {(i, k). k \<le> MAX_ORDER \<and> i \<in> set (F k)}"

definition frame_desc :: "zone \<Rightarrow> nat \<Rightarrow> page" where
  "frame_desc z i = zpages z (i - zbegin z)"

definition links_inv :: "zone \<Rightarrow> (nat \<Rightarrow> nat list) \<Rightarrow> bool" where
  "links_inv z F \<longleftrightarrow> zbegin z < zend z \<and> lists_rep (zlinks z) order_heads (zlists (zbegin z) F) \<and>
     dom (zlinks z) = order_heads \<union> PageLL ` {..<zend z - zbegin z}"

definition blocks_inv :: "nat \<Rightarrow> nat \<Rightarrow> (nat \<times> nat) set \<Rightarrow> (nat \<times> nat) set \<Rightarrow> (nat \<times> nat) set \<Rightarrow> bool" where
  "blocks_inv zb ze B A C \<longleftrightarrow>
     (\<forall>(i, k)\<in>B \<union> A \<union> C. aligned i k \<and> k \<le> MAX_ORDER) \<and>
     cover (B \<union> A \<union> C) \<subseteq> {zb..<ze} \<and>
     disjoint_blocks B \<and> disjoint_blocks A \<and> disjoint_blocks C \<and>
     cover B \<inter> cover A = {} \<and> cover B \<inter> cover C = {} \<and> cover A \<inter> cover C = {} \<and>
     coalesced MAX_ORDER B"

definition flags_inv :: "zone \<Rightarrow> (nat \<times> nat) set \<Rightarrow> (nat \<times> nat) set \<Rightarrow> (nat \<times> nat) set \<Rightarrow> bool" where
  "flags_inv z B A C \<longleftrightarrow>
     (\<forall>(i, k)\<in>B. page_is_free (frame_desc z i) \<and> page_order (frame_desc z i) = k) \<and>
     (\<forall>(i, k)\<in>A. \<not> page_is_free (frame_desc z i)) \<and>
     (\<forall>i\<in>{zbegin z..<zend z}. i \<notin> cover (B \<union> A \<union> C) \<longrightarrow> \<not> page_is_free (frame_desc z i))"

definition zone_inv :: "zone \<Rightarrow> (nat \<Rightarrow> nat list) \<Rightarrow> (nat \<times> nat) set \<Rightarrow> (nat \<times> nat) set \<Rightarrow> bool" where
  "zone_inv z F A C \<longleftrightarrow> links_inv z F \<and> blocks_inv (zbegin z) (zend z) (free_blocks F) A C \<and>
     flags_inv z (free_blocks F) A C"

lemma order_slot_head [simp]: "k \<le> MAX_ORDER \<Longrightarrow> order_slot k = OrderHead k"
  by (simp add: order_slot_def)

lemma zlists_upd [simp]:
  "zlists zb (F(k := ys)) = (zlists zb F)(OrderHead k := map (\<lambda>i. PageLL (i - zb)) ys)"
  by (auto simp: zlists_def fun_eq_iff split: znode.splits)

lemma zlists_head [simp]: "zlists zb F (OrderHead k) = map (\<lambda>i. PageLL (i - zb)) (F k)"
  by (simp add: zlists_def)

lemma head_in [simp]: "OrderHead k \<in> order_heads \<longleftrightarrow> k \<le> MAX_ORDER"
  by (auto simp: order_heads_def)

lemma head_not_page [simp]: "PageLL i \<notin> order_heads"
  by (auto simp: order_heads_def)

lemma free_blocks_upd:
  "k \<le> MAX_ORDER \<Longrightarrow> free_blocks (F(k := ys)) = {(i, l)\<in>free_blocks F. l \<noteq> k} \<union> (\<lambda>i. (i, k)) ` set ys"
  by (auto simp: free_blocks_def split: if_splits)

lemma free_blocks_add:
  "k \<le> MAX_ORDER \<Longrightarrow> set ys = insert i (set (F k)) \<Longrightarrow> free_blocks (F(k := ys)) = insert (i, k) (free_blocks F)"
  by (auto simp: free_blocks_def split: if_splits)

lemma free_blocks_remove:
  "k \<le> MAX_ORDER \<Longrightarrow> distinct (F k) \<Longrightarrow>
   free_blocks (F(k := remove1 i (F k))) = free_blocks F - {(i, k)}"
  by (auto simp: free_blocks_def split: if_splits)

text \<open>Frames, bounds and list positions of the blocks.\<close>

lemma in_zone:
  assumes "zone_inv z F A C" "(i, k) \<in> free_blocks F \<union> A \<union> C"
  shows "zbegin z \<le> i" "i < zend z" "aligned i k" "k \<le> MAX_ORDER" "i + 2 ^ k \<le> zend z"
proof -
  have b: "blk i k \<subseteq> {zbegin z..<zend z}"
    using assms in_cover [OF assms(2)] by (auto simp: zone_inv_def blocks_inv_def)
  from subsetD [OF this blk_self] show "zbegin z \<le> i" "i < zend z" by auto
  have "0 < (2::nat) ^ k" by simp
  then have "i + 2 ^ k - 1 \<in> blk i k" unfolding blk_def atLeastLessThan_iff by linarith
  with b have "i + 2 ^ k - 1 < zend z" by (metis atLeastLessThan_iff subsetD)
  then show "i + 2 ^ k \<le> zend z" by simp
  show "aligned i k" "k \<le> MAX_ORDER"
    using assms by (auto simp: zone_inv_def blocks_inv_def)
qed

lemma zone_page_frame:
  "zbegin z \<le> i \<Longrightarrow> i < zend z \<Longrightarrow> zone_page z (i - zbegin z) = Inr (frame_desc z i)"
  by (simp add: zone_page_def frame_desc_def fault_on_def)

lemma distinct_F: "zone_inv z F A C \<Longrightarrow> k \<le> MAX_ORDER \<Longrightarrow> distinct (F k)"
  using lists_rep_distinct [of "zlinks z" order_heads "zlists (zbegin z) F" "OrderHead k"]
  by (auto simp: zone_inv_def links_inv_def distinct_map)

lemma page_on_list:
  assumes "zone_inv z F A C" "zbegin z \<le> i" "k \<le> MAX_ORDER" "PageLL (i - zbegin z) \<in> set (zlists (zbegin z) F (OrderHead k))"
  shows "i \<in> set (F k)"
proof -
  obtain j where j: "j \<in> set (F k)" "j - zbegin z = i - zbegin z" using assms(4) by auto
  moreover have "zbegin z \<le> j" using in_zone(1) [OF assms(1), of j k] j(1) assms(3) by (simp add: free_blocks_def)
  ultimately show ?thesis using assms(2) by (metis eq_diff_iff)
qed

text \<open>A frame in the hands of an operation is on no free list.\<close>

lemma hand_not_listed:
  assumes "zone_inv z F A C" "i \<in> cover (A \<union> C)" "zbegin z \<le> i"
  shows "\<forall>b\<in>order_heads. PageLL (i - zbegin z) \<notin> set (b # zlists (zbegin z) F b)"
proof
  fix b assume b: "b \<in> order_heads"
  then obtain k where k: "b = OrderHead k" "k \<le> MAX_ORDER" by (auto simp: order_heads_def)
  have "i \<notin> set (F k)"
  proof
    assume "i \<in> set (F k)"
    then have "(i, k) \<in> free_blocks F" using k by (simp add: free_blocks_def)
    then have "i \<in> cover (free_blocks F)" using in_cover blk_self by blast
    then show False using assms(1,2) by (auto simp: zone_inv_def blocks_inv_def)
  qed
  then show "PageLL (i - zbegin z) \<notin> set (b # zlists (zbegin z) F b)"
    using page_on_list [OF assms(1,3) k(2)] k(1) by auto
qed

section \<open>Steps of the invariant\<close>

text \<open>Changing which blocks are in hand, without touching the zone.\<close>

lemma inv_regroup:
  assumes "zone_inv z F A C" "cover C' = cover C" "disjoint_blocks C'"
    "\<forall>(i, k)\<in>C'. aligned i k \<and> k \<le> MAX_ORDER"
  shows "zone_inv z F A C'"
  using assms by (auto simp: zone_inv_def blocks_inv_def flags_inv_def)

lemma inv_hold:
  assumes "zone_inv z F A {}" "(i, k) \<in> A"
  shows "zone_inv z F (A - {(i, k)}) {(i, k)}"
proof -
  have A: "A = insert (i, k) (A - {(i, k)})" using assms(2) by auto
  have dj: "disjoint_blocks A" using assms(1) by (simp add: zone_inv_def blocks_inv_def)
  then have s: "disjoint_blocks (A - {(i, k)})" "blk i k \<inter> cover (A - {(i, k)}) = {}"
    using disjoint_blocks_insert [of i k "A - {(i, k)}"] A by auto
  have c: "cover A = blk i k \<union> cover (A - {(i, k)})" using cover_insert A by metis
  show ?thesis
    using assms s c by (auto simp: zone_inv_def blocks_inv_def flags_inv_def cover_insert)
qed

lemma inv_release:
  assumes "zone_inv z F A {(i, k)}" "\<not> page_is_free (frame_desc z i)"
  shows "zone_inv z F (insert (i, k) A) {}"
proof -
  have "blk i k \<inter> cover A = {}" "disjoint_blocks A"
    using assms(1) by (auto simp: zone_inv_def blocks_inv_def cover_insert)
  then have "disjoint_blocks (insert (i, k) A)" by (intro disjoint_blocks_insertI)
  then show ?thesis
    using assms by (auto simp: zone_inv_def blocks_inv_def flags_inv_def cover_insert)
qed

lemma inv_desc:
  assumes "zone_inv z F A C" "i \<in> cover C" "zbegin z \<le> i"
  shows "zone_inv (put_page_desc z (i - zbegin z) p) F A C"
proof -
  let ?z = "put_page_desc z (i - zbegin z) p"
  have other: "frame_desc ?z j = frame_desc z j" if "zbegin z \<le> j" "j \<noteq> i" for j
    using that assms(3) by (simp add: frame_desc_def put_page_desc_def eq_diff_iff)
  have ne: "j \<noteq> i" if "(j, k) \<in> free_blocks F \<union> A" for j k
    using mem_cover [of j k "free_blocks F \<union> A"] that assms(1,2)
    by (auto simp: zone_inv_def blocks_inv_def)
  have "flags_inv ?z (free_blocks F) A C"
    unfolding flags_inv_def
  proof (intro conjI ballI impI)
    fix x assume x: "x \<in> free_blocks F"
    then show "case x of (j, k) \<Rightarrow> page_is_free (frame_desc ?z j) \<and> page_order (frame_desc ?z j) = k"
      using assms(1) other ne in_zone(1) [OF assms(1)]
      by (cases x) (fastforce simp: zone_inv_def flags_inv_def)
  next
    fix x assume x: "x \<in> A"
    then show "case x of (j, k) \<Rightarrow> \<not> page_is_free (frame_desc ?z j)"
      using assms(1) other ne in_zone(1) [OF assms(1)]
      by (cases x) (fastforce simp: zone_inv_def flags_inv_def)
  next
    fix j assume j: "j \<in> {zbegin ?z..<zend ?z}" "j \<notin> cover (free_blocks F \<union> A \<union> C)"
    then have "j \<noteq> i" using assms(2) by auto
    then show "\<not> page_is_free (frame_desc ?z j)"
      using assms(1) other j by (auto simp: zone_inv_def flags_inv_def put_page_desc_def)
  qed
  then show ?thesis
    using assms(1) by (simp add: zone_inv_def links_inv_def put_page_desc_def)
qed

text \<open>\<open>kept z z' S\<close>: \<open>z'\<close> has the bounds of \<open>z\<close> and, outside \<open>S\<close>, its descriptors.\<close>

definition kept :: "zone \<Rightarrow> zone \<Rightarrow> nat set \<Rightarrow> bool" where
  "kept z z' S \<longleftrightarrow> zbegin z' = zbegin z \<and> zend z' = zend z \<and>
     (\<forall>j\<ge>zbegin z. j \<notin> S \<longrightarrow> frame_desc z' j = frame_desc z j)"

lemma kept_refl [simp]: "kept z z S"
  by (simp add: kept_def)

lemma kept_trans: "kept z z' S \<Longrightarrow> kept z' z'' T \<Longrightarrow> S \<subseteq> U \<Longrightarrow> T \<subseteq> U \<Longrightarrow> kept z z'' U"
  by (fastforce simp: kept_def)

lemma kept_outside:
  "kept z z' S \<Longrightarrow> X \<subseteq> {zbegin z..<zend z} \<Longrightarrow> S \<inter> X = {} \<Longrightarrow> \<forall>j\<in>X. frame_desc z' j = frame_desc z j"
  unfolding kept_def by (auto dest!: subsetD)

lemma kept_links [simp]: "kept z (z\<lparr>zlinks := l\<rparr>) S"
  by (simp add: kept_def frame_desc_def)

lemma kept_desc: "zbegin z \<le> i \<Longrightarrow> i \<in> S \<Longrightarrow> kept z (put_page_desc z (i - zbegin z) p) S"
  by (auto simp: kept_def frame_desc_def put_page_desc_def eq_diff_iff)

text \<open>Taking a block off its free list.\<close>

lemma inv_take:
  assumes inv: "zone_inv z F A C" and mem: "(i, k) \<in> free_blocks F"
  shows "\<exists>l. list_del (PageLL (i - zbegin z)) (zlinks z) = Inr l
    \<and> zone_inv (z\<lparr>zlinks := l\<rparr>) (F(k := remove1 i (F k))) A (insert (i, k) C)"
proof -
  have k: "k \<le> MAX_ORDER" "i \<in> set (F k)" using mem by (auto simp: free_blocks_def)
  have zb: "zbegin z \<le> j" if "j \<in> set (F k)" for j
    using in_zone(1) [OF inv, of j k] that k(1) by (simp add: free_blocks_def)
  have rep: "lists_rep (zlinks z) order_heads (zlists (zbegin z) F)"
    using inv by (simp add: zone_inv_def links_inv_def)
  have "PageLL (i - zbegin z) \<in> set (zlists (zbegin z) F (OrderHead k))" using k by auto
  from kl.rep_del [OF rep _ this] k obtain l where l:
      "list_del (PageLL (i - zbegin z)) (zlinks z) = Inr l" "dom l = dom (zlinks z)"
      "lists_rep l order_heads ((zlists (zbegin z) F)(OrderHead k :=
        remove1 (PageLL (i - zbegin z)) (zlists (zbegin z) F (OrderHead k))))" by auto
  have "inj_on (\<lambda>j. PageLL (j - zbegin z)) (insert i (set (F k)))"
    using zb k(2) by (intro inj_onI) (auto simp: eq_diff_iff)
  then have "remove1 (PageLL (i - zbegin z)) (map (\<lambda>j. PageLL (j - zbegin z)) (F k))
      = map (\<lambda>j. PageLL (j - zbegin z)) (remove1 i (F k))"
    by (simp add: map_remove1_inj)
  then have links: "links_inv (z\<lparr>zlinks := l\<rparr>) (F(k := remove1 i (F k)))"
    using inv l by (simp add: zone_inv_def links_inv_def)
  let ?B = "free_blocks F - {(i, k)}"
  have B: "free_blocks (F(k := remove1 i (F k))) = ?B"
    using k(1) distinct_F [OF inv k(1)] by (rule free_blocks_remove)
  have ins: "free_blocks F = insert (i, k) ?B" using mem by auto
  have bi: "blocks_inv (zbegin z) (zend z) (free_blocks F) A C" and fi: "flags_inv z (free_blocks F) A C"
    using inv by (auto simp: zone_inv_def)
  have dj: "disjoint_blocks ?B" "blk i k \<inter> cover ?B = {}"
    using bi disjoint_blocks_insert [of i k ?B] ins by (auto simp: blocks_inv_def)
  have cv: "cover (free_blocks F) = blk i k \<union> cover ?B" by (subst ins) (rule cover_insert)
  have "blk i k \<inter> cover C = {}" using bi cv by (auto simp: blocks_inv_def)
  then have "disjoint_blocks (insert (i, k) C)"
    using bi by (intro disjoint_blocks_insertI) (auto simp: blocks_inv_def)
  then have "blocks_inv (zbegin z) (zend z) ?B A (insert (i, k) C)"
    using bi dj cv mem unfolding blocks_inv_def coalesced_def by (auto simp: cover_insert)
  moreover have "flags_inv (z\<lparr>zlinks := l\<rparr>) ?B A (insert (i, k) C)"
    using fi cv by (auto simp: flags_inv_def cover_insert frame_desc_def)
  ultimately show ?thesis using l(1) links by (auto simp: zone_inv_def B)
qed

text \<open>Marking a block in hand as free, once its descriptor is linked into the list of its order.\<close>

lemma mark_free_desc:
  assumes "zbegin z \<le> i" "i < zend z" "k \<le> MAX_ORDER"
  shows "\<exists>p. mark_free z (i - zbegin z) k = Inr (put_page_desc z (i - zbegin z) p)
    \<and> page_is_free p \<and> page_order p = k \<and> pu p = pu (frame_desc z i)"
proof -
  have k: "k \<le> 255" using assms(3) by (simp add: MAX_ORDER_def)
  obtain q where q: "page_set_order (frame_desc z i) k = Inr q"
    using page_set_order_ok [OF k] by auto
  have "mark_free z (i - zbegin z) k = Inr (put_page_desc z (i - zbegin z) (page_set_free q))"
    using zone_page_frame [OF assms(1,2)] q by (simp add: mark_free_def)
  then show ?thesis using page_set_order_flags(1,3) [OF k q] by auto
qed

lemma inv_mark:
  assumes inv: "zone_inv z F A (insert (i, k) C)" and new: "(i, k) \<notin> C"
    and l: "lists_rep l order_heads (zlists (zbegin z) (F(k := ys)))" "dom l = dom (zlinks z)"
    and ys: "set ys = insert i (set (F k))"
    and bud: "k < MAX_ORDER \<longrightarrow> (buddy k i, k) \<notin> free_blocks F"
  shows "\<exists>z'. mark_free (z\<lparr>zlinks := l\<rparr>) (i - zbegin z) k = Inr z' \<and> zone_inv z' (F(k := ys)) A C
    \<and> kept z z' {i}"
proof -
  have iz: "zbegin z \<le> i" "i < zend z" "aligned i k" "k \<le> MAX_ORDER" using in_zone [OF inv, of i k] by auto
  let ?z = "z\<lparr>zlinks := l\<rparr>" and ?B = "insert (i, k) (free_blocks F)"
  obtain p where p: "mark_free ?z (i - zbegin z) k = Inr (put_page_desc ?z (i - zbegin z) p)"
      "page_is_free p" "page_order p = k"
    using mark_free_desc [of ?z i k] iz by auto
  define z' where "z' = put_page_desc ?z (i - zbegin z) p"
  have B: "free_blocks (F(k := ys)) = ?B" using iz(4) ys by (rule free_blocks_add)
  have bi: "blocks_inv (zbegin z) (zend z) (free_blocks F) A (insert (i, k) C)"
    and fi: "flags_inv z (free_blocks F) A (insert (i, k) C)" using inv by (auto simp: zone_inv_def)
  have djC: "disjoint_blocks C" "blk i k \<inter> cover C = {}"
    using bi disjoint_blocks_insert [OF new] by (auto simp: blocks_inv_def)
  have iB: "blk i k \<inter> cover (free_blocks F) = {}" using bi by (auto simp: blocks_inv_def cover_insert)
  have djB: "disjoint_blocks ?B"
    using bi iB by (intro disjoint_blocks_insertI) (auto simp: blocks_inv_def)
  have co: "coalesced MAX_ORDER ?B"
    using bi bud unfolding blocks_inv_def coalesced_def by (auto simp: buddy_eq_iff)
  have "blocks_inv (zbegin z) (zend z) ?B A C"
    using bi djC djB co iB unfolding blocks_inv_def by (auto simp: cover_insert)
  moreover have k: "kept z z' {i}"
    using iz(1) by (auto simp: kept_def z'_def frame_desc_def put_page_desc_def eq_diff_iff)
  have at: "frame_desc z' i = p" by (simp add: z'_def frame_desc_def put_page_desc_def)
  have other: "frame_desc z' j = frame_desc z j" if "zbegin z \<le> j" "j \<noteq> i" for j
    using k that by (simp add: kept_def)
  have bounds: "zbegin z' = zbegin z" "zend z' = zend z" by (simp_all add: z'_def put_page_desc_def)
  have "flags_inv z' ?B A C"
    unfolding flags_inv_def
  proof (intro conjI ballI impI)
    fix x assume x: "x \<in> ?B"
    obtain j m where xe: "x = (j, m)" by force
    consider "x = (i, k)" | "(j, m) \<in> free_blocks F" "j \<noteq> i"
      using x xe mem_cover [of j m "free_blocks F"] iB blk_self [of i k] by blast
    then show "case x of (j, k) \<Rightarrow> page_is_free (frame_desc z' j) \<and> page_order (frame_desc z' j) = k"
      using p at other in_zone(1) [OF inv, of j m] fi xe by cases (auto simp: flags_inv_def)
  next
    fix x assume x: "x \<in> A"
    obtain j m where xe: "x = (j, m)" by force
    have "j \<noteq> i" using mem_cover [of j m A] x xe bi by (auto simp: blocks_inv_def cover_insert)
    then show "case x of (j, k) \<Rightarrow> \<not> page_is_free (frame_desc z' j)"
      using other in_zone(1) [OF inv, of j m] fi xe x by (auto simp: flags_inv_def)
  next
    fix j assume j: "j \<in> {zbegin z'..<zend z'}" "j \<notin> cover (?B \<union> A \<union> C)"
    then have "j \<noteq> i" by (auto simp: cover_insert)
    then show "\<not> page_is_free (frame_desc z' j)"
      using j fi other by (auto simp: flags_inv_def cover_insert bounds)
  qed
  moreover have "links_inv z' (F(k := ys))"
    using inv l by (auto simp: zone_inv_def links_inv_def z'_def put_page_desc_def)
  ultimately have "zone_inv z' (F(k := ys)) A C" by (simp add: zone_inv_def B bounds)
  then show ?thesis using p(1) k by (auto simp: z'_def)
qed

lemma inv_install:
  assumes inv: "zone_inv z F A (insert (i, k) C)" and new: "(i, k) \<notin> C"
    and bud: "k < MAX_ORDER \<longrightarrow> (buddy k i, k) \<notin> free_blocks F"
  shows "\<exists>l z'. list_add (PageLL (i - zbegin z)) (order_slot k) (zlinks z) = Inr l
      \<and> mark_free (z\<lparr>zlinks := l\<rparr>) (i - zbegin z) k = Inr z'
      \<and> zone_inv z' (F(k := i # F k)) A C \<and> kept z z' {i}"
    and "\<exists>l z'. list_add_tail (PageLL (i - zbegin z)) (order_slot k) (zlinks z) = Inr l
      \<and> mark_free (z\<lparr>zlinks := l\<rparr>) (i - zbegin z) k = Inr z'
      \<and> zone_inv z' (F(k := F k @ [i])) A C \<and> kept z z' {i}"
proof -
  have iz: "zbegin z \<le> i" "i < zend z" "k \<le> MAX_ORDER" using in_zone [OF inv, of i k] by auto
  have rep: "lists_rep (zlinks z) order_heads (zlists (zbegin z) F)"
    using inv by (simp add: zone_inv_def links_inv_def)
  have nl: "\<forall>b\<in>order_heads. PageLL (i - zbegin z) \<notin> set (b # zlists (zbegin z) F b)"
    using hand_not_listed [OF inv _ iz(1)] by (simp add: cover_insert)
  have dm: "PageLL (i - zbegin z) \<in> dom (zlinks z)"
    using inv iz unfolding zone_inv_def links_inv_def by auto
  have hd: "OrderHead k \<in> order_heads" using iz(3) by simp
  obtain l where l: "list_add (PageLL (i - zbegin z)) (OrderHead k) (zlinks z) = Inr l"
      "lists_rep l order_heads (zlists (zbegin z) (F(k := i # F k)))" "dom l = dom (zlinks z)"
    using kl.rep_add [OF rep hd dm nl] by auto
  obtain m where m: "list_add_tail (PageLL (i - zbegin z)) (OrderHead k) (zlinks z) = Inr m"
      "lists_rep m order_heads (zlists (zbegin z) (F(k := F k @ [i])))" "dom m = dom (zlinks z)"
    using kl.rep_add_tail [OF rep hd dm nl] by auto
  show "\<exists>l z'. list_add (PageLL (i - zbegin z)) (order_slot k) (zlinks z) = Inr l
      \<and> mark_free (z\<lparr>zlinks := l\<rparr>) (i - zbegin z) k = Inr z'
      \<and> zone_inv z' (F(k := i # F k)) A C \<and> kept z z' {i}"
    using inv_mark [OF inv new l(2,3) _ bud] l(1) iz(3) by auto
  show "\<exists>l z'. list_add_tail (PageLL (i - zbegin z)) (order_slot k) (zlinks z) = Inr l
      \<and> mark_free (z\<lparr>zlinks := l\<rparr>) (i - zbegin z) k = Inr z'
      \<and> zone_inv z' (F(k := F k @ [i])) A C \<and> kept z z' {i}"
    using inv_mark [OF inv new m(2,3) _ bud] m(1) iz(3) by auto
qed

end
