(* ===== verification/Buddy_Ops.thy ===== *)
theory Buddy_Ops
  imports Buddy_Inv
begin

unbundle bit_operations_syntax

text \<open>
  The operations of a zone keep its invariant: the loops first, then allocation, release, and the
  initial release of a range.
\<close>

section \<open>The search and the splitting loop\<close>

lemma inv_rep: "zone_inv z F A C \<Longrightarrow> lists_rep (zlinks z) order_heads (zlists (zbegin z) F)"
  by (simp add: zone_inv_def links_inv_def)

lemma inv_list_empty:
  "zone_inv z F A C \<Longrightarrow> k \<le> MAX_ORDER \<Longrightarrow> list_empty (OrderHead k) (zlinks z) = Inr (F k = [])"
  using kl.rep_empty [OF inv_rep, of z F A C "OrderHead k"] by simp

text \<open>The read one past the heads goes to a link field of the zone, so it returns something.\<close>

lemma inv_list_empty_beyond:
  assumes "zone_inv z F A C" "\<not> k \<le> MAX_ORDER"
  shows "\<exists>b. list_empty (order_slot k) (zlinks z) = Inr b"
proof -
  have "PageLL 0 \<in> dom (zlinks z)" using assms(1) by (auto simp: zone_inv_def links_inv_def)
  then show ?thesis
    using rd_node_ok [of "PageLL 0" "zlinks z"] assms(2) by (auto simp: list_empty_def order_slot_def)
qed

lemma find_order_spec:
  assumes inv: "zone_inv z F A C"
  shows "k \<le> Suc MAX_ORDER \<Longrightarrow> \<exists>c. find_order z k = Inr c \<and> k \<le> c \<and> c \<le> Suc MAX_ORDER
    \<and> (\<forall>j. k \<le> j \<longrightarrow> j < c \<longrightarrow> F j = []) \<and> (c \<le> MAX_ORDER \<longrightarrow> F c \<noteq> [])"
proof (induction "Suc MAX_ORDER - k" arbitrary: k rule: less_induct)
  case less
  show ?case
  proof (cases "k \<le> MAX_ORDER")
    case False
    then show ?thesis
      using inv_list_empty_beyond [OF inv False] less.prems by (subst find_order.simps) auto
  next
    case True
    note e = inv_list_empty [OF inv True]
    show ?thesis
    proof (cases "F k = []")
      case False
      then show ?thesis using e True by (subst find_order.simps) auto
    next
      case Fk: True
      have "Suc MAX_ORDER - Suc k < Suc MAX_ORDER - k" "Suc k \<le> Suc MAX_ORDER" using True by auto
      then obtain c where c: "find_order z (Suc k) = Inr c" "Suc k \<le> c" "c \<le> Suc MAX_ORDER"
        "\<forall>j. Suc k \<le> j \<longrightarrow> j < c \<longrightarrow> F j = []" "c \<le> MAX_ORDER \<longrightarrow> F c \<noteq> []"
        using less.hyps [of "Suc k"] by blast
      have "F j = []" if "k \<le> j" "j < c" for j using c(4) Fk that by (cases "j = k") auto
      moreover have "find_order z k = Inr c" using e Fk True c(1) by (subst find_order.simps) simp
      ultimately show ?thesis using c by auto
    qed
  qed
qed

lemma in_hand_cover:
  assumes "zone_inv z F A {(i, k)}"
  shows "blk i k \<inter> cover (free_blocks F) = {}" "blk i k \<inter> cover A = {}"
  using assms by (auto simp: zone_inv_def blocks_inv_def cover_insert)

lemma cover_free_add:
  "k \<le> MAX_ORDER \<Longrightarrow> set ys = insert i (set (F k)) \<Longrightarrow>
   cover (free_blocks (F(k := ys))) = blk i k \<union> cover (free_blocks F)"
  by (simp only: free_blocks_add cover_insert)

lemma cover_free_remove:
  assumes "zone_inv z F A C" "(i, k) \<in> free_blocks F"
  shows "cover (free_blocks F) = blk i k \<union> cover (free_blocks (F(k := remove1 i (F k))))"
    and "blk i k \<inter> cover (free_blocks (F(k := remove1 i (F k)))) = {}"
proof -
  have k: "k \<le> MAX_ORDER" using assms(2) by (simp add: free_blocks_def)
  have B: "free_blocks (F(k := remove1 i (F k))) = free_blocks F - {(i, k)}"
    using k distinct_F [OF assms(1) k] by (rule free_blocks_remove)
  have ins: "free_blocks F = insert (i, k) (free_blocks F - {(i, k)})" using assms(2) by auto
  show "cover (free_blocks F) = blk i k \<union> cover (free_blocks (F(k := remove1 i (F k))))"
    unfolding B by (subst ins) (rule cover_insert)
  have "disjoint_blocks (free_blocks F)" using assms(1) by (simp add: zone_inv_def blocks_inv_def)
  then show "blk i k \<inter> cover (free_blocks (F(k := remove1 i (F k)))) = {}"
    unfolding B using disjoint_blocks_insert [of i k "free_blocks F - {(i, k)}"] ins by auto
qed

lemma split_loop_spec:
  assumes "zone_inv z F A {(i, c)}" "order \<le> c"
  shows "\<exists>z' F'. split_loop i order c z = Inr z' \<and> zone_inv z' F' A {(i, order)}
    \<and> cover (free_blocks F') \<union> blk i order = cover (free_blocks F) \<union> blk i c
    \<and> kept z z' (blk i c - {i})"
  using assms
proof (induction c arbitrary: z F)
  case 0
  then show ?case by auto
next
  case (Suc c)
  show ?case
  proof (cases "Suc c = order")
    case True
    then show ?thesis using Suc.prems(1) by auto
  next
    case False
    have iz: "zbegin z \<le> i" "aligned i (Suc c)" "Suc c \<le> MAX_ORDER"
      using in_zone [OF Suc.prems(1), of i "Suc c"] by auto
    note sp = blk_split [OF iz(2)]
    let ?b = "buddy c i"
    have "disjoint_blocks {(?b, c), (i, c)}"
      using sp(3) by (intro disjoint_blocks_insertI) (auto simp: cover_insert)
    then have inv: "zone_inv z F A (insert (?b, c) {(i, c)})"
      using sp iz(3) by (intro inv_regroup [OF Suc.prems(1)]) (auto simp: cover_insert)
    have zb: "zbegin z \<le> ?b" using sp(1) iz(1) by simp
    have "(i, c) \<notin> free_blocks F"
      using in_hand_cover(1) [OF Suc.prems(1)] mem_cover [of i c "free_blocks F"] blk_self [of i "Suc c"] by blast
    then have "c < MAX_ORDER \<longrightarrow> (buddy c ?b, c) \<notin> free_blocks F" by simp
    with inv_install(1) [OF inv] obtain l z1 where l: "list_add (PageLL (?b - zbegin z)) (order_slot c) (zlinks z) = Inr l"
      "mark_free (z\<lparr>zlinks := l\<rparr>) (?b - zbegin z) c = Inr z1"
      "zone_inv z1 (F(c := ?b # F c)) A {(i, c)}" "kept z z1 {?b}"
      by auto
    have "order \<le> c" using Suc.prems(2) False by simp
    then obtain z' F' where z': "split_loop i order c z1 = Inr z'" "zone_inv z' F' A {(i, order)}"
      "cover (free_blocks F') \<union> blk i order = cover (free_blocks (F(c := ?b # F c))) \<union> blk i c"
      "kept z1 z' (blk i c - {i})"
      using Suc.IH [OF l(3)] by blast
    have run: "split_loop i order (Suc c) z = Inr z'"
      using False zb l(1,2) z'(1) by (simp add: buddy_def [symmetric] Let_def fault_on_def)
    have cv: "cover (free_blocks (F(c := ?b # F c))) = blk ?b c \<union> cover (free_blocks F)"
      using iz(3) by (intro cover_free_add) auto
    have "?b \<in> blk i (Suc c) - {i}" using sp(2) blk_self [of ?b c] buddy_neq(1) [of c i] by blast
    then have "kept z z' (blk i (Suc c) - {i})"
      by (intro kept_trans [OF l(4) z'(4)]) (use sp(2) in auto)
    then show ?thesis using run z'(2,3) sp(2) cv by (intro exI [of _ z'] exI [of _ F']) auto
  qed
qed

section \<open>Allocation\<close>

lemma alloc_spec_some:
  assumes inv: "zone_inv z F A {}" and k: "k \<le> l" "l \<le> MAX_ORDER" "F l \<noteq> []"
  shows "\<exists>i z' F'. page_alloc_in_zone z k = Inr (Some i, z') \<and> zone_inv z' F' (insert (zbegin z + i, k) A) {}
    \<and> cover (free_blocks F) = blk (zbegin z + i) k \<union> cover (free_blocks F')
    \<and> kept z z' (cover (free_blocks F))"
proof -
  obtain c where c: "find_order z k = Inr c" "k \<le> c" "\<forall>j. k \<le> j \<longrightarrow> j < c \<longrightarrow> F j = []"
      "c \<le> MAX_ORDER \<longrightarrow> F c \<noteq> []" "c \<le> Suc MAX_ORDER"
    using find_order_spec [OF inv, of k] k by auto
  have cM: "c \<le> MAX_ORDER" using c(3) k by (metis leI le_trans less_le_trans)
  then obtain j js where Fc: "F c = j # js" using c(4) by (cases "F c") auto
  have mem: "(j, c) \<in> free_blocks F" using cM Fc by (simp add: free_blocks_def)
  have jz: "zbegin z \<le> j" "j < zend z" using in_zone [OF inv, of j c] mem by auto
  have pop: "list_empty (OrderHead c) (zlinks z) = Inr False"
    "list_first (OrderHead c) (zlinks z) = Inr (Some (PageLL (j - zbegin z)))"
    using kl.rep_empty [OF inv_rep [OF inv]] kl.rep_first [OF inv_rep [OF inv]] cM Fc by auto
  obtain ls where ls: "list_del (PageLL (j - zbegin z)) (zlinks z) = Inr ls"
      "zone_inv (z\<lparr>zlinks := ls\<rparr>) (F(c := remove1 j (F c))) A {(j, c)}"
    using inv_take [OF inv mem] by auto
  define p where "p = page_set_busy (frame_desc z j)"
  define z1 where "z1 = put_page_desc (z\<lparr>zlinks := ls\<rparr>) (j - zbegin z) p"
  have z1: "zone_inv z1 (F(c := remove1 j (F c))) A {(j, c)}" "zbegin z1 = zbegin z"
      "kept z z1 (blk j c)"
  proof -
    show "zone_inv z1 (F(c := remove1 j (F c))) A {(j, c)}"
      using inv_desc [OF ls(2), of j p] jz(1) by (simp add: z1_def cover_insert)
    show "zbegin z1 = zbegin z" by (simp add: z1_def put_page_desc_def)
    show "kept z z1 (blk j c)"
      using jz(1) by (auto simp: kept_def z1_def frame_desc_def put_page_desc_def eq_diff_iff)
  qed
  obtain z' F' where z': "split_loop j k c z1 = Inr z'" "zone_inv z' F' A {(j, k)}"
      "cover (free_blocks F') \<union> blk j k = cover (free_blocks (F(c := remove1 j (F c)))) \<union> blk j c"
      "kept z1 z' (blk j c - {j})"
    using split_loop_spec [OF z1(1) c(2)] by blast
  have busy: "\<not> page_is_free (frame_desc z' j)"
  proof -
    have "frame_desc z' j = frame_desc z1 j" using z'(4) z1(2) jz(1) by (simp add: kept_def)
    also have "\<dots> = p" by (simp add: z1_def frame_desc_def put_page_desc_def)
    finally show ?thesis by (simp add: p_def)
  qed
  have pg: "zone_page z (j - zbegin z) = Inr (frame_desc z j)" using zone_page_frame jz by simp
  have swap: "(put_page_desc z (j - zbegin z) p)\<lparr>zlinks := ls\<rparr> = z1"
    by (simp add: z1_def put_page_desc_def)
  have "page_alloc_in_zone z k = Inr (Some (j - zbegin z), z')"
    using c(1) cM pop ls(1) pg z'(1) jz(1) swap by (simp add: page_alloc_in_zone_def p_def Let_def)
  moreover have "zone_inv z' F' (insert (j, k) A) {}" using inv_release [OF z'(2) busy] .
  moreover have "cover (free_blocks F) = blk j k \<union> cover (free_blocks F')"
    using cover_free_remove(1) [OF inv mem] z'(3) by auto
  moreover have "blk j c \<subseteq> cover (free_blocks F)" using in_cover [OF mem] .
  then have "kept z z' (cover (free_blocks F))" by (intro kept_trans [OF z1(3) z'(4)]) auto
  ultimately show ?thesis using jz(1) by (intro exI [of _ "j - zbegin z"]) auto
qed

lemma alloc_spec_none:
  assumes inv: "zone_inv z F A {}" and k: "\<forall>l. k \<le> l \<longrightarrow> l \<le> MAX_ORDER \<longrightarrow> F l = []" "k \<le> MAX_ORDER"
  shows "page_alloc_in_zone z k = Inr (None, z)"
proof -
  have "k \<le> Suc MAX_ORDER" using k(2) by simp
  from find_order_spec [OF inv this] obtain c where c: "find_order z k = Inr c" "k \<le> c" "c \<le> MAX_ORDER \<longrightarrow> F c \<noteq> []"
    by blast
  have "\<not> c \<le> MAX_ORDER" using c k(1) by auto
  then show ?thesis using c(1) by (simp add: page_alloc_in_zone_def)
qed

section \<open>Release\<close>

text \<open>
  The test of the merging loop, \<open>page_is_free\<close> and \<open>page_order\<close> on the descriptor of the buddy, sees
  exactly whether the buddy block is on the free list of the order: stale flags inside larger
  blocks never pass it.
\<close>

lemma buddy_test:
  assumes inv: "zone_inv z F A {(i, k)}" and k: "k < MAX_ORDER"
    and b: "zbegin z \<le> buddy k i" "buddy k i < zend z"
  shows "page_is_free (frame_desc z (buddy k i)) \<and> page_order (frame_desc z (buddy k i)) = k
    \<longleftrightarrow> (buddy k i, k) \<in> free_blocks F" (is "?t \<longleftrightarrow> ?m")
proof
  assume ?m
  then show ?t using inv by (auto simp: zone_inv_def flags_inv_def)
next
  assume t: ?t
  have iz: "aligned i k" using in_zone [OF inv, of i k] by simp
  have al: "aligned (buddy k i) k" and dj: "blk i k \<inter> blk (buddy k i) k = {}" using blk_merge [OF iz] by auto
  have hand: "blk i k \<inter> cover (free_blocks F \<union> A) = {}" using in_hand_cover [OF inv] by auto
  have "buddy k i \<notin> blk i k" using dj blk_self [of "buddy k i" k] by blast
  moreover have "flags_inv z (free_blocks F) A {(i, k)}" using inv by (simp add: zone_inv_def)
  ultimately have "buddy k i \<in> cover (free_blocks F \<union> A)"
    using t b unfolding flags_inv_def by (auto simp: cover_insert)
  then obtain j l where jl: "(j, l) \<in> free_blocks F \<union> A" "buddy k i \<in> blk j l" by (auto simp: cover_def)
  have alj: "aligned j l" using in_zone(3) [OF inv, of j l] jl(1) by auto
  have "l \<le> k"
  proof (rule ccontr)
    assume "\<not> l \<le> k"
    then have "blk (min i (buddy k i)) (Suc k) \<subseteq> blk j l \<or> blk (min i (buddy k i)) (Suc k) \<inter> blk j l = {}"
      using blk_nested [OF blk_merge(3) [OF iz] alj] by simp
    then have "i \<in> blk j l"
      using jl(2) blk_merge(1) [OF iz] blk_self [of i k] blk_self [of "buddy k i" k] by blast
    then have "i \<in> blk i k \<inter> cover (free_blocks F \<union> A)"
      using in_cover [OF jl(1)] blk_self [of i k] by blast
    then show False using hand by blast
  qed
  then have j: "j = buddy k i" using blk_head [OF al alj _ jl(2)] by simp
  have f: "flags_inv z (free_blocks F) A {(i, k)}" using inv by (simp add: zone_inv_def)
  consider "(j, l) \<in> free_blocks F" | "(j, l) \<in> A" using jl(1) by auto
  then show ?m using f t j by cases (auto simp: flags_inv_def)
qed

lemma merge_loop_spec:
  assumes "zone_inv z F A {(i, k)}"
  shows "\<exists>z' F' j l. merge_loop z i k = Inr (z', j, l) \<and> zone_inv z' F' A {(j, l)}
    \<and> (l < MAX_ORDER \<longrightarrow> (buddy l j, l) \<notin> free_blocks F')
    \<and> cover (free_blocks F') \<union> blk j l = cover (free_blocks F) \<union> blk i k
    \<and> blk i k \<subseteq> blk j l \<and> kept z z' {}"
  using assms
proof (induction "MAX_ORDER - k" arbitrary: z F i k rule: less_induct)
  case less
  note inv = less.prems
  have iz: "zbegin z \<le> i" "i < zend z" "aligned i k" "k \<le> MAX_ORDER" using in_zone [OF inv, of i k] by auto
  let ?b = "buddy k i"
  show ?case
  proof (cases "k < MAX_ORDER \<and> zbegin z \<le> ?b \<and> ?b < zend z \<and> (?b, k) \<in> free_blocks F")
    case False
    have stop: "merge_loop z i k = Inr (z, i, k)"
      using False zone_page_frame [of z ?b] buddy_test [OF inv]
      by (subst merge_loop.simps) (auto simp: Let_def simp flip: buddy_def)
    have "(?b, k) \<notin> free_blocks F" if "k < MAX_ORDER"
      using False that in_zone(1,2) [OF inv, of ?b k] by auto
    then show ?thesis using stop inv by (intro exI [of _ z] exI [of _ F] exI [of _ i] exI [of _ k]) auto
  next
    case True
    let ?F = "F(k := remove1 ?b (F k))" and ?m = "min i ?b"
    obtain l where l: "list_del (PageLL (?b - zbegin z)) (zlinks z) = Inr l"
        "zone_inv (z\<lparr>zlinks := l\<rparr>) ?F A (insert (?b, k) {(i, k)})"
      using inv_take [OF inv] True by blast
    note mg = blk_merge [OF iz(3)]
    have inv': "zone_inv (z\<lparr>zlinks := l\<rparr>) ?F A {(?m, Suc k)}"
      using mg True by (intro inv_regroup [OF l(2)]) (auto simp: cover_insert)
    have "MAX_ORDER - Suc k < MAX_ORDER - k" using True by auto
    from less.hyps [OF this inv'] obtain z' F' j n where r: "merge_loop (z\<lparr>zlinks := l\<rparr>) ?m (Suc k) = Inr (z', j, n)"
        "zone_inv z' F' A {(j, n)}" "n < MAX_ORDER \<longrightarrow> (buddy n j, n) \<notin> free_blocks F'"
        "cover (free_blocks F') \<union> blk j n = cover (free_blocks ?F) \<union> blk ?m (Suc k)"
        "blk ?m (Suc k) \<subseteq> blk j n" "kept (z\<lparr>zlinks := l\<rparr>) z' {}"
      by blast
    have "(if ?b < i then ?b else i) = ?m" by (simp add: min_def)
    then have "merge_loop z i k = Inr (z', j, n)"
      using True zone_page_frame [of z ?b] buddy_test [OF inv] l(1) r(1)
      by (subst merge_loop.simps) (auto simp: Let_def simp flip: buddy_def)
    moreover have "cover (free_blocks F') \<union> blk j n = cover (free_blocks F) \<union> blk i k"
      using r(4) cover_free_remove(1) [OF inv, of ?b k] True mg(1) by auto
    moreover have "kept z z' {}" using kept_trans [OF kept_links r(6)] by blast
    ultimately show ?thesis using r(2,3,5) mg(1) by (intro exI [of _ z'] exI [of _ F'] exI [of _ j] exI [of _ n]) auto
  qed
qed

lemma free_spec:
  assumes inv: "zone_inv z F A {}" and mem: "(zbegin z + i, k) \<in> A"
  shows "\<exists>z' F'. page_free_in_zone z i k = Inr z' \<and> zone_inv z' F' (A - {(zbegin z + i, k)}) {}
    \<and> cover (free_blocks F') = cover (free_blocks F) \<union> blk (zbegin z + i) k
    \<and> kept z z' (cover (free_blocks F'))"
proof -
  let ?i = "zbegin z + i"
  obtain z1 F1 j l where m: "merge_loop z ?i k = Inr (z1, j, l)" "zone_inv z1 F1 (A - {(?i, k)}) {(j, l)}"
    "l < MAX_ORDER \<longrightarrow> (buddy l j, l) \<notin> free_blocks F1"
    "cover (free_blocks F1) \<union> blk j l = cover (free_blocks F) \<union> blk ?i k" "kept z z1 {}"
    using merge_loop_spec [OF inv_hold [OF inv mem]] by blast
  have zb: "zbegin z1 = zbegin z" using m(5) by (simp add: kept_def)
  obtain h z' where h: "list_add (PageLL (j - zbegin z1)) (order_slot l) (zlinks z1) = Inr h"
    "mark_free (z1\<lparr>zlinks := h\<rparr>) (j - zbegin z1) l = Inr z'"
    "zone_inv z' (F1(l := j # F1 l)) (A - {(?i, k)}) {}" "kept z1 z' {j}"
    using inv_install(1) [OF m(2) _ m(3)] by auto
  have "aligned ?i k" using in_zone(3) [OF inv, of ?i k] mem by simp
  then have al: "?i AND (2 ^ k - 1) = 0" by (simp only: and_mask_dvd aligned_def)
  have "page_free_in_zone z i k = Inr z'"
    unfolding page_free_in_zone_def Let_def al using m(1) h(1,2) zb by simp
  moreover have "l \<le> MAX_ORDER" using in_zone(4) [OF m(2), of j l] by simp
  then have cv: "cover (free_blocks (F1(l := j # F1 l))) = cover (free_blocks F) \<union> blk ?i k"
    using cover_free_add [of l "j # F1 l" j F1] m(4) by auto
  moreover have "kept z z' (cover (free_blocks (F1(l := j # F1 l))))"
    using m(4) cv by (intro kept_trans [OF m(5) h(4)]) auto
  ultimately show ?thesis using h(3) by blast
qed

section \<open>Releasing a range at boot\<close>

lemma and_exp_bit: "(i::nat) AND 2 ^ k \<noteq> 0 \<longleftrightarrow> bit i k"
  by (simp only: and_exp_eq_0_iff_not_bit not_not)

lemma aligned_Suc: "aligned i k \<Longrightarrow> \<not> bit i k \<Longrightarrow> aligned i (Suc k)"
  by (simp add: aligned_def bit_iff_half_not_dvd)

lemma fit_order_spec:
  assumes "aligned p k" "k \<le> MAX_ORDER" "p + 2 ^ k \<le> e"
  shows "k \<le> fit_order p e k \<and> fit_order p e k \<le> MAX_ORDER \<and> aligned p (fit_order p e k)
    \<and> p + 2 ^ fit_order p e k \<le> e
    \<and> (fit_order p e k = MAX_ORDER \<or> bit p (fit_order p e k) \<or> e < p + 2 ^ Suc (fit_order p e k))"
  using assms
proof (induction "MAX_ORDER - k" arbitrary: k rule: less_induct)
  case less
  show ?case
  proof (cases "k < MAX_ORDER \<and> \<not> bit p k \<and> p + 2 ^ Suc k \<le> e")
    case False
    then have "fit_order p e k = k"
      by (subst fit_order.simps) (auto simp only: and_exp_bit Suc_eq_plus1 split: if_splits)
    then show ?thesis using False less.prems by auto
  next
    case True
    then have "fit_order p e k = fit_order p e (Suc k)"
      by (subst fit_order.simps) (auto simp only: and_exp_bit Suc_eq_plus1 not_less split: if_splits)
    moreover have "MAX_ORDER - Suc k < MAX_ORDER - k" "aligned p (Suc k)" "Suc k \<le> MAX_ORDER" "p + 2 ^ Suc k \<le> e"
      using True less.prems(1) aligned_Suc by auto
    note less.hyps [OF this]
    ultimately show ?thesis by auto
  qed
qed

text \<open>
  The block before \<open>p\<close> is not the free lower buddy of a block of the range that starts at \<open>p\<close>.
\<close>

definition left_apart :: "(nat \<Rightarrow> nat list) \<Rightarrow> nat \<Rightarrow> nat \<Rightarrow> bool" where
  "left_apart F p e \<longleftrightarrow> (\<forall>k<MAX_ORDER. bit p k \<longrightarrow> aligned p k \<longrightarrow> p + 2 ^ k \<le> e \<longrightarrow> (p - 2 ^ k, k) \<notin> free_blocks F)"

lemma left_apart_gap: "p = 0 \<or> p - 1 \<notin> cover (free_blocks F) \<Longrightarrow> left_apart F p e"
  unfolding left_apart_def
proof (intro allI impI)
  fix k assume p: "p = 0 \<or> p - 1 \<notin> cover (free_blocks F)" "bit p k"
  have "2 ^ k \<le> p" using p(2) by (rule bit_imp_ge)
  moreover have "0 < (2::nat) ^ k" by simp
  ultimately have "p - 1 \<in> blk (p - 2 ^ k) k" "p \<noteq> 0"
    unfolding blk_def atLeastLessThan_iff by linarith+
  then show "(p - 2 ^ k, k) \<notin> free_blocks F" using p(1) in_cover by blast
qed

lemma left_apart_step:
  assumes inv: "zone_inv z (F(c := ys)) A {}" and mem: "(p, c) \<in> free_blocks (F(c := ys))"
    and fit: "c = MAX_ORDER \<or> bit p c \<or> e < p + 2 ^ Suc c"
  shows "left_apart (F(c := ys)) (p + 2 ^ c) e"
  unfolding left_apart_def
proof (intro allI impI notI)
  let ?F = "F(c := ys)" and ?q = "p + 2 ^ c"
  fix k assume k: "k < MAX_ORDER" "bit ?q k" "aligned ?q k" "?q + 2 ^ k \<le> e" "(?q - 2 ^ k, k) \<in> free_blocks ?F"
  have al: "aligned p c" using in_zone(3) [OF inv, of p c] mem by simp
  have "2 ^ k \<le> ?q" using k(2) by (rule bit_imp_ge)
  moreover have "0 < (2::nat) ^ k" "0 < (2::nat) ^ c" by simp_all
  ultimately have x: "?q - 1 \<in> blk (?q - 2 ^ k) k" "?q - 1 \<in> blk p c"
    unfolding blk_def atLeastLessThan_iff by linarith+
  have "disjoint_blocks (free_blocks ?F)" using inv by (simp add: zone_inv_def blocks_inv_def)
  from disjoint_blocksD [OF this k(5) mem x] have eq: "k = c" by simp
  have "bit ?q c" using k(2) eq by simp
  then have "\<not> bit p c" using al by (auto simp: bit_iff_odd aligned_def elim!: dvdE)
  then show False using fit k(1,4) eq by auto
qed

lemma free_range_spec:
  assumes "zone_inv z F A {}" "zbegin z \<le> p" "p \<le> e" "e \<le> zend z"
    "{p..<e} \<inter> cover (free_blocks F \<union> A) = {}" "e \<notin> cover (free_blocks F)" "left_apart F p e"
  shows "\<exists>z' F'. free_range_loop z p e = Inr z' \<and> zone_inv z' F' A {}
    \<and> cover (free_blocks F') = cover (free_blocks F) \<union> {p..<e} \<and> kept z z' {p..<e}"
  using assms
proof (induction "e - p" arbitrary: z F p rule: less_induct)
  case less
  note inv = less.prems(1)
  show ?case
  proof (cases "p = e")
    case True
    then show ?thesis using inv by (subst free_range_loop.simps) auto
  next
    case False
    define c where "c = fit_order p e 0"
    have c: "c \<le> MAX_ORDER" "aligned p c" "p + 2 ^ c \<le> e" "c = MAX_ORDER \<or> bit p c \<or> e < p + 2 ^ Suc c"
      using fit_order_spec [of p 0 e] False less.prems(3) by (auto simp: c_def aligned_def)
    have pos: "0 < (2::nat) ^ c" by simp
    have sub: "blk p c \<subseteq> {p..<e}" using c(3) by (auto simp: blk_def)
    have "zone_inv z F A {(p, c)}"
      using inv c less.prems(2,4,5) sub unfolding zone_inv_def blocks_inv_def flags_inv_def
      by (auto simp: cover_insert)
    moreover have bud: "c < MAX_ORDER \<longrightarrow> (buddy c p, c) \<notin> free_blocks F"
    proof
      assume cM: "c < MAX_ORDER"
      show "(buddy c p, c) \<notin> free_blocks F"
      proof (cases "bit p c")
        case True
        then show ?thesis using less.prems(7) c cM by (auto simp: left_apart_def buddy_bit)
      next
        case False
        then have "e \<in> blk (buddy c p) c" using c cM by (auto simp: buddy_bit blk_def)
        then show ?thesis using less.prems(6) in_cover by blast
      qed
    qed
    ultimately obtain l z1 where l: "list_add_tail (PageLL (p - zbegin z)) (order_slot c) (zlinks z) = Inr l"
      "mark_free (z\<lparr>zlinks := l\<rparr>) (p - zbegin z) c = Inr z1"
      "zone_inv z1 (F(c := F c @ [p])) A {}" "kept z z1 {p}"
      using inv_install(2) [of z F A p c "{}"] by auto
    let ?F = "F(c := F c @ [p])"
    have cv: "cover (free_blocks ?F) = blk p c \<union> cover (free_blocks F)"
      using c(1) by (intro cover_free_add) auto
    have mem: "(p, c) \<in> free_blocks ?F" using c(1) by (simp add: free_blocks_def)
    have bounds: "zbegin z1 = zbegin z" "zend z1 = zend z" using l(4) by (auto simp: kept_def)
    have dec: "e - (p + 2 ^ c) < e - p" using c(3) pos by linarith
    have "{p + 2 ^ c..<e} \<subseteq> {p..<e}" "{p + 2 ^ c..<e} \<inter> blk p c = {}" by (auto simp: blk_def)
    then have "{p + 2 ^ c..<e} \<inter> cover (free_blocks ?F \<union> A) = {}"
      using less.prems(5) unfolding cover_Un cv by blast
    moreover have "zbegin z1 \<le> p + 2 ^ c" "e \<le> zend z1" "e \<notin> cover (free_blocks ?F)"
      using c(3) less.prems(2,4,6) bounds cv by (auto simp: blk_def)
    ultimately have step: "zbegin z1 \<le> p + 2 ^ c" "e \<le> zend z1"
      "{p + 2 ^ c..<e} \<inter> cover (free_blocks ?F \<union> A) = {}" "e \<notin> cover (free_blocks ?F)" by simp_all
    from less.hyps [OF dec l(3) step(1) c(3) step(2-4) left_apart_step [OF l(3) mem c(4)]]
    obtain z' F' where r: "free_range_loop z1 (p + 2 ^ c) e = Inr z'" "zone_inv z' F' A {}"
      "cover (free_blocks F') = cover (free_blocks ?F) \<union> {p + 2 ^ c..<e}" "kept z1 z' {p + 2 ^ c..<e}"
      by blast
    have "free_range_loop z p e = Inr z'"
      using False less.prems(2,3) l(1,2) r(1)
      by (subst free_range_loop.simps) (simp add: c_def [symmetric] Let_def)
    moreover have "cover (free_blocks F') = cover (free_blocks F) \<union> {p..<e}"
      using r(3) cv c(3) by (auto simp: blk_def)
    moreover have "p < e" using c(3) pos by linarith
    then have "kept z z' {p..<e}" by (intro kept_trans [OF l(4) r(4)]) auto
    ultimately show ?thesis using r(2) by blast
  qed
qed

end
