(* ===== verification/Buddy_Zones.thy ===== *)
theory Buddy_Zones
  imports Buddy_Ops
begin

unbundle bit_operations_syntax

text \<open>
  The page allocator as a whole: building a zone from raw memory, releasing a range into the zone
  that contains it, and the operations that pick a zone.
\<close>

section \<open>Building a zone\<close>

lemma init_orders_spec:
  assumes "lists_rep l (OrderHead ` H) (zlists zb (\<lambda>_. []))" "order_heads \<subseteq> dom l"
    and "set ks \<subseteq> {..MAX_ORDER}" "distinct ks" "set ks \<inter> H = {}"
  shows "\<exists>l'. init_orders ks l = Inr l' \<and> lists_rep l' (OrderHead ` (H \<union> set ks)) (zlists zb (\<lambda>_. []))
    \<and> dom l' = dom l"
  using assms
proof (induction ks arbitrary: l H)
  case Nil
  then show ?case by simp
next
  case (Cons k ks)
  have "OrderHead k \<in> order_heads" using Cons.prems(3) by simp
  then have "OrderHead k \<in> dom l" using Cons.prems(2) by blast
  moreover have "\<forall>b\<in>OrderHead ` H. OrderHead k \<notin> set (b # zlists zb (\<lambda>_. []) b)"
    using Cons.prems(5) by auto
  ultimately have "OrderHead k \<in> dom l" "\<forall>b\<in>OrderHead ` H. OrderHead k \<notin> set (b # zlists zb (\<lambda>_. []) b)"
    by blast+
  from lists_rep_init [OF Cons.prems(1) this] obtain l1 where l1: "list_init (OrderHead k) l = Inr l1"
    "lists_rep l1 (insert (OrderHead k) (OrderHead ` H)) ((zlists zb (\<lambda>_. []))(OrderHead k := []))" "dom l1 = dom l"
    by blast
  have "(zlists zb (\<lambda>_. []))(OrderHead k := []) = zlists zb (\<lambda>_. [])" by (auto simp: fun_eq_iff)
  then have rep: "lists_rep l1 (OrderHead ` insert k H) (zlists zb (\<lambda>_. []))" using l1(2) by simp
  have pre: "order_heads \<subseteq> dom l1" "set ks \<subseteq> {..MAX_ORDER}" "distinct ks" "set ks \<inter> insert k H = {}"
    using Cons.prems l1(3) by auto
  show ?case using Cons.IH [OF rep pre] l1(1,3) by auto
qed

text \<open>
  The memory of a zone holds the heads and one \<open>ll\<close> per frame.
\<close>

definition raw_fits :: "nat \<Rightarrow> zone_raw \<Rightarrow> bool" where
  "raw_fits pgs r \<longleftrightarrow> dom (fst r) = order_heads \<union> PageLL ` {..<pgs}"

definition raw_clear :: "nat \<Rightarrow> zone_raw \<Rightarrow> bool" where
  "raw_clear pgs r \<longleftrightarrow> (\<forall>i<pgs. \<not> page_is_free (snd r i))"

lemma page_alloc_zone_setup_spec:
  assumes b: "b = unat (drop_bit PAGE_SHIFT (page_up zb))" and e: "e = unat (drop_bit PAGE_SHIFT (page_down ze))"
    and lt: "b < e" and r: "balloc (zone_bytes (e - b)) = Some r" and fits: "raw_fits (e - b) r"
  shows "\<exists>z. page_alloc_zone_setup balloc zb ze = Inr (Some z) \<and> zbegin z = b \<and> zend z = e
    \<and> zpages z = snd r \<and> links_inv z (\<lambda>_. [])"
proof -
  obtain l ps where lp: "r = (l, ps)" by force
  have dom: "dom l = order_heads \<union> PageLL ` {..<e - b}" using fits lp by (simp add: raw_fits_def)
  have base: "lists_rep l (OrderHead ` {}) (zlists b (\<lambda>_. []))" by (simp add: lists_rep_def)
  have ks: "set [0..<Suc MAX_ORDER] \<subseteq> {..MAX_ORDER}" "distinct [0..<Suc MAX_ORDER]"
    "set [0..<Suc MAX_ORDER] \<inter> {} = {}" by (auto simp del: upt_Suc)
  from init_orders_spec [OF base _ ks] dom obtain l' where
    l': "init_orders [0..<Suc MAX_ORDER] l = Inr l'"
      "lists_rep l' (OrderHead ` ({} \<union> set [0..<Suc MAX_ORDER])) (zlists b (\<lambda>_. []))" "dom l' = dom l" by auto
  have "OrderHead ` ({} \<union> set [0..<Suc MAX_ORDER]) = order_heads"
    by (auto simp: order_heads_def simp del: upt_Suc)
  then have rep: "lists_rep l' order_heads (zlists b (\<lambda>_. []))" using l'(2) by simp
  have "memset_pages 0 ps = ps" by (simp add: memset_pages_def)
  then have "page_alloc_zone_setup balloc zb ze
      = Inr (Some \<lparr>zbegin = b, zend = e, zlinks = l', zpages = ps\<rparr>)"
    using lt r lp l'(1) by (simp add: page_alloc_zone_setup_def b [symmetric] e [symmetric] Let_def del: upt_Suc)
  then show ?thesis
    using rep lt dom l'(3) lp by (auto simp: links_inv_def)
qed

lemma empty_free_blocks [simp]: "free_blocks (\<lambda>_. []) = {}"
  by (simp add: free_blocks_def)

lemma fresh_zone_inv:
  assumes "links_inv z (\<lambda>_. [])" "\<forall>i<zend z - zbegin z. \<not> page_is_free (zpages z i)"
  shows "zone_inv z (\<lambda>_. []) {} {}"
proof -
  have "i - zbegin z < zend z - zbegin z" if "zbegin z \<le> i" "i < zend z" for i
    using that by linarith
  then show ?thesis
    using assms by (auto simp: zone_inv_def blocks_inv_def coalesced_def flags_inv_def frame_desc_def)
qed

section \<open>The list of zones\<close>

text \<open>
  \<open>G\<close> gives for every zone its free lists and its allocated blocks.  Frame 0 is never free, so the
  address 0 is not the address of a block.
\<close>

type_synonym ghost = "(nat \<Rightarrow> nat list) \<times> (nat \<times> nat) set"

definition in_zone_at :: "zone list \<Rightarrow> nat \<Rightarrow> nat \<Rightarrow> bool" where
  "in_zone_at zs n i \<longleftrightarrow> n < length zs \<and> zbegin (zs ! n) \<le> i \<and> i < zend (zs ! n)"

definition zones_inv :: "zone list \<Rightarrow> ghost list \<Rightarrow> bool" where
  "zones_inv zs G \<longleftrightarrow> length G = length zs \<and>
     (\<forall>n<length zs. zone_inv (zs ! n) (fst (G ! n)) (snd (G ! n)) {} \<and>
        0 \<notin> cover (free_blocks (fst (G ! n)) \<union> snd (G ! n))) \<and>
     (\<forall>i m n. in_zone_at zs m i \<longrightarrow> in_zone_at zs n i \<longrightarrow> m = n)"

text \<open>The blocks a client holds, as zone positions and frames.\<close>

definition held :: "ghost list \<Rightarrow> (nat \<times> nat \<times> nat) set" where
  "held G = {(n, i, k). n < length G \<and> (i, k) \<in> snd (G ! n)}"

lemma zone_find_Some: "zone_find i zs = Some n \<Longrightarrow> in_zone_at zs n i"
  by (induction zs arbitrary: n) (auto simp: in_zone_at_def split: if_splits)

lemma zone_find_None: "zone_find i zs = None \<longleftrightarrow> (\<forall>z\<in>set zs. i < zbegin z \<or> zend z \<le> i)"
  by (induction zs) auto

lemma zone_find_unique:
  assumes "zones_inv zs G" "in_zone_at zs n i"
  shows "zone_find i zs = Some n"
proof (cases "zone_find i zs")
  case None
  have "zs ! n \<in> set zs" using assms(2) by (simp add: in_zone_at_def)
  then have "i < zbegin (zs ! n) \<or> zend (zs ! n) \<le> i" using None zone_find_None by blast
  then show ?thesis using assms(2) by (auto simp: in_zone_at_def)
next
  case (Some m)
  have "m = n" using zone_find_Some [OF Some] assms by (simp add: zones_inv_def)
  then show ?thesis using Some by simp
qed

lemma zones_inv_zone:
  "zones_inv zs G \<Longrightarrow> n < length zs \<Longrightarrow> zone_inv (zs ! n) (fst (G ! n)) (snd (G ! n)) {}"
  by (simp add: zones_inv_def)

lemma zones_inv_update:
  assumes "zones_inv zs G" "n < length zs" "zone_inv z F A {}" "0 \<notin> cover (free_blocks F \<union> A)"
    "zbegin z = zbegin (zs ! n)" "zend z = zend (zs ! n)"
  shows "zones_inv (zs[n := z]) (G[n := (F, A)])"
proof -
  have at: "in_zone_at (zs[n := z]) m i = in_zone_at zs m i" for m i
    using assms(2,5,6) by (cases "m = n") (auto simp: in_zone_at_def)
  have "zone_inv (zs[n := z] ! m) (fst (G[n := (F, A)] ! m)) (snd (G[n := (F, A)] ! m)) {} \<and>
      0 \<notin> cover (free_blocks (fst (G[n := (F, A)] ! m)) \<union> snd (G[n := (F, A)] ! m))"
    if "m < length zs" for m
    using assms(1-4) that unfolding zones_inv_def by (cases "m = n") simp_all
  moreover have "length (G[n := (F, A)]) = length (zs[n := z])" using assms(1) by (simp add: zones_inv_def)
  moreover have "\<forall>i m n. in_zone_at zs m i \<longrightarrow> in_zone_at zs n i \<longrightarrow> m = n"
    using assms(1) unfolding zones_inv_def by blast
  ultimately show ?thesis unfolding zones_inv_def at by simp
qed

text \<open>\<open>page_alloc_zones\<close> is walked in order: the first zone with a large enough block serves.\<close>

definition zone_serves :: "nat \<Rightarrow> (nat \<Rightarrow> nat list) \<Rightarrow> bool" where
  "zone_serves k F \<longleftrightarrow> (\<exists>l. k \<le> l \<and> l \<le> MAX_ORDER \<and> F l \<noteq> [])"

lemma zones_alloc_none:
  assumes "length G = length zs" "\<forall>n<length zs. zone_inv (zs ! n) (fst (G ! n)) (snd (G ! n)) {}"
    "\<forall>n<length zs. \<not> zone_serves k (fst (G ! n))" "k \<le> MAX_ORDER"
  shows "zones_alloc k zs = Inr (None, zs)"
  using assms
proof (induction zs arbitrary: G)
  case Nil
  then show ?case by simp
next
  case (Cons z zs)
  then obtain g G' where G: "G = g # G'" by (cases G) auto
  have "zone_inv z (fst g) (snd g) {}" "\<not> zone_serves k (fst g)" using Cons.prems G by fastforce+
  then have "page_alloc_in_zone z k = Inr (None, z)"
    using alloc_spec_none [of z "fst g" "snd g" k] Cons.prems(4) by (auto simp: zone_serves_def)
  moreover have "zones_alloc k zs = Inr (None, zs)"
    using Cons.IH [of G'] Cons.prems G by fastforce
  ultimately show ?case by simp
qed

lemma zones_alloc_some:
  assumes "length G = length zs" "\<forall>n<length zs. zone_inv (zs ! n) (fst (G ! n)) (snd (G ! n)) {}"
    "n < length zs" "zone_serves k (fst (G ! n))" "\<forall>m<n. \<not> zone_serves k (fst (G ! m))" "k \<le> MAX_ORDER"
  shows "\<exists>i z' F'. zones_alloc k zs = Inr (Some (n, i), zs[n := z'])
    \<and> page_alloc_in_zone (zs ! n) k = Inr (Some i, z')
    \<and> zone_inv z' F' (insert (zbegin (zs ! n) + i, k) (snd (G ! n))) {}
    \<and> cover (free_blocks (fst (G ! n))) = blk (zbegin (zs ! n) + i) k \<union> cover (free_blocks F')
    \<and> kept (zs ! n) z' (cover (free_blocks (fst (G ! n))))"
  using assms
proof (induction zs arbitrary: G n)
  case Nil
  then show ?case by simp
next
  case (Cons z zs)
  then obtain g G' where G: "G = g # G'" by (cases G) auto
  have inv: "zone_inv z (fst g) (snd g) {}" using Cons.prems(2) G by fastforce
  show ?case
  proof (cases n)
    case 0
    then obtain l where "k \<le> l" "l \<le> MAX_ORDER" "fst g l \<noteq> []"
      using Cons.prems(4) G by (auto simp: zone_serves_def)
    from alloc_spec_some [OF inv this] show ?thesis using 0 G by auto
  next
    case (Suc m)
    have "\<not> zone_serves k (fst g)" using Cons.prems(5) G Suc by fastforce
    then have none: "page_alloc_in_zone z k = Inr (None, z)"
      using alloc_spec_none [OF inv] Cons.prems(6) by (auto simp: zone_serves_def)
    have "length G' = length zs" "\<forall>n<length zs. zone_inv (zs ! n) (fst (G' ! n)) (snd (G' ! n)) {}"
      "m < length zs" "zone_serves k (fst (G' ! m))" "\<forall>j<m. \<not> zone_serves k (fst (G' ! j))"
      using Cons.prems G Suc by fastforce+
    from Cons.IH [OF this Cons.prems(6)] show ?thesis using none Suc G by auto
  qed
qed

end
