(* ===== verification/Allocator.thy ===== *)
theory Allocator
  imports Kernel_Base
begin

text \<open>
  The contract the allocators of the kernel share (physical pages, slab caches, the general
  allocator): a request either fails and changes nothing that is held, or hands out a resource that
  is not held; returning a held resource succeeds.  The contract is stated for one call; the locale
  derives it for every sequence of calls a client can make.
\<close>

datatype 'q request = Request 'q | Return nat

definition drop_nth :: "nat \<Rightarrow> 'a list \<Rightarrow> 'a list" where
  "drop_nth j xs = take j xs @ drop (Suc j) xs"

text \<open>
  A client keeps what it was given in a list and returns entries of it: \<open>Return j\<close> returns the
  \<open>j\<close>-th resource it holds, if it holds that many.
\<close>

fun run_requests ::
  "('q \<Rightarrow> 's \<Rightarrow> ('r option \<times> 's) res) \<Rightarrow> ('r \<Rightarrow> 's \<Rightarrow> 's res) \<Rightarrow>
   'q request list \<Rightarrow> 'r list \<Rightarrow> 's \<Rightarrow> ('r list \<times> 's) res" where
  "run_requests alloc free [] hs s = Inr (hs, s)"
| "run_requests alloc free (Request q # rs) hs s =
     bindE (alloc q s) (\<lambda>(r, s).
     run_requests alloc free rs (case r of None \<Rightarrow> hs | Some x \<Rightarrow> x # hs) s)"
| "run_requests alloc free (Return j # rs) hs s =
     (if j < length hs
      then bindE (free (hs ! j) s) (run_requests alloc free rs (drop_nth j hs))
      else run_requests alloc free rs hs s)"

lemma set_drop_nth:
  assumes "distinct hs" "j < length hs"
  shows "set (drop_nth j hs) = set hs - {hs ! j}" "distinct (drop_nth j hs)"
proof -
  have hs: "hs = take j hs @ hs ! j # drop (Suc j) hs" using assms(2) by (simp add: id_take_nth_drop)
  have "distinct (take j hs @ hs ! j # drop (Suc j) hs)" using assms(1) hs by metis
  moreover have "set hs = set (take j hs @ hs ! j # drop (Suc j) hs)" using hs by metis
  ultimately show "set (drop_nth j hs) = set hs - {hs ! j}" "distinct (drop_nth j hs)"
    by (auto simp: drop_nth_def)
qed

locale allocator =
  fixes ainv :: "'s \<Rightarrow> 'r set \<Rightarrow> bool"
    and alloc :: "'q \<Rightarrow> 's \<Rightarrow> ('r option \<times> 's) res"
    and free :: "'r \<Rightarrow> 's \<Rightarrow> 's res"
  assumes alloc_ok: "ainv s H \<Longrightarrow> \<exists>r s'. alloc q s = Inr (r, s') \<and>
      (case r of None \<Rightarrow> ainv s' H | Some x \<Rightarrow> x \<notin> H \<and> ainv s' (insert x H))"
    and free_ok: "ainv s H \<Longrightarrow> x \<in> H \<Longrightarrow> \<exists>s'. free x s = Inr s' \<and> ainv s' (H - {x})"
begin

lemma run_safe:
  "ainv s (set hs) \<Longrightarrow> distinct hs \<Longrightarrow>
   \<exists>hs' s'. run_requests alloc free rs hs s = Inr (hs', s') \<and> distinct hs' \<and> ainv s' (set hs')"
proof (induction rs arbitrary: hs s)
  case Nil
  then show ?case by simp
next
  case (Cons r rs)
  show ?case
  proof (cases r)
    case (Request q)
    obtain x s1 where 1: "alloc q s = Inr (x, s1)"
      "case x of None \<Rightarrow> ainv s1 (set hs) | Some y \<Rightarrow> y \<notin> set hs \<and> ainv s1 (insert y (set hs))"
      using alloc_ok [OF Cons.prems(1)] by blast
    then show ?thesis
      using Cons.IH [of s1 hs] Cons.IH [of s1 "the x # hs"] Cons.prems(2) Request
      by (cases x) auto
  next
    case (Return j)
    show ?thesis
    proof (cases "j < length hs")
      case False
      then show ?thesis using Cons Return by simp
    next
      case True
      note dn = set_drop_nth [OF Cons.prems(2) True]
      obtain s1 where 1: "free (hs ! j) s = Inr s1" "ainv s1 (set hs - {hs ! j})"
        using free_ok [OF Cons.prems(1) nth_mem [OF True]] by blast
      then show ?thesis using Cons.IH [of s1 "drop_nth j hs"] dn Return True by simp
    qed
  qed
qed

lemma run_from_empty:
  "ainv s {} \<Longrightarrow> \<exists>hs' s'. run_requests alloc free rs [] s = Inr (hs', s') \<and> distinct hs' \<and> ainv s' (set hs')"
  using run_safe [of s "[]" rs] by simp

text \<open>A request followed by the return of what it gave leaves the held resources as they were.\<close>

lemma request_return:
  assumes "ainv s H" "alloc q s = Inr (Some x, s')"
  shows "\<exists>s''. free x s' = Inr s'' \<and> ainv s'' H"
proof -
  have "x \<notin> H" "ainv s' (insert x H)" using alloc_ok [OF assms(1), of q] assms(2) by auto
  then show ?thesis using free_ok [of s' "insert x H" x] by simp
qed

end

end
