(* ===== verification/Buddy_Client.thy ===== *)
theory Buddy_Client
  imports Buddy_Zones Allocator
begin

unbundle bit_operations_syntax

text \<open>
  The contract of the page allocator towards its clients: a client that only returns blocks it was
  given never stops the kernel, and the blocks it holds never overlap.  The client is any sequence
  of requests; \<open>held_ptrs\<close> are the page pointers it holds.
\<close>

definition page_request :: "nat \<Rightarrow> zone list \<Rightarrow> ((page_ptr \<times> nat) option \<times> zone list) res" where
  "page_request k zs = bindE (page_alloc_desc k zs) (\<lambda>(p, zs). Inr (map_option (\<lambda>p. (p, k)) p, zs))"

definition page_return :: "page_ptr \<times> nat \<Rightarrow> zone list \<Rightarrow> zone list res" where
  "page_return h zs = page_free_desc (Some (fst h)) (snd h) zs"

definition held_ptrs :: "zone list \<Rightarrow> ghost list \<Rightarrow> (page_ptr \<times> nat) set" where
  "held_ptrs zs G = {((n, i), k). n < length zs \<and> (zbegin (zs ! n) + i, k) \<in> snd (G ! n)}"

definition ptr_frames :: "zone list \<Rightarrow> page_ptr \<times> nat \<Rightarrow> nat set" where
  "ptr_frames zs h = (case h of ((n, i), k) \<Rightarrow> blk (zbegin (zs ! n) + i) k)"

text \<open>The frames the zones have left, over all zones.\<close>

definition free_frames :: "zone list \<Rightarrow> ghost list \<Rightarrow> nat set" where
  "free_frames zs G = (\<Union>n<length zs. cover (free_blocks (fst (G ! n))))"

text \<open>\<open>T\<close> is the set of all frames that are free or held; no request changes it.\<close>

definition page_ainv :: "nat set \<Rightarrow> zone list \<Rightarrow> (page_ptr \<times> nat) set \<Rightarrow> bool" where
  "page_ainv T zs H \<longleftrightarrow> (\<exists>G. zones_inv zs G \<and> H = held_ptrs zs G \<and>
     free_frames zs G \<union> (\<Union>h\<in>H. ptr_frames zs h) = T)"

section \<open>One request\<close>

text \<open>The effect on the ghost state of replacing the state of zone \<open>n\<close>.\<close>

lemma held_ptrs_update:
  assumes "n < length zs" "length G = length zs" "zbegin z = zbegin (zs ! n)"
  shows "held_ptrs (zs[n := z]) (G[n := (F, A)]) =
    {h \<in> held_ptrs zs G. fst (fst h) \<noteq> n} \<union> {((n, i), k) | i k. (zbegin (zs ! n) + i, k) \<in> A}"
  using assms by (auto simp: held_ptrs_def nth_list_update split: if_splits)

lemma ptr_frames_update [simp]:
  "n < length zs \<Longrightarrow> zbegin z = zbegin (zs ! n) \<Longrightarrow> ptr_frames (zs[n := z]) h = ptr_frames zs h"
  by (auto simp: ptr_frames_def nth_list_update split: prod.splits)

lemma free_frames_split:
  assumes "n < length zs"
  shows "free_frames zs G = cover (free_blocks (fst (G ! n))) \<union>
    (\<Union>m\<in>{..<length zs} - {n}. cover (free_blocks (fst (G ! m))))"
  using assms by (auto simp: free_frames_def)

lemma free_frames_update:
  assumes "n < length zs" "length G = length zs"
  shows "free_frames (zs[n := z]) (G[n := (F, A)]) = cover (free_blocks F) \<union>
    (\<Union>m\<in>{..<length zs} - {n}. cover (free_blocks (fst (G ! m))))"
proof -
  have "(\<Union>m\<in>{..<length zs} - {n}. cover (free_blocks (fst (G[n := (F, A)] ! m))))
      = (\<Union>m\<in>{..<length zs} - {n}. cover (free_blocks (fst (G ! m))))"
    by (intro SUP_cong) auto
  then show ?thesis using assms free_frames_split [of n "zs[n := z]" "G[n := (F, A)]"] by simp
qed

lemma first_serving:
  assumes "\<exists>n<length zs. zone_serves k (fst (G ! n))"
  obtains n where "n < length zs" "zone_serves k (fst (G ! n))" "\<forall>m<n. \<not> zone_serves k (fst (G ! m))"
proof -
  define P where "P n \<longleftrightarrow> n < length zs \<and> zone_serves k (fst (G ! n))" for n
  have "\<exists>n. P n" using assms by (auto simp: P_def)
  then have "P (LEAST n. P n)" by (rule LeastI_ex)
  moreover have "\<not> P m" if "m < (LEAST n. P n)" for m using that by (rule not_less_Least)
  ultimately show thesis using that [of "LEAST n. P n"] unfolding P_def by (meson less_trans)
qed

text \<open>
  \<open>page_step\<close> relates two states of the zones between which the held blocks change to \<open>H'\<close>: bounds
  stay, and the descriptors of blocks held in both states are not touched.
\<close>

definition descs_kept :: "zone list \<Rightarrow> zone list \<Rightarrow> (page_ptr \<times> nat) set \<Rightarrow> bool" where
  "descs_kept zs zs' H \<longleftrightarrow> length zs' = length zs \<and>
     (\<forall>n<length zs. zbegin (zs' ! n) = zbegin (zs ! n) \<and> zend (zs' ! n) = zend (zs ! n)) \<and>
     (\<forall>((n, i), k)\<in>H. \<forall>j<2 ^ k. zpages (zs' ! n) (i + j) = zpages (zs ! n) (i + j))"

lemma kept_descs_kept:
  assumes "zones_inv zs G" "n < length zs" "kept (zs ! n) z S" "S \<inter> cover A = {}" "A \<subseteq> snd (G ! n)"
  shows "descs_kept zs (zs[n := z]) (held_ptrs zs (G[n := (F, A)]))"
  unfolding descs_kept_def
proof (intro conjI allI impI ballI)
  fix h assume h: "h \<in> held_ptrs zs (G[n := (F, A)])"
  obtain m i k where e: "h = ((m, i), k)" by (metis prod.collapse)
  have len: "length G = length zs" using assms(1) by (simp add: zones_inv_def)
  have "zpages (zs[n := z] ! m) (i + j) = zpages (zs ! m) (i + j)" if j: "j < 2 ^ k" for j
  proof (cases "m = n")
    case True
    then have A: "(zbegin (zs ! n) + i, k) \<in> A" using h e assms(2) len by (simp add: held_ptrs_def)
    have "zbegin (zs ! n) + i + j \<in> blk (zbegin (zs ! n) + i) k" using j by (simp add: blk_def)
    then have "zbegin (zs ! n) + i + j \<notin> S" using in_cover [OF A] assms(4) by blast
    then have "frame_desc z (zbegin (zs ! n) + (i + j)) = frame_desc (zs ! n) (zbegin (zs ! n) + (i + j))"
      using assms(3) by (simp add: kept_def add.assoc)
    then show ?thesis using True assms(2,3) by (simp add: frame_desc_def kept_def)
  qed simp
  then show "case h of (xa, k) \<Rightarrow> (case xa of (n', i) \<Rightarrow> \<lambda>k. \<forall>j<2 ^ k.
      zpages (zs[n := z] ! n') (i + j) = zpages (zs ! n') (i + j)) k"
    using e by simp
qed (use assms(2,3) in \<open>auto simp: kept_def nth_list_update\<close>)

lemma client_alloc:
  assumes inv: "page_ainv T zs H"
  shows "\<exists>p zs'. page_alloc_desc k zs = Inr (p, zs') \<and> descs_kept zs zs' H \<and>
    (case p of None \<Rightarrow> zs' = zs
     | Some q \<Rightarrow> k \<le> MAX_ORDER \<and> (q, k) \<notin> H \<and> page_ainv T zs' (insert (q, k) H))"
proof (cases "k \<le> MAX_ORDER")
  case False
  then show ?thesis by (auto simp: page_alloc_desc_def descs_kept_def)
next
  case k: True
  obtain G where G: "zones_inv zs G" "H = held_ptrs zs G"
    "free_frames zs G \<union> (\<Union>h\<in>H. ptr_frames zs h) = T" using inv by (auto simp: page_ainv_def)
  note zi = G(1)
  have len: "length G = length zs"
    and each: "\<forall>n<length zs. zone_inv (zs ! n) (fst (G ! n)) (snd (G ! n)) {}"
    using zi by (auto simp: zones_inv_def)
  show ?thesis
  proof (cases "\<exists>n<length zs. zone_serves k (fst (G ! n))")
    case False
    then have "zones_alloc k zs = Inr (None, zs)" using zones_alloc_none [OF len each _ k] by blast
    then show ?thesis using k by (auto simp: page_alloc_desc_def descs_kept_def)
  next
    case True
    then obtain n where n: "n < length zs" "zone_serves k (fst (G ! n))"
      "\<forall>m<n. \<not> zone_serves k (fst (G ! m))" by (rule first_serving)
    let ?A = "snd (G ! n)"
    from zones_alloc_some [OF len each n k] obtain i z' F' where
      r: "zones_alloc k zs = Inr (Some (n, i), zs[n := z'])"
        "zone_inv z' F' (insert (zbegin (zs ! n) + i, k) ?A) {}"
        "cover (free_blocks (fst (G ! n))) = blk (zbegin (zs ! n) + i) k \<union> cover (free_blocks F')"
        "kept (zs ! n) z' (cover (free_blocks (fst (G ! n))))" by blast
    let ?i = "zbegin (zs ! n) + i" and ?zs = "zs[n := z']" and ?G = "G[n := (F', insert (zbegin (zs ! n) + i, k) ?A)]"
    have bounds: "zbegin z' = zbegin (zs ! n)" "zend z' = zend (zs ! n)" using r(4) by (auto simp: kept_def)
    have "0 \<notin> cover (free_blocks (fst (G ! n)) \<union> ?A)" using zi n(1) by (simp add: zones_inv_def)
    then have "0 \<notin> cover (free_blocks F' \<union> insert (?i, k) ?A)" using r(3) by (auto simp: cover_insert)
    then have zi': "zones_inv ?zs ?G" using zones_inv_update [OF zi n(1) r(2)] bounds by simp
    have fresh: "(?i, k) \<notin> ?A"
    proof
      assume "(?i, k) \<in> ?A"
      then have "?i \<in> cover ?A" by (rule mem_cover)
      moreover have "?i \<in> cover (free_blocks (fst (G ! n)))" using r(3) blk_self [of ?i k] by blast
      ultimately show False
        using zones_inv_zone [OF zi n(1)] by (auto simp: zone_inv_def blocks_inv_def)
    qed
    have hp: "held_ptrs ?zs ?G = insert ((n, i), k) (held_ptrs zs G)"
      using held_ptrs_update [OF n(1) len bounds(1)] n(1) by (auto simp: held_ptrs_def)
    have nh: "((n, i), k) \<notin> H" using fresh G(2) by (simp add: held_ptrs_def)
    have "free_frames ?zs ?G \<union> blk ?i k = free_frames zs G"
      unfolding free_frames_update [OF n(1) len] free_frames_split [OF n(1)] using r(3) by blast
    moreover have "(\<Union>h\<in>insert ((n, i), k) H. ptr_frames ?zs h) = blk ?i k \<union> (\<Union>h\<in>H. ptr_frames zs h)"
      using n(1) bounds(1) by simp (simp add: ptr_frames_def)
    ultimately have "free_frames ?zs ?G \<union> (\<Union>h\<in>insert ((n, i), k) H. ptr_frames ?zs h) = T"
      using G(3) by blast
    then have "page_ainv T ?zs (insert ((n, i), k) H)"
      unfolding page_ainv_def using zi' hp G(2) by (intro exI [of _ ?G]) simp
    moreover have "cover (free_blocks (fst (G ! n))) \<inter> cover ?A = {}"
      using zones_inv_zone [OF zi n(1)] by (simp add: zone_inv_def blocks_inv_def)
    from kept_descs_kept [OF zi n(1) r(4) this] have "descs_kept zs ?zs H"
      using G(2) by (metis (no_types) dual_order.refl list_update_id prod.collapse)
    ultimately show ?thesis using r(1) k nh
      by (intro exI [of _ "Some (n, i)"] exI [of _ ?zs]) (simp add: page_alloc_desc_def)
  qed
qed

lemma client_free:
  assumes inv: "page_ainv T zs H" and h: "(p, k) \<in> H"
  shows "\<exists>zs'. page_free_desc (Some p) k zs = Inr zs' \<and> descs_kept zs zs' (H - {(p, k)})
    \<and> page_ainv T zs' (H - {(p, k)})"
proof -
  obtain G where G: "zones_inv zs G" "H = held_ptrs zs G"
    "free_frames zs G \<union> (\<Union>h\<in>H. ptr_frames zs h) = T" using inv by (auto simp: page_ainv_def)
  note zi = G(1)
  have len: "length G = length zs" using zi by (simp add: zones_inv_def)
  obtain n i where p: "p = (n, i)" by force
  have n: "n < length zs" "(zbegin (zs ! n) + i, k) \<in> snd (G ! n)" using h p G(2) by (auto simp: held_ptrs_def)
  let ?i = "zbegin (zs ! n) + i" and ?A = "snd (G ! n)"
  note zn = zones_inv_zone [OF zi n(1)]
  from free_spec [OF zn n(2)] obtain z' F' where
    r: "page_free_in_zone (zs ! n) i k = Inr z'" "zone_inv z' F' (?A - {(?i, k)}) {}"
      "cover (free_blocks F') = cover (free_blocks (fst (G ! n))) \<union> blk ?i k"
      "kept (zs ! n) z' (cover (free_blocks F'))" by blast
  let ?zs = "zs[n := z']" and ?G = "G[n := (F', ?A - {(?i, k)})]"
  have bounds: "zbegin z' = zbegin (zs ! n)" "zend z' = zend (zs ! n)" using r(4) by (auto simp: kept_def)
  have A: "?A = insert (?i, k) (?A - {(?i, k)})" using n(2) by auto
  have cA: "cover ?A = blk ?i k \<union> cover (?A - {(?i, k)})" by (subst A) (rule cover_insert)
  have "0 \<notin> cover (free_blocks (fst (G ! n)) \<union> ?A)" using zi n(1) by (simp add: zones_inv_def)
  then have "0 \<notin> cover (free_blocks F' \<union> (?A - {(?i, k)}))" using r(3) cA by auto
  then have zi': "zones_inv ?zs ?G" using zones_inv_update [OF zi n(1) r(2)] bounds by simp
  have "?i < zend (zs ! n)" using in_zone(2) [OF zn, of ?i k] n(2) by simp
  then have "i < zend (zs ! n) - zbegin (zs ! n)" by linarith
  then have run: "page_free_desc (Some p) k zs = Inr ?zs"
    using p n(1) r(1) by (auto simp: page_free_desc_def page_zone_def)
  have hp: "held_ptrs ?zs ?G = held_ptrs zs G - {((n, i), k)}"
    using held_ptrs_update [OF n(1) len bounds(1)] n(1) by (auto simp: held_ptrs_def)
  have "free_frames ?zs ?G = free_frames zs G \<union> blk ?i k"
    unfolding free_frames_update [OF n(1) len] free_frames_split [OF n(1)] using r(3) by blast
  moreover have "H = insert ((n, i), k) (H - {((n, i), k)})" using h p by auto
  then have "(\<Union>h\<in>H. ptr_frames zs h) = ptr_frames zs ((n, i), k) \<union> (\<Union>h\<in>H - {((n, i), k)}. ptr_frames zs h)"
    by blast
  moreover have "(\<Union>h\<in>H - {((n, i), k)}. ptr_frames ?zs h) = (\<Union>h\<in>H - {((n, i), k)}. ptr_frames zs h)"
    using n(1) bounds(1) by simp
  ultimately have "free_frames ?zs ?G \<union> (\<Union>h\<in>H - {((n, i), k)}. ptr_frames ?zs h) = T"
    using G(3) by (simp add: ptr_frames_def Un_assoc)
  then have ai: "page_ainv T ?zs (H - {(p, k)})"
    unfolding page_ainv_def using zi' hp G(2) p by (intro exI [of _ ?G]) simp
  have "cover (free_blocks F') \<inter> cover (?A - {(?i, k)}) = {}"
    using r(2) by (simp add: zone_inv_def blocks_inv_def)
  from kept_descs_kept [OF zi n(1) r(4) this] have dk: "descs_kept zs ?zs (held_ptrs zs ?G)" by blast
  have "held_ptrs zs ?G = held_ptrs ?zs ?G"
    using bounds(1) n(1) by (auto simp: held_ptrs_def nth_list_update split: if_splits)
  then show ?thesis using run dk hp ai G(2) p by (intro exI [of _ ?zs]) simp
qed

section \<open>Any sequence of requests\<close>

interpretation pages: allocator "page_ainv T" page_request page_return for T
proof unfold_locales
  fix zs H k assume "page_ainv T zs H"
  from client_alloc [OF this, of k] this
  show "\<exists>r zs'. page_request k zs = Inr (r, zs') \<and>
      (case r of None \<Rightarrow> page_ainv T zs' H | Some x \<Rightarrow> x \<notin> H \<and> page_ainv T zs' (insert x H))"
    by (fastforce simp: page_request_def split: option.splits)
next
  fix zs H x assume "page_ainv T zs H" "x \<in> H"
  then show "\<exists>zs'. page_return x zs = Inr zs' \<and> page_ainv T zs' (H - {x})"
    using client_free [of T zs H "fst x" "snd x"] by (auto simp: page_return_def)
qed

lemma held_disjoint:
  assumes inv: "page_ainv T zs H" and h: "h \<in> H" "h' \<in> H" "h \<noteq> h'"
  shows "ptr_frames zs h \<inter> ptr_frames zs h' = {}"
proof (rule ccontr)
  assume "ptr_frames zs h \<inter> ptr_frames zs h' \<noteq> {}"
  then obtain x where x: "x \<in> ptr_frames zs h" "x \<in> ptr_frames zs h'" by blast
  obtain n i k m j l where e: "h = ((n, i), k)" "h' = ((m, j), l)" by (metis prod.collapse)
  obtain G where zi: "zones_inv zs G" and H: "H = held_ptrs zs G" using inv by (auto simp: page_ainv_def)
  have mem: "n < length zs" "(zbegin (zs ! n) + i, k) \<in> snd (G ! n)"
    "m < length zs" "(zbegin (zs ! m) + j, l) \<in> snd (G ! m)"
    using H h e by (auto simp: held_ptrs_def)
  have xb: "x \<in> blk (zbegin (zs ! n) + i) k" "x \<in> blk (zbegin (zs ! m) + j) l"
    using x e by (auto simp: ptr_frames_def)
  have at: "in_zone_at zs n x" "in_zone_at zs m x"
    using in_cover [OF mem(2)] in_cover [OF mem(4)] xb zones_inv_zone [OF zi mem(1)]
      zones_inv_zone [OF zi mem(3)] mem
    by (auto simp: in_zone_at_def zone_inv_def blocks_inv_def)
  then have nm: "n = m" using zi unfolding zones_inv_def by blast
  have "disjoint_blocks (snd (G ! n))"
    using zones_inv_zone [OF zi mem(1)] by (simp add: zone_inv_def blocks_inv_def)
  from disjoint_blocksD [OF this mem(2) mem(4) [folded nm] xb(1) xb(2) [folded nm]]
  show False using e nm h(3) by simp
qed

end
