(* ===== verification/Buddy_Props.thy ===== *)
theory Buddy_Props
  imports Buddy_Client
begin

unbundle bit_operations_syntax

text \<open>
  The page allocator at the level of addresses, small concrete zones, and the properties of the
  page allocator.
\<close>

section \<open>Addresses\<close>

lemma zone_serves_found:
  assumes zi: "zones_inv zs G" and k: "k \<le> MAX_ORDER" and ex: "\<exists>n<length zs. zone_serves k (fst (G ! n))"
  shows "\<exists>n i z' F'. n < length zs \<and> zones_alloc k zs = Inr (Some (n, i), zs[n := z'])
    \<and> zone_inv z' F' (insert (zbegin (zs ! n) + i, k) (snd (G ! n))) {}
    \<and> cover (free_blocks (fst (G ! n))) = blk (zbegin (zs ! n) + i) k \<union> cover (free_blocks F')
    \<and> kept (zs ! n) z' (cover (free_blocks (fst (G ! n))))
    \<and> zones_inv (zs[n := z']) (G[n := (F', insert (zbegin (zs ! n) + i, k) (snd (G ! n)))])
    \<and> zbegin (zs ! n) + i \<noteq> 0 \<and> (zbegin (zs ! n) + i, k) \<notin> snd (G ! n)"
proof -
  obtain n where n: "n < length zs" "zone_serves k (fst (G ! n))"
    "\<forall>m<n. \<not> zone_serves k (fst (G ! m))" using ex by (rule first_serving)
  have len: "length G = length zs" and each: "\<forall>n<length zs. zone_inv (zs ! n) (fst (G ! n)) (snd (G ! n)) {}"
    using zi by (auto simp: zones_inv_def)
  from zones_alloc_some [OF len each n k] obtain i z' F' where
    r: "zones_alloc k zs = Inr (Some (n, i), zs[n := z'])"
      "zone_inv z' F' (insert (zbegin (zs ! n) + i, k) (snd (G ! n))) {}"
      "cover (free_blocks (fst (G ! n))) = blk (zbegin (zs ! n) + i) k \<union> cover (free_blocks F')"
      "kept (zs ! n) z' (cover (free_blocks (fst (G ! n))))" by blast
  let ?i = "zbegin (zs ! n) + i"
  have z: "0 \<notin> cover (free_blocks (fst (G ! n)) \<union> snd (G ! n))" using zi n(1) by (simp add: zones_inv_def)
  have at: "?i \<in> cover (free_blocks (fst (G ! n)))" using r(3) blk_self [of ?i k] by blast
  then have "?i \<noteq> 0" using z by (metis UnCI cover_Un)
  moreover have "(?i, k) \<notin> snd (G ! n)"
    using mem_cover [of ?i k "snd (G ! n)"] at zones_inv_zone [OF zi n(1)]
    by (auto simp: zone_inv_def blocks_inv_def)
  moreover have "0 \<notin> cover (free_blocks F' \<union> insert (?i, k) (snd (G ! n)))"
    using z r(3) by (auto simp: cover_insert)
  then have "zones_inv (zs[n := z']) (G[n := (F', insert (?i, k) (snd (G ! n)))])"
    using zones_inv_update [OF zi n(1) r(2)] r(4) by (simp add: kept_def)
  ultimately show ?thesis using n(1) r by blast
qed

lemma PAGE_SIZE_mask: "PAGE_SIZE - 1 = mask 12"
  by (simp add: PAGE_SIZE_def mask_eq_exp_minus_1)

lemma page_up_whole: "push_bit 12 (drop_bit 12 (page_up a)) = page_up a"
  unfolding page_up_def PAGE_SIZE_mask by (intro bit_eqI) (auto simp: bit_simps not_less)

lemma push_shift: "push_bit PAGE_SHIFT (n::nat) = n * 4096"
  by (simp add: push_bit_eq_mult PAGE_SHIFT_def)

lemma drop_shift: "drop_bit PAGE_SHIFT ((n::nat) * 4096) = n"
  by (simp add: drop_bit_eq_div PAGE_SHIFT_def)

lemma page_alloc_cases:
  assumes zi: "zones_inv zs G"
  shows "(page_alloc k zs = Inr (0, zs) \<and>
       (k > MAX_ORDER \<or> (\<forall>n<length zs. \<not> zone_serves k (fst (G ! n))))) \<or>
     (k \<le> MAX_ORDER \<and> (\<exists>n<length zs. zone_serves k (fst (G ! n))) \<and>
      (\<exists>n i z' F'. n < length zs \<and> page_alloc k zs = Inr ((zbegin (zs ! n) + i) * 4096, zs[n := z'])
        \<and> zone_inv z' F' (insert (zbegin (zs ! n) + i, k) (snd (G ! n))) {}
        \<and> cover (free_blocks (fst (G ! n))) = blk (zbegin (zs ! n) + i) k \<union> cover (free_blocks F')
        \<and> kept (zs ! n) z' (cover (free_blocks (fst (G ! n))))
        \<and> zones_inv (zs[n := z']) (G[n := (F', insert (zbegin (zs ! n) + i, k) (snd (G ! n)))])
        \<and> zbegin (zs ! n) + i \<noteq> 0 \<and> (zbegin (zs ! n) + i, k) \<notin> snd (G ! n)))"
proof (cases "k \<le> MAX_ORDER")
  case False
  then show ?thesis by (simp add: page_alloc_def)
next
  case k: True
  show ?thesis
  proof (cases "\<exists>n<length zs. zone_serves k (fst (G ! n))")
    case False
    have "length G = length zs" "\<forall>n<length zs. zone_inv (zs ! n) (fst (G ! n)) (snd (G ! n)) {}"
      using zi by (auto simp: zones_inv_def)
    from zones_alloc_none [OF this _ k] False have "zones_alloc k zs = Inr (None, zs)" by blast
    then show ?thesis using k False by (auto simp: page_alloc_def)
  next
    case True
    from zone_serves_found [OF zi k True] obtain n i z' F' where
      r: "n < length zs" "zones_alloc k zs = Inr (Some (n, i), zs[n := z'])"
      "zone_inv z' F' (insert (zbegin (zs ! n) + i, k) (snd (G ! n))) {}"
      "cover (free_blocks (fst (G ! n))) = blk (zbegin (zs ! n) + i) k \<union> cover (free_blocks F')"
      "kept (zs ! n) z' (cover (free_blocks (fst (G ! n))))"
      "zones_inv (zs[n := z']) (G[n := (F', insert (zbegin (zs ! n) + i, k) (snd (G ! n)))])"
      "zbegin (zs ! n) + i \<noteq> 0" "(zbegin (zs ! n) + i, k) \<notin> snd (G ! n)" by blast
    have "zbegin z' = zbegin (zs ! n)" using r(5) by (simp add: kept_def)
    then have "page_alloc k zs = Inr ((zbegin (zs ! n) + i) * 4096, zs[n := z'])"
      using k r(1,2) by (simp add: page_alloc_def push_shift)
    then show ?thesis using k r True by blast
  qed
qed

lemma page_free_held:
  assumes zi: "zones_inv zs G" and n: "n < length zs" "(i, k) \<in> snd (G ! n)"
  shows "\<exists>z' F'. page_free (i * 4096) k zs = Inr (zs[n := z']) \<and> zone_inv z' F' (snd (G ! n) - {(i, k)}) {}
    \<and> cover (free_blocks F') = cover (free_blocks (fst (G ! n))) \<union> blk i k
    \<and> kept (zs ! n) z' (cover (free_blocks F'))
    \<and> zones_inv (zs[n := z']) (G[n := (F', snd (G ! n) - {(i, k)})])"
proof -
  note zn = zones_inv_zone [OF zi n(1)]
  have b: "zbegin (zs ! n) \<le> i" "i < zend (zs ! n)" using in_zone [OF zn, of i k] n(2) by auto
  then have zf: "zone_find i zs = Some n"
    using zone_find_unique [OF zi] n(1) by (simp add: in_zone_at_def)
  have z: "0 \<notin> cover (free_blocks (fst (G ! n)) \<union> snd (G ! n))" using zi n(1) by (simp add: zones_inv_def)
  have "i \<in> cover (snd (G ! n))" using n(2) by (rule mem_cover)
  then have i0: "i \<noteq> 0" using z by (metis UnCI cover_Un)
  have at: "zbegin (zs ! n) + (i - zbegin (zs ! n)) = i" using b(1) by simp
  from free_spec [OF zn, of "i - zbegin (zs ! n)" k] n(2) obtain z' F' where
    r: "page_free_in_zone (zs ! n) (i - zbegin (zs ! n)) k = Inr z'" "zone_inv z' F' (snd (G ! n) - {(i, k)}) {}"
      "cover (free_blocks F') = cover (free_blocks (fst (G ! n))) \<union> blk i k" "kept (zs ! n) z' (cover (free_blocks F'))"
    unfolding at by blast
  have A: "snd (G ! n) = insert (i, k) (snd (G ! n) - {(i, k)})" using n(2) by auto
  have "cover (snd (G ! n)) = blk i k \<union> cover (snd (G ! n) - {(i, k)})" by (subst A) (rule cover_insert)
  then have "0 \<notin> cover (free_blocks F' \<union> (snd (G ! n) - {(i, k)}))" using z r(3) by auto
  then have "zones_inv (zs[n := z']) (G[n := (F', snd (G ! n) - {(i, k)})])"
    using zones_inv_update [OF zi n(1) r(2)] r(4) by (simp add: kept_def)
  moreover have "page_free (i * 4096) k zs = Inr (zs[n := z'])"
    using i0 zf r(1) by (simp add: page_free_def drop_shift Let_def)
  ultimately show ?thesis using r by blast
qed

text \<open>Two states of a zone with the same allocated and the same free frames have the same free blocks.\<close>

lemma free_blocks_determined:
  assumes "zone_inv z F A {}" "zone_inv z' F' A' {}" "cover (free_blocks F) = cover (free_blocks F')"
  shows "free_blocks F = free_blocks F'"
proof -
  note a = assms(1,2) [unfolded zone_inv_def blocks_inv_def]
  show ?thesis
    by (rule coalesced_unique [OF _ _ _ _ _ _ assms(3)]) (use a in auto)
qed

section \<open>Concrete zones\<close>

text \<open>Frames 8 to 11: \<open>bare_zone\<close> has no free block, \<open>demo_zone\<close> one of order 2.\<close>

definition blank_page :: page where "blank_page = \<lparr>flags = 0, pu = UCache None\<rparr>"

definition bare_links :: "znode lheap" where
  "bare_links n = (case n of
     OrderHead k \<Rightarrow> if k \<le> MAX_ORDER then Some \<lparr>nxt = Some (OrderHead k), prv = Some (OrderHead k)\<rparr> else None
   | PageLL i \<Rightarrow> if i < 4 then Some \<lparr>nxt = None, prv = None\<rparr> else None)"

definition bare_zone :: zone where
  "bare_zone = \<lparr>zbegin = 8, zend = 12, zlinks = bare_links, zpages = \<lambda>_. blank_page\<rparr>"

definition demo_zone :: zone where
  "demo_zone = \<lparr>zbegin = 8, zend = 12,
     zlinks = bare_links(OrderHead 2 \<mapsto> \<lparr>nxt = Some (PageLL 0), prv = Some (PageLL 0)\<rparr>,
                         PageLL 0 \<mapsto> \<lparr>nxt = Some (OrderHead 2), prv = Some (OrderHead 2)\<rparr>),
     zpages = (\<lambda>_. blank_page)(0 := \<lparr>flags = 0x102, pu = UCache None\<rparr>)\<rparr>"

definition demo_lists :: "nat \<Rightarrow> nat list" where
  "demo_lists k = (if k = 2 then [8] else [])"

lemma blank_not_free [simp]: "\<not> page_is_free blank_page"
  by (simp add: blank_page_def page_is_free_def)

lemma bare_links_rep: "lists_rep bare_links order_heads (zlists 8 (\<lambda>_. []))"
  by (auto simp: lists_rep_def order_heads_def dlist_def nx_def pv_def bare_links_def)

lemma bare_dom: "dom bare_links = order_heads \<union> PageLL ` {..<4}"
  by (auto simp: bare_links_def order_heads_def split: znode.splits if_splits)

lemma bare_inv: "zone_inv bare_zone (\<lambda>_. []) {} {}" "zone_inv bare_zone (\<lambda>_. []) {(8, 2)} {}"
  by (auto simp: zone_inv_def links_inv_def blocks_inv_def flags_inv_def bare_zone_def bare_links_rep bare_dom
      cover_insert aligned_def blk_def coalesced_def MAX_ORDER_def frame_desc_def)

lemma demo_inv: "zone_inv demo_zone demo_lists {} {}"
proof -
  have fb: "free_blocks demo_lists = {(8, 2)}"
    by (auto simp: free_blocks_def demo_lists_def MAX_ORDER_def split: if_splits)
  have zl: "zlists 8 demo_lists = (zlists 8 (\<lambda>_. []))(OrderHead 2 := [PageLL 0])"
    by (auto simp: zlists_def demo_lists_def fun_eq_iff split: znode.splits)
  let ?l = "zlinks demo_zone"
  have d2: "dlist ?l (OrderHead 2) [PageLL 0]"
    by (simp add: dlist_def demo_zone_def nx_def pv_def)
  have dk: "dlist ?l (OrderHead k) []" if "k \<le> MAX_ORDER" "k \<noteq> 2" for k
    using that by (simp add: dlist_def demo_zone_def nx_def pv_def bare_links_def)
  have "dlist ?l a (((zlists 8 (\<lambda>_. []))(OrderHead 2 := [PageLL 0])) a)" if a: "a \<in> order_heads" for a
  proof -
    obtain k where "a = OrderHead k" "k \<le> MAX_ORDER" using a by (auto simp: order_heads_def)
    then show ?thesis using d2 dk [of k] by (cases "k = 2") auto
  qed
  then have rep: "lists_rep ?l order_heads (zlists 8 demo_lists)"
    unfolding zl lists_rep_def by (auto simp: order_heads_def)
  have dm: "dom ?l = order_heads \<union> PageLL ` {..<4}"
    by (auto simp: demo_zone_def bare_dom MAX_ORDER_def order_heads_def)
  have pg: "page_is_free \<lparr>flags = 0x102, pu = UCache None\<rparr>" "page_order \<lparr>flags = 0x102, pu = UCache None\<rparr> = 2"
    by (simp_all add: page_is_free_def page_order_def PAGE_FREE_MASK_def PAGE_FREE_OFFS_def PAGE_ORDER_MASK_def push_bit_eq_mult)
  have "links_inv demo_zone demo_lists"
    using rep dm by (simp add: links_inv_def demo_zone_def)
  moreover have "blocks_inv (zbegin demo_zone) (zend demo_zone) {(8, 2)} {} {}"
    by (auto simp: blocks_inv_def demo_zone_def cover_insert aligned_def blk_def coalesced_def MAX_ORDER_def)
  moreover have "flags_inv demo_zone {(8, 2)} {} {}"
    using pg by (auto simp: flags_inv_def demo_zone_def frame_desc_def cover_insert blk_def)
  ultimately show ?thesis by (simp add: zone_inv_def fb)
qed

lemma demo_zones: "zones_inv [demo_zone] [(demo_lists, {})]"
proof -
  have "0 \<notin> cover (free_blocks demo_lists)"
    by (auto simp: free_blocks_def demo_lists_def cover_def blk_def split: if_splits)
  then show ?thesis using demo_inv by (auto simp: zones_inv_def in_zone_at_def)
qed

section \<open>Properties\<close>

text \<open>
  C1. \<open>__page_alloc_zone\<close>, when a free list of order \<open>k\<close> or above is not empty: it returns a frame of
  the zone aligned to \<open>2 ^ k\<close> whose block was free and overlaps no allocated block; exactly its frames
  leave the free ones; the invariant holds with the block allocated; no descriptor of an allocated
  block changes.
\<close>

theorem page_alloc_zone_fresh:
  assumes "zone_inv z F A {}" and "k \<le> l" "l \<le> MAX_ORDER" "F l \<noteq> []"
  shows "\<exists>i z' F'. page_alloc_in_zone z k = Inr (Some i, z')
    \<and> zone_inv z' F' (insert (zbegin z + i, k) A) {}
    \<and> 2 ^ k dvd zbegin z + i \<and> blk (zbegin z + i) k \<subseteq> {zbegin z..<zend z}
    \<and> blk (zbegin z + i) k \<inter> cover A = {}
    \<and> cover (free_blocks F) = blk (zbegin z + i) k \<union> cover (free_blocks F')
    \<and> blk (zbegin z + i) k \<inter> cover (free_blocks F') = {}
    \<and> (\<forall>j\<in>cover A. frame_desc z' j = frame_desc z j)"
proof -
  obtain i z' F' where r: "page_alloc_in_zone z k = Inr (Some i, z')"
    "zone_inv z' F' (insert (zbegin z + i, k) A) {}"
    "cover (free_blocks F) = blk (zbegin z + i) k \<union> cover (free_blocks F')"
    "kept z z' (cover (free_blocks F))"
    using alloc_spec_some [OF assms] by blast
  have bounds: "zbegin z' = zbegin z" "zend z' = zend z" using r(4) by (simp_all add: kept_def)
  have cv: "cover A \<subseteq> {zbegin z..<zend z}" "cover (free_blocks F) \<inter> cover A = {}"
    using assms(1) by (auto simp: zone_inv_def blocks_inv_def)
  have "aligned (zbegin z + i) k" using in_zone(3) [OF r(2), of "zbegin z + i" k] by simp
  moreover have "blk (zbegin z + i) k \<subseteq> {zbegin z..<zend z}"
    "blk (zbegin z + i) k \<inter> cover (free_blocks F') = {}"
    using r(2) bounds by (auto simp: zone_inv_def blocks_inv_def cover_insert)
  moreover have "blk (zbegin z + i) k \<inter> cover A = {}" using r(3) cv(2) by blast
  moreover have "\<forall>j\<in>cover A. frame_desc z' j = frame_desc z j"
    using kept_outside [OF r(4) cv] .
  ultimately show ?thesis using r(1-3) unfolding aligned_def by blast
qed

theorem page_alloc_zone_fresh_witness:
  "\<exists>i z'. page_alloc_in_zone demo_zone 0 = Inr (Some i, z')"
  using page_alloc_zone_fresh [OF demo_inv, of 0 2] by (auto simp: demo_lists_def MAX_ORDER_def)

text \<open>
  \<open>page_alloc\<close> returns 0 exactly when the order is above \<open>MAX_ORDER\<close> or no zone has a free block of
  the order or above, and then nothing changes; it never stops the kernel, although its search
  reads one element past the array of list heads.
\<close>

theorem page_alloc_fails_iff:
  assumes "zones_inv zs G"
  shows "\<exists>a zs'. page_alloc k zs = Inr (a, zs') \<and> (a = 0 \<longrightarrow> zs' = zs) \<and>
    (a = 0 \<longleftrightarrow> k > MAX_ORDER \<or> (\<forall>n<length zs. \<forall>l. k \<le> l \<longrightarrow> l \<le> MAX_ORDER \<longrightarrow> fst (G ! n) l = []))"
  using page_alloc_cases [OF assms, of k] unfolding zone_serves_def by (elim disjE conjE exE) auto

theorem page_alloc_fails_iff_witness:
  "\<exists>a zs'. page_alloc 3 [demo_zone] = Inr (a, zs') \<and> a = 0"
  using page_alloc_fails_iff [OF demo_zones, of 3] by (auto simp: demo_lists_def)

text \<open>
  C2. \<open>__page_free_zone\<close> on an allocated block never stops the kernel and keeps the invariant: the
  block leaves the allocated ones, exactly its frames become free, free buddies are merged (the
  free blocks stay coalesced), and no descriptor of another allocated block changes.
\<close>

theorem page_free_zone_spec:
  assumes "zone_inv z F A {}" and "(zbegin z + i, k) \<in> A"
  shows "\<exists>z' F'. page_free_in_zone z i k = Inr z' \<and> zone_inv z' F' (A - {(zbegin z + i, k)}) {}
    \<and> cover (free_blocks F') = cover (free_blocks F) \<union> blk (zbegin z + i) k
    \<and> coalesced MAX_ORDER (free_blocks F')
    \<and> (\<forall>j\<in>cover (A - {(zbegin z + i, k)}). frame_desc z' j = frame_desc z j)"
proof -
  obtain z' F' where r: "page_free_in_zone z i k = Inr z'" "zone_inv z' F' (A - {(zbegin z + i, k)}) {}"
    "cover (free_blocks F') = cover (free_blocks F) \<union> blk (zbegin z + i) k" "kept z z' (cover (free_blocks F'))"
    using free_spec [OF assms] by blast
  have "cover (A - {(zbegin z + i, k)}) \<subseteq> {zbegin z..<zend z}"
    "cover (free_blocks F') \<inter> cover (A - {(zbegin z + i, k)}) = {}" "coalesced MAX_ORDER (free_blocks F')"
    using r(2,4) by (auto simp: zone_inv_def blocks_inv_def kept_def)
  moreover note kept_outside [OF r(4) calculation(1,2)]
  ultimately show ?thesis using r by blast
qed

theorem page_free_zone_spec_witness:
  "\<exists>z'. page_free_in_zone bare_zone 0 2 = Inr z'"
  using page_free_zone_spec [OF bare_inv(2), of 0 2] by (auto simp: bare_zone_def)

text \<open>
  C3. \<open>page_alloc\<close> and \<open>page_free\<close> are inverse on the free memory: the address returned is aligned
  to \<open>2 ^ k\<close> pages, \<open>page_free\<close> finds its zone, and afterwards every zone has the free blocks and
  allocated blocks it had before.
\<close>

theorem page_alloc_free_inverse:
  assumes "zones_inv zs G" and "page_alloc k zs = Inr (a, zs1)" "a \<noteq> 0"
  shows "2 ^ (k + 12) dvd a \<and> (\<exists>zs2 G2. page_free a k zs1 = Inr zs2 \<and> zones_inv zs2 G2 \<and>
    (\<forall>n<length zs. free_blocks (fst (G2 ! n)) = free_blocks (fst (G ! n)) \<and> snd (G2 ! n) = snd (G ! n)))"
proof -
  obtain n i z' F' where r: "n < length zs" "a = (zbegin (zs ! n) + i) * 4096" "zs1 = zs[n := z']"
    "zone_inv z' F' (insert (zbegin (zs ! n) + i, k) (snd (G ! n))) {}"
    "cover (free_blocks (fst (G ! n))) = blk (zbegin (zs ! n) + i) k \<union> cover (free_blocks F')"
    "zones_inv zs1 (G[n := (F', insert (zbegin (zs ! n) + i, k) (snd (G ! n)))])"
    "(zbegin (zs ! n) + i, k) \<notin> snd (G ! n)"
    using page_alloc_cases [OF assms(1), of k] assms(2,3) by auto
  let ?i = "zbegin (zs ! n) + i" and ?A = "snd (G ! n)"
  let ?G1 = "G[n := (F', insert (?i, k) ?A)]"
  have len: "length G = length zs" using assms(1) by (simp add: zones_inv_def)
  have n1: "n < length zs1" "(?i, k) \<in> snd (?G1 ! n)" using r(1,3) len by auto
  obtain z2 F2 where f: "page_free (?i * 4096) k zs1 = Inr (zs1[n := z2])"
    "zone_inv z2 F2 (snd (?G1 ! n) - {(?i, k)}) {}"
    "cover (free_blocks F2) = cover (free_blocks (fst (?G1 ! n))) \<union> blk ?i k"
    "zones_inv (zs1[n := z2]) (?G1[n := (F2, snd (?G1 ! n) - {(?i, k)})])"
    using page_free_held [OF r(6) n1] by blast
  have A: "snd (?G1 ! n) - {(?i, k)} = ?A" using r(1,7) len by auto
  have "free_blocks F2 = free_blocks (fst (G ! n))"
    using f(2,3) zones_inv_zone [OF assms(1) r(1)] r(1,5) len
    by (intro free_blocks_determined) (auto simp: A)
  then have "free_blocks (fst (?G1[n := (F2, ?A)] ! m)) = free_blocks (fst (G ! m)) \<and> snd (?G1[n := (F2, ?A)] ! m) = snd (G ! m)"
    for m using r(1) len by (cases "m = n") auto
  moreover have "aligned ?i k" using in_zone(3) [OF r(4), of ?i k] by simp
  then have "2 ^ k * 2 ^ 12 dvd ?i * 2 ^ 12" unfolding aligned_def by (rule mult_dvd_mono) simp
  then have "2 ^ (k + 12) dvd a" using r(2) by (simp add: power_add)
  ultimately show ?thesis using f(1,4) r(2) unfolding A by blast
qed

theorem page_alloc_free_inverse_witness:
  "\<exists>a zs1 zs2. page_alloc 1 [demo_zone] = Inr (a, zs1) \<and> page_free a 1 zs1 = Inr zs2"
proof -
  obtain a zs1 where "page_alloc 1 [demo_zone] = Inr (a, zs1)" "a \<noteq> 0"
    using page_alloc_cases [OF demo_zones, of 1]
    by (auto simp: zone_serves_def demo_lists_def MAX_ORDER_def dest: spec [of _ 2])
  then show ?thesis using page_alloc_free_inverse [OF demo_zones] by blast
qed



text \<open>
  C5. Any sequence of requests of a client that returns only what it holds runs to its end without
  stopping the kernel; the blocks it holds at the end do not overlap each other or the free memory,
  and no frame is lost: free and held frames together are those free at the start.
\<close>

theorem page_client_safe:
  assumes "zones_inv zs G" "\<forall>n<length zs. snd (G ! n) = {}"
  shows "\<exists>hs' zs' G'. run_requests page_request page_return rs [] zs = Inr (hs', zs') \<and>
    zones_inv zs' G' \<and> distinct hs' \<and> set hs' = held_ptrs zs' G' \<and>
    pairwise (\<lambda>h h'. ptr_frames zs' h \<inter> ptr_frames zs' h' = {}) (set hs') \<and>
    free_frames zs' G' \<union> (\<Union>h\<in>set hs'. ptr_frames zs' h) = free_frames zs G"
proof -
  have "held_ptrs zs G = {}" using assms(2) by (auto simp: held_ptrs_def)
  then have "page_ainv (free_frames zs G) zs {}" using assms(1) by (auto simp: page_ainv_def)
  from pages.run_from_empty [OF this] obtain hs' zs' where
    r: "run_requests page_request page_return rs [] zs = Inr (hs', zs')" "distinct hs'"
      "page_ainv (free_frames zs G) zs' (set hs')" by blast
  have "pairwise (\<lambda>h h'. ptr_frames zs' h \<inter> ptr_frames zs' h' = {}) (set hs')"
    using held_disjoint [OF r(3)] by (auto simp: pairwise_def)
  then show ?thesis using r by (auto simp: page_ainv_def)
qed

theorem page_client_safe_witness:
  "\<exists>hs' zs'. run_requests page_request page_return
     [Request 0, Request 1, Request 5, Return 1, Request 0] [] [demo_zone] = Inr (hs', zs')"
  using page_client_safe [OF demo_zones, of "[Request 0, Request 1, Request 5, Return 1, Request 0]"]
  by (simp del: run_requests.simps) blast

text \<open>
  C6. \<open>__page_alloc_zone_free\<close> on a range whose frames are in no block and whose neighbours are not
  free: the loop ends, exactly the whole pages of the range become free (frame 0 excepted), in
  maximal aligned blocks.
\<close>

theorem page_alloc_zone_free_spec:
  assumes zi: "zones_inv zs G"
    and b: "b = (if page_up zb \<noteq> 0 then unat (drop_bit PAGE_SHIFT (page_up zb)) else 1)"
    and e: "e = unat (drop_bit PAGE_SHIFT (page_down ze))"
    and at: "b < e" "in_zone_at zs n b" "e \<le> zend (zs ! n)"
    and gap: "{b - 1..e} \<inter> cover (free_blocks (fst (G ! n))) = {}" "{b..<e} \<inter> cover (snd (G ! n)) = {}"
  shows "\<exists>z' F'. page_alloc_zone_free zb ze zs = Inr (zs[n := z'])
    \<and> zones_inv (zs[n := z']) (G[n := (F', snd (G ! n))])
    \<and> cover (free_blocks F') = cover (free_blocks (fst (G ! n))) \<union> {b..<e}"
proof -
  have n: "n < length zs" "zbegin (zs ! n) \<le> b" using at(2) by (auto simp: in_zone_at_def)
  note zn = zones_inv_zone [OF zi n(1)]
  have b0: "b \<noteq> 0"
  proof (cases "page_up zb = 0")
    case False
    then have "drop_bit 12 (page_up zb) \<noteq> 0" using page_up_whole [of zb] by auto
    then show ?thesis using False b by (simp add: PAGE_SHIFT_def unat_eq_0)
  qed (simp add: b)
  have "b - 1 \<in> {b - 1..e}" using at(1) by simp
  then have "left_apart (fst (G ! n)) b e" using gap(1) by (intro left_apart_gap) blast
  moreover have "{b..<e} \<inter> cover (free_blocks (fst (G ! n)) \<union> snd (G ! n)) = {}"
  proof -
    have "{b..<e} \<subseteq> {b - 1..e}" by auto
    then show ?thesis using gap unfolding cover_Un by blast
  qed
  moreover have "e \<in> {b - 1..e}" using at(1) by simp
  then have "e \<notin> cover (free_blocks (fst (G ! n)))" using gap(1) by blast
  ultimately obtain z' F' where r: "free_range_loop (zs ! n) b e = Inr z'" "zone_inv z' F' (snd (G ! n)) {}"
    "cover (free_blocks F') = cover (free_blocks (fst (G ! n))) \<union> {b..<e}" "kept (zs ! n) z' {b..<e}"
    using free_range_spec [OF zn n(2) _ at(3)] at(1) by auto
  have "0 \<notin> cover (free_blocks (fst (G ! n)) \<union> snd (G ! n))" using zi n(1) by (simp add: zones_inv_def)
  then have "0 \<notin> cover (free_blocks F' \<union> snd (G ! n))" using r(3) b0 by auto
  then have inv: "zones_inv (zs[n := z']) (G[n := (F', snd (G ! n))])"
    using zones_inv_update [OF zi n(1) r(2)] r(4) by (simp add: kept_def)
  have "zone_find b zs = Some n" using zone_find_unique [OF zi at(2)] .
  then have "page_alloc_zone_free zb ze zs = Inr (zs[n := z'])"
    using at r(1) n by (simp add: page_alloc_zone_free_def b [symmetric] e [symmetric] Let_def in_zone_at_def)
  then show ?thesis using inv r(3) by blast
qed

lemma bare_zones: "zones_inv [bare_zone] [(\<lambda>_. [], {})]"
  using bare_inv(1) by (auto simp: zones_inv_def in_zone_at_def)

theorem page_alloc_zone_free_spec_witness:
  "\<exists>zs. page_alloc_zone_free 32768 49152 [bare_zone] = Inr zs"
proof -
  have "8 = (if page_up 32768 \<noteq> 0 then unat (drop_bit PAGE_SHIFT (page_up 32768)) else 1)"
    "12 = unat (drop_bit PAGE_SHIFT (page_down 49152))"
    by (simp_all add: page_up_def page_down_def PAGE_SIZE_def PAGE_SHIFT_def drop_bit_eq_div)
  from page_alloc_zone_free_spec [OF bare_zones this, of 0] show ?thesis
    by (auto simp: in_zone_at_def bare_zone_def)
qed

text \<open>
  C7. \<open>__page_alloc_zone_setup\<close> on memory whose descriptors have no \<open>PAGE_FREE\<close> bit set gives a zone
  with the bounds rounded inwards to pages, no free block and every list empty; when no whole page
  is left it gives no zone.
\<close>

theorem page_alloc_zone_setup_inv:
  assumes b: "b = unat (drop_bit PAGE_SHIFT (page_up zb))" and e: "e = unat (drop_bit PAGE_SHIFT (page_down ze))"
    and raw: "b < e \<longrightarrow> balloc (zone_bytes (e - b)) = Some r \<and> raw_fits (e - b) r \<and> raw_clear (e - b) r"
  shows "if b < e
    then \<exists>z. page_alloc_zone_setup balloc zb ze = Inr (Some z) \<and> zbegin z = b \<and> zend z = e \<and>
         zone_inv z (\<lambda>_. []) {} {}
    else page_alloc_zone_setup balloc zb ze = Inr None"
proof (cases "b < e")
  case False
  then show ?thesis by (simp add: page_alloc_zone_setup_def b [symmetric] e [symmetric] Let_def)
next
  case True
  obtain z where z: "page_alloc_zone_setup balloc zb ze = Inr (Some z)" "zbegin z = b" "zend z = e"
    "zpages z = snd r" "links_inv z (\<lambda>_. [])"
    using page_alloc_zone_setup_spec [OF b e True] raw True by blast
  then have "zone_inv z (\<lambda>_. []) {} {}"
    using raw True by (intro fresh_zone_inv) (auto simp: raw_clear_def)
  then show ?thesis using z True by auto
qed

definition demo_raw :: zone_raw where
  "demo_raw = (bare_links, \<lambda>_. blank_page)"

theorem page_alloc_zone_setup_inv_witness:
  "\<exists>z. page_alloc_zone_setup (\<lambda>_. Some demo_raw) 32767 49153 = Inr (Some z) \<and> zone_inv z (\<lambda>_. []) {} {}"
proof -
  have be: "8 = unat (drop_bit PAGE_SHIFT (page_up 32767))" "12 = unat (drop_bit PAGE_SHIFT (page_down 49153))"
    by (simp_all add: page_up_def page_down_def PAGE_SIZE_def PAGE_SHIFT_def drop_bit_eq_div)
  have "raw_fits 4 demo_raw" "raw_clear 4 demo_raw"
    by (simp_all add: raw_fits_def raw_clear_def demo_raw_def bare_dom)
  then show ?thesis
    using page_alloc_zone_setup_inv [OF be, of "\<lambda>_. Some demo_raw" demo_raw] by auto
qed

definition dirty_raw :: zone_raw where
  "dirty_raw = (bare_links, (\<lambda>_. blank_page)(0 := \<lparr>flags = 0x100, pu = UCache None\<rparr>))"

definition boot_then_use :: "zone_raw \<Rightarrow> zone list res" where
  "boot_then_use r =
     bindE (page_alloc_setup (\<lambda>_ _. Some r) [(32768, 49152)] [(36864, 40960)]) (\<lambda>zs.
     bindE (page_alloc 0 zs) (\<lambda>(a, zs). page_free a 0 zs))"

lemma bare_init: "set ks \<subseteq> {..MAX_ORDER} \<Longrightarrow> init_orders ks bare_links = Inr bare_links"
proof (induction ks)
  case (Cons k ks)
  then have "k \<le> MAX_ORDER" by simp
  then have "list_init (OrderHead k) bare_links = Inr bare_links"
    by (auto simp: list_init_def set_prv_def set_nxt_def bare_links_def fun_eq_iff)
  then show ?case using Cons by simp
qed simp

lemma dirty_setup: "page_alloc_zone_setup (\<lambda>_. Some dirty_raw) 32768 49152 =
    Inr (Some (bare_zone\<lparr>zpages := snd dirty_raw\<rparr>))"
proof -
  have be: "unat (drop_bit PAGE_SHIFT (page_up 32768)) = 8" "unat (drop_bit PAGE_SHIFT (page_down 49152)) = 12"
    by (simp_all add: page_up_def page_down_def PAGE_SIZE_def PAGE_SHIFT_def drop_bit_eq_div)
  have "set [0..<Suc MAX_ORDER] \<subseteq> {..MAX_ORDER}" by (auto simp del: upt_Suc)
  from bare_init [OF this] show ?thesis
    by (simp add: page_alloc_zone_setup_def be dirty_raw_def memset_pages_def bare_zone_def del: upt_Suc)
qed

text \<open>
  One frame of a zone on dirty memory is released at boot, allocated and returned: the states of the
  zone on the way.
\<close>

definition dirty_zone :: zone where
  "dirty_zone = (bare_zone\<lparr>zpages := snd dirty_raw\<rparr>)"

lemma dirty_boot: "page_alloc_setup (\<lambda>_ _. Some dirty_raw) [(32768, 49152)] [(36864, 40960)] = bindE (free_range_loop dirty_zone 9 10) (\<lambda>z. Inr [z])"
  by (simp add: page_alloc_setup_def dirty_setup page_alloc_zone_free_def page_up_def page_down_def PAGE_SIZE_def PAGE_SHIFT_def drop_bit_eq_div flip: dirty_zone_def)
   (simp add: dirty_zone_def bare_zone_def bindE_assoc)

definition used_links :: "znode lheap" where
  "used_links = bare_links(OrderHead 0 \<mapsto> \<lparr>nxt = Some (PageLL 1), prv = Some (PageLL 1)\<rparr>,
                         PageLL 1 \<mapsto> \<lparr>nxt = Some (OrderHead 0), prv = Some (OrderHead 0)\<rparr>)"

definition used_zone :: zone where
  "used_zone = dirty_zone\<lparr>zlinks := used_links, zpages := (snd dirty_raw)(1 := \<lparr>flags = 0x100, pu = UCache None\<rparr>)\<rparr>"

lemma dirty_range: "free_range_loop dirty_zone 9 10 = Inr used_zone"
proof -
  have "fit_order 9 10 0 = 0" by (subst fit_order.simps) (simp add: MAX_ORDER_def)
  moreover have "list_add_tail (PageLL 1) (OrderHead 0) bare_links = Inr used_links"
    by (simp add: list_add_tail_def list_insert_def rd_node_def set_nxt_def set_prv_def bare_links_def used_links_def MAX_ORDER_def) 
     (simp add: fun_upd_def fun_eq_iff)
  moreover have "mark_free (dirty_zone\<lparr>zlinks := used_links\<rparr>) 1 0 = Inr used_zone"
    by (simp add: mark_free_def zone_page_def page_set_order_def PAGE_ORDER_MASK_def PAGE_FREE_MASK_def PAGE_FREE_OFFS_def push_bit_eq_mult dirty_raw_def blank_page_def put_page_desc_def page_set_free_def dirty_zone_def bare_zone_def used_zone_def)
  ultimately show ?thesis
    by (subst free_range_loop.simps) (simp add: free_range_loop.simps [of _ 10 10] dirty_zone_def bare_zone_def MAX_ORDER_def)
qed

definition taken_zone :: zone where
  "taken_zone = dirty_zone\<lparr>zlinks := bare_links, zpages := (snd dirty_raw)(1 := \<lparr>flags = 0, pu = UCache None\<rparr>)\<rparr>"

lemma dirty_alloc: "page_alloc 0 [used_zone] = Inr (36864, [taken_zone])"
proof -
  have "list_del (PageLL 1) used_links = Inr bare_links"
    by (simp add: list_del_def list_del_between_def rd_node_def set_nxt_def set_prv_def used_links_def MAX_ORDER_def)
     (simp add: bare_links_def fun_upd_def fun_eq_iff)
  moreover have e: "list_empty (OrderHead 0) used_links = Inr False" "list_first (OrderHead 0) used_links = Inr (Some (PageLL 1))"
    by (simp_all add: list_empty_def list_first_def rd_node_def used_links_def)
  moreover have "find_order used_zone 0 = Inr 0"
    by (subst find_order.simps) (simp add: e used_zone_def)
  moreover have "page_set_busy \<lparr>flags = 0x100, pu = UCache None\<rparr> = \<lparr>flags = 0, pu = UCache None\<rparr>"
    by (simp add: page_set_busy_def PAGE_FREE_MASK_def PAGE_FREE_OFFS_def push_bit_eq_mult)
  ultimately have "page_alloc_in_zone used_zone 0 = Inr (Some 1, taken_zone)"
    by (simp add: page_alloc_in_zone_def used_zone_def dirty_zone_def bare_zone_def zone_page_def put_page_desc_def taken_zone_def)
  then show ?thesis by (simp add: page_alloc_def push_shift taken_zone_def dirty_zone_def bare_zone_def)
qed

lemma dirty_free: "page_free 36864 0 [taken_zone] = Inl Fault"
proof -
  have "merge_loop taken_zone 9 0 = Inl Fault"
    by (subst merge_loop.simps) (simp add: MAX_ORDER_def taken_zone_def dirty_zone_def bare_zone_def zone_page_def dirty_raw_def page_is_free_def page_order_def
     list_del_def rd_node_def bare_links_def list_del_between_def set_nxt_def
      PAGE_FREE_MASK_def PAGE_FREE_OFFS_def PAGE_ORDER_MASK_def  push_bit_eq_mult)
  then show ?thesis by (simp add: page_free_def drop_bit_eq_div PAGE_SHIFT_def page_free_in_zone_def taken_zone_def dirty_zone_def bare_zone_def)
qed

text \<open>
  The descriptors of a new zone are whatever the memory held, since the size given to \<open>memset\<close> is
  0; with a stale \<open>PAGE_FREE\<close> bit in it, releasing one frame, allocating it and returning it goes
  through a null link.
\<close>

theorem zone_setup_keeps_stale_flags:
  "snd dirty_raw 0 = zpages dirty_zone 0 \<and> page_is_free (zpages dirty_zone 0)
    \<and> page_alloc_zone_setup (\<lambda>_. Some dirty_raw) 32768 49152 = Inr (Some dirty_zone)
    \<and> boot_then_use dirty_raw = Inl Fault"
proof -
  have "page_is_free (zpages dirty_zone 0)"
    by (simp add: dirty_zone_def dirty_raw_def page_is_free_def PAGE_FREE_MASK_def PAGE_FREE_OFFS_def push_bit_eq_mult)
  moreover have "boot_then_use dirty_raw = Inl Fault"
    unfolding boot_then_use_def dirty_boot dirty_range bindE_Inr dirty_alloc by (simp add: dirty_free)
  ultimately show ?thesis using dirty_setup by (simp add: dirty_zone_def)
qed

end
