(* ===== verification/Page_Desc.thy ===== *)
theory Page_Desc
  imports Slab Buddy_Props
begin

text \<open>
  What a client of the page allocator may do with the pages it holds: read and write their
  descriptors, as long as it leaves the bits of the page allocator alone, and convert between
  descriptors and addresses.
\<close>

section \<open>Descriptors of held pages\<close>

lemma inv_user_desc:
  assumes inv: "zone_inv z F A C" and j: "j \<in> cover A"
    and f: "page_is_free p = page_is_free (frame_desc z j)"
  shows "zone_inv (put_page_desc z (j - zbegin z) p) F A C"
proof -
  let ?z = "put_page_desc z (j - zbegin z) p"
  have jz: "zbegin z \<le> j" using inv j by (auto simp: zone_inv_def blocks_inv_def)
  have upd: "frame_desc ?z x = (if x = j then p else frame_desc z x)" if "zbegin z \<le> x" for x
    using that jz by (auto simp: frame_desc_def put_page_desc_def eq_diff_iff)
  have nf: "x \<noteq> j" if "(x, k) \<in> free_blocks F" for x k
    using mem_cover [OF that] j inv by (auto simp: zone_inv_def blocks_inv_def)
  have fl: "page_is_free (frame_desc ?z x) = page_is_free (frame_desc z x)" if "zbegin z \<le> x" for x
    using upd [OF that] f by simp
  have "flags_inv ?z (free_blocks F) A C"
    unfolding flags_inv_def
  proof (intro conjI ballI impI)
    fix x assume x: "x \<in> free_blocks F"
    obtain i k where e: "x = (i, k)" by force
    have "frame_desc ?z i = frame_desc z i"
      using upd [of i] nf [of i k] in_zone(1) [OF inv, of i k] x e by simp
    then show "case x of (i, k) \<Rightarrow> page_is_free (frame_desc ?z i) \<and> page_order (frame_desc ?z i) = k"
      using inv x e by (auto simp: zone_inv_def flags_inv_def)
  next
    fix x assume x: "x \<in> A"
    then show "case x of (i, k) \<Rightarrow> \<not> page_is_free (frame_desc ?z i)"
      using inv fl in_zone(1) [OF inv, of "fst x" "snd x"] by (auto simp: zone_inv_def flags_inv_def)
  next
    fix i assume "i \<in> {zbegin ?z..<zend ?z}" "i \<notin> cover (free_blocks F \<union> A \<union> C)"
    then show "\<not> page_is_free (frame_desc ?z i)"
      using inv fl by (auto simp: zone_inv_def flags_inv_def put_page_desc_def)
  qed
  then show ?thesis using inv by (simp add: zone_inv_def links_inv_def put_page_desc_def)
qed

text \<open>\<open>desc zs p\<close> is the descriptor at a page pointer.\<close>

definition desc :: "zone list \<Rightarrow> page_ptr \<Rightarrow> page" where
  "desc zs p = zpages (zs ! fst p) (snd p)"

definition same_bounds :: "zone list \<Rightarrow> zone list \<Rightarrow> bool" where
  "same_bounds zs zs' \<longleftrightarrow> length zs' = length zs \<and>
     (\<forall>n<length zs. zbegin (zs' ! n) = zbegin (zs ! n) \<and> zend (zs' ! n) = zend (zs ! n))"

lemma same_bounds_refl [simp]: "same_bounds zs zs"
  by (simp add: same_bounds_def)

lemma same_bounds_trans: "same_bounds zs zs' \<Longrightarrow> same_bounds zs' zs'' \<Longrightarrow> same_bounds zs zs''"
  by (simp add: same_bounds_def)

lemma same_bounds_ghost:
  assumes "same_bounds zs zs'"
  shows "held_ptrs zs' G = held_ptrs zs G" "free_frames zs' G = free_frames zs G"
proof -
  have "length zs' = length zs" "n < length zs \<Longrightarrow> zbegin (zs' ! n) = zbegin (zs ! n)" for n
    using assms by (auto simp: same_bounds_def)
  then show "held_ptrs zs' G = held_ptrs zs G" "free_frames zs' G = free_frames zs G"
    unfolding held_ptrs_def free_frames_def by auto
qed

lemma zones_inv_zero: "zones_inv zs G \<Longrightarrow> n < length zs \<Longrightarrow> 0 \<notin> cover (free_blocks (fst (G ! n)) \<union> snd (G ! n))"
  unfolding zones_inv_def by blast

lemma same_bounds_desc: "same_bounds zs (zs[n := put_page_desc (zs ! n) i p])"
proof -
  have "zbegin (zs[n := put_page_desc (zs ! n) i p] ! m) = zbegin (zs ! m) \<and>
      zend (zs[n := put_page_desc (zs ! n) i p] ! m) = zend (zs ! m)" if "m < length zs" for m
    using that by (cases "m = n") (simp_all add: put_page_desc_def)
  then show ?thesis unfolding same_bounds_def by simp
qed

lemma descs_kept_bounds: "descs_kept zs zs' H \<Longrightarrow> same_bounds zs zs'"
  by (simp add: descs_kept_def same_bounds_def)

lemma descs_kept_desc:
  "descs_kept zs zs' H \<Longrightarrow> ((n, i), k) \<in> H \<Longrightarrow> j < 2 ^ k \<Longrightarrow> desc zs' (n, i + j) = desc zs (n, i + j)"
  by (auto simp: descs_kept_def desc_def)

lemma held_ptr_zone:
  assumes "page_ainv T zs H" "((n, i), k) \<in> H" "j < 2 ^ k"
  shows "n < length zs" "zbegin (zs ! n) + i + j < zend (zs ! n)" "k \<le> MAX_ORDER"
    "2 ^ k dvd zbegin (zs ! n) + i" "zbegin (zs ! n) + i \<noteq> 0"
proof -
  obtain G where G: "zones_inv zs G" "H = held_ptrs zs G" using assms(1) by (auto simp: page_ainv_def)
  then have m: "n < length zs" "(zbegin (zs ! n) + i, k) \<in> snd (G ! n)"
    using assms(2) by (auto simp: held_ptrs_def)
  note zi = zones_inv_zone [OF G(1) m(1)]
  from in_zone [OF zi, of "zbegin (zs ! n) + i" k] m assms(3)
  show "n < length zs" "zbegin (zs ! n) + i + j < zend (zs ! n)" "k \<le> MAX_ORDER"
    "2 ^ k dvd zbegin (zs ! n) + i" by (auto simp: aligned_def)
  have "zbegin (zs ! n) + i \<in> cover (snd (G ! n))" using m(2) by (rule mem_cover)
  then show "zbegin (zs ! n) + i \<noteq> 0" using G(1) m(1) unfolding zones_inv_def by (metis UnCI cover_Un)
qed

lemma upd_page_held:
  assumes inv: "page_ainv T zs H" and h: "((n, i), k) \<in> H" "j < 2 ^ k"
    and f: "\<And>p. page_is_free (f p) = page_is_free p"
  shows "\<exists>zs'. upd_page f (n, i + j) zs = Inr zs' \<and> page_ainv T zs' H \<and> same_bounds zs zs'
    \<and> (\<forall>q. desc zs' q = (if q = (n, i + j) then f (desc zs q) else desc zs q))"
proof -
  note hz = held_ptr_zone [OF inv h]
  obtain G where G: "zones_inv zs G" "H = held_ptrs zs G"
    "free_frames zs G \<union> (\<Union>h\<in>H. ptr_frames zs h) = T" using inv by (auto simp: page_ainv_def)
  have m: "(zbegin (zs ! n) + i, k) \<in> snd (G ! n)" using G(2) h(1) by (simp add: held_ptrs_def)
  let ?z = "zs ! n" and ?fr = "zbegin (zs ! n) + i + j"
  let ?z' = "put_page_desc ?z (i + j) (f (zpages ?z (i + j)))"
  have zp: "rd_page (n, i + j) zs = Inr (zpages ?z (i + j))"
    using hz(1,2) by (simp add: rd_page_def zone_page_def fault_on_def)
  have cv: "?fr \<in> cover (snd (G ! n))" using in_cover [OF m] h(2) by (auto simp: blk_def)
  have fd: "frame_desc ?z ?fr = zpages ?z (i + j)" "?fr - zbegin ?z = i + j" by (simp_all add: frame_desc_def)
  have zi: "zone_inv ?z' (fst (G ! n)) (snd (G ! n)) {}"
    using inv_user_desc [OF zones_inv_zone [OF G(1) hz(1)] cv, of "f (zpages ?z (i + j))"] f fd by simp
  have "zones_inv (zs[n := ?z']) (G[n := (fst (G ! n), snd (G ! n))])"
    by (rule zones_inv_update [OF G(1) hz(1) zi zones_inv_zero [OF G(1) hz(1)]])
      (simp_all add: put_page_desc_def)
  then have "zones_inv (zs[n := ?z']) G" by simp
  moreover have sb: "same_bounds zs (zs[n := ?z'])" by (rule same_bounds_desc)
  note same_bounds_ghost [OF sb, of G]
  moreover have "ptr_frames (zs[n := ?z']) h = ptr_frames zs h" for h
    using hz(1) by (intro ptr_frames_update) (simp_all add: put_page_desc_def)
  ultimately have "page_ainv T (zs[n := ?z']) H" unfolding page_ainv_def using G(2,3) by (intro exI [of _ G]) simp
  moreover have "desc (zs[n := ?z']) q = (if q = (n, i + j) then f (desc zs q) else desc zs q)" for q
    using hz(1) by (cases q) (auto simp: desc_def put_page_desc_def nth_list_update)
  ultimately show ?thesis using zp sb by (intro exI [of _ "zs[n := ?z']"]) (simp add: upd_page_def)
qed

lemma upd_pages_held:
  assumes "page_ainv T zs H" and h: "((n, i), k) \<in> H"
    and f: "\<And>p. page_is_free (f p) = page_is_free p"
  shows "j + m \<le> 2 ^ k \<Longrightarrow> \<exists>zs'. upd_pages f (n, i + j) m zs = Inr zs' \<and> page_ainv T zs' H \<and> same_bounds zs zs'
    \<and> (\<forall>q. desc zs' q = (if fst q = n \<and> i + j \<le> snd q \<and> snd q < i + j + m then f (desc zs q) else desc zs q))"
  using assms(1)
proof (induction m arbitrary: j zs)
  case 0
  then show ?case by auto
next
  case (Suc m)
  have "j < 2 ^ k" using Suc.prems(1) by simp
  from upd_page_held [OF Suc.prems(2) h this f] obtain zs1 where 1:
    "upd_page f (n, i + j) zs = Inr zs1" "page_ainv T zs1 H" "same_bounds zs zs1"
    "\<forall>q. desc zs1 q = (if q = (n, i + j) then f (desc zs q) else desc zs q)" by blast
  have "Suc j + m \<le> 2 ^ k" using Suc.prems(1) by simp
  from Suc.IH [OF this 1(2)] obtain zs2 where 2:
    "upd_pages f (n, i + Suc j) m zs1 = Inr zs2" "page_ainv T zs2 H" "same_bounds zs1 zs2"
    "\<forall>q. desc zs2 q = (if fst q = n \<and> i + Suc j \<le> snd q \<and> snd q < i + Suc j + m then f (desc zs1 q) else desc zs1 q)"
    by blast
  have "desc zs2 q = (if fst q = n \<and> i + j \<le> snd q \<and> snd q < i + j + Suc m then f (desc zs q) else desc zs q)" for q
    using 1(4) 2(4) by (cases q) auto
  then show ?case using 1(1) 2(1,2) same_bounds_trans [OF 1(3) 2(3)] by (intro exI [of _ zs2]) simp
qed

section \<open>Addresses of held pages\<close>

text \<open>The physical address of the first byte of a page.\<close>

definition ptr_addr :: "zone list \<Rightarrow> page_ptr \<Rightarrow> nat" where
  "ptr_addr zs p = (zbegin (zs ! fst p) + snd p) * 4096"

lemma ptr_addr_bounds: "same_bounds zs zs' \<Longrightarrow> fst p < length zs \<Longrightarrow> ptr_addr zs' p = ptr_addr zs p"
  by (simp add: ptr_addr_def same_bounds_def)

lemma page_addr_held:
  assumes "page_ainv T zs H" "(p, k) \<in> H"
  shows "page_addr p zs = Inr (ptr_addr zs p)"
proof -
  obtain n i where p: "p = (n, i)" by force
  have "n < length zs" "zbegin (zs ! n) + i < zend (zs ! n)"
    using held_ptr_zone [OF assms(1), of n i k 0] assms(2) p by auto
  then have "i < zend (zs ! n) - zbegin (zs ! n)" "n < length zs" by linarith+
  then have "page_zone p zs = Inr (zs ! n)" using p by (simp add: page_zone_def)
  then show ?thesis using p by (simp add: page_addr_def ptr_addr_def push_shift)
qed

lemma addr_page_held:
  assumes inv: "page_ainv T zs H" and h: "((n, i), k) \<in> H" "j < 2 ^ k"
  shows "addr_page (ptr_addr zs (n, i + j)) zs = Inr (n, i + j)"
proof -
  obtain G where G: "zones_inv zs G" using inv by (auto simp: page_ainv_def)
  note hz = held_ptr_zone [OF inv h]
  have "in_zone_at zs n (zbegin (zs ! n) + i + j)" using hz(1,2) by (simp add: in_zone_at_def)
  then have zf: "zone_find (zbegin (zs ! n) + i + j) zs = Some n" by (rule zone_find_unique [OF G])
  have a: "ptr_addr zs (n, i + j) = (zbegin (zs ! n) + i + j) * 4096" by (simp add: ptr_addr_def algebra_simps)
  have z: "ptr_addr zs (n, i + j) AND (2 ^ PAGE_SHIFT - 1) = 0"
    unfolding and_mask_dvd a by (simp add: PAGE_SHIFT_def)
  have d: "drop_bit PAGE_SHIFT (ptr_addr zs (n, i + j)) = zbegin (zs ! n) + i + j"
    unfolding a by (rule drop_shift)
  show ?thesis unfolding addr_page_def Let_def z d zf by simp
qed

lemma rd_page_held:
  assumes "page_ainv T zs H" "((n, i), k) \<in> H" "j < 2 ^ k"
  shows "rd_page (n, i + j) zs = Inr (desc zs (n, i + j))"
  using held_ptr_zone(1,2) [OF assms] by (simp add: rd_page_def zone_page_def fault_on_def desc_def)

text \<open>Bytes of different held blocks are different.\<close>

definition ptr_bytes :: "zone list \<Rightarrow> page_ptr \<times> nat \<Rightarrow> nat set" where
  "ptr_bytes zs h = {ptr_addr zs (fst h)..<ptr_addr zs (fst h) + 2 ^ (snd h + 12)}"

lemma ptr_bytes_frames:
  assumes "x \<in> ptr_bytes zs ((n, i), k)"
  shows "x div 4096 \<in> ptr_frames zs ((n, i), k)"
proof -
  let ?f = "zbegin (zs ! n) + i"
  have x: "?f * 4096 \<le> x" "x < (?f + 2 ^ k) * 4096"
    using assms by (auto simp: ptr_bytes_def ptr_addr_def power_add algebra_simps)
  then have "?f \<le> x div 4096" by (simp add: less_eq_div_iff_mult_less_eq)
  moreover have "x div 4096 < ?f + 2 ^ k" using x(2) by (simp add: div_less_iff_less_mult)
  ultimately show ?thesis by (simp add: ptr_frames_def blk_def)
qed

lemma held_bytes_disjoint:
  assumes "page_ainv T zs H" "h \<in> H" "h' \<in> H" "h \<noteq> h'"
  shows "ptr_bytes zs h \<inter> ptr_bytes zs h' = {}"
proof -
  obtain n i k m j l where "h = ((n, i), k)" "h' = ((m, j), l)" by (metis prod.collapse)
  then show ?thesis using held_disjoint [OF assms] ptr_bytes_frames by blast
qed

end
