(* ===== verification/Slab_Inv.thy ===== *)
theory Slab_Inv
  imports Slab_Pool Page_Desc
begin

unbundle bit_operations_syntax

text \<open>
  The invariant of the slab caches: which pools are on which list, that a pool's structure agrees with
  the pages it occupies, and how an operation on one pool changes the set of live objects.
\<close>

section \<open>The invariant\<close>

definition cache_heads :: "nat set \<Rightarrow> snode set" where
  "cache_heads CS = FreePools ` CS \<union> PartialPools ` CS \<union> BusyPools ` CS"

fun cache_of :: "snode \<Rightarrow> nat" where
  "cache_of (FreePools c) = c"
| "cache_of (PartialPools c) = c"
| "cache_of (BusyPools c) = c"
| "cache_of LocalHead = 0"
| "cache_of (PoolLL a) = 0"

text \<open>The list a pool belongs on is a function of its counter.\<close>

fun fits :: "snode \<Rightarrow> mem_cache \<Rightarrow> mem_pool \<Rightarrow> bool" where
  "fits (FreePools _) c pl \<longleftrightarrow> pl_free pl = obj_count c"
| "fits (PartialPools _) c pl \<longleftrightarrow> 0 < pl_free pl \<and> pl_free pl < obj_count c"
| "fits (BusyPools _) c pl \<longleftrightarrow> pl_free pl = 0"
| "fits LocalHead c pl \<longleftrightarrow> pl_free pl = obj_count c"
| "fits (PoolLL _) c pl \<longleftrightarrow> False"

definition pool_ok :: "heap \<Rightarrow> nat \<Rightarrow> nat \<Rightarrow> mem_pool \<Rightarrow> bool" where
  "pool_ok h c a pl \<longleftrightarrow> hpools h a = Some pl \<and> pool_wf (hcaches h c) pl \<and>
     pl_data pl = va (ptr_addr (hzones h) (pl_page pl)) \<and> a = pl_data pl + meta_offs (hcaches h c) \<and>
     (\<forall>j<2 ^ pool_order (hcaches h c).
        let d = desc (hzones h) (fst (pl_page pl), snd (pl_page pl) + j)
        in page_test_bit d PAGE_CACHE_BIT \<and> pu d = UCache (Some c))"

lemma pool_okD:
  assumes "pool_ok h c a pl"
  shows "hpools h a = Some pl" "pool_wf (hcaches h c) pl" "pl_data pl = va (ptr_addr (hzones h) (pl_page pl))"
    "a = pl_data pl + meta_offs (hcaches h c)"
    "j < 2 ^ pool_order (hcaches h c) \<Longrightarrow>
       page_test_bit (desc (hzones h) (fst (pl_page pl), snd (pl_page pl) + j)) PAGE_CACHE_BIT \<and>
       pu (desc (hzones h) (fst (pl_page pl), snd (pl_page pl) + j)) = UCache (Some c)"
  using assms by (auto simp only: pool_ok_def Let_def)

lemma pool_okI:
  "hpools h a = Some pl \<Longrightarrow> pool_wf (hcaches h c) pl \<Longrightarrow> pl_data pl = va (ptr_addr (hzones h) (pl_page pl)) \<Longrightarrow>
   a = pl_data pl + meta_offs (hcaches h c) \<Longrightarrow>
   (\<And>j. j < 2 ^ pool_order (hcaches h c) \<Longrightarrow>
       page_test_bit (desc (hzones h) (fst (pl_page pl), snd (pl_page pl) + j)) PAGE_CACHE_BIT \<and>
       pu (desc (hzones h) (fst (pl_page pl), snd (pl_page pl) + j)) = UCache (Some c)) \<Longrightarrow> pool_ok h c a pl"
  unfolding pool_ok_def Let_def by blast

lemma pool_ok_cong:
  "hzones h' = hzones h \<Longrightarrow> hcaches h' = hcaches h \<Longrightarrow> hpools h' a = hpools h a \<Longrightarrow> pool_ok h' c a pl = pool_ok h c a pl"
  by (simp only: pool_ok_def)

text \<open>The pools on the lists, with their caches.\<close>

definition pools_in :: "nat set \<Rightarrow> (snode \<Rightarrow> snode list) \<Rightarrow> (nat \<times> nat) set" where
  "pools_in CS F = {(cache_of b, a) | b a. b \<in> cache_heads CS \<and> PoolLL a \<in> set (F b)}"

definition pool_at :: "heap \<Rightarrow> nat \<Rightarrow> mem_pool" where
  "pool_at h a = the (hpools h a)"

definition pool_block :: "heap \<Rightarrow> nat \<times> nat \<Rightarrow> page_ptr \<times> nat" where
  "pool_block h ca = (pl_page (pool_at h (snd ca)), pool_order (hcaches h (fst ca)))"

definition pool_live :: "heap \<Rightarrow> nat \<times> nat \<Rightarrow> (nat \<times> nat) set" where
  "pool_live h ca = (\<lambda>p. (fst ca, pl_data (pool_at h (snd ca)) + p * obj_size (hcaches h (fst ca)))) `
     slots (hcaches h (fst ca)) (pool_at h (snd ca))"

definition live :: "nat set \<Rightarrow> (snode \<Rightarrow> snode list) \<Rightarrow> heap \<Rightarrow> (nat \<times> nat) set" where
  "live CS F h = (\<Union>ca\<in>pools_in CS F. pool_live h ca)"

definition pools_ok :: "nat set \<Rightarrow> (snode \<Rightarrow> snode list) \<Rightarrow> heap \<Rightarrow> bool" where
  "pools_ok CS F h \<longleftrightarrow> (\<forall>b\<in>cache_heads CS. \<forall>x\<in>set (F b). \<exists>a pl. x = PoolLL a \<and>
     pool_ok h (cache_of b) a pl \<and> fits b (hcaches h (cache_of b)) pl)"

definition zones_low :: "zone list \<Rightarrow> bool" where
  "zones_low zs \<longleftrightarrow> (\<forall>z\<in>set zs. zend z \<le> 2 ^ 35)"

text \<open>\<open>B\<close> are the blocks of pages held outside the slab caches.\<close>

definition heap_inv :: "nat set \<Rightarrow> nat set \<Rightarrow> (snode \<Rightarrow> snode list) \<Rightarrow> (page_ptr \<times> nat) set \<Rightarrow> heap \<Rightarrow> bool" where
  "heap_inv CS T F B h \<longleftrightarrow>
     page_ainv T (hzones h) (B \<union> pool_block h ` pools_in CS F) \<and> B \<inter> pool_block h ` pools_in CS F = {} \<and>
     zones_low (hzones h) \<and> lists_rep (hlinks h) (cache_heads CS) F \<and>
     (\<forall>c\<in>CS. cache_wf (hcaches h c)) \<and> pools_ok CS F h"

lemma cache_of_head: "b \<in> cache_heads CS \<Longrightarrow> cache_of b \<in> CS"
  by (auto simp: cache_heads_def)

lemma heads_in [simp]:
  "FreePools c \<in> cache_heads CS \<longleftrightarrow> c \<in> CS" "PartialPools c \<in> cache_heads CS \<longleftrightarrow> c \<in> CS"
  "BusyPools c \<in> cache_heads CS \<longleftrightarrow> c \<in> CS" "PoolLL a \<notin> cache_heads CS" "LocalHead \<notin> cache_heads CS"
  by (auto simp: cache_heads_def)

lemma pools_in_D:
  assumes "heap_inv CS T F B h" "(c, a) \<in> pools_in CS F"
  shows "\<exists>b. b \<in> cache_heads CS \<and> cache_of b = c \<and> PoolLL a \<in> set (F b) \<and>
    pool_ok h c a (pool_at h a) \<and> fits b (hcaches h c) (pool_at h a)"
proof -
  obtain b where b: "b \<in> cache_heads CS" "cache_of b = c" "PoolLL a \<in> set (F b)"
    using assms(2) by (auto simp: pools_in_def)
  then obtain pl where "pool_ok h c a pl" "fits b (hcaches h c) pl"
    using assms(1) unfolding heap_inv_def pools_ok_def by blast
  moreover from this have "pool_at h a = pl" using pool_okD(1) by (fastforce simp: pool_at_def)
  ultimately show ?thesis using b by blast
qed

text \<open>Two pools of the lists never share a page.\<close>

lemma pool_block_inj:
  assumes inv: "heap_inv CS T F B h" and ca: "(c, a) \<in> pools_in CS F" "(d, e) \<in> pools_in CS F"
    and same: "pl_page (pool_at h a) = pl_page (pool_at h e)"
  shows "c = d \<and> a = e"
proof -
  have a: "pool_ok h c a (pool_at h a)" and e: "pool_ok h d e (pool_at h e)"
    using pools_in_D [OF inv ca(1)] pools_in_D [OF inv ca(2)] by auto
  have "pu (desc (hzones h) (pl_page (pool_at h a))) = UCache (Some c)"
    using pool_okD(5) [OF a, of 0] by simp
  moreover have "pu (desc (hzones h) (pl_page (pool_at h e))) = UCache (Some d)"
    using pool_okD(5) [OF e, of 0] by simp
  ultimately have "c = d" using same by simp
  then show ?thesis
    using pool_okD(3,4) [OF a] pool_okD(3,4) [OF e] same by simp
qed

lemma pool_block_held:
  "heap_inv CS T F B h \<Longrightarrow> ca \<in> pools_in CS F \<Longrightarrow> pool_block h ca \<in> B \<union> pool_block h ` pools_in CS F"
  by simp

text \<open>The addresses of the objects of a pool lie in its pages.\<close>

lemma pool_live_bytes:
  assumes inv: "heap_inv CS T F B h" and ca: "ca \<in> pools_in CS F" and x: "(d, x) \<in> pool_live h ca"
  shows "HIGHER_BASE \<le> x" "x - HIGHER_BASE \<in> ptr_bytes (hzones h) (pool_block h ca)" "d = fst ca"
    "pl_data (pool_at h (snd ca)) \<le> x" "x < pl_data (pool_at h (snd ca)) + 2 ^ (pool_order (hcaches h (fst ca)) + 12)"
proof -
  let ?c = "hcaches h (fst ca)" and ?pl = "pool_at h (snd ca)"
  have ok: "pool_ok h (fst ca) (snd ca) ?pl" using pools_in_D [OF inv, of "fst ca" "snd ca"] ca by auto
  have wf: "cache_wf ?c" using inv ca pools_in_D [OF inv, of "fst ca" "snd ca"] cache_of_head
    by (fastforce simp: heap_inv_def)
  obtain p where p: "p < obj_count ?c" "x = pl_data ?pl + p * obj_size ?c" "d = fst ca"
    using x slots_lt by (auto simp: pool_live_def)
  have "Suc p * obj_size ?c \<le> obj_count ?c * obj_size ?c" using p(1) by (intro mult_right_mono) auto
  then have "p * obj_size ?c < 2 ^ (pool_order ?c + 12)"
    using wf by (simp add: cache_wf_def PAGE_SHIFT_def)
  then show "pl_data ?pl \<le> x" "x < pl_data ?pl + 2 ^ (pool_order ?c + 12)" using p(2) by auto
  then show "HIGHER_BASE \<le> x" "x - HIGHER_BASE \<in> ptr_bytes (hzones h) (pool_block h ca)"
    using pool_okD(3) [OF ok] by (auto simp: va_def ptr_bytes_def pool_block_def)
  show "d = fst ca" using p(3) .
qed

lemma pool_live_disjoint:
  assumes inv: "heap_inv CS T F B h" and ca: "ca \<in> pools_in CS F" "da \<in> pools_in CS F" "ca \<noteq> da"
    and x: "(d, x) \<in> pool_live h ca" "(e, y) \<in> pool_live h da"
  shows "x \<noteq> y"
proof
  assume eq: "x = y"
  have "pool_block h ca \<noteq> pool_block h da"
    using pool_block_inj [OF inv, of "fst ca" "snd ca" "fst da" "snd da"] ca by (auto simp: pool_block_def prod_eq_iff)
  moreover have "page_ainv T (hzones h) (B \<union> pool_block h ` pools_in CS F)" using inv by (simp add: heap_inv_def)
  ultimately have "ptr_bytes (hzones h) (pool_block h ca) \<inter> ptr_bytes (hzones h) (pool_block h da) = {}"
    using held_bytes_disjoint pool_block_held [OF inv] ca by blast
  then show False using pool_live_bytes(2) [OF inv ca(1) x(1)] pool_live_bytes(2) [OF inv ca(2) x(2)] eq by blast
qed

section \<open>Changing one pool\<close>

text \<open>
  A pool changes its bitmap and counter and moves to the list it now fits; \<open>F'\<close> differs from \<open>F\<close> only
  in the place of this pool.
\<close>

lemma repool:
  assumes inv: "heap_inv CS T F B h" and b: "b \<in> cache_heads CS" "PoolLL a \<in> set (F b)" "cache_of b = c"
    and pl: "pool_at h a = pl" "pool_wf (hcaches h c) pl'" "pl_page pl' = pl_page pl" "pl_data pl' = pl_data pl"
    and l: "lists_rep l (cache_heads CS) F'"
    and mem: "\<forall>b'\<in>cache_heads CS. \<forall>x. x \<in> set (F' b') \<longleftrightarrow> (x \<in> set (F b') \<and> x \<noteq> PoolLL a) \<or> (x = PoolLL a \<and> b' = b1)"
    and b1: "b1 \<in> cache_heads CS" "cache_of b1 = c" "fits b1 (hcaches h c) pl'"
  defines "h' \<equiv> (wr_pool a pl' h)\<lparr>hlinks := l\<rparr>"
  shows "heap_inv CS T F' B h'" and "pools_in CS F' = pools_in CS F"
    and "live CS F' h' = (\<Union>ca\<in>pools_in CS F - {(c, a)}. pool_live h ca) \<union> pool_live h' (c, a)"
proof -
  have pin: "(c, a) \<in> pools_in CS F" using b by (auto simp: pools_in_def)
  have only: "b' = b" if "b' \<in> cache_heads CS" "PoolLL a \<in> set (F b')" for b'
    using kl.owner_unique [of "hlinks h" "cache_heads CS" F b' b "PoolLL a"] inv b that by (simp add: heap_inv_def)
  show pe: "pools_in CS F' = pools_in CS F"
  proof (intro set_eqI iffI)
    fix ca assume "ca \<in> pools_in CS F'"
    then obtain b' e where "ca = (cache_of b', e)" "b' \<in> cache_heads CS" "PoolLL e \<in> set (F' b')"
      by (auto simp: pools_in_def)
    then show "ca \<in> pools_in CS F" using mem pin b1(2) by (auto simp: pools_in_def)
  next
    fix ca assume "ca \<in> pools_in CS F"
    then obtain b' e where e: "ca = (cache_of b', e)" "b' \<in> cache_heads CS" "PoolLL e \<in> set (F b')"
      by (auto simp: pools_in_def)
    show "ca \<in> pools_in CS F'"
    proof (cases "e = a")
      case True
      then have "ca = (cache_of b1, a)" using e only b(3) b1(2) by auto
      then show ?thesis using b1(1) mem by (auto simp: pools_in_def)
    next
      case False
      then show ?thesis using e mem by (auto simp: pools_in_def)
    qed
  qed
  have ok: "pool_ok h c a pl" using pools_in_D [OF inv pin] pl(1) by auto
  have at: "pool_at h' e = (if e = a then pl' else pool_at h e)" for e
    by (simp add: h'_def wr_pool_def pool_at_def)
  have same: "hzones h' = hzones h" "hcaches h' = hcaches h" by (simp_all add: h'_def wr_pool_def)
  have blk: "pool_block h' ca = pool_block h ca" for ca
    using pl by (simp add: pool_block_def at same)
  have "pools_ok CS F' h'"
    unfolding pools_ok_def
  proof (intro ballI)
    fix b' x assume b': "b' \<in> cache_heads CS" "x \<in> set (F' b')"
    show "\<exists>a pl. x = PoolLL a \<and> pool_ok h' (cache_of b') a pl \<and> fits b' (hcaches h' (cache_of b')) pl"
    proof (cases "x = PoolLL a")
      case True
      then have "b' = b1" using mem b' by blast
      moreover have "pool_ok h' c a pl'"
      proof (rule pool_okI)
        show "hpools h' a = Some pl'" by (simp add: h'_def wr_pool_def)
      qed (use pool_okD(2-5) [OF ok] pl(2) in \<open>simp_all only: same pl(3,4)\<close>)
      ultimately show ?thesis using True b1 same by auto
    next
      case False
      then have "x \<in> set (F b')" using mem b' by blast
      then obtain e q where e: "x = PoolLL e" "pool_ok h (cache_of b') e q" "fits b' (hcaches h (cache_of b')) q"
        using inv b'(1) unfolding heap_inv_def pools_ok_def by blast
      then have "pool_ok h' (cache_of b') e q"
        using False pool_ok_cong [OF same, of e] by (simp add: h'_def wr_pool_def)
      then show ?thesis using e same by auto
    qed
  qed
  moreover have "pool_block h' ` pools_in CS F' = pool_block h ` pools_in CS F" using blk pe by simp
  moreover have "hlinks h' = l" by (simp add: h'_def)
  ultimately show "heap_inv CS T F' B h'" using inv l same by (simp add: heap_inv_def)
  have "pool_live h' ca = pool_live h ca" if m: "ca \<in> pools_in CS F - {(c, a)}" for ca
  proof -
    have "snd ca \<noteq> a"
    proof
      assume s: "snd ca = a"
      obtain b' where "b' \<in> cache_heads CS" "cache_of b' = fst ca" "PoolLL (snd ca) \<in> set (F b')"
        using m unfolding pools_in_def by fastforce
      then have "fst ca = c" using only s b(3) by auto
      then show False using m s by (cases ca) auto
    qed
    then show ?thesis by (simp add: pool_live_def at same)
  qed
  then have "(\<Union>ca\<in>pools_in CS F - {(c, a)}. pool_live h' ca) = (\<Union>ca\<in>pools_in CS F - {(c, a)}. pool_live h ca)"
    by (intro SUP_cong) auto
  moreover have "live CS F' h' = (\<Union>ca\<in>pools_in CS F - {(c, a)}. pool_live h' ca) \<union> pool_live h' (c, a)"
    unfolding live_def pe using pin by blast
  ultimately show "live CS F' h' = (\<Union>ca\<in>pools_in CS F - {(c, a)}. pool_live h ca) \<union> pool_live h' (c, a)" by simp
qed

end
