(* ===== verification/Slab_Ops.thy ===== *)
theory Slab_Ops
  imports Slab_Inv
begin

unbundle bit_operations_syntax

text \<open>
  The operations of a slab cache keep the invariant, and change the set of live objects by exactly
  the object they hand out or take back.
\<close>

section \<open>Putting a changed pool where it belongs\<close>

lemma place:
  assumes inv: "heap_inv CS T F B h" and b: "b \<in> cache_heads CS" "PoolLL a \<in> set (F b)" "cache_of b = c"
    and pl: "pool_at h a = pl" "pool_wf (hcaches h c) pl'" "pl_page pl' = pl_page pl" "pl_data pl' = pl_data pl"
    and b1: "b1 \<in> cache_heads CS" "cache_of b1 = c" "fits b1 (hcaches h c) pl'"
  shows "\<exists>h' F'. (if b1 = b then Inr (wr_pool a pl' h) else move_pool a b1 (wr_pool a pl' h)) = Inr h'
    \<and> heap_inv CS T F' B h' \<and> pools_in CS F' = pools_in CS F \<and> hzones h' = hzones h
    \<and> live CS F' h' = (\<Union>ca\<in>pools_in CS F - {(c, a)}. pool_live h ca) \<union> pool_live h' (c, a)
    \<and> pool_at h' a = pl' \<and> hcaches h' = hcaches h \<and> hbytes h' = hbytes h"
proof -
  have rep: "lists_rep (hlinks h) (cache_heads CS) F" using inv by (simp add: heap_inv_def)
  have at: "pool_at ((wr_pool a pl' h)\<lparr>hlinks := l\<rparr>) a = pl'" for l by (simp add: pool_at_def wr_pool_def)
  show ?thesis
  proof (cases "b1 = b")
    case True
    have "x \<in> set (F b') \<longleftrightarrow> (x \<in> set (F b') \<and> x \<noteq> PoolLL a) \<or> (x = PoolLL a \<and> b' = b1)"
      if "b' \<in> cache_heads CS" for b' x
      using kl.owner_unique [OF rep that b(1), of "PoolLL a"] True b(2) by auto
    then have "\<forall>b'\<in>cache_heads CS. \<forall>x. x \<in> set (F b') \<longleftrightarrow> (x \<in> set (F b') \<and> x \<noteq> PoolLL a) \<or> (x = PoolLL a \<and> b' = b1)"
      by blast
    note r = repool [OF inv b pl rep this b1]
    moreover have "(wr_pool a pl' h)\<lparr>hlinks := hlinks h\<rparr> = wr_pool a pl' h" by (simp add: wr_pool_def)
    ultimately show ?thesis using True at [of "hlinks h"]
      by (intro exI [of _ "wr_pool a pl' h"] exI [of _ F]) (simp add: wr_pool_def)
  next
    case False
    let ?F = "F(b := remove1 (PoolLL a) (F b), b1 := PoolLL a # F b1)"
    obtain l1 l2 where l: "list_del (PoolLL a) (hlinks h) = Inr l1" "list_add (PoolLL a) b1 l1 = Inr l2"
      "lists_rep l2 (cache_heads CS) ?F"
      using kl.move_front [OF rep b(1) b1(1) _ b(2)] False by auto
    have "x \<in> set (?F b') \<longleftrightarrow> (x \<in> set (F b') \<and> x \<noteq> PoolLL a) \<or> (x = PoolLL a \<and> b' = b1)"
      if "b' \<in> cache_heads CS" for b' x
    proof -
      have out: "PoolLL a \<notin> set (F b')" if "b' \<noteq> b"
        using kl.owner_unique [OF rep \<open>b' \<in> cache_heads CS\<close> b(1) _ b(2)] that by blast
      consider "b' = b1" | "b' = b" | "b' \<noteq> b1" "b' \<noteq> b" by blast
      then show ?thesis
      proof cases
        case 1
        then show ?thesis using out False by auto
      next
        case 2
        then show ?thesis using lists_rep_distinct [OF rep b(1)] False by (simp add: set_remove1_eq)
      next
        case 3
        then show ?thesis using out by auto
      qed
    qed
    then have "\<forall>b'\<in>cache_heads CS. \<forall>x. x \<in> set (?F b') \<longleftrightarrow> (x \<in> set (F b') \<and> x \<noteq> PoolLL a) \<or> (x = PoolLL a \<and> b' = b1)"
      by blast
    note r = repool [OF inv b pl l(3) this b1]
    have "move_pool a b1 (wr_pool a pl' h) = Inr ((wr_pool a pl' h)\<lparr>hlinks := l2\<rparr>)"
      using l(1,2) by (simp add: move_pool_def with_links_def wr_pool_def)
    then have run: "(if b1 = b then Inr (wr_pool a pl' h) else move_pool a b1 (wr_pool a pl' h))
        = Inr ((wr_pool a pl' h)\<lparr>hlinks := l2\<rparr>)" using False by simp
    show ?thesis
      by (rule exI [of _ "(wr_pool a pl' h)\<lparr>hlinks := l2\<rparr>"], rule exI [of _ ?F], intro conjI run r at)
        (simp_all add: wr_pool_def)
  qed
qed

section \<open>A slot of a listed pool\<close>

lemma cache_wf_in: "heap_inv CS T F B h \<Longrightarrow> c \<in> CS \<Longrightarrow> cache_wf (hcaches h c)"
  by (simp add: heap_inv_def)

lemma pool_live_eq:
  "pool_live h (c, a) = (\<lambda>p. (c, pl_data (pool_at h a) + p * obj_size (hcaches h c))) ` slots (hcaches h c) (pool_at h a)"
  by (simp add: pool_live_def)

lemma slot_inj: "0 < k \<Longrightarrow> inj (\<lambda>p. (c, d + p * k :: nat))"
  by (auto simp: inj_on_def)

text \<open>Taking one slot of a pool that is on list \<open>b\<close> and storing it on list \<open>b1\<close>.\<close>

lemma take_slot:
  assumes inv: "heap_inv CS T F B h" and b: "b \<in> cache_heads CS" "PoolLL a \<in> set (F b)" "cache_of b = c"
    and fr: "0 < pl_free (pool_at h a)"
    and b1: "b1 \<in> cache_heads CS" "cache_of b1 = c"
  shows "\<exists>x pl'. mem_pool_alloc (hcaches h c) (pool_at h a) = Inr (x, pl')
    \<and> pl_free pl' = pl_free (pool_at h a) - 1
    \<and> (fits b1 (hcaches h c) pl' \<longrightarrow>
        (\<exists>h' F'. (if b1 = b then Inr (wr_pool a pl' h) else move_pool a b1 (wr_pool a pl' h)) = Inr h'
          \<and> heap_inv CS T F' B h' \<and> (c, x) \<notin> live CS F h \<and> live CS F' h' = insert (c, x) (live CS F h)
          \<and> hcaches h' = hcaches h \<and> hbytes h' = hbytes h \<and> hzones h' = hzones h))"
proof -
  let ?c = "hcaches h c" and ?pl = "pool_at h a"
  have pin: "(c, a) \<in> pools_in CS F" using b by (auto simp: pools_in_def)
  have ok: "pool_ok h c a ?pl" using pools_in_D [OF inv pin] by blast
  have cw: "cache_wf ?c" using cache_wf_in [OF inv] cache_of_head [OF b(1)] b(3) by simp
  then have oz: "0 < obj_size ?c" by (simp add: cache_wf_def)
  obtain p pl' where al: "mem_pool_alloc ?c ?pl = Inr (pl_data ?pl + p * obj_size ?c, pl')"
    "p < obj_count ?c" "p \<notin> slots ?c ?pl" "slots ?c pl' = insert p (slots ?c ?pl)" "pool_wf ?c pl'"
    "pl_free pl' = pl_free ?pl - 1" "pl_page pl' = pl_page ?pl" "pl_data pl' = pl_data ?pl"
    using mem_pool_alloc_spec [OF cw pool_okD(2) [OF ok] fr] by blast
  let ?x = "pl_data ?pl + p * obj_size ?c"
  have "\<exists>h' F'. (if b1 = b then Inr (wr_pool a pl' h) else move_pool a b1 (wr_pool a pl' h)) = Inr h'
      \<and> heap_inv CS T F' B h' \<and> (c, ?x) \<notin> live CS F h \<and> live CS F' h' = insert (c, ?x) (live CS F h)
      \<and> hcaches h' = hcaches h \<and> hbytes h' = hbytes h \<and> hzones h' = hzones h" if ft: "fits b1 ?c pl'"
  proof -
    obtain h' F' where r: "(if b1 = b then Inr (wr_pool a pl' h) else move_pool a b1 (wr_pool a pl' h)) = Inr h'"
      "heap_inv CS T F' B h'" "pools_in CS F' = pools_in CS F" "hcaches h' = hcaches h"
      "hbytes h' = hbytes h" "hzones h' = hzones h"
      "live CS F' h' = (\<Union>ca\<in>pools_in CS F - {(c, a)}. pool_live h ca) \<union> pool_live h' (c, a)"
      "pool_at h' a = pl'"
      using place [OF inv b refl al(5,7,8) b1 ft] by blast
    have new: "pool_live h' (c, a) = insert (c, ?x) (pool_live h (c, a))"
      using r(4,8) al(4,8) by (simp add: pool_live_eq)
    have old: "live CS F h = (\<Union>ca\<in>pools_in CS F - {(c, a)}. pool_live h ca) \<union> pool_live h (c, a)"
      unfolding live_def using pin by blast
    have "(c, ?x) \<notin> pool_live h (c, a)"
      unfolding pool_live_eq inj_image_mem_iff [OF slot_inj [OF oz]] by (rule al(3))
    moreover have "(c, ?x) \<notin> pool_live h ca" if ca: "ca \<in> pools_in CS F - {(c, a)}" for ca
    proof
      assume mem: "(c, ?x) \<in> pool_live h ca"
      have "(c, ?x) \<in> pool_live h' (c, a)" using new by simp
      moreover have "snd ca \<noteq> a"
      proof
        assume s: "snd ca = a"
        then have "pl_page (pool_at h (snd ca)) = pl_page (pool_at h a)" by simp
        then show False using pool_block_inj [OF inv, of "fst ca" "snd ca" c a] ca pin s by (cases ca) auto
      qed
      then have "pool_at h' (snd ca) = pool_at h (snd ca)"
        using r(1) by (auto simp: pool_at_def wr_pool_def move_pool_def with_links_def res_simps split: if_splits)
      then have "(c, ?x) \<in> pool_live h' ca" using mem r(4) by (simp add: pool_live_def)
      ultimately show False
        using pool_live_disjoint [OF r(2), of "(c, a)" ca c ?x c ?x] ca pin r(3) by auto
    qed
    ultimately have "(c, ?x) \<notin> live CS F h" unfolding old by blast
    moreover have "live CS F' h' = insert (c, ?x) (live CS F h)" unfolding r(7) old new by blast
    ultimately show ?thesis using r(1,2,4,5,6) by blast
  qed
  then show ?thesis using al(1,6) by blast
qed

text \<open>Giving back a slot of a pool that is on list \<open>b\<close> and storing the pool on list \<open>b1\<close>.\<close>

lemma give_slot:
  assumes inv: "heap_inv CS T F B h" and b: "b \<in> cache_heads CS" "PoolLL a \<in> set (F b)" "cache_of b = c"
    and x: "(c, x) \<in> pool_live h (c, a)"
    and b1: "b1 \<in> cache_heads CS" "cache_of b1 = c"
  shows "\<exists>pl'. mem_pool_free (hcaches h c) (pool_at h a) x = Inr pl'
    \<and> pl_free pl' = pl_free (pool_at h a) + 1 \<and> pl_free pl' \<le> obj_count (hcaches h c)
    \<and> (fits b1 (hcaches h c) pl' \<longrightarrow>
        (\<exists>h' F'. (if b1 = b then Inr (wr_pool a pl' h) else move_pool a b1 (wr_pool a pl' h)) = Inr h'
          \<and> heap_inv CS T F' B h' \<and> live CS F' h' = live CS F h - {(c, x)}
          \<and> hcaches h' = hcaches h \<and> hbytes h' = hbytes h \<and> hzones h' = hzones h))"
proof -
  let ?c = "hcaches h c" and ?pl = "pool_at h a"
  have pin: "(c, a) \<in> pools_in CS F" using b by (auto simp: pools_in_def)
  have ok: "pool_ok h c a ?pl" using pools_in_D [OF inv pin] by blast
  have cw: "cache_wf ?c" using cache_wf_in [OF inv] cache_of_head [OF b(1)] b(3) by simp
  then have oz: "0 < obj_size ?c" by (simp add: cache_wf_def)
  obtain p where p: "p \<in> slots ?c ?pl" "x = pl_data ?pl + p * obj_size ?c" using x by (auto simp: pool_live_eq)
  have "x < 2 ^ 64"
  proof -
    have pg: "pool_block h (c, a) \<in> B \<union> pool_block h ` pools_in CS F" using pin by blast
    have ai: "page_ainv T (hzones h) (B \<union> pool_block h ` pools_in CS F)" and zl: "zones_low (hzones h)"
      using inv by (auto simp: heap_inv_def)
    obtain n i where ni: "pl_page ?pl = (n, i)" by force
    let ?k = "pool_order ?c"
    have "((n, i), ?k) \<in> B \<union> pool_block h ` pools_in CS F" using pg ni by (simp add: pool_block_def)
    moreover have "(2::nat) ^ ?k - 1 < 2 ^ ?k" by simp
    ultimately have hz: "n < length (hzones h)" "zbegin (hzones h ! n) + i + (2 ^ ?k - 1) < zend (hzones h ! n)"
      using held_ptr_zone [OF ai, of n i ?k "2 ^ ?k - 1"] by auto
    then have "zend (hzones h ! n) \<le> 2 ^ 35" using zl by (simp add: zones_low_def)
    then have "zbegin (hzones h ! n) + i + 2 ^ ?k \<le> 2 ^ 35" using hz(2) by linarith
    then have "(zbegin (hzones h ! n) + i + 2 ^ ?k) * 4096 \<le> 2 ^ 35 * 4096" by (rule mult_right_mono) simp
    then have "ptr_addr (hzones h) (n, i) + 2 ^ (?k + 12) \<le> 2 ^ 47"
      by (simp add: ptr_addr_def power_add algebra_simps)
    moreover have "x - HIGHER_BASE \<in> ptr_bytes (hzones h) (pool_block h (c, a))" "HIGHER_BASE \<le> x"
      using pool_live_bytes [OF inv pin x] by auto
    then have "x - HIGHER_BASE < ptr_addr (hzones h) (n, i) + 2 ^ (?k + 12)"
      by (simp add: ptr_bytes_def pool_block_def ni)
    ultimately show ?thesis using \<open>HIGHER_BASE \<le> x\<close> by (simp add: HIGHER_BASE_def)
  qed
  moreover have px: "(x - pl_data ?pl) div obj_size ?c = p" "pl_data ?pl \<le> x" using p(2) oz by simp_all
  ultimately obtain pl' where fr: "mem_pool_free ?c ?pl x = Inr pl'"
    "slots ?c pl' = slots ?c ?pl - {p}" "pool_wf ?c pl'" "pl_free pl' = pl_free ?pl + 1"
    "pl_page pl' = pl_page ?pl" "pl_data pl' = pl_data ?pl"
    using mem_pool_free_spec(1) [OF cw pool_okD(2) [OF ok], of x] p(1) by auto
  have "\<exists>h' F'. (if b1 = b then Inr (wr_pool a pl' h) else move_pool a b1 (wr_pool a pl' h)) = Inr h'
      \<and> heap_inv CS T F' B h' \<and> live CS F' h' = live CS F h - {(c, x)}
      \<and> hcaches h' = hcaches h \<and> hbytes h' = hbytes h \<and> hzones h' = hzones h" if ft: "fits b1 ?c pl'"
  proof -
    obtain h' F' where r: "(if b1 = b then Inr (wr_pool a pl' h) else move_pool a b1 (wr_pool a pl' h)) = Inr h'"
      "heap_inv CS T F' B h'" "hcaches h' = hcaches h" "hbytes h' = hbytes h" "hzones h' = hzones h"
      "live CS F' h' = (\<Union>ca\<in>pools_in CS F - {(c, a)}. pool_live h ca) \<union> pool_live h' (c, a)"
      "pool_at h' a = pl'"
      using place [OF inv b refl fr(3,5,6) b1 ft] by blast
    have new: "pool_live h' (c, a) = pool_live h (c, a) - {(c, x)}"
      using r(3,7) fr(2,6) p(2) slot_inj [OF oz, of c "pl_data ?pl"]
      by (simp add: pool_live_eq image_set_diff)
    have old: "live CS F h = (\<Union>ca\<in>pools_in CS F - {(c, a)}. pool_live h ca) \<union> pool_live h (c, a)"
      unfolding live_def using pin by blast
    have "(c, x) \<notin> pool_live h ca" if "ca \<in> pools_in CS F - {(c, a)}" for ca
      using pool_live_disjoint [OF inv pin, of ca c x c x] that x by blast
    then have "live CS F' h' = live CS F h - {(c, x)}" unfolding r(6) old new by blast
    then show ?thesis using r(1-5) by blast
  qed
  moreover have "pl_free pl' \<le> obj_count ?c" using fr(3) by (simp add: pool_wf_def)
  ultimately show ?thesis using fr(1,4) by blast
qed

section \<open>A new pool\<close>

lemma zones_low_bounds: "same_bounds zs zs' \<Longrightarrow> zones_low zs \<Longrightarrow> zones_low zs'"
  unfolding same_bounds_def zones_low_def by (metis in_set_conv_nth)

text \<open>Two held blocks have no page in common.\<close>

lemma held_pages_apart:
  assumes "page_ainv T zs H" "((n, i), k) \<in> H" "((n, j), l) \<in> H" "((n, i), k) \<noteq> ((n, j), l)"
    "x < 2 ^ k" "y < 2 ^ l"
  shows "i + x \<noteq> j + y"
proof
  assume eq: "i + x = j + y"
  have "zbegin (zs ! n) + i + x \<in> ptr_frames zs ((n, i), k)" "zbegin (zs ! n) + j + y \<in> ptr_frames zs ((n, j), l)"
    using assms(5,6) by (auto simp: ptr_frames_def blk_def)
  moreover have "zbegin (zs ! n) + i + x = zbegin (zs ! n) + j + y" using eq by simp
  ultimately show False using held_disjoint [OF assms(1-4)] by auto
qed

lemma meta_in_block:
  assumes "cache_wf (hcaches h c)" "pl_data pl = va (ptr_addr zs (pl_page pl))"
  shows "pl_data pl + meta_offs (hcaches h c) - HIGHER_BASE \<in> ptr_bytes zs (pl_page pl, pool_order (hcaches h c))"
proof -
  have "0 < meta_size (obj_count (hcaches h c))" by (simp add: meta_size_eq)
  then have "meta_offs (hcaches h c) < 2 ^ (pool_order (hcaches h c) + 12)"
    using assms(1) unfolding cache_wf_def PAGE_SHIFT_def by linarith
  then show ?thesis using assms(2) by (simp add: ptr_bytes_def va_def)
qed

lemma new_unlisted:
  assumes inv: "heap_inv CS T F B h" and c: "c \<in> CS" "k = pool_order (hcaches h c)"
    and zs: "page_ainv T zs (insert (p, k) (B \<union> pool_block h ` pools_in CS F))"
      "(p, k) \<notin> B \<union> pool_block h ` pools_in CS F" "same_bounds (hzones h) zs"
    and pl: "pl_page pl = p" "pl_data pl = va (ptr_addr zs p)" "a = pl_data pl + meta_offs (hcaches h c)"
    and b: "b \<in> cache_heads CS"
  shows "PoolLL a \<notin> set (F b)"
proof
  assume "PoolLL a \<in> set (F b)"
  then have pin: "(cache_of b, a) \<in> pools_in CS F" using b by (auto simp: pools_in_def)
  then have ok: "pool_ok h (cache_of b) a (pool_at h a)" using pools_in_D [OF inv] by blast
  let ?q = "pool_block h (cache_of b, a)"
  have q: "?q \<in> B \<union> pool_block h ` pools_in CS F" using pin by blast
  have "fst (pl_page (pool_at h a)) < length (hzones h)"
    using held_ptr_zone(1) [of T "hzones h" _ "fst (fst ?q)" "snd (fst ?q)" "snd ?q" 0] q inv
    by (auto simp: heap_inv_def pool_block_def)
  then have "ptr_bytes zs ?q = ptr_bytes (hzones h) ?q"
    using ptr_addr_bounds [OF zs(3)] by (simp add: ptr_bytes_def pool_block_def)
  moreover have "a - HIGHER_BASE \<in> ptr_bytes (hzones h) ?q"
    using meta_in_block [OF cache_wf_in [OF inv cache_of_head [OF b]] pool_okD(3) [OF ok]] pool_okD(4) [OF ok]
    by (simp add: pool_block_def)
  moreover have "a - HIGHER_BASE \<in> ptr_bytes zs (p, k)"
    using meta_in_block [OF cache_wf_in [OF inv c(1)], of pl zs] pl c(2) by simp
  moreover have "?q \<noteq> (p, k)" using q zs(2) by metis
  ultimately show False using held_bytes_disjoint [OF zs(1), of ?q "(p, k)"] q by blast
qed

lemma add_pool:
  assumes inv: "heap_inv CS T F B h" and c: "c \<in> CS" "k = pool_order (hcaches h c)"
    and zs: "page_ainv T zs (insert (p, k) (B \<union> pool_block h ` pools_in CS F))"
      "(p, k) \<notin> B \<union> pool_block h ` pools_in CS F" "same_bounds (hzones h) zs"
    and keep: "\<And>n i l j. ((n, i), l) \<in> pool_block h ` pools_in CS F \<Longrightarrow> j < 2 ^ l \<Longrightarrow>
        desc zs (n, i + j) = desc (hzones h) (n, i + j)"
    and set: "\<And>j. j < 2 ^ k \<Longrightarrow> page_test_bit (desc zs (fst p, snd p + j)) PAGE_CACHE_BIT \<and>
        pu (desc zs (fst p, snd p + j)) = UCache (Some c)"
    and pl: "pl_page pl = p" "pl_data pl = va (ptr_addr zs p)" "pool_wf (hcaches h c) pl"
      "a = pl_data pl + meta_offs (hcaches h c)"
    and b1: "b1 \<in> cache_heads CS" "cache_of b1 = c" "fits b1 (hcaches h c) pl"
    and l: "lists_rep l (cache_heads CS) (F(b1 := PoolLL a # F b1))"
  defines "h' \<equiv> h\<lparr>hzones := zs, hlinks := l, hpools := (hpools h)(a \<mapsto> pl)\<rparr>"
  shows "heap_inv CS T (F(b1 := PoolLL a # F b1)) B h'"
    and "live CS (F(b1 := PoolLL a # F b1)) h' = live CS F h \<union> pool_live h' (c, a)"
    and "live CS F h \<inter> pool_live h' (c, a) = {}"
    and "pool_at h' a = pl" "hcaches h' = hcaches h" "hbytes h' = hbytes h"
proof -
  let ?F = "F(b1 := PoolLL a # F b1)"
  have rep: "lists_rep (hlinks h) (cache_heads CS) F" using inv by (simp add: heap_inv_def)
  have new: "PoolLL a \<notin> set (F b)" if "b \<in> cache_heads CS" for b
    using new_unlisted [OF inv c zs pl(1,2,4) that] .
  have pe: "pools_in CS ?F = insert (c, a) (pools_in CS F)"
    using b1 by (auto simp: pools_in_def split: if_splits)
  have at: "pool_at h' e = (if e = a then pl else pool_at h e)" for e by (simp add: h'_def pool_at_def)
  have same: "hcaches h' = hcaches h" "hzones h' = zs" by (simp_all add: h'_def)
  have ne: "snd ca \<noteq> a" if "ca \<in> pools_in CS F" for ca using that new by (auto simp: pools_in_def)
  have blk: "pool_block h' ` pools_in CS ?F = insert (p, k) (pool_block h ` pools_in CS F)"
  proof -
    have "pool_block h' ca = pool_block h ca" if "ca \<in> pools_in CS F" for ca
      using ne [OF that] by (simp add: pool_block_def at same)
    moreover have "pool_block h' (c, a) = (p, k)" using pl(1) c(2) by (simp add: pool_block_def at same)
    ultimately show ?thesis unfolding pe by simp
  qed
  have "pools_ok CS ?F h'"
    unfolding pools_ok_def
  proof (intro ballI)
    fix b x assume b: "b \<in> cache_heads CS" "x \<in> set (?F b)"
    show "\<exists>a pl. x = PoolLL a \<and> pool_ok h' (cache_of b) a pl \<and> fits b (hcaches h' (cache_of b)) pl"
    proof (cases "x = PoolLL a")
      case True
      then have "b = b1" using b new by (auto split: if_splits)
      moreover have "pool_ok h' c a pl"
        by (rule pool_okI) (use pl set c(2) in \<open>simp_all add: same\<close>, simp add: h'_def)
      ultimately show ?thesis using True b1 same by auto
    next
      case False
      then have xF: "x \<in> set (F b)" using b(2) by (auto split: if_splits)
      then obtain e q where e: "x = PoolLL e" "pool_ok h (cache_of b) e q" "fits b (hcaches h (cache_of b)) q"
        using inv b(1) unfolding heap_inv_def pools_ok_def by blast
      have pin: "(cache_of b, e) \<in> pools_in CS F" using b(1) xF e(1) by (auto simp: pools_in_def)
      have qe: "pool_at h e = q" using pool_okD(1) [OF e(2)] by (simp add: pool_at_def)
      have blkq: "(pl_page q, pool_order (hcaches h (cache_of b))) \<in> pool_block h ` pools_in CS F"
        using pin qe by (force simp: pool_block_def)
      then have "fst (pl_page q) < length (hzones h)"
        using held_ptr_zone(1) [of T "hzones h" "B \<union> pool_block h ` pools_in CS F" "fst (pl_page q)" "snd (pl_page q)" _ 0] inv
        by (auto simp: heap_inv_def)
      then have "ptr_addr zs (pl_page q) = ptr_addr (hzones h) (pl_page q)" using ptr_addr_bounds [OF zs(3)] by blast
      moreover have "desc zs (fst (pl_page q), snd (pl_page q) + j) = desc (hzones h) (fst (pl_page q), snd (pl_page q) + j)"
        if "j < 2 ^ pool_order (hcaches h (cache_of b))" for j
        using keep [of "fst (pl_page q)" "snd (pl_page q)" _ j] blkq that by simp
      ultimately have "pool_ok h' (cache_of b) e q"
        using pool_okD [OF e(2)] False e(1)
        by (intro pool_okI) (simp_all only: same, simp_all add: h'_def)
      then show ?thesis using e same by auto
    qed
  qed
  moreover have "B \<inter> pool_block h' ` pools_in CS ?F = {}"
    unfolding blk using inv zs(2) by (auto simp: heap_inv_def)
  moreover have "page_ainv T zs (B \<union> pool_block h' ` pools_in CS ?F)" unfolding blk using zs(1) by simp
  moreover have "zones_low zs" using inv zones_low_bounds [OF zs(3)] by (simp add: heap_inv_def)
  ultimately show hi: "heap_inv CS T ?F B h'"
    using inv l unfolding heap_inv_def same by (simp add: h'_def)
  have pv: "pool_live h' ca = pool_live h ca" if "ca \<in> pools_in CS F" for ca
    using ne [OF that] by (simp add: pool_live_def at same)
  then have "(\<Union>ca\<in>pools_in CS F. pool_live h' ca) = live CS F h" unfolding live_def by (intro SUP_cong) auto
  then show "live CS ?F h' = live CS F h \<union> pool_live h' (c, a)" unfolding live_def pe by auto
  show "live CS F h \<inter> pool_live h' (c, a) = {}"
  proof (rule ccontr)
    assume "live CS F h \<inter> pool_live h' (c, a) \<noteq> {}"
    then obtain ca x d where ca: "ca \<in> pools_in CS F" "(d, x) \<in> pool_live h ca" "(d, x) \<in> pool_live h' (c, a)"
      by (auto simp: live_def)
    moreover have "ca \<noteq> (c, a)" using ne [OF ca(1)] by auto
    ultimately show False
      using pool_live_disjoint [OF hi, of ca "(c, a)" d x d x] pv [OF ca(1)] pe by auto
  qed
  show "pool_at h' a = pl" "hcaches h' = hcaches h" "hbytes h' = hbytes h"
    by (simp_all add: at) (simp_all add: h'_def)
qed

section \<open>The operations of a cache\<close>

lemma cache_page_flags [simp]:
  "page_is_free ((page_set_bit pg b)\<lparr>pu := u\<rparr>) = page_is_free pg"
  "page_is_free ((page_clear_bit pg b)\<lparr>pu := u\<rparr>) = page_is_free pg"
  "b < 48 \<Longrightarrow> page_test_bit ((page_set_bit pg b)\<lparr>pu := u\<rparr>) b"
  "\<not> page_test_bit ((page_clear_bit pg b)\<lparr>pu := u\<rparr>) b"
proof -
  have *: "page_is_free (q\<lparr>pu := u\<rparr>) = page_is_free q" "page_test_bit (q\<lparr>pu := u\<rparr>) b = page_test_bit q b" for q
    by (simp_all add: page_is_free_def page_test_bit_def)
  show "page_is_free ((page_set_bit pg b)\<lparr>pu := u\<rparr>) = page_is_free pg"
    "page_is_free ((page_clear_bit pg b)\<lparr>pu := u\<rparr>) = page_is_free pg"
    "b < 48 \<Longrightarrow> page_test_bit ((page_set_bit pg b)\<lparr>pu := u\<rparr>) b"
    "\<not> page_test_bit ((page_clear_bit pg b)\<lparr>pu := u\<rparr>) b"
    unfolding * using page_test_bit_set_clear by simp_all
qed

lemma mem_pool_create_spec:
  assumes inv: "heap_inv CS T F B h" and c: "c \<in> CS"
  defines "H \<equiv> B \<union> pool_block h ` pools_in CS F" and "k \<equiv> pool_order (hcaches h c)"
  shows "mem_pool_create c h = Inr (None, h) \<or>
    (\<exists>a p zs pl. mem_pool_create c h = Inr (Some a, h\<lparr>hzones := zs,
          hlinks := (hlinks h)(PoolLL a \<mapsto> \<lparr>nxt = None, prv = None\<rparr>), hpools := (hpools h)(a \<mapsto> pl)\<rparr>)
      \<and> page_ainv T zs (insert (p, k) H) \<and> (p, k) \<notin> H \<and> same_bounds (hzones h) zs
      \<and> (\<forall>n i l j. ((n, i), l) \<in> H \<longrightarrow> j < 2 ^ l \<longrightarrow> desc zs (n, i + j) = desc (hzones h) (n, i + j))
      \<and> (\<forall>j<2 ^ k. page_test_bit (desc zs (fst p, snd p + j)) PAGE_CACHE_BIT \<and>
           pu (desc zs (fst p, snd p + j)) = UCache (Some c))
      \<and> pl_page pl = p \<and> pl_data pl = va (ptr_addr zs p) \<and> pool_wf (hcaches h c) pl
      \<and> a = pl_data pl + meta_offs (hcaches h c) \<and> pl_free pl = obj_count (hcaches h c)
      \<and> slots (hcaches h c) pl = {})"
proof -
  have ai: "page_ainv T (hzones h) H" using inv by (simp add: heap_inv_def H_def)
  obtain r zs1 where r: "page_alloc_desc k (hzones h) = Inr (r, zs1)" "descs_kept (hzones h) zs1 H"
    "case r of None \<Rightarrow> zs1 = hzones h | Some q \<Rightarrow> k \<le> MAX_ORDER \<and> (q, k) \<notin> H \<and> page_ainv T zs1 (insert (q, k) H)"
    using client_alloc [OF ai, of k] by blast
  show ?thesis
  proof (cases r)
    case None
    then show ?thesis using r by (simp add: mem_pool_create_def Let_def k_def)
  next
    case (Some p)
    obtain n i where p: "p = (n, i)" by force
    have q: "((n, i), k) \<notin> H" "page_ainv T zs1 (insert ((n, i), k) H)" using r(3) Some p by auto
    let ?f = "\<lambda>pg. (page_set_bit pg PAGE_CACHE_BIT)\<lparr>pu := UCache (Some c)\<rparr>"
    obtain zs2 where u: "upd_pages ?f (n, i) (2 ^ k) zs1 = Inr zs2" "page_ainv T zs2 (insert ((n, i), k) H)"
      "same_bounds zs1 zs2"
      "\<forall>q. desc zs2 q = (if fst q = n \<and> i \<le> snd q \<and> snd q < i + 2 ^ k then ?f (desc zs1 q) else desc zs1 q)"
      using upd_pages_held [OF q(2), of n i k ?f 0 "2 ^ k"] by auto
    have sb: "same_bounds (hzones h) zs2" using same_bounds_trans [OF descs_kept_bounds [OF r(2)] u(3)] .
    have ad: "page_addr (n, i) zs1 = Inr (ptr_addr zs1 (n, i))" by (rule page_addr_held [OF q(2) insertI1])
    have "n < length zs1" using held_ptr_zone(1) [OF q(2) insertI1, of 0] by simp
    then have pa: "ptr_addr zs2 (n, i) = ptr_addr zs1 (n, i)" using ptr_addr_bounds [OF u(3)] by simp
    define pl where "pl = \<lparr>pl_page = (n, i), pl_data = va (ptr_addr zs1 (n, i)),
      pl_free = obj_count (hcaches h c), bitmask = mem_pool_bitmap_setup (hcaches h c)\<rparr>"
    define a where "a = va (ptr_addr zs1 (n, i) + meta_offs (hcaches h c))"
    have "mem_pool_create c h = Inr (Some a, h\<lparr>hzones := zs2,
          hlinks := (hlinks h)(PoolLL a \<mapsto> \<lparr>nxt = None, prv = None\<rparr>), hpools := (hpools h)(a \<mapsto> pl)\<rparr>)"
      using r(1) Some p ad u(1) by (simp add: mem_pool_create_def Let_def k_def pl_def a_def)
    moreover have "desc zs2 (m, i' + j) = desc (hzones h) (m, i' + j)" if h: "((m, i'), l) \<in> H" "j < 2 ^ l" for m i' l j
    proof -
      have "\<not> (m = n \<and> i \<le> i' + j \<and> i' + j < i + 2 ^ k)"
      proof
        assume e: "m = n \<and> i \<le> i' + j \<and> i' + j < i + 2 ^ k"
        then have "((n, i'), l) \<noteq> ((n, i), k)" using h(1) q(1) by auto
        moreover have "i' + j - i < 2 ^ k" using e by linarith
        ultimately have "i' + j \<noteq> i + (i' + j - i)"
          using held_pages_apart [OF q(2), of n i' l i k j "i' + j - i"] h e by auto
        then show False using e by simp
      qed
      then show ?thesis using u(4) descs_kept_desc [OF r(2) h] by auto
    qed
    moreover have "\<forall>j<2 ^ k. page_test_bit (desc zs2 (n, i + j)) PAGE_CACHE_BIT \<and> pu (desc zs2 (n, i + j)) = UCache (Some c)"
      using u(4) by (simp add: PAGE_CACHE_BIT_def)
    moreover have "pool_wf (hcaches h c) pl" "slots (hcaches h c) pl = {}"
      using bitmap_setup_wf [OF cache_wf_in [OF inv c], of pl] by (simp_all add: pl_def)
    moreover have "pl_page pl = (n, i)" "pl_data pl = va (ptr_addr zs2 (n, i))" "pl_free pl = obj_count (hcaches h c)"
      "a = pl_data pl + meta_offs (hcaches h c)"
      by (simp_all add: pl_def pa a_def va_def)
    ultimately show ?thesis
      using u(2) q(1) sb by (intro disjI2 exI [of _ a] exI [of _ "(n, i)"] exI [of _ zs2] exI [of _ pl]) auto
  qed
qed

lemma first_pool_spec:
  assumes inv: "heap_inv CS T F B h" and b: "b \<in> cache_heads CS"
  shows "list_empty b (hlinks h) = Inr (F b = [])"
    and "F b \<noteq> [] \<Longrightarrow> \<exists>a. first_pool b h = Inr a \<and> PoolLL a \<in> set (F b) \<and> rd_pool a h = Inr (pool_at h a)
      \<and> fits b (hcaches h (cache_of b)) (pool_at h a)"
proof -
  have rep: "lists_rep (hlinks h) (cache_heads CS) F" using inv by (simp add: heap_inv_def)
  show "list_empty b (hlinks h) = Inr (F b = [])" using kl.rep_empty [OF rep b] .
  assume "F b \<noteq> []"
  then obtain x xs where F: "F b = x # xs" by (cases "F b") auto
  then obtain a pl where a: "x = PoolLL a" "pool_ok h (cache_of b) a pl" "fits b (hcaches h (cache_of b)) pl"
    using inv b unfolding heap_inv_def pools_ok_def by fastforce
  have "list_first b (hlinks h) = Inr (Some (PoolLL a))" using kl.rep_first [OF rep b] F a(1) by simp
  then show "\<exists>a. first_pool b h = Inr a \<and> PoolLL a \<in> set (F b) \<and> rd_pool a h = Inr (pool_at h a)
      \<and> fits b (hcaches h (cache_of b)) (pool_at h a)"
    using F a pool_okD(1) [OF a(2)] by (intro exI [of _ a]) (simp add: first_pool_def rd_pool_def pool_at_def)
qed

lemma mem_cache_alloc_spec:
  assumes inv: "heap_inv CS T F B h" and c: "c \<in> CS"
  shows "\<exists>r h' F'. mem_cache_alloc c h = Inr (r, h') \<and> heap_inv CS T F' B h' \<and> hcaches h' = hcaches h
    \<and> hbytes h' = hbytes h \<and> same_bounds (hzones h) (hzones h')
    \<and> (\<forall>n i l j. ((n, i), l) \<in> B \<longrightarrow> j < 2 ^ l \<longrightarrow> desc (hzones h') (n, i + j) = desc (hzones h) (n, i + j)) \<and>
    (case r of None \<Rightarrow> h' = h \<and> F' = F
     | Some x \<Rightarrow> (c, x) \<notin> live CS F h \<and> live CS F' h' = insert (c, x) (live CS F h))"
proof -
  let ?P = "PartialPools c" and ?R = "FreePools c" and ?U = "BusyPools c" and ?c = "hcaches h c"
  have hd: "?P \<in> cache_heads CS" "?R \<in> cache_heads CS" "?U \<in> cache_heads CS" using c by auto
  have two: "2 \<le> obj_count ?c" using cache_wf_in [OF inv c] by (simp add: cache_wf_def)
  note eP = first_pool_spec [OF inv hd(1)] and eR = first_pool_spec [OF inv hd(2)]
  show ?thesis
  proof (cases "F ?P = []")
    case False
    obtain a where a: "first_pool ?P h = Inr a" "PoolLL a \<in> set (F ?P)" "rd_pool a h = Inr (pool_at h a)"
      "0 < pl_free (pool_at h a)" "pl_free (pool_at h a) < obj_count ?c"
      using eP(2) [OF False] by auto
    define b1 where "b1 = (if pl_free (pool_at h a) = 1 then ?U else ?P)"
    have b1: "b1 \<in> cache_heads CS" "cache_of b1 = c" using hd by (simp_all add: b1_def)
    obtain x pl' where t: "mem_pool_alloc ?c (pool_at h a) = Inr (x, pl')" "pl_free pl' = pl_free (pool_at h a) - 1"
      "fits b1 ?c pl' \<longrightarrow> (\<exists>h' F'. (if b1 = ?P then Inr (wr_pool a pl' h) else move_pool a b1 (wr_pool a pl' h)) = Inr h'
          \<and> heap_inv CS T F' B h' \<and> (c, x) \<notin> live CS F h \<and> live CS F' h' = insert (c, x) (live CS F h)
          \<and> hcaches h' = hcaches h \<and> hbytes h' = hbytes h \<and> hzones h' = hzones h)"
      using take_slot [OF inv hd(1) a(2) cache_of.simps(2) a(4) b1] by blast
    have "fits b1 ?c pl'" using t(2) a(4,5) by (auto simp: b1_def)
    then obtain h' F' where r: "(if b1 = ?P then Inr (wr_pool a pl' h) else move_pool a b1 (wr_pool a pl' h)) = Inr h'"
      "heap_inv CS T F' B h'" "(c, x) \<notin> live CS F h" "live CS F' h' = insert (c, x) (live CS F h)"
      "hcaches h' = hcaches h" "hbytes h' = hbytes h" "hzones h' = hzones h" using t(3) by blast
    have "(if pl_free pl' = 0 then move_pool a ?U (wr_pool a pl' h) else Inr (wr_pool a pl' h)) = Inr h'"
      using r(1) t(2) a(4) by (auto simp: b1_def split: if_splits)
    then have "mem_cache_alloc c h = Inr (Some x, h')"
      using False eP(1) a(1,3) t(1) by (simp add: mem_cache_alloc_def)
    then show ?thesis using r(2-7) by auto
  next
    case P: True
    show ?thesis
    proof (cases "F ?R = []")
      case False
      obtain a where a: "first_pool ?R h = Inr a" "PoolLL a \<in> set (F ?R)" "rd_pool a h = Inr (pool_at h a)"
        "pl_free (pool_at h a) = obj_count ?c"
        using eR(2) [OF False] by auto
      have fr: "0 < pl_free (pool_at h a)" using a(4) two by simp
      obtain x pl' where t: "mem_pool_alloc ?c (pool_at h a) = Inr (x, pl')" "pl_free pl' = pl_free (pool_at h a) - 1"
        "fits ?P ?c pl' \<longrightarrow> (\<exists>h' F'. (if ?P = ?R then Inr (wr_pool a pl' h) else move_pool a ?P (wr_pool a pl' h)) = Inr h'
            \<and> heap_inv CS T F' B h' \<and> (c, x) \<notin> live CS F h \<and> live CS F' h' = insert (c, x) (live CS F h)
            \<and> hcaches h' = hcaches h \<and> hbytes h' = hbytes h \<and> hzones h' = hzones h)"
        using take_slot [OF inv hd(2) a(2) cache_of.simps(1) fr hd(1) cache_of.simps(2)] by blast
      have "fits ?P ?c pl'" using t(2) a(4) two by auto
      then obtain h' F' where r: "move_pool a ?P (wr_pool a pl' h) = Inr h'"
        "heap_inv CS T F' B h'" "(c, x) \<notin> live CS F h" "live CS F' h' = insert (c, x) (live CS F h)"
        "hcaches h' = hcaches h" "hbytes h' = hbytes h" "hzones h' = hzones h" using t(3) by auto
      have "mem_cache_alloc c h = Inr (Some x, h')"
        using P False eP(1) eR(1) a(1,3,4) t(1,2) r(1) two by (simp add: mem_cache_alloc_def)
      then show ?thesis using r(2-7) by auto
    next
      case R: True
      show ?thesis
      proof (cases "mem_pool_create c h = Inr (None, h)")
        case True
        then have "mem_cache_alloc c h = Inr (None, h)" using P R eP(1) eR(1) by (simp add: mem_cache_alloc_def)
        then show ?thesis using inv by auto
      next
        case False
        then obtain a p zs pl where k: "mem_pool_create c h = Inr (Some a, h\<lparr>hzones := zs,
              hlinks := (hlinks h)(PoolLL a \<mapsto> \<lparr>nxt = None, prv = None\<rparr>), hpools := (hpools h)(a \<mapsto> pl)\<rparr>)"
          and pg: "page_ainv T zs (insert (p, pool_order ?c) (B \<union> pool_block h ` pools_in CS F))"
            "(p, pool_order ?c) \<notin> B \<union> pool_block h ` pools_in CS F" "same_bounds (hzones h) zs"
            "\<forall>n i l j. ((n, i), l) \<in> B \<union> pool_block h ` pools_in CS F \<longrightarrow> j < 2 ^ l \<longrightarrow>
              desc zs (n, i + j) = desc (hzones h) (n, i + j)"
            "\<forall>j<2 ^ pool_order ?c. page_test_bit (desc zs (fst p, snd p + j)) PAGE_CACHE_BIT \<and>
              pu (desc zs (fst p, snd p + j)) = UCache (Some c)"
          and pl: "pl_page pl = p" "pl_data pl = va (ptr_addr zs p)" "pool_wf ?c pl"
            "a = pl_data pl + meta_offs ?c" "pl_free pl = obj_count ?c" "slots ?c pl = {}"
          using mem_pool_create_spec [OF inv c] by blast
        have wf: "cache_wf ?c" using cache_wf_in [OF inv c] .
        obtain s pl' where al: "mem_pool_alloc ?c pl = Inr (pl_data pl + s * obj_size ?c, pl')"
          "slots ?c pl' = insert s (slots ?c pl)" "pool_wf ?c pl'" "pl_free pl' = pl_free pl - 1"
          "pl_page pl' = pl_page pl" "pl_data pl' = pl_data pl"
          using mem_pool_alloc_spec [OF wf pl(3)] pl(5) two by auto
        let ?x = "pl_data pl + s * obj_size ?c"
        let ?l = "(hlinks h)(PoolLL a \<mapsto> \<lparr>nxt = None, prv = None\<rparr>)"
        have pl': "pl_page pl' = p" "pl_data pl' = va (ptr_addr zs p)" "a = pl_data pl' + meta_offs ?c"
          using al(5,6) pl by simp_all
        have nl: "\<forall>b\<in>cache_heads CS. PoolLL a \<notin> set (b # F b)"
          using new_unlisted [OF inv c refl pg(1-3) pl'] by auto
        have rep: "lists_rep (hlinks h) (cache_heads CS) F" using inv by (simp add: heap_inv_def)
        have rep1: "lists_rep ?l (cache_heads CS) F" by (rule lists_rep_extend [OF rep nl])
        have "PoolLL a \<in> dom ?l" by simp
        from kl.rep_add [OF rep1 hd(1) this nl] obtain l where
          l: "list_add (PoolLL a) ?P ?l = Inr l" "lists_rep l (cache_heads CS) (F(?P := PoolLL a # F ?P))" by blast
        have ft: "fits ?P ?c pl'" using al(4) pl(5) two by auto
        define h' where "h' = h\<lparr>hzones := zs, hlinks := l, hpools := (hpools h)(a \<mapsto> pl')\<rparr>"
        note ap = add_pool [OF inv c refl pg(1-3) _ _ pl'(1,2) al(3) pl'(3) hd(1) _ ft l(2), folded h'_def]
        have keep: "\<And>n i la j. ((n, i), la) \<in> pool_block h ` pools_in CS F \<Longrightarrow> j < 2 ^ la \<Longrightarrow>
            desc zs (n, i + j) = desc (hzones h) (n, i + j)" using pg(4) by blast
        have st: "\<And>j. j < 2 ^ pool_order ?c \<Longrightarrow> page_test_bit (desc zs (fst p, snd p + j)) PAGE_CACHE_BIT \<and>
            pu (desc zs (fst p, snd p + j)) = UCache (Some c)" using pg(5) by blast
        note ap = ap [OF keep st cache_of.simps(2), simplified]
        have lv: "pool_live h' (c, a) = {(c, ?x)}"
          using ap(4,5) al(2,6) pl(6) by (simp add: pool_live_eq)
        have "mem_cache_alloc c h = Inr (Some ?x, h')"
          using P R eP(1) eR(1) k al(1) l(1)
          by (simp add: mem_cache_alloc_def rd_pool_def with_links_def wr_pool_def h'_def)
        moreover have "\<forall>n i l j. ((n, i), l) \<in> B \<longrightarrow> j < 2 ^ l \<longrightarrow>
            desc (hzones h') (n, i + j) = desc (hzones h) (n, i + j)" "same_bounds (hzones h) (hzones h')"
          using pg(3,4) by (auto simp: h'_def)
        ultimately show ?thesis using ap lv
          by (intro exI [of _ "Some ?x"] exI [of _ h'] exI [of _ "F(?P := PoolLL a # F ?P)"]) auto
      qed
    qed
  qed
qed

lemma mem_cache_free_spec:
  assumes inv: "heap_inv CS T F B h" and x: "(c, x) \<in> live CS F h"
  shows "\<exists>h' F'. mem_cache_free c x h = Inr h' \<and> heap_inv CS T F' B h' \<and> hcaches h' = hcaches h
    \<and> hbytes h' = hbytes h \<and> hzones h' = hzones h \<and> live CS F' h' = live CS F h - {(c, x)}"
proof -
  let ?P = "PartialPools c" and ?R = "FreePools c" and ?U = "BusyPools c" and ?c = "hcaches h c"
  obtain a where a: "(c, a) \<in> pools_in CS F" "(c, x) \<in> pool_live h (c, a)"
    using x pool_live_bytes(3) [OF inv] unfolding live_def by (metis (no_types, lifting) UN_E prod.collapse)
  obtain b where b: "b \<in> cache_heads CS" "cache_of b = c" "PoolLL a \<in> set (F b)"
    "pool_ok h c a (pool_at h a)" "fits b ?c (pool_at h a)" using pools_in_D [OF inv a(1)] by blast
  have c: "c \<in> CS" using cache_of_head [OF b(1)] b(2) by simp
  have hd: "?P \<in> cache_heads CS" "?R \<in> cache_heads CS" "?U \<in> cache_heads CS" using c by auto
  have wf: "cache_wf ?c" using cache_wf_in [OF inv c] .
  then have two: "2 \<le> obj_count ?c" by (simp add: cache_wf_def)
  let ?pl = "pool_at h a"
  have bcase: "b = ?P \<or> b = ?R \<or> b = ?U" using b(1,2) by (auto simp: cache_heads_def)
  define b1 where "b1 = (if pl_free ?pl + 1 = obj_count ?c then ?R else ?P)"
  have b1: "b1 \<in> cache_heads CS" "cache_of b1 = c" using hd by (simp_all add: b1_def)
  obtain pl' where g: "mem_pool_free ?c ?pl x = Inr pl'" "pl_free pl' = pl_free ?pl + 1" "pl_free pl' \<le> obj_count ?c"
    "fits b1 ?c pl' \<longrightarrow> (\<exists>h' F'. (if b1 = b then Inr (wr_pool a pl' h) else move_pool a b1 (wr_pool a pl' h)) = Inr h'
        \<and> heap_inv CS T F' B h' \<and> live CS F' h' = live CS F h - {(c, x)} \<and> hcaches h' = hcaches h \<and> hbytes h' = hbytes h \<and> hzones h' = hzones h)"
    using give_slot [OF inv b(1,3,2) a(2) b1] by blast
  have "fits b1 ?c pl'" using g(2,3) by (auto simp: b1_def)
  then obtain h' F' where r: "(if b1 = b then Inr (wr_pool a pl' h) else move_pool a b1 (wr_pool a pl' h)) = Inr h'"
    "heap_inv CS T F' B h'" "live CS F' h' = live CS F h - {(c, x)}" "hcaches h' = hcaches h" "hbytes h' = hbytes h"
    "hzones h' = hzones h" using g(4) by blast
  have nR: "b \<noteq> ?R" using b(5) g(2,3) by auto
  have meta: "align_down x (2 ^ (pool_order ?c + PAGE_SHIFT)) + meta_offs ?c = a"
  proof -
    have ai: "page_ainv T (hzones h) (B \<union> pool_block h ` pools_in CS F)" using inv by (simp add: heap_inv_def)
    obtain n i where ni: "pl_page ?pl = (n, i)" by force
    have "((n, i), pool_order ?c) \<in> B \<union> pool_block h ` pools_in CS F"
      using a(1) ni by (force simp: pool_block_def)
    then have hz: "2 ^ pool_order ?c dvd zbegin (hzones h ! n) + i" "pool_order ?c \<le> MAX_ORDER"
      using held_ptr_zone [OF ai, of n i "pool_order ?c" 0] by auto
    have "2 ^ pool_order ?c * 2 ^ 12 dvd (zbegin (hzones h ! n) + i) * 2 ^ 12" using hz(1) by (rule mult_dvd_mono) simp
    then have d1: "2 ^ (pool_order ?c + 12) dvd ptr_addr (hzones h) (n, i)" by (simp add: ptr_addr_def power_add)
    have "(2::nat) ^ (pool_order ?c + 12) dvd 2 ^ 47"
      using hz(2) by (intro le_imp_power_dvd) (simp add: MAX_ORDER_def)
    moreover have "(2::nat) ^ 47 dvd HIGHER_BASE" by (simp add: HIGHER_BASE_def)
    ultimately have d2: "2 ^ (pool_order ?c + 12) dvd HIGHER_BASE" by (rule dvd_trans)
    have "2 ^ (pool_order ?c + 12) dvd pl_data ?pl"
      using d1 d2 pool_okD(3) [OF b(4)] ni by (simp add: va_def)
    then have "align_down x (2 ^ (pool_order ?c + 12)) = pl_data ?pl"
      using pool_live_bytes(4,5) [OF inv a] by (intro align_down_unique) auto
    then show ?thesis using pool_okD(4) [OF b(4)] by (simp add: PAGE_SHIFT_def)
  qed
  have rd: "rd_pool a h = Inr ?pl" using pool_okD(1) [OF b(4)] by (simp add: rd_pool_def)
  have "mem_cache_free c x h = Inr h'"
  proof -
    consider (last) "pl_free pl' = obj_count ?c" "b1 = ?R" "b = ?P"
      | (first) "pl_free pl' = 1" "b1 = ?P" "b = ?U" "pl_free pl' \<noteq> obj_count ?c"
      | (mid) "pl_free pl' \<noteq> obj_count ?c" "pl_free pl' \<noteq> 1" "b1 = ?P" "b = ?P"
      using bcase nR b(5) g(2,3) two by (cases "pl_free pl' = obj_count ?c") (auto simp: b1_def)
    then show ?thesis
    proof cases
      case last
      then show ?thesis using r(1) rd g(1) meta two
        by (simp add: mem_cache_free_def Let_def)
    next
      case first
      then show ?thesis using r(1) rd g(1) meta
        by (simp add: mem_cache_free_def Let_def)
    next
      case mid
      then show ?thesis using r(1) rd g(1) meta by (simp add: mem_cache_free_def Let_def)
    qed
  qed
  then show ?thesis using r by blast
qed

end
