(* ===== verification/Slab_Heap.thy ===== *)
theory Slab_Heap
  imports Slab_Ops
begin

unbundle bit_operations_syntax

text \<open>
  The general allocator: its state is a set of disjoint blocks of memory with their usable sizes, and
  \<open>mem_alloc\<close>, \<open>mem_free\<close> and \<open>mem_realloc\<close> change that set as their names say.
\<close>

section \<open>Looking up sizes\<close>

lemma lookup_from_spec:
  "lookup_from ss i sz = Some c \<Longrightarrow> i \<le> c \<and> c < i + length ss \<and> ss ! (c - i) \<ge> sz \<and> (\<forall>j<c - i. ss ! j < sz)"
  "lookup_from ss i sz = None \<Longrightarrow> \<forall>s\<in>set ss. s < sz"
proof (induction ss arbitrary: i)
  case (Cons s ss)
  {
    case 1
    show ?case
    proof (cases "s \<ge> sz")
      case True
      then show ?thesis using 1 by auto
    next
      case False
      then have r: "Suc i \<le> c \<and> c < Suc i + length ss \<and> ss ! (c - Suc i) \<ge> sz \<and> (\<forall>j<c - Suc i. ss ! j < sz)"
        using 1 Cons.IH(1) [of "Suc i"] by simp
      then have "c - i = Suc (c - Suc i)" by linarith
      then show ?thesis using r False by (auto simp: less_Suc_eq_0_disj)
    qed
  next
    case 2
    then show ?case using Cons.IH(2) [of "Suc i"] by (auto split: if_splits)
  }
qed auto

lemma mem_pool_lookup_spec:
  "mem_pool_lookup sz = Some c \<Longrightarrow> c < MEM_POOLS \<and> sz \<le> mem_pool_size ! c \<and> (\<forall>j<c. mem_pool_size ! j < sz)"
  "mem_pool_lookup sz = None \<longleftrightarrow> 8192 < sz"
proof -
  show "mem_pool_lookup sz = Some c \<Longrightarrow> c < MEM_POOLS \<and> sz \<le> mem_pool_size ! c \<and> (\<forall>j<c. mem_pool_size ! j < sz)"
    using lookup_from_spec(1) [of mem_pool_size 0 sz c] by (simp add: mem_pool_lookup_def MEM_POOLS_def)
  show "mem_pool_lookup sz = None \<longleftrightarrow> 8192 < sz"
  proof
    assume "mem_pool_lookup sz = None"
    then show "8192 < sz" using lookup_from_spec(2) [of mem_pool_size 0 sz]
      by (simp add: mem_pool_lookup_def mem_pool_size_def)
  next
    assume "8192 < sz"
    then have "\<forall>s\<in>set mem_pool_size. \<not> sz \<le> s" by (simp add: mem_pool_size_def)
    moreover have "\<forall>s\<in>set ss. \<not> sz \<le> s \<Longrightarrow> lookup_from ss i sz = None" for ss i
      by (induction ss arbitrary: i) auto
    ultimately show "mem_pool_lookup sz = None" by (simp add: mem_pool_lookup_def)
  qed
qed

lemma order_scan_spec:
  "order_scan left k sz \<le> k + left \<and> k \<le> order_scan left k sz \<and>
   (order_scan left k sz < k + left \<longrightarrow> sz \<le> 2 ^ (order_scan left k sz + PAGE_SHIFT)) \<and>
   (\<forall>j. k \<le> j \<longrightarrow> j < order_scan left k sz \<longrightarrow> 2 ^ (j + PAGE_SHIFT) < sz)"
proof (induction left arbitrary: k)
  case (Suc left)
  show ?case
  proof (cases "sz \<le> 2 ^ (k + PAGE_SHIFT)")
    case False
    note ih = Suc.IH [of "Suc k"]
    have "2 ^ (j + PAGE_SHIFT) < sz" if "k \<le> j" "j < order_scan left (Suc k) sz" for j
      using ih False that by (cases "j = k") auto
    then show ?thesis using ih False by auto
  qed auto
qed simp

lemma mem_order_calculate_spec:
  "mem_order_calculate sz \<le> MAX_ORDER \<Longrightarrow> sz \<le> 2 ^ (mem_order_calculate sz + PAGE_SHIFT)"
  "j < mem_order_calculate sz \<Longrightarrow> 2 ^ (j + PAGE_SHIFT) < sz"
  using order_scan_spec [of "MAX_ORDER + 1" 0 sz] by (auto simp: mem_order_calculate_def)

section \<open>The state of the general allocator\<close>

definition caches_ready :: "heap \<Rightarrow> bool" where
  "caches_ready h \<longleftrightarrow> (\<forall>c<MEM_POOLS. mem_cache_layout_setup (mem_pool_size ! c) 64 = Inr (hcaches h c))"

text \<open>The blocks handed out: objects of the caches and whole pages, with usable sizes.\<close>

definition obj_block :: "heap \<Rightarrow> nat \<times> nat \<Rightarrow> nat \<times> nat" where
  "obj_block h cx = (snd cx, obj_size (hcaches h (fst cx)))"

definition page_block :: "heap \<Rightarrow> page_ptr \<times> nat \<Rightarrow> nat \<times> nat" where
  "page_block h pk = (va (ptr_addr (hzones h) (fst pk)), 2 ^ (snd pk + PAGE_SHIFT))"

definition big_ok :: "heap \<Rightarrow> (page_ptr \<times> nat) set \<Rightarrow> bool" where
  "big_ok h B \<longleftrightarrow> (\<forall>(p, k)\<in>B. \<not> page_test_bit (desc (hzones h) p) PAGE_CACHE_BIT \<and> pu (desc (hzones h) p) = UOrder k)"

definition mem_state :: "nat set \<Rightarrow> (snode \<Rightarrow> snode list) \<Rightarrow> (page_ptr \<times> nat) set \<Rightarrow> heap \<Rightarrow> (nat \<times> nat) set \<Rightarrow> bool" where
  "mem_state T F B h M \<longleftrightarrow> heap_inv {..<MEM_POOLS} T F B h \<and> caches_ready h \<and> big_ok h B \<and>
     M = obj_block h ` live {..<MEM_POOLS} F h \<union> page_block h ` B"

definition mem_inv :: "nat set \<Rightarrow> heap \<Rightarrow> (nat \<times> nat) set \<Rightarrow> bool" where
  "mem_inv T h M \<longleftrightarrow> (\<exists>F B. mem_state T F B h M)"

definition bytes_of :: "nat \<times> nat \<Rightarrow> nat set" where
  "bytes_of xs = {fst xs..<fst xs + snd xs}"

section \<open>Blocks do not overlap\<close>

lemma live_D:
  assumes "heap_inv CS T F B h" "(c, x) \<in> live CS F h"
  shows "\<exists>a p. (c, a) \<in> pools_in CS F \<and> p < obj_count (hcaches h c) \<and>
    x = pl_data (pool_at h a) + p * obj_size (hcaches h c) \<and> (c, x) \<in> pool_live h (c, a)"
proof -
  obtain ca where ca: "ca \<in> pools_in CS F" "(c, x) \<in> pool_live h ca" using assms(2) by (auto simp: live_def)
  have f: "fst ca = c" using pool_live_bytes(3) [OF assms(1) ca] by simp
  then obtain a where a: "ca = (c, a)" by (cases ca) auto
  obtain p where "p \<in> slots (hcaches h c) (pool_at h a)" "x = pl_data (pool_at h a) + p * obj_size (hcaches h c)"
    using ca(2) a by (auto simp: pool_live_eq)
  then show ?thesis using ca a slots_lt by blast
qed

text \<open>A live object lies before the metadata of its pool.\<close>

lemma obj_in_block:
  assumes inv: "heap_inv CS T F B h" and a: "(c, a) \<in> pools_in CS F" and p: "p < obj_count (hcaches h c)"
  shows "bytes_of (pl_data (pool_at h a) + p * obj_size (hcaches h c), obj_size (hcaches h c))
    \<subseteq> (\<lambda>y. y + HIGHER_BASE) ` ptr_bytes (hzones h) (pool_block h (c, a))"
proof
  let ?c = "hcaches h c" and ?pl = "pool_at h a"
  fix y assume y: "y \<in> bytes_of (pl_data ?pl + p * obj_size ?c, obj_size ?c)"
  obtain b where b: "b \<in> cache_heads CS" "cache_of b = c" "pool_ok h c a ?pl" using pools_in_D [OF inv a] by blast
  have wf: "cache_wf ?c" using cache_wf_in [OF inv] cache_of_head [OF b(1)] b(2) by simp
  have "Suc p * obj_size ?c \<le> obj_count ?c * obj_size ?c" using p by (intro mult_right_mono) auto
  then have "Suc p * obj_size ?c \<le> 2 ^ (pool_order ?c + 12)"
    using wf unfolding cache_wf_def PAGE_SHIFT_def by linarith
  then have "y < pl_data ?pl + 2 ^ (pool_order ?c + 12)" "pl_data ?pl \<le> y" using y by (auto simp: bytes_of_def)
  then have "y - HIGHER_BASE \<in> ptr_bytes (hzones h) (pool_block h (c, a))" "HIGHER_BASE \<le> y"
    using pool_okD(3) [OF b(3)] by (auto simp: ptr_bytes_def pool_block_def va_def)
  then show "y \<in> (\<lambda>y. y + HIGHER_BASE) ` ptr_bytes (hzones h) (pool_block h (c, a))"
    by (intro image_eqI [of _ _ "y - HIGHER_BASE"]) auto
qed

lemma page_block_bytes:
  "bytes_of (page_block h pk) = (\<lambda>y. y + HIGHER_BASE) ` ptr_bytes (hzones h) pk"
  unfolding bytes_of_def page_block_def ptr_bytes_def va_def PAGE_SHIFT_def
  by (simp add: image_add_atLeastLessThan' add.commute add.left_commute add.assoc)

lemma block_bytes_disjoint:
  assumes inv: "heap_inv CS T F B h" and p: "p \<in> B \<union> pool_block h ` pools_in CS F"
    "q \<in> B \<union> pool_block h ` pools_in CS F" "p \<noteq> q"
  shows "(\<lambda>y. y + HIGHER_BASE) ` ptr_bytes (hzones h) p \<inter> (\<lambda>y. y + HIGHER_BASE) ` ptr_bytes (hzones h) q = {}"
proof -
  have "ptr_bytes (hzones h) p \<inter> ptr_bytes (hzones h) q = {}"
    by (rule held_bytes_disjoint [of T, OF _ p]) (use inv in \<open>simp add: heap_inv_def\<close>)
  then show ?thesis by (auto simp: disjoint_iff)
qed

lemma objs_disjoint:
  assumes inv: "heap_inv CS T F B h" and x: "(c, x) \<in> live CS F h" "(d, y) \<in> live CS F h" "(c, x) \<noteq> (d, y)"
  shows "bytes_of (obj_block h (c, x)) \<inter> bytes_of (obj_block h (d, y)) = {}"
proof -
  obtain a p where a: "(c, a) \<in> pools_in CS F" "p < obj_count (hcaches h c)"
    "x = pl_data (pool_at h a) + p * obj_size (hcaches h c)" using live_D [OF inv x(1)] by blast
  obtain e q where e: "(d, e) \<in> pools_in CS F" "q < obj_count (hcaches h d)"
    "y = pl_data (pool_at h e) + q * obj_size (hcaches h d)" using live_D [OF inv x(2)] by blast
  show ?thesis
  proof (cases "(c, a) = (d, e)")
    case True
    then have pq: "p \<noteq> q" using x(3) a(3) e(3) by auto
    let ?s = "obj_size (hcaches h c)"
    have "Suc p * ?s \<le> q * ?s \<or> Suc q * ?s \<le> p * ?s"
      using pq by (cases "p < q") (auto intro!: mult_right_mono simp del: mult_Suc)
    then show ?thesis using a(3) e(3) True by (auto simp: bytes_of_def obj_block_def)
  next
    case False
    have "pool_block h (c, a) \<noteq> pool_block h (d, e)"
      using pool_block_inj [OF inv a(1) e(1)] False by (auto simp: pool_block_def)
    then have "(\<lambda>y. y + HIGHER_BASE) ` ptr_bytes (hzones h) (pool_block h (c, a)) \<inter>
        (\<lambda>y. y + HIGHER_BASE) ` ptr_bytes (hzones h) (pool_block h (d, e)) = {}"
      using a(1) e(1) by (intro block_bytes_disjoint [OF inv]) auto
    then show ?thesis
      using obj_in_block [OF inv a(1,2)] obj_in_block [OF inv e(1,2)] a(3) e(3) by (auto simp: obj_block_def)
  qed
qed

lemma obj_page_disjoint:
  assumes inv: "heap_inv CS T F B h" and x: "(c, x) \<in> live CS F h" and p: "pk \<in> B"
  shows "bytes_of (obj_block h (c, x)) \<inter> bytes_of (page_block h pk) = {}"
proof -
  obtain a q where a: "(c, a) \<in> pools_in CS F" "q < obj_count (hcaches h c)"
    "x = pl_data (pool_at h a) + q * obj_size (hcaches h c)" using live_D [OF inv x] by blast
  have "pool_block h (c, a) \<noteq> pk" using inv p a(1) by (auto simp: heap_inv_def)
  then have "(\<lambda>y. y + HIGHER_BASE) ` ptr_bytes (hzones h) (pool_block h (c, a)) \<inter>
      (\<lambda>y. y + HIGHER_BASE) ` ptr_bytes (hzones h) pk = {}"
    using a(1) p by (intro block_bytes_disjoint [OF inv]) auto
  then show ?thesis unfolding page_block_bytes using obj_in_block [OF inv a(1,2)] a(3) by (auto simp: obj_block_def)
qed

lemma blocks_disjoint:
  assumes "mem_state T F B h M" "m \<in> M" "n \<in> M" "m \<noteq> n"
  shows "bytes_of m \<inter> bytes_of n = {}"
proof -
  have inv: "heap_inv {..<MEM_POOLS} T F B h" and M: "M = obj_block h ` live {..<MEM_POOLS} F h \<union> page_block h ` B"
    using assms(1) by (auto simp: mem_state_def)
  have pp: "bytes_of (page_block h p) \<inter> bytes_of (page_block h q) = {}" if "p \<in> B" "q \<in> B" "p \<noteq> q" for p q
    unfolding page_block_bytes using that by (intro block_bytes_disjoint [OF inv]) auto
  consider c x d y where "m = obj_block h (c, x)" "n = obj_block h (d, y)" "(c, x) \<in> live {..<MEM_POOLS} F h"
      "(d, y) \<in> live {..<MEM_POOLS} F h"
    | c x p where "m = obj_block h (c, x)" "n = page_block h p" "(c, x) \<in> live {..<MEM_POOLS} F h" "p \<in> B"
    | c x p where "n = obj_block h (c, x)" "m = page_block h p" "(c, x) \<in> live {..<MEM_POOLS} F h" "p \<in> B"
    | p q where "m = page_block h p" "n = page_block h q" "p \<in> B" "q \<in> B"
    using assms(2,3) M by auto
  then show ?thesis
  proof cases
    case 1
    then show ?thesis using objs_disjoint [OF inv] assms(4) by metis
  next
    case 2
    then show ?thesis using obj_page_disjoint [OF inv] by simp
  next
    case 3
    then show ?thesis using obj_page_disjoint [OF inv] by (simp add: Int_commute)
  next
    case 4
    then show ?thesis using pp assms(4) by metis
  qed
qed

lemma block_size_pos: "mem_state T F B h M \<Longrightarrow> m \<in> M \<Longrightarrow> 0 < snd m"
proof -
  assume s: "mem_state T F B h M" "m \<in> M"
  have inv: "heap_inv {..<MEM_POOLS} T F B h" using s(1) by (simp add: mem_state_def)
  consider c x where "m = obj_block h (c, x)" "(c, x) \<in> live {..<MEM_POOLS} F h" | p where "m = page_block h p"
    using s by (auto simp: mem_state_def)
  then show ?thesis
  proof cases
    case 1
    then obtain a where "(c, a) \<in> pools_in {..<MEM_POOLS} F" using live_D [OF inv] by blast
    then have "c \<in> {..<MEM_POOLS}" using pools_in_D [OF inv] cache_of_head by blast
    then show ?thesis using cache_wf_in [OF inv, of c] 1(1) by (simp add: obj_block_def cache_wf_def)
  qed (simp add: page_block_def)
qed

text \<open>So a block is known by its address.\<close>

lemma block_addr_inj: "mem_state T F B h M \<Longrightarrow> (x, s) \<in> M \<Longrightarrow> (x, t) \<in> M \<Longrightarrow> s = t"
  using blocks_disjoint [of T F B h M "(x, s)" "(x, t)"] block_size_pos [of T F B h M "(x, s)"]
    block_size_pos [of T F B h M "(x, t)"] by (fastforce simp: bytes_of_def disjoint_iff)

section \<open>Changing the pages held outside the caches\<close>

lemma heap_zones:
  assumes inv: "heap_inv CS T F B h" and ai: "page_ainv T zs (B' \<union> pool_block h ` pools_in CS F)"
    and B': "B' \<inter> pool_block h ` pools_in CS F = {}" and sb: "same_bounds (hzones h) zs"
    and keep: "\<And>n i l j. ((n, i), l) \<in> pool_block h ` pools_in CS F \<Longrightarrow> j < 2 ^ l \<Longrightarrow>
      desc zs (n, i + j) = desc (hzones h) (n, i + j)"
  shows "heap_inv CS T F B' (h\<lparr>hzones := zs\<rparr>)" and "live CS F (h\<lparr>hzones := zs\<rparr>) = live CS F h"
proof -
  let ?h = "h\<lparr>hzones := zs\<rparr>"
  have at: "pool_at ?h a = pool_at h a" for a by (simp add: pool_at_def)
  have pb: "pool_block ?h ca = pool_block h ca" for ca by (simp add: pool_block_def at)
  have "pools_ok CS F ?h"
    unfolding pools_ok_def
  proof (intro ballI)
    fix b x assume b: "b \<in> cache_heads CS" "x \<in> set (F b)"
    then obtain e q where e: "x = PoolLL e" "pool_ok h (cache_of b) e q" "fits b (hcaches h (cache_of b)) q"
      using inv unfolding heap_inv_def pools_ok_def by blast
    have pin: "(cache_of b, e) \<in> pools_in CS F" using b e(1) by (auto simp: pools_in_def)
    have qe: "pool_at h e = q" using pool_okD(1) [OF e(2)] by (simp add: pool_at_def)
    have blkq: "((fst (pl_page q), snd (pl_page q)), pool_order (hcaches h (cache_of b))) \<in> pool_block h ` pools_in CS F"
      using pin qe by (force simp: pool_block_def)
    have ai0: "page_ainv T (hzones h) (B \<union> pool_block h ` pools_in CS F)" using inv by (simp add: heap_inv_def)
    have "fst (pl_page q) < length (hzones h)"
      using held_ptr_zone(1) [OF ai0 UnI2 [OF blkq], of 0] by simp
    then have "ptr_addr zs (pl_page q) = ptr_addr (hzones h) (pl_page q)" using ptr_addr_bounds [OF sb] by blast
    then have "pool_ok ?h (cache_of b) e q"
      using pool_okD [OF e(2)] keep [OF blkq] by (intro pool_okI) simp_all
    then show "\<exists>a pl. x = PoolLL a \<and> pool_ok ?h (cache_of b) a pl \<and> fits b (hcaches ?h (cache_of b)) pl"
      using e by auto
  qed
  moreover have "pool_block ?h ` pools_in CS F = pool_block h ` pools_in CS F" using pb by simp
  ultimately show "heap_inv CS T F B' ?h"
    using inv ai B' zones_low_bounds [OF sb] by (simp add: heap_inv_def)
  show "live CS F ?h = live CS F h" by (simp add: live_def pool_live_def at)
qed

text \<open>Freeing by address is freeing by descriptor.\<close>

lemma page_free_ptr:
  assumes "page_ainv T zs H" "((n, i), k) \<in> H"
  shows "page_free (ptr_addr zs (n, i)) k zs = page_free_desc (Some (n, i)) k zs"
proof -
  obtain G where G: "zones_inv zs G" using assms(1) by (auto simp: page_ainv_def)
  have hz: "n < length zs" "zbegin (zs ! n) + i < zend (zs ! n)" "zbegin (zs ! n) + i \<noteq> 0"
    using held_ptr_zone [OF assms, of 0] by auto
  then have zf: "zone_find (zbegin (zs ! n) + i) zs = Some n"
    using zone_find_unique [OF G] by (simp add: in_zone_at_def)
  have a: "ptr_addr zs (n, i) = (zbegin (zs ! n) + i) * 4096" by (simp add: ptr_addr_def)
  have "i < zend (zs ! n) - zbegin (zs ! n)" using hz(2) by linarith
  then show ?thesis
    using hz zf unfolding page_free_def page_free_desc_def Let_def a drop_shift
    by (auto simp: page_zone_def)
qed

lemma obj_block_cong: "hcaches h' = hcaches h \<Longrightarrow> obj_block h' = obj_block h"
  by (simp add: obj_block_def fun_eq_iff)

lemma page_block_bounds:
  assumes "heap_inv CS T F B h" "same_bounds (hzones h) (hzones h')" "pk \<in> B"
  shows "page_block h' pk = page_block h pk"
proof -
  obtain n i k where e: "pk = ((n, i), k)" by (metis prod.collapse)
  have ai0: "page_ainv T (hzones h) (B \<union> pool_block h ` pools_in CS F)" using assms(1) by (simp add: heap_inv_def)
  have "n < length (hzones h)" using held_ptr_zone(1) [OF ai0, of n i k 0] assms(3) e by simp
  then show ?thesis using ptr_addr_bounds [OF assms(2), of "(n, i)"] e by (simp add: page_block_def)
qed

lemma fst_notin_blocks:
  assumes "mem_state T F B h M" "m \<in> M" "\<forall>m'\<in>N. bytes_of m \<inter> bytes_of m' = {}" "\<forall>m'\<in>N. 0 < snd m'"
  shows "fst m \<notin> fst ` N"
proof
  assume "fst m \<in> fst ` N"
  then obtain m' where m': "m' \<in> N" "fst m' = fst m" by auto
  have "0 < snd m" using block_size_pos [OF assms(1,2)] .
  moreover have "0 < snd m'" using assms(4) m'(1) by simp
  ultimately have "fst m \<in> bytes_of m \<inter> bytes_of m'" using m'(2) by (simp add: bytes_of_def)
  then show False using assms(3) m'(1) by blast
qed

lemma big_ok_keep:
  assumes "big_ok h B" "B' \<subseteq> B" "\<And>p k. (p, k) \<in> B' \<Longrightarrow> desc (hzones h') p = desc (hzones h) p"
  shows "big_ok h' B'"
  unfolding big_ok_def
proof (intro ballI)
  fix pk assume pk: "pk \<in> B'"
  obtain p k where e: "pk = (p, k)" by (rule prod.exhaust)
  then show "case pk of (p, k) \<Rightarrow> \<not> page_test_bit (desc (hzones h') p) PAGE_CACHE_BIT \<and> pu (desc (hzones h') p) = UOrder k"
    using assms(1,2) assms(3) [of p k] pk by (auto simp: big_ok_def)
qed

section \<open>The operations\<close>

lemma caches_ready_size:
  assumes "caches_ready h" "c < MEM_POOLS"
  shows "mem_pool_size ! c \<le> obj_size (hcaches h c)"
proof -
  have l: "mem_cache_layout_setup (mem_pool_size ! c) 64 = Inr (hcaches h c)" using assms by (simp add: caches_ready_def)
  have "mem_pool_size ! c \<in> set mem_pool_size" using assms(2) by (simp add: MEM_POOLS_def)
  then have "0 < mem_pool_size ! c" by (auto simp: mem_pool_size_def)
  from layout_spec(3) [OF l this] show ?thesis using align_up_spec(1) [of 64 "mem_pool_size ! c"] by simp
qed

lemma mem_alloc_spec:
  assumes "mem_inv T h M"
  shows "\<exists>r h'. mem_alloc sz h = Inr (r, h') \<and> hbytes h' = hbytes h \<and> hcaches h' = hcaches h \<and>
    (case r of None \<Rightarrow> h' = h
     | Some x \<Rightarrow> (\<exists>s\<ge>sz. x \<notin> fst ` M \<and> mem_inv T h' (insert (x, s) M)))"
proof -
  let ?CS = "{..<MEM_POOLS}"
  obtain F B where st: "mem_state T F B h M" using assms by (auto simp: mem_inv_def)
  then have inv: "heap_inv ?CS T F B h" and rd: "caches_ready h" and bg: "big_ok h B"
    and M: "M = obj_block h ` live ?CS F h \<union> page_block h ` B" by (auto simp: mem_state_def)
  show ?thesis
  proof (cases "mem_pool_lookup sz")
    case (Some c)
    note lk = mem_pool_lookup_spec(1) [OF Some]
    obtain r h' F' where r: "mem_cache_alloc c h = Inr (r, h')" "heap_inv ?CS T F' B h'" "hcaches h' = hcaches h"
      "hbytes h' = hbytes h" "same_bounds (hzones h) (hzones h')"
      "\<forall>n i l j. ((n, i), l) \<in> B \<longrightarrow> j < 2 ^ l \<longrightarrow> desc (hzones h') (n, i + j) = desc (hzones h) (n, i + j)"
      "case r of None \<Rightarrow> h' = h \<and> F' = F
       | Some x \<Rightarrow> (c, x) \<notin> live ?CS F h \<and> live ?CS F' h' = insert (c, x) (live ?CS F h)"
      using mem_cache_alloc_spec [OF inv, of c] lk by blast
    show ?thesis
    proof (cases r)
      case None
      then show ?thesis using r Some by (simp add: mem_alloc_def)
    next
      case (Some x)
      let ?s = "obj_size (hcaches h c)"
      have pb: "page_block h' ` B = page_block h ` B" using page_block_bounds [OF inv r(5)] by simp
      have "desc (hzones h') p = desc (hzones h) p" if "(p, k) \<in> B" for p k
        using r(6) [rule_format, of "fst p" "snd p" k 0] that by simp
      then have bg': "big_ok h' B" using big_ok_keep [OF bg subset_refl] by blast
      have st': "mem_state T F' B h' (insert (x, ?s) M)"
        unfolding mem_state_def
      proof (intro conjI)
        show "insert (x, ?s) M = obj_block h' ` live ?CS F' h' \<union> page_block h' ` B"
          using r(7) Some unfolding M pb obj_block_cong [OF r(3)] by (simp add: obj_block_def)
        show "caches_ready h'" using rd r(3) by (simp add: caches_ready_def)
      qed (fact r(2) bg')+
      have new: "\<forall>m\<in>M. bytes_of (x, ?s) \<inter> bytes_of m = {}"
      proof
        fix m assume m: "m \<in> M"
        consider d y where "m = obj_block h (d, y)" "(d, y) \<in> live ?CS F h" | p where "m = page_block h p" "p \<in> B"
          using m M by auto
        then show "bytes_of (x, ?s) \<inter> bytes_of m = {}"
        proof cases
          case 1
          then show ?thesis
            using objs_disjoint [OF r(2), of c x d y] r(7) Some obj_block_cong [OF r(3)] by (auto simp: obj_block_def)
        next
          case 2
          then show ?thesis
            using obj_page_disjoint [OF r(2), of c x p] r(7) Some obj_block_cong [OF r(3)]
              page_block_bounds [OF inv r(5)] by (auto simp: obj_block_def)
        qed
      qed
      have "x \<notin> fst ` M"
        using fst_notin_blocks [OF st' insertI1 new] block_size_pos [OF st] by simp
      moreover have "sz \<le> ?s" using lk caches_ready_size [OF rd, of c] by linarith
      ultimately show ?thesis
        using r(1,3,4) Some \<open>mem_pool_lookup sz = Some c\<close> st'
        by (intro exI [of _ r] exI [of _ h']) (auto simp: mem_alloc_def mem_inv_def)
    qed
  next
    case None
    define k where "k = mem_order_calculate sz"
    let ?H = "B \<union> pool_block h ` pools_in ?CS F"
    have ai: "page_ainv T (hzones h) ?H" using inv by (simp add: heap_inv_def)
    obtain r zs1 where r: "page_alloc_desc k (hzones h) = Inr (r, zs1)" "descs_kept (hzones h) zs1 ?H"
      "case r of None \<Rightarrow> zs1 = hzones h | Some q \<Rightarrow> k \<le> MAX_ORDER \<and> (q, k) \<notin> ?H \<and> page_ainv T zs1 (insert (q, k) ?H)"
      using client_alloc [OF ai, of k] by blast
    show ?thesis
    proof (cases r)
      case None
      then show ?thesis using r \<open>mem_pool_lookup sz = None\<close> by (simp add: mem_alloc_def k_def)
    next
      case (Some p)
      obtain n i where p: "p = (n, i)" by force
      have q: "((n, i), k) \<notin> ?H" "page_ainv T zs1 (insert ((n, i), k) ?H)" "k \<le> MAX_ORDER" using r(3) Some p by auto
      let ?f = "\<lambda>pg. (page_clear_bit pg PAGE_CACHE_BIT)\<lparr>pu := UOrder k\<rparr>"
      have "(0::nat) < 2 ^ k" by simp
      from upd_page_held [OF q(2) insertI1 this, of ?f] obtain zs2 where u:
        "upd_page ?f (n, i) zs1 = Inr zs2" "page_ainv T zs2 (insert ((n, i), k) ?H)" "same_bounds zs1 zs2"
        "\<forall>q. desc zs2 q = (if q = (n, i) then ?f (desc zs1 q) else desc zs1 q)" by auto
      have sb: "same_bounds (hzones h) zs2" using same_bounds_trans [OF descs_kept_bounds [OF r(2)] u(3)] .
      have ad: "page_addr (n, i) zs2 = Inr (ptr_addr zs2 (n, i))" by (rule page_addr_held [OF u(2) insertI1])
      have keep: "desc zs2 (m, i' + j) = desc (hzones h) (m, i' + j)" if h: "((m, i'), l) \<in> ?H" "j < 2 ^ l" for m i' l j
      proof -
        have "(m, i' + j) \<noteq> (n, i)"
        proof
          assume e: "(m, i' + j) = (n, i)"
          then have "((n, i'), l) \<noteq> ((n, i), k)" using h(1) q(1) by auto
          then have "i' + j \<noteq> i + 0"
            using held_pages_apart [OF q(2), of n i' l i k j 0] h e by auto
          then show False using e by simp
        qed
        then show ?thesis using u(4) descs_kept_desc [OF r(2) h] by auto
      qed
      let ?B = "insert ((n, i), k) B" and ?h = "h\<lparr>hzones := zs2\<rparr>"
      have a1: "page_ainv T zs2 (?B \<union> pool_block h ` pools_in ?CS F)" using u(2) by simp
      have a2: "?B \<inter> pool_block h ` pools_in ?CS F = {}" using q(1) inv by (auto simp: heap_inv_def)
      have kp: "\<And>n i l j. ((n, i), l) \<in> pool_block h ` pools_in ?CS F \<Longrightarrow> j < 2 ^ l \<Longrightarrow>
          desc zs2 (n, i + j) = desc (hzones h) (n, i + j)" using keep by blast
      have hz1: "heap_inv ?CS T F ?B ?h" using inv a1 a2 sb kp by (rule heap_zones(1))
      have hz2: "live ?CS F ?h = live ?CS F h" using inv a1 a2 sb kp by (rule heap_zones(2))
      note hz = hz1 hz2
      have "desc zs2 p' = desc (hzones h) p'" if "(p', l) \<in> B" for p' l
        using keep [of "fst p'" "snd p'" l 0] that by simp
      then have "big_ok ?h B" using big_ok_keep [OF bg subset_refl, of ?h] by simp
      then have bg': "big_ok ?h ?B" using u(4) by (auto simp: big_ok_def)
      let ?x = "va (ptr_addr zs2 (n, i))" and ?s = "2 ^ (k + PAGE_SHIFT) :: nat"
      have pb: "page_block ?h ` B = page_block h ` B" using page_block_bounds [OF inv, of ?h] sb by simp
      have nb: "page_block ?h ((n, i), k) = (?x, ?s)" by (simp add: page_block_def)
      have st': "mem_state T F ?B ?h (insert (?x, ?s) M)"
        unfolding mem_state_def
      proof (intro conjI)
        show "insert (?x, ?s) M = obj_block ?h ` live ?CS F ?h \<union> page_block ?h ` ?B"
          using obj_block_cong [of ?h h] hz(2) pb nb M by simp
        show "caches_ready ?h" using rd by (simp add: caches_ready_def)
      qed (fact hz(1) bg')+
      have new: "\<forall>m\<in>M. bytes_of (?x, ?s) \<inter> bytes_of m = {}"
      proof
        fix m assume m: "m \<in> M"
        consider d y where "m = obj_block h (d, y)" "(d, y) \<in> live ?CS F h" | p where "m = page_block h p" "p \<in> B"
          using m M by auto
        then show "bytes_of (?x, ?s) \<inter> bytes_of m = {}"
        proof cases
          case 1
          then have "bytes_of (obj_block ?h (d, y)) \<inter> bytes_of (page_block ?h ((n, i), k)) = {}"
            using hz by (intro obj_page_disjoint) auto
          then show ?thesis unfolding nb using 1(1) obj_block_cong [of ?h h] by (simp add: Int_commute)
        next
          case 2
          have "p \<noteq> ((n, i), k)" using 2(2) q(1) by auto
          then have "bytes_of (page_block ?h ((n, i), k)) \<inter> bytes_of (page_block ?h p) = {}"
            unfolding page_block_bytes using 2(2) by (intro block_bytes_disjoint [OF hz(1)]) auto
          then show ?thesis unfolding nb using 2 page_block_bounds [OF inv, of ?h p] sb by simp
        qed
      qed
      have "?x \<notin> fst ` M" using fst_notin_blocks [OF st' insertI1 new] block_size_pos [OF st] by simp
      moreover have "sz \<le> ?s" using mem_order_calculate_spec(1) [of sz] q(3) by (simp add: k_def)
      moreover have "mem_alloc sz h = Inr (Some ?x, ?h)"
        using \<open>mem_pool_lookup sz = None\<close> r(1) Some p u(1) ad by (simp add: mem_alloc_def k_def [symmetric])
      ultimately show ?thesis using st'
        by (intro exI [of _ "Some ?x"] exI [of _ ?h]) (auto simp: mem_inv_def)
    qed
  qed
qed

text \<open>
  What \<open>mem_free\<close> and \<open>mem_realloc\<close> find at the page of an address they are given: the cache of an
  object, or the order of a block of pages.
\<close>

lemma obj_page_found:
  assumes inv: "heap_inv CS T F B h" and x: "(c, x) \<in> live CS F h"
  shows "\<exists>p d. addr_page (align_down (pa x) 4096) (hzones h) = Inr p \<and> rd_page p (hzones h) = Inr d
    \<and> page_test_bit d PAGE_CACHE_BIT \<and> pu d = UCache (Some c)"
proof -
  obtain a q where a: "(c, a) \<in> pools_in CS F" "(c, x) \<in> pool_live h (c, a)" using live_D [OF inv x] by blast
  have ok: "pool_ok h c a (pool_at h a)" using pools_in_D [OF inv a(1)] by blast
  let ?zs = "hzones h" and ?k = "pool_order (hcaches h c)"
  obtain n i where ni: "pl_page (pool_at h a) = (n, i)" by force
  have ai: "page_ainv T ?zs (B \<union> pool_block h ` pools_in CS F)" using inv by (simp add: heap_inv_def)
  have mem: "((n, i), ?k) \<in> B \<union> pool_block h ` pools_in CS F" using a(1) ni by (force simp: pool_block_def)
  let ?y = "pa x" and ?b = "ptr_addr ?zs (n, i)"
  have y: "?b \<le> ?y" "?y < ?b + 2 ^ ?k * 4096"
    using pool_live_bytes(2) [OF inv a] ni by (simp_all add: ptr_bytes_def pool_block_def pa_def power_add)
  define j where "j = (?y - ?b) div 4096"
  have e: "?y - ?b = j * 4096 + (?y - ?b) mod 4096" "(?y - ?b) mod 4096 < 4096" by (simp_all add: j_def)
  have j: "j < 2 ^ ?k" unfolding j_def using y by (simp add: div_less_iff_less_mult)
  have pj: "ptr_addr ?zs (n, i + j) = ?b + j * 4096" by (simp add: ptr_addr_def algebra_simps)
  have "align_down ?y 4096 = ptr_addr ?zs (n, i + j)"
  proof (rule align_down_unique)
    show "4096 dvd ptr_addr ?zs (n, i + j)" by (simp add: ptr_addr_def)
    show "ptr_addr ?zs (n, i + j) \<le> ?y" "?y < ptr_addr ?zs (n, i + j) + 4096" unfolding pj using e y(1) by linarith+
  qed
  then have "addr_page (align_down ?y 4096) ?zs = Inr (n, i + j)" using addr_page_held [OF ai mem j] by simp
  then show ?thesis using rd_page_held [OF ai mem j] pool_okD(5) [OF ok j] ni by auto
qed

lemma big_page_found:
  assumes inv: "heap_inv CS T F B h" and b: "((n, i), k) \<in> B" and big: "big_ok h B"
    and x: "x = va (ptr_addr (hzones h) (n, i))"
  shows "addr_page (align_down (pa x) 4096) (hzones h) = Inr (n, i)"
    "rd_page (n, i) (hzones h) = Inr (desc (hzones h) (n, i))"
    "\<not> page_test_bit (desc (hzones h) (n, i)) PAGE_CACHE_BIT" "pu (desc (hzones h) (n, i)) = UOrder k"
    "align_down (pa x) (2 ^ (k + PAGE_SHIFT)) = ptr_addr (hzones h) (n, i)"
proof -
  let ?zs = "hzones h"
  have ai: "page_ainv T ?zs (B \<union> pool_block h ` pools_in CS F)" using inv by (simp add: heap_inv_def)
  have mem: "((n, i), k) \<in> B \<union> pool_block h ` pools_in CS F" using b by blast
  have y: "pa x = ptr_addr ?zs (n, i)" by (simp add: x pa_def va_def)
  have "align_down (pa x) 4096 = ptr_addr ?zs (n, i)"
    unfolding y by (rule align_down_unique) (simp_all add: ptr_addr_def)
  then show "addr_page (align_down (pa x) 4096) ?zs = Inr (n, i)" using addr_page_held [OF ai mem, of 0] by simp
  show "rd_page (n, i) ?zs = Inr (desc ?zs (n, i))" using rd_page_held [OF ai mem, of 0] by simp
  show "\<not> page_test_bit (desc ?zs (n, i)) PAGE_CACHE_BIT" "pu (desc ?zs (n, i)) = UOrder k"
    using big b by (auto simp: big_ok_def)
  have "2 ^ k dvd zbegin (?zs ! n) + i" using held_ptr_zone(4) [OF ai mem, of 0] by simp
  then have "2 ^ k * 2 ^ 12 dvd (zbegin (?zs ! n) + i) * 2 ^ 12" by (rule mult_dvd_mono) simp
  then show "align_down (pa x) (2 ^ (k + PAGE_SHIFT)) = ptr_addr ?zs (n, i)"
    unfolding y by (intro align_down_unique) (simp_all add: ptr_addr_def power_add PAGE_SHIFT_def)
qed

lemma mem_block_cases:
  assumes "mem_state T F B h M" "(x, s) \<in> M"
  obtains (obj) c where "(c, x) \<in> live {..<MEM_POOLS} F h" "s = obj_size (hcaches h c)"
  | (big) n i k where "((n, i), k) \<in> B" "x = va (ptr_addr (hzones h) (n, i))" "s = 2 ^ (k + PAGE_SHIFT)"
  using assms by (auto simp: mem_state_def obj_block_def page_block_def)

lemma mem_free_spec:
  assumes "mem_inv T h M" "(x, s) \<in> M"
  shows "\<exists>h'. mem_free (Some x) h = Inr h' \<and> mem_inv T h' (M - {(x, s)}) \<and> hbytes h' = hbytes h \<and> hcaches h' = hcaches h"
proof -
  let ?CS = "{..<MEM_POOLS}"
  obtain F B where st: "mem_state T F B h M" using assms(1) by (auto simp: mem_inv_def)
  then have inv: "heap_inv ?CS T F B h" and rd: "caches_ready h" and bg: "big_ok h B"
    and M: "M = obj_block h ` live ?CS F h \<union> page_block h ` B" by (auto simp: mem_state_def)
  from st assms(2) show ?thesis
  proof (cases rule: mem_block_cases)
    case (obj c)
    obtain p d where d: "addr_page (align_down (pa x) 4096) (hzones h) = Inr p" "rd_page p (hzones h) = Inr d"
      "page_test_bit d PAGE_CACHE_BIT" "pu d = UCache (Some c)" using obj_page_found [OF inv obj(1)] by blast
    obtain h' F' where r: "mem_cache_free c x h = Inr h'" "heap_inv ?CS T F' B h'" "hcaches h' = hcaches h"
      "hbytes h' = hbytes h" "hzones h' = hzones h" "live ?CS F' h' = live ?CS F h - {(c, x)}"
      using mem_cache_free_spec [OF inv obj(1)] by blast
    have xs: "obj_block h (c, x) = (x, s)" using obj(2) by (simp add: obj_block_def)
    have "obj_block h (e, y) \<noteq> (x, s)" if "(e, y) \<in> live ?CS F h" "(e, y) \<noteq> (c, x)" for e y
    proof
      assume "obj_block h (e, y) = (x, s)"
      then have "bytes_of (x, s) \<inter> bytes_of (x, s) = {}"
        using objs_disjoint [OF inv that(1) obj(1) that(2)] xs by metis
      then show False using block_size_pos [OF st assms(2)] by (auto simp: bytes_of_def)
    qed
    then have e1: "obj_block h ` (live ?CS F h - {(c, x)}) = obj_block h ` live ?CS F h - {(x, s)}"
      using xs by (intro image_remove) auto
    have "page_block h p \<noteq> (x, s)" if "p \<in> B" for p
    proof
      assume "page_block h p = (x, s)"
      then have "bytes_of (x, s) \<inter> bytes_of (x, s) = {}"
        using obj_page_disjoint [OF inv obj(1) that] xs by metis
      then show False using block_size_pos [OF st assms(2)] by (auto simp: bytes_of_def)
    qed
    then have "(x, s) \<notin> page_block h ` B" by (metis imageE)
    then have e2: "page_block h ` B - {(x, s)} = page_block h ` B" by simp
    have e3: "page_block h' = page_block h" using r(5) by (simp add: page_block_def fun_eq_iff)
    have "M - {(x, s)} = obj_block h' ` live ?CS F' h' \<union> page_block h' ` B"
      unfolding M r(6) obj_block_cong [OF r(3)] e1 e3 Un_Diff e2 ..
    then have "mem_inv T h' (M - {(x, s)})"
      using r rd bg unfolding mem_inv_def mem_state_def
      by (intro exI [of _ F'] exI [of _ B]) (simp add: caches_ready_def big_ok_def)
    then show ?thesis using d r(1,3,4) by (simp add: mem_free_def)
  next
    case (big n i k)
    note fd = big_page_found [OF inv big(1) bg big(2)]
    let ?H = "B \<union> pool_block h ` pools_in ?CS F"
    have ai: "page_ainv T (hzones h) ?H" using inv by (simp add: heap_inv_def)
    have mem: "((n, i), k) \<in> ?H" using big(1) by blast
    let ?f = "\<lambda>pg. (page_clear_bit pg PAGE_CACHE_BIT)\<lparr>pu := UOrder 0\<rparr>"
    have "(0::nat) < 2 ^ k" by simp
    from upd_page_held [OF ai mem this, of ?f] obtain zs1 where u:
      "upd_page ?f (n, i) (hzones h) = Inr zs1" "page_ainv T zs1 ?H" "same_bounds (hzones h) zs1"
      "\<forall>q. desc zs1 q = (if q = (n, i) then ?f (desc (hzones h) q) else desc (hzones h) q)" by auto
    obtain zs2 where v: "page_free_desc (Some (n, i)) k zs1 = Inr zs2" "descs_kept zs1 zs2 (?H - {((n, i), k)})"
      "page_ainv T zs2 (?H - {((n, i), k)})" using client_free [OF u(2) mem] by blast
    have "n < length (hzones h)" using held_ptr_zone(1) [OF ai mem, of 0] by simp
    then have "ptr_addr zs1 (n, i) = ptr_addr (hzones h) (n, i)" using ptr_addr_bounds [OF u(3)] by simp
    then have pf: "page_free (ptr_addr (hzones h) (n, i)) k zs1 = Inr zs2"
      using page_free_ptr [OF u(2) mem] v(1) by simp
    have sb: "same_bounds (hzones h) zs2" using same_bounds_trans [OF u(3) descs_kept_bounds [OF v(2)]] .
    have keep: "desc zs2 (m, i' + j) = desc (hzones h) (m, i' + j)"
      if h: "((m, i'), l) \<in> ?H - {((n, i), k)}" "j < 2 ^ l" for m i' l j
    proof -
      have "(m, i' + j) \<noteq> (n, i)"
      proof
        assume e: "(m, i' + j) = (n, i)"
        then have "i' + j \<noteq> i + 0" using held_pages_apart [OF ai, of n i' l i k j 0] mem h by auto
        then show False using e by simp
      qed
      then show ?thesis using u(4) descs_kept_desc [OF v(2) h] by auto
    qed
    let ?B = "B - {((n, i), k)}" and ?h = "h\<lparr>hzones := zs2\<rparr>"
    have out: "((n, i), k) \<notin> pool_block h ` pools_in ?CS F" using inv big(1) by (auto simp: heap_inv_def)
    then have Heq: "?H - {((n, i), k)} = ?B \<union> pool_block h ` pools_in ?CS F" by blast
    have a1: "page_ainv T zs2 (?B \<union> pool_block h ` pools_in ?CS F)" using v(3) unfolding Heq .
    have a2: "?B \<inter> pool_block h ` pools_in ?CS F = {}" using inv by (auto simp: heap_inv_def)
    have kp: "\<And>m i' l j. ((m, i'), l) \<in> pool_block h ` pools_in ?CS F \<Longrightarrow> j < 2 ^ l \<Longrightarrow>
        desc zs2 (m, i' + j) = desc (hzones h) (m, i' + j)" using keep unfolding Heq by blast
    have hz1: "heap_inv ?CS T F ?B ?h" using inv a1 a2 sb kp by (rule heap_zones(1))
    have hz2: "live ?CS F ?h = live ?CS F h" using inv a1 a2 sb kp by (rule heap_zones(2))
    have "desc zs2 p' = desc (hzones h) p'" if "(p', l) \<in> ?B" for p' l
      using keep [of "fst p'" "snd p'" l 0] that Heq by simp
    then have bg': "big_ok ?h ?B" using big_ok_keep [OF bg, of ?B ?h] by simp
    have xs: "page_block h ((n, i), k) = (x, s)" using big(2,3) by (simp add: page_block_def)
    have no: "obj_block h (c, y) \<noteq> (x, s)" if "(c, y) \<in> live ?CS F h" for c y
    proof
      assume "obj_block h (c, y) = (x, s)"
      then have "bytes_of (x, s) \<inter> bytes_of (x, s) = {}"
        using obj_page_disjoint [OF inv that big(1)] xs by metis
      then show False using block_size_pos [OF st assms(2)] by (auto simp: bytes_of_def)
    qed
    have np: "page_block h q \<noteq> (x, s)" if "q \<in> ?B" for q
    proof
      assume "page_block h q = (x, s)"
      moreover have "bytes_of (page_block h q) \<inter> bytes_of (page_block h ((n, i), k)) = {}"
        unfolding page_block_bytes using that big(1) by (intro block_bytes_disjoint [OF inv]) auto
      ultimately have "bytes_of (x, s) \<inter> bytes_of (x, s) = {}" using xs by metis
      then show False using block_size_pos [OF st assms(2)] by (auto simp: bytes_of_def)
    qed
    have no': "(x, s) \<notin> obj_block h ` live ?CS F h" using no by (metis imageE prod.collapse)
    have np': "(x, s) \<notin> page_block h ` ?B" using np by (metis imageE)
    have "page_block ?h ` ?B = page_block h ` ?B" using page_block_bounds [OF inv, of ?h] sb by simp
    moreover have "B = insert ((n, i), k) ?B" using big(1) by auto
    then have "page_block h ` B = insert (x, s) (page_block h ` ?B)" using xs by (metis image_insert)
    ultimately have "M - {(x, s)} = obj_block ?h ` live ?CS F ?h \<union> page_block ?h ` ?B"
      unfolding M hz2 obj_block_cong [of ?h h, simplified] using no' np' by auto
    then have "mem_inv T ?h (M - {(x, s)})"
      using hz1 rd bg' unfolding mem_inv_def mem_state_def
      by (intro exI [of _ F] exI [of _ ?B]) (simp add: caches_ready_def)
    moreover have "mem_free (Some x) h = Inr ?h"
      using fd pf u(1) by (simp add: mem_free_def)
    ultimately show ?thesis by auto
  qed
qed

lemma mem_realloc_spec:
  assumes "mem_inv T h M" "(x, s) \<in> M"
  shows "\<exists>r h'. mem_realloc (Some x) sz h = Inr (r, h') \<and>
    (case r of None \<Rightarrow> h' = h
     | Some y \<Rightarrow> if sz \<le> s then y = x \<and> h' = h
         else (\<exists>t\<ge>sz. y \<notin> fst ` M \<and> mem_inv T h' (insert (y, t) (M - {(x, s)})) \<and>
           (\<forall>i < s. hbytes h' (y + i) = hbytes h (x + i)) \<and>
           (\<forall>m\<in>M. m \<noteq> (x, s) \<longrightarrow> (\<forall>a\<in>bytes_of m. hbytes h' a = hbytes h a))))"
proof -
  let ?CS = "{..<MEM_POOLS}"
  obtain F B where st: "mem_state T F B h M" using assms(1) by (auto simp: mem_inv_def)
  then have inv: "heap_inv ?CS T F B h" and bg: "big_ok h B" by (auto simp: mem_state_def)
  have old: "\<exists>p d. addr_page (align_down (pa x) 4096) (hzones h) = Inr p \<and> rd_page p (hzones h) = Inr d \<and>
      (if page_test_bit d PAGE_CACHE_BIT
       then (case pu d of UCache (Some c) \<Rightarrow> Inr (obj_size (hcaches h c)) | _ \<Rightarrow> Inl Fault)
       else (case pu d of UOrder order \<Rightarrow> Inr (2 ^ (PAGE_SHIFT + order)) | UCache _ \<Rightarrow> Inl Fault)) = Inr s"
    using st assms(2)
  proof (cases rule: mem_block_cases)
    case (obj c)
    then show ?thesis using obj_page_found [OF inv obj(1)] by force
  next
    case (big n i k)
    then show ?thesis using big_page_found [OF inv big(1) bg big(2)]
      by (intro exI [of _ "(n, i)"] exI [of _ "desc (hzones h) (n, i)"]) (simp add: add.commute)
  qed
  then obtain p d where d: "addr_page (align_down (pa x) 4096) (hzones h) = Inr p" "rd_page p (hzones h) = Inr d"
    "(if page_test_bit d PAGE_CACHE_BIT
       then (case pu d of UCache (Some c) \<Rightarrow> Inr (obj_size (hcaches h c)) | _ \<Rightarrow> Inl Fault)
       else (case pu d of UOrder order \<Rightarrow> Inr (2 ^ (PAGE_SHIFT + order)) | UCache _ \<Rightarrow> Inl Fault)) = Inr s" by blast
  note run = mem_realloc_def [of "Some x" sz h, unfolded option.case d(1) bindE_Inr d(2) d(3)]
  show ?thesis
  proof (cases "sz \<le> s")
    case True
    then show ?thesis unfolding run by auto
  next
    case False
    obtain r h1 where r: "mem_alloc sz h = Inr (r, h1)" "hbytes h1 = hbytes h"
      "case r of None \<Rightarrow> h1 = h | Some y \<Rightarrow> (\<exists>t\<ge>sz. y \<notin> fst ` M \<and> mem_inv T h1 (insert (y, t) M))"
      using mem_alloc_spec [OF assms(1), of sz] by blast
    show ?thesis
    proof (cases r)
      case None
      then show ?thesis unfolding run using r False by simp
    next
      case (Some y)
      then obtain t where t: "sz \<le> t" "y \<notin> fst ` M" "mem_inv T h1 (insert (y, t) M)" using r(3) by auto
      let ?h1 = "h1\<lparr>hbytes := memcpy y x s (hbytes h1)\<rparr>"
      obtain F1 B1 where st1: "mem_state T F1 B1 h1 (insert (y, t) M)" using t(3) by (auto simp: mem_inv_def)
      have cong: "heap_inv CS T F B (h\<lparr>hbytes := m\<rparr>) = heap_inv CS T F B h" "live CS F (h\<lparr>hbytes := m\<rparr>) = live CS F h"
        "obj_block (h\<lparr>hbytes := m\<rparr>) = obj_block h" "page_block (h\<lparr>hbytes := m\<rparr>) = page_block h"
        "big_ok (h\<lparr>hbytes := m\<rparr>) = big_ok h" "caches_ready (h\<lparr>hbytes := m\<rparr>) = caches_ready h" for CS T F B h m
        by (simp_all add: heap_inv_def live_def pool_live_def pool_block_def pool_at_def pools_ok_def pool_ok_def
            obj_block_def page_block_def big_ok_def caches_ready_def fun_eq_iff)
      have mi: "mem_inv T ?h1 (insert (y, t) M)"
        unfolding mem_inv_def mem_state_def cong using st1 unfolding mem_state_def by blast
      have ne: "(y, t) \<noteq> (x, s)" using t(2) assms(2) by force
      obtain h' where f: "mem_free (Some x) ?h1 = Inr h'" "mem_inv T h' (insert (y, t) M - {(x, s)})"
        "hbytes h' = hbytes ?h1" using mem_free_spec [OF mi, of x s] assms(2) by auto
      have dj: "bytes_of (y, t) \<inter> bytes_of m = {}" if "m \<in> M" for m
        using blocks_disjoint [OF st1, of "(y, t)" m] that t(2) by force
      have sub: "{y..<y + s} \<subseteq> bytes_of (y, t)" using False t(1) by (auto simp: bytes_of_def)
      then have "{y..<y + s} \<inter> {x..<x + s} = {}" using dj [OF assms(2)] by (auto simp: bytes_of_def)
      note mc = memcpy_spec [OF this, of "hbytes h"]
      have "\<forall>i < s. hbytes h' (y + i) = hbytes h (x + i)" using f(3) r(2) mc by simp
      moreover have "hbytes h' a = hbytes h a" if "m \<in> M" "a \<in> bytes_of m" for m a
        using dj [OF that(1)] that(2) sub f(3) r(2) mc by (auto simp: disjoint_iff)
      moreover have "mem_inv T h' (insert (y, t) (M - {(x, s)}))"
      proof -
        have "insert (y, t) M - {(x, s)} = insert (y, t) (M - {(x, s)})" using ne by auto
        then show ?thesis using f(2) by simp
      qed
      moreover have "mem_realloc (Some x) sz h = Inr (Some y, h')"
        unfolding run using False r(1) Some f(1) by simp
      ultimately show ?thesis using False t(1,2) by (intro exI [of _ "Some y"] exI [of _ h']) auto
    qed
  qed
qed

section \<open>The contract of the allocators\<close>

definition cache_request :: "nat \<Rightarrow> unit \<Rightarrow> heap \<Rightarrow> ((nat \<times> nat) option \<times> heap) res" where
  "cache_request c _ h = bindE (mem_cache_alloc c h) (\<lambda>(r, h). Inr (map_option (\<lambda>x. (c, x)) r, h))"

definition cache_return :: "nat \<times> nat \<Rightarrow> heap \<Rightarrow> heap res" where
  "cache_return cx h = mem_cache_free (fst cx) (snd cx) h"

definition cache_ainv :: "nat set \<Rightarrow> nat set \<Rightarrow> (page_ptr \<times> nat) set \<Rightarrow> heap \<Rightarrow> (nat \<times> nat) set \<Rightarrow> bool" where
  "cache_ainv CS T B h H \<longleftrightarrow> (\<exists>F. heap_inv CS T F B h \<and> H = live CS F h)"

lemma cache_allocator: "c \<in> CS \<Longrightarrow> allocator (cache_ainv CS T B) (cache_request c) cache_return"
proof unfold_locales
  fix h H q assume c: "c \<in> CS" and "cache_ainv CS T B h H"
  then obtain F where F: "heap_inv CS T F B h" "H = live CS F h" by (auto simp: cache_ainv_def)
  from mem_cache_alloc_spec [OF F(1) c] F
  show "\<exists>r h'. cache_request c q h = Inr (r, h') \<and>
      (case r of None \<Rightarrow> cache_ainv CS T B h' H | Some x \<Rightarrow> x \<notin> H \<and> cache_ainv CS T B h' (insert x H))"
    by (fastforce simp: cache_request_def cache_ainv_def split: option.splits)
next
  fix h H x assume "cache_ainv CS T B h H" "x \<in> H"
  then show "\<exists>h'. cache_return x h = Inr h' \<and> cache_ainv CS T B h' (H - {x})"
    using mem_cache_free_spec [of CS T _ B h "fst x" "snd x"] by (fastforce simp: cache_ainv_def cache_return_def)
qed

definition mem_ainv :: "nat set \<Rightarrow> heap \<Rightarrow> nat set \<Rightarrow> bool" where
  "mem_ainv T h H \<longleftrightarrow> (\<exists>M. mem_inv T h M \<and> H = fst ` M)"

definition mem_return :: "nat \<Rightarrow> heap \<Rightarrow> heap res" where
  "mem_return x h = mem_free (Some x) h"

interpretation mem: allocator "mem_ainv T" mem_alloc mem_return for T
proof unfold_locales
  fix h H q assume "mem_ainv T h H"
  then obtain M where M: "mem_inv T h M" "H = fst ` M" by (auto simp: mem_ainv_def)
  from mem_alloc_spec [OF M(1), of q] obtain r h' where r: "mem_alloc q h = Inr (r, h')"
    "case r of None \<Rightarrow> h' = h | Some x \<Rightarrow> (\<exists>s\<ge>q. x \<notin> fst ` M \<and> mem_inv T h' (insert (x, s) M))" by blast
  have "case r of None \<Rightarrow> mem_ainv T h' H | Some x \<Rightarrow> x \<notin> H \<and> mem_ainv T h' (insert x H)"
  proof (cases r)
    case None
    then show ?thesis using r(2) M by (auto simp: mem_ainv_def)
  next
    case (Some x)
    then obtain s where "x \<notin> fst ` M" "mem_inv T h' (insert (x, s) M)" using r(2) by auto
    moreover have "insert x H = fst ` insert (x, s) M" using M(2) by simp
    ultimately show ?thesis using Some M(2) unfolding mem_ainv_def by auto
  qed
  then show "\<exists>r h'. mem_alloc q h = Inr (r, h') \<and>
      (case r of None \<Rightarrow> mem_ainv T h' H | Some x \<Rightarrow> x \<notin> H \<and> mem_ainv T h' (insert x H))" using r(1) by blast
next
  fix h H x assume "mem_ainv T h H" "x \<in> H"
  then obtain M s where M: "mem_inv T h M" "H = fst ` M" "(x, s) \<in> M" by (auto simp: mem_ainv_def)
  obtain h' where r: "mem_free (Some x) h = Inr h'" "mem_inv T h' (M - {(x, s)})"
    using mem_free_spec [OF M(1,3)] by blast
  obtain F B where st: "mem_state T F B h M" using M(1) by (auto simp: mem_inv_def)
  have "fst ` (M - {(x, s)}) = fst ` M - {x}"
    using block_addr_inj [OF st _ M(3)] by (intro image_remove) auto
  then show "\<exists>h'. mem_return x h = Inr h' \<and> mem_ainv T h' (H - {x})"
    using r M(2) by (auto simp: mem_return_def mem_ainv_def)
qed

end
