(* ===== verification/Slab_Props.thy ===== *)
theory Slab_Props
  imports Slab_Heap
begin

unbundle bit_operations_syntax

text \<open>
  Setting the heap up, and the properties of the slab caches and of the general allocator.
\<close>

section \<open>Setting up\<close>

lemma mem_cache_setup_spec:
  assumes l: "mem_cache_layout_setup sz al = Inr ca" and c: "c \<notin> CS"
    and rep: "lists_rep (hlinks h) (cache_heads CS) (\<lambda>_. [])" and dom: "cache_heads (insert c CS) \<subseteq> dom (hlinks h)"
  shows "\<exists>l. mem_cache_setup c sz al h = Inr (h\<lparr>hcaches := (hcaches h)(c := ca), hlinks := l\<rparr>)
    \<and> lists_rep l (cache_heads (insert c CS)) (\<lambda>_. []) \<and> dom l = dom (hlinks h)"
proof -
  have d: "FreePools c \<in> dom (hlinks h)" "PartialPools c \<in> dom (hlinks h)" "BusyPools c \<in> dom (hlinks h)"
    using dom by (auto simp: cache_heads_def)
  have same: "(\<lambda>_. [])(b := []) = (\<lambda>_. [])" for b :: snode by (simp add: fun_eq_iff)
  obtain l1 where 1: "list_init (FreePools c) (hlinks h) = Inr l1"
    "lists_rep l1 (insert (FreePools c) (cache_heads CS)) (\<lambda>_. [])" "dom l1 = dom (hlinks h)"
    using lists_rep_init [OF rep d(1)] c by (auto simp: same cache_heads_def)
  obtain l2 where 2: "list_init (PartialPools c) l1 = Inr l2"
    "lists_rep l2 (insert (PartialPools c) (insert (FreePools c) (cache_heads CS))) (\<lambda>_. [])" "dom l2 = dom l1"
    using lists_rep_init [OF 1(2), of "PartialPools c"] d 1(3) c by (auto simp: same cache_heads_def)
  obtain l3 where 3: "list_init (BusyPools c) l2 = Inr l3"
    "lists_rep l3 (insert (BusyPools c) (insert (PartialPools c) (insert (FreePools c) (cache_heads CS)))) (\<lambda>_. [])"
    "dom l3 = dom l2"
    using lists_rep_init [OF 2(2), of "BusyPools c"] d 1(3) 2(3) c by (auto simp: same cache_heads_def)
  have "insert (BusyPools c) (insert (PartialPools c) (insert (FreePools c) (cache_heads CS))) = cache_heads (insert c CS)"
    by (auto simp: cache_heads_def)
  then show ?thesis using l 1 2 3 by (intro exI [of _ l3]) (simp add: mem_cache_setup_def with_links_def)
qed

lemma setup_caches_spec:
  assumes "\<forall>s\<in>set ss. 0 < s" "lists_rep (hlinks h) (cache_heads {..<i}) (\<lambda>_. [])"
    "cache_heads {..<i + length ss} \<subseteq> dom (hlinks h)"
  shows "\<exists>l f. setup_caches i ss h = Inr (h\<lparr>hcaches := f, hlinks := l\<rparr>)
    \<and> lists_rep l (cache_heads {..<i + length ss}) (\<lambda>_. [])
    \<and> (\<forall>c. i \<le> c \<longrightarrow> c < i + length ss \<longrightarrow> mem_cache_layout_setup (ss ! (c - i)) 64 = Inr (f c))
    \<and> (\<forall>c<i. f c = hcaches h c)"
  using assms
proof (induction ss arbitrary: i h)
  case Nil
  then show ?case by (intro exI [of _ "hlinks h"] exI [of _ "hcaches h"]) simp
next
  case (Cons s ss)
  have al: "mem_pool_size ! 0 = 64" by (simp add: mem_pool_size_def)
  obtain ca where ca: "mem_cache_layout_setup s 64 = Inr ca" using layout_total [of s 64] Cons.prems(1) by auto
  have lt: "{..<Suc i} = insert i {..<i}" by auto
  have "cache_heads (insert i {..<i}) \<subseteq> cache_heads {..<i + length (s # ss)}" by (auto simp: cache_heads_def)
  then have dm: "cache_heads (insert i {..<i}) \<subseteq> dom (hlinks h)" using Cons.prems(3) by (rule subset_trans)
  have "i \<notin> {..<i}" by simp
  from mem_cache_setup_spec [OF ca this Cons.prems(2) dm] obtain l where l:
    "mem_cache_setup i s 64 h = Inr (h\<lparr>hcaches := (hcaches h)(i := ca), hlinks := l\<rparr>)"
    "lists_rep l (cache_heads {..<Suc i}) (\<lambda>_. [])" "dom l = dom (hlinks h)" unfolding lt by blast
  let ?h = "h\<lparr>hcaches := (hcaches h)(i := ca), hlinks := l\<rparr>"
  have pos: "\<forall>s\<in>set ss. 0 < s" and len: "Suc i + length ss = i + length (s # ss)" using Cons.prems(1) by auto
  have rep1: "lists_rep (hlinks ?h) (cache_heads {..<Suc i}) (\<lambda>_. [])"
    and dom1: "cache_heads {..<Suc i + length ss} \<subseteq> dom (hlinks ?h)"
    using l(2,3) Cons.prems(3) len by simp_all
  obtain l' f where r: "setup_caches (Suc i) ss ?h = Inr (?h\<lparr>hcaches := f, hlinks := l'\<rparr>)"
    "lists_rep l' (cache_heads {..<Suc i + length ss}) (\<lambda>_. [])"
    "\<forall>c. Suc i \<le> c \<longrightarrow> c < Suc i + length ss \<longrightarrow> mem_cache_layout_setup (ss ! (c - Suc i)) 64 = Inr (f c)"
    "\<forall>c<Suc i. f c = hcaches ?h c" using Cons.IH [OF pos rep1 dom1] by blast
  have "mem_cache_layout_setup ((s # ss) ! (c - i)) 64 = Inr (f c)" if "i \<le> c" "c < i + length (s # ss)" for c
  proof (cases "c = i")
    case True
    then show ?thesis using ca r(4) by simp
  next
    case False
    then have "Suc i \<le> c" "c - i = Suc (c - Suc i)" using that by auto
    then show ?thesis using r(3) that(2) by simp
  qed
  moreover have "f c = hcaches h c" if "c < i" for c using r(4) that by simp
  ultimately show ?case using l(1) r(1,2) al len
    by (intro exI [of _ l'] exI [of _ f]) simp
qed

lemma mem_alloc_setup_spec:
  assumes "page_ainv T (hzones h) {}" "zones_low (hzones h)" "cache_heads {..<MEM_POOLS} \<subseteq> dom (hlinks h)"
  shows "\<exists>h'. mem_alloc_setup h = Inr h' \<and> mem_inv T h' {}"
proof -
  have pos: "\<forall>s\<in>set mem_pool_size. 0 < s" by (simp add: mem_pool_size_def)
  have "lists_rep (hlinks h) (cache_heads {..<0}) (\<lambda>_. [])" by (simp add: lists_rep_def cache_heads_def)
  from setup_caches_spec [OF pos this] assms(3) obtain l f where r:
    "setup_caches 0 mem_pool_size h = Inr (h\<lparr>hcaches := f, hlinks := l\<rparr>)"
    "lists_rep l (cache_heads {..<MEM_POOLS}) (\<lambda>_. [])"
    "\<forall>c. 0 \<le> c \<longrightarrow> c < MEM_POOLS \<longrightarrow> mem_cache_layout_setup (mem_pool_size ! (c - 0)) 64 = Inr (f c)"
    by (auto simp: MEM_POOLS_def)
  let ?h = "h\<lparr>hcaches := f, hlinks := l\<rparr>"
  have ly: "mem_cache_layout_setup (mem_pool_size ! c) 64 = Inr (f c)" if "c < MEM_POOLS" for c
    using r(3) that by simp
  have wf: "cache_wf (f c)" if "c < MEM_POOLS" for c
  proof -
    have "mem_pool_size ! c \<in> set mem_pool_size" using that by (simp add: MEM_POOLS_def)
    with pos have "0 < mem_pool_size ! c" by (rule bspec)
    then show ?thesis by (rule layout_spec(1) [OF ly [OF that]])
  qed
  have none: "pools_in {..<MEM_POOLS} (\<lambda>_. []) = {}" by (simp add: pools_in_def)
  have "heap_inv {..<MEM_POOLS} T (\<lambda>_. []) {} ?h"
    using assms(1,2) r(2) wf by (simp add: heap_inv_def none pools_ok_def)
  then have "mem_state T (\<lambda>_. []) {} ?h {}"
    using ly by (simp add: mem_state_def caches_ready_def big_ok_def live_def none)
  then show ?thesis using r(1) unfolding mem_inv_def mem_alloc_setup_def by blast
qed

section \<open>A concrete heap\<close>

definition demo_heap :: heap where
  "demo_heap = \<lparr>hzones = [demo_zone], hlinks = (\<lambda>_. Some \<lparr>nxt = None, prv = None\<rparr>), hpools = (\<lambda>_. None),
     hcaches = (\<lambda>_. \<lparr>meta_offs = 0, obj_count = 0, mask_words = 0, obj_size = 0, pool_order = 0\<rparr>),
     hbytes = (\<lambda>_. 0)\<rparr>"

lemma demo_pages: "page_ainv {8..<12} [demo_zone] {}"
proof -
  have "free_frames [demo_zone] [(demo_lists, {})] = {8..<12}"
    by (auto simp: free_frames_def free_blocks_def demo_lists_def cover_def blk_def MAX_ORDER_def split: if_splits)
  moreover have "held_ptrs [demo_zone] [(demo_lists, {})] = {}" by (auto simp: held_ptrs_def)
  ultimately show ?thesis unfolding page_ainv_def
    by (intro exI [of _ "[(demo_lists, {})]"]) (simp add: demo_zones)
qed

lemma demo_heap_ready: "\<exists>h. mem_alloc_setup demo_heap = Inr h \<and> mem_inv {8..<12} h {}"
proof (rule mem_alloc_setup_spec)
  show "page_ainv {8..<12} (hzones demo_heap) {}" using demo_pages by (simp add: demo_heap_def)
  show "zones_low (hzones demo_heap)" by (simp add: zones_low_def demo_heap_def demo_zone_def)
  show "cache_heads {..<MEM_POOLS} \<subseteq> dom (hlinks demo_heap)" by (auto simp: demo_heap_def)
qed

text \<open>A cache of objects of 960 bytes: one page holds four of them.\<close>

definition cache960 :: mem_cache where
  "cache960 = \<lparr>meta_offs = 4048, obj_count = 4, mask_words = 1, obj_size = 960, pool_order = 0\<rparr>"

lemma ilog2_1: "ilog2 1 = 0"
  by (simp add: ilog2_def ilog2_loop.simps)

lemma cache960_layout: "mem_cache_layout_setup 960 64 = Inr cache960"
proof -
  have al: "align_up 960 64 = 960" by (simp add: align_up_def ceil_div_def)
  have fo: "fit_objs 960 4096 4 = 4"
  proof -
    have four: "(4::nat) = Suc 3" by simp
    show ?thesis unfolding four fit_objs.simps by (simp add: meta_size_eq)
  qed
  show ?thesis
    by (simp add: mem_cache_layout_setup_def al MIN_POOL_OBJS_def meta_size_eq PAGE_SHIFT_def drop_bit_eq_div
        ilog2_1 [simplified] fo ceil_div_64 cache960_def)
qed

lemma cache960_wf: "cache_wf cache960"
  using layout_spec(1) [OF cache960_layout] by simp

section \<open>Properties\<close>



text \<open>
  The layout does not keep the promise of \<open>MIN_POOL_OBJS\<close>: the shift that turns the minimal size
  into pages rounds down, so a cache of 960-byte objects gets one page and four objects per pool.
\<close>

theorem min_pool_objs_missed:
  "\<exists>c. mem_cache_layout_setup 960 64 = Inr c \<and> obj_count c = 4 \<and> obj_count c < MIN_POOL_OBJS"
  using cache960_layout by (simp add: cache960_def MIN_POOL_OBJS_def)

text \<open>
  C9. A slot of a pool: \<open>mem_pool_alloc\<close> hands out the lowest slot that is not in use; any address
  inside the object gives the slot back to \<open>mem_pool_free\<close>, which restores the set of used slots and
  the counter; giving it back a second time stops the kernel.
\<close>

theorem mem_pool_slot_roundtrip:
  assumes "cache_wf c" "pool_wf c pl" "0 < pl_free pl" "r < obj_size c"
    and "pl_data pl + 2 ^ (pool_order c + PAGE_SHIFT) \<le> 2 ^ 64"
  shows "\<exists>x pl1 pl2. mem_pool_alloc c pl = Inr (x, pl1)
    \<and> (\<exists>p<obj_count c. x = pl_data pl + p * obj_size c \<and> p \<notin> slots c pl \<and> {..<p} \<subseteq> slots c pl
        \<and> slots c pl1 = insert p (slots c pl))
    \<and> mem_pool_free c pl1 (x + r) = Inr pl2 \<and> slots c pl2 = slots c pl \<and> pl_free pl2 = pl_free pl
    \<and> mem_pool_free c pl2 (x + r) = Inl Bug"
proof -
  obtain p pl1 where al: "mem_pool_alloc c pl = Inr (pl_data pl + p * obj_size c, pl1)" "p < obj_count c"
    "p \<notin> slots c pl" "{..<p} \<subseteq> slots c pl" "slots c pl1 = insert p (slots c pl)" "pool_wf c pl1"
    "pl_free pl1 = pl_free pl - 1" "pl_data pl1 = pl_data pl"
    using mem_pool_alloc_spec [OF assms(1-3)] by blast
  let ?x = "pl_data pl + p * obj_size c"
  have sz: "0 < obj_size c" using assms(1) by (simp add: cache_wf_def)
  have "Suc p * obj_size c \<le> obj_count c * obj_size c" using al(2) by (intro mult_right_mono) auto
  then have "Suc p * obj_size c \<le> 2 ^ (pool_order c + PAGE_SHIFT)"
    using assms(1) unfolding cache_wf_def by linarith
  then have lt: "?x + r < 2 ^ 64" using assms(4,5) by simp
  have d: "(?x + r - pl_data pl) div obj_size c = p" using assms(4) sz by simp
  have a1: "pl_data pl1 \<le> ?x + r" using al(8) by simp
  obtain pl2 where f: "mem_pool_free c pl1 (?x + r) = Inr pl2" "slots c pl2 = slots c pl1 - {p}" "pool_wf c pl2"
    "pl_free pl2 = pl_free pl1 + 1" "pl_data pl2 = pl_data pl1"
    using mem_pool_free_spec(1) [OF assms(1) al(6) a1 lt] d al(5,8) by auto
  have "mem_pool_free c pl2 (?x + r) = Inl Bug"
    using mem_pool_free_spec(2) [OF assms(1) f(3), of "?x + r"] d f(2,5) al(8) lt by simp
  then show ?thesis using al f assms(3) by auto
qed

definition demo_pool :: mem_pool where
  "demo_pool = \<lparr>pl_page = (0, 0), pl_data = 0, pl_free = 4, bitmask = mem_pool_bitmap_setup cache960\<rparr>"

theorem mem_pool_slot_roundtrip_witness:
  "\<exists>x pl1 pl2. mem_pool_alloc cache960 demo_pool = Inr (x, pl1) \<and> mem_pool_free cache960 pl1 (x + 7) = Inr pl2
    \<and> mem_pool_free cache960 pl2 (x + 7) = Inl Bug"
proof -
  have "pool_wf cache960 demo_pool"
    using bitmap_setup_wf(1) [OF cache960_wf, of demo_pool] by (simp add: demo_pool_def cache960_def)
  from mem_pool_slot_roundtrip [OF cache960_wf this, of 7] show ?thesis
    by (auto simp: demo_pool_def cache960_def PAGE_SHIFT_def)
qed

text \<open>
  C10. Any sequence of \<open>mem_cache_alloc\<close> and of \<open>mem_cache_free\<close> of objects still held runs without
  stopping the kernel and keeps the invariant of the caches; what is live in the caches at the end
  is exactly what is held.
\<close>

theorem mem_cache_client_safe:
  assumes "heap_inv CS T F B h" "c \<in> CS" "live CS F h = {}"
  shows "\<exists>hs h' F'. run_requests (cache_request c) cache_return rs [] h = Inr (hs, h') \<and> distinct hs \<and>
    heap_inv CS T F' B h' \<and> live CS F' h' = set hs"
proof -
  have "cache_ainv CS T B h {}" using assms(1,3) by (auto simp: cache_ainv_def)
  from allocator.run_from_empty [OF cache_allocator [OF assms(2)] this, of rs]
  show ?thesis unfolding cache_ainv_def by blast
qed

theorem mem_cache_client_safe_witness:
  "\<exists>h hs h'. mem_alloc_setup demo_heap = Inr h \<and>
    run_requests (cache_request 3) cache_return [Request (), Request (), Return 1, Request ()] [] h = Inr (hs, h')"
proof -
  obtain h F B where h: "mem_alloc_setup demo_heap = Inr h" "mem_state {8..<12} F B h {}"
    using demo_heap_ready by (auto simp: mem_inv_def)
  have "heap_inv {..<MEM_POOLS} {8..<12} F B h" "live {..<MEM_POOLS} F h = {}" "3 \<in> {..<MEM_POOLS}"
    using h(2) by (auto simp: mem_state_def MEM_POOLS_def mem_pool_size_def)
  from mem_cache_client_safe [OF this(1,3,2), of "[Request (), Request (), Return 1, Request ()]"] h(1)
  show ?thesis by (simp del: run_requests.simps) blast
qed

text \<open>
  C11. \<open>mem_alloc\<close>: it never stops the kernel; if it fails nothing changes; otherwise the address is
  new and has at least the requested number of usable bytes, which overlap no block handed out
  before, and the invariant holds with the block added.
\<close>

theorem mem_alloc_fresh:
  assumes "mem_inv T h M"
  shows "\<exists>r h'. mem_alloc sz h = Inr (r, h') \<and>
    (case r of None \<Rightarrow> h' = h
     | Some x \<Rightarrow> (\<exists>s\<ge>sz. mem_inv T h' (insert (x, s) M) \<and> x \<notin> fst ` M \<and>
         (\<forall>m\<in>M. {x..<x + s} \<inter> bytes_of m = {})))"
proof -
  obtain r h' where r: "mem_alloc sz h = Inr (r, h')"
    "case r of None \<Rightarrow> h' = h | Some x \<Rightarrow> (\<exists>s\<ge>sz. x \<notin> fst ` M \<and> mem_inv T h' (insert (x, s) M))"
    using mem_alloc_spec [OF assms, of sz] by blast
  have "\<forall>m\<in>M. {x..<x + s} \<inter> bytes_of m = {}" if n: "x \<notin> fst ` M" and i: "mem_inv T h' (insert (x, s) M)" for x s
  proof
    fix m assume m: "m \<in> M"
    obtain F B where "mem_state T F B h' (insert (x, s) M)" using i by (auto simp: mem_inv_def)
    from blocks_disjoint [OF this, of "(x, s)" m] m n
    show "{x..<x + s} \<inter> bytes_of m = {}" by (force simp: bytes_of_def)
  qed
  then show ?thesis using r by (intro exI [of _ r] exI [of _ h']) (fastforce split: option.splits)
qed

theorem mem_alloc_fresh_witness:
  "\<exists>h r h'. mem_alloc_setup demo_heap = Inr h \<and> mem_alloc 5000 h = Inr (r, h')"
  using demo_heap_ready mem_alloc_fresh by blast

text \<open>
  \<open>mem_free\<close> of an address that was handed out finds its cache or its order through the page
  descriptor, never stops the kernel, and removes exactly that block.
\<close>

theorem mem_free_removes:
  assumes "mem_inv T h M" "(x, s) \<in> M"
  shows "\<exists>h'. mem_free (Some x) h = Inr h' \<and> mem_inv T h' (M - {(x, s)}) \<and> hbytes h' = hbytes h"
  using mem_free_spec [OF assms] by blast

theorem mem_free_removes_witness:
  "\<exists>h. mem_alloc_setup demo_heap = Inr h \<and>
    (\<forall>x h1. mem_alloc 100 h = Inr (Some x, h1) \<longrightarrow> (\<exists>h2. mem_free (Some x) h1 = Inr h2))"
proof -
  obtain h where h: "mem_alloc_setup demo_heap = Inr h" "mem_inv {8..<12} h {}" using demo_heap_ready by blast
  have "\<exists>h2. mem_free (Some x) h1 = Inr h2" if a: "mem_alloc 100 h = Inr (Some x, h1)" for x h1
  proof -
    obtain s where "mem_inv {8..<12} h1 (insert (x, s) {})"
      using mem_alloc_spec [OF h(2), of 100] a by auto
    from mem_free_removes [OF this insertI1] show ?thesis by blast
  qed
  then show ?thesis using h(1) by blast
qed

text \<open>
  C12. \<open>mem_realloc\<close> of a block keeps it when its usable size is enough; otherwise it allocates a
  larger one, moves all usable bytes, frees the old block and touches no other block; when there is
  no memory the old block stays.
\<close>

theorem mem_realloc_moves:
  assumes "mem_inv T h M" "(x, s) \<in> M"
  shows "\<exists>r h'. mem_realloc (Some x) sz h = Inr (r, h') \<and>
    (case r of None \<Rightarrow> h' = h
     | Some y \<Rightarrow> if sz \<le> s then y = x \<and> h' = h
         else (\<exists>t\<ge>sz. y \<notin> fst ` M \<and> mem_inv T h' (insert (y, t) (M - {(x, s)})) \<and>
           (\<forall>i < s. hbytes h' (y + i) = hbytes h (x + i)) \<and>
           (\<forall>m\<in>M. m \<noteq> (x, s) \<longrightarrow> (\<forall>a\<in>bytes_of m. hbytes h' a = hbytes h a))))"
  using mem_realloc_spec [OF assms] .

theorem mem_realloc_moves_witness:
  "\<exists>h. mem_alloc_setup demo_heap = Inr h \<and>
    (\<forall>x h1. mem_alloc 100 h = Inr (Some x, h1) \<longrightarrow> (\<exists>r h2. mem_realloc (Some x) 300 h1 = Inr (r, h2)))"
proof -
  obtain h where h: "mem_alloc_setup demo_heap = Inr h" "mem_inv {8..<12} h {}" using demo_heap_ready by blast
  have "\<exists>r h2. mem_realloc (Some x) 300 h1 = Inr (r, h2)" if a: "mem_alloc 100 h = Inr (Some x, h1)" for x h1
  proof -
    obtain s where "mem_inv {8..<12} h1 (insert (x, s) {})"
      using mem_alloc_spec [OF h(2), of 100] a by auto
    from mem_realloc_moves [OF this insertI1, of 300] show ?thesis by blast
  qed
  then show ?thesis using h(1) by blast
qed

text \<open>
  C13. From boot: after \<open>mem_alloc_setup\<close> on zones no page of which is held, any sequence of
  \<open>mem_alloc\<close> and of \<open>mem_free\<close> of addresses still held runs to its end without stopping the kernel.
\<close>

theorem mem_client_safe:
  assumes "page_ainv T (hzones h) {}" "zones_low (hzones h)" "cache_heads {..<MEM_POOLS} \<subseteq> dom (hlinks h)"
  shows "\<exists>h0 hs h'. mem_alloc_setup h = Inr h0 \<and>
    run_requests mem_alloc (\<lambda>x. mem_free (Some x)) rs [] h0 = Inr (hs, h') \<and> distinct hs \<and>
    (\<exists>M. mem_inv T h' M \<and> fst ` M = set hs)"
proof -
  obtain h0 where h0: "mem_alloc_setup h = Inr h0" "mem_inv T h0 {}" using mem_alloc_setup_spec [OF assms] by blast
  then have "mem_ainv T h0 {}" by (auto simp: mem_ainv_def)
  from mem.run_from_empty [OF this, of rs] h0(1) show ?thesis
    unfolding mem_ainv_def mem_return_def [abs_def] by metis
qed

theorem mem_client_safe_witness:
  "\<exists>h0 hs h'. mem_alloc_setup demo_heap = Inr h0 \<and>
    run_requests mem_alloc (\<lambda>x. mem_free (Some x)) [Request 10, Request 20, Return 0, Request 9000] [] h0 = Inr (hs, h')"
proof -
  have "page_ainv {8..<12} (hzones demo_heap) {}" using demo_pages by (simp add: demo_heap_def)
  moreover have "zones_low (hzones demo_heap)" by (simp add: zones_low_def demo_heap_def demo_zone_def)
  moreover have "cache_heads {..<MEM_POOLS} \<subseteq> dom (hlinks demo_heap)" by (auto simp: demo_heap_def)
  ultimately show ?thesis using mem_client_safe [of "{8..<12}" demo_heap] by metis
qed

end
