(* ===== verification/CType.thy ===== *)
theory CType
  imports Kernel_Base
begin

unbundle bit_operations_syntax

text \<open>
  The character classes of \<open>ctype.c\<close>: a table of 256 bytes with one bit per class, indexed by the
  argument converted to \<open>unsigned char\<close>.  The functions take and return \<open>int\<close>, here \<open>u32\<close>.
\<close>

section \<open>Model of ctype.c\<close>

definition CTYPE_SP :: u8 where "CTYPE_SP = 0x01"
definition CTYPE_DI :: u8 where "CTYPE_DI = 0x02"
definition CTYPE_LO :: u8 where "CTYPE_LO = 0x04"
definition CTYPE_UP :: u8 where "CTYPE_UP = 0x08"
definition CTYPE_XD :: u8 where "CTYPE_XD = 0x10"
definition CTYPE_PU :: u8 where "CTYPE_PU = 0x20"
definition CTYPE_XS :: u8 where "CTYPE_XS = 0x40"

text \<open>Runs of equal entries of the table are written with their length.\<close>

definition ctype :: "u8 list" where
  "ctype =
     replicate 9 0
     @ replicate 5 CTYPE_SP                  \<comment> \<open>tab, line feed, vertical tab, form feed, return\<close>
     @ replicate 18 0
     @ [CTYPE_XS OR CTYPE_SP]                \<comment> \<open>space\<close>
     @ replicate 15 CTYPE_PU                 \<comment> \<open>exclamation mark to slash\<close>
     @ replicate 10 (CTYPE_DI OR CTYPE_XD)   \<comment> \<open>0 to 9\<close>
     @ replicate 7 CTYPE_PU                  \<comment> \<open>colon to at sign\<close>
     @ replicate 6 (CTYPE_UP OR CTYPE_XD)    \<comment> \<open>A to F\<close>
     @ replicate 20 CTYPE_UP                 \<comment> \<open>G to Z\<close>
     @ replicate 6 CTYPE_PU                  \<comment> \<open>bracket to grave accent\<close>
     @ replicate 6 (CTYPE_LO OR CTYPE_XD)    \<comment> \<open>a to f\<close>
     @ replicate 20 CTYPE_LO                 \<comment> \<open>g to z\<close>
     @ replicate 4 CTYPE_PU                  \<comment> \<open>brace to tilde\<close>
     @ replicate 1 0
     @ replicate 128 0"

definition ctype_of :: "u32 \<Rightarrow> u8 \<Rightarrow> u32" where
  "ctype_of c msk = ucast (ctype ! unat (ucast c :: u8) AND msk)"

definition isprint :: "u32 \<Rightarrow> u32" where
  "isprint c = ctype_of c (CTYPE_LO OR CTYPE_UP OR CTYPE_DI OR CTYPE_PU OR CTYPE_XS)"

definition isalpha :: "u32 \<Rightarrow> u32" where "isalpha c = ctype_of c (CTYPE_LO OR CTYPE_UP)"
definition isdigit :: "u32 \<Rightarrow> u32" where "isdigit c = ctype_of c CTYPE_DI"
definition isxdigit :: "u32 \<Rightarrow> u32" where "isxdigit c = ctype_of c CTYPE_XD"
definition isspace :: "u32 \<Rightarrow> u32" where "isspace c = ctype_of c CTYPE_SP"
definition islower :: "u32 \<Rightarrow> u32" where "islower c = ctype_of c CTYPE_LO"
definition isupper :: "u32 \<Rightarrow> u32" where "isupper c = ctype_of c CTYPE_UP"

definition toupper :: "u32 \<Rightarrow> u32" where "toupper c = (if islower c \<noteq> 0 then c - 0x20 else c)"
definition tolower :: "u32 \<Rightarrow> u32" where "tolower c = (if isupper c \<noteq> 0 then c + 0x20 else c)"

section \<open>Lemmas\<close>

lemmas ctype_bits = CTYPE_SP_def CTYPE_DI_def CTYPE_LO_def CTYPE_UP_def CTYPE_XD_def CTYPE_PU_def CTYPE_XS_def

lemma length_ctype: "length ctype = 256"
  by (simp add: ctype_def)

definition in_class :: "(nat \<times> nat) list \<Rightarrow> nat \<Rightarrow> bool" where
  "in_class rs n \<longleftrightarrow> (\<exists>r\<in>set rs. fst r \<le> n \<and> n \<le> snd r)"

lemma ctype_nth:
  assumes "n < 256"
  shows "ctype ! n =
    (if n < 9 then 0 else if n < 14 then CTYPE_SP else if n < 32 then 0 else if n = 32 then CTYPE_XS OR CTYPE_SP
     else if n < 48 then CTYPE_PU else if n < 58 then CTYPE_DI OR CTYPE_XD else if n < 65 then CTYPE_PU
     else if n < 71 then CTYPE_UP OR CTYPE_XD else if n < 91 then CTYPE_UP else if n < 97 then CTYPE_PU
     else if n < 103 then CTYPE_LO OR CTYPE_XD else if n < 123 then CTYPE_LO else if n < 127 then CTYPE_PU else 0)"
  using assms by (simp add: ctype_def nth_append less_diff_conv2 nth_Cons')

definition class_ok :: "u8 \<Rightarrow> (nat \<times> nat) list \<Rightarrow> bool" where
  "class_ok msk rs \<longleftrightarrow> (\<forall>n<256. (ctype ! n AND msk \<noteq> 0) = in_class rs n)"

lemma ctype_of_iff:
  assumes "class_ok msk rs"
  shows "ctype_of c msk \<noteq> 0 \<longleftrightarrow> in_class rs (unat (ucast c :: u8))"
proof -
  have "unat (ucast c :: u8) < 256" using unsigned_less [of "ucast c :: u8"] by simp
  moreover have "(ucast x :: u32) = 0 \<longleftrightarrow> x = 0" for x :: u8
    by transfer (simp add: take_bit_take_bit min_def)
  ultimately show ?thesis using assms by (simp add: class_ok_def ctype_of_def list_all_iff)
qed

lemma class_oks:
  "class_ok CTYPE_SP [(9, 13), (32, 32)]"
  "class_ok CTYPE_DI [(0x30, 0x39)]"
  "class_ok CTYPE_LO [(0x61, 0x7a)]"
  "class_ok CTYPE_UP [(0x41, 0x5a)]"
  "class_ok CTYPE_XD [(0x30, 0x39), (0x41, 0x46), (0x61, 0x66)]"
  "class_ok (CTYPE_LO OR CTYPE_UP) [(0x41, 0x5a), (0x61, 0x7a)]"
  "class_ok (CTYPE_LO OR CTYPE_UP OR CTYPE_DI OR CTYPE_PU OR CTYPE_XS) [(0x20, 0x7e)]"
  by (simp_all add: class_ok_def ctype_nth in_class_def ctype_bits; arith)+

lemmas class_iffs = class_oks [THEN ctype_of_iff, unfolded in_class_def]

end
