(* ===== verification/Stdlib.thy ===== *)
theory Stdlib
  imports CString CType
begin

unbundle bit_operations_syntax

text \<open>
  The number conversions of \<open>stdlib.c\<close>: \<open>strtoul\<close>, and \<open>ulltoa\<close> with the functions that only convert
  their argument for it.  Loops that run on the contents of memory are partial functions: \<open>None\<close> is a
  loop that does not end, and the lemmas show that they end on strings.
\<close>

section \<open>Model of strtoul\<close>

text \<open>A \<open>char\<close> is signed and is promoted to \<open>int\<close>.\<close>

definition char_int :: "u8 \<Rightarrow> u32" where "char_int c = scast c"

partial_function (option) skip_spaces :: "memory \<Rightarrow> nat \<Rightarrow> nat option" where
  "skip_spaces m ptr = (if isspace (char_int (m ptr)) \<noteq> 0 then skip_spaces m (Suc ptr) else Some ptr)"

definition strtoul_digit :: "u8 \<Rightarrow> u32" where
  "strtoul_digit b =
     (let c = (ucast (toupper (char_int b)) :: u8)
      in if isdigit (char_int c) \<noteq> 0 then char_int c - 0x30 else char_int c - 0x41 + 10)"

text \<open>The digit and the base are \<open>int\<close>s converted to \<open>unsigned long\<close>.\<close>

partial_function (option) strtoul_loop :: "memory \<Rightarrow> u64 \<Rightarrow> nat \<Rightarrow> u64 \<Rightarrow> bool \<Rightarrow> (u64 \<times> nat \<times> bool) option" where
  "strtoul_loop m base ptr ret consumed =
     (if m ptr = 0 then Some (ret, ptr, consumed)
      else let digit = scast (strtoul_digit (m ptr))
           in if ret > (- 1 - digit) div base then Some (- 1, ptr, consumed)
              else strtoul_loop m base (Suc ptr) (ret * base + digit) True)"

definition strtoul_base :: "memory \<Rightarrow> u32 \<Rightarrow> nat \<Rightarrow> u32 \<times> nat" where
  "strtoul_base m base ptr =
     (if base = 0 then
        if m ptr = 0x30 then
          if tolower (char_int (m (ptr + 1))) = 0x78 then (16, ptr + 2) else (8, ptr + 1)
        else (10, ptr)
      else
        (let ptr = (if base = 8 \<and> m ptr = 0x30 then ptr + 1 else ptr)
         in if base = 16 \<and> m ptr = 0x30 \<and> tolower (if m (ptr + 1) = 0x78 then 1 else 0) \<noteq> 0
            then (base, ptr + 2) else (base, ptr)))"

definition strtoul :: "memory \<Rightarrow> nat \<Rightarrow> u32 \<Rightarrow> (u64 \<times> nat) option" where
  "strtoul m str base =
     Option.bind (skip_spaces m str) (\<lambda>ptr.
       (let negate = (m ptr = 0x2d);
            ptr = (if m ptr = 0x2d \<or> m ptr = 0x2b then ptr + 1 else ptr);
            (base, ptr) = strtoul_base m base ptr
        in Option.bind (strtoul_loop m (scast base) ptr 0 False) (\<lambda>(ret, ptr, consumed).
           Some (if negate then - ret else ret, if consumed then ptr else str))))"

section \<open>Model of ulltoa and lltoa\<close>

definition digits :: "u8 list" where
  "digits = map word_of_nat ([0x30..<0x3a] @ [0x61..<0x7b]) @ [0]"

text \<open>
  \<open>r\<close> is an \<open>int\<close>: a remainder that does not fit is truncated, and a table index out of range is a
  fault, as is a division by 0.
\<close>

partial_function (option) ulltoa_loop :: "u64 \<Rightarrow> nat \<Rightarrow> u64 \<Rightarrow> memory \<Rightarrow> (nat \<times> memory) res option" where
  "ulltoa_loop value ptr base m =
     (if base = 0 then Some (Inl Fault)
      else let r = sint (ucast (value mod base) :: u32); value = value div base
        in if r < 0 \<or> int (length digits) \<le> r then Some (Inl Fault)
           else let m = m(ptr := digits ! nat r); ptr = Suc ptr
             in if value \<noteq> 0 then ulltoa_loop value ptr base m else Some (Inr (ptr, m)))"

function reverse_loop :: "nat \<Rightarrow> nat \<Rightarrow> memory \<Rightarrow> memory" where
  "reverse_loop start ptr m =
     (if start < ptr then reverse_loop (Suc start) (ptr - 1) (m(ptr := m start, start := m ptr)) else m)"
  by pat_completeness auto
termination
  by (relation "measure (\<lambda>(s, p, m). p - s)") auto

definition ulltoa :: "u64 \<Rightarrow> nat \<Rightarrow> u32 \<Rightarrow> memory \<Rightarrow> memory res option" where
  "ulltoa value str base m =
     map_option (\<lambda>r. bindE r (\<lambda>(ptr, m). Inr (reverse_loop str (ptr - 1) (m(ptr := 0)))))
       (ulltoa_loop value str (scast base) m)"

definition lltoa :: "u64 \<Rightarrow> nat \<Rightarrow> u32 \<Rightarrow> memory \<Rightarrow> memory res option" where
  "lltoa value str base m =
     (if value <s 0 then ulltoa (- value) (Suc str) base (m(str := 0x2d)) else ulltoa value str base m)"

definition ultoa :: "u64 \<Rightarrow> nat \<Rightarrow> u32 \<Rightarrow> memory \<Rightarrow> memory res option" where
  "ultoa value str base m = ulltoa value str base m"

definition ltoa :: "u64 \<Rightarrow> nat \<Rightarrow> u32 \<Rightarrow> memory \<Rightarrow> memory res option" where
  "ltoa value str base m = lltoa value str base m"

definition utoa :: "u32 \<Rightarrow> nat \<Rightarrow> u32 \<Rightarrow> memory \<Rightarrow> memory res option" where
  "utoa value str base m = ulltoa (ucast value) str base m"

definition itoa :: "u32 \<Rightarrow> nat \<Rightarrow> u32 \<Rightarrow> memory \<Rightarrow> memory res option" where
  "itoa value str base m = lltoa (scast value) str base m"

declare reverse_loop.simps [simp del]

section \<open>Digits and values\<close>

definition digit_val :: "u8 \<Rightarrow> nat option" where
  "digit_val c =
     (let n = unat c
      in if 0x30 \<le> n \<and> n \<le> 0x39 then Some (n - 0x30)
         else if 0x41 \<le> n \<and> n \<le> 0x5a then Some (n - 0x41 + 10)
         else if 0x61 \<le> n \<and> n \<le> 0x7a then Some (n - 0x61 + 10)
         else None)"

definition horner :: "nat \<Rightarrow> nat \<Rightarrow> nat list \<Rightarrow> nat" where
  "horner base acc ds = foldl (\<lambda>a d. a * base + d) acc ds"

lemma horner_simps [simp]:
  "horner b a [] = a"
  "horner b a (d # ds) = horner b (a * b + d) ds"
  by (simp_all add: horner_def)

lemma horner_append: "horner b a (ds @ es) = horner b (horner b a ds) es"
  by (simp add: horner_def)

lemma horner_ge: "0 < b \<Longrightarrow> a \<le> horner b a ds"
proof (induction ds arbitrary: a)
  case (Cons d ds)
  have "a \<le> a * b + d" using Cons.prems by (simp add: trans_le_add1)
  also have "\<dots> \<le> horner b a (d # ds)" using Cons by simp
  finally show ?case .
qed simp

lemma ucast_char_int [simp]: "ucast (char_int c) = c"
  unfolding char_int_def by transfer (simp add: take_bit_signed_take_bit)

lemma char_int_small: "unat c < 128 \<Longrightarrow> char_int c = of_nat (unat c)"
proof -
  assume a: "unat c < 128"
  have "sint c = int (unat c)"
    using a signed_take_bit_int_eq_self [of 7 "int (unat c)"] by (simp add: sint_uint uint_nat del: of_nat_unat)
  then show ?thesis unfolding char_int_def by (metis of_int_of_nat_eq of_int_sint)
qed

lemma sint_small:
  assumes "n < 2 ^ 31"
  shows "sint (of_nat n :: u32) = int n"
proof -
  have "unat (of_nat n :: u32) = n" using assms by (simp add: unat_of_nat take_bit_eq_mod)
  then have "uint (of_nat n :: u32) = int n" by (simp only: uint_nat)
  then show ?thesis using assms signed_take_bit_int_eq_self [of 31 "int n"] by (simp only: sint_uint) simp
qed

lemma scast_small: "n < 2 ^ 31 \<Longrightarrow> scast (of_nat n :: u32) = (of_nat n :: u64)"
  by (metis of_int_of_nat_eq of_int_sint sint_small)

lemma classes:
  "isspace (char_int c) \<noteq> 0 \<longleftrightarrow> 9 \<le> unat c \<and> unat c \<le> 13 \<or> unat c = 32"
  "isdigit (char_int c) \<noteq> 0 \<longleftrightarrow> 0x30 \<le> unat c \<and> unat c \<le> 0x39"
  "islower (char_int c) \<noteq> 0 \<longleftrightarrow> 0x61 \<le> unat c \<and> unat c \<le> 0x7a"
  "isupper (char_int c) \<noteq> 0 \<longleftrightarrow> 0x41 \<le> unat c \<and> unat c \<le> 0x5a"
  unfolding isspace_def isdigit_def islower_def isupper_def by (auto simp: class_iffs)

lemma ucast_sub_20: "0x61 \<le> unat c \<and> unat c \<le> 0x7a \<Longrightarrow> ucast (of_nat (unat c) - 0x20 :: u32) = (of_nat (unat (c::u8) - 0x20) :: u8)"
proof -
  assume a: "0x61 \<le> unat c \<and> unat c \<le> 0x7a"
  then have "of_nat (unat c) - 0x20 = (of_nat (unat c - 0x20) :: u32)" by (simp add: of_nat_diff)
  moreover have "ucast (of_nat k :: u32) = (of_nat k :: u8)" for k
   by transfer (simp add: take_bit_take_bit min_def)
  ultimately show ?thesis by simp
qed
lemma digit_val_strtoul:
  assumes "digit_val c = Some d"
  shows "strtoul_digit c = of_nat d" "d < 36" "c \<noteq> 0" "isspace (char_int c) = 0" "c \<noteq> 0x2d" "c \<noteq> 0x2b"
proof -
  show "d < 36" using assms by (auto simp: digit_val_def Let_def split: if_splits)
  have r: "0x30 \<le> unat c \<and> unat c \<le> 0x39 \<or> 0x41 \<le> unat c \<and> unat c \<le> 0x5a \<or> 0x61 \<le> unat c \<and> unat c \<le> 0x7a"
    using assms by (auto simp: digit_val_def Let_def split: if_splits)
  then show "c \<noteq> 0" "c \<noteq> 0x2d" "c \<noteq> 0x2b" by auto
  show "isspace (char_int c) = 0" using classes(1) [of c] r by auto
  have ci: "char_int c = of_nat (unat c)" using r by (intro char_int_small) auto
  show "strtoul_digit c = of_nat d"
  proof (cases "0x61 \<le> unat c \<and> unat c \<le> 0x7a")
    case True
    then have d: "d = unat c - 0x61 + 10" using assms by (auto simp: digit_val_def Let_def split: if_splits)
    define e where "e = (of_nat (unat c - 0x20) :: u8)"
    have u: "ucast (char_int c - 0x20) = e" unfolding e_def ci using True ucast_sub_20 by blast
    have n: "unat e = unat c - 0x20"
      unfolding e_def unat_of_nat using True by (auto simp: take_bit_eq_mod intro!: mod_less)
    have "char_int e = of_nat (unat c - 0x20)" using True char_int_small [of e] n by (auto simp: of_nat_diff)
    then show ?thesis
      using True classes(2) [of e] classes(3) [of c] n
      by (auto simp: strtoul_digit_def toupper_def u d Let_def of_nat_diff)
  next
    case False
    then have t: "toupper (char_int c) = char_int c" using classes(3) [of c] by (auto simp: toupper_def)
    have sd: "strtoul_digit c = (if isdigit (char_int c) \<noteq> 0 then char_int c - 0x30 else char_int c - 0x41 + 10)"
      by (simp add: strtoul_digit_def t)
    show ?thesis
    proof (cases "0x30 \<le> unat c \<and> unat c \<le> 0x39")
      case True
      then have "strtoul_digit c = char_int c - 0x30" using sd classes(2) [of c] by simp
      then show ?thesis using assms True by (auto simp: ci digit_val_def Let_def of_nat_diff)
    next
      case False
      then have "strtoul_digit c = char_int c - 0x41 + 10" using sd classes(2) [of c] by simp
      then show ?thesis using assms r False \<open>\<not> (0x61 \<le> unat c \<and> unat c \<le> 0x7a)\<close>
        by (auto simp: ci digit_val_def Let_def of_nat_diff)
    qed
  qed
qed

lemma bind_Some_prod: "Option.bind x f = Some y \<longleftrightarrow> (\<exists>a. x = Some a \<and> f a = Some y)"
  by (cases x) auto

lemma skip_spaces_spec:
  "list_all (\<lambda>c. isspace (char_int c) \<noteq> 0) ws \<Longrightarrow> (\<forall>i<length ws. m (a + i) = ws ! i) \<Longrightarrow>
   isspace (char_int (m (a + length ws))) = 0 \<Longrightarrow> skip_spaces m a = Some (a + length ws)"
proof (induction ws arbitrary: a)
  case Nil
  then show ?case by (subst skip_spaces.simps) simp
next
  case (Cons c ws)
  have "m a = c" using Cons.prems(2) by (metis add.right_neutral length_pos_if_in_set list.set_intros(1) nth_Cons_0)
  moreover have "\<forall>i<length ws. m (Suc a + i) = ws ! i" using Cons.prems(2) by force
  ultimately show ?case using Cons by (subst skip_spaces.simps) simp
qed

lemma strtoul_loop_spec:
  assumes "cstr_at m ptr s" "map digit_val s = map Some ds" "0 < base" "base \<le> 2 ^ 16" "unat ret = acc"
  shows "if horner base acc ds < 2 ^ 64
     then strtoul_loop m (of_nat base) ptr ret cs = Some (of_nat (horner base acc ds), ptr + length s, cs \<or> s \<noteq> [])
     else \<exists>p cs'. strtoul_loop m (of_nat base) ptr ret cs = Some (- 1, p, cs')"
  using assms
proof (induction s arbitrary: ptr ds ret acc cs)
  case Nil
  then have "ds = []" "m ptr = 0" "unat ret < 2 ^ 64" using unsigned_less [of ret] by auto
  then show ?case using Nil by (subst strtoul_loop.simps) (auto simp: strtoul_loop.simps)
next
  case (Cons c s)
  obtain d es where ds: "ds = d # es" "digit_val c = Some d" "map digit_val s = map Some es"
    using Cons.prems(2) by (cases ds) auto
  note dv = digit_val_strtoul [OF ds(2)]
  have m: "m ptr = c" "cstr_at m (Suc ptr) s" using Cons.prems(1) by (simp_all add: cstr_at_Cons)
  have dg: "scast (strtoul_digit c) = (of_nat d :: u64)" unfolding dv(1) using dv(2) by (intro scast_small) simp
  have ub: "unat (of_nat base :: u64) = base" using Cons.prems(4) by (simp add: unat_of_nat take_bit_eq_mod)
  have ud: "unat (- 1 - of_nat d :: u64) = 2 ^ 64 - 1 - d"
  proof -
    have "(- 1 - of_nat d :: u64) = of_nat (2 ^ 64 - 1 - d)" using dv(2) by (simp add: of_nat_diff)
    then show ?thesis using dv(2) by (simp only: unat_of_nat) (simp add: take_bit_eq_mod)
  qed
  have ov: "ret > (- 1 - of_nat d) div of_nat base \<longleftrightarrow> 2 ^ 64 \<le> acc * base + d"
  proof -
    have "ret > (- 1 - of_nat d) div of_nat base \<longleftrightarrow> (2 ^ 64 - 1 - d) div base < acc"
      unfolding word_less_nat_alt unat_div_distrib ud ub Cons.prems(5) ..
    also have "\<dots> \<longleftrightarrow> 2 ^ 64 - 1 - d < acc * base"
      using Cons.prems(3) by (simp add: div_less_iff_less_mult)
    finally show ?thesis using dv(2) by auto
  qed
  show ?case
  proof (cases "2 ^ 64 \<le> acc * base + d")
    case True
    then have "2 ^ 64 \<le> horner base acc ds" using horner_ge [OF Cons.prems(3), of "acc * base + d" es] ds(1) by simp
    moreover have "strtoul_loop m (of_nat base) ptr ret cs = Some (- 1, ptr, cs)"
      using True ov m(1) dg dv(3) by (subst strtoul_loop.simps) simp
    ultimately show ?thesis by simp
  next
    case False
    have "unat (ret * of_nat base + of_nat d) = acc * base + d"
    proof -
      have "ret * of_nat base + of_nat d = of_nat (acc * base + d)" using Cons.prems(5) by auto
      then show ?thesis using False by (simp only: unat_of_nat) (simp add: take_bit_eq_mod)
    qed
    from Cons.IH [OF m(2) ds(3) Cons.prems(3,4) this, of True] show ?thesis
      using False ov m(1) dg dv(3) ds(1) by (subst (1 2) strtoul_loop.simps) simp
  qed
qed

lemma cstr_at_append:
  "cstr_at m a (x @ y) \<longleftrightarrow> 0 \<notin> set x \<and> (\<forall>i<length x. m (a + i) = x ! i) \<and> cstr_at m (a + length x) y"
proof (induction x arbitrary: a)
  case (Cons c x)
  have "(\<forall>i<length (c # x). m (a + i) = (c # x) ! i) \<longleftrightarrow> m a = c \<and> (\<forall>i<length x. m (Suc a + i) = x ! i)"
    by (auto simp: less_Suc_eq_0_disj)
  then show ?case using Cons [of "Suc a"] by (auto simp: cstr_at_Cons)
qed simp

definition number_prefix :: "nat \<Rightarrow> u8 list \<Rightarrow> u8 list \<Rightarrow> nat \<Rightarrow> bool" where
  "number_prefix base pre s b \<longleftrightarrow>
     base = 0 \<and> b = 10 \<and> pre = [] \<and> take 1 s \<noteq> [0x30]
   \<or> base = 0 \<and> b = 8 \<and> pre = [0x30] \<and> take 1 s \<noteq> [0x78] \<and> take 1 s \<noteq> [0x58]
   \<or> base = 0 \<and> b = 16 \<and> (pre = [0x30, 0x78] \<or> pre = [0x30, 0x58])
   \<or> 2 \<le> base \<and> base \<le> 36 \<and> b = base \<and>
      (pre = [] \<and> (base = 8 \<longrightarrow> take 1 s \<noteq> [0x30]) \<and> (base = 16 \<longrightarrow> take 2 s \<noteq> [0x30, 0x78])
       \<or> base = 8 \<and> pre = [0x30] \<or> base = 16 \<and> pre = [0x30, 0x78])"

lemma cstr_hd: "cstr_at m a s \<Longrightarrow> c \<noteq> 0 \<Longrightarrow> m a = c \<longleftrightarrow> take 1 s = [c]"
  by (cases s) (auto simp: cstr_at_Cons)

lemma cstr_hd2: "cstr_at m a s \<Longrightarrow> c \<noteq> 0 \<Longrightarrow> d \<noteq> 0 \<Longrightarrow> m a = c \<and> m (Suc a) = d \<longleftrightarrow> take 2 s = [c, d]"
  by (cases s; cases "tl s") (auto simp: cstr_at_Cons)

lemma of_nat_u32_eq: "m < 2 ^ 32 \<Longrightarrow> n < 2 ^ 32 \<Longrightarrow> (of_nat m :: u32) = of_nat n \<longleftrightarrow> m = n"
  by (simp add: word_of_nat_eq_iff take_bit_eq_mod)

lemma tolower_x: "tolower (char_int c) = 0x78 \<longleftrightarrow> c = 0x78 \<or> c = 0x58"
proof (cases "isupper (char_int c) \<noteq> 0")
  case True
  then have r: "0x41 \<le> unat c \<and> unat c \<le> 0x5a" using classes(4) by blast
  then have "char_int c = of_nat (unat c)" by (intro char_int_small) auto
  then have "tolower (char_int c) = of_nat (unat c + 0x20)" using True by (simp add: tolower_def)
  moreover have "of_nat (unat c + 0x20) = (0x78 :: u32) \<longleftrightarrow> unat c + 0x20 = 0x78"
    using r of_nat_u32_eq [of "unat c + 0x20" "0x78"] by auto
  moreover have "unat c + 0x20 = 0x78 \<longleftrightarrow> c = 0x58" by (auto simp: word_unat_eq_iff)
  ultimately show ?thesis using r by auto
next
  case False
  then have "tolower (char_int c) = char_int c" by (simp add: tolower_def)
  moreover have "char_int 0x78 = 0x78" using char_int_small [of "0x78"] by simp
  then have "char_int c = 0x78 \<longleftrightarrow> c = 0x78" by (metis ucast_char_int)
  moreover have "c \<noteq> 0x58" using False classes(4) [of c] by auto
  ultimately show ?thesis by auto
qed

lemma tolower_bool: "tolower (if b then 1 else 0) \<noteq> 0 \<longleftrightarrow> b"
proof -
  have "tolower (char_int (if b then 1 else 0)) = char_int (if b then 1 else 0)"
    using classes(4) [of "if b then 1 else 0"] by (auto simp: tolower_def)
  then show ?thesis by (cases b) (simp_all add: char_int_def)
qed

lemma strtoul_base_spec:
  assumes "cstr_at m a (pre @ s)" "number_prefix base pre s b"
  shows "strtoul_base m (of_nat base) a = (of_nat b, a + length pre)"
proof -
  have s: "cstr_at m (a + length pre) s" and pre: "\<forall>i<length pre. m (a + i) = pre ! i"
    using assms(1) by (simp_all add: cstr_at_append)
  have "base \<le> 36" using assms(2) by (auto simp: number_prefix_def)
  then have z: "(of_nat base :: u32) = 0 \<longleftrightarrow> base = 0" "(of_nat base :: u32) = 8 \<longleftrightarrow> base = 8"
    "(of_nat base :: u32) = 16 \<longleftrightarrow> base = 16"
    using of_nat_u32_eq [of base 0] of_nat_u32_eq [of base 8] of_nat_u32_eq [of base 16] by simp_all
  note def = strtoul_base_def z tolower_x tolower_bool
  have p1: "m a = c" if "pre = c # q" for c q using pre that by force
  have p2: "m (Suc a) = d" if "pre = c # d # q" for c d q using pre that by force
  consider "base = 0" "b = 10" "pre = []" "take 1 s \<noteq> [0x30]"
    | "base = 0" "b = 8" "pre = [0x30]" "take 1 s \<noteq> [0x78]" "take 1 s \<noteq> [0x58]"
    | "base = 0" "b = 16" "pre = [0x30, 0x78] \<or> pre = [0x30, 0x58]"
    | "2 \<le> base" "b = base" "pre = []" "base = 8 \<longrightarrow> take 1 s \<noteq> [0x30]" "base = 16 \<longrightarrow> take 2 s \<noteq> [0x30, 0x78]"
    | "base = 8" "b = base" "pre = [0x30]" | "base = 16" "b = base" "pre = [0x30, 0x78]"
    using assms(2) unfolding number_prefix_def by (elim disjE conjE) blast+
  then show ?thesis
  proof cases
    case 1
    then show ?thesis using cstr_hd [OF s, of "0x30"] by (simp add: def)
  next
    case 2
    then show ?thesis using p1 cstr_hd [OF s, of "0x78"] cstr_hd [OF s, of "0x58"] by (simp add: def)
  next
    case 3
    then show ?thesis using p1 p2 by (auto simp: def)
  next
    case 4
    then show ?thesis using cstr_hd [OF s, of "0x30"] cstr_hd2 [OF s, of "0x30" "0x78"] by (auto simp: def Let_def)
  next
    case 5
    then show ?thesis using p1 by (auto simp: def Let_def)
  next
    case 6
    then show ?thesis using p1 p2 by (auto simp: def Let_def)
  qed
qed

lemma strtoul_spec:
  assumes "cstr_at m a (ws @ sg @ pre @ s)" "list_all (\<lambda>c. isspace (char_int c) \<noteq> 0) ws"
    "sg \<in> {[], [0x2b], [0x2d]}" "number_prefix base pre s b" "map digit_val s = map Some ds"
  shows "\<exists>e. strtoul m a (of_nat base) =
      Some (let r = if horner b 0 ds < 2 ^ 64 then of_nat (horner b 0 ds) else - 1
            in if sg = [0x2d] then - r else r, e) \<and>
    (horner b 0 ds < 2 ^ 64 \<longrightarrow> e = (if s = [] then a else a + length (ws @ sg @ pre @ s)))"
proof -
  let ?p = "a + length ws" let ?q = "a + length ws + length sg" let ?r = "a + length ws + length sg + length pre"
  have c: "cstr_at m ?p (sg @ pre @ s)" "cstr_at m ?q (pre @ s)" "cstr_at m ?r s"
    "\<forall>i<length ws. m (a + i) = ws ! i" "\<forall>i<length sg. m (?p + i) = sg ! i"
    using assms(1) by (simp_all add: cstr_at_append add.assoc)
  have b: "0 < b" "b \<le> 36" using assms(4) by (auto simp: number_prefix_def)
  have hd: "m ?q = 0 \<or> (\<exists>d. digit_val (m ?q) = Some d)"
  proof (cases pre)
    case Nil
    then show ?thesis using c(2) assms(5) by (cases s; cases ds) (auto simp: cstr_at_Cons)
  next
    case (Cons x xs)
    then have "x = 0x30" using assms(4) by (auto simp: number_prefix_def)
    then show ?thesis using Cons c(2) by (auto simp: cstr_at_Cons digit_val_def)
  qed
  then have q: "isspace (char_int (m ?q)) = 0" "m ?q \<noteq> 0x2d" "m ?q \<noteq> 0x2b"
    using digit_val_strtoul classes(1) [of 0] by fastforce+
  have sg: "isspace (char_int (m ?p)) = 0" "m ?p = 0x2d \<longleftrightarrow> sg = [0x2d]" "m ?p = 0x2b \<longleftrightarrow> sg = [0x2b]"
    using q assms(3) c(5) classes(1) [of "0x2d"] classes(1) [of "0x2b"] by auto
  have ss: "skip_spaces m a = Some ?p" using skip_spaces_spec [OF assms(2) c(4) sg(1)] .
  have pq: "(if m ?p = 0x2d \<or> m ?p = 0x2b then ?p + 1 else ?p) = ?q" using sg(2,3) assms(3) by auto
  have bs: "strtoul_base m (of_nat base) ?q = (of_nat b, ?r)" using strtoul_base_spec [OF c(2) assms(4)] .
  have cb: "scast (of_nat b :: u32) = (of_nat b :: u64)" using b by (intro scast_small) simp
  have l: "if horner b 0 ds < 2 ^ 64
     then strtoul_loop m (of_nat b) ?r 0 False = Some (of_nat (horner b 0 ds), ?r + length s, False \<or> s \<noteq> [])
     else \<exists>p cs'. strtoul_loop m (of_nat b) ?r 0 False = Some (- 1, p, cs')"
    using b by (intro strtoul_loop_spec [OF c(3) assms(5)]) auto
  have "strtoul m a (of_nat base) = Option.bind (strtoul_loop m (of_nat b) ?r 0 False) (\<lambda>(ret, ptr, consumed).
      Some (if sg = [0x2d] then - ret else ret, if consumed then ptr else a))"
    unfolding strtoul_def ss Option.bind.bind_lunit Let_def by (simp only: pq [unfolded sg(2)] bs prod.case cb sg(2))
  then show ?thesis
    using l by (cases "horner b 0 ds < 2 ^ 64") (auto simp: add.assoc)
qed

lemma reverse_loop_spec:
  "reverse_loop start ptr m x = (if start \<le> x \<and> x \<le> ptr then m (start + ptr - x) else m x)"
proof (induction start ptr m rule: reverse_loop.induct)
  case (1 start ptr m)
  show ?case
  proof (cases "start < ptr")
    case True
    have "reverse_loop start ptr m x = reverse_loop (Suc start) (ptr - 1) (m(ptr := m start, start := m ptr)) x"
      using True by (subst reverse_loop.simps) simp
    also have "\<dots> = (if Suc start \<le> x \<and> x \<le> ptr - 1 then (m(ptr := m start, start := m ptr)) (Suc start + (ptr - 1) - x)
       else (m(ptr := m start, start := m ptr)) x)" by (rule 1 [OF True])
    also have "\<dots> = (if start \<le> x \<and> x \<le> ptr then m (start + ptr - x) else m x)"
      using True by (auto simp: fun_upd_def)
    finally show ?thesis .
  next
    case False
    then have "start \<le> x \<and> x \<le> ptr \<Longrightarrow> start + ptr - x = x" by linarith
    then show ?thesis using False by (subst reverse_loop.simps) auto
  qed
qed

lemma digits_nth:
  assumes "d < 36"
  shows "digit_val (digits ! d) = Some d"
proof (cases "d < 10")
  case True
  then have "digits ! d = word_of_nat (0x30 + d)" by (simp add: digits_def nth_append del: upt_rec_numeral)
  moreover have "unat (word_of_nat (0x30 + d) :: u8) = 0x30 + d"
    using True by (simp only: unat_of_nat) (simp add: take_bit_eq_mod)
  ultimately show ?thesis using True by (simp add: digit_val_def)
next
  case False
  then have "digits ! d = word_of_nat (0x61 + (d - 10))"
    using assms less_diff_conv2 [of 10 d 26] by (simp add: digits_def nth_append del: upt_rec_numeral)
  moreover have "unat (word_of_nat (0x61 + (d - 10)) :: u8) = 0x61 + (d - 10)"
    using assms by (simp only: unat_of_nat) (simp add: take_bit_eq_mod)
  ultimately show ?thesis using False assms by (simp add: digit_val_def)
qed

lemma length_digits: "length digits = 37"
  by (simp add: digits_def)

lemma ulltoa_loop_spec:
  assumes "2 \<le> base" "base \<le> 36"
  shows "\<exists>ds m'. ulltoa_loop value ptr (of_nat base) m = Some (Inr (ptr + length ds, m')) \<and> ds \<noteq> [] \<and>
    (\<forall>d\<in>set ds. d < base) \<and> horner base 0 (rev ds) = unat value \<and> (1 < length ds \<longrightarrow> last ds \<noteq> 0) \<and>
    (\<forall>i<length ds. m' (ptr + i) = digits ! (ds ! i)) \<and> (\<forall>x. x < ptr \<or> ptr + length ds \<le> x \<longrightarrow> m' x = m x)"
proof (induction "unat value" arbitrary: "value" ptr m rule: less_induct)
  case less
  let ?v = "unat value" and ?b = "of_nat base :: u64"
  have b: "unat ?b = base" using assms by (simp only: unat_of_nat) (simp add: take_bit_eq_mod)
  then have b0: "?b \<noteq> 0" using assms by auto
  let ?d = "?v mod base"
  have d: "?d < base" using assms by simp
  then have d37: "\<not> 37 \<le> ?d" using assms by linarith
  have r: "sint (ucast (value mod ?b) :: u32) = int ?d"
  proof -
    have "value mod ?b = of_nat ?d" unfolding word_arith_nat_mod b ..
    moreover have "ucast (of_nat k :: u64) = (of_nat k :: u32)" for k
      by transfer (simp add: take_bit_take_bit min_def)
    moreover have "sint (of_nat ?d :: u32) = int ?d"
      using d assms(2) by (intro sint_small) simp
    ultimately show ?thesis by simp
  qed
  have dv: "unat (value div ?b) = ?v div base" using b by (simp add: unat_div_distrib)
  have step: "ulltoa_loop value ptr ?b m =
      (if value div ?b \<noteq> 0 then ulltoa_loop (value div ?b) (Suc ptr) ?b (m(ptr := digits ! ?d))
       else Some (Inr (Suc ptr, m(ptr := digits ! ?d))))"
    using d37 b0 by (subst ulltoa_loop.simps) (simp add: r length_digits Let_def)
  show ?case
  proof (cases "value div ?b = 0")
    case True
    then have "?v div base = 0" using dv by simp
    then have "?d = ?v" using assms by (simp add: div_eq_0_iff)
    then show ?thesis using True step d by (intro exI [of _ "[?d]"] exI [of _ "m(ptr := digits ! ?d)"]) auto
  next
    case False
    then have nz: "?v div base \<noteq> 0" using dv unsigned_eq_0_iff by metis
    then have "?v div base < ?v" using assms by (intro div_less_dividend) (auto intro: Nat.gr0I)
    from less [of "value div ?b" "Suc ptr" "m(ptr := digits ! ?d)", unfolded dv, OF this]
    obtain ds m' where i: "ulltoa_loop (value div ?b) (Suc ptr) ?b (m(ptr := digits ! ?d)) = Some (Inr (Suc ptr + length ds, m'))"
      "ds \<noteq> []" "\<forall>d\<in>set ds. d < base" "horner base 0 (rev ds) = ?v div base" "1 < length ds \<longrightarrow> last ds \<noteq> 0"
      "\<forall>i<length ds. m' (Suc ptr + i) = digits ! (ds ! i)"
      "\<forall>x. x < Suc ptr \<or> Suc ptr + length ds \<le> x \<longrightarrow> m' x = (m(ptr := digits ! ?d)) x"
      by blast
    have "last ds \<noteq> 0"
      using i(2,4,5) nz by (cases ds) (auto split: if_splits)
    moreover have "horner base 0 (rev (?d # ds)) = ?v" using i(4) by (simp add: horner_append)
    moreover have "\<forall>j<length (?d # ds). m' (ptr + j) = digits ! ((?d # ds) ! j)"
      using i(6) i(7) [rule_format, of ptr] by (auto simp: less_Suc_eq_0_disj)
    ultimately show ?thesis using step False i d
      by (intro exI [of _ "?d # ds"] exI [of _ m']) auto
  qed
qed


definition numeral_of :: "nat \<Rightarrow> nat \<Rightarrow> u8 list \<Rightarrow> bool" where
  "numeral_of base v s \<longleftrightarrow>
     (\<exists>ds. map digit_val s = map Some ds \<and> horner base 0 ds = v \<and> s \<noteq> [] \<and>
        (1 < length s \<longrightarrow> hd ds \<noteq> 0) \<and> (\<forall>d\<in>set ds. d < base))"

lemma ulltoa_spec:
  assumes "2 \<le> base" "base \<le> 36"
  shows "\<exists>m' s. ulltoa value a (of_nat base) m = Some (Inr m') \<and> cstr_at m' a s \<and> numeral_of base (unat value) s \<and>
    (\<forall>x. x < a \<or> a + length s < x \<longrightarrow> m' x = m x)"
proof -
  obtain ds m1 where l: "ulltoa_loop value a (of_nat base) m = Some (Inr (a + length ds, m1))" "ds \<noteq> []"
    "\<forall>d\<in>set ds. d < base" "horner base 0 (rev ds) = unat value" "1 < length ds \<longrightarrow> last ds \<noteq> 0"
    "\<forall>i<length ds. m1 (a + i) = digits ! (ds ! i)" "\<forall>x. x < a \<or> a + length ds \<le> x \<longrightarrow> m1 x = m x"
    using ulltoa_loop_spec [OF assms] by blast
  let ?s = "map (\<lambda>d. digits ! d) (rev ds)"
  let ?m = "reverse_loop a (a + length ds - 1) (m1(a + length ds := 0))"
  have v: "map digit_val ?s = map Some (rev ds)"
    using l(3) assms(2) digits_nth by (fastforce simp: rev_map)
  have cb: "scast (of_nat base :: u32) = (of_nat base :: u64)" using assms by (intro scast_small) simp
  have at: "?m (a + i) = ?s ! i" if "i < length ds" for i
  proof -
    have "a + (a + length ds - 1) - (a + i) = a + (length ds - 1 - i)" "a + i \<le> a + length ds - 1"
      "a + (length ds - 1 - i) \<noteq> a + length ds" using that by linarith+
    then have "?m (a + i) = m1 (a + (length ds - 1 - i))" by (simp only: reverse_loop_spec fun_upd_apply le_add1 simp_thms if_True if_False)
    then show ?thesis using that l(6) [rule_format, of "length ds - 1 - i"] by (simp add: rev_nth)
  qed
  have "?m (a + length ds) = 0" using l(2) by (cases ds) (auto simp: reverse_loop_spec)
  moreover have "0 \<notin> set ?s"
  proof -
    have "digits ! d \<noteq> 0" if "d \<in> set ds" for d
      using that l(3) assms(2) by (intro digit_val_strtoul(3) [OF digits_nth]) auto
    then show ?thesis by (auto simp: image_iff) 
  qed
  ultimately have "cstr_at ?m a ?s" using at by (simp add: cstr_at_def)
  moreover have "numeral_of base (unat value) ?s"
    unfolding numeral_of_def using v l(2,3,4,5) by (intro exI [of _ "rev ds"]) (auto simp: hd_rev)
  moreover have "?m x = m x" if "x < a \<or> a + length ?s < x" for x
    using that l(2,7) by (cases ds) (auto simp: reverse_loop_spec)
  moreover have "ulltoa value a (of_nat base) m = Some (Inr ?m)" by (simp add: ulltoa_def cb l(1))
  ultimately show ?thesis by blast
qed

lemma strtoul_numeral:
  assumes "cstr_at m a (sg @ s)" "sg \<in> {[], [0x2d]}" "numeral_of base v s" "2 \<le> base" "base \<le> 36" "v < 2 ^ 64"
  shows "\<exists>e. strtoul m a (of_nat base) = Some (if sg = [] then of_nat v else - of_nat v, e) \<and>
    (base = 8 \<and> v = 0 \<or> e = a + length (sg @ s))"
proof -
  obtain ds where ds: "map digit_val s = map Some ds" "horner base 0 ds = v" "s \<noteq> []" "1 < length s \<longrightarrow> hd ds \<noteq> 0"
    "\<forall>d\<in>set ds. d < base"
    using assms(3) by (auto simp: numeral_of_def)
  have sg: "sg \<in> {[], [0x2b], [0x2d]}" using assms(2) by auto
  have z: "digit_val 0x30 = Some 0" "digit_val 0x78 = Some 33" by (simp_all add: digit_val_def)
  show ?thesis
  proof (cases "take 1 s = [0x30]")
    case True
    then have s: "s = [0x30]" "ds = [0]" using ds(1,3,4) z by (cases s; cases "tl s"; cases ds; force)+
    show ?thesis
    proof (cases "base = 8")
      case True
      have "number_prefix base [0x30] [] base" using True by (simp add: number_prefix_def)
      from strtoul_spec [of m a "[]" sg "[0x30]" "[]" base base "[]", OF _ _ sg this] show ?thesis
        using assms(1,2) s ds(2) True by auto
    next
      case False
      have "number_prefix base [] s base" using False assms(4,5) s by (simp add: number_prefix_def)
      from strtoul_spec [of m a "[]" sg "[]" s base base ds, OF _ _ sg this ds(1)] show ?thesis
        using assms(1,2) s ds(2) by auto
    qed
  next
    case False
    then have "number_prefix base [] s base" using assms(4,5) by (cases s) (auto simp: number_prefix_def)
    from strtoul_spec [of m a "[]" sg "[]" s base base ds, OF _ _ sg this ds(1)] show ?thesis
      using assms(1,2,6) ds(2,3) by auto
  qed
qed

end
