(* ===== verification/Text_Props.thy ===== *)
theory Text_Props
  imports Stdlib
begin

unbundle bit_operations_syntax

text \<open>
  Properties of the string, character and number routines (\<open>string.c\<close>, \<open>ctype.c\<close>, \<open>stdlib.c\<close>).
\<close>

section \<open>Helper lemmas\<close>

lemma roundtrip_unsigned:
  assumes "2 \<le> base" "base \<le> 36"
  shows "\<exists>m1 s e. ulltoa v a (of_nat base) m = Some (Inr m1) \<and> cstr_at m1 a s \<and> numeral_of base (unat v) s \<and>
    (\<forall>x. x < a \<or> a + length s < x \<longrightarrow> m1 x = m x) \<and>
    strtoul m1 a (of_nat base) = Some (v, e) \<and> (base = 8 \<and> v = 0 \<or> e = a + length s)"
proof -
  obtain m1 s where u: "ulltoa v a (of_nat base) m = Some (Inr m1)" "cstr_at m1 a s" "numeral_of base (unat v) s"
    "\<forall>x. x < a \<or> a + length s < x \<longrightarrow> m1 x = m x"
    using ulltoa_spec [OF assms] by blast
  have "unat v < 2 ^ 64" using unsigned_less [of v] by simp
  from strtoul_numeral [of m1 a "[]" s, OF _ _ u(3) assms this] u(2)
  obtain e where "strtoul m1 a (of_nat base) = Some (v, e)" "base = 8 \<and> unat v = 0 \<or> e = a + length s" by auto
  then show ?thesis using u unsigned_eq_0_iff [of v] by blast
qed

lemma roundtrip_signed:
  assumes "2 \<le> base" "base \<le> 36"
  shows "\<exists>m1 s e. lltoa v a (of_nat base) m = Some (Inr m1) \<and> cstr_at m1 a s \<and>
    (\<forall>x. x < a \<or> a + length s < x \<longrightarrow> m1 x = m x) \<and> strtoul m1 a (of_nat base) = Some (v, e)"
proof (cases "v <s 0")
  case False
  then show ?thesis using roundtrip_unsigned [OF assms, of v a m] by (auto simp: lltoa_def)
next
  case True
  let ?m = "m(a := 0x2d)"
  obtain m1 s where u: "ulltoa (- v) (Suc a) (of_nat base) ?m = Some (Inr m1)" "cstr_at m1 (Suc a) s"
    "numeral_of base (unat (- v)) s" "\<forall>x. x < Suc a \<or> Suc a + length s < x \<longrightarrow> m1 x = ?m x"
    using ulltoa_spec [OF assms] by blast
  have c: "cstr_at m1 a ([0x2d] @ s)" using u(2,4) by (simp add: cstr_at_Cons)
  have "unat (- v) < 2 ^ 64" using unsigned_less [of "- v"] by simp
  from strtoul_numeral [OF c _ u(3) assms this]
  obtain e where e: "strtoul m1 a (of_nat base) = Some (v, e)" by auto
  have "\<forall>x. x < a \<or> a + length ([0x2d] @ s) < x \<longrightarrow> m1 x = m x" using u(4) by auto
  then show ?thesis using True c u(1) e by (auto simp: lltoa_def)
qed

fun le_value :: "u32 \<Rightarrow> u8 list \<Rightarrow> u32" where
  "le_value base [] = 0"
| "le_value base (c # cs) = atoi_digit base c + base * le_value base cs"

lemma atoi_loop_value: "atoi_loop cs base mul acc = acc + mul * le_value base cs"
  by (induction cs arbitrary: mul acc) (simp_all add: algebra_simps)

lemma le_value_rev:
  assumes "map digit_val s = map Some ds" "\<forall>d\<in>set ds. d < 10" "b \<le> 10"
  shows "le_value (of_nat b) (rev s) = of_nat (horner b 0 ds)"
  using assms
proof (induction s arbitrary: ds rule: rev_induct)
  case (snoc c s)
  obtain es d where ds: "ds = es @ [d]" "digit_val c = Some d" "map digit_val s = map Some es" "d < 10"
    using snoc.prems(1,2) by (cases ds rule: rev_cases) auto
  have r: "0x30 \<le> unat c \<and> unat c \<le> 0x39" "d = unat c - 0x30"
    using ds(2,4) by (auto simp: digit_val_def Let_def split: if_splits)
  have nb: "\<not> (of_nat b :: u32) > 10"
  proof -
    have "unat (of_nat b :: u32) = b" using snoc.prems(3) by (simp only: unat_of_nat) (simp add: take_bit_eq_mod)
    then show ?thesis using snoc.prems(3) by (simp add: word_less_nat_alt)
  qed
  have "sint c = int (unat c)"
    using r signed_take_bit_int_eq_self [of 7 "int (unat c)"] by (simp add: sint_uint uint_nat del: of_nat_unat)
  then have "atoi_digit (of_nat b) c = of_nat d"
    using nb r by (simp add: atoi_digit_def of_nat_diff)
  moreover have "le_value (of_nat b) (rev s) = of_nat (horner b 0 es)"
    using snoc.IH [OF ds(3)] snoc.prems(2,3) ds(1) by auto
  ultimately show ?case using ds(1) by (simp add: horner_append algebra_simps)
qed simp

section \<open>Properties\<close>

text \<open>
  C14. The table of \<open>ctype.c\<close> classifies every argument by its low byte exactly as ASCII does.
\<close>

theorem ctype_classes:
  shows "let n = unat (ucast c :: u8) in
    (isdigit c \<noteq> 0 \<longleftrightarrow> n \<in> {0x30..0x39}) \<and> (islower c \<noteq> 0 \<longleftrightarrow> n \<in> {0x61..0x7a}) \<and>
    (isupper c \<noteq> 0 \<longleftrightarrow> n \<in> {0x41..0x5a}) \<and> (isalpha c \<noteq> 0 \<longleftrightarrow> n \<in> {0x41..0x5a} \<union> {0x61..0x7a}) \<and>
    (isxdigit c \<noteq> 0 \<longleftrightarrow> n \<in> {0x30..0x39} \<union> {0x41..0x46} \<union> {0x61..0x66}) \<and>
    (isspace c \<noteq> 0 \<longleftrightarrow> n \<in> {9..13} \<union> {0x20}) \<and> (isprint c \<noteq> 0 \<longleftrightarrow> n \<in> {0x20..0x7e})"
  unfolding isdigit_def islower_def isupper_def isalpha_def isxdigit_def isspace_def isprint_def Let_def
  by (auto simp: class_iffs)

text \<open>
  C15. \<open>ulltoa\<close> ends for every value and base from 2 to 36, writes a numeral without leading zeros and
  its terminator and nothing else, and \<open>strtoul\<close> reads the value back; the same for \<open>lltoa\<close> and
  negative values.
\<close>

theorem ulltoa_strtoul_roundtrip:
  assumes "2 \<le> base" "base \<le> 36"
  shows "(\<exists>m1 s e. ulltoa v a (of_nat base) m = Some (Inr m1) \<and> cstr_at m1 a s \<and> numeral_of base (unat v) s \<and>
      (\<forall>x. x < a \<or> a + length s < x \<longrightarrow> m1 x = m x) \<and>
      strtoul m1 a (of_nat base) = Some (v, e) \<and> (base = 8 \<and> v = 0 \<or> e = a + length s)) \<and>
    (\<exists>m2 s e. lltoa v a (of_nat base) m = Some (Inr m2) \<and> cstr_at m2 a s \<and>
      (\<forall>x. x < a \<or> a + length s < x \<longrightarrow> m2 x = m x) \<and> strtoul m2 a (of_nat base) = Some (v, e))"
  using roundtrip_unsigned [OF assms] roundtrip_signed [OF assms] by blast

theorem ulltoa_strtoul_roundtrip_witness:
  "\<exists>m1 e. ulltoa 255 0 16 (\<lambda>_. 0) = Some (Inr m1) \<and> strtoul m1 0 16 = Some (255, e)"
  using ulltoa_strtoul_roundtrip [of 16 255 0 "\<lambda>_. 0"] by auto

text \<open>
  C16. \<open>strtoul\<close> on white space, an optional sign, an optional prefix that fixes the base, and digits
  up to the end of the string: it returns the value, or all ones when it does not fit, negated after
  a minus sign; the end pointer is the end of the string, and its start when there are no digits.
\<close>

theorem strtoul_parses:
  assumes "cstr_at m a (ws @ sg @ pre @ s)" "list_all (\<lambda>c. isspace (char_int c) \<noteq> 0) ws"
    "sg \<in> {[], [0x2b], [0x2d]}" "number_prefix base pre s b" "map digit_val s = map Some ds"
  shows "\<exists>e. strtoul m a (of_nat base) =
      Some (let r = if horner b 0 ds < 2 ^ 64 then of_nat (horner b 0 ds) else - 1
            in if sg = [0x2d] then - r else r, e) \<and>
    (horner b 0 ds < 2 ^ 64 \<longrightarrow> e = (if s = [] then a else a + length (ws @ sg @ pre @ s)))"
  by (rule strtoul_spec [OF assms])

definition text_at :: "u8 list \<Rightarrow> memory" where
  "text_at s = (\<lambda>i. if i < length s then s ! i else 0)"

lemma text_at_cstr: "0 \<notin> set s \<Longrightarrow> cstr_at (text_at s) 0 s"
  by (simp add: cstr_at_def text_at_def)

text \<open>The text \<open> -0x1f\<close> in base 0.\<close>

theorem strtoul_parses_witness:
  "\<exists>e. strtoul (text_at [0x20, 0x2d, 0x30, 0x78, 0x31, 0x66]) 0 0 = Some (- 31, e) \<and> e = 6"
proof -
  have c: "cstr_at (text_at [0x20, 0x2d, 0x30, 0x78, 0x31, 0x66]) 0 ([0x20] @ [0x2d] @ [0x30, 0x78] @ [0x31, 0x66])"
    using text_at_cstr [of "[0x20, 0x2d, 0x30, 0x78, 0x31, 0x66]"] by simp
  have "list_all (\<lambda>c. isspace (char_int c) \<noteq> 0) [0x20]" using classes(1) [of "0x20"] by simp
  moreover have "number_prefix 0 [0x30, 0x78] [0x31, 0x66] 16" by (simp add: number_prefix_def)
  moreover have "map digit_val [0x31, 0x66] = map Some [1, 15]" by (simp add: digit_val_def)
  ultimately show ?thesis using strtoul_parses [OF c, of 0 16 "[1, 15]"] by simp
qed

text \<open>
  \<open>strtoul\<close> does not stop at a character that is no digit of the base: \<open>12z\<close> in base 10 is read as
  1 * 100 + 2 * 10 + 35.
\<close>

theorem strtoul_ignores_base: "strtoul (text_at [0x31, 0x32, 0x7a]) 0 10 = Some (155, 3)"
proof -
  have "number_prefix 10 [] [0x31, 0x32, 0x7a] 10" by (simp add: number_prefix_def)
  moreover have "map digit_val [0x31, 0x32, 0x7a] = map Some [1, 2, 35]" by (simp add: digit_val_def)
  ultimately show ?thesis
    using strtoul_spec [of "text_at [0x31, 0x32, 0x7a]" 0 "[]" "[]" "[]" "[0x31, 0x32, 0x7a]" 10 10 "[1, 2, 35]"]
      text_at_cstr [of "[0x31, 0x32, 0x7a]"] by simp
qed

text \<open>
  \<open>atoi\<close> of decimal digits is their value in the base, modulo \<open>2 ^ 32\<close>, for any base up to 10.
\<close>

theorem atoi_decimal:
  assumes "map digit_val buf = map Some ds" "\<forall>d\<in>set ds. d < 10" "base \<le> 10"
  shows "atoi buf (of_nat base) = of_nat (horner base 0 ds)"
  by (simp add: atoi_def atoi_loop_value le_value_rev [OF assms])

theorem atoi_decimal_witness: "atoi [0x34, 0x30, 0x37] 10 = 407"
  using atoi_decimal [of "[0x34, 0x30, 0x37]" "[4, 0, 7]" 10] by (simp add: digit_val_def)

text \<open>
  For bases above 10 the digit of \<open>atoi\<close> is the distance to the nearer of the letters A and a: A
  counts 0 and F counts 5, and the digit 9 counts 8.
\<close>

theorem atoi_hex_letters: "atoi [0x41] 16 = 0 \<and> atoi [0x66] 16 = 5 \<and> atoi [0x39] 16 = 8"
  by (simp add: atoi_def atoi_digit_def min_macro_def abs_macro_def)

text \<open>
  \<open>str_compare\<close> orders two blocks by their first difference, as signed characters.
\<close>

theorem str_compare_spec:
  "str_compare m a b n \<in> {- 1, 0, 1} \<and>
   (str_compare m a b n = 0 \<longleftrightarrow> (\<forall>i<n. m (a + i) = m (b + i))) \<and>
   (str_compare m a b n = - 1 \<longleftrightarrow> (\<exists>k<n. m (a + k) <s m (b + k) \<and> (\<forall>i<k. m (a + i) = m (b + i))))"
proof (induction n arbitrary: a b)
  case (Suc n)
  have all: "(\<forall>i<Suc k. P i) \<longleftrightarrow> P 0 \<and> (\<forall>i<k. P (Suc i))" for P and k :: nat by (auto simp: less_Suc_eq_0_disj)
  have ex: "(\<exists>k<Suc n. P k) \<longleftrightarrow> P 0 \<or> (\<exists>k<n. P (Suc k))" for P by (auto simp: less_Suc_eq_0_disj)
  show ?case
    using Suc.IH [of "Suc a" "Suc b"] signed.less_linear [of "m a" "m b"]
    unfolding ex all by (auto simp: all)
qed simp

theorem str_compare_spec_witness: "str_compare (text_at [0x61, 0x62]) 0 1 1 = - 1"
proof -
  have "\<exists>k<1. text_at [0x61, 0x62] (0 + k) <s text_at [0x61, 0x62] (1 + k) \<and>
      (\<forall>i<k. text_at [0x61, 0x62] (0 + i) = text_at [0x61, 0x62] (1 + i))"
    by (simp add: text_at_def)
  then show ?thesis using str_compare_spec [of "text_at [0x61, 0x62]" 0 1 1] by blast
qed

end
