(* ===== verification/Sched.thy ===== *)
theory Sched
  imports KList
begin

text \<open>
  Scheduling and synchronisation: the preemption counter and the locks of \<open>spinlock.c\<close>, the run queue
  and the switching of \<open>threads.c\<close>, and the wait queues of \<open>mutex.c\<close> and \<open>condition.c\<close>.

  There is one processor.  A call of \<open>__thread_switch\<close> saves the registers of \<open>current\<close> and goes on
  after the call that the next thread once made itself (or in \<open>thread_entry\<close>, the first time); both go
  straight to \<open>place_thread\<close>.  So a switch is one state transition, \<open>place_thread next\<close>, after which the
  code runs in the next thread.  The one local variable that survives a switch is the flag with which
  \<open>schedule\<close> restores the interrupts; the state keeps it per suspended thread.  What a thread does after
  it is resumed is the subject of \<open>Sched_Machine\<close>.
\<close>

section \<open>State\<close>

type_synonym tid = nat
type_synonym mid = nat
type_synonym cid = nat

datatype thread_state = THREAD_IDLE | THREAD_ACTIVE | THREAD_BLOCKED | THREAD_FINISHING | THREAD_FINISHED

text \<open>
  The fields of \<open>struct thread\<close> the scheduler works on; \<open>ll\<close> is the list node \<open>ThreadLL\<close>.  The stack of
  a thread and its allocation are modelled in \<open>Threads\<close>.
\<close>

record thread =
  tstate :: thread_state
  ttime :: u64

text \<open>
  List nodes: the run queue, the queues of mutexes and condition variables, the local list of
  \<open>condition_broadcast\<close>, the \<open>ll\<close> of a thread, and the \<open>struct wait\<close> on the stack of a blocked thread,
  whose field \<open>thread\<close> is that thread.
\<close>

datatype qnode = RunQ | MutexQ mid | CondQ cid | BcastQ | ThreadLL tid | WaitLL tid

record sched =
  current :: tid
  idle_thread :: "tid option"
  threads :: "tid \<Rightarrow> thread option"
  qlinks :: "qnode lheap"
  locked :: "mid \<Rightarrow> bool"
  preempt_cnt :: int
  jiffies :: u64
  ints_on :: bool
  tss_rsp0 :: "tid option"
  resume_ints :: "tid \<Rightarrow> bool"

text \<open>
  \<open>tss_rsp0\<close> is the thread whose stack end is in \<open>tss.rsp[0]\<close>, the stack the processor takes when it
  leaves user mode; before the first switch it is the bootstrap stack.
\<close>

definition SLICE :: u64 where "SLICE = 10"

definition rd_thread :: "tid \<Rightarrow> sched \<Rightarrow> thread res" where
  "rd_thread t s = (case threads s t of None \<Rightarrow> Inl Fault | Some th \<Rightarrow> Inr th)"

definition set_state :: "tid \<Rightarrow> thread_state \<Rightarrow> sched \<Rightarrow> sched res" where
  "set_state t st s = bindE (rd_thread t s) (\<lambda>th. Inr (s\<lparr>threads := (threads s)(t \<mapsto> th\<lparr>tstate := st\<rparr>)\<rparr>))"

definition set_time :: "tid \<Rightarrow> u64 \<Rightarrow> sched \<Rightarrow> sched res" where
  "set_time t tm s = bindE (rd_thread t s) (\<lambda>th. Inr (s\<lparr>threads := (threads s)(t \<mapsto> th\<lparr>ttime := tm\<rparr>)\<rparr>))"

definition with_q :: "(qnode lheap \<Rightarrow> qnode lheap res) \<Rightarrow> sched \<Rightarrow> sched res" where
  "with_q f s = bindE (f (qlinks s)) (\<lambda>l. Inr (s\<lparr>qlinks := l\<rparr>))"

section \<open>spinlock.c\<close>

definition disable_preempt :: "sched \<Rightarrow> sched" where
  "disable_preempt s = s\<lparr>preempt_cnt := preempt_cnt s + 1\<rparr>"

definition enable_preempt :: "sched \<Rightarrow> sched" where
  "enable_preempt s = s\<lparr>preempt_cnt := preempt_cnt s - 1\<rparr>"

definition spin_lock :: "sched \<Rightarrow> sched" where "spin_lock s = disable_preempt s"
definition spin_unlock :: "sched \<Rightarrow> sched" where "spin_unlock s = enable_preempt s"

definition spin_lock_irqsave :: "sched \<Rightarrow> bool \<times> sched" where
  "spin_lock_irqsave s = (ints_on s, spin_lock (s\<lparr>ints_on := False\<rparr>))"

definition spin_unlock_irqrestore :: "bool \<Rightarrow> sched \<Rightarrow> sched" where
  "spin_unlock_irqrestore enable s =
     (let s = spin_unlock s in if enable then s\<lparr>ints_on := True\<rparr> else s)"

section \<open>threads.c\<close>

definition place_thread :: "tid \<Rightarrow> sched \<Rightarrow> sched res" where
  "place_thread next' s =
     (let prev = current s
      in bindE (rd_thread prev s) (\<lambda>th.
         bindE (if tstate th = THREAD_FINISHING then set_state prev THREAD_FINISHED s else Inr s) (\<lambda>s.
         let s = s\<lparr>tss_rsp0 := Some prev\<rparr> in
         bindE (rd_thread prev s) (\<lambda>th.
         bindE (let s = spin_lock s
                in if tstate th = THREAD_ACTIVE then with_q (list_add_tail (ThreadLL prev) RunQ) s else Inr s) (\<lambda>s.
         let s = spin_unlock s in
         set_time next' (jiffies s) (s\<lparr>current := next'\<rparr>))))))"

definition thread_activate :: "tid \<Rightarrow> sched \<Rightarrow> sched res" where
  "thread_activate t s =
     (let (enable, s) = spin_lock_irqsave s
      in bindE (rd_thread t s) (\<lambda>th.
         bindE (if tstate th = THREAD_BLOCKED
                then bindE (set_state t THREAD_ACTIVE s) (with_q (list_add_tail (ThreadLL t) RunQ))
                else Inr s) (\<lambda>s.
         Inr (spin_unlock_irqrestore enable s))))"

text \<open>The message that \<open>thread_switch_to\<close> prints reads the two threads and changes nothing.\<close>

definition thread_switch_to :: "tid \<Rightarrow> sched \<Rightarrow> sched res" where
  "thread_switch_to next' s =
     bindE (rd_thread (current s) s) (\<lambda>_. bindE (rd_thread next' s) (\<lambda>_. place_thread next' s))"

text \<open>The first entry of the run queue, taken off, or \<open>idle_thread\<close>.\<close>

definition pick_next :: "sched \<Rightarrow> (tid option \<times> sched) res" where
  "pick_next s =
     bindE (list_empty RunQ (qlinks s)) (\<lambda>e.
     if \<not> e then
       bindE (list_first RunQ (qlinks s)) (\<lambda>ptr.
       case ptr of
         Some (ThreadLL t) \<Rightarrow> bindE (with_q (list_del (ThreadLL t)) s) (\<lambda>s. Inr (Some t, s))
       | _ \<Rightarrow> Inl Fault)
     else Inr (idle_thread s, s))"

definition schedule_inner :: "bool \<Rightarrow> sched \<Rightarrow> sched res" where
  "schedule_inner force s =
     (let time = jiffies s; prev = current s
      in bindE (rd_thread prev s) (\<lambda>th.
         if \<not> force \<and> tstate th = THREAD_ACTIVE \<and> time - ttime th < SLICE then Inr s
         else
           bindE (pick_next (spin_lock s)) (\<lambda>(next', s).
           let s = spin_unlock s in
           if Some prev = next' then Inr s
           else case next' of
             None \<Rightarrow> Inr s
           | Some n \<Rightarrow>
               if next' \<noteq> idle_thread s \<or> tstate th \<noteq> THREAD_ACTIVE then thread_switch_to n s else Inr s)))"

text \<open>
  \<open>enable\<close> is the local variable of \<open>schedule\<close>: after \<open>__schedule\<close> the code runs in whatever thread is
  current, with the variable of that thread.
\<close>

definition schedule_with :: "bool \<Rightarrow> bool \<Rightarrow> sched \<Rightarrow> sched res" where
  "schedule_with force enable s =
     bindE (schedule_inner force
              (s\<lparr>ints_on := False, resume_ints := (resume_ints s)(current s := enable)\<rparr>)) (\<lambda>s.
     Inr (if resume_ints s (current s) then s\<lparr>ints_on := True\<rparr> else s))"

definition schedule :: "sched \<Rightarrow> sched res" where
  "schedule s = (if preempt_cnt s \<noteq> 0 then Inr s else schedule_with False (ints_on s) s)"

definition force_schedule :: "sched \<Rightarrow> sched res" where
  "force_schedule s = bug_on (preempt_cnt s \<noteq> 0) (schedule_with True (ints_on s) s)"

text \<open>
  The first part of \<open>thread_exit\<close> and of \<open>idle\<close>, before their endless loops of \<open>force_schedule\<close>.
\<close>

definition thread_exit_begin :: "sched \<Rightarrow> sched res" where
  "thread_exit_begin s = set_state (current s) THREAD_FINISHING s"

definition idle_begin :: "sched \<Rightarrow> sched res" where
  "idle_begin s =
     bug_on (idle_thread s \<noteq> None)
       (set_state (current s) THREAD_IDLE (s\<lparr>idle_thread := Some (current s)\<rparr>))"

text \<open>The test of the loop of \<open>thread_join\<close>.\<close>

definition thread_join_done :: "tid \<Rightarrow> sched \<Rightarrow> bool res" where
  "thread_join_done t s = bindE (rd_thread t s) (\<lambda>th. Inr (tstate th = THREAD_FINISHED))"

text \<open>
  The timer interrupt of \<open>time.c\<close>.  It is taken with the interrupts off, and the return from the
  interrupt turns them on again in the thread it interrupted, so that is the flag that survives a switch.
\<close>

definition pit_handler :: "sched \<Rightarrow> sched res" where
  "pit_handler s =
     (let s = s\<lparr>ints_on := False, jiffies := jiffies s + 1\<rparr>
      in if preempt_cnt s \<noteq> 0 then Inr (s\<lparr>ints_on := True\<rparr>) else schedule_with False True s)"

definition current_time :: "sched \<Rightarrow> u64" where "current_time s = jiffies s"

section \<open>mutex.c\<close>

definition mutex_setup :: "mid \<Rightarrow> sched \<Rightarrow> sched res" where
  "mutex_setup m s =
     bindE (with_q (list_init (MutexQ m)) s) (\<lambda>s. Inr (s\<lparr>locked := (locked s)(m := False)\<rparr>))"

text \<open>A \<open>struct wait\<close> comes into being with whatever its memory holds.\<close>

definition new_wait :: "tid \<Rightarrow> sched \<Rightarrow> sched" where
  "new_wait t s = s\<lparr>qlinks := (qlinks s)(WaitLL t \<mapsto> \<lparr>nxt = None, prv = None\<rparr>)\<rparr>"

definition mutex_lock :: "mid \<Rightarrow> sched \<Rightarrow> sched res" where
  "mutex_lock m s =
     (let (enable, s) = spin_lock_irqsave s
      in if locked s m then
           (let self = current s
            in bindE (set_state self THREAD_BLOCKED (new_wait self s)) (\<lambda>s.
               bindE (with_q (list_add_tail (WaitLL self) (MutexQ m)) s) (\<lambda>s.
               schedule (spin_unlock_irqrestore enable s))))
         else Inr (spin_unlock_irqrestore enable (s\<lparr>locked := (locked s)(m := True)\<rparr>)))"

text \<open>\<open>(struct wait *)list_first(...)\<close> taken off its queue, and its thread activated.\<close>

definition wake_first :: "qnode \<Rightarrow> sched \<Rightarrow> sched res" where
  "wake_first q s =
     bindE (list_first q (qlinks s)) (\<lambda>ptr.
     case ptr of
       Some (WaitLL t) \<Rightarrow> bindE (with_q (list_del (WaitLL t)) s) (thread_activate t)
     | _ \<Rightarrow> Inl Fault)"

definition mutex_unlock :: "mid \<Rightarrow> sched \<Rightarrow> sched res" where
  "mutex_unlock m s =
     (let (enable, s) = spin_lock_irqsave s
      in bindE (list_empty (MutexQ m) (qlinks s)) (\<lambda>e.
         if e then Inr (spin_unlock_irqrestore enable (s\<lparr>locked := (locked s)(m := False)\<rparr>))
         else bindE (wake_first (MutexQ m) s) (\<lambda>s. Inr (spin_unlock_irqrestore enable s))))"

section \<open>condition.c\<close>

definition condition_setup :: "cid \<Rightarrow> sched \<Rightarrow> sched res" where
  "condition_setup c s = with_q (list_init (CondQ c)) s"

text \<open>
  \<open>condition_wait\<close> up to its call of \<open>schedule\<close>; the call of \<open>mutex_lock\<close> that follows is made when the
  thread runs again.
\<close>

definition condition_wait_begin :: "cid \<Rightarrow> mid \<Rightarrow> sched \<Rightarrow> sched res" where
  "condition_wait_begin c m s =
     (let self = current s; (enable, s) = spin_lock_irqsave (new_wait self s)
      in bindE (set_state self THREAD_BLOCKED s) (\<lambda>s.
         bindE (with_q (list_add_tail (WaitLL self) (CondQ c)) s) (\<lambda>s.
         bindE (mutex_unlock m s) (\<lambda>s.
         schedule (spin_unlock_irqrestore enable s)))))"

definition condition_signal :: "cid \<Rightarrow> sched \<Rightarrow> sched res" where
  "condition_signal c s =
     (let (enable, s) = spin_lock_irqsave s
      in bindE (list_empty (CondQ c) (qlinks s)) (\<lambda>e.
         bindE (if \<not> e then wake_first (CondQ c) s else Inr s) (\<lambda>s.
         Inr (spin_unlock_irqrestore enable s))))"

partial_function (option) broadcast_loop :: "qnode option \<Rightarrow> sched \<Rightarrow> sched res option" where
  "broadcast_loop ptr s =
     (if ptr = Some BcastQ then Some (Inr s)
      else case ptr of
        Some (WaitLL t) \<Rightarrow>
          (case rd_node (qlinks s) ptr of
             Inl e \<Rightarrow> Some (Inl e)
           | Inr n \<Rightarrow>
               (case thread_activate t s of
                  Inl e \<Rightarrow> Some (Inl e)
                | Inr s \<Rightarrow> broadcast_loop (nxt n) s))
      | _ \<Rightarrow> Some (Inl Fault))"

definition condition_broadcast :: "cid \<Rightarrow> sched \<Rightarrow> sched res option" where
  "condition_broadcast c s =
     (case (let (enable, s) = spin_lock_irqsave (s\<lparr>qlinks := (qlinks s)(BcastQ \<mapsto> \<lparr>nxt = None, prv = None\<rparr>)\<rparr>)
            in bindE (with_q (list_init BcastQ) s) (\<lambda>s.
               bindE (with_q (list_splice (CondQ c) BcastQ) s) (\<lambda>s.
               let s = spin_unlock_irqrestore enable s in
               bindE (list_first BcastQ (qlinks s)) (\<lambda>ptr. Inr (ptr, s))))) of
        Inl e \<Rightarrow> Some (Inl e)
      | Inr (ptr, s) \<Rightarrow> broadcast_loop ptr s)"

end
