(* ===== verification/Sched_Spec.thy ===== *)
theory Sched_Spec
  imports Sched
begin

text \<open>
  The specification of the scheduler: the queues are lists of threads and there are neither links nor
  locks nor interrupt flags.  Every operation of \<open>Sched\<close> refines the operation with the same name and
  the prefix \<open>a\<close>: related states stay related, and no operation traps.
\<close>

section \<open>The abstract scheduler\<close>

record asys =
  acur :: tid
  aidle :: "tid option"
  athr :: "tid \<Rightarrow> thread option"
  arq :: "tid list"
  amq :: "mid \<Rightarrow> tid list"
  acq :: "cid \<Rightarrow> tid list"
  abq :: "tid list"
  alocked :: "mid \<Rightarrow> bool"
  ajif :: u64

definition astate :: "asys \<Rightarrow> tid \<Rightarrow> thread_state option" where
  "astate a t = map_option tstate (athr a t)"

definition aset :: "tid \<Rightarrow> thread_state \<Rightarrow> asys \<Rightarrow> asys" where
  "aset t st a = a\<lparr>athr := (athr a)(t := map_option (\<lambda>th. th\<lparr>tstate := st\<rparr>) (athr a t))\<rparr>"

definition astamp :: "tid \<Rightarrow> asys \<Rightarrow> asys" where
  "astamp t a = a\<lparr>athr := (athr a)(t := map_option (\<lambda>th. th\<lparr>ttime := ajif a\<rparr>) (athr a t))\<rparr>"

definition aactivate :: "tid \<Rightarrow> asys \<Rightarrow> asys" where
  "aactivate t a =
     (if astate a t = Some THREAD_BLOCKED then (aset t THREAD_ACTIVE a)\<lparr>arq := arq a @ [t]\<rparr> else a)"

text \<open>The processor goes to another thread: the old one queues up behind the others if it can run.\<close>

definition aswitch :: "tid \<Rightarrow> asys \<Rightarrow> asys" where
  "aswitch n a =
     (let p = acur a;
          a = (case astate a p of
                 Some THREAD_FINISHING \<Rightarrow> aset p THREAD_FINISHED a
               | Some THREAD_ACTIVE \<Rightarrow> a\<lparr>arq := arq a @ [p]\<rparr>
               | _ \<Rightarrow> a)
      in astamp n (a\<lparr>acur := n\<rparr>))"

definition aslice_left :: "asys \<Rightarrow> bool" where
  "aslice_left a =
     (case athr a (acur a) of None \<Rightarrow> False
      | Some th \<Rightarrow> tstate th = THREAD_ACTIVE \<and> ajif a - ttime th < SLICE)"

definition asched :: "bool \<Rightarrow> asys \<Rightarrow> asys" where
  "asched force a =
     (if \<not> force \<and> aslice_left a then a
      else case arq a of
        t # ts \<Rightarrow> aswitch t (a\<lparr>arq := ts\<rparr>)
      | [] \<Rightarrow>
          (case aidle a of
             None \<Rightarrow> a
           | Some i \<Rightarrow>
               if i \<noteq> acur a \<and> astate a (acur a) \<noteq> Some THREAD_ACTIVE then aswitch i a else a))"

definition atick :: "asys \<Rightarrow> asys" where
  "atick a = asched False (a\<lparr>ajif := ajif a + 1\<rparr>)"

definition alock :: "mid \<Rightarrow> asys \<Rightarrow> asys" where
  "alock m a =
     (if alocked a m
      then asched False ((aset (acur a) THREAD_BLOCKED a)\<lparr>amq := (amq a)(m := amq a m @ [acur a])\<rparr>)
      else a\<lparr>alocked := (alocked a)(m := True)\<rparr>)"

definition aunlock :: "mid \<Rightarrow> asys \<Rightarrow> asys" where
  "aunlock m a =
     (case amq a m of
        [] \<Rightarrow> a\<lparr>alocked := (alocked a)(m := False)\<rparr>
      | t # ts \<Rightarrow> aactivate t (a\<lparr>amq := (amq a)(m := ts)\<rparr>))"

definition await :: "cid \<Rightarrow> mid \<Rightarrow> asys \<Rightarrow> asys" where
  "await c m a =
     asched False (aunlock m ((aset (acur a) THREAD_BLOCKED a)\<lparr>acq := (acq a)(c := acq a c @ [acur a])\<rparr>))"

definition asignal :: "cid \<Rightarrow> asys \<Rightarrow> asys" where
  "asignal c a = (case acq a c of [] \<Rightarrow> a | t # ts \<Rightarrow> aactivate t (a\<lparr>acq := (acq a)(c := ts)\<rparr>))"

text \<open>\<open>abq\<close> stands for the local list of a broadcast, which is gone when it returns.\<close>

definition abroadcast :: "cid \<Rightarrow> asys \<Rightarrow> asys" where
  "abroadcast c a = fold aactivate (acq a c) (a\<lparr>acq := (acq a)(c := [])\<rparr>)"

section \<open>The relation between the two\<close>

definition queues :: "asys \<Rightarrow> qnode \<Rightarrow> qnode list" where
  "queues a q = (case q of
     RunQ \<Rightarrow> map ThreadLL (arq a)
   | MutexQ m \<Rightarrow> map WaitLL (amq a m)
   | CondQ c \<Rightarrow> map WaitLL (acq a c)
   | BcastQ \<Rightarrow> map WaitLL (abq a)
   | _ \<Rightarrow> [])"

text \<open>The heads in use: the run queue and the queues that were set up.\<close>

definition good_heads :: "qnode set \<Rightarrow> bool" where
  "good_heads H \<longleftrightarrow> RunQ \<in> H \<and> (\<forall>t. ThreadLL t \<notin> H \<and> WaitLL t \<notin> H)"

definition heads :: "mid set \<Rightarrow> cid set \<Rightarrow> qnode set" where
  "heads M C = insert RunQ (MutexQ ` M \<union> CondQ ` C)"

definition sim :: "qnode set \<Rightarrow> sched \<Rightarrow> asys \<Rightarrow> bool" where
  "sim H s a \<longleftrightarrow> good_heads H \<and>
     current s = acur a \<and> idle_thread s = aidle a \<and> threads s = athr a \<and> locked s = alocked a \<and>
     jiffies s = ajif a \<and> lists_rep (qlinks s) H (queues a) \<and>
     ThreadLL ` dom (athr a) \<subseteq> dom (qlinks s)"

definition same_flags :: "sched \<Rightarrow> sched \<Rightarrow> bool" where
  "same_flags s s' \<longleftrightarrow> preempt_cnt s' = preempt_cnt s \<and> ints_on s' = ints_on s \<and> resume_ints s' = resume_ints s"

named_theorems sched_simps \<open>unfolding the bookkeeping of the scheduler\<close>

lemmas [sched_simps] = disable_preempt_def enable_preempt_def spin_lock_def spin_unlock_def
  spin_lock_irqsave_def spin_unlock_irqrestore_def Let_def

lemma sim_flags [simp]:
  "sim H (s\<lparr>ints_on := i\<rparr>) a = sim H s a"
  "sim H (s\<lparr>preempt_cnt := p\<rparr>) a = sim H s a"
  "sim H (s\<lparr>resume_ints := r\<rparr>) a = sim H s a"
  "sim H (s\<lparr>tss_rsp0 := k\<rparr>) a = sim H s a"
  by (simp_all add: sim_def)

lemma sim_fields:
  "sim H s a \<Longrightarrow> current s = acur a" "sim H s a \<Longrightarrow> idle_thread s = aidle a"
  "sim H s a \<Longrightarrow> threads s = athr a" "sim H s a \<Longrightarrow> locked s = alocked a"
  "sim H s a \<Longrightarrow> jiffies s = ajif a" "sim H s a \<Longrightarrow> lists_rep (qlinks s) H (queues a)"
  "sim H s a \<Longrightarrow> RunQ \<in> H" "sim H s a \<Longrightarrow> good_heads H"
  by (simp_all add: sim_def good_heads_def)

lemma queues_upd [simp]:
  "queues (a\<lparr>arq := x\<rparr>) = (queues a)(RunQ := map ThreadLL x)"
  "queues (a\<lparr>amq := (amq a)(m := y)\<rparr>) = (queues a)(MutexQ m := map WaitLL y)"
  "queues (a\<lparr>acq := (acq a)(c := y)\<rparr>) = (queues a)(CondQ c := map WaitLL y)"
  "queues (a\<lparr>athr := t\<rparr>) = queues a" "queues (a\<lparr>acur := n\<rparr>) = queues a"
  "queues (a\<lparr>abq := z\<rparr>) = (queues a)(BcastQ := map WaitLL z)"
  "queues (a\<lparr>alocked := l\<rparr>) = queues a" "queues (a\<lparr>ajif := j\<rparr>) = queues a"
  by (auto simp: queues_def fun_eq_iff split: qnode.splits)

lemma queues_at [simp]:
  "queues a RunQ = map ThreadLL (arq a)" "queues a (MutexQ m) = map WaitLL (amq a m)"
  "queues a (CondQ c) = map WaitLL (acq a c)" "queues a BcastQ = map WaitLL (abq a)"
  by (simp_all add: queues_def)

lemma heads_mem [simp]:
  "RunQ \<in> heads M C" "MutexQ m \<in> heads M C \<longleftrightarrow> m \<in> M" "CondQ c \<in> heads M C \<longleftrightarrow> c \<in> C"
  "good_heads (heads M C)" "BcastQ \<notin> heads M C"
  by (auto simp: heads_def good_heads_def)

text \<open>The queue a node is on: threads wait on the run queue only, waits on the others only.\<close>

definition waiting :: "asys \<Rightarrow> tid \<Rightarrow> bool" where
  "waiting a t \<longleftrightarrow> (\<exists>m. t \<in> set (amq a m)) \<or> (\<exists>c. t \<in> set (acq a c)) \<or> t \<in> set (abq a)"

lemma thread_node_free: "good_heads H \<Longrightarrow> t \<notin> set (arq a) \<Longrightarrow> \<forall>b\<in>H. ThreadLL t \<notin> set (b # queues a b)"
  by (auto simp: good_heads_def queues_def split: qnode.splits)

lemma wait_node_free: "good_heads H \<Longrightarrow> \<not> waiting a t \<Longrightarrow> \<forall>b\<in>H. WaitLL t \<notin> set (b # queues a b)"
  by (auto simp: good_heads_def queues_def waiting_def split: qnode.splits)

lemma astate_simps [simp]:
  "astate (a\<lparr>arq := x\<rparr>) = astate a" "astate (a\<lparr>amq := y\<rparr>) = astate a" "astate (a\<lparr>acq := z\<rparr>) = astate a"
  "astate (a\<lparr>abq := w\<rparr>) = astate a"
  "astate (a\<lparr>acur := n\<rparr>) = astate a" "astate (a\<lparr>alocked := l\<rparr>) = astate a" "astate (a\<lparr>ajif := j\<rparr>) = astate a"
  by (simp_all add: astate_def fun_eq_iff)

lemma astate_upd [simp]:
  "astate (aset t st a) u = (if u = t then map_option (\<lambda>_. st) (astate a t) else astate a u)"
  "astate (astamp t a) u = astate a u"
  by (auto simp: astate_def aset_def astamp_def option.map_comp comp_def intro: option.map_cong)

lemma aset_fields [simp]:
  "acur (aset t st a) = acur a" "aidle (aset t st a) = aidle a" "arq (aset t st a) = arq a"
  "amq (aset t st a) = amq a" "acq (aset t st a) = acq a" "abq (aset t st a) = abq a" "alocked (aset t st a) = alocked a"
  "ajif (aset t st a) = ajif a"
  by (simp_all add: aset_def)

lemma astamp_fields [simp]:
  "acur (astamp t a) = acur a" "aidle (astamp t a) = aidle a" "arq (astamp t a) = arq a"
  "amq (astamp t a) = amq a" "acq (astamp t a) = acq a" "abq (astamp t a) = abq a" "alocked (astamp t a) = alocked a"
  "ajif (astamp t a) = ajif a"
  by (simp_all add: astamp_def)

section \<open>The operations refine their specification\<close>

lemma rd_thread_sim: "sim H s a \<Longrightarrow> astate a t = Some st \<Longrightarrow> \<exists>th. rd_thread t s = Inr th \<and> athr a t = Some th \<and> tstate th = st"
  by (auto simp: rd_thread_def sim_def astate_def)

lemma set_state_sim:
  assumes "sim H s a" "astate a t \<noteq> None"
  shows "\<exists>s'. set_state t st s = Inr s' \<and> sim H s' (aset t st a) \<and> same_flags s s'"
proof -
  obtain th where "threads s t = Some th" "athr a t = Some th" using assms by (auto simp: sim_def astate_def)
  then show ?thesis
    using assms(1) by (auto simp: set_state_def rd_thread_def same_flags_def sim_def aset_def queues_def [abs_def])
qed

lemma set_time_sim:
  assumes "sim H s a" "astate a t \<noteq> None"
  shows "\<exists>s'. set_time t (jiffies s) s = Inr s' \<and> sim H s' (astamp t a) \<and> same_flags s s'"
proof -
  obtain th where "threads s t = Some th" "athr a t = Some th" using assms by (auto simp: sim_def astate_def)
  then show ?thesis
    using assms(1) by (auto simp: set_time_def rd_thread_def same_flags_def sim_def astamp_def queues_def [abs_def])
qed

lemma with_q_sim:
  assumes "sim H s a" "f (qlinks s) = Inr l" "lists_rep l H (queues b)" "dom l = dom (qlinks s)"
    "acur b = acur a" "aidle b = aidle a" "athr b = athr a" "alocked b = alocked a" "ajif b = ajif a"
  shows "\<exists>s'. with_q f s = Inr s' \<and> sim H s' b \<and> same_flags s s'"
  using assms by (auto simp: with_q_def sim_def same_flags_def)

lemma enqueue_thread_sim:
  assumes "sim H s a" "t \<notin> set (arq a)" "astate a t \<noteq> None"
  shows "\<exists>s'. with_q (list_add_tail (ThreadLL t) RunQ) s = Inr s' \<and> sim H s' (a\<lparr>arq := arq a @ [t]\<rparr>) \<and>
    same_flags s s'"
proof -
  have "ThreadLL t \<in> dom (qlinks s)" using assms(1,3) by (auto simp: sim_def astate_def)
  moreover have "\<forall>b\<in>H. ThreadLL t \<notin> set (b # queues a b)"
    using thread_node_free [OF sim_fields(8) [OF assms(1)] assms(2)] .
  ultimately obtain l where "list_add_tail (ThreadLL t) RunQ (qlinks s) = Inr l"
    "lists_rep l H ((queues a)(RunQ := queues a RunQ @ [ThreadLL t]))" "dom l = dom (qlinks s)"
    using kl.rep_add_tail [OF sim_fields(6,7) [OF assms(1)]] by blast
  then show ?thesis by (intro with_q_sim [OF assms(1), where l = l]) simp_all
qed

lemma thread_activate_sim:
  assumes "sim H s a" "astate a t \<noteq> None" "astate a t = Some THREAD_BLOCKED \<longrightarrow> t \<notin> set (arq a)"
  shows "\<exists>s'. thread_activate t s = Inr s' \<and> sim H s' (aactivate t a) \<and> same_flags s s'"
proof -
  let ?s = "s\<lparr>ints_on := False, preempt_cnt := preempt_cnt s + 1\<rparr>"
  have s: "sim H ?s a" using assms(1) by simp
  obtain st where st: "astate a t = Some st" using assms(2) by blast
  obtain th where th: "rd_thread t ?s = Inr th" "tstate th = st" using rd_thread_sim [OF s st] by blast
  show ?thesis
  proof (cases "st = THREAD_BLOCKED")
    case True
    obtain s1 where 1: "set_state t THREAD_ACTIVE ?s = Inr s1" "sim H s1 (aset t THREAD_ACTIVE a)"
      "same_flags ?s s1"
      using set_state_sim [OF s assms(2)] by blast
    obtain s2 where 2: "with_q (list_add_tail (ThreadLL t) RunQ) s1 = Inr s2"
      "sim H s2 ((aset t THREAD_ACTIVE a)\<lparr>arq := arq (aset t THREAD_ACTIVE a) @ [t]\<rparr>)"
      "same_flags s1 s2"
      using enqueue_thread_sim [OF 1(2), of t] assms(3) st True by auto
    show ?thesis
      using 1 2 st True th by (auto simp: thread_activate_def sched_simps aactivate_def same_flags_def)
  next
    case False
    then show ?thesis using s st th by (auto simp: thread_activate_def sched_simps aactivate_def same_flags_def)
  qed
qed

text \<open>What a switch relies on: the threads on the run queue exist and are neither current nor idle.\<close>

definition can_switch :: "asys \<Rightarrow> bool" where
  "can_switch a \<longleftrightarrow> astate a (acur a) \<noteq> None \<and> acur a \<notin> set (arq a) \<and> (\<forall>t\<in>set (arq a). astate a t \<noteq> None) \<and>
     (\<forall>i. aidle a = Some i \<longrightarrow> astate a i \<noteq> None \<and> i \<notin> set (arq a))"

lemma place_thread_sim:
  assumes "sim H s a" "astate a (acur a) \<noteq> None" "acur a \<notin> set (arq a)" "astate a n \<noteq> None"
  shows "\<exists>s'. place_thread n s = Inr s' \<and> sim H s' (aswitch n a) \<and> same_flags s s'"
proof -
  let ?p = "acur a"
  obtain st where st: "astate a ?p = Some st" using assms(2) by blast
  obtain th where th: "rd_thread ?p s = Inr th" "tstate th = st" using rd_thread_sim [OF assms(1) st] by blast
  have cur: "current s = ?p" using sim_fields(1) [OF assms(1)] .
  let ?a = "if st = THREAD_FINISHING then aset ?p THREAD_FINISHED a else a"
  obtain s0 where 0: "(if st = THREAD_FINISHING then set_state ?p THREAD_FINISHED s else Inr s) = Inr s0"
    "sim H s0 ?a" "same_flags s s0"
    using set_state_sim [OF assms(1,2), of THREAD_FINISHED] assms(1) by (cases "st = THREAD_FINISHING") (auto simp: same_flags_def)
  define s1 where "s1 = s0\<lparr>tss_rsp0 := Some ?p\<rparr>"
  have 1: "sim H s1 ?a" "same_flags s s1" using 0(2,3) by (simp_all add: s1_def same_flags_def)
  obtain st1 where st1: "astate ?a ?p = Some st1" "st1 = THREAD_ACTIVE \<longleftrightarrow> st = THREAD_ACTIVE"
    using st by (cases st) auto
  obtain th1 where th1: "rd_thread ?p s1 = Inr th1" "tstate th1 = st1" using rd_thread_sim [OF 1(1) st1(1)] by blast
  let ?l = "s1\<lparr>preempt_cnt := preempt_cnt s1 + 1\<rparr>"
  let ?b = "if st = THREAD_ACTIVE then ?a\<lparr>arq := arq ?a @ [?p]\<rparr> else ?a"
  have "?p \<notin> set (arq ?a)" "astate ?a ?p \<noteq> None" using assms(3) st1 by auto
  then obtain s2 where 2: "(if tstate th1 = THREAD_ACTIVE then with_q (list_add_tail (ThreadLL ?p) RunQ) ?l else Inr ?l) = Inr s2"
    "sim H s2 ?b" "same_flags ?l s2"
    using enqueue_thread_sim [of H ?l ?a ?p] 1(1) st1(2) th1(2) by (cases "st1 = THREAD_ACTIVE") (auto simp: same_flags_def)
  let ?u = "s2\<lparr>preempt_cnt := preempt_cnt s2 - 1, current := n\<rparr>"
  have "sim H ?u (?b\<lparr>acur := n\<rparr>)" using 2(2) by (auto simp: sim_def)
  moreover have "astate (?b\<lparr>acur := n\<rparr>) n \<noteq> None" using assms(4) by auto
  ultimately obtain s3 where 3: "set_time n (jiffies ?u) ?u = Inr s3" "sim H s3 (astamp n (?b\<lparr>acur := n\<rparr>))" "same_flags ?u s3"
    using set_time_sim by blast
  have "aswitch n a = astamp n (?b\<lparr>acur := n\<rparr>)" using st by (cases st) (auto simp: aswitch_def)
  moreover have "same_flags s s3" using 1(2) 2(3) 3(3) by (simp add: same_flags_def)
  moreover have "place_thread n s = Inr s3"
    using th 0(1) th1(1) 2(1) 3(1) cur by (cases "tstate th1 = THREAD_ACTIVE") (auto simp: place_thread_def sched_simps s1_def [symmetric])
  ultimately show ?thesis using 3(2) by auto
qed

lemma pick_next_sim:
  assumes "sim H s a"
  shows "\<exists>s'. (case arq a of
      [] \<Rightarrow> pick_next s = Inr (aidle a, s') \<and> sim H s' a
    | t # ts \<Rightarrow> pick_next s = Inr (Some t, s') \<and> sim H s' (a\<lparr>arq := ts\<rparr>)) \<and> same_flags s s'"
proof (cases "arq a")
  case Nil
  then have "list_empty RunQ (qlinks s) = Inr True" using kl.rep_empty [OF sim_fields(6,7) [OF assms]] by simp
  then show ?thesis using Nil assms sim_fields(2) [OF assms] by (auto simp: pick_next_def same_flags_def)
next
  case (Cons t ts)
  then have q: "queues a RunQ = ThreadLL t # map ThreadLL ts" by simp
  note pop = kl.pop_front [OF sim_fields(6,7) [OF assms] q]
  obtain l where l: "list_del (ThreadLL t) (qlinks s) = Inr l"
    "lists_rep l H ((queues a)(RunQ := map ThreadLL ts))" "dom l = dom (qlinks s)" using pop(3) by blast
  obtain s' where "with_q (list_del (ThreadLL t)) s = Inr s'" "sim H s' (a\<lparr>arq := ts\<rparr>)" "same_flags s s'"
    using with_q_sim [OF assms, of "list_del (ThreadLL t)" l "a\<lparr>arq := ts\<rparr>"] l by auto
  then show ?thesis using Cons pop(1,2) by (auto simp: pick_next_def)
qed

lemma schedule_inner_sim:
  assumes "sim H s a" "can_switch a"
  shows "\<exists>s'. schedule_inner force s = Inr s' \<and> sim H s' (asched force a) \<and> same_flags s s'"
proof -
  obtain st where st: "astate a (acur a) = Some st" using assms(2) by (auto simp: can_switch_def)
  obtain th where th: "rd_thread (acur a) s = Inr th" "athr a (acur a) = Some th" "tstate th = st"
    using rd_thread_sim [OF assms(1) st] by blast
  have cur: "current s = acur a" "jiffies s = ajif a" using sim_fields(1,5) [OF assms(1)] .
  let ?q = "\<not> force \<and> tstate th = THREAD_ACTIVE \<and> ajif a - ttime th < SLICE"
  have sl: "aslice_left a \<longleftrightarrow> tstate th = THREAD_ACTIVE \<and> ajif a - ttime th < SLICE" by (simp add: aslice_left_def th(2))
  show ?thesis
  proof (cases ?q)
    case True
    then show ?thesis using th cur assms(1) sl by (auto simp: schedule_inner_def asched_def same_flags_def)
  next
    case False
    let ?s = "s\<lparr>preempt_cnt := preempt_cnt s + 1\<rparr>"
    have s: "sim H ?s a" using assms(1) by simp
    obtain s1 where p: "case arq a of
        [] \<Rightarrow> pick_next ?s = Inr (aidle a, s1) \<and> sim H s1 a
      | t # ts \<Rightarrow> pick_next ?s = Inr (Some t, s1) \<and> sim H s1 (a\<lparr>arq := ts\<rparr>)" "same_flags ?s s1"
      using pick_next_sim [OF s] by blast
    let ?u = "s1\<lparr>preempt_cnt := preempt_cnt s1 - 1\<rparr>"
    have fl: "same_flags s ?u" using p(2) by (simp add: same_flags_def)
    have go: "\<exists>s'. thread_switch_to n ?u = Inr s' \<and> sim H s' (aswitch n b) \<and> same_flags s s'"
      if b: "sim H s1 b" "astate b (acur b) \<noteq> None" "acur b \<notin> set (arq b)" "astate b n \<noteq> None" for n b
    proof -
      have u: "sim H ?u b" using b(1) by simp
      obtain st1 st2 where "astate b (acur b) = Some st1" "astate b n = Some st2" using b(2,4) by blast
      then have "\<exists>th. rd_thread (current ?u) ?u = Inr th" "\<exists>th. rd_thread n ?u = Inr th"
        using rd_thread_sim [OF u] sim_fields(1) [OF u] by metis+
      then show ?thesis using place_thread_sim [OF u b(2-4)] fl
        by (auto simp: thread_switch_to_def same_flags_def)
    qed
    show ?thesis
    proof (cases "arq a")
      case (Cons t ts)
      then have pk: "pick_next ?s = Inr (Some t, s1)" "sim H s1 (a\<lparr>arq := ts\<rparr>)" using p(1) by auto
      have t: "acur a \<noteq> t" "aidle a \<noteq> Some t" "astate a t \<noteq> None" "acur a \<notin> set ts" "astate a (acur a) \<noteq> None"
        using assms(2) Cons by (auto simp: can_switch_def)
      have "idle_thread s1 = aidle a" using sim_fields(2) [OF pk(2)] by simp
      then have "schedule_inner force s = thread_switch_to t ?u"
        using False th(1) cur pk(1) t by (auto simp: schedule_inner_def sched_simps)
      moreover have "asched force a = aswitch t (a\<lparr>arq := ts\<rparr>)" using False Cons sl by (auto simp: asched_def)
      moreover have "\<exists>s'. thread_switch_to t ?u = Inr s' \<and> sim H s' (aswitch t (a\<lparr>arq := ts\<rparr>)) \<and> same_flags s s'"
        using go [OF pk(2), of t] t by simp
      ultimately show ?thesis by simp
    next
      case Nil
      then have pk: "pick_next ?s = Inr (aidle a, s1)" "sim H s1 a" using p(1) by auto
      have id: "idle_thread s1 = aidle a" using sim_fields(2) [OF pk(2)] .
      show ?thesis
      proof (cases "\<exists>i. aidle a = Some i \<and> i \<noteq> acur a \<and> st \<noteq> THREAD_ACTIVE")
        case True
        then obtain i where i: "aidle a = Some i" "i \<noteq> acur a" "st \<noteq> THREAD_ACTIVE" by blast
        have n: "astate a i \<noteq> None" "acur a \<notin> set (arq a)" "astate a (acur a) \<noteq> None"
          using assms(2) i(1) by (auto simp: can_switch_def)
        have "schedule_inner force s = thread_switch_to i ?u"
          using False th(1,3) cur pk(1) i id by (auto simp: schedule_inner_def sched_simps)
        moreover have "asched force a = aswitch i a" using i st Nil sl th(3) by (auto simp: asched_def)
        ultimately show ?thesis using go [OF pk(2) n(3,2,1)] by simp
      next
        case no: False
        then have "schedule_inner force s = Inr ?u"
          using False th(1,3) cur pk(1) id by (auto simp: schedule_inner_def sched_simps split: option.splits)
        moreover have "asched force a = a" using no Nil st by (auto simp: asched_def split: option.splits)
        ultimately show ?thesis using pk(2) fl by simp
      qed
    qed
  qed
qed


lemma can_switch_upd [simp]:
  "can_switch (aset t st a) = can_switch a" "can_switch (a\<lparr>amq := x\<rparr>) = can_switch a"
  "can_switch (a\<lparr>acq := y\<rparr>) = can_switch a" "can_switch (a\<lparr>alocked := l\<rparr>) = can_switch a"
  "can_switch (a\<lparr>ajif := j\<rparr>) = can_switch a"
  by (auto simp: can_switch_def)

lemma schedule_with_sim:
  assumes "sim H s a" "can_switch a"
  shows "\<exists>s'. schedule_with force enable s = Inr s' \<and> sim H s' (asched force a) \<and> preempt_cnt s' = preempt_cnt s"
proof -
  let ?s = "s\<lparr>ints_on := False, resume_ints := (resume_ints s)(current s := enable)\<rparr>"
  have "sim H ?s a" using assms(1) by simp
  then obtain s' where "schedule_inner force ?s = Inr s'" "sim H s' (asched force a)" "same_flags ?s s'"
    using schedule_inner_sim assms(2) by blast
  then show ?thesis by (auto simp: schedule_with_def same_flags_def)
qed

lemma schedule_sim:
  assumes "sim H s a" "can_switch a" "preempt_cnt s = 0"
  shows "\<exists>s'. schedule s = Inr s' \<and> sim H s' (asched False a) \<and> preempt_cnt s' = 0"
    "\<exists>s'. force_schedule s = Inr s' \<and> sim H s' (asched True a) \<and> preempt_cnt s' = 0"
  using schedule_with_sim [OF assms(1,2)] assms(3) by (simp_all add: schedule_def force_schedule_def)

lemma pit_handler_sim:
  assumes "sim H s a" "can_switch a" "preempt_cnt s = 0"
  shows "\<exists>s'. pit_handler s = Inr s' \<and> sim H s' (atick a) \<and> preempt_cnt s' = 0"
proof -
  have "sim H (s\<lparr>jiffies := jiffies s + 1\<rparr>) (a\<lparr>ajif := ajif a + 1\<rparr>)"
    using assms(1) by (simp add: sim_def)
  then have "sim H (s\<lparr>ints_on := False, jiffies := jiffies s + 1\<rparr>) (a\<lparr>ajif := ajif a + 1\<rparr>)"
    by (simp add: sim_def)
  from schedule_with_sim [OF this, of False True] assms(2,3) show ?thesis
    by (simp add: pit_handler_def atick_def)
qed

lemma new_wait_sim:
  assumes "sim H s a" "\<not> waiting a t"
  shows "sim H (new_wait t s) a" "WaitLL t \<in> dom (qlinks (new_wait t s))" "same_flags s (new_wait t s)"
  using assms lists_rep_extend [OF sim_fields(6) [OF assms(1)] wait_node_free, of t]
  by (auto simp: new_wait_def sim_def same_flags_def subset_iff)

text \<open>
  Putting a wait on a queue and taking the first one off, for any change \<open>b\<close> of the specification that
  does the same to its queue.
\<close>

lemma enqueue_wait_sim:
  assumes "sim H s a" "q \<in> H" "\<not> waiting a t" "WaitLL t \<in> dom (qlinks s)"
    "queues b = (queues a)(q := queues a q @ [WaitLL t])"
    "acur b = acur a" "aidle b = aidle a" "athr b = athr a" "alocked b = alocked a" "ajif b = ajif a"
  shows "\<exists>s'. with_q (list_add_tail (WaitLL t) q) s = Inr s' \<and> sim H s' b \<and> same_flags s s'"
proof -
  have "\<forall>b\<in>H. WaitLL t \<notin> set (b # queues a b)"
    using wait_node_free [OF sim_fields(8) [OF assms(1)] assms(3)] .
  then obtain l where "list_add_tail (WaitLL t) q (qlinks s) = Inr l"
    "lists_rep l H ((queues a)(q := queues a q @ [WaitLL t]))" "dom l = dom (qlinks s)"
    using kl.rep_add_tail [OF sim_fields(6) [OF assms(1)] assms(2,4)] by blast
  then show ?thesis using assms by (intro with_q_sim [OF assms(1), where l = l]) simp_all
qed

lemma wake_first_sim:
  assumes "sim H s a" "q \<in> H" "queues a q = WaitLL t # ws" "queues b = (queues a)(q := ws)"
    "acur b = acur a" "aidle b = aidle a" "athr b = athr a" "alocked b = alocked a" "ajif b = ajif a"
    "astate b t \<noteq> None" "t \<notin> set (arq b)"
  shows "\<exists>s'. wake_first q s = Inr s' \<and> sim H s' (aactivate t b) \<and> same_flags s s'"
proof -
  note pop = kl.pop_front [OF sim_fields(6) [OF assms(1)] assms(2,3)]
  obtain l where l: "list_del (WaitLL t) (qlinks s) = Inr l" "lists_rep l H ((queues a)(q := ws))"
    "dom l = dom (qlinks s)" using pop(3) by blast
  obtain s1 where 1: "with_q (list_del (WaitLL t)) s = Inr s1" "sim H s1 b" "same_flags s s1"
    using with_q_sim [OF assms(1), of "list_del (WaitLL t)" l b] l assms by auto
  obtain s2 where "thread_activate t s1 = Inr s2" "sim H s2 (aactivate t b)" "same_flags s1 s2"
    using thread_activate_sim [OF 1(2)] assms(10,11) by blast
  then show ?thesis using 1 pop(2) by (auto simp: wake_first_def same_flags_def)
qed

lemma mutex_unlock_sim:
  assumes "sim H s a" "MutexQ m \<in> H" "\<forall>t\<in>set (amq a m). astate a t \<noteq> None \<and> t \<notin> set (arq a)"
  shows "\<exists>s'. mutex_unlock m s = Inr s' \<and> sim H s' (aunlock m a) \<and> same_flags s s'"
proof -
  let ?s = "s\<lparr>ints_on := False, preempt_cnt := preempt_cnt s + 1\<rparr>"
  have s: "sim H ?s a" using assms(1) by simp
  have e: "list_empty (MutexQ m) (qlinks ?s) = Inr (amq a m = [])"
    using kl.rep_empty [OF sim_fields(6) [OF s] assms(2)] by simp
  show ?thesis
  proof (cases "amq a m")
    case Nil
    have "sim H (s\<lparr>locked := (locked s)(m := False)\<rparr>) (a\<lparr>alocked := (alocked a)(m := False)\<rparr>)"
      using assms(1) by (auto simp: sim_def)
    then show ?thesis using e Nil by (auto simp: mutex_unlock_def aunlock_def sched_simps same_flags_def sim_def)
  next
    case (Cons t ts)
    let ?b = "a\<lparr>amq := (amq a)(m := ts)\<rparr>"
    have "\<exists>s'. wake_first (MutexQ m) ?s = Inr s' \<and> sim H s' (aactivate t ?b) \<and> same_flags ?s s'"
      using assms(3) Cons by (intro wake_first_sim [OF s assms(2), where ws = "map WaitLL ts"]) simp_all
    then obtain s1 where 1: "wake_first (MutexQ m) ?s = Inr s1" "sim H s1 (aactivate t ?b)" "same_flags ?s s1" by blast
    have "aunlock m a = aactivate t ?b" using Cons by (simp add: aunlock_def)
    then show ?thesis using 1 e Cons
      by (auto simp: mutex_unlock_def sched_simps same_flags_def)
  qed
qed

lemma mutex_lock_sim:
  assumes "sim H s a" "MutexQ m \<in> H" "can_switch a" "\<not> waiting a (acur a)" "preempt_cnt s = 0"
  shows "\<exists>s'. mutex_lock m s = Inr s' \<and> sim H s' (alock m a) \<and> preempt_cnt s' = 0"
proof (cases "alocked a m")
  case False
  have "sim H (s\<lparr>locked := (locked s)(m := True)\<rparr>) (a\<lparr>alocked := (alocked a)(m := True)\<rparr>)"
    using assms(1) by (auto simp: sim_def)
  then show ?thesis
    using False assms sim_fields(4) [OF assms(1)] by (auto simp: mutex_lock_def alock_def sched_simps sim_def)
next
  case True
  let ?t = "acur a"
  let ?s = "s\<lparr>ints_on := False, preempt_cnt := preempt_cnt s + 1\<rparr>"
  let ?n = "new_wait ?t ?s"
  have s: "sim H ?s a" using assms(1) by simp
  note n = new_wait_sim [OF s assms(4)]
  have "astate a ?t \<noteq> None" using assms(3) by (simp add: can_switch_def)
  then obtain s1 where 1: "set_state ?t THREAD_BLOCKED ?n = Inr s1" "sim H s1 (aset ?t THREAD_BLOCKED a)" "same_flags ?n s1"
    using set_state_sim [OF n(1)] by blast
  have d: "WaitLL ?t \<in> dom (qlinks s1)" using 1(1) n(2) by (auto simp: set_state_def res_simps)
  let ?b = "(aset ?t THREAD_BLOCKED a)\<lparr>amq := (amq a)(m := amq a m @ [?t])\<rparr>"
  have qa: "queues (aset ?t THREAD_BLOCKED a) = queues a" by (simp add: aset_def)
  have "queues ?b = (queues a)(MutexQ m := map WaitLL (amq a m @ [?t]))"
    using queues_upd(2) [of "aset ?t THREAD_BLOCKED a" m "amq a m @ [?t]"] qa by simp
  then obtain s2 where 2: "with_q (list_add_tail (WaitLL ?t) (MutexQ m)) s1 = Inr s2" "sim H s2 ?b" "same_flags s1 s2"
    using enqueue_wait_sim [OF 1(2) assms(2) _ d, of ?b] assms(4) qa by (auto simp: waiting_def)
  let ?u = "spin_unlock_irqrestore (ints_on s) s2"
  have "sim H ?u ?b" "preempt_cnt ?u = 0"
    using 2 1(3) n(3) assms(5) by (auto simp: sched_simps same_flags_def)
  then obtain s3 where "schedule ?u = Inr s3" "sim H s3 (asched False ?b)" "preempt_cnt s3 = 0"
    using schedule_sim(1) [of H ?u ?b] assms(3) by auto
  then show ?thesis
    using True sim_fields(1,4) [OF assms(1)] 1(1) 2(1)
    by (auto simp: mutex_lock_def alock_def spin_lock_irqsave_def spin_lock_def disable_preempt_def Let_def)
qed

lemma aset_waiting [simp]: "waiting (aset t st a) = waiting a"
  by (simp add: waiting_def fun_eq_iff)

lemma aactivate_fields [simp]:
  "acur (aactivate t a) = acur a" "aidle (aactivate t a) = aidle a" "amq (aactivate t a) = amq a"
  "acq (aactivate t a) = acq a" "abq (aactivate t a) = abq a" "alocked (aactivate t a) = alocked a" "ajif (aactivate t a) = ajif a"
  by (simp_all add: aactivate_def)

lemma astate_aactivate:
  "astate (aactivate t a) u =
     (if u = t \<and> astate a t = Some THREAD_BLOCKED then Some THREAD_ACTIVE else astate a u)"
  by (auto simp: aactivate_def)

lemma arq_aactivate: "arq (aactivate t a) = (if astate a t = Some THREAD_BLOCKED then arq a @ [t] else arq a)"
  by (simp add: aactivate_def)

lemma can_switch_aactivate:
  assumes "can_switch a" "astate a t = Some THREAD_BLOCKED \<longrightarrow> t \<noteq> acur a \<and> aidle a \<noteq> Some t"
  shows "can_switch (aactivate t a)"
  using assms by (auto simp: can_switch_def astate_aactivate arq_aactivate)

lemma can_switch_aunlock:
  assumes "can_switch a" "\<forall>t\<in>set (amq a m). t \<noteq> acur a \<and> aidle a \<noteq> Some t"
  shows "can_switch (aunlock m a)"
  using assms by (auto simp: aunlock_def split: list.splits intro!: can_switch_aactivate)

lemma condition_signal_sim:
  assumes "sim H s a" "CondQ c \<in> H" "\<forall>t\<in>set (acq a c). astate a t \<noteq> None \<and> t \<notin> set (arq a)"
  shows "\<exists>s'. condition_signal c s = Inr s' \<and> sim H s' (asignal c a) \<and> same_flags s s'"
proof -
  let ?s = "s\<lparr>ints_on := False, preempt_cnt := preempt_cnt s + 1\<rparr>"
  have s: "sim H ?s a" using assms(1) by simp
  have e: "list_empty (CondQ c) (qlinks ?s) = Inr (acq a c = [])"
    using kl.rep_empty [OF sim_fields(6) [OF s] assms(2)] by simp
  show ?thesis
  proof (cases "acq a c")
    case Nil
    then show ?thesis using e assms(1) by (auto simp: condition_signal_def asignal_def sched_simps same_flags_def)
  next
    case (Cons t ts)
    let ?b = "a\<lparr>acq := (acq a)(c := ts)\<rparr>"
    have "\<exists>s'. wake_first (CondQ c) ?s = Inr s' \<and> sim H s' (aactivate t ?b) \<and> same_flags ?s s'"
      using assms(3) Cons by (intro wake_first_sim [OF s assms(2), where ws = "map WaitLL ts"]) simp_all
    then show ?thesis using e Cons
      by (auto simp: condition_signal_def asignal_def sched_simps same_flags_def)
  qed
qed

lemma condition_wait_sim:
  assumes "sim H s a" "MutexQ m \<in> H" "CondQ c \<in> H" "can_switch a" "\<not> waiting a (acur a)" "preempt_cnt s = 0"
    "aidle a \<noteq> Some (acur a)"
    and w: "\<forall>t\<in>set (amq a m). astate a t \<noteq> None \<and> t \<notin> set (arq a) \<and> aidle a \<noteq> Some t"
  shows "\<exists>s'. condition_wait_begin c m s = Inr s' \<and> sim H s' (await c m a) \<and> preempt_cnt s' = 0"
proof -
  let ?t = "acur a"
  let ?w = "new_wait ?t s"
  note n = new_wait_sim [OF assms(1,5)]
  let ?s = "?w\<lparr>ints_on := False, preempt_cnt := preempt_cnt ?w + 1\<rparr>"
  have s: "sim H ?s a" using n(1) by simp
  have "astate a ?t \<noteq> None" using assms(4) by (simp add: can_switch_def)
  then obtain s1 where 1: "set_state ?t THREAD_BLOCKED ?s = Inr s1" "sim H s1 (aset ?t THREAD_BLOCKED a)" "same_flags ?s s1"
    using set_state_sim [OF s] by blast
  have d: "WaitLL ?t \<in> dom (qlinks s1)" using 1(1) n(2) by (auto simp: set_state_def res_simps)
  let ?b = "(aset ?t THREAD_BLOCKED a)\<lparr>acq := (acq a)(c := acq a c @ [?t])\<rparr>"
  have qa: "queues (aset ?t THREAD_BLOCKED a) = queues a" by (simp add: aset_def)
  have "queues ?b = (queues a)(CondQ c := map WaitLL (acq a c @ [?t]))"
    using queues_upd(3) [of "aset ?t THREAD_BLOCKED a" c "acq a c @ [?t]"] qa by simp
  then obtain s2 where 2: "with_q (list_add_tail (WaitLL ?t) (CondQ c)) s1 = Inr s2" "sim H s2 ?b" "same_flags s1 s2"
    using enqueue_wait_sim [OF 1(2) assms(3) _ d, of ?b] assms(5) qa by auto
  have wb: "\<forall>t\<in>set (amq ?b m). astate ?b t \<noteq> None \<and> t \<notin> set (arq ?b)" using w by auto
  obtain s3 where 3: "mutex_unlock m s2 = Inr s3" "sim H s3 (aunlock m ?b)" "same_flags s2 s3"
    using mutex_unlock_sim [OF 2(2) assms(2) wb] by blast
  have "\<forall>t\<in>set (amq ?b m). t \<noteq> acur ?b \<and> aidle ?b \<noteq> Some t" using w assms(5) by (auto simp: waiting_def)
  then have cs: "can_switch (aunlock m ?b)" using assms(4) by (intro can_switch_aunlock) auto
  let ?u = "spin_unlock_irqrestore (ints_on ?w) s3"
  have "sim H ?u (aunlock m ?b)" "preempt_cnt ?u = 0"
    using 3 2(3) 1(3) n(3) assms(6) by (auto simp: sched_simps same_flags_def)
  then obtain s4 where "schedule ?u = Inr s4" "sim H s4 (asched False (aunlock m ?b))" "preempt_cnt s4 = 0"
    using schedule_sim(1) [OF _ cs] by blast
  then show ?thesis
    using sim_fields(1) [OF assms(1)] 1(1) 2(1) 3(1)
    by (auto simp: condition_wait_begin_def await_def spin_lock_irqsave_def spin_lock_def disable_preempt_def Let_def)
qed

text \<open>
  \<open>condition_broadcast\<close> moves the queue to a local list and walks it; activating the threads does not
  change the links of the local list.
\<close>

lemma fold_aactivate_fields [simp]:
  "acur (fold aactivate ts a) = acur a" "aidle (fold aactivate ts a) = aidle a" "amq (fold aactivate ts a) = amq a"
  "acq (fold aactivate ts a) = acq a" "abq (fold aactivate ts a) = abq a"
  "alocked (fold aactivate ts a) = alocked a" "ajif (fold aactivate ts a) = ajif a"
  by (induction ts arbitrary: a) simp_all

lemma aactivate_upd [simp]:
  "aactivate t (a\<lparr>abq := x\<rparr>) = (aactivate t a)\<lparr>abq := x\<rparr>"
  by (simp add: aactivate_def aset_def)

lemma fold_aactivate_upd [simp]: "fold aactivate ts (a\<lparr>abq := x\<rparr>) = (fold aactivate ts a)\<lparr>abq := x\<rparr>"
  by (induction ts arbitrary: a) simp_all

lemma bcast_ptr:
  assumes "sim H s a" "BcastQ \<in> H" "abq a = us @ t # ts"
  shows "\<exists>n. rd_node (qlinks s) (Some (WaitLL t)) = Inr n \<and> nxt n = Some (hd (map WaitLL ts @ [BcastQ]))"
proof -
  have "dlist (qlinks s) BcastQ (map WaitLL us @ WaitLL t # map WaitLL ts)"
    using lists_rep_dlist [OF sim_fields(6) [OF assms(1)] assms(2)] assms(3) by simp
  then have l: "lseg (nx (qlinks s)) (pv (qlinks s)) (WaitLL t) (map WaitLL ts) BcastQ"
    by (auto simp: dlist_def)
  then have d: "WaitLL t \<in> dom (qlinks s)" using nx_SomeD lseg_next by metis
  show ?thesis using rd_node_ok [OF d] lseg_next [OF l] by metis
qed

lemma broadcast_loop_sim:
  assumes "sim H s a" "BcastQ \<in> H" "abq a = us @ ts"
    "\<forall>t\<in>set ts. astate a t = Some THREAD_BLOCKED" "distinct ts" "\<forall>t\<in>set (arq a). astate a t \<noteq> Some THREAD_BLOCKED"
  shows "\<exists>s'. broadcast_loop (Some (hd (map WaitLL ts @ [BcastQ]))) s = Some (Inr s') \<and>
    sim H s' (fold aactivate ts a) \<and> same_flags s s'"
  using assms
proof (induction ts arbitrary: us s a)
  case Nil
  then show ?case by (subst broadcast_loop.simps) (simp add: same_flags_def)
next
  case (Cons t ts)
  have tq: "t \<notin> set (arq a)" using Cons.prems(4,6) by auto
  obtain n where n: "rd_node (qlinks s) (Some (WaitLL t)) = Inr n" "nxt n = Some (hd (map WaitLL ts @ [BcastQ]))"
    using bcast_ptr [OF Cons.prems(1,2,3)] by blast
  obtain s1 where 1: "thread_activate t s = Inr s1" "sim H s1 (aactivate t a)" "same_flags s s1"
    using thread_activate_sim [OF Cons.prems(1), of t] Cons.prems(4) tq by auto
  have "\<exists>s'. broadcast_loop (Some (hd (map WaitLL ts @ [BcastQ]))) s1 = Some (Inr s') \<and>
      sim H s' (fold aactivate ts (aactivate t a)) \<and> same_flags s1 s'"
    using Cons.prems by (intro Cons.IH [OF 1(2), of "us @ [t]"]) (auto simp: astate_aactivate arq_aactivate)
  moreover have "broadcast_loop (Some (hd (map WaitLL (t # ts) @ [BcastQ]))) s =
      broadcast_loop (Some (hd (map WaitLL ts @ [BcastQ]))) s1"
    using n 1(1) by (subst broadcast_loop.simps) simp
  ultimately show ?case using 1(3) by (auto simp: same_flags_def)
qed

lemma lists_rep_cong:
  "lists_rep h H F \<Longrightarrow> H' \<subseteq> H \<Longrightarrow> (\<And>b. b \<in> H' \<Longrightarrow> F b = G b) \<Longrightarrow> lists_rep h H' G"
  unfolding lists_rep_def subset_iff by metis

lemma condition_broadcast_sim:
  assumes "sim (heads M C) s a" "c \<in> C" "abq a = []"
    "\<forall>t\<in>set (acq a c). astate a t = Some THREAD_BLOCKED" "\<forall>t\<in>set (arq a). astate a t \<noteq> Some THREAD_BLOCKED"
  shows "\<exists>s'. condition_broadcast c s = Some (Inr s') \<and> sim (heads M C) s' (abroadcast c a) \<and> same_flags s s'"
proof -
  let ?H = "heads M C" and ?ts = "acq a c"
  let ?s0 = "s\<lparr>qlinks := (qlinks s)(BcastQ \<mapsto> \<lparr>nxt = None, prv = None\<rparr>)\<rparr>"
  let ?s = "?s0\<lparr>ints_on := False, preempt_cnt := preempt_cnt s + 1\<rparr>"
  have fr: "\<forall>b\<in>?H. BcastQ \<notin> set (b # queues a b)" by (auto simp: heads_def)
  note r = sim_fields(6) [OF assms(1)]
  have r0: "lists_rep (qlinks ?s) ?H (queues a)" using lists_rep_extend [OF r fr] by simp
  obtain l1 where l1: "list_init BcastQ (qlinks ?s) = Inr l1" "lists_rep l1 (insert BcastQ ?H) ((queues a)(BcastQ := []))"
    "dom l1 = dom (qlinks ?s)"
    using lists_rep_init [OF r0 _ fr] by auto
  obtain l2 where l2: "list_splice (CondQ c) BcastQ l1 = Inr l2" "dom l2 = dom l1"
    "lists_rep l2 (insert BcastQ ?H) ((queues a)(BcastQ := [], BcastQ := queues a (CondQ c) @ [], CondQ c := []))"
    using lists_rep_splice [OF l1(2), of BcastQ "CondQ c"] assms(2) by auto
  let ?b = "a\<lparr>acq := (acq a)(c := []), abq := ?ts\<rparr>"
  have qb: "queues ?b = (queues a)(BcastQ := map WaitLL ?ts, CondQ c := [])" by (auto simp: fun_eq_iff)
  let ?u = "spin_unlock_irqrestore (ints_on s) (?s\<lparr>qlinks := l2\<rparr>)"
  have gh: "good_heads (insert BcastQ ?H)" by (auto simp: good_heads_def heads_def)
  have qu: "qlinks ?u = l2" by (simp add: sched_simps)
  have "ThreadLL ` dom (athr a) \<subseteq> dom (qlinks s)" using assms(1) by (simp add: sim_def)
  also have "\<dots> \<subseteq> dom l2" using l1(3) l2(2) by auto
  finally have "ThreadLL ` dom (athr a) \<subseteq> dom l2" .
  then have u: "sim (insert BcastQ ?H) ?u ?b" "same_flags s ?u"
    using assms(1) l2(3) gh qb by (auto simp: sim_def same_flags_def sched_simps)
  have "distinct ?ts" using lists_rep_distinct [OF r, of "CondQ c"] assms(2) by (simp add: distinct_map)
  then obtain s' where s': "broadcast_loop (Some (hd (map WaitLL ?ts @ [BcastQ]))) ?u = Some (Inr s')"
    "sim (insert BcastQ ?H) s' (fold aactivate ?ts ?b)" "same_flags ?u s'"
    using broadcast_loop_sim [OF u(1), of "[]" ?ts] assms(4,5) by auto
  have f: "list_first BcastQ (qlinks ?u) = Inr (Some (hd (map WaitLL ?ts @ [BcastQ])))"
    using lists_rep_first [OF sim_fields(6) [OF u(1)], of BcastQ] by simp
  have cb: "condition_broadcast c s = broadcast_loop (Some (hd (map WaitLL ?ts @ [BcastQ]))) ?u"
    using l1(1) l2(1) f qu
    by (simp add: condition_broadcast_def with_q_def sched_simps)
  have fo: "fold aactivate ?ts ?b = (abroadcast c a)\<lparr>abq := ?ts\<rparr>" by (simp add: abroadcast_def)
  have "lists_rep (qlinks s') ?H (queues (abroadcast c a))"
    using s'(2) unfolding fo by (intro lists_rep_cong [OF sim_fields(6) [OF s'(2)]]) (auto simp: fo abroadcast_def)
  then have "sim ?H s' (abroadcast c a)" using s'(2) unfolding fo by (auto simp: sim_def)
  then show ?thesis using cb s'(1,3) u(2) by (auto simp: same_flags_def)
qed

end
