(* ===== verification/Sched_Machine.thy ===== *)
theory Sched_Machine
  imports Sched_Spec
begin

text \<open>
  The threads around the scheduler.  Each thread is at a place in its program: in its own code, or
  inside a call that was suspended, with the rest of that call still to do.  An event is one call of the
  current thread (until it returns or the processor is switched away), the rest of a suspended call, or
  a timer interrupt between them.  The machine also notes which mutexes a thread holds: those it has
  returned from \<open>mutex_lock\<close> with and has not unlocked.
\<close>

section \<open>Threads and events\<close>

datatype cont = Run | InLock mid | InWait cid mid | Exiting | Joining tid | Idling

record client =
  pc :: "tid \<Rightarrow> cont"
  holds :: "tid \<Rightarrow> mid set"

datatype event =
    Lock mid | Unlock mid | Wait cid mid | Signal cid | Broadcast cid
  | Yield | Exit | Join tid | Wake tid | Tick | Resume

record mach =
  kern :: sched
  client :: client

text \<open>The loop of \<open>thread_join\<close>, once around.\<close>

definition join_turn :: "tid \<Rightarrow> sched \<Rightarrow> sched res" where
  "join_turn u s = bindE (thread_join_done u s) (\<lambda>d. if d then Inr s else force_schedule s)"

fun kstep :: "event \<Rightarrow> cont \<Rightarrow> sched \<Rightarrow> sched res option" where
  "kstep (Lock m) p s = Some (mutex_lock m s)"
| "kstep (Unlock m) p s = Some (mutex_unlock m s)"
| "kstep (Wait c m) p s = Some (condition_wait_begin c m s)"
| "kstep (Signal c) p s = Some (condition_signal c s)"
| "kstep (Broadcast c) p s = condition_broadcast c s"
| "kstep Yield p s = Some (force_schedule s)"
| "kstep Exit p s = Some (bindE (thread_exit_begin s) force_schedule)"
| "kstep (Join u) p s = Some (join_turn u s)"
| "kstep (Wake u) p s = Some (thread_activate u s)"
| "kstep Tick p s = Some (pit_handler s)"
| "kstep Resume p s = Some (case p of
     InWait c m \<Rightarrow> mutex_lock m s | Joining u \<Rightarrow> join_turn u s
   | Exiting \<Rightarrow> force_schedule s | Idling \<Rightarrow> force_schedule s | _ \<Rightarrow> Inr s)"

text \<open>Whether the call has to wait: the mutex is taken, or the joined thread has not finished.\<close>

definition lock_busy :: "mid \<Rightarrow> sched \<Rightarrow> bool" where "lock_busy m s = locked s m"

definition join_busy :: "tid \<Rightarrow> sched \<Rightarrow> bool" where
  "join_busy u s = (map_option tstate (threads s u) \<noteq> Some THREAD_FINISHED)"

definition goes :: "tid \<Rightarrow> cont \<Rightarrow> client \<Rightarrow> client" where
  "goes t p cl = cl\<lparr>pc := (pc cl)(t := p)\<rparr>"

definition takes :: "tid \<Rightarrow> mid \<Rightarrow> client \<Rightarrow> client" where
  "takes t m cl = cl\<lparr>holds := (holds cl)(t := insert m (holds cl t))\<rparr>"

definition drops :: "tid \<Rightarrow> mid \<Rightarrow> client \<Rightarrow> client" where
  "drops t m cl = cl\<lparr>holds := (holds cl)(t := holds cl t - {m})\<rparr>"

fun moves :: "event \<Rightarrow> tid \<Rightarrow> (mid \<Rightarrow> bool) \<Rightarrow> (tid \<Rightarrow> bool) \<Rightarrow> client \<Rightarrow> client" where
  "moves (Lock m) t lb jb cl = (if lb m then goes t (InLock m) cl else takes t m cl)"
| "moves (Unlock m) t lb jb cl = drops t m cl"
| "moves (Wait c m) t lb jb cl = goes t (InWait c m) (drops t m cl)"
| "moves Exit t lb jb cl = goes t Exiting cl"
| "moves (Join u) t lb jb cl = (if jb u then goes t (Joining u) cl else cl)"
| "moves Resume t lb jb cl = (case pc cl t of
     InLock m \<Rightarrow> goes t Run (takes t m cl)
   | InWait c m \<Rightarrow> if lb m then goes t (InLock m) cl else goes t Run (takes t m cl)
   | Joining u \<Rightarrow> if jb u then cl else goes t Run cl
   | _ \<Rightarrow> cl)"
| "moves e t lb jb cl = cl"

definition step :: "event \<Rightarrow> mach \<Rightarrow> mach res option" where
  "step e x =
     (let s = kern x; t = current s
      in map_option (\<lambda>r. bindE r (\<lambda>s'. Inr \<lparr>kern = s',
            client = moves e t (\<lambda>m. lock_busy m s) (\<lambda>u. join_busy u s) (client x)\<rparr>))
          (kstep e (pc (client x) t) s))"

text \<open>
  What the threads have to respect, for the mutexes \<open>M\<close> and condition variables \<open>C\<close> that were set up:
  only a holder unlocks or waits, nobody locks twice, and \<open>thread_activate\<close> is for new threads.
\<close>

fun enabled :: "mid set \<Rightarrow> cid set \<Rightarrow> event \<Rightarrow> mach \<Rightarrow> bool" where
  "enabled M C Tick x = ints_on (kern x)"
| "enabled M C Resume x = (pc (client x) (current (kern x)) \<noteq> Run)"
| "enabled M C e x =
     (let t = current (kern x); cl = client x
      in pc cl t = Run \<and>
         (case e of
            Lock m \<Rightarrow> m \<in> M \<and> m \<notin> holds cl t
          | Unlock m \<Rightarrow> m \<in> holds cl t
          | Wait c m \<Rightarrow> c \<in> C \<and> m \<in> holds cl t
          | Signal c \<Rightarrow> c \<in> C
          | Broadcast c \<Rightarrow> c \<in> C
          | Join u \<Rightarrow> threads (kern x) u \<noteq> None
          | Wake u \<Rightarrow> threads (kern x) u \<noteq> None \<and> pc cl u = Run
          | _ \<Rightarrow> True))"

inductive reach :: "mid set \<Rightarrow> cid set \<Rightarrow> mach \<Rightarrow> mach \<Rightarrow> bool" for M C x0 where
  start: "reach M C x0 x0"
| more: "reach M C x0 x \<Longrightarrow> enabled M C e x \<Longrightarrow> step e x = Some (Inr y) \<Longrightarrow> reach M C x0 y"

inductive_cases reachE: "reach M C x0 x"

section \<open>The same events on the specification\<close>

definition ajoin :: "tid \<Rightarrow> asys \<Rightarrow> asys" where
  "ajoin u a = (if astate a u = Some THREAD_FINISHED then a else asched True a)"

fun astep :: "event \<Rightarrow> cont \<Rightarrow> asys \<Rightarrow> asys" where
  "astep (Lock m) p a = alock m a"
| "astep (Unlock m) p a = aunlock m a"
| "astep (Wait c m) p a = await c m a"
| "astep (Signal c) p a = asignal c a"
| "astep (Broadcast c) p a = abroadcast c a"
| "astep Yield p a = asched True a"
| "astep Exit p a = asched True (aset (acur a) THREAD_FINISHING a)"
| "astep (Join u) p a = ajoin u a"
| "astep (Wake u) p a = aactivate u a"
| "astep Tick p a = atick a"
| "astep Resume p a = (case p of
     InWait c m \<Rightarrow> alock m a | Joining u \<Rightarrow> ajoin u a
   | Exiting \<Rightarrow> asched True a | Idling \<Rightarrow> asched True a | _ \<Rightarrow> a)"

section \<open>The invariant\<close>

text \<open>The threads that have a mutex: they hold it, or it was handed to them and they have yet to run.\<close>

definition users :: "asys \<Rightarrow> client \<Rightarrow> mid \<Rightarrow> tid set" where
  "users a cl m = {t. m \<in> holds cl t \<or> (pc cl t = InLock m \<and> t \<notin> set (amq a m))}"

text \<open>The current thread can be in any state while it is on its way into the scheduler.\<close>

definition queues_ok :: "asys \<Rightarrow> client \<Rightarrow> bool" where
  "queues_ok a cl \<longleftrightarrow>
     distinct (arq a) \<and> (\<forall>t. t \<in> set (arq a) \<longleftrightarrow> astate a t = Some THREAD_ACTIVE \<and> t \<noteq> acur a) \<and>
     (\<forall>m. distinct (amq a m) \<and> (\<forall>t. t \<in> set (amq a m) \<longleftrightarrow> astate a t = Some THREAD_BLOCKED \<and> pc cl t = InLock m)) \<and>
     (\<forall>c t. t \<in> set (acq a c) \<longleftrightarrow> astate a t = Some THREAD_BLOCKED \<and> (\<exists>m. pc cl t = InWait c m)) \<and>
     (\<forall>c. distinct (acq a c)) \<and> abq a = []"

definition states_ok :: "asys \<Rightarrow> client \<Rightarrow> bool" where
  "states_ok a cl \<longleftrightarrow>
     astate a (acur a) \<noteq> None \<and>
     (\<exists>i. aidle a = Some i \<and> astate a i \<noteq> None \<and> (\<forall>t. astate a t = Some THREAD_IDLE \<longleftrightarrow> t = i) \<and> (\<forall>t. pc cl t = Idling \<longleftrightarrow> t = i)) \<and>
     (\<forall>t. astate a t = Some THREAD_FINISHING \<longrightarrow> t = acur a) \<and>
     (\<forall>t. pc cl t = Exiting \<longrightarrow> astate a t \<in> {Some THREAD_FINISHING, Some THREAD_FINISHED})"

definition mutexes_ok :: "mid set \<Rightarrow> cid set \<Rightarrow> asys \<Rightarrow> client \<Rightarrow> bool" where
  "mutexes_ok M C a cl \<longleftrightarrow>
     (\<forall>m. if alocked a m then \<exists>t. users a cl m = {t} else users a cl m = {} \<and> amq a m = []) \<and>
     (\<forall>t m. m \<in> holds cl t \<or> pc cl t = InLock m \<or> (\<exists>c. pc cl t = InWait c m) \<longrightarrow> m \<in> M) \<and>
     (\<forall>t c m. pc cl t = InWait c m \<longrightarrow> c \<in> C)"

definition ainv0 :: "mid set \<Rightarrow> cid set \<Rightarrow> asys \<Rightarrow> client \<Rightarrow> bool" where
  "ainv0 M C a cl \<longleftrightarrow> queues_ok a cl \<and> states_ok a cl \<and> mutexes_ok M C a cl"

definition ainv :: "mid set \<Rightarrow> cid set \<Rightarrow> asys \<Rightarrow> client \<Rightarrow> bool" where
  "ainv M C a cl \<longleftrightarrow> ainv0 M C a cl \<and> astate a (acur a) \<in> {Some THREAD_ACTIVE, Some THREAD_IDLE}"

lemmas ainv_defs = ainv_def ainv0_def queues_ok_def states_ok_def mutexes_ok_def

lemma aswitch_fields [simp]:
  "acur (aswitch n a) = n" "aidle (aswitch n a) = aidle a" "amq (aswitch n a) = amq a"
  "acq (aswitch n a) = acq a" "abq (aswitch n a) = abq a" "alocked (aswitch n a) = alocked a"
  by (simp_all add: aswitch_def Let_def split: option.split thread_state.split)

lemma arq_aswitch:
  "arq (aswitch n a) = (if astate a (acur a) = Some THREAD_ACTIVE then arq a @ [acur a] else arq a)"
  by (simp add: aswitch_def Let_def split: option.split thread_state.split)

lemma astate_aswitch:
  "astate (aswitch n a) t =
     (if t = acur a \<and> astate a t = Some THREAD_FINISHING then Some THREAD_FINISHED else astate a t)"
  by (auto simp: aswitch_def Let_def split: option.split thread_state.split)

lemma users_cong: "amq a = amq b \<Longrightarrow> users a cl m = users b cl m"
  by (simp add: users_def)

lemma aswitch_inv:
  assumes "ainv0 M C a cl" "n \<notin> set ts" "n \<noteq> acur a" "distinct ts"
    "astate a n = Some THREAD_IDLE \<and> arq a = ts \<or> astate a n = Some THREAD_ACTIVE \<and> set (arq a) = insert n (set ts)"
  shows "ainv M C (aswitch n (a\<lparr>arq := ts\<rparr>)) cl"
proof -
  let ?b = "aswitch n (a\<lparr>arq := ts\<rparr>)"
  have u: "users ?b cl = users a cl" by (simp add: users_def fun_eq_iff)
  have "queues_ok ?b cl"
    using assms by (auto simp: ainv0_def queues_ok_def arq_aswitch astate_aswitch split: if_splits)
  moreover have "states_ok ?b cl"
  proof -
    have so: "states_ok a cl" using assms(1) by (simp add: ainv0_def)
    have "astate ?b t = Some THREAD_IDLE \<longleftrightarrow> astate a t = Some THREAD_IDLE" "astate ?b t \<noteq> None \<longleftrightarrow> astate a t \<noteq> None" for t
      by (auto simp: astate_aswitch)
    moreover have "astate ?b t \<noteq> Some THREAD_FINISHING" for t
      using so by (auto simp: states_ok_def astate_aswitch)
    moreover have "astate ?b t \<in> {Some THREAD_FINISHING, Some THREAD_FINISHED}" if "pc cl t = Exiting" for t
      using so that by (auto simp: states_ok_def astate_aswitch)
    moreover have "astate a n \<noteq> None" using assms(5) by auto
    ultimately show ?thesis using so unfolding states_ok_def by (simp only: aswitch_fields) simp
  qed
  moreover have "mutexes_ok M C ?b cl"
    using assms(1) u by (simp add: ainv0_def mutexes_ok_def)
  ultimately show ?thesis using assms(3,5) by (auto simp: ainv_def ainv0_def astate_aswitch)
qed

lemma asched_inv:
  assumes "ainv0 M C a cl"
  shows "ainv M C (asched force a) cl"
proof (cases "\<not> force \<and> aslice_left a")
  case True
  then have "astate a (acur a) = Some THREAD_ACTIVE" by (auto simp: aslice_left_def astate_def split: option.splits)
  then show ?thesis using True assms by (simp add: asched_def ainv_def)
next
  case False
  obtain i where i: "aidle a = Some i" "\<forall>t. astate a t = Some THREAD_IDLE \<longleftrightarrow> t = i"
    using assms by (auto simp: ainv0_def states_ok_def)
  have q: "distinct (arq a)" "\<forall>t. t \<in> set (arq a) \<longleftrightarrow> astate a t = Some THREAD_ACTIVE \<and> t \<noteq> acur a"
    using assms by (auto simp: ainv0_def queues_ok_def)
  show ?thesis
  proof (cases "arq a")
    case (Cons t ts)
    have "ainv M C (aswitch t (a\<lparr>arq := ts\<rparr>)) cl" using q Cons by (intro aswitch_inv [OF assms]) auto
    then show ?thesis using False Cons by (auto simp: asched_def)
  next
    case Nil
    show ?thesis
    proof (cases "i \<noteq> acur a \<and> astate a (acur a) \<noteq> Some THREAD_ACTIVE")
      case True
      have "ainv M C (aswitch i (a\<lparr>arq := arq a\<rparr>)) cl" using i Nil True by (intro aswitch_inv [OF assms]) auto
      then have "ainv M C (aswitch i a) cl" by simp
      then show ?thesis using False Nil i True by (auto simp: asched_def)
    next
      case no: False
      then have "astate a (acur a) \<in> {Some THREAD_ACTIVE, Some THREAD_IDLE}" using i by auto
      moreover have "asched force a = a" using False no Nil i by (auto simp: asched_def)
      ultimately show ?thesis using assms by (simp add: ainv_def)
    qed
  qed
qed

end
