(* ===== verification/Sched_Inv.thy ===== *)
theory Sched_Inv
  imports Sched_Machine
begin

text \<open>
  Every event keeps the invariant of the machine: first on the specification, then on the code's
  state through the simulation of \<open>Sched_Spec\<close>.
\<close>

section \<open>Bookkeeping\<close>

lemma client_simps [simp]:
  "pc (goes t p cl) = (pc cl)(t := p)" "holds (goes t p cl) = holds cl"
  "pc (takes t m cl) = pc cl" "holds (takes t m cl) = (holds cl)(t := insert m (holds cl t))"
  "pc (drops t m cl) = pc cl" "holds (drops t m cl) = (holds cl)(t := holds cl t - {m})"
  by (simp_all add: goes_def takes_def drops_def)

lemma goes_same [simp]: "pc cl t = p \<Longrightarrow> goes t p cl = cl"
  by (simp add: goes_def fun_upd_idem)

lemma goes_drops: "goes t p (drops u m cl) = drops u m (goes t p cl)"
  by (simp add: goes_def drops_def)

text \<open>What the invariant says of the current thread and of the others.\<close>

lemma inv0_facts:
  assumes "ainv0 M C a cl"
  shows "t \<in> set (arq a) \<longleftrightarrow> astate a t = Some THREAD_ACTIVE \<and> t \<noteq> acur a"
    "t \<in> set (amq a m) \<longleftrightarrow> astate a t = Some THREAD_BLOCKED \<and> pc cl t = InLock m"
    "t \<in> set (acq a c) \<longleftrightarrow> astate a t = Some THREAD_BLOCKED \<and> (\<exists>m. pc cl t = InWait c m)"
    "distinct (arq a)" "distinct (amq a m)" "distinct (acq a c)" "abq a = []"
  using assms by (simp_all add: ainv0_def queues_ok_def)

lemma inv_current:
  assumes "ainv M C a cl" "pc cl (acur a) \<noteq> Idling"
  shows "astate a (acur a) = Some THREAD_ACTIVE"
  using assms by (auto simp: ainv_def ainv0_def states_ok_def)

lemma states_change:
  assumes "states_ok a cl" "acur b = acur a" "aidle b = aidle a"
    and i: "\<And>u. astate b u = Some THREAD_IDLE \<longleftrightarrow> astate a u = Some THREAD_IDLE"
    and n: "\<And>u. astate b u = None \<longleftrightarrow> astate a u = None"
    and f: "\<And>u. astate b u = Some THREAD_FINISHING \<Longrightarrow> u = acur a"
    and p: "\<And>u. pc cl' u = Idling \<longleftrightarrow> pc cl u = Idling"
    and e: "\<And>u. pc cl' u = Exiting \<Longrightarrow> astate b u \<in> {Some THREAD_FINISHING, Some THREAD_FINISHED}"
  shows "states_ok b cl'"
proof -
  obtain j where j: "aidle a = Some j" "astate a j \<noteq> None" "\<forall>t. astate a t = Some THREAD_IDLE \<longleftrightarrow> t = j"
    "\<forall>t. pc cl t = Idling \<longleftrightarrow> t = j" "astate a (acur a) \<noteq> None"
    using assms(1) by (auto simp: states_ok_def)
  then have "\<exists>i. aidle b = Some i \<and> astate b i \<noteq> None \<and> (\<forall>t. astate b t = Some THREAD_IDLE \<longleftrightarrow> t = i) \<and>
      (\<forall>t. pc cl' t = Idling \<longleftrightarrow> t = i)"
    using assms(3) i n p by simp
  then show ?thesis unfolding states_ok_def using j(5) assms(2) n f e by simp
qed

lemma states_facts:
  assumes "states_ok a cl"
  shows "astate a t = Some THREAD_FINISHING \<Longrightarrow> t = acur a"
    "pc cl t = Exiting \<Longrightarrow> astate a t \<in> {Some THREAD_FINISHING, Some THREAD_FINISHED}"
    "pc cl t = Idling \<longleftrightarrow> astate a t = Some THREAD_IDLE"
  using assms by (auto simp: states_ok_def)

lemma inv_switch:
  assumes "ainv0 M C a cl"
  shows "can_switch a"
proof -
  have so: "states_ok a cl" using assms by (simp add: ainv0_def)
  have "astate a t = Some THREAD_ACTIVE \<and> t \<noteq> acur a" if "t \<in> set (arq a)" for t
    using that inv0_facts(1) [OF assms] by simp
  moreover have "astate a i = Some THREAD_IDLE" if "aidle a = Some i" for i
    using that so by (auto simp: states_ok_def)
  moreover have "astate a (acur a) \<noteq> None" using so by (simp add: states_ok_def)
  ultimately show ?thesis by (fastforce simp: can_switch_def)
qed

lemma inv_not_waiting: "ainv M C a cl \<Longrightarrow> \<not> waiting a (acur a)"
  using inv0_facts(2,3,7) by (auto simp: waiting_def ainv_def)

lemma inv_ajif [simp]:
  "ainv0 M C (a\<lparr>ajif := j\<rparr>) cl = ainv0 M C a cl"
  by (simp add: ainv0_def queues_ok_def states_ok_def mutexes_ok_def users_def)

section \<open>Changes before the scheduler is called\<close>

text \<open>Changing the place of a thread between places that say nothing about its queues.\<close>

lemma inv_goes:
  assumes "ainv0 M C a cl" "pc cl t \<in> {Run} \<union> range Joining" "p \<in> {Run} \<union> range Joining"
  shows "ainv0 M C a (goes t p cl)"
proof -
  have u: "users a (goes t p cl) m = users a cl m" for m using assms(2,3) by (auto simp: users_def)
  have "queues_ok a (goes t p cl)" using assms by (auto simp: ainv0_def queues_ok_def)
  moreover have "states_ok a (goes t p cl)"
  proof -
    have so: "states_ok a cl" using assms(1) by (simp add: ainv0_def)
    note sf = states_facts [OF so]
    show ?thesis
    proof (rule states_change [OF so])
      fix u
      show "pc (goes t p cl) u = Idling \<longleftrightarrow> pc cl u = Idling" using assms(2,3) by auto
      show "u = acur a" if "astate a u = Some THREAD_FINISHING" using that sf(1) by simp
      show "astate a u \<in> {Some THREAD_FINISHING, Some THREAD_FINISHED}" if "pc (goes t p cl) u = Exiting"
        using that assms(3) sf(2) [of u] by (auto split: if_splits)
    qed simp_all
  qed
  moreover have "mutexes_ok M C a (goes t p cl)" unfolding mutexes_ok_def u
    using assms by (auto simp: ainv0_def mutexes_ok_def)
  ultimately show ?thesis by (simp add: ainv0_def)
qed

lemma inv_states_block:
  assumes "states_ok a cl" "astate a t = Some THREAD_ACTIVE" "p \<noteq> Idling" "p \<noteq> Exiting"
    "acur b = acur a" "aidle b = aidle a" "\<And>u. astate b u = (if u = t then Some THREAD_BLOCKED else astate a u)"
  shows "states_ok b (goes t p cl)"
proof (rule states_change [OF assms(1,5,6)])
  note sf = states_facts [OF assms(1)]
  fix u
  show "astate b u = Some THREAD_IDLE \<longleftrightarrow> astate a u = Some THREAD_IDLE" "astate b u = None \<longleftrightarrow> astate a u = None"
    using assms(2,7) by simp_all
  show "u = acur a" if "astate b u = Some THREAD_FINISHING"
    using that sf(1) [of u] assms(7) by (auto split: if_splits)
  show "pc (goes t p cl) u = Idling \<longleftrightarrow> pc cl u = Idling" using assms(2,3) sf(3) [of t] by auto
  show "astate b u \<in> {Some THREAD_FINISHING, Some THREAD_FINISHED}" if "pc (goes t p cl) u = Exiting"
    using that assms(4,7) sf(2) [of u] by (auto split: if_splits)
qed

lemma inv_block_lock:
  assumes "ainv M C a cl" "m \<in> M" "alocked a m" "t = acur a" "pc cl t = Run \<or> (\<exists>c m. pc cl t = InWait c m)"
  shows "ainv0 M C ((aset t THREAD_BLOCKED a)\<lparr>amq := (amq a)(m := amq a m @ [t])\<rparr>) (goes t (InLock m) cl)"
    (is "ainv0 M C ?b ?cl")
proof -
  have act: "astate a t = Some THREAD_ACTIVE" using inv_current [OF assms(1)] assms(4,5) by auto
  have i0: "ainv0 M C a cl" using assms(1) by (simp add: ainv_def)
  note f = inv0_facts [OF i0]
  have u: "users ?b ?cl k = users a cl k" for k using assms(5) by (auto simp: users_def)
  have "queues_ok ?b ?cl" unfolding queues_ok_def
    using f act assms(4,5) by (auto split: if_splits)
  moreover have "states_ok ?b ?cl"
    using i0 act assms(5) by (intro inv_states_block [where a = a]) (auto simp: ainv0_def)
  moreover have "mutexes_ok M C ?b ?cl" unfolding mutexes_ok_def u
    using i0 assms(2,3) by (auto simp: ainv0_def mutexes_ok_def)
  ultimately show ?thesis by (simp add: ainv0_def)
qed

lemma inv_block_wait:
  assumes "ainv M C a cl" "m \<in> M" "c \<in> C" "t = acur a" "pc cl t = Run"
  shows "ainv0 M C ((aset t THREAD_BLOCKED a)\<lparr>acq := (acq a)(c := acq a c @ [t])\<rparr>) (goes t (InWait c m) cl)"
    (is "ainv0 M C ?b ?cl")
proof -
  have act: "astate a t = Some THREAD_ACTIVE" using inv_current [OF assms(1)] assms(4,5) by auto
  have i0: "ainv0 M C a cl" using assms(1) by (simp add: ainv_def)
  note f = inv0_facts [OF i0]
  have u: "users ?b ?cl k = users a cl k" for k using assms(5) by (auto simp: users_def)
  have "queues_ok ?b ?cl" unfolding queues_ok_def
    using f act assms(4,5) by (auto split: if_splits)
  moreover have "states_ok ?b ?cl"
    using i0 act assms(5) by (intro inv_states_block [where a = a]) (auto simp: ainv0_def)
  moreover have "mutexes_ok M C ?b ?cl" unfolding mutexes_ok_def u
    using i0 assms(2,3) by (auto simp: ainv0_def mutexes_ok_def)
  ultimately show ?thesis by (simp add: ainv0_def)
qed

lemma inv_exit:
  assumes "ainv M C a cl" "t = acur a" "pc cl t = Run"
  shows "ainv0 M C (aset t THREAD_FINISHING a) (goes t Exiting cl)" (is "ainv0 M C ?b ?cl")
proof -
  have act: "astate a t = Some THREAD_ACTIVE" using inv_current [OF assms(1)] assms(2,3) by auto
  have i0: "ainv0 M C a cl" using assms(1) by (simp add: ainv_def)
  note f = inv0_facts [OF i0]
  have u: "users ?b ?cl k = users a cl k" for k using assms(3) by (auto simp: users_def)
  have "queues_ok ?b ?cl" unfolding queues_ok_def using f act assms(2,3) by (auto split: if_splits)
  moreover have "states_ok ?b ?cl"
  proof -
    have so: "states_ok a cl" using i0 by (simp add: ainv0_def)
    note sf = states_facts [OF so]
    have nf: "astate a u \<noteq> Some THREAD_FINISHING" for u using sf(1) [of u] act assms(2) by auto
    have ix: "pc cl t \<noteq> Idling" using sf(3) act by auto
    show ?thesis
    proof (rule states_change [OF so])
      fix u
      show "astate ?b u = Some THREAD_IDLE \<longleftrightarrow> astate a u = Some THREAD_IDLE" "astate ?b u = None \<longleftrightarrow> astate a u = None"
        using act by simp_all
      show "u = acur a" if "astate ?b u = Some THREAD_FINISHING" using that nf assms(2) by (auto split: if_splits)
      show "pc ?cl u = Idling \<longleftrightarrow> pc cl u = Idling" using assms(3) by auto
      show "astate ?b u \<in> {Some THREAD_FINISHING, Some THREAD_FINISHED}" if "pc ?cl u = Exiting"
        using that act sf(2) [of u] nf by (auto split: if_splits)
    qed simp_all
  qed
  moreover have "mutexes_ok M C ?b ?cl" unfolding mutexes_ok_def u
    using i0 by (auto simp: ainv0_def mutexes_ok_def)
  ultimately show ?thesis by (simp add: ainv0_def)
qed

section \<open>Taking, releasing and waking\<close>

lemma inv_take_lock:
  assumes "ainv0 M C a cl" "m \<in> M" "\<not> alocked a m" "pc cl t = Run \<or> (\<exists>c m. pc cl t = InWait c m)"
    "astate a t \<noteq> Some THREAD_BLOCKED"
  shows "ainv0 M C (a\<lparr>alocked := (alocked a)(m := True)\<rparr>) (goes t Run (takes t m cl))" (is "ainv0 M C ?b ?cl")
proof -
  note f = inv0_facts [OF assms(1)]
  have mo: "mutexes_ok M C a cl" using assms(1) by (simp add: ainv0_def)
  have u: "users ?b ?cl k = (if k = m then insert t (users a cl k) else users a cl k)" for k
    using assms(4) by (auto simp: users_def)
  have "users a cl m = {}" using mo assms(3) by (auto simp: mutexes_ok_def split: if_splits)
  then have "mutexes_ok M C ?b ?cl" unfolding mutexes_ok_def u
    using mo assms(2,4) by (auto simp: mutexes_ok_def split: if_splits)
  moreover have "queues_ok ?b ?cl" unfolding queues_ok_def using f assms(4,5) by (auto split: if_splits)
  moreover have "states_ok ?b ?cl"
  proof -
    have so: "states_ok a cl" using assms(1) by (simp add: ainv0_def)
    note sf = states_facts [OF so]
    show ?thesis
    proof (rule states_change [OF so])
      fix u
      show "pc ?cl u = Idling \<longleftrightarrow> pc cl u = Idling" using assms(4) by auto
      show "u = acur a" if "astate ?b u = Some THREAD_FINISHING" using that sf(1) by simp
      show "astate ?b u \<in> {Some THREAD_FINISHING, Some THREAD_FINISHED}" if "pc ?cl u = Exiting"
        using that sf(2) [of u] by (simp split: if_splits)
    qed simp_all
  qed
  ultimately show ?thesis by (simp add: ainv0_def)
qed

text \<open>Waking a blocked thread that has just been taken off its queue.\<close>

lemma states_wake:
  assumes "states_ok a cl" "astate a u = Some THREAD_BLOCKED" "\<And>t. pc cl' t = pc cl t"
    "acur b = acur a" "aidle b = aidle a" "\<And>t. astate b t = (if t = u then Some THREAD_ACTIVE else astate a t)"
  shows "states_ok b cl'"
proof (rule states_change [OF assms(1,4,5)])
  note sf = states_facts [OF assms(1)]
  fix t
  show "astate b t = Some THREAD_IDLE \<longleftrightarrow> astate a t = Some THREAD_IDLE" "astate b t = None \<longleftrightarrow> astate a t = None"
    "pc cl' t = Idling \<longleftrightarrow> pc cl t = Idling"
    using assms(2,3,6) by simp_all
  show "t = acur a" if "astate b t = Some THREAD_FINISHING" using that sf(1) [of t] assms(6) by (auto split: if_splits)
  show "astate b t \<in> {Some THREAD_FINISHING, Some THREAD_FINISHED}" if "pc cl' t = Exiting"
    using that sf(2) [of t] assms(2,3,6) by auto
qed

text \<open>Waking a blocked thread takes it off the one wait queue it is on.\<close>

lemma queues_wake:
  assumes "queues_ok a cl" "astate a v = Some THREAD_BLOCKED" "v \<noteq> acur a" "pc cl' = pc cl"
    and b: "acur b = acur a" "abq b = abq a" "arq b = arq a @ [v]"
      "\<And>k. amq b k = remove1 v (amq a k)" "\<And>c. acq b c = remove1 v (acq a c)"
      "\<And>t. astate b t = (if t = v then Some THREAD_ACTIVE else astate a t)"
  shows "queues_ok b cl'"
proof -
  have f: "\<And>t. t \<in> set (arq a) \<longleftrightarrow> astate a t = Some THREAD_ACTIVE \<and> t \<noteq> acur a"
    "\<And>t m. t \<in> set (amq a m) \<longleftrightarrow> astate a t = Some THREAD_BLOCKED \<and> pc cl t = InLock m"
    "\<And>t c. t \<in> set (acq a c) \<longleftrightarrow> astate a t = Some THREAD_BLOCKED \<and> (\<exists>m. pc cl t = InWait c m)"
    "distinct (arq a)" "\<And>m. distinct (amq a m)" "\<And>c. distinct (acq a c)" "abq a = []"
    using assms(1) by (simp_all add: queues_ok_def)
  have nv: "v \<notin> set (arq a)" using f(1) [of v] assms(2) by auto
  have "x \<in> set (arq b) \<longleftrightarrow> astate b x = Some THREAD_ACTIVE \<and> x \<noteq> acur b" for x
    unfolding b using f(1) [of x] nv assms(3) by auto
  moreover have "x \<in> set (amq b k) \<longleftrightarrow> astate b x = Some THREAD_BLOCKED \<and> pc cl' x = InLock k" for x k
    unfolding b assms(4) using f(2) [of x k] f(5) [of k] by (auto simp: set_remove1_eq)
  moreover have "x \<in> set (acq b c) \<longleftrightarrow> astate b x = Some THREAD_BLOCKED \<and> (\<exists>m. pc cl' x = InWait c m)" for x c
    unfolding b assms(4) using f(3) [of x c] f(6) [of c] by (auto simp: set_remove1_eq)
  moreover have "distinct (arq b)" unfolding b using f(4) nv by simp
  moreover have "distinct (amq b k)" for k unfolding b using f(5) [of k] by (rule distinct_remove1)
  moreover have "distinct (acq b c)" for c unfolding b using f(6) [of c] by (rule distinct_remove1)
  ultimately show ?thesis unfolding queues_ok_def using b(2) f(7) by simp
qed

lemma inv_unlock:
  assumes "ainv0 M C a cl" "m \<in> holds cl t" "pc cl t = Run \<or> (\<exists>c m. pc cl t = InWait c m)" "t = acur a"
  shows "ainv0 M C (aunlock m a) (drops t m cl)" "acur (aunlock m a) = acur a"
    "\<forall>u. astate (aunlock m a) u = (if u \<in> set (take 1 (amq a m)) then Some THREAD_ACTIVE else astate a u)"
proof -
  note f = inv0_facts [OF assms(1)]
  have mo: "mutexes_ok M C a cl" using assms(1) by (simp add: ainv0_def)
  have "t \<in> users a cl m" using assms(2) by (simp add: users_def)
  then have own: "users a cl m = {t}" using mo unfolding mutexes_ok_def by (metis empty_iff singletonD)
  have "ainv0 M C (aunlock m a) (drops t m cl) \<and> acur (aunlock m a) = acur a \<and>
    (\<forall>u. astate (aunlock m a) u = (if u \<in> set (take 1 (amq a m)) then Some THREAD_ACTIVE else astate a u))"
  proof (cases "amq a m")
    case Nil
    let ?b = "a\<lparr>alocked := (alocked a)(m := False)\<rparr>" and ?cl = "drops t m cl"
    have u: "users ?b ?cl k = (if k = m then {} else users a cl k)" for k
      using own assms(3) by (auto simp: users_def)
    have "mutexes_ok M C ?b ?cl" unfolding mutexes_ok_def u
      using mo Nil by (auto simp: mutexes_ok_def split: if_splits)
    moreover have "queues_ok ?b ?cl" unfolding queues_ok_def using f by auto
    moreover have "states_ok ?b ?cl" using assms(1) by (auto simp: ainv0_def states_ok_def)
    ultimately show ?thesis using Nil by (simp add: aunlock_def ainv0_def)
  next
    case (Cons v vs)
    let ?b = "aactivate v (a\<lparr>amq := (amq a)(m := vs)\<rparr>)" and ?cl = "drops t m cl"
    have v: "astate a v = Some THREAD_BLOCKED" "pc cl v = InLock m" "v \<notin> set vs" "v \<noteq> t"
      using f(2) [of v m] f(5) [of m] Cons assms(3) by auto
    have vs: "x \<in> set vs \<longleftrightarrow> astate a x = Some THREAD_BLOCKED \<and> pc cl x = InLock m \<and> x \<noteq> v" for x
      using f(2) [of x m] Cons v(3) by auto
    have st: "astate ?b x = (if x = v then Some THREAD_ACTIVE else astate a x)" for x
      using v(1) by (auto simp: astate_aactivate)
    have u: "users ?b ?cl k = (if k = m then {v} else users a cl k)" for k
    proof (cases "k = m")
      case True
      have "x \<in> users ?b ?cl m \<longleftrightarrow> x = v" for x
      proof -
        have "x \<in> users a cl m \<longleftrightarrow> x = t" using own by blast
        then show ?thesis using v assms(2,3) Cons by (auto simp: users_def)
      qed
      then show ?thesis using True by auto
    next
      case False
      then show ?thesis by (auto simp: users_def)
    qed
    have al: "alocked a m" using mo own unfolding mutexes_ok_def by (metis insert_not_empty)
    have "mutexes_ok M C ?b ?cl" unfolding mutexes_ok_def u
      using mo al by (auto simp: mutexes_ok_def split: if_splits)
    moreover have "queues_ok ?b ?cl"
    proof (rule queues_wake [OF _ v(1) _ _ _ _ _ _ _ st])
      show "queues_ok a cl" using assms(1) by (simp add: ainv0_def)
      show "amq ?b k = remove1 v (amq a k)" for k using Cons v(2) f(2) [of v k] by (auto simp: remove1_idem)
      show "acq ?b c = remove1 v (acq a c)" for c using v(2) f(3) [of v c] by (simp add: remove1_idem)
      show "arq ?b = arq a @ [v]" using v(1) by (simp add: arq_aactivate)
    qed (use v(4) assms(4) in simp_all)
    moreover have "states_ok ?b ?cl"
    proof (rule states_wake [OF _ v(1) _ _ _ st])
      show "states_ok a cl" using assms(1) by (simp add: ainv0_def)
    qed simp_all
    moreover have "\<forall>x. astate ?b x = (if x \<in> set (take 1 (amq a m)) then Some THREAD_ACTIVE else astate a x)"
      using st Cons by auto
    ultimately show ?thesis using Cons by (simp add: aunlock_def ainv0_def)
  qed
  then show "ainv0 M C (aunlock m a) (drops t m cl)" "acur (aunlock m a) = acur a"
    "\<forall>u. astate (aunlock m a) u = (if u \<in> set (take 1 (amq a m)) then Some THREAD_ACTIVE else astate a u)"
    by blast+
qed

lemma inv_signal:
  assumes "ainv0 M C a cl" "astate a (acur a) \<noteq> Some THREAD_BLOCKED"
  shows "ainv0 M C (asignal c a) cl" "astate (asignal c a) (acur a) = astate a (acur a)"
proof -
  note f = inv0_facts [OF assms(1)]
  have "ainv0 M C (asignal c a) cl \<and> astate (asignal c a) (acur a) = astate a (acur a)"
  proof (cases "acq a c")
    case Nil
    then show ?thesis using assms by (simp add: asignal_def)
  next
    case (Cons v vs)
    let ?b = "aactivate v (a\<lparr>acq := (acq a)(c := vs)\<rparr>)"
    obtain m where v: "astate a v = Some THREAD_BLOCKED" "pc cl v = InWait c m" "v \<notin> set vs"
      using f(3) [of v c] f(6) [of c] Cons by auto
    have ne: "v \<noteq> acur a" using v(1) assms(2) by auto
    have st: "astate ?b x = (if x = v then Some THREAD_ACTIVE else astate a x)" for x
      using v(1) by (auto simp: astate_aactivate)
    have u: "users ?b cl = users a cl" by (simp add: users_def fun_eq_iff)
    have "mutexes_ok M C ?b cl" using assms(1) u by (simp add: ainv0_def mutexes_ok_def)
    moreover have "queues_ok ?b cl"
    proof (rule queues_wake [OF _ v(1) ne _ _ _ _ _ _ st])
      show "queues_ok a cl" using assms(1) by (simp add: ainv0_def)
      show "amq ?b k = remove1 v (amq a k)" for k using v(2) f(2) [of v k] by (simp add: remove1_idem)
      show "acq ?b d = remove1 v (acq a d)" for d using Cons v(2) f(3) [of v d] by (auto simp: remove1_idem)
      show "arq ?b = arq a @ [v]" using v(1) by (simp add: arq_aactivate)
    qed simp_all
    moreover have "states_ok ?b cl"
    proof (rule states_wake [OF _ v(1) _ _ _ st])
      show "states_ok a cl" using assms(1) by (simp add: ainv0_def)
    qed simp_all
    ultimately show ?thesis using Cons st ne by (simp add: asignal_def ainv0_def)
  qed
  then show "ainv0 M C (asignal c a) cl" "astate (asignal c a) (acur a) = astate a (acur a)" by blast+
qed

text \<open>A broadcast is a signal repeated until the queue is empty.\<close>

lemma aactivate_acq [simp]: "aactivate t (a\<lparr>acq := x\<rparr>) = (aactivate t a)\<lparr>acq := x\<rparr>"
  by (simp add: aactivate_def aset_def)

lemma fold_aactivate_acq: "fold aactivate ts (a\<lparr>acq := x\<rparr>) = (fold aactivate ts a)\<lparr>acq := x\<rparr>"
  by (induction ts arbitrary: a) simp_all

lemma asignal_fields [simp]:
  "acur (asignal c a) = acur a" "acq (asignal c a) = (acq a)(c := tl (acq a c))"
  by (auto simp: asignal_def split: list.splits)

lemma abroadcast_signal:
  "abroadcast c a = (if acq a c = [] then a else abroadcast c (asignal c a))"
proof (cases "acq a c")
  case Nil
  then show ?thesis by (simp add: abroadcast_def fun_upd_idem)
next
  case (Cons t ts)
  then show ?thesis by (simp add: abroadcast_def asignal_def fold_aactivate_acq)
qed

lemma abroadcast_signals: "abroadcast c a = (asignal c ^^ length (acq a c)) a"
proof (induction "length (acq a c)" arbitrary: a)
  case 0
  then show ?case by (subst abroadcast_signal) simp
next
  case (Suc n)
  then have n: "n = length (acq (asignal c a) c)" by simp
  have "abroadcast c a = abroadcast c (asignal c a)" using Suc(2) by (subst abroadcast_signal) auto
  also have "\<dots> = (asignal c ^^ n) (asignal c a)" using Suc(1) [OF n] n by simp
  also have "\<dots> = (asignal c ^^ Suc n) a" by (simp only: funpow_Suc_right comp_def)
  finally show ?case using Suc(2) by simp
qed

lemma inv_broadcast:
  assumes "ainv0 M C a cl" "astate a (acur a) \<noteq> Some THREAD_BLOCKED"
  shows "ainv0 M C (abroadcast c a) cl \<and> acur (abroadcast c a) = acur a \<and>
    astate (abroadcast c a) (acur a) = astate a (acur a)"
proof -
  have "ainv0 M C ((asignal c ^^ k) a) cl \<and> acur ((asignal c ^^ k) a) = acur a \<and>
    astate ((asignal c ^^ k) a) (acur a) = astate a (acur a)" for k
  proof (induction k)
    case (Suc k)
    then show ?case using inv_signal [of M C "(asignal c ^^ k) a" cl c] assms(2) by simp
  qed (use assms(1) in simp)
  then show ?thesis unfolding abroadcast_signals by blast
qed

lemma inv_wake_new:
  assumes "ainv0 M C a cl" "pc cl v = Run" "astate a (acur a) \<noteq> Some THREAD_BLOCKED"
  shows "ainv0 M C (aactivate v a) cl" "astate (aactivate v a) (acur a) = astate a (acur a)"
proof -
  note f = inv0_facts [OF assms(1)]
  have "ainv0 M C (aactivate v a) cl \<and> astate (aactivate v a) (acur a) = astate a (acur a)"
  proof (cases "astate a v = Some THREAD_BLOCKED")
    case True
    let ?b = "aactivate v a"
    have ne: "v \<noteq> acur a" using True assms(3) by auto
    have st: "astate ?b x = (if x = v then Some THREAD_ACTIVE else astate a x)" for x
      using True by (auto simp: astate_aactivate)
    have u: "users ?b cl = users a cl" by (simp add: users_def fun_eq_iff)
    have "mutexes_ok M C ?b cl" using assms(1) u by (simp add: ainv0_def mutexes_ok_def)
    moreover have "queues_ok ?b cl"
    proof (rule queues_wake [OF _ True ne _ _ _ _ _ _ st])
      show "queues_ok a cl" using assms(1) by (simp add: ainv0_def)
      show "amq ?b k = remove1 v (amq a k)" for k using assms(2) f(2) [of v k] by (simp add: remove1_idem)
      show "acq ?b d = remove1 v (acq a d)" for d using assms(2) f(3) [of v d] by (simp add: remove1_idem)
      show "arq ?b = arq a @ [v]" using True by (simp add: arq_aactivate)
    qed simp_all
    moreover have "states_ok ?b cl"
    proof (rule states_wake [OF _ True _ _ _ st])
      show "states_ok a cl" using assms(1) by (simp add: ainv0_def)
    qed simp_all
    ultimately show ?thesis using st ne by (simp add: ainv0_def)
  qed (use assms in \<open>simp add: aactivate_def\<close>)
  then show "ainv0 M C (aactivate v a) cl" "astate (aactivate v a) (acur a) = astate a (acur a)" by blast+
qed

section \<open>Every event keeps the invariant\<close>

text \<open>\<open>enabled\<close> in terms of the specification.\<close>

fun aenabled :: "mid set \<Rightarrow> cid set \<Rightarrow> event \<Rightarrow> asys \<Rightarrow> client \<Rightarrow> bool" where
  "aenabled M C Tick a cl = True"
| "aenabled M C Resume a cl = (pc cl (acur a) \<noteq> Run)"
| "aenabled M C e a cl = (pc cl (acur a) = Run \<and>
     (case e of
        Lock m \<Rightarrow> m \<in> M \<and> m \<notin> holds cl (acur a)
      | Unlock m \<Rightarrow> m \<in> holds cl (acur a)
      | Wait c m \<Rightarrow> c \<in> C \<and> m \<in> holds cl (acur a)
      | Signal c \<Rightarrow> c \<in> C
      | Broadcast c \<Rightarrow> c \<in> C
      | Join u \<Rightarrow> athr a u \<noteq> None
      | Wake u \<Rightarrow> athr a u \<noteq> None \<and> pc cl u = Run
      | _ \<Rightarrow> True))"

lemma enabled_abs: "enabled M C e x \<Longrightarrow> sim H (kern x) a \<Longrightarrow> aenabled M C e a (client x)"
  by (cases e) (auto simp: sim_def Let_def)

lemma ajoin_inv:
  assumes "ainv M C a cl"
  shows "ainv M C (ajoin u a) cl"
proof -
  have "ainv0 M C a cl" using assms by (simp add: ainv_def)
  then show ?thesis using assms asched_inv by (simp add: ajoin_def)
qed

lemma alock_inv:
  assumes "ainv M C a cl" "m \<in> M" "t = acur a" "pc cl t = Run \<or> (\<exists>c m. pc cl t = InWait c m)"
  shows "ainv M C (alock m a) (if alocked a m then goes t (InLock m) cl else goes t Run (takes t m cl))"
proof (cases "alocked a m")
  case True
  then show ?thesis using asched_inv [OF inv_block_lock [OF assms(1,2) True assms(3,4)]] assms(3) by (simp add: alock_def)
next
  case False
  have act: "astate a t = Some THREAD_ACTIVE" using inv_current [OF assms(1)] assms(3,4) by auto
  have "ainv0 M C (a\<lparr>alocked := (alocked a)(m := True)\<rparr>) (goes t Run (takes t m cl))"
    using assms act False by (intro inv_take_lock) (auto simp: ainv_def)
  then show ?thesis using False act assms(3) by (simp add: alock_def ainv_def)
qed

lemma takes_goes: "goes t p (takes u m cl) = takes u m (goes t p cl)"
  by (simp add: goes_def takes_def)

theorem astep_inv:
  assumes "ainv M C a cl" "aenabled M C e a cl"
  shows "ainv M C (astep e (pc cl (acur a)) a)
    (moves e (acur a) (alocked a) (\<lambda>u. astate a u \<noteq> Some THREAD_FINISHED) cl)"
proof -
  let ?t = "acur a"
  have i0: "ainv0 M C a cl" and st: "astate a ?t \<in> {Some THREAD_ACTIVE, Some THREAD_IDLE}"
    using assms(1) by (simp_all add: ainv_def)
  have nb: "astate a ?t \<noteq> Some THREAD_BLOCKED" using st by auto
  have mo: "mutexes_ok M C a cl" using i0 by (simp add: ainv0_def)
  show ?thesis
  proof (cases e)
    case (Lock m)
    then show ?thesis using assms(2) alock_inv [OF assms(1), of m ?t] by (auto simp: takes_goes)
  next
    case (Unlock m)
    then have e: "pc cl ?t = Run" "m \<in> holds cl ?t" using assms(2) by auto
    note u = inv_unlock [OF i0 e(2) _ refl]
    have "?t \<notin> set (take 1 (amq a m))"
      using inv0_facts(2) [OF i0, of ?t m] nb set_take_subset [of 1 "amq a m"] by auto
    then show ?thesis using Unlock u e st by (auto simp: ainv_def)
  next
    case (Wait c m)
    then have e: "pc cl ?t = Run" "m \<in> holds cl ?t" "c \<in> C" using assms(2) by auto
    have m: "m \<in> M" using mo e(2) by (auto simp: mutexes_ok_def)
    let ?b = "(aset ?t THREAD_BLOCKED a)\<lparr>acq := (acq a)(c := acq a c @ [?t])\<rparr>"
    have "ainv0 M C ?b (goes ?t (InWait c m) cl)" using inv_block_wait [OF assms(1) m e(3) refl e(1)] .
    then have "ainv0 M C (aunlock m ?b) (drops ?t m (goes ?t (InWait c m) cl))"
      using e(2) by (intro inv_unlock(1)) auto
    then show ?thesis using Wait asched_inv by (simp add: await_def goes_drops)
  next
    case (Signal c)
    then show ?thesis using inv_signal [OF i0 nb, of c] st by (simp add: ainv_def)
  next
    case (Broadcast c)
    then show ?thesis using inv_broadcast [OF i0 nb, of c] st by (simp add: ainv_def)
  next
    case Yield
    then show ?thesis using asched_inv [OF i0] by simp
  next
    case Exit
    then show ?thesis using asched_inv [OF inv_exit [OF assms(1) refl]] assms(2) by simp
  next
    case (Join u)
    then have e: "pc cl ?t = Run" using assms(2) by auto
    show ?thesis
    proof (cases "astate a u = Some THREAD_FINISHED")
      case True
      then show ?thesis using Join assms(1) by (simp add: ajoin_def)
    next
      case False
      have "ainv0 M C a (goes ?t (Joining u) cl)" using e by (intro inv_goes [OF i0]) auto
      then show ?thesis using Join False asched_inv by (simp add: ajoin_def)
    qed
  next
    case (Wake u)
    then show ?thesis using inv_wake_new [OF i0 _ nb, of u] assms(2) st by (simp add: ainv_def)
  next
    case Tick
    have "ainv0 M C (a\<lparr>ajif := ajif a + 1\<rparr>) cl" using i0 by simp
    then show ?thesis using Tick asched_inv by (simp add: atick_def)
  next
    case Resume
    then have nr: "pc cl ?t \<noteq> Run" using assms(2) by simp
    show ?thesis
    proof (cases "pc cl ?t")
      case Run
      then show ?thesis using nr by simp
    next
      case (InLock m)
      have "?t \<in> users a cl m" using InLock inv0_facts(2) [OF i0, of ?t m] nb by (simp add: users_def)
      then have u: "users a (goes ?t Run (takes ?t m cl)) k = users a cl k" for k
        using InLock by (auto simp: users_def)
      have "mutexes_ok M C a (goes ?t Run (takes ?t m cl))" unfolding mutexes_ok_def u
        using mo InLock by (auto simp: mutexes_ok_def)
      moreover have "queues_ok a (goes ?t Run (takes ?t m cl))"
        using i0 nb by (auto simp: ainv0_def queues_ok_def)
      moreover have "states_ok a (goes ?t Run (takes ?t m cl))"
      proof -
        have so: "states_ok a cl" using i0 by (simp add: ainv0_def)
        note sf = states_facts [OF so]
        show ?thesis
        proof (rule states_change [OF so])
          fix u
          show "pc (goes ?t Run (takes ?t m cl)) u = Idling \<longleftrightarrow> pc cl u = Idling" using InLock by auto
          show "u = ?t" if "astate a u = Some THREAD_FINISHING" using that sf(1) by simp
          show "astate a u \<in> {Some THREAD_FINISHING, Some THREAD_FINISHED}"
            if "pc (goes ?t Run (takes ?t m cl)) u = Exiting" using that sf(2) [of u] by (simp split: if_splits)
        qed simp_all
      qed
      ultimately show ?thesis using Resume InLock st by (simp add: ainv_def ainv0_def)
    next
      case (InWait c m)
      have "m \<in> M" using mo InWait by (auto simp: mutexes_ok_def)
      from alock_inv [OF assms(1) this refl] show ?thesis using Resume InWait by auto
    next
      case Exiting
      have "states_ok a cl" using i0 by (simp add: ainv0_def)
      from states_facts(2) [OF this Exiting] st show ?thesis by auto
    next
      case (Joining u)
      have "ainv0 M C a (goes ?t Run cl)" using Joining by (intro inv_goes [OF i0]) auto
      then show ?thesis using Resume Joining ajoin_inv [OF assms(1), of u] st by (auto simp: ajoin_def ainv_def)
    next
      case Idling
      then show ?thesis using Resume asched_inv [OF i0] by simp
    qed
  qed
qed

section \<open>The code takes the same steps\<close>

lemma athr_astate: "athr a t \<noteq> None \<longleftrightarrow> astate a t \<noteq> None"
  by (simp add: astate_def)

lemma join_turn_sim:
  assumes "sim H s a" "can_switch a" "preempt_cnt s = 0" "astate a u \<noteq> None"
  shows "\<exists>s'. join_turn u s = Inr s' \<and> sim H s' (ajoin u a) \<and> preempt_cnt s' = 0"
proof -
  obtain st where st: "astate a u = Some st" using assms(4) by blast
  obtain th where "rd_thread u s = Inr th" "tstate th = st" using rd_thread_sim [OF assms(1) st] by blast
  then show ?thesis
    using schedule_sim(2) [OF assms(1-3)] assms(1,3) st
    by (auto simp: join_turn_def thread_join_done_def ajoin_def)
qed

lemma kstep_sim:
  assumes "sim (heads M C) s a" "preempt_cnt s = 0" "ainv M C a cl" "aenabled M C e a cl"
    and j: "\<forall>t u. pc cl t = Joining u \<longrightarrow> astate a u \<noteq> None"
  shows "\<exists>s'. kstep e (pc cl (acur a)) s = Some (Inr s') \<and> sim (heads M C) s' (astep e (pc cl (acur a)) a) \<and> preempt_cnt s' = 0"
proof -
  let ?t = "acur a" and ?H = "heads M C"
  have i0: "ainv0 M C a cl" and st: "astate a ?t \<in> {Some THREAD_ACTIVE, Some THREAD_IDLE}"
    using assms(3) by (simp_all add: ainv_def)
  have mo: "mutexes_ok M C a cl" using i0 by (simp add: ainv0_def)
  note f = inv0_facts [OF i0] and cs = inv_switch [OF i0] and nw = inv_not_waiting [OF assms(3)]
  have il: "astate a i = Some THREAD_IDLE" if "aidle a = Some i" for i
    using that i0 by (auto simp: ainv0_def states_ok_def)
  have wq: "\<forall>t\<in>set (amq a m). astate a t \<noteq> None \<and> t \<notin> set (arq a) \<and> aidle a \<noteq> Some t" for m
    using f(1,2) il by fastforce
  have cq: "\<forall>t\<in>set (acq a c). astate a t \<noteq> None \<and> t \<notin> set (arq a)" for c
    using f(1,3) by auto
  have keep: "\<exists>s'. F s = Inr s' \<and> sim ?H s' b \<and> preempt_cnt s' = 0"
    if "\<exists>s'. F s = Inr s' \<and> sim ?H s' b \<and> same_flags s s'" for F b
    using that assms(2) by (auto simp: same_flags_def)
  show ?thesis
  proof (cases e)
    case (Lock m)
    then show ?thesis using mutex_lock_sim [OF assms(1) _ cs nw assms(2), of m] assms(4) by auto
  next
    case (Unlock m)
    then have "m \<in> M" using assms(4) mo by (auto simp: mutexes_ok_def)
    then show ?thesis using Unlock keep [of "mutex_unlock m"] mutex_unlock_sim [OF assms(1), of m] wq [of m] by auto
  next
    case (Wait c m)
    then have "m \<in> M" "c \<in> C" "pc cl ?t = Run" using assms(4) mo by (auto simp: mutexes_ok_def)
    moreover have "aidle a \<noteq> Some ?t" using il inv_current [OF assms(3)] \<open>pc cl ?t = Run\<close> by auto
    ultimately show ?thesis using Wait condition_wait_sim [OF assms(1) _ _ cs nw assms(2), of m c] wq [of m] by auto
  next
    case (Signal c)
    then show ?thesis using keep [of "condition_signal c"] condition_signal_sim [OF assms(1), of c] cq [of c] assms(4) by auto
  next
    case (Broadcast c)
    have "\<forall>t\<in>set (acq a c). astate a t = Some THREAD_BLOCKED" "\<forall>t\<in>set (arq a). astate a t \<noteq> Some THREAD_BLOCKED"
      using f(1,3) by auto
    then show ?thesis using Broadcast condition_broadcast_sim [OF assms(1) _ f(7), of c] assms(2,4) by (auto simp: same_flags_def)
  next
    case Yield
    then show ?thesis using schedule_sim(2) [OF assms(1) cs assms(2)] by simp
  next
    case Exit
    obtain s1 where 1: "set_state ?t THREAD_FINISHING s = Inr s1" "sim ?H s1 (aset ?t THREAD_FINISHING a)" "same_flags s s1"
      using set_state_sim [OF assms(1), of ?t THREAD_FINISHING] st by auto
    have "preempt_cnt s1 = 0" using 1(3) assms(2) by (simp add: same_flags_def)
    then show ?thesis using Exit 1 schedule_sim(2) [OF 1(2)] cs sim_fields(1) [OF assms(1)]
      by (simp add: thread_exit_begin_def)
  next
    case (Join u)
    then have "astate a u \<noteq> None" using assms(4) by (auto simp: astate_def)
    then show ?thesis using Join join_turn_sim [OF assms(1) cs assms(2)] by auto
  next
    case (Wake u)
    then have "astate a u \<noteq> None" using assms(4) by (auto simp: astate_def)
    moreover have "astate a u = Some THREAD_BLOCKED \<longrightarrow> u \<notin> set (arq a)" using f(1) [of u] by auto
    ultimately show ?thesis using Wake keep [of "thread_activate u"] thread_activate_sim [OF assms(1), of u] by auto
  next
    case Tick
    then show ?thesis using pit_handler_sim [OF assms(1) cs assms(2)] by simp
  next
    case Resume
    show ?thesis
    proof (cases "pc cl ?t")
      case (InWait c m)
      then have "m \<in> M" using mo by (auto simp: mutexes_ok_def)
      then show ?thesis using Resume InWait mutex_lock_sim [OF assms(1) _ cs nw assms(2), of m] by auto
    next
      case (Joining u)
      then show ?thesis using Resume join_turn_sim [OF assms(1) cs assms(2), of u] j by auto
    qed (use Resume assms(1,2) schedule_sim(2) [OF assms(1) cs assms(2)] in auto)
  qed
qed

text \<open>Threads do not go away while the machine runs.\<close>

lemma astate_None [simp]:
  "astate (aswitch n a) t = None \<longleftrightarrow> astate a t = None"
  "astate (aactivate u a) t = None \<longleftrightarrow> astate a t = None"
  by (auto simp: astate_aswitch astate_aactivate)

lemma astate_None_sched [simp]: "astate (asched force a) t = None \<longleftrightarrow> astate a t = None"
  by (simp add: asched_def split: list.split option.split)

lemma astate_None_fold [simp]: "astate (fold aactivate us a) t = None \<longleftrightarrow> astate a t = None"
  by (induction us arbitrary: a) simp_all

lemma astate_None_calls [simp]:
  "astate (aunlock m a) t = None \<longleftrightarrow> astate a t = None" "astate (alock m a) t = None \<longleftrightarrow> astate a t = None"
  "astate (ajoin u a) t = None \<longleftrightarrow> astate a t = None"
  by (simp_all add: aunlock_def alock_def ajoin_def split: list.split)

lemma astate_persists: "astate (astep e p a) t = None \<longleftrightarrow> astate a t = None"
  by (cases e) (simp_all add: asignal_def abroadcast_def await_def atick_def split: list.split cont.split)

section \<open>The invariant of the machine\<close>

definition mach_rel :: "mid set \<Rightarrow> cid set \<Rightarrow> mach \<Rightarrow> asys \<Rightarrow> bool" where
  "mach_rel M C x a \<longleftrightarrow> sim (heads M C) (kern x) a \<and> preempt_cnt (kern x) = 0 \<and> ainv M C a (client x) \<and>
     (\<forall>t u. pc (client x) t = Joining u \<longrightarrow> astate a u \<noteq> None)"

definition mach_inv :: "mid set \<Rightarrow> cid set \<Rightarrow> mach \<Rightarrow> bool" where
  "mach_inv M C x \<longleftrightarrow> (\<exists>a. mach_rel M C x a)"

lemma moves_join:
  "pc (moves e t lb jb cl) v = Joining u \<Longrightarrow> pc cl v = Joining u \<or> e = Join u"
  by (cases e) (auto split: if_splits cont.splits)

lemma step_refines:
  assumes "mach_rel M C x a" "enabled M C e x"
  shows "\<exists>y. step e x = Some (Inr y) \<and> mach_rel M C y (astep e (pc (client x) (acur a)) a)"
proof -
  let ?s = "kern x" and ?cl = "client x"
  have s: "sim (heads M C) ?s a" and i: "ainv M C a ?cl" and p: "preempt_cnt ?s = 0"
    and j: "\<forall>t u. pc ?cl t = Joining u \<longrightarrow> astate a u \<noteq> None"
    using assms(1) by (auto simp: mach_rel_def)
  have en: "aenabled M C e a ?cl" using enabled_abs [OF assms(2) s] .
  obtain s' where s': "kstep e (pc ?cl (acur a)) ?s = Some (Inr s')"
    "sim (heads M C) s' (astep e (pc ?cl (acur a)) a)" "preempt_cnt s' = 0"
    using kstep_sim [OF s p i en j] by blast
  have lb: "(\<lambda>m. lock_busy m ?s) = alocked a" using sim_fields(4) [OF s] by (simp add: lock_busy_def fun_eq_iff)
  have jb: "(\<lambda>u. join_busy u ?s) = (\<lambda>u. astate a u \<noteq> Some THREAD_FINISHED)"
    using sim_fields(3) [OF s] by (simp add: join_busy_def astate_def fun_eq_iff)
  let ?y = "\<lparr>kern = s', client = moves e (acur a) (alocked a) (\<lambda>u. astate a u \<noteq> Some THREAD_FINISHED) ?cl\<rparr>"
  have st: "step e x = Some (Inr ?y)"
    using s'(1) sim_fields(1) [OF s] by (simp add: step_def Let_def lb jb)
  have "astate a u \<noteq> None" if "pc (client ?y) t = Joining u" for t u
  proof -
    have "pc ?cl t = Joining u \<or> e = Join u" using that moves_join by fastforce
    then show ?thesis using j en by (auto simp: astate_def)
  qed
  then have "mach_rel M C ?y (astep e (pc ?cl (acur a)) a)"
    using s'(2,3) astep_inv [OF i en] by (simp add: mach_rel_def astate_persists)
  then show ?thesis using st by blast
qed

lemma reach_inv:
  assumes "reach M C x0 x" "mach_inv M C x0"
  shows "mach_inv M C x"
  using assms(1)
proof induction
  case start
  then show ?case by (rule assms(2))
next
  case (more x e y)
  obtain a where "mach_rel M C x a" using more.IH by (auto simp: mach_inv_def)
  from step_refines [OF this more.hyps(2)] more.hyps(3) show ?case by (auto simp: mach_inv_def)
qed

lemma mutual_exclusion_inv:
  assumes "mach_inv M C x" "m \<in> holds (client x) t" "m \<in> holds (client x) u"
  shows "t = u"
proof -
  obtain a where "ainv M C a (client x)" using assms(1) by (auto simp: mach_inv_def mach_rel_def)
  then have mo: "mutexes_ok M C a (client x)" by (simp add: ainv_def ainv0_def)
  have "{t, u} \<subseteq> users a (client x) m" using assms(2,3) by (simp add: users_def)
  then show ?thesis using mo unfolding mutexes_ok_def by (metis empty_iff insert_subset singletonD)
qed

end
