(* ===== verification/Sched_Props.thy ===== *)
theory Sched_Props
  imports Sched_Inv
begin

text \<open>Properties of the scheduler, the mutexes and the condition variables.\<close>

section \<open>An example machine\<close>

text \<open>Thread 0 is idle, thread 1 runs and holds mutex 0, thread 2 can run, thread 3 is new.\<close>

definition demo_threads :: "tid \<Rightarrow> thread option" where
  "demo_threads = [0 \<mapsto> \<lparr>tstate = THREAD_IDLE, ttime = 0\<rparr>, 1 \<mapsto> \<lparr>tstate = THREAD_ACTIVE, ttime = 0\<rparr>,
     2 \<mapsto> \<lparr>tstate = THREAD_BLOCKED, ttime = 0\<rparr>, 3 \<mapsto> \<lparr>tstate = THREAD_BLOCKED, ttime = 0\<rparr>]"

definition demo_sched :: sched where
  "demo_sched = \<lparr>current = 1, idle_thread = Some 0, threads = demo_threads,
     qlinks = (\<lambda>q. Some \<lparr>nxt = Some q, prv = Some q\<rparr>), locked = (\<lambda>m. m = 0), preempt_cnt = 0,
     jiffies = 0, ints_on = True, tss_rsp0 = None, resume_ints = (\<lambda>_. True)\<rparr>"

definition demo_mach :: mach where
  "demo_mach = \<lparr>kern = demo_sched,
     client = \<lparr>pc = (\<lambda>t. if t = 0 then Idling else Run), holds = (\<lambda>t. if t = 1 then {0} else {})\<rparr>\<rparr>"

definition demo_asys :: asys where
  "demo_asys = \<lparr>acur = 1, aidle = Some 0, athr = demo_threads, arq = [], amq = (\<lambda>_. []), acq = (\<lambda>_. []),
     abq = [], alocked = (\<lambda>m. m = 0), ajif = 0\<rparr>"

lemma demo_rel: "mach_rel {0} {0} demo_mach demo_asys"
proof -
  have "lists_rep (\<lambda>q. Some \<lparr>nxt = Some q, prv = Some q\<rparr>) (heads {0} {0}) (queues demo_asys)"
    by (auto simp: lists_rep_def dlist_def nx_def pv_def heads_def demo_asys_def)
  then have "sim (heads {0} {0}) demo_sched demo_asys"
    by (auto simp: sim_def demo_sched_def demo_asys_def)
  moreover have st: "astate demo_asys t = (if t = 0 then Some THREAD_IDLE else if t = 1 then Some THREAD_ACTIVE
      else if t = 2 \<or> t = 3 then Some THREAD_BLOCKED else None)" for t
    by (simp add: astate_def demo_asys_def demo_threads_def)
  have "ainv {0} {0} demo_asys (client demo_mach)"
    unfolding ainv_def ainv0_def queues_ok_def states_ok_def mutexes_ok_def users_def st
    by (auto simp: demo_asys_def demo_mach_def)
  ultimately show ?thesis by (simp add: mach_rel_def demo_mach_def demo_sched_def)
qed

lemma sched_demo_inv: "mach_inv {0} {0} demo_mach"
  using demo_rel by (auto simp: mach_inv_def)

section \<open>Waiting in the run queue\<close>

lemma arq_sched:
  assumes "k < length (arq a)" "acur a \<notin> set (arq a)"
  shows "acur (asched force a) = acur a \<and> asched force a = a \<or>
    acur (asched force a) = hd (arq a) \<and> (\<exists>ps. arq (asched force a) = tl (arq a) @ ps)"
  using assms by (cases "arq a") (auto simp: asched_def arq_aswitch)

text \<open>The operations before the call of the scheduler only append to the run queue.\<close>

definition rq_grows :: "asys \<Rightarrow> asys \<Rightarrow> bool" where
  "rq_grows a b \<longleftrightarrow> acur b = acur a \<and> (\<exists>ps. arq b = arq a @ ps)"

lemma rq_grows_basic:
  "rq_grows a a" "rq_grows a b \<Longrightarrow> rq_grows b c \<Longrightarrow> rq_grows a c" "rq_grows a (aactivate t a)"
  by (auto simp: rq_grows_def arq_aactivate)

lemma rq_grows_calls:
  "rq_grows a (aunlock m a)" "rq_grows a (asignal c a)" "rq_grows a (abroadcast c a)"
proof -
  have f: "rq_grows a (fold aactivate ts a)" for ts a
    by (induction ts arbitrary: a) (auto intro: rq_grows_basic)
  show "rq_grows a (aunlock m a)" "rq_grows a (asignal c a)" "rq_grows a (abroadcast c a)"
    using f [of "a\<lparr>acq := (acq a)(c := [])\<rparr>" "acq a c"]
    by (auto simp: aunlock_def asignal_def abroadcast_def rq_grows_def arq_aactivate split: list.splits)
qed

definition rq_next :: "asys \<Rightarrow> asys \<Rightarrow> bool" where
  "rq_next a b \<longleftrightarrow> (acur b = acur a \<and> (\<exists>ps. arq b = arq a @ ps)) \<or>
     (arq a \<noteq> [] \<and> acur b = hd (arq a) \<and> (\<exists>ps. arq b = tl (arq a) @ ps)) \<or> arq a = []"

lemma rq_next_sched: "rq_grows a b \<Longrightarrow> acur b \<notin> set (arq b) \<Longrightarrow> rq_next a (asched force b)"
proof (cases "arq a")
  case (Cons t ts)
  assume a: "rq_grows a b" "acur b \<notin> set (arq b)"
  then have "0 < length (arq b)" using Cons by (auto simp: rq_grows_def)
  from arq_sched [OF this a(2), of force] a(1) Cons show ?thesis
    by (auto simp: rq_next_def rq_grows_def)
qed (simp add: rq_next_def)

lemma rq_grows_next: "rq_grows a b \<Longrightarrow> rq_next a b"
  by (auto simp: rq_grows_def rq_next_def)

text \<open>One event moves the run queue on by at most one thread, and only if it switches.\<close>

lemma astep_rq:
  assumes "ainv M C a cl" "aenabled M C e a cl"
  shows "rq_next a (astep e (pc cl (acur a)) a)"
proof -
  let ?t = "acur a"
  have i0: "ainv0 M C a cl" using assms(1) by (simp add: ainv_def)
  note f = inv0_facts [OF i0]
  have nc: "?t \<notin> set (arq a)" using f(1) by auto
  have sc: "rq_next a (asched force a)" for force using rq_next_sched [OF rq_grows_basic(1) nc] .
  have jn: "rq_next a (ajoin u a)" for u using sc rq_grows_next rq_grows_basic(1) by (auto simp: ajoin_def)
  have lk: "rq_next a (alock m a)" for m
  proof (cases "alocked a m")
    case True
    let ?b = "(aset ?t THREAD_BLOCKED a)\<lparr>amq := (amq a)(m := amq a m @ [?t])\<rparr>"
    have "rq_next a (asched False ?b)" using nc by (intro rq_next_sched) (auto simp: rq_grows_def)
    then show ?thesis using True by (simp add: alock_def)
  next
    case False
    then show ?thesis using rq_grows_next [of a "a\<lparr>alocked := (alocked a)(m := True)\<rparr>"] by (simp add: alock_def rq_grows_def)
  qed
  show ?thesis
  proof (cases e)
    case (Wait c m)
    let ?b = "(aset ?t THREAD_BLOCKED a)\<lparr>acq := (acq a)(c := acq a c @ [?t])\<rparr>"
    have g: "rq_grows a (aunlock m ?b)" using rq_grows_calls(1) [of ?b m] by (auto simp: rq_grows_def)
    have "pc cl ?t = Run" using assms(2) Wait by simp
    then have "?t \<notin> set (amq a m)" using f(2) by auto
    then have "acur (aunlock m ?b) \<notin> set (arq (aunlock m ?b))"
      using nc by (auto simp: aunlock_def arq_aactivate split: list.splits)
    from rq_next_sched [OF g this] show ?thesis using Wait by (simp add: await_def)
  next
    case Exit
    have "rq_next a (asched True (aset ?t THREAD_FINISHING a))"
      using nc by (intro rq_next_sched) (auto simp: rq_grows_def)
    then show ?thesis using Exit by simp
  next
    case Tick
    have "rq_next a (asched False (a\<lparr>ajif := ajif a + 1\<rparr>))"
      using nc by (intro rq_next_sched) (auto simp: rq_grows_def)
    then show ?thesis using Tick by (simp add: atick_def)
  next
    case Resume
    then show ?thesis using sc jn lk rq_grows_next rq_grows_basic(1) by (simp split: cont.split)
  qed (use sc jn lk rq_grows_next rq_grows_basic rq_grows_calls in simp_all)
qed

text \<open>Runs of the machine in which a thread does not get the processor, with the number of switches.\<close>

inductive runs_without :: "mid set \<Rightarrow> cid set \<Rightarrow> tid \<Rightarrow> mach \<Rightarrow> nat \<Rightarrow> mach \<Rightarrow> bool" for M C t where
  nothing: "runs_without M C t x 0 x"
| event: "enabled M C e x \<Longrightarrow> step e x = Some (Inr y) \<Longrightarrow> current (kern y) \<noteq> t \<Longrightarrow> runs_without M C t y n z \<Longrightarrow>
    runs_without M C t x (if current (kern y) = current (kern x) then n else Suc n) z"

inductive_cases runs_withoutE: "runs_without M C t x n z"

lemma waiting_bound:
  assumes "runs_without M C t x n z" "mach_rel M C x a" "k < length (arq a)" "arq a ! k = t"
  shows "n \<le> k"
  using assms
proof (induction arbitrary: a k)
  case (event e x y n z)
  let ?b = "astep e (pc (client x) (acur a)) a"
  have y: "mach_rel M C y ?b" using step_refines [OF event.prems(1) event.hyps(1)] event.hyps(2) by auto
  have s: "sim (heads M C) (kern x) a" "sim (heads M C) (kern y) ?b" "ainv M C a (client x)"
    using event.prems(1) y by (simp_all add: mach_rel_def)
  have cur: "current (kern x) = acur a" "current (kern y) = acur ?b" using s sim_fields(1) by auto
  have rq: "rq_next a ?b" using astep_rq [OF s(3) enabled_abs [OF event.hyps(1) s(1)]] .
  have ne: "arq a \<noteq> []" using event.prems(2) by auto
  have mem: "hd (arq a) \<in> set (arq a)" using ne by simp
  have "acur a \<notin> set (arq a)" using inv0_facts(1) s(3) by (auto simp: ainv_def)
  then have sw: "hd (arq a) \<noteq> acur a" using mem by auto
  show ?case
  proof (cases "acur ?b = acur a")
    case True
    then obtain ps where "arq ?b = arq a @ ps" using rq ne sw by (auto simp: rq_next_def)
    then have "k < length (arq ?b)" "arq ?b ! k = t" using event.prems(2,3) by (simp_all add: nth_append)
    then show ?thesis using event.IH [OF y] True cur by simp
  next
    case False
    then obtain ps where ps: "acur ?b = hd (arq a)" "arq ?b = tl (arq a) @ ps" using rq ne by (auto simp: rq_next_def)
    have k0: "k \<noteq> 0"
    proof
      assume "k = 0"
      then show False using ps(1) event.hyps(3) event.prems(3) cur ne by (simp add: hd_conv_nth)
    qed
    then obtain j where j: "k = Suc j" by (cases k) auto
    have "j < length (tl (arq a))" "tl (arq a) ! j = t" using j event.prems(2,3) by (simp_all add: nth_tl)
    then have "j < length (arq ?b)" "arq ?b ! j = t" using ps(2) by (simp_all add: nth_append)
    then show ?thesis using event.IH [OF y] False cur j by simp
  qed
qed simp

section \<open>Properties\<close>

text \<open>
  C17. Every event of the threads and of the timer that respects the rules of the mutexes ends without
  \<open>BUG_ON\<close> and without a fault, and the code's state goes where the specification with plain queues
  says.
\<close>

theorem machine_refines:
  assumes "mach_rel M C x a" "enabled M C e x"
  shows "\<exists>y. step e x = Some (Inr y) \<and> mach_rel M C y (astep e (pc (client x) (acur a)) a)"
  by (rule step_refines [OF assms])

theorem machine_refines_witness: "\<exists>y. step (Unlock 0) demo_mach = Some (Inr y)"
proof -
  have "enabled {0} {0} (Unlock 0) demo_mach" by (simp add: demo_mach_def demo_sched_def)
  from machine_refines [OF demo_rel this] show ?thesis by blast
qed

text \<open>
  C18. Mutual exclusion: in every reachable state at most one thread holds a mutex, although waiters
  return from \<open>mutex_lock\<close> without testing \<open>locked\<close> again.
\<close>

theorem mutual_exclusion:
  assumes "mach_inv M C x0" "reach M C x0 x" "m \<in> holds (client x) t" "m \<in> holds (client x) u"
  shows "t = u"
  using mutual_exclusion_inv [OF reach_inv [OF assms(2,1)] assms(3,4)] .

theorem mutual_exclusion_witness: "{u. 0 \<in> holds (client demo_mach) u} = {1}"
proof -
  have "0 \<in> holds (client demo_mach) 1" by (simp add: demo_mach_def)
  then show ?thesis using mutual_exclusion [OF sched_demo_inv reach.start, of 0 1] by blast
qed



text \<open>
  C20. Nobody is overtaken: a thread with \<open>k\<close> threads before it in the run queue gets the processor
  with the switch number \<open>k + 1\<close> at the latest, whatever the threads and the timer do.
\<close>

theorem run_queue_bound:
  assumes "mach_rel M C x a" "k < length (arq a)" "runs_without M C (arq a ! k) x n z"
  shows "n \<le> k"
  using waiting_bound [OF assms(3,1,2)] by simp

theorem run_queue_bound_witness:
  "\<exists>x n z. runs_without {0} {0} 3 x n z \<and> 0 < n \<and> n \<le> 1"
proof -
  have e: "enabled {0} {0} (Wake 2) demo_mach" by (simp add: demo_mach_def demo_sched_def demo_threads_def)
  obtain x where x: "step (Wake 2) demo_mach = Some (Inr x)" "mach_rel {0} {0} x (aactivate 2 demo_asys)"
    using step_refines [OF demo_rel e] by auto
  have cl: "client x = client demo_mach" using x(1) by (auto simp: step_def Let_def res_simps)
  let ?a = "aactivate 2 demo_asys"
  have fx: "current (kern x) = 1" "threads (kern x) = athr ?a"
    using x(2) sim_fields(1,3) by (auto simp: mach_rel_def demo_asys_def)
  have "enabled {0} {0} (Wake 3) x"
    using fx cl by (auto simp: demo_mach_def aactivate_def aset_def demo_asys_def demo_threads_def)
  from step_refines [OF x(2) this]
  obtain y where y: "step (Wake 3) x = Some (Inr y)" "mach_rel {0} {0} y (aactivate 3 ?a)" by auto
  let ?b = "aactivate 3 ?a"
  have rq: "arq ?b = [2, 3]" "acur ?b = 1"
    by (simp_all add: arq_aactivate astate_aactivate) (simp_all add: astate_def demo_asys_def demo_threads_def)
  have cy: "client y = client demo_mach" using y(1) cl by (auto simp: step_def Let_def res_simps)
  have fy: "current (kern y) = 1" using y(2) rq sim_fields(1) by (auto simp: mach_rel_def)
  have ey: "enabled {0} {0} Yield y" using fy cy by (simp add: demo_mach_def)
  from step_refines [OF y(2) this]
  obtain z where z: "step Yield y = Some (Inr z)" "mach_rel {0} {0} z (asched True ?b)" by auto
  have "current (kern z) = 2" using z(2) rq sim_fields(1) by (auto simp: mach_rel_def asched_def)
  then have "runs_without {0} {0} 3 y (Suc 0) z"
    using runs_without.event [OF ey z(1), of 3 0 z] runs_without.nothing [of "{0}" "{0}" 3 z] fy by simp
  moreover from this have "Suc 0 \<le> 1" using run_queue_bound [OF y(2), of 1 "Suc 0" z] rq by simp
  ultimately show ?thesis by blast
qed

text \<open>
  C21. The timer takes the processor from a thread that has used its slice when another one can run:
  the first of the run queue runs, the old thread goes to the end, and the others keep their order.
\<close>

theorem tick_preempts:
  assumes "mach_rel M C x a" "ints_on (kern x)" "arq a = t # ts" "athr a (acur a) = Some th"
    "tstate th = THREAD_ACTIVE" "SLICE \<le> jiffies (kern x) + 1 - ttime th"
  shows "\<exists>y b. step Tick x = Some (Inr y) \<and> mach_rel M C y b \<and> current (kern y) = t \<and> arq b = ts @ [current (kern x)]"
proof -
  have s: "sim (heads M C) (kern x) a" using assms(1) by (simp add: mach_rel_def)
  obtain y where y: "step Tick x = Some (Inr y)" "mach_rel M C y (atick a)"
    using step_refines [OF assms(1), of Tick] assms(2) by auto
  have "\<not> aslice_left (a\<lparr>ajif := ajif a + 1\<rparr>)"
    using assms(4,5,6) sim_fields(5) [OF s] by (auto simp: aslice_left_def)
  then have b: "atick a = aswitch t (a\<lparr>ajif := ajif a + 1, arq := ts\<rparr>)"
    using assms(3) by (simp add: atick_def asched_def)
  have "astate a (acur a) = Some THREAD_ACTIVE" using assms(4,5) by (simp add: astate_def)
  then have "acur (atick a) = t" "arq (atick a) = ts @ [acur a]" by (simp_all add: b arq_aswitch)
  moreover have "current (kern y) = acur (atick a)" using y(2) sim_fields(1) by (auto simp: mach_rel_def)
  ultimately show ?thesis using y sim_fields(1) [OF s] by auto
qed

definition demo_late :: mach where
  "demo_late = demo_mach\<lparr>kern := demo_sched\<lparr>jiffies := 9\<rparr>\<rparr>"

theorem tick_preempts_witness:
  "\<exists>y z. step (Wake 2) demo_late = Some (Inr y) \<and> step Tick y = Some (Inr z) \<and> current (kern z) = 2"
proof -
  let ?a = "demo_asys\<lparr>ajif := 9\<rparr>"
  have r: "mach_rel {0} {0} demo_late ?a"
    using demo_rel by (simp add: mach_rel_def demo_late_def demo_mach_def sim_def ainv_def)
  have e: "enabled {0} {0} (Wake 2) demo_late"
    by (simp add: demo_late_def demo_mach_def demo_sched_def demo_threads_def)
  have sm: "sim (heads {0} {0}) (kern demo_late) ?a" using r by (simp add: mach_rel_def)
  have "astate ?a 2 = Some THREAD_BLOCKED" "2 \<notin> set (arq ?a)"
    by (simp_all add: astate_def demo_asys_def demo_threads_def)
  then obtain s where s: "thread_activate 2 (kern demo_late) = Inr s" "same_flags (kern demo_late) s"
    "sim (heads {0} {0}) s (aactivate 2 ?a)"
    using thread_activate_sim [OF sm, of 2] by auto
  obtain y where y: "step (Wake 2) demo_late = Some (Inr y)" "mach_rel {0} {0} y (aactivate 2 ?a)"
    using step_refines [OF r e] by auto
  have k: "kern y = s" using y(1) s(1) by (auto simp: step_def Let_def)
  have rq: "arq (aactivate 2 ?a) = [2]"
    by (simp add: aactivate_def aset_def astate_def demo_asys_def demo_threads_def)
  have th: "athr (aactivate 2 ?a) (acur (aactivate 2 ?a)) = Some \<lparr>tstate = THREAD_ACTIVE, ttime = 0\<rparr>"
    by (simp add: aactivate_def aset_def astate_def demo_asys_def demo_threads_def)
  have "jiffies (kern y) = 9" using sim_fields(5) [OF s(3)] k by (simp add: demo_asys_def)
  then have "SLICE \<le> jiffies (kern y) + 1 - ttime \<lparr>tstate = THREAD_ACTIVE, ttime = 0\<rparr>" by (simp add: SLICE_def)
  moreover have "ints_on (kern y)"
    using s(2) k by (simp add: same_flags_def demo_late_def demo_mach_def demo_sched_def)
  ultimately show ?thesis using tick_preempts [OF y(2) _ rq th] y(1) by auto
qed

text \<open>
  Without an idle thread \<open>mutex_lock\<close> of a taken mutex can return at once: the caller goes on,
  marked as blocked and still on the queue of the mutex, as if it had the mutex.
\<close>

theorem mutex_lock_needs_idle:
  "\<exists>s'. mutex_lock 0 (demo_sched\<lparr>idle_thread := None\<rparr>) = Inr s' \<and> current s' = 1 \<and>
     map_option tstate (threads s' 1) = Some THREAD_BLOCKED \<and> list_first (MutexQ 0) (qlinks s') = Inr (Some (WaitLL 1))"
  by (simp add: mutex_lock_def demo_sched_def demo_threads_def spin_lock_irqsave_def spin_lock_def disable_preempt_def
    spin_unlock_irqrestore_def spin_unlock_def enable_preempt_def new_wait_def set_state_def rd_thread_def with_q_def
    list_add_tail_def list_insert_def rd_node_def set_nxt_def set_prv_def schedule_def schedule_with_def
    schedule_inner_def pick_next_def list_empty_def list_first_def Let_def)

text \<open>
  When a switch is done, \<open>tss.rsp[0]\<close> points to the stack of the thread that was switched away, not
  to that of the current thread.
\<close>

theorem switch_leaves_old_stack:
  assumes "place_thread n s = Inr s'"
  shows "current s' = n \<and> tss_rsp0 s' = Some (current s)"
  using assms by (auto simp: place_thread_def set_state_def set_time_def with_q_def sched_simps res_simps split: if_splits)

theorem switch_leaves_old_stack_witness:
  "\<exists>s'. place_thread 2 demo_sched = Inr s' \<and> current s' = 2 \<and> tss_rsp0 s' = Some 1"
proof -
  have sm: "sim (heads {0} {0}) demo_sched demo_asys" using demo_rel by (simp add: mach_rel_def demo_mach_def)
  have "astate demo_asys 1 \<noteq> None" "astate demo_asys 2 \<noteq> None" "acur demo_asys = 1" "arq demo_asys = []"
    by (simp_all add: astate_def demo_asys_def demo_threads_def)
  then obtain s' where "place_thread 2 demo_sched = Inr s'" using place_thread_sim [OF sm, of 2] by auto
  from switch_leaves_old_stack [OF this] this show ?thesis by (simp add: demo_sched_def)
qed

end
