(* ===== verification/Printf.thy ===== *)
theory Printf
  imports Stdlib
begin

unbundle bit_operations_syntax

text \<open>
  Formatted output: \<open>print.c\<close>, and the part of \<open>serial.c\<close> that writes to the serial port.

  The variable arguments are the list of the 64-bit slots they were passed in; reading past the last one
  is a fault.  The memory holds the format, the strings and, at an address \<open>sb\<close> of the stack, the local
  buffers: the 64 bytes in which \<open>print_number\<close> converts, and after them the single character of the
  cases that print one.  The bytes that went out through the serial port are a second part of the state.
\<close>

section \<open>Model of serial.c\<close>

record io =
  imem :: memory
  serial :: "u8 list"

text \<open>\<open>serial_putchar\<close> waits until the port is ready; the model takes a port that gets ready.\<close>

definition serial_putchar :: "u8 \<Rightarrow> io \<Rightarrow> io" where
  "serial_putchar c s = s\<lparr>serial := serial s @ [c]\<rparr>"

fun serial_write :: "nat \<Rightarrow> nat \<Rightarrow> io \<Rightarrow> io" where
  "serial_write buf 0 s = s"
| "serial_write buf (Suc n) s = serial_write (Suc buf) n (serial_putchar (imem s buf) s)"

definition serial_write_terminated :: "nat \<Rightarrow> io \<Rightarrow> io option" where
  "serial_write_terminated buf s = map_option (\<lambda>n. serial_write buf n s) (strlen (imem s) buf)"

definition WRITE_HEX_BUF_SIZE :: nat where "WRITE_HEX_BUF_SIZE = 8"

text \<open>The digits go in from the right while \<open>num\<close> is not 0; \<open>n\<close> is \<open>i + 1\<close>.\<close>

fun hex_loop :: "nat \<Rightarrow> nat \<Rightarrow> u32 \<Rightarrow> memory \<Rightarrow> memory" where
  "hex_loop buf 0 num m = m"
| "hex_loop buf (Suc i) num m =
     (if num \<noteq> 0 then hex_loop buf i (num div 16) (m(buf + i := digit_to_char (uint (num mod 16)))) else m)"

definition serial_write_hex :: "nat \<Rightarrow> u32 \<Rightarrow> io \<Rightarrow> io" where
  "serial_write_hex buf num s =
     (let m = hex_loop buf WRITE_HEX_BUF_SIZE num (memset buf 0x30 WRITE_HEX_BUF_SIZE (imem s));
          s = serial_putchar 0x78 (serial_putchar 0x30 (s\<lparr>imem := m\<rparr>))
      in serial_putchar 0x0a (serial_write buf (WRITE_HEX_BUF_SIZE + 1) s))"

definition serial_error_message :: "nat \<Rightarrow> nat \<Rightarrow> nat \<Rightarrow> io \<Rightarrow> io option" where
  "serial_error_message left filename right s =
     Option.bind (serial_write_terminated left s) (\<lambda>s.
     Option.bind (serial_write_terminated filename s) (serial_write_terminated right))"

section \<open>Decoding a format\<close>

definition FMT_INVALID :: u32 where "FMT_INVALID = 0"
definition FMT_NONE :: u32 where "FMT_NONE = 1"
definition FMT_STR :: u32 where "FMT_STR = 2"
definition FMT_CHAR :: u32 where "FMT_CHAR = 3"
definition FMT_INT :: u32 where "FMT_INT = 4"
definition FMT_PERCENT :: u32 where "FMT_PERCENT = 5"

definition FMT_SSHORT :: u32 where "FMT_SSHORT = push_bit 8 1"
definition FMT_SHORT :: u32 where "FMT_SHORT = push_bit 9 1"
definition FMT_LONG :: u32 where "FMT_LONG = push_bit 10 1"
definition FMT_LLONG :: u32 where "FMT_LLONG = push_bit 11 1"
definition FMT_UNSIGNED :: u32 where "FMT_UNSIGNED = push_bit 12 1"
definition FMT_HEX :: u32 where "FMT_HEX = push_bit 13 1"
definition FMT_OCT :: u32 where "FMT_OCT = push_bit 14 1"

text \<open>The rounds of the loop that see an ordinary character.\<close>

partial_function (option) skip_plain :: "memory \<Rightarrow> nat \<Rightarrow> nat option" where
  "skip_plain m fmt = (if m fmt = 0 \<or> m fmt = 0x25 then Some fmt else skip_plain m (Suc fmt))"

partial_function (option) skip_digits :: "memory \<Rightarrow> nat \<Rightarrow> nat option" where
  "skip_digits m fmt = (if m fmt \<noteq> 0 \<and> isdigit (char_int (m fmt)) \<noteq> 0 then skip_digits m (Suc fmt) else Some fmt)"

definition skip_flag :: "memory \<Rightarrow> nat \<Rightarrow> nat" where
  "skip_flag m fmt = (if m fmt \<in> {0x2d, 0x2b, 0x20, 0x23, 0x30} then Suc fmt else fmt)"

definition decode_length :: "memory \<Rightarrow> nat \<Rightarrow> nat \<times> u32" where
  "decode_length m fmt =
     (if m fmt = 0x6c then if m (fmt + 1) = 0x6c then (fmt + 2, FMT_LLONG) else (fmt + 1, FMT_LONG)
      else if m fmt = 0x68 then if m (fmt + 1) = 0x68 then (fmt + 2, FMT_SSHORT) else (fmt + 1, FMT_SHORT)
      else (fmt, 0))"

text \<open>The switch on the conversion character, with its fall-throughs.\<close>

definition decode_conv :: "u8 \<Rightarrow> u32 \<Rightarrow> u32" where
  "decode_conv c spec =
     (let spec = (if c = 0x70 then spec OR FMT_LONG else spec);
          spec = (if c \<in> {0x70, 0x78, 0x58, 0x6f} then spec OR (if c = 0x6f then FMT_OCT else FMT_HEX) else spec);
          spec = (if c \<in> {0x70, 0x78, 0x58, 0x6f, 0x75} then spec OR FMT_UNSIGNED else spec)
      in (if c \<in> {0x70, 0x78, 0x58, 0x6f, 0x75, 0x64, 0x69} then FMT_INT
          else if c = 0x73 then FMT_STR
          else if c = 0x63 then FMT_CHAR
          else if c = 0x25 then FMT_PERCENT
          else FMT_INVALID) OR spec)"

definition decode_directive :: "memory \<Rightarrow> nat \<Rightarrow> (nat \<times> u32) option" where
  "decode_directive m fmt =
     Option.bind (skip_digits m (skip_flag m fmt)) (\<lambda>fmt.
     Option.bind (if m fmt = 0x2e then skip_digits m (fmt + 1) else Some fmt) (\<lambda>fmt.
       (let (fmt, spec) = decode_length m fmt in Some (fmt + 1, decode_conv (m fmt) spec))))"

definition decode_format :: "memory \<Rightarrow> nat \<Rightarrow> (nat \<times> u32) option" where
  "decode_format m fmt =
     (if m fmt = 0 then Some (fmt, FMT_INVALID)
      else if m fmt = 0x25 then decode_directive m (fmt + 1)
      else map_option (\<lambda>fmt. (fmt, FMT_NONE)) (skip_plain m (Suc fmt)))"

section \<open>Printing\<close>

text \<open>
  The function \<open>out\<close> of a \<open>print_ctx\<close>: it gets the count of characters so far, the address and the size.
\<close>

type_synonym sink = "int \<Rightarrow> nat \<Rightarrow> nat \<Rightarrow> io \<Rightarrow> int \<times> io"

definition print :: "sink \<Rightarrow> nat \<Rightarrow> nat \<Rightarrow> int \<times> io \<Rightarrow> int \<times> int \<times> io" where
  "print out buf sz ws =
     (let (written, s) = ws; (rc, s) = out written buf sz s
      in if rc < 0 then (rc, written, s) else (0, written + int sz, s))"

definition va_arg :: "u64 list \<Rightarrow> (u64 \<times> u64 list) res" where
  "va_arg args = (case args of [] \<Rightarrow> Inl Fault | a # as \<Rightarrow> Inr (a, as))"

definition number_base :: "u32 \<Rightarrow> u32" where
  "number_base type = (if type AND FMT_HEX \<noteq> 0 then 16 else if type AND FMT_OCT \<noteq> 0 then 8 else 10)"

text \<open>An argument of type \<open>int\<close> or \<open>unsigned\<close> is the low half of its slot.\<close>

definition number_text :: "u32 \<Rightarrow> u64 \<Rightarrow> nat \<Rightarrow> memory \<Rightarrow> memory res option" where
  "number_text type a buf m =
     (let long = (type AND FMT_LONG \<noteq> 0 \<or> type AND FMT_LLONG \<noteq> 0)
      in if type AND FMT_UNSIGNED \<noteq> 0
         then ulltoa (if long then a else ucast (ucast a :: u32)) buf (number_base type) m
         else lltoa (if long then a else scast (ucast a :: u32)) buf (number_base type) m)"

definition print_str :: "sink \<Rightarrow> nat \<Rightarrow> int \<times> io \<Rightarrow> (int \<times> int \<times> io) res option" where
  "print_str out str ws = map_option (\<lambda>n. Inr (print out str n ws)) (strlen (imem (snd ws)) str)"

definition print_number :: "sink \<Rightarrow> nat \<Rightarrow> u32 \<Rightarrow> u64 \<Rightarrow> int \<times> io \<Rightarrow> (int \<times> int \<times> io) res option" where
  "print_number out sb type a ws =
     bindP (number_text type a sb (imem (snd ws))) (\<lambda>m. print_str out sb (fst ws, (snd ws)\<lparr>imem := m\<rparr>))"

definition print_char :: "sink \<Rightarrow> nat \<Rightarrow> u8 \<Rightarrow> int \<times> io \<Rightarrow> int \<times> int \<times> io" where
  "print_char out sb c ws = print out (sb + 64) 1 (fst ws, (snd ws)\<lparr>imem := (imem (snd ws))(sb + 64 := c)\<rparr>)"

text \<open>One round of the loop of \<open>__vprintf\<close>, after \<open>decode_format\<close>.\<close>

definition print_piece ::
  "sink \<Rightarrow> nat \<Rightarrow> nat \<Rightarrow> nat \<Rightarrow> u32 \<Rightarrow> u64 list \<Rightarrow> int \<times> io \<Rightarrow> (u64 list \<times> int \<times> int \<times> io) res option" where
  "print_piece out sb start fmt type args ws =
     (let t = type AND 0xff
      in if t = FMT_STR then
           bindP (Some (va_arg args)) (\<lambda>(a, args). bindP (print_str out (unat a) ws) (\<lambda>r. Some (Inr (args, r))))
         else if t = FMT_CHAR then
           bindP (Some (va_arg args)) (\<lambda>(a, args). Some (Inr (args, print_char out sb (ucast a) ws)))
         else if t = FMT_INT then
           bindP (Some (va_arg args)) (\<lambda>(a, args). bindP (print_number out sb type a ws) (\<lambda>r. Some (Inr (args, r))))
         else if t = FMT_NONE then Some (Inr (args, print out start (fmt - start) ws))
         else if t = FMT_PERCENT then Some (Inr (args, print_char out sb 0x25 ws))
         else Some (Inr (args, - 1, ws)))"

partial_function (option) vprintf_loop ::
  "sink \<Rightarrow> nat \<Rightarrow> nat \<Rightarrow> u64 list \<Rightarrow> int \<times> int \<times> io \<Rightarrow> (int \<times> io) res option" where
  "vprintf_loop out sb fmt args rws =
     (case rws of (rc, written, s) \<Rightarrow>
        if 0 \<le> rc \<and> imem s fmt \<noteq> 0 then
          (case decode_format (imem s) fmt of
             None \<Rightarrow> None
           | Some (fmt', type) \<Rightarrow>
               bindP (print_piece out sb fmt fmt' type args (written, s)) (\<lambda>r.
               vprintf_loop out sb fmt' (fst r) (snd r)))
        else Some (Inr (if rc < 0 then rc else written, s)))"

definition vprintf_ctx :: "sink \<Rightarrow> nat \<Rightarrow> nat \<Rightarrow> u64 list \<Rightarrow> io \<Rightarrow> (int \<times> io) res option" where
  "vprintf_ctx out sb fmt args s = vprintf_loop out sb fmt args (0, 0, s)"

section \<open>The two outputs\<close>

definition serial_out :: sink where
  "serial_out written buf sz s = (0, serial_write buf sz s)"

definition vprintf :: "nat \<Rightarrow> nat \<Rightarrow> u64 list \<Rightarrow> io \<Rightarrow> (int \<times> io) res option" where
  "vprintf sb fmt args s = vprintf_ctx serial_out sb fmt args s"

definition str_out :: "nat \<Rightarrow> int \<Rightarrow> sink" where
  "str_out dst cap written buf sz s =
     (if written > cap then (0, s)
      else let remain = (if int sz < cap - written then int sz else cap - written)
           in (0, s\<lparr>imem := memcpy (dst + nat written) buf (nat remain) (imem s)\<rparr>))"

definition vsnprintf :: "nat \<Rightarrow> nat \<Rightarrow> nat \<Rightarrow> nat \<Rightarrow> u64 list \<Rightarrow> io \<Rightarrow> (int \<times> io) res option" where
  "vsnprintf sb buf sz fmt args s =
     bindP (vprintf_ctx (str_out buf (int sz)) sb fmt args s) (\<lambda>(rc, s).
     if 0 \<le> rc then
       (let i = (if rc < int sz then rc - 1 else int sz - 1) + int buf
        in if i < 0 then Some (Inl Fault) else Some (Inr (rc, s\<lparr>imem := (imem s)(nat i := 0)\<rparr>)))
     else Some (Inr (rc, s)))"

definition printf :: "nat \<Rightarrow> nat \<Rightarrow> u64 list \<Rightarrow> io \<Rightarrow> (int \<times> io) res option" where
  "printf sb fmt args s = vprintf sb fmt args s"

definition snprintf :: "nat \<Rightarrow> nat \<Rightarrow> nat \<Rightarrow> nat \<Rightarrow> u64 list \<Rightarrow> io \<Rightarrow> (int \<times> io) res option" where
  "snprintf sb buf sz fmt args s = vsnprintf sb buf sz fmt args s"

end
