(* ===== verification/Printf_Spec.thy ===== *)
theory Printf_Spec
  imports Printf
begin

unbundle bit_operations_syntax

text \<open>
  What a format means: a list of pieces, each with its text in the format and the characters it prints
  for its argument.  \<open>__vprintf\<close> is proved once, for any output that keeps the laws of the locale \<open>sink\<close>;
  the serial port and the string buffer are its two instances.
\<close>

section \<open>Pieces of a format\<close>

datatype lenmod = NoLen | L | LL | H | HH

fun len_text :: "lenmod \<Rightarrow> u8 list" where
  "len_text NoLen = []" | "len_text L = [0x6c]" | "len_text LL = [0x6c, 0x6c]"
| "len_text H = [0x68]" | "len_text HH = [0x68, 0x68]"

fun len_spec :: "lenmod \<Rightarrow> u32" where
  "len_spec NoLen = 0" | "len_spec L = FMT_LONG" | "len_spec LL = FMT_LLONG"
| "len_spec H = FMT_SHORT" | "len_spec HH = FMT_SSHORT"

text \<open>A directive: flag, width, precision, length modifier and conversion character.\<close>

record directive =
  flag :: "u8 list"
  width :: "u8 list"
  prec :: "u8 list option"
  lenm :: lenmod
  conv :: u8

datatype piece = Plain "u8 list" | Dir directive

definition dir_tail :: "directive \<Rightarrow> u8 list" where
  "dir_tail d = (case prec d of None \<Rightarrow> [] | Some p \<Rightarrow> 0x2e # p) @ len_text (lenm d) @ [conv d]"

fun piece_text :: "piece \<Rightarrow> u8 list" where
  "piece_text (Plain bs) = bs"
| "piece_text (Dir d) = 0x25 # flag d @ width d @ dir_tail d"

definition is_dig :: "u8 \<Rightarrow> bool" where "is_dig c \<longleftrightarrow> 0x30 \<le> unat c \<and> unat c \<le> 0x39"

definition flags :: "u8 set" where "flags = {0x2d, 0x2b, 0x20, 0x23, 0x30}"

definition num_convs :: "u8 set" where "num_convs = {0x70, 0x78, 0x58, 0x6f, 0x75, 0x64, 0x69}"

definition dir_ok :: "directive \<Rightarrow> bool" where
  "dir_ok d \<longleftrightarrow> (flag d = [] \<and> take 1 (width d) \<noteq> [0x30] \<or> (\<exists>f\<in>flags. flag d = [f])) \<and> list_all is_dig (width d) \<and>
     (\<forall>p. prec d = Some p \<longrightarrow> list_all is_dig p) \<and> conv d \<in> num_convs \<union> {0x73, 0x63, 0x25}"

fun pieces_ok :: "piece list \<Rightarrow> bool" where
  "pieces_ok [] = True"
| "pieces_ok (Dir d # ps) = (dir_ok d \<and> pieces_ok ps)"
| "pieces_ok (Plain bs # ps) =
     (bs \<noteq> [] \<and> 0 \<notin> set bs \<and> 0x25 \<notin> set bs \<and> (ps = [] \<or> (\<exists>d. hd ps = Dir d)) \<and> pieces_ok ps)"

text \<open>What a number directive prints for the slot \<open>a\<close>.\<close>

definition conv_base :: "u8 \<Rightarrow> nat" where
  "conv_base c = (if c \<in> {0x70, 0x78, 0x58} then 16 else if c = 0x6f then 8 else 10)"

definition conv_long :: "directive \<Rightarrow> bool" where
  "conv_long d \<longleftrightarrow> lenm d \<in> {L, LL} \<or> conv d = 0x70"

definition num_shows :: "directive \<Rightarrow> u64 \<Rightarrow> u8 list \<Rightarrow> bool" where
  "num_shows d a s \<longleftrightarrow>
     (if conv d \<in> {0x64, 0x69}
      then let v = (if conv_long d then a else scast (ucast a :: u32))
           in if v <s 0 then \<exists>t. s = 0x2d # t \<and> numeral_of 10 (unat (- v)) t else numeral_of 10 (unat v) s
      else numeral_of (conv_base (conv d)) (unat (if conv_long d then a else ucast (ucast a :: u32))) s)"

inductive renders :: "memory \<Rightarrow> piece list \<Rightarrow> u64 list \<Rightarrow> u8 list \<Rightarrow> bool" for m where
  "renders m [] args []"
| "renders m ps args out \<Longrightarrow> renders m (Plain bs # ps) args (bs @ out)"
| "conv d = 0x73 \<Longrightarrow> cstr_at m (unat a) s \<Longrightarrow> renders m ps args out \<Longrightarrow> renders m (Dir d # ps) (a # args) (s @ out)"
| "conv d = 0x63 \<Longrightarrow> renders m ps args out \<Longrightarrow> renders m (Dir d # ps) (a # args) (ucast a # out)"
| "conv d = 0x25 \<Longrightarrow> renders m ps args out \<Longrightarrow> renders m (Dir d # ps) args (0x25 # out)"
| "conv d \<in> num_convs \<Longrightarrow> num_shows d a s \<Longrightarrow> renders m ps args out \<Longrightarrow> renders m (Dir d # ps) (a # args) (s @ out)"

text \<open>Enough arguments, and strings that end, in memory that printing does not write to.\<close>

fun args_ok :: "nat set \<Rightarrow> memory \<Rightarrow> piece list \<Rightarrow> u64 list \<Rightarrow> bool" where
  "args_ok S m [] args = True"
| "args_ok S m (Plain bs # ps) args = args_ok S m ps args"
| "args_ok S m (Dir d # ps) args =
     (if conv d = 0x25 then args_ok S m ps args
      else case args of [] \<Rightarrow> False
        | a # as \<Rightarrow> args_ok S m ps as \<and>
            (conv d = 0x73 \<longrightarrow> (\<exists>s. cstr_at m (unat a) s \<and> {unat a..unat a + length s} \<subseteq> S)))"

section \<open>Decoding finds the pieces\<close>

lemma cstr_skip: "cstr_at m a (x @ y) \<Longrightarrow> cstr_at m (a + length x) y"
  by (simp add: cstr_at_append)

lemma skip_plain_spec:
  "cstr_at m a (bs @ rest) \<Longrightarrow> 0x25 \<notin> set bs \<Longrightarrow> rest = [] \<or> hd rest = 0x25 \<Longrightarrow> skip_plain m a = Some (a + length bs)"
proof (induction bs arbitrary: a)
  case Nil
  then show ?case by (subst skip_plain.simps) (cases rest; auto simp: cstr_at_Cons)
next
  case (Cons c bs)
  then show ?case by (subst skip_plain.simps) (auto simp: cstr_at_Cons)
qed

lemma skip_digits_spec:
  "cstr_at m a (ds @ rest) \<Longrightarrow> list_all is_dig ds \<Longrightarrow> rest = [] \<or> \<not> is_dig (hd rest) \<Longrightarrow> skip_digits m a = Some (a + length ds)"
proof (induction ds arbitrary: a)
  case Nil
  then show ?case using classes(2) [of "m a"] by (subst skip_digits.simps) (cases rest; auto simp: cstr_at_Cons is_dig_def)
next
  case (Cons c ds)
  then show ?case using classes(2) [of c] by (subst skip_digits.simps) (auto simp: cstr_at_Cons is_dig_def)
qed

lemma convs_cases:
  assumes "c \<in> num_convs \<union> {0x73, 0x63, 0x25}"
  shows "\<not> is_dig c" "c \<noteq> 0x2e" "c \<noteq> 0x6c" "c \<noteq> 0x68" "c \<notin> flags" "c \<noteq> 0"
  using assms by (auto simp: num_convs_def is_dig_def flags_def)

lemma dir_tail_hd:
  assumes "conv d \<in> num_convs \<union> {0x73, 0x63, 0x25}"
  shows "dir_tail d \<noteq> []" "\<not> is_dig (hd (dir_tail d))" "hd (dir_tail d) \<notin> flags"
    "hd (len_text (lenm d) @ [conv d]) \<noteq> 0x2e" "\<not> is_dig (hd (len_text (lenm d) @ [conv d]))"
  using convs_cases [OF assms]
  by (cases "prec d"; cases "lenm d"; auto simp: dir_tail_def is_dig_def flags_def)+

lemma decode_length_spec:
  assumes "cstr_at m a (len_text l @ c # rest)" "c \<noteq> 0x6c" "c \<noteq> 0x68"
  shows "decode_length m a = (a + length (len_text l), len_spec l)"
  using assms by (cases l) (auto simp: decode_length_def cstr_at_Cons)

lemma decode_directive_spec:
  assumes c: "cstr_at m a (flag d @ width d @ dir_tail d @ rest)" and ok: "dir_ok d"
  shows "decode_directive m a = Some (a + length (flag d @ width d @ dir_tail d), decode_conv (conv d) (len_spec (lenm d)))"
proof -
  have cv: "conv d \<in> num_convs \<union> {0x73, 0x63, 0x25}" using ok by (simp add: dir_ok_def)
  note h = dir_tail_hd [OF cv]
  let ?w = "a + length (flag d)" and ?t = "a + length (flag d) + length (width d)"
  have cw: "cstr_at m ?w (width d @ dir_tail d @ rest)" using cstr_skip [OF c] by simp
  have ct: "cstr_at m ?t (dir_tail d @ rest)" using cstr_skip [OF cw] by simp
  have fl: "skip_flag m a = ?w"
  proof (cases "flag d")
    case Nil
    have "m a \<notin> flags"
    proof (cases "width d")
      case Nil
      then show ?thesis using ct h(1,3) \<open>flag d = []\<close> by (cases "dir_tail d") (auto simp: cstr_at_Cons)
    next
      case (Cons x xs)
      then have "m a = x" "is_dig x" "x \<noteq> 0x30" using cw ok Nil by (auto simp: cstr_at_Cons dir_ok_def)
      then show ?thesis by (auto simp: flags_def is_dig_def)
    qed
    then show ?thesis using Nil by (simp add: skip_flag_def flags_def)
  next
    case (Cons f fs)
    then have "f \<in> flags" "fs = []" "m a = f" using ok c by (auto simp: dir_ok_def cstr_at_Cons)
    then show ?thesis using Cons by (simp add: skip_flag_def flags_def)
  qed
  have sw: "skip_digits m ?w = Some ?t"
    using skip_digits_spec [OF cw] ok h(1,2) by (auto simp: dir_ok_def hd_append)
  let ?q = "len_text (lenm d) @ [conv d]"
  obtain e where e: "(if m ?t = 0x2e then skip_digits m (?t + 1) else Some ?t) = Some e"
    "cstr_at m e (?q @ rest)" "e + length ?q = ?t + length (dir_tail d)"
  proof (cases "prec d")
    case None
    then have d: "dir_tail d = ?q" by (simp add: dir_tail_def)
    then have "m ?t \<noteq> 0x2e" using ct h(1,4) by (cases ?q) (auto simp: cstr_at_Cons)
    then show ?thesis using that [of ?t] ct d by auto
  next
    case (Some p)
    then have d: "dir_tail d = 0x2e # p @ ?q" by (simp add: dir_tail_def)
    have cp: "cstr_at m (?t + 1) (p @ ?q @ rest)" "m ?t = 0x2e" using ct d by (auto simp: cstr_at_Cons)
    have "skip_digits m (?t + 1) = Some (?t + 1 + length p)"
      using skip_digits_spec [OF cp(1)] ok Some h(5) by (auto simp: dir_ok_def hd_append split: if_splits)
    then show ?thesis using that [of "?t + 1 + length p"] cp d cstr_skip [OF cp(1)] by simp
  qed
  have ce: "cstr_at m e (len_text (lenm d) @ conv d # rest)" using e(2) by simp
  have dl: "decode_length m e = (e + length (len_text (lenm d)), len_spec (lenm d))"
    using decode_length_spec [OF ce] convs_cases [OF cv] by simp
  have "m (e + length (len_text (lenm d))) = conv d" using cstr_skip [OF ce] by (simp add: cstr_at_Cons)
  then show ?thesis using fl sw e(1,3) dl by (simp add: decode_directive_def)
qed

lemma decode_format_spec:
  assumes "cstr_at m a (piece_text p @ concat (map piece_text ps))" "pieces_ok (p # ps)"
  shows "decode_format m a = Some (a + length (piece_text p), case p of Plain _ \<Rightarrow> FMT_NONE
    | Dir d \<Rightarrow> decode_conv (conv d) (len_spec (lenm d)))" "m a \<noteq> 0"
proof -
  have "decode_format m a = Some (a + length (piece_text p), case p of Plain _ \<Rightarrow> FMT_NONE
    | Dir d \<Rightarrow> decode_conv (conv d) (len_spec (lenm d))) \<and> m a \<noteq> 0"
  proof (cases p)
    case (Plain bs)
    then obtain b bs' where b: "bs = b # bs'" using assms(2) by (cases bs) auto
    have nx: "concat (map piece_text ps) = [] \<or> hd (concat (map piece_text ps)) = 0x25"
      using assms(2) Plain by (cases ps) auto
    have "m a = b" "b \<noteq> 0" "b \<noteq> 0x25" "cstr_at m (Suc a) (bs' @ concat (map piece_text ps))"
      using assms Plain b by (auto simp: cstr_at_Cons)
    then show ?thesis using skip_plain_spec [of m "Suc a" bs', OF _ _ nx] assms(2) Plain b by (simp add: decode_format_def)
  next
    case (Dir d)
    then have "m a = 0x25" "cstr_at m (Suc a) (flag d @ width d @ dir_tail d @ concat (map piece_text ps))" "dir_ok d"
      using assms by (auto simp: cstr_at_Cons)
    then show ?thesis using decode_directive_spec [of m "Suc a" d] Dir by (simp add: decode_format_def)
  qed
  then show "decode_format m a = Some (a + length (piece_text p), case p of Plain _ \<Rightarrow> FMT_NONE
    | Dir d \<Rightarrow> decode_conv (conv d) (len_spec (lenm d)))" "m a \<noteq> 0" by blast+
qed

section \<open>Numbers\<close>

lemma horner_pow: "a * b ^ length ds \<le> horner b a ds"
proof (induction ds arbitrary: a)
  case (Cons d ds)
  have "a * b ^ length (d # ds) \<le> (a * b + d) * b ^ length ds" by (simp add: algebra_simps)
  also have "\<dots> \<le> horner b a (d # ds)" using Cons by simp
  finally show ?case .
qed simp

lemma numeral_length:
  assumes "numeral_of base v s" "8 \<le> base" "v < 2 ^ 64"
  shows "length s \<le> 22"
proof (rule ccontr)
  assume l: "\<not> length s \<le> 22"
  obtain ds where ds: "map digit_val s = map Some ds" "horner base 0 ds = v" "1 < length s \<longrightarrow> hd ds \<noteq> 0"
    using assms(1) by (auto simp: numeral_of_def)
  have len: "length ds = length s" using ds(1) by (metis length_map)
  then obtain e es where e: "ds = e # es" using l by (cases ds) auto
  then have "1 \<le> e" "22 \<le> length es" using ds(3) l len by auto
  have "(8::nat) ^ 22 \<le> 8 ^ length es" using \<open>22 \<le> length es\<close> by (intro power_increasing) auto
  also have "\<dots> \<le> base ^ length es" using assms(2) by (intro power_mono) auto
  also have "\<dots> \<le> e * base ^ length es" using \<open>1 \<le> e\<close> by simp
  also have "\<dots> \<le> v" using horner_pow [of e base es] ds(2) e by simp
  finally show False using assms(3) by simp
qed

lemma FMT_values:
  "FMT_SSHORT = 0x100" "FMT_SHORT = 0x200" "FMT_LONG = 0x400" "FMT_LLONG = 0x800"
  "FMT_UNSIGNED = 0x1000" "FMT_HEX = 0x2000" "FMT_OCT = 0x4000"
  by (simp_all add: FMT_SSHORT_def FMT_SHORT_def FMT_LONG_def FMT_LLONG_def FMT_UNSIGNED_def FMT_HEX_def FMT_OCT_def)

definition conv_bits :: "u8 \<Rightarrow> u32" where
  "conv_bits c = (if c = 0x70 then 0x3404 else if c = 0x78 \<or> c = 0x58 then 0x3004 else if c = 0x6f then 0x5004 
    else if c = 0x75 then 0x1004 else 4)"

lemma decode_conv_bits:
  assumes "c \<in> num_convs"
  shows "decode_conv c spec = conv_bits c OR spec"
  using assms unfolding num_convs_def insert_iff empty_iff
  by (elim disjE; simp add: decode_conv_def conv_bits_def FMT_values FMT_INT_def or.assoc or.left_commute or.commute)

lemma len_spec_values: "len_spec l = (case l of NoLen \<Rightarrow> 0 | L \<Rightarrow> 0x400 | LL \<Rightarrow> 0x800 | H \<Rightarrow> 0x200 | HH \<Rightarrow> 0x100)"
  by (cases l) (simp_all add: FMT_values)

lemma decode_conv_facts:
  assumes "c \<in> num_convs"
  shows "decode_conv c (len_spec l) AND 0xff = FMT_INT"
    "decode_conv c (len_spec l) AND FMT_HEX \<noteq> 0 \<longleftrightarrow> c = 0x70 \<or> c = 0x78 \<or> c = 0x58"
    "decode_conv c (len_spec l) AND FMT_OCT \<noteq> 0 \<longleftrightarrow> c = 0x6f"
    "decode_conv c (len_spec l) AND FMT_UNSIGNED \<noteq> 0 \<longleftrightarrow> c \<noteq> 0x64 \<and> c \<noteq> 0x69"
    "decode_conv c (len_spec l) AND FMT_LONG \<noteq> 0 \<or> decode_conv c (len_spec l) AND FMT_LLONG \<noteq> 0 \<longleftrightarrow> l = L \<or> l = LL \<or> c = 0x70"
  using assms unfolding decode_conv_bits [OF assms] len_spec_values FMT_values FMT_INT_def num_convs_def insert_iff empty_iff
  by (elim disjE; cases l; simp add: conv_bits_def)+

lemma decode_conv_others:
  "decode_conv 0x73 (len_spec l) AND 0xff = FMT_STR"
  "decode_conv 0x63 (len_spec l) AND 0xff = FMT_CHAR"
  "decode_conv 0x25 (len_spec l) AND 0xff = FMT_PERCENT"
  unfolding len_spec_values
  by (cases l; simp add: decode_conv_def FMT_STR_def FMT_CHAR_def FMT_PERCENT_def)+
lemma ulltoa_short:
  assumes "8 \<le> base" "base \<le> 36"
  obtains m' s where "ulltoa v b (of_nat base) m = Some (Inr m')" "cstr_at m' b s"
    "numeral_of base (unat v) s" "length s \<le> 22" "\<And>x. x < b \<or> b + 22 < x \<Longrightarrow> m' x = m x"
proof -
  obtain m' s where r: "ulltoa v b (of_nat base) m = Some (Inr m')" "cstr_at m' b s"
    "numeral_of base (unat v) s" "\<forall>x. x < b \<or> b + length s < x \<longrightarrow> m' x = m x"
    using ulltoa_spec [of base v b m] assms by auto
  have l: "length s \<le> 22" using numeral_length [OF r(3) assms(1)] unsigned_less [of v] by simp
  show thesis
  proof (rule that [OF r(1,2,3) l])
    show "m' x = m x" if "x < b \<or> b + 22 < x" for x using r(4) that l by auto
  qed
qed

lemma lltoa_short:
  obtains m' s where "lltoa v b 10 m = Some (Inr m')" "cstr_at m' b s"
    "if v <s 0 then \<exists>t. s = 0x2d # t \<and> numeral_of 10 (unat (- v)) t else numeral_of 10 (unat v) s" "length s \<le> 23"
    "\<And>x. x < b \<or> b + 23 < x \<Longrightarrow> m' x = m x"
proof (cases "v <s 0")
  case True
  obtain m' s where r: "ulltoa (- v) (Suc b) (of_nat 10) (m(b := 0x2d)) = Some (Inr m')" "cstr_at m' (Suc b) s"
    "numeral_of 10 (unat (- v)) s" "length s \<le> 22" "\<And>x. x < Suc b \<or> Suc b + 22 < x \<Longrightarrow> m' x = (m(b := 0x2d)) x"
    by (rule ulltoa_short [of 10 "- v" "Suc b" "m(b := 0x2d)"]) simp_all
  have c: "cstr_at m' b (0x2d # s)" using r(2) r(5) [of b] by (simp add: cstr_at_Cons)
  have l: "lltoa v b 10 m = Some (Inr m')" using r(1) True by (simp add: lltoa_def)
  show ?thesis
  proof (rule that [OF l c])
    show "m' x = m x" if "x < b \<or> b + 23 < x" for x using r(5) [of x] that by auto
  qed (use True r(3,4) in simp_all)
next
  case False
  obtain m' s where r: "ulltoa v b (of_nat 10) m = Some (Inr m')" "cstr_at m' b s"
    "numeral_of 10 (unat v) s" "length s \<le> 22" "\<And>x. x < b \<or> b + 22 < x \<Longrightarrow> m' x = m x"
    by (rule ulltoa_short [of 10 v b m]) simp_all
  have l: "lltoa v b 10 m = Some (Inr m')" using r(1) False by (simp add: lltoa_def)
  show ?thesis
  proof (rule that [OF l r(2)])
    show "m' x = m x" if "x < b \<or> b + 23 < x" for x using r(5) [of x] that by auto
  qed (use False r(3,4) in simp_all)
qed

lemma number_text_spec:
  assumes cv: "conv d \<in> num_convs"
  obtains m' s where "number_text (decode_conv (conv d) (len_spec (lenm d))) a sb m = Some (Inr m')" "cstr_at m' sb s"
    "num_shows d a s" "length s \<le> 23" "\<And>x. x < sb \<or> sb + 63 < x \<Longrightarrow> m' x = m x"
proof -
  note f = decode_conv_facts [OF cv, of "lenm d"]
  let ?T = "decode_conv (conv d) (len_spec (lenm d))"
  have long: "(?T AND FMT_LONG \<noteq> 0 \<or> ?T AND FMT_LLONG \<noteq> 0) = conv_long d"
    unfolding f(5) by (auto simp: conv_long_def)
  have base: "number_base ?T = of_nat (conv_base (conv d))"
    using f(2,3) by (auto simp: number_base_def conv_base_def)
  have b: "8 \<le> conv_base (conv d)" "conv_base (conv d) \<le> 36" by (auto simp: conv_base_def)
  show thesis
  proof (cases "conv d = 0x64 \<or> conv d = 0x69")
    case False
    let ?v = "if conv_long d then a else ucast (ucast a :: u32)"
    obtain m' s where r: "ulltoa ?v sb (of_nat (conv_base (conv d))) m = Some (Inr m')" "cstr_at m' sb s"
      "numeral_of (conv_base (conv d)) (unat ?v) s" "length s \<le> 22" "\<And>x. x < sb \<or> sb + 22 < x \<Longrightarrow> m' x = m x"
      by (rule ulltoa_short [OF b, of ?v sb m]) blast
    have n: "number_text ?T a sb m = Some (Inr m')"
      using r(1) False unfolding number_text_def Let_def long base f(4) by simp
    have s: "num_shows d a s" using r(3) False by (simp add: num_shows_def)
    show thesis by (rule that [OF n r(2) s]) (use r(4,5) in auto)
  next
    case True
    let ?v = "if conv_long d then a else scast (ucast a :: u32)"
    obtain m' s where r: "lltoa ?v sb 10 m = Some (Inr m')" "cstr_at m' sb s"
      "if ?v <s 0 then \<exists>t. s = 0x2d # t \<and> numeral_of 10 (unat (- ?v)) t else numeral_of 10 (unat ?v) s"
      "length s \<le> 23" "\<And>x. x < sb \<or> sb + 23 < x \<Longrightarrow> m' x = m x"
      by (rule lltoa_short [of ?v sb m]) blast
    have ten: "conv_base (conv d) = 10" using True by (auto simp: conv_base_def)
    have n: "number_text ?T a sb m = Some (Inr m')"
      using r(1) True unfolding number_text_def Let_def long base f(4) ten by auto
    have s: "num_shows d a s" using r(3) True unfolding num_shows_def Let_def by auto
    show thesis by (rule that [OF n r(2) s]) (use r(4,5) in auto)
  qed
qed

end
