(* ===== verification/Printf_Sink.thy ===== *)
theory Printf_Sink
  imports Printf_Spec
begin

unbundle bit_operations_syntax

text \<open>
  \<open>__vprintf\<close> for any output that keeps the contract of \<open>print_ctx.out\<close>, stated as the locale \<open>sink\<close>, and
  the serial port and the string buffer as its interpretations.
\<close>

section \<open>Any output\<close>

text \<open>
  The contract between \<open>__vprintf\<close> and the function \<open>out\<close> of a context: called with the count of the
  characters so far, it takes the next ones from a buffer outside its own memory \<open>D\<close>, succeeds, and
  writes nothing outside \<open>D\<close>.  \<open>Got t s\<close> says that the output has received the text \<open>t\<close>.
\<close>

locale sink =
  fixes out :: sink and Got :: "u8 list \<Rightarrow> io \<Rightarrow> bool" and D :: "nat set"
  assumes out_takes: "Got t s \<Longrightarrow> {buf..<buf + n} \<inter> D = {} \<Longrightarrow>
      \<exists>s'. out (int (length t)) buf n s = (0, s') \<and> Got (t @ map (imem s) [buf..<buf + n]) s' \<and>
        (\<forall>x. x \<notin> D \<longrightarrow> imem s' x = imem s x)"
    and Got_frame: "Got t s \<Longrightarrow> (\<And>x. x \<in> D \<Longrightarrow> m x = imem s x) \<Longrightarrow> Got t (s\<lparr>imem := m\<rparr>)"
begin

lemma print_takes:
  assumes "Got t s" "{buf..<buf + n} \<inter> D = {}" "\<forall>x\<in>S. imem s x = m x" "S \<inter> D = {}"
  obtains s' where "print out buf n (int (length t), s) = (0, int (length (t @ map (imem s) [buf..<buf + n])), s')"
    "Got (t @ map (imem s) [buf..<buf + n]) s'" "\<forall>x\<in>S. imem s' x = m x"
proof -
  obtain s' where s': "out (int (length t)) buf n s = (0, s')" "Got (t @ map (imem s) [buf..<buf + n]) s'"
    "\<forall>x. x \<notin> D \<longrightarrow> imem s' x = imem s x" using out_takes [OF assms(1,2)] by blast
  have "\<forall>x\<in>S. imem s' x = m x" using s'(3) assms(3,4) by (metis disjoint_iff)
  then show thesis using that [of s'] s'(1,2) by (simp add: print_def)
qed

lemma print_cstr:
  assumes "Got t s" "cstr_at (imem s) a b" "{a..a + length b} \<inter> D = {}" "\<forall>x\<in>S. imem s x = m x" "S \<inter> D = {}"
  obtains s' where "print_str out a (int (length t), s) = Some (Inr (0, int (length (t @ b)), s'))"
    "Got (t @ b) s'" "\<forall>x\<in>S. imem s' x = m x"
proof -
  have l: "strlen (imem s) a = Some (length b)" using strlen_loop_cstr [OF assms(2)] by (simp add: strlen_def)
  have b: "map (imem s) [a..<a + length b] = b"
    using assms(2) by (intro nth_equalityI) (auto simp: cstr_at_def)
  have d: "{a..<a + length b} \<inter> D = {}" using assms(3) by (auto simp: disjoint_iff)
  obtain s' where "print out a (length b) (int (length t), s) = (0, int (length (t @ b)), s')"
    "Got (t @ b) s'" "\<forall>x\<in>S. imem s' x = m x"
    using print_takes [OF assms(1) d assms(4,5)] unfolding b by blast
  then show thesis using that [of s'] l by (simp add: print_str_def)
qed

text \<open>A write to the buffers on the stack.\<close>

lemma stack_write:
  assumes "Got t s" "\<forall>x\<in>S. imem s x = m x" "S \<inter> {sb..sb + 64} = {}" "{sb..sb + 64} \<inter> D = {}"
    "\<And>x. x < sb \<or> sb + 64 < x \<Longrightarrow> m' x = imem s x"
  shows "Got t (s\<lparr>imem := m'\<rparr>)" "\<forall>x\<in>S. imem (s\<lparr>imem := m'\<rparr>) x = m x"
proof -
  have o: "m' x = imem s x" if "x \<notin> {sb..sb + 64}" for x using assms(5) [of x] that by auto
  show "Got t (s\<lparr>imem := m'\<rparr>)" by (rule Got_frame [OF assms(1)]) (use o assms(4) in blast)
  show "\<forall>x\<in>S. imem (s\<lparr>imem := m'\<rparr>) x = m x"
  proof
    show "imem (s\<lparr>imem := m'\<rparr>) x = m x" if "x \<in> S" for x
      using o [of x] assms(2,3) that by (simp add: disjoint_iff)
  qed
qed

lemma print_char_takes:
  assumes "Got t s" "\<forall>x\<in>S. imem s x = m x" "S \<inter> {sb..sb + 64} = {}" "{sb..sb + 64} \<inter> D = {}" "S \<inter> D = {}"
  obtains s' where "print_char out sb c (int (length t), s) = (0, int (length (t @ [c])), s')"
    "Got (t @ [c]) s'" "\<forall>x\<in>S. imem s' x = m x"
proof -
  let ?s = "s\<lparr>imem := (imem s)(sb + 64 := c)\<rparr>"
  have w: "Got t ?s" "\<forall>x\<in>S. imem ?s x = m x" by (rule stack_write [OF assms(1-4)]; auto)+
  have c: "map (imem ?s) [sb + 64..<sb + 64 + 1] = [c]" by (simp add: upt_conv_Cons del: One_nat_def)
  have d: "{sb + 64..<sb + 64 + 1} \<inter> D = {}" using assms(4) by (auto simp: disjoint_iff)
  obtain s' where "print out (sb + 64) 1 (int (length t), ?s) = (0, int (length (t @ [c])), s')"
    "Got (t @ [c]) s'" "\<forall>x\<in>S. imem s' x = m x"
    using print_takes [OF w(1) d w(2) assms(5)] unfolding c by blast
  then show thesis using that [of s'] by (simp add: print_char_def)
qed

lemma print_number_takes:
  assumes "Got t s" "\<forall>x\<in>S. imem s x = m x" "S \<inter> {sb..sb + 64} = {}" "{sb..sb + 64} \<inter> D = {}" "S \<inter> D = {}"
    "conv d \<in> num_convs"
  obtains s' b where "print_number out sb (decode_conv (conv d) (len_spec (lenm d))) a (int (length t), s) =
      Some (Inr (0, int (length (t @ b)), s'))" "num_shows d a b" "Got (t @ b) s'" "\<forall>x\<in>S. imem s' x = m x"
proof -
  let ?T = "decode_conv (conv d) (len_spec (lenm d))"
  obtain m' b where b: "number_text ?T a sb (imem s) = Some (Inr m')" "cstr_at m' sb b" "num_shows d a b"
    "length b \<le> 23" "\<And>x. x < sb \<or> sb + 63 < x \<Longrightarrow> m' x = imem s x"
    by (rule number_text_spec [OF assms(6), of a sb "imem s"]) blast
  let ?s = "s\<lparr>imem := m'\<rparr>"
  have o: "m' x = imem s x" if "x < sb \<or> sb + 64 < x" for x using b(5) [of x] that by auto
  have w: "Got t ?s" "\<forall>x\<in>S. imem ?s x = m x" using stack_write [OF assms(1-4), of m'] o by blast+
  have d: "{sb..sb + length b} \<inter> D = {}" using assms(4) b(4) by fastforce
  have c: "cstr_at (imem ?s) sb b" using b(2) by simp
  obtain s' where "print_str out sb (int (length t), ?s) = Some (Inr (0, int (length (t @ b)), s'))"
    "Got (t @ b) s'" "\<forall>x\<in>S. imem s' x = m x"
    by (rule print_cstr [OF w(1) c d w(2) assms(5)])
  then show thesis using that [of b s'] b(1,3) by (simp add: print_number_def)
qed

text \<open>One piece: what is printed for it renders it, and the rest of the arguments is left.\<close>

lemma print_piece_takes:
  assumes "Got t s" "\<forall>x\<in>S. imem s x = m x" "S \<inter> {sb..sb + 64} = {}" "{sb..sb + 64} \<inter> D = {}" "S \<inter> D = {}"
    "args_ok S m (p # ps) args" "cstr_at m a (piece_text p @ r)" "{a..<a + length (piece_text p)} \<subseteq> S"
    "case p of Plain _ \<Rightarrow> True | Dir d \<Rightarrow> dir_ok d"
  obtains s' b args' where "print_piece out sb a (a + length (piece_text p))
      (case p of Plain _ \<Rightarrow> FMT_NONE | Dir d \<Rightarrow> decode_conv (conv d) (len_spec (lenm d))) args (int (length t), s) =
      Some (Inr (args', 0, int (length (t @ b)), s'))"
    "\<And>os. renders m ps args' os \<Longrightarrow> renders m (p # ps) args (b @ os)" "args_ok S m ps args'"
    "Got (t @ b) s'" "\<forall>x\<in>S. imem s' x = m x"
proof (cases p)
  case (Plain bs)
  have t: "map (imem s) [a..<a + length bs] = bs"
    using assms(2,7,8) Plain by (intro nth_equalityI) (auto simp: cstr_at_append subset_iff)
  have d: "{a..<a + length bs} \<inter> D = {}" using assms(5,8) Plain by auto
  obtain s' where s': "print out a (length bs) (int (length t), s) = (0, int (length (t @ bs)), s')"
    "Got (t @ bs) s'" "\<forall>x\<in>S. imem s' x = m x" using print_takes [OF assms(1) d assms(2,5)] unfolding t by blast
  have pp: "print_piece out sb a (a + length (piece_text p))
      (case p of Plain _ \<Rightarrow> FMT_NONE | Dir d \<Rightarrow> decode_conv (conv d) (len_spec (lenm d))) args (int (length t), s) =
      Some (Inr (args, 0, int (length (t @ bs)), s'))"
    using s'(1) Plain by (simp add: print_piece_def FMT_NONE_def FMT_STR_def FMT_CHAR_def FMT_INT_def)
  show thesis
  proof (rule that [OF pp _ _ s'(2,3)])
    show "renders m (p # ps) args (bs @ os)" if "renders m ps args os" for os
      using that Plain by (auto intro: renders.intros)
    show "args_ok S m ps args" using assms(6) Plain by simp
  qed
next
  case (Dir d)
  let ?T = "decode_conv (conv d) (len_spec (lenm d))"
  have ok: "conv d \<in> num_convs \<or> conv d = 0x73 \<or> conv d = 0x63 \<or> conv d = 0x25" using assms(9) Dir by (auto simp: dir_ok_def)
  show thesis
  proof (cases "conv d = 0x25")
    case True
    then have T: "?T AND 0xff = FMT_PERCENT" using decode_conv_others(3) by simp
    obtain s' where s': "print_char out sb 0x25 (int (length t), s) = (0, int (length (t @ [0x25])), s')"
      "Got (t @ [0x25]) s'" "\<forall>x\<in>S. imem s' x = m x" by (rule print_char_takes [OF assms(1-5), of "0x25"]) blast
    have pp: "print_piece out sb a (a + length (piece_text p))
        (case p of Plain _ \<Rightarrow> FMT_NONE | Dir d \<Rightarrow> decode_conv (conv d) (len_spec (lenm d))) args (int (length t), s) =
        Some (Inr (args, 0, int (length (t @ [0x25])), s'))"
      using s'(1) Dir T by (simp add: print_piece_def FMT_PERCENT_def FMT_NONE_def FMT_STR_def FMT_CHAR_def FMT_INT_def)
    show thesis
    proof (rule that [OF pp _ _ s'(2,3)])
      show "renders m (p # ps) args ([0x25] @ os)" if "renders m ps args os" for os
        using that Dir True by (auto intro: renders.intros)
      show "args_ok S m ps args" using assms(6) Dir True by simp
    qed
  next
    case False
    then obtain v args' where ar: "args = v # args'" "args_ok S m ps args'"
      "conv d = 0x73 \<longrightarrow> (\<exists>s. cstr_at m (unat v) s \<and> {unat v..unat v + length s} \<subseteq> S)"
      using assms(6) Dir by (auto split: list.splits)
    consider "conv d = 0x73" | "conv d = 0x63" | "conv d \<in> num_convs" using ok False by blast
    then show thesis
    proof cases
      case 1
      then have T: "?T AND 0xff = FMT_STR" using decode_conv_others(1) by simp
      obtain b where b: "cstr_at m (unat v) b" "{unat v..unat v + length b} \<subseteq> S" using ar(3) 1 by blast
      have "unat v + i \<in> S" if "i \<le> length b" for i using b(2) that by (simp add: subset_iff)
      then have "imem s (unat v + i) = m (unat v + i)" if "i \<le> length b" for i using assms(2) that by blast
      then have c: "cstr_at (imem s) (unat v) b" using b(1) by (simp add: cstr_at_def)
      have d: "{unat v..unat v + length b} \<inter> D = {}" using b(2) assms(5) by blast
      obtain s' where s': "print_str out (unat v) (int (length t), s) = Some (Inr (0, int (length (t @ b)), s'))"
        "Got (t @ b) s'" "\<forall>x\<in>S. imem s' x = m x" by (rule print_cstr [OF assms(1) c d assms(2,5)])
      have pp: "print_piece out sb a (a + length (piece_text p))
          (case p of Plain _ \<Rightarrow> FMT_NONE | Dir d \<Rightarrow> decode_conv (conv d) (len_spec (lenm d))) args (int (length t), s) =
          Some (Inr (args', 0, int (length (t @ b)), s'))"
        using s'(1) Dir T ar(1) by (simp add: print_piece_def va_arg_def)
      show thesis
      proof (rule that [OF pp _ ar(2) s'(2,3)])
        show "renders m (p # ps) args (b @ os)" if "renders m ps args' os" for os
          unfolding Dir ar(1) using 1 b(1) that by (intro renders.intros(3))
      qed
    next
      case 2
      then have T: "?T AND 0xff = FMT_CHAR" using decode_conv_others(2) by simp
      obtain s' where s': "print_char out sb (ucast v) (int (length t), s) = (0, int (length (t @ [ucast v])), s')"
        "Got (t @ [ucast v]) s'" "\<forall>x\<in>S. imem s' x = m x" by (rule print_char_takes [OF assms(1-5), of "ucast v"]) blast
      have pp: "print_piece out sb a (a + length (piece_text p))
          (case p of Plain _ \<Rightarrow> FMT_NONE | Dir d \<Rightarrow> decode_conv (conv d) (len_spec (lenm d))) args (int (length t), s) =
          Some (Inr (args', 0, int (length (t @ [ucast v])), s'))"
        using s'(1) Dir T ar(1) by (simp add: print_piece_def va_arg_def FMT_STR_def FMT_CHAR_def)
      show thesis
      proof (rule that [OF pp _ ar(2) s'(2,3)])
        show "renders m (p # ps) args ([ucast v] @ os)" if "renders m ps args' os" for os
          unfolding Dir ar(1) using renders.intros(4) [OF 2 that] by simp
      qed
    next
      case 3
      then have T: "?T AND 0xff = FMT_INT" by (rule decode_conv_facts(1))
      obtain s' b where s': "print_number out sb ?T v (int (length t), s) = Some (Inr (0, int (length (t @ b)), s'))"
        "num_shows d v b" "Got (t @ b) s'" "\<forall>x\<in>S. imem s' x = m x" by (rule print_number_takes [OF assms(1-5) 3, of v]) blast
      have pp: "print_piece out sb a (a + length (piece_text p))
          (case p of Plain _ \<Rightarrow> FMT_NONE | Dir d \<Rightarrow> decode_conv (conv d) (len_spec (lenm d))) args (int (length t), s) =
          Some (Inr (args', 0, int (length (t @ b)), s'))"
        using s'(1) Dir T ar(1) by (simp add: print_piece_def va_arg_def FMT_STR_def FMT_CHAR_def FMT_INT_def)
      show thesis
      proof (rule that [OF pp _ ar(2) s'(3,4)])
        show "renders m (p # ps) args (b @ os)" if "renders m ps args' os" for os
          unfolding Dir ar(1) by (rule renders.intros(6) [OF 3 s'(2) that])
      qed
    qed
  qed
qed

lemma vprintf_renders:
  assumes "pieces_ok ps" "cstr_at m a (concat (map piece_text ps))" "{a..a + length (concat (map piece_text ps))} \<subseteq> S"
    "args_ok S m ps args" "S \<inter> D = {}" "S \<inter> {sb..sb + 64} = {}" "{sb..sb + 64} \<inter> D = {}"
    "Got t s" "\<forall>x\<in>S. imem s x = m x"
  shows "\<exists>os s'. vprintf_loop out sb a args (0, int (length t), s) = Some (Inr (int (length (t @ os)), s')) \<and>
    renders m ps args os \<and> Got (t @ os) s' \<and> (\<forall>x\<in>S. imem s' x = m x)"
  using assms(1-4,8,9)
proof (induction ps arbitrary: a args t s)
  case Nil
  then have "imem s a = 0" by simp
  then have "vprintf_loop out sb a args (0, int (length t), s) = Some (Inr (int (length (t @ [])), s))"
    by (subst vprintf_loop.simps) simp
  then show ?case using Nil.prems(5,6) by (intro exI [of _ "[]"] exI [of _ s]) (simp add: renders.intros(1))
next
  case (Cons p ps)
  let ?r = "concat (map piece_text ps)" and ?a = "a + length (piece_text p)"
  let ?T = "case p of Plain _ \<Rightarrow> FMT_NONE | Dir d \<Rightarrow> decode_conv (conv d) (len_spec (lenm d))"
  have c: "cstr_at m a (piece_text p @ ?r)" using Cons.prems(2) by simp
  have eq: "imem s (a + i) = m (a + i)" if "i \<le> length (piece_text p @ ?r)" for i
    using Cons.prems(3,6) that by (auto simp: subset_iff)
  then have cs: "cstr_at (imem s) a (piece_text p @ ?r)" using c eq [of "length (piece_text p @ ?r)"] by (simp add: cstr_at_def)
  have sub: "{a..<?a} \<subseteq> S" using Cons.prems(3) by (auto simp: subset_iff)
  have ok: "case p of Plain _ \<Rightarrow> True | Dir d \<Rightarrow> dir_ok d" "pieces_ok ps" using Cons.prems(1) by (cases p; simp)+
  obtain s' b args' where st: "print_piece out sb a ?a ?T args (int (length t), s) = Some (Inr (args', 0, int (length (t @ b)), s'))"
    "\<And>os. renders m ps args' os \<Longrightarrow> renders m (p # ps) args (b @ os)" "args_ok S m ps args'"
    "Got (t @ b) s'" "\<forall>x\<in>S. imem s' x = m x"
    by (rule print_piece_takes [OF Cons.prems(5,6) assms(6,7,5) Cons.prems(4) c sub ok(1)]) blast
  have tl: "cstr_at m ?a ?r" "{?a..?a + length ?r} \<subseteq> S" using c Cons.prems(3) by (auto simp: cstr_at_append subset_iff)
  obtain os s'' where l: "vprintf_loop out sb ?a args' (0, int (length (t @ b)), s') = Some (Inr (int (length ((t @ b) @ os)), s''))"
    "renders m ps args' os" "Got ((t @ b) @ os) s''" "\<forall>x\<in>S. imem s'' x = m x" using Cons.IH [OF ok(2) tl st(3-5)] by blast
  have "vprintf_loop out sb a args (0, int (length t), s) = Some (Inr (int (length ((t @ b) @ os)), s''))"
    using decode_format_spec [OF cs Cons.prems(1)] st(1) l(1) by (subst vprintf_loop.simps) simp
  then show ?case using st(2) [OF l(2)] l(3,4) by (intro exI [of _ "b @ os"] exI [of _ s'']) simp
qed

end

section \<open>The serial port and the string buffer\<close>

lemma serial_write_spec:
  "serial_write buf n s = s\<lparr>serial := serial s @ map (imem s) [buf..<buf + n]\<rparr>"
proof (induction n arbitrary: buf s)
  case (Suc n)
  have "[buf..<buf + Suc n] = buf # [Suc buf..<Suc buf + n]" by (simp add: upt_conv_Cons)
  then show ?case by (simp add: Suc serial_putchar_def)
qed simp

interpretation port: sink serial_out "\<lambda>t s. serial s = sent @ t" "{}" for sent
  by unfold_locales (auto simp: serial_out_def serial_write_spec)

definition holds :: "nat \<Rightarrow> nat \<Rightarrow> memory \<Rightarrow> u8 list \<Rightarrow> io \<Rightarrow> bool" where
  "holds dst sz m t s \<longleftrightarrow> (\<forall>i < sz. imem s (dst + i) = (if i < length t then t ! i else m (dst + i)))"

lemma str_out_takes:
  assumes "holds dst sz m t s" "{buf..<buf + n} \<inter> {dst..<dst + sz} = {}"
  shows "\<exists>s'. str_out dst (int sz) (int (length t)) buf n s = (0, s') \<and> holds dst sz m (t @ map (imem s) [buf..<buf + n]) s' \<and>
    (\<forall>x. x \<notin> {dst..<dst + sz} \<longrightarrow> imem s' x = imem s x)"
proof (cases "sz \<le> length t")
  case True
  then have "nat (if int n < int sz - int (length t) then int n else int sz - int (length t)) = 0" by auto
  then have "str_out dst (int sz) (int (length t)) buf n s = (0, s)" by (simp add: str_out_def Let_def)
  moreover have "holds dst sz m (t @ map (imem s) [buf..<buf + n]) s"
    using assms(1) True by (simp add: holds_def nth_append)
  ultimately show ?thesis by blast
next
  case False
  define k where "k = min n (sz - length t)"
  have k: "nat (if int n < int sz - int (length t) then int n else int sz - int (length t)) = k"
    using False by (auto simp: k_def)
  let ?m = "memcpy (dst + length t) buf k (imem s)"
  have kb: "k \<le> n" "length t + k \<le> sz" using False by (auto simp: k_def)
  have "{dst + length t..<dst + length t + k} \<inter> {buf..<buf + k} = {}"
    using assms(2) kb by (auto simp: disjoint_iff)
  note c = memcpy_spec [OF this, of "imem s"]
  have "str_out dst (int sz) (int (length t)) buf n s = (0, s\<lparr>imem := ?m\<rparr>)"
    using False k by (simp add: str_out_def Let_def)
  moreover have "holds dst sz m (t @ map (imem s) [buf..<buf + n]) (s\<lparr>imem := ?m\<rparr>)"
    unfolding holds_def
  proof (intro allI impI)
    fix i assume i: "i < sz"
    show "imem (s\<lparr>imem := ?m\<rparr>) (dst + i) =
      (if i < length (t @ map (imem s) [buf..<buf + n]) then (t @ map (imem s) [buf..<buf + n]) ! i else m (dst + i))"
    proof (cases "length t \<le> i \<and> i < length t + k")
      case True
      then have "?m (dst + i) = imem s (buf + (i - length t))" using c [of "dst + i"] by simp
      moreover have "i - length t < n" "i < length t + n" using True kb by linarith+
      ultimately show ?thesis using True by (simp add: nth_append)
    next
      case o: False
      then have "?m (dst + i) = imem s (dst + i)" using c [of "dst + i"] by auto
      moreover have "i < length t \<or> length t + n \<le> i" using o i by (auto simp: k_def)
      ultimately show ?thesis using assms(1) i by (auto simp: holds_def nth_append)
    qed
  qed
  moreover have "?m x = imem s x" if "x \<notin> {dst..<dst + sz}" for x using c [of x] that kb by auto
  ultimately show ?thesis by (intro exI [of _ "s\<lparr>imem := ?m\<rparr>"]) simp
qed

interpretation string: sink "str_out dst (int sz)" "holds dst sz m" "{dst..<dst + sz}" for dst sz m
proof unfold_locales
  show "\<exists>s'. str_out dst (int sz) (int (length t)) buf n s = (0, s') \<and> holds dst sz m (t @ map (imem s) [buf..<buf + n]) s' \<and>
    (\<forall>x. x \<notin> {dst..<dst + sz} \<longrightarrow> imem s' x = imem s x)"
    if "holds dst sz m t s" "{buf..<buf + n} \<inter> {dst..<dst + sz} = {}" for t s buf n
    using str_out_takes [OF that] .
  show "holds dst sz m t (s\<lparr>imem := m'\<rparr>)" if "holds dst sz m t s" "\<And>x. x \<in> {dst..<dst + sz} \<Longrightarrow> m' x = imem s x" for t s m'
    using that by (simp add: holds_def)
qed

end
