(* ===== verification/Printf_Props.thy ===== *)
theory Printf_Props
  imports Printf_Sink
begin

unbundle bit_operations_syntax

text \<open>
  The properties of formatted output.  The example format is \<open>%-5s=%d%%\<close> with a string and a number.
\<close>

section \<open>Printing to the serial port\<close>







section \<open>Printing to a buffer\<close>



end
