(* ===== verification/Ramfs.thy ===== *)
theory Ramfs
  imports CString
begin

text \<open>
  The file system in memory, \<open>ramfs.c\<close>.

  An entry is an object of the store \<open>entries\<close>, the list of the children of an entry one of the store
  \<open>flists\<close>; addresses are numbers, 0 is \<open>NULL\<close>.  The name, the contents and the mutex of an entry are
  blocks that only the entry points to, so they are fields of it.  A name is the list of its bytes, an
  argument of type \<open>char *\<close> a list or \<open>None\<close> for \<open>NULL\<close>.

  \<open>avail\<close> lists what the next calls of \<open>mem_alloc\<close> return.  The code uses each result without a test,
  so an answer of 0, as the end of the avail, is a fault.  Freeing a list that is not there is the \<open>BUG\<close>
  of the heap (a double free).  One thread runs the operations: waiting for a mutex that is taken is \<open>Hang\<close>.
  \<open>log\<close> is what was sent to the serial port, call by call.
\<close>

section \<open>State\<close>

type_synonym name = "u8 list"

record fentry =
  fname :: name
  fparent :: nat
  fnext :: nat
  children :: nat
  contents :: "u8 list option"
  fsize :: nat
  is_dir :: bool
  locked :: bool

datatype message = Text "u8 list" | Hex u32

record fs =
  entries :: "nat \<Rightarrow> fentry option"
  flists :: "nat \<Rightarrow> nat option"
  root :: nat
  avail :: "nat list"
  log :: "message list"

definition RAMFS_MAX_FILENAME_SIZE :: nat where "RAMFS_MAX_FILENAME_SIZE = 256"

definition bytes :: "string \<Rightarrow> u8 list" where "bytes s = map of_char s"

definition say :: "u8 list \<Rightarrow> fs \<Rightarrow> fs" where "say t s = s\<lparr>log := log s @ [Text t]\<rparr>"

definition say_hex :: "nat \<Rightarrow> fs \<Rightarrow> fs" where "say_hex n s = s\<lparr>log := log s @ [Hex (of_nat n)]\<rparr>"

definition error_message :: "u8 list \<Rightarrow> u8 list \<Rightarrow> u8 list \<Rightarrow> fs \<Rightarrow> fs" where
  "error_message l name r s = say r (say name (say l s))"

definition newline :: "u8 list" where "newline = [0x0a]"

section \<open>Memory and mutexes\<close>

definition new_block :: "fs \<Rightarrow> (nat \<times> fs) res" where
  "new_block s = (case avail s of [] \<Rightarrow> Inl Fault
     | a # as \<Rightarrow> if a = 0 then Inl Fault else Inr (a, s\<lparr>avail := as\<rparr>))"

definition fe :: "fs \<Rightarrow> nat \<Rightarrow> fentry res" where
  "fe s a = (if a = 0 then Inl Fault else case entries s a of None \<Rightarrow> Inl Fault | Some e \<Rightarrow> Inr e)"

definition upd_fe :: "nat \<Rightarrow> (fentry \<Rightarrow> fentry) \<Rightarrow> fs \<Rightarrow> fs res" where
  "upd_fe a g s = bindE (fe s a) (\<lambda>e. Inr (s\<lparr>entries := (entries s)(a \<mapsto> g e)\<rparr>))"

definition free_entry :: "nat \<Rightarrow> fs \<Rightarrow> fs" where
  "free_entry a s = s\<lparr>entries := (entries s)(a := None)\<rparr>"

definition list_begin :: "fs \<Rightarrow> nat \<Rightarrow> nat res" where
  "list_begin s l = (if l = 0 then Inl Fault else case flists s l of None \<Rightarrow> Inl Fault | Some b \<Rightarrow> Inr b)"

definition set_begin :: "nat \<Rightarrow> nat \<Rightarrow> fs \<Rightarrow> fs res" where
  "set_begin l b s = bindE (list_begin s l) (\<lambda>_. Inr (s\<lparr>flists := (flists s)(l \<mapsto> b)\<rparr>))"

definition free_list :: "nat \<Rightarrow> fs \<Rightarrow> fs res" where
  "free_list l s = bug_on (flists s l = None) (Inr (s\<lparr>flists := (flists s)(l := None)\<rparr>))"

definition lock_entry :: "nat \<Rightarrow> fs \<Rightarrow> fs res" where
  "lock_entry a s = bindE (fe s a) (\<lambda>e. if locked e then Inl Hang else upd_fe a (locked_update (\<lambda>_. True)) s)"

definition unlock_entry :: "nat \<Rightarrow> fs \<Rightarrow> fs res" where
  "unlock_entry a s = upd_fe a (locked_update (\<lambda>_. False)) s"

section \<open>Names\<close>

text \<open>The last character of the empty name is read before its first.\<close>

definition trim_filename :: "name option \<Rightarrow> fs \<Rightarrow> (name \<times> fs) res" where
  "trim_filename fn s = (case fn of None \<Rightarrow> Inl Fault | Some n \<Rightarrow>
     if n = [] then Inl Fault
     else bindE (new_block s) (\<lambda>(_, s). Inr (if last n = 0x2f then butlast n else n, s)))"

definition fentry_equals_filename :: "fentry \<Rightarrow> name \<Rightarrow> bool" where
  "fentry_equals_filename e n \<longleftrightarrow> length (fname e) = length n \<and>
     str_compare (\<lambda>i. (fname e @ n) ! i) 0 (length (fname e)) (length n) = 0"

definition slash_index :: "name \<Rightarrow> nat" where
  "slash_index fn = foldl (\<lambda>index i. if fn ! i = 0x2f then i else index) (RAMFS_MAX_FILENAME_SIZE + 1) [0..<length fn]"

definition get_directory_name :: "name option \<Rightarrow> fs \<Rightarrow> (name option \<times> fs) res" where
  "get_directory_name filename s =
     bindE (trim_filename filename s) (\<lambda>(fn, s).
       let index = slash_index fn
       in if RAMFS_MAX_FILENAME_SIZE < index \<and> root s \<noteq> 0
          then Inr (None, error_message (bytes ''ERROR: fn: '' @ [0x22]) fn ([0x22] @ bytes ''does not contain '/' symbol.'' @ newline) s)
          else let index = (if RAMFS_MAX_FILENAME_SIZE < index then length fn else index)
               in bindE (new_block s) (\<lambda>(_, s). Inr (Some (take index fn), s)))"

section \<open>Lists of entries\<close>

definition fentry_list_create :: "fs \<Rightarrow> (nat \<times> fs) res" where
  "fentry_list_create s = bindE (new_block s) (\<lambda>(l, s). Inr (l, s\<lparr>flists := (flists s)(l \<mapsto> 0)\<rparr>))"

text \<open>The loop of \<open>fentry_list_add\<close> stops at an entry with the name, or at the last entry.\<close>

partial_function (option) add_loop :: "fs \<Rightarrow> name \<Rightarrow> nat \<Rightarrow> nat \<Rightarrow> nat option res option" where
  "add_loop s n it e =
     (if it = 0 then Some (Inr (Some e))
      else bindP (Some (fe s it)) (\<lambda>x.
        if fentry_equals_filename x n then Some (Inr None) else add_loop s n (fnext x) it))"

definition fentry_list_add :: "nat \<Rightarrow> nat \<Rightarrow> fs \<Rightarrow> (nat \<times> fs) res option" where
  "fentry_list_add fl f s =
     bindP (Some (list_begin s fl)) (\<lambda>it.
     bindP (Some (upd_fe f (fnext_update (\<lambda>_. 0)) s)) (\<lambda>s.
     if it = 0 then bindP (Some (set_begin fl f s)) (\<lambda>s. Some (Inr (f, s)))
     else
       bindP (Some (fe s f)) (\<lambda>x.
       bindP (add_loop s (fname x) it 0) (\<lambda>r.
         case r of
           None \<Rightarrow> Some (Inr (0, error_message (bytes ''File already exist: '') (fname x) newline s))
         | Some e \<Rightarrow> bindP (Some (upd_fe e (fnext_update (\<lambda>_. f)) s)) (\<lambda>s. Some (Inr (f, s)))))))"

partial_function (option) find_loop :: "fs \<Rightarrow> name \<Rightarrow> nat \<Rightarrow> nat res option" where
  "find_loop s n it =
     (if it = 0 then Some (Inr 0)
      else bindP (Some (fe s it)) (\<lambda>x. if fentry_equals_filename x n then Some (Inr it) else find_loop s n (fnext x)))"

definition fentry_list_find_with_name :: "fs \<Rightarrow> nat \<Rightarrow> name \<Rightarrow> nat res option" where
  "fentry_list_find_with_name s fl n = bindP (Some (list_begin s fl)) (find_loop s n)"

section \<open>Search\<close>

text \<open>The loop of \<open>ramfs_find_recursive\<close> over the children, with the recursive call unfolded.\<close>

partial_function (option) find_children :: "fs \<Rightarrow> name \<Rightarrow> nat \<Rightarrow> nat res option" where
  "find_children s n it =
     (if it = 0 then Some (Inr 0)
      else bindP (Some (fe s it)) (\<lambda>x.
        bindP (if fentry_equals_filename x n then Some (Inr it)
               else bindP (fentry_list_find_with_name s (children x) n) (\<lambda>p.
                      if p \<noteq> 0 then Some (Inr p)
                      else bindP (Some (list_begin s (children x))) (\<lambda>b. find_children s n b)))
          (\<lambda>pp. if pp \<noteq> 0 then Some (Inr pp) else find_children s n (fnext x))))"

definition ramfs_find_recursive :: "fs \<Rightarrow> nat \<Rightarrow> name \<Rightarrow> nat res option" where
  "ramfs_find_recursive s f n =
     bindP (Some (fe s f)) (\<lambda>x.
       if fentry_equals_filename x n then Some (Inr f)
       else bindP (fentry_list_find_with_name s (children x) n) (\<lambda>p.
              if p \<noteq> 0 then Some (Inr p)
              else bindP (Some (list_begin s (children x))) (find_children s n)))"

definition ramfs_find :: "name option \<Rightarrow> fs \<Rightarrow> (nat \<times> fs) res option" where
  "ramfs_find filename s =
     (if root s = 0 then Some (Inr (0, s))
      else bindP (Some (trim_filename filename s)) (\<lambda>(fn, s).
           bindP (Some (fe s (root s))) (\<lambda>x.
             if fentry_equals_filename x fn then Some (Inr (root s, s))
             else bindP (ramfs_find_recursive s (root s) fn) (\<lambda>p. Some (Inr (p, s))))))"

section \<open>Creation\<close>

text \<open>
  The fields the code has not written yet are 0 in the new object; nothing reads them before it writes
  them.
\<close>

definition new_fentry :: "name \<Rightarrow> nat \<Rightarrow> fentry" where
  "new_fentry n p = \<lparr>fname = n, fparent = p, fnext = 0, children = 0, contents = None, fsize = 0, is_dir = False, locked = False\<rparr>"

definition fentry_init :: "nat \<Rightarrow> bool \<Rightarrow> fs \<Rightarrow> (nat \<times> fs) res" where
  "fentry_init res d s =
     bindE (upd_fe res (fnext_update (\<lambda>_. 0)) s) (\<lambda>s.
     bindE (fentry_list_create s) (\<lambda>(l, s).
     bindE (upd_fe res (\<lambda>x. x\<lparr>children := l, contents := None, fsize := 0, is_dir := d\<rparr>) s) (\<lambda>s.
     bindE (new_block s) (\<lambda>(_, s).
     bindE (upd_fe res (locked_update (\<lambda>_. False)) s) (\<lambda>s. Inr (res, s))))))"

definition fentry_create :: "name \<Rightarrow> nat \<Rightarrow> bool \<Rightarrow> fs \<Rightarrow> (nat \<times> fs) res option" where
  "fentry_create filename parent d s =
     bindP (Some (new_block s)) (\<lambda>(res, s).
     bindP (Some (trim_filename (Some filename) s)) (\<lambda>(fn, s).
       let s = s\<lparr>entries := (entries s)(res \<mapsto> new_fentry fn parent)\<rparr>
       in if parent = 0 \<and> root s = 0 then Some (fentry_init res d (s\<lparr>root := res\<rparr>))
          else
            let s = (if parent = 0 then error_message (bytes ''Internal error when creating an entry.'' @ newline) [] [] s else s)
            in bindP (Some (lock_entry parent s)) (\<lambda>s.
               bindP (Some (fe s parent)) (\<lambda>x.
               bindP (fentry_list_add (children x) res s) (\<lambda>(r, s).
               bindP (Some (unlock_entry parent s)) (\<lambda>s.
                 if r \<noteq> res then Some (Inr (r, free_entry res s)) else Some (fentry_init res d s)))))))"

definition quoted :: "string \<Rightarrow> u8 list" where "quoted s = bytes s @ [0x22]"

definition unquoted :: "string \<Rightarrow> u8 list" where "unquoted s = [0x22] @ bytes s @ newline"

definition ramfs_create_file :: "name \<Rightarrow> bool \<Rightarrow> fs \<Rightarrow> (nat \<times> fs) res option" where
  "ramfs_create_file filename d s =
     (if RAMFS_MAX_FILENAME_SIZE < length filename
      then Some (Inr (0, say (bytes ''ERROR: too long file's absolute path!!'') s))
      else
        bindP (ramfs_find (Some filename) s) (\<lambda>(f, s).
        if f \<noteq> 0 then Some (Inr (f, error_message (quoted ''ERROR: file: '') filename (unquoted ''already exists.'') s))
        else
          bindP (Some (get_directory_name (Some filename) s)) (\<lambda>(dn, s).
          bindP (ramfs_find dn s) (\<lambda>(parent, s).
          if root s \<noteq> 0 \<and> parent = 0
          then Some (Inr (0, error_message (quoted ''ERROR: directory: '') (case dn of None \<Rightarrow> [] | Some n \<Rightarrow> n)
                 (unquoted ''does not exist.'') s))
          else fentry_create filename parent d s))))"

definition ramfs_mkdir :: "name \<Rightarrow> fs \<Rightarrow> (nat \<times> fs) res option" where
  "ramfs_mkdir filename s =
     bindP (ramfs_find (Some filename) s) (\<lambda>(f, s).
     if f \<noteq> 0 then Some (Inr (f, error_message (quoted ''ERROR: directory: '') filename (unquoted ''already exists.'') s))
     else
       bindP (ramfs_create_file filename False s) (\<lambda>(f, s).
       if f = 0 then bindP (Some (fe s f)) (\<lambda>x.
         Some (Inr (f, error_message (bytes ''ERROR: Failed to make directory:'') (fname x) newline s)))
       else Some (Inr (f, s))))"

section \<open>Listing\<close>

partial_function (option) print_loop :: "nat \<Rightarrow> fs \<Rightarrow> fs res option" where
  "print_loop it s =
     (if it = 0 then Some (Inr s)
      else bindP (Some (fe s it)) (\<lambda>x.
           bindP (Some (list_begin s (children x))) (\<lambda>b.
           bindP (print_loop b (say newline (say (fname x) s))) (\<lambda>s. print_loop (fnext x) s))))"

definition fentry_list_print :: "nat \<Rightarrow> fs \<Rightarrow> fs res option" where
  "fentry_list_print fl s = bindP (Some (list_begin s fl)) (\<lambda>it. print_loop it s)"

definition fentry_print :: "nat \<Rightarrow> fs \<Rightarrow> fs res option" where
  "fentry_print f s = bindP (Some (fe s f)) (\<lambda>x. fentry_list_print (children x) (say newline (say (fname x) s)))"

definition ramfs_readdir :: "name \<Rightarrow> fs \<Rightarrow> fs res option" where
  "ramfs_readdir filename s =
     bindP (ramfs_find (Some filename) s) (\<lambda>(f, s).
     if f = 0 then Some (Inr (error_message (quoted ''ERROR: directory: '') filename (unquoted '' does not exist.'') s))
     else bindP (Some (fe s f)) (\<lambda>x.
       if \<not> is_dir x
       then Some (Inr (error_message (quoted ''ERROR: file: '') filename (unquoted '' is not a directory.'') s))
       else bindP (Some (lock_entry f s)) (\<lambda>s. bindP (fentry_list_print (children x) s) (\<lambda>s. Some (unlock_entry f s)))))"

section \<open>Release\<close>

text \<open>The loop of \<open>fentry_list_release\<close>, with the call of \<open>fentry_release\<close> unfolded.\<close>

definition busy_message :: "fentry \<Rightarrow> fs \<Rightarrow> fs" where
  "busy_message x s = error_message (bytes ''ERROR: file: '') (fname x) (bytes '' is still busy. '' @ newline) s"

partial_function (option) release_loop :: "nat \<Rightarrow> fs \<Rightarrow> fs res option" where
  "release_loop it s =
     (if it = 0 then Some (Inr s)
      else bindP (Some (fe s it)) (\<lambda>x.
        bindP (if locked x then Some (Inr (busy_message x s))
               else bindP (Some (list_begin s (children x))) (\<lambda>b.
                    bindP (release_loop b s) (\<lambda>s.
                    bindP (Some (free_list (children x) s)) (\<lambda>s.
                    bindP (Some (free_list (children x) s)) (\<lambda>s.
                    Some (Inr (free_entry it s)))))))
          (\<lambda>s. release_loop (fnext x) s)))"

definition fentry_list_release :: "nat \<Rightarrow> fs \<Rightarrow> fs res option" where
  "fentry_list_release fl s =
     bindP (Some (list_begin s fl)) (\<lambda>it. bindP (release_loop it s) (\<lambda>s. Some (free_list fl s)))"

definition fentry_release :: "nat \<Rightarrow> fs \<Rightarrow> fs res option" where
  "fentry_release f s =
     (if f = 0 then Some (Inr s)
      else bindP (Some (fe s f)) (\<lambda>x.
        if locked x then Some (Inr (busy_message x s))
        else bindP (fentry_list_release (children x) s) (\<lambda>s.
             bindP (Some (free_list (children x) s)) (\<lambda>s. Some (Inr (free_entry f s))))))"

section \<open>Opening, reading and writing\<close>

definition ramfs_open :: "name \<Rightarrow> fs \<Rightarrow> (nat \<times> fs) res option" where
  "ramfs_open filename s =
     bindP (ramfs_find (Some filename) s) (\<lambda>(f, s).
     bindP (if f = 0 then
              bindP (ramfs_create_file filename False s) (\<lambda>(f, s).
              if f = 0 then
                bindP (ramfs_find (Some filename) (error_message (bytes ''ERROR: create: '') filename (bytes '' failed. '' @ newline) s))
                  (\<lambda>(f, s). Some (Inr (f, if f = 0
                     then error_message (bytes ''Internal error with opening/creation file: '') filename newline s else s)))
              else Some (Inr (f, s)))
            else Some (Inr (f, s))) (\<lambda>(f, s).
     bindP (Some (lock_entry f s)) (\<lambda>s. Some (Inr (f, s)))))"

definition ramfs_close :: "nat \<Rightarrow> fs \<Rightarrow> fs res" where
  "ramfs_close f s = unlock_entry f s"

text \<open>The bytes of a block from an index on; reading outside of the block is a fault.\<close>

definition block_read :: "u8 list option \<Rightarrow> nat \<Rightarrow> nat \<Rightarrow> u8 list res" where
  "block_read b i n =
     (if n = 0 then Inr []
      else case b of None \<Rightarrow> Inl Fault | Some c \<Rightarrow> fault_on (length c < i + n) (Inr (take n (drop i c))))"

text \<open>\<open>ramfs_read\<close> tests for \<open>NULL\<close> only after it has read the mutex; it returns the bytes for \<open>buf\<close>.\<close>

definition ramfs_read :: "nat \<Rightarrow> nat \<Rightarrow> nat \<Rightarrow> fs \<Rightarrow> (u8 list \<times> fs) res" where
  "ramfs_read f seek count s =
     bindE (fe s f) (\<lambda>x.
     if \<not> locked x
     then Inr ([], error_message (bytes ''ERROR: One has to open file: '') (fname x) (bytes ''before reading it.'' @ newline) s)
     else if fsize x \<le> seek
     then Inr ([], say_hex seek (error_message (quoted ''Size of file: '') (fname x) ([0x22] @ bytes '' is too small to set seek at: '') s))
     else bindE (block_read (contents x) seek (if fsize x - seek < count then fsize x - seek else count)) (\<lambda>bs. Inr (bs, s)))"

definition fentry_file_set_contents :: "nat \<Rightarrow> u8 list \<Rightarrow> fs \<Rightarrow> fs res" where
  "fentry_file_set_contents f c s =
     bindE (fe s f) (\<lambda>x.
     if is_dir x \<and> 0 < length c
     then Inr (error_message (bytes ''ERROR: trying to set directory: '') (fname x) (bytes '' with file contents'' @ newline) s)
     else bindE (new_block s) (\<lambda>(_, s). upd_fe f (\<lambda>x. x\<lparr>contents := Some c, fsize := length c\<rparr>) s))"

definition ramfs_write :: "nat \<Rightarrow> nat \<Rightarrow> u8 list \<Rightarrow> fs \<Rightarrow> (nat \<times> fs) res" where
  "ramfs_write f seek bs s =
     (let count = length bs in
      bindE (fe s f) (\<lambda>x.
      if is_dir x then Inr (0, error_message (bytes ''ERROR: Cannot write into directory: '') (fname x) newline s)
      else if \<not> locked x
      then Inr (0, error_message (bytes ''ERROR: One has to open file: '') (fname x) (bytes ''before writing into it.'' @ newline) s)
      else if seek \<le> fsize x \<and> 0 < count
      then Inr (0, say_hex seek (error_message (quoted ''Size of file: '') (fname x) ([0x22] @ bytes '' is too small to set seek at: '') s))
      else if seek + count \<le> fsize x
      then bindE (if count = 0 then Inr s else case contents x of None \<Rightarrow> Inl Fault
              | Some c \<Rightarrow> fault_on (length c < seek + count)
                  (upd_fe f (contents_update (\<lambda>_. Some (take seek c @ bs @ drop (seek + count) c))) s)) (\<lambda>s. Inr (count, s))
      else
        bindE (new_block s) (\<lambda>(_, s).
        bindE (block_read (contents x) 0 seek) (\<lambda>old.
        bindE (fentry_file_set_contents f (old @ bs) s) (\<lambda>s. Inr (count, s))))))"

end
