(* ===== verification/Initramfs.thy ===== *)
theory Initramfs
  imports Ramfs
begin

unbundle bit_operations_syntax

text \<open>
  Loading the initial file system from a cpio archive in memory: \<open>initramfs.c\<close>, and the structures of
  the boot loader it reads, from \<open>defines.h\<close>.  The string constants of the code are in the memory, at the
  address \<open>trailer\<close> or \<open>magic\<close>.  Addresses are numbers without bound; all sizes read from the archive
  are 32-bit words and wrap as in the code.
\<close>

section \<open>Structures\<close>

record cpio_header =
  c_mode :: u32
  c_filesize :: u32
  c_namesize :: u32

definition CPIO_HEADER_SIZE :: nat where "CPIO_HEADER_SIZE = 6 + 13 * 8"

record multiboot_module =
  mod_start :: u32
  mod_end :: u32
  mod_cmdline :: u32
  mod_pad :: u32

record multiboot_aout_symbol_table =
  tabsize :: u32
  strsize :: u32
  sym_addr :: u32
  reserved :: u32

record multiboot_info =
  mb_flags :: u32
  mem_lower :: u32
  mem_upper :: u32
  boot_device :: u32
  mb_cmdline :: u32
  mods_count :: u32
  mods_addr :: u32
  aout_sym :: multiboot_aout_symbol_table
  mmap_length :: u32
  mmap_addr :: u32

definition rd32 :: "memory \<Rightarrow> nat \<Rightarrow> u32" where
  "rd32 m a = ucast (m a) OR push_bit 8 (ucast (m (a + 1))) OR push_bit 16 (ucast (m (a + 2))) OR push_bit 24 (ucast (m (a + 3)))"

definition rd_symbol_table :: "memory \<Rightarrow> nat \<Rightarrow> multiboot_aout_symbol_table" where
  "rd_symbol_table m a = \<lparr>tabsize = rd32 m a, strsize = rd32 m (a + 4), sym_addr = rd32 m (a + 8), reserved = rd32 m (a + 12)\<rparr>"

definition rd_multiboot_info :: "memory \<Rightarrow> nat \<Rightarrow> multiboot_info" where
  "rd_multiboot_info m a = \<lparr>mb_flags = rd32 m a, mem_lower = rd32 m (a + 4), mem_upper = rd32 m (a + 8),
     boot_device = rd32 m (a + 12), mb_cmdline = rd32 m (a + 16), mods_count = rd32 m (a + 20), mods_addr = rd32 m (a + 24),
     aout_sym = rd_symbol_table m (a + 28), mmap_length = rd32 m (a + 44), mmap_addr = rd32 m (a + 48)\<rparr>"

definition rd_module :: "memory \<Rightarrow> nat \<Rightarrow> multiboot_module" where
  "rd_module m a = \<lparr>mod_start = rd32 m a, mod_end = rd32 m (a + 4), mod_cmdline = rd32 m (a + 8), mod_pad = rd32 m (a + 12)\<rparr>"

section \<open>Numbers and padding\<close>

function pad4 :: "u32 \<Rightarrow> u32" where
  "pad4 sz = (if sz mod 4 \<noteq> 0 then pad4 (sz + 1) else sz)"
  by pat_completeness auto
termination
proof (relation "measure (\<lambda>s. unat (- s))")
  fix s :: u32
  assume "s mod 4 \<noteq> 0"
  then have "- s \<noteq> 0" by auto
  then have "unat (- s - 1) < unat (- s)" by (simp add: unat_minus_one unat_gt_0)
  then show "(s + 1, s) \<in> measure (\<lambda>s. unat (- s))" by simp
qed simp

declare pad4.simps [simp del]

text \<open>The loop of \<open>cpiotoi\<close> runs over the digits from the last one; \<open>k\<close> is \<open>size - i\<close>.\<close>

fun cpio_loop :: "memory \<Rightarrow> nat \<Rightarrow> nat \<Rightarrow> u32 \<Rightarrow> u32 \<Rightarrow> u32" where
  "cpio_loop m buf 0 res mul = res"
| "cpio_loop m buf (Suc k) res mul = cpio_loop m buf k (res + mul * scast (char_to_digit (m (buf + k)))) (mul * 16)"

definition cpiotoi :: "memory \<Rightarrow> nat \<Rightarrow> nat \<Rightarrow> u32" where
  "cpiotoi m buf sz = cpio_loop m buf sz 0 1"

definition rd_header :: "memory \<Rightarrow> nat \<Rightarrow> cpio_header" where
  "rd_header m ptr = \<lparr>c_mode = cpiotoi m (ptr + 14) 8, c_filesize = cpiotoi m (ptr + 54) 8, c_namesize = cpiotoi m (ptr + 94) 8\<rparr>"

definition S_IFMT :: u32 where "S_IFMT = 0xF000"
definition S_IFDIR :: u32 where "S_IFDIR = 0x4000"
definition S_ISDIR :: "u32 \<Rightarrow> bool" where "S_ISDIR mode \<longleftrightarrow> mode AND S_IFMT = S_IFDIR"

definition END_OF_ARCHIVE :: "u8 list" where "END_OF_ARCHIVE = bytes ''TRAILER!!!''"

section \<open>The archive\<close>

text \<open>A string of the memory, if it ends.\<close>

definition cstring :: "memory \<Rightarrow> nat \<Rightarrow> u8 list option" where
  "cstring m a = map_option (\<lambda>n. map m [a..<a + n]) (strlen m a)"

definition contents_at :: "nat \<Rightarrow> u32 \<Rightarrow> nat" where
  "contents_at ptr namesize = ptr + unat (pad4 (of_nat CPIO_HEADER_SIZE + namesize))"

definition next_at :: "nat \<Rightarrow> cpio_header \<Rightarrow> nat" where
  "next_at ptr h = ptr + unat (pad4 (of_nat CPIO_HEADER_SIZE + c_namesize h) + pad4 (c_filesize h))"

text \<open>Loading the contents of a file that was just created; \<open>False\<close> ends \<open>initramfs\<close>.\<close>

definition load_file :: "name \<Rightarrow> nat \<Rightarrow> u8 list \<Rightarrow> fs \<Rightarrow> (bool \<times> fs) res option" where
  "load_file filename f bs s =
     bindP (ramfs_open filename s) (\<lambda>(ff, s).
     if ff \<noteq> f then Some (Inr (False, say filename (say (bytes ''Internal error while loading file: '') s)))
     else bindP (Some (ramfs_write ff 0 bs s)) (\<lambda>(_, s).
          bindP (Some (ramfs_close ff s)) (\<lambda>s. Some (Inr (True, s)))))"

partial_function (option) initramfs_loop :: "memory \<Rightarrow> nat \<Rightarrow> nat \<Rightarrow> fs \<Rightarrow> fs res option" where
  "initramfs_loop m trailer ptr s =
     (let h = rd_header m ptr; is_dir = S_ISDIR (c_mode h); filesize = unat (c_filesize h); contents = contents_at ptr (c_namesize h)
      in if str_compare m (ptr + CPIO_HEADER_SIZE) trailer (length END_OF_ARCHIVE) = 0
         then Some (Inr (say (replicate 62 0x2d @ newline) (say (bytes ''Initramfs is loaded'' @ newline) s)))
         else Option.bind (cstring m (ptr + CPIO_HEADER_SIZE)) (\<lambda>filename.
           bindP (ramfs_create_file filename is_dir s) (\<lambda>(f, s).
             if f = 0 then Some (Inr (error_message (bytes ''ERROR: Create '') filename (bytes '' failed.'' @ newline) s))
             else if 0 < filesize \<and> is_dir
             then Some (Inr (say ([0x22] @ bytes '' is not empty'') (say filename (say (quoted ''ERROR: directory '') s))))
             else bindP (if \<not> is_dir then load_file filename f (map m [contents..<contents + filesize]) s else Some (Inr (True, s)))
               (\<lambda>(go, s). if go then initramfs_loop m trailer (next_at ptr h) s else Some (Inr s)))))"

definition initramfs :: "memory \<Rightarrow> nat \<Rightarrow> nat \<Rightarrow> fs \<Rightarrow> fs res option" where
  "initramfs m trailer initrd_begin s = initramfs_loop m trailer initrd_begin s"

text \<open>The listing of an archive for debugging compares with the same constant.\<close>

partial_function (option) write_cpio_entities :: "memory \<Rightarrow> nat \<Rightarrow> nat \<Rightarrow> message list \<Rightarrow> message list option" where
  "write_cpio_entities m trailer ptr out =
     (let h = rd_header m ptr; filename = ptr + CPIO_HEADER_SIZE;
          out = out @ [Text (map m [filename..<filename + unat (c_namesize h)]), Text (newline @ bytes ''File begins'' @ newline),
            Text (bytes ''CPIO's header: ''), Text (map m [ptr..<ptr + CPIO_HEADER_SIZE]), Text (newline @ bytes ''File ends'' @ newline)]
      in if str_compare m filename trailer 10 = 0 then Some (out @ [Text (bytes ''It's over'')])
         else write_cpio_entities m trailer (next_at ptr h) out)"

section \<open>Finding the archive\<close>

record initrd =
  initrd_begin :: nat
  initrd_end :: nat

text \<open>\<open>mod_end\<close> is an address already; the code adds it to the begin.\<close>

fun find_initrd_loop :: "memory \<Rightarrow> nat \<Rightarrow> nat \<Rightarrow> nat \<Rightarrow> initrd \<times> message list \<Rightarrow> initrd \<times> message list" where
  "find_initrd_loop m magic modules 0 st = st"
| "find_initrd_loop m magic modules (Suc n) (i, out) =
     (let h = rd_module m modules; b = unat (mod_start h)
      in find_initrd_loop m magic (modules + 16) n
           (if str_compare m b magic 6 = 0
            then (\<lparr>initrd_begin = b, initrd_end = b + unat (mod_end h)\<rparr>, out @ [Text (bytes ''LOG: initramfs module found!'' @ newline)])
            else (i, out)))"

definition find_initrd :: "memory \<Rightarrow> nat \<Rightarrow> nat \<Rightarrow> initrd \<times> message list \<Rightarrow> initrd \<times> message list" where
  "find_initrd m magic mboot_info st =
     (let b = rd_multiboot_info m mboot_info;
          st = (if mb_flags b AND push_bit 3 1 = 0 then (fst st, snd st @ [Text (bytes ''multiboot header's flag[3] not set'')]) else st)
      in find_initrd_loop m magic (unat (mods_addr b)) (unat (mods_count b)) st)"

end
