(* ===== verification/Ramfs_Tree.thy ===== *)
theory Ramfs_Tree
  imports Ramfs "HOL-Library.Multiset"
begin

text \<open>
  The file system as a tree: what a linked structure of entries and lists represents, and what search,
  insertion and listing do to the tree.
\<close>

section \<open>Trees\<close>

datatype ftree = FNode (f_addr: nat) (f_list: nat) (f_name: name) (f_isd: bool) (f_data: "u8 list option") (f_busy: bool)
  (f_kids: "ftree list")

text \<open>The nodes of a forest in the order of listing.\<close>

fun nodes :: "ftree list \<Rightarrow> ftree list" where
  "nodes [] = []"
| "nodes (FNode a l n d c b ks # ts) = FNode a l n d c b ks # nodes ks @ nodes ts"

abbreviation addrs :: "ftree list \<Rightarrow> nat list" where "addrs ts \<equiv> map f_addr (nodes ts)"
abbreviation flist_addrs :: "ftree list \<Rightarrow> nat list" where "flist_addrs ts \<equiv> map f_list (nodes ts)"
abbreviation names :: "ftree list \<Rightarrow> name list" where "names ts \<equiv> map f_name (nodes ts)"

definition entry_is :: "fentry \<Rightarrow> ftree \<Rightarrow> bool" where
  "entry_is e t \<longleftrightarrow> fname e = f_name t \<and> children e = f_list t \<and> is_dir e = f_isd t \<and> contents e = f_data t \<and>
     fsize e = (case f_data t of None \<Rightarrow> 0 | Some c \<Rightarrow> length c) \<and> locked e = f_busy t"

fun forest_at :: "fs \<Rightarrow> nat \<Rightarrow> ftree list \<Rightarrow> bool" where
  "forest_at s it [] = (it = 0)"
| "forest_at s it (FNode a l n d c b ks # ts) =
     (it = a \<and> a \<noteq> 0 \<and> l \<noteq> 0 \<and>
      (\<exists>e k. entries s a = Some e \<and> entry_is e (FNode a l n d c b ks) \<and> flists s l = Some k \<and>
         forest_at s k ks \<and> forest_at s (fnext e) ts))"

lemma nodes_top: "set ts \<subseteq> set (nodes ts)"
  by (induction ts rule: nodes.induct) auto

lemma forest_cong:
  "\<forall>t\<in>set (nodes ts). entries s' (f_addr t) = entries s (f_addr t) \<and> flists s' (f_list t) = flists s (f_list t) \<Longrightarrow>
   forest_at s it ts \<Longrightarrow> forest_at s' it ts"
proof (induction ts arbitrary: it rule: nodes.induct)
  case (2 a l n d c b ks ts)
  then show ?case by (simp add: ball_Un) blast
qed simp

section \<open>Names in the code\<close>

lemma str_compare_same:
  "(\<forall>i<n. m (a + i) = m (b + i)) \<Longrightarrow> str_compare m a b n = 0"
proof (induction n arbitrary: a b)
  case (Suc n)
  have "m (Suc a + i) = m (Suc b + i)" if "i < n" for i using Suc.prems [rule_format, of "Suc i"] that by simp
  moreover have "m a = m b" using Suc.prems [rule_format, of 0] by simp
  ultimately show ?case using Suc.IH by simp
qed simp

lemma str_compare_0:
  "str_compare m a b n = 0 \<Longrightarrow> \<forall>i<n. m (a + i) = m (b + i)"
proof (induction n arbitrary: a b)
  case (Suc n)
  have "sint (m a) = sint (m b)" using Suc.prems by (simp add: word_sless_alt split: if_splits)
  then have e: "m a = m b" by (rule signed_word_eqI)
  then have "\<forall>i<n. m (Suc a + i) = m (Suc b + i)" using Suc.IH [of "Suc a" "Suc b"] Suc.prems by simp
  then show ?case using e by (auto simp: less_Suc_eq_0_disj)
qed simp

lemma fentry_equals_iff [simp]: "fentry_equals_filename e n \<longleftrightarrow> fname e = n"
proof
  assume f: "fentry_equals_filename e n"
  then have l: "length (fname e) = length n" by (simp add: fentry_equals_filename_def)
  have "str_compare (\<lambda>i. (fname e @ n) ! i) 0 (length (fname e)) (length n) = 0"
    using f unfolding fentry_equals_filename_def by blast
  note str_compare_0 [OF this]
  then show "fname e = n" using l by (intro nth_equalityI) (auto simp: nth_append)
next
  assume n: "fname e = n"
  have "str_compare (\<lambda>i. (n @ n) ! i) 0 (length n) (length n) = 0"
    by (rule str_compare_same) (simp add: nth_append)
  then show "fentry_equals_filename e n" by (simp add: fentry_equals_filename_def n)
qed

section \<open>Search\<close>

definition index :: "ftree list \<Rightarrow> (name \<times> nat) list" where
  "index ts = map (\<lambda>t. (f_name t, f_addr t)) (nodes ts)"

abbreviation ptr_of :: "nat option \<Rightarrow> nat" where "ptr_of p \<equiv> (case p of None \<Rightarrow> 0 | Some a \<Rightarrow> a)"

lemma index_simps [simp]:
  "index [] = []"
  "index (FNode a l n d c b ks # ts) = (n, a) # index ks @ index ts"
  by (simp_all add: index_def)

lemma fst_index: "map fst (index ts) = names ts"
  by (simp add: index_def)

lemma addr_nonzero: "forest_at s it ts \<Longrightarrow> t \<in> set (nodes ts) \<Longrightarrow> f_addr t \<noteq> 0 \<and> f_list t \<noteq> 0"
  by (induction ts arbitrary: it rule: nodes.induct) auto

lemma find_loop_spec:
  "forest_at s it ts \<Longrightarrow> find_loop s n it = Some (Inr (ptr_of (map_of (map (\<lambda>t. (f_name t, f_addr t)) ts) n)))"
proof (induction ts arbitrary: it)
  case Nil
  then show ?case by (subst find_loop.simps) simp
next
  case (Cons t ts)
  then show ?case
    by (subst find_loop.simps; cases t) (auto simp: fe_def entry_is_def)
qed

lemma find_with_name_spec:
  "forest_at s b ts \<Longrightarrow> flists s l = Some b \<Longrightarrow> l \<noteq> 0 \<Longrightarrow>
   fentry_list_find_with_name s l n = Some (Inr (ptr_of (map_of (map (\<lambda>t. (f_name t, f_addr t)) ts) n)))"
  by (simp add: fentry_list_find_with_name_def list_begin_def find_loop_spec)

lemma direct_index:
  assumes "distinct (names ts)" "map_of (map (\<lambda>t. (f_name t, f_addr t)) ts) n = Some a"
  shows "map_of (index ts) n = Some a"
proof -
  obtain t where "t \<in> set ts" "f_name t = n" "f_addr t = a" using map_of_SomeD [OF assms(2)] by auto
  then have "(n, a) \<in> set (index ts)" using nodes_top by (force simp: index_def)
  then show ?thesis using assms(1) by (simp add: fst_index)
qed

lemma find_children_spec:
  "forest_at s it ts \<Longrightarrow> distinct (names ts) \<Longrightarrow> find_children s n it = Some (Inr (ptr_of (map_of (index ts) n)))"
proof (induction ts arbitrary: it rule: nodes.induct)
  case 1
  then show ?case by (subst find_children.simps) simp
next
  case (2 a l m d c b ks ts)
  obtain e k where e: "it = a" "a \<noteq> 0" "l \<noteq> 0" "entries s a = Some e" "fname e = m" "children e = l" "flists s l = Some k"
    "forest_at s k ks" "forest_at s (fnext e) ts" using "2.prems"(1) by (auto simp: entry_is_def)
  have dk: "distinct (names ks)" and dt: "distinct (names ts)" and dd: "m \<notin> set (names ks)" "set (names ks) \<inter> set (names ts) = {}"
    using "2.prems"(2) by auto
  have k: "find_children s n k = Some (Inr (ptr_of (map_of (index ks) n)))" by (rule "2.IH"(1) [OF e(8) dk])
  have t: "find_children s n (fnext e) = Some (Inr (ptr_of (map_of (index ts) n)))" by (rule "2.IH"(2) [OF e(9) dt])
  note q = find_with_name_spec [OF e(8,7,3), of n]
  have nz: "x \<noteq> 0" if "map_of (index us) n = Some x" "forest_at s j us" for us x j
    using map_of_SomeD [OF that(1)] addr_nonzero [OF that(2)] by (auto simp: index_def)
  show ?case
  proof (cases "map_of (map (\<lambda>t. (f_name t, f_addr t)) ks) n")
    case (Some x)
    have "map_of (index ks) n = Some x" by (rule direct_index [OF dk Some])
    then show ?thesis using e q Some nz [OF _ e(8)] dd
      by (subst find_children.simps) (auto simp: fe_def map_add_def dest: map_of_SomeD split: option.splits simp: fst_index [symmetric])
  next
    case None
    then show ?thesis using e q k t nz [OF _ e(8)] dd
      by (subst find_children.simps) (auto simp: fe_def list_begin_def map_add_def split: option.splits)
  qed
qed

section \<open>Insertion\<close>

text \<open>A new last child of the node at address \<open>p\<close>.\<close>

fun add_child :: "nat \<Rightarrow> ftree \<Rightarrow> ftree list \<Rightarrow> ftree list" where
  "add_child p u [] = []"
| "add_child p u (FNode a l n d c b ks # ts) =
     FNode a l n d c b (if a = p then ks @ [u] else add_child p u ks) # add_child p u ts"

lemma nodes_append [simp]: "nodes (ts @ us) = nodes ts @ nodes us"
  by (induction ts rule: nodes.induct) auto

lemma add_child_other: "p \<notin> set (addrs ts) \<Longrightarrow> add_child p u ts = ts"
  by (induction p u ts rule: add_child.induct) auto

lemma index_append [simp]: "index (ts @ us) = index ts @ index us"
  by (simp add: index_def)

lemma add_child_mset:
  "(\<And>a l n d c b ks ks'. g (FNode a l n d c b ks) = g (FNode a l n d c b ks')) \<Longrightarrow>
   distinct (addrs ts) \<Longrightarrow> p \<in> set (addrs ts) \<Longrightarrow> nodes [u] = [u] \<Longrightarrow>
   mset (map g (nodes (add_child p u ts))) = add_mset (g u) (mset (map g (nodes ts)))"
proof (induction p u ts rule: add_child.induct)
  case (2 p u a l n d c b ks ts)
  have g: "g (FNode a l n d c b ks') = g (FNode a l n d c b ks)" for ks' by (rule "2.prems"(1))
  consider "p = a" | "p \<noteq> a" "p \<in> set (addrs ks)" | "p \<noteq> a" "p \<in> set (addrs ts)" using "2.prems"(3) by auto
  then show ?case
  proof cases
    case 1
    then show ?thesis using "2.prems" g [of "ks @ [u]"] by (simp add: add_child_other)
  next
    case 2
    then have "p \<notin> set (addrs ts)" using "2.prems"(2) by auto
    then show ?thesis using "2.IH"(1) "2.prems" 2 g [of "add_child p u ks"] by (simp add: add_child_other)
  next
    case 3
    then have "p \<notin> set (addrs ks)" using "2.prems"(2) by auto
    then show ?thesis using "2.IH"(2) "2.prems" 3 by (simp add: add_child_other)
  qed
qed simp

lemma add_child_sets:
  assumes "distinct (addrs ts)" "p \<in> set (addrs ts)" "nodes [u] = [u]"
  shows "mset (addrs (add_child p u ts)) = add_mset (f_addr u) (mset (addrs ts))"
    "mset (flist_addrs (add_child p u ts)) = add_mset (f_list u) (mset (flist_addrs ts))"
    "mset (names (add_child p u ts)) = add_mset (f_name u) (mset (names ts))"
  by (rule add_child_mset [OF _ assms]; simp)+

lemma node_fresh: "f_addr t \<notin> set (addrs us) \<Longrightarrow> x \<in> set (nodes us) \<Longrightarrow> t \<noteq> x"
  by auto

text \<open>The children of the node at \<open>p\<close>.\<close>

definition the_node :: "nat \<Rightarrow> ftree list \<Rightarrow> ftree option" where
  "the_node p ts = find (\<lambda>t. f_addr t = p) (nodes ts)"

text \<open>Appending to the children: the last one gets a successor, or the list its first entry.\<close>

lemma forest_append:
  assumes "forest_at s k ts" "ts \<noteq> []" "distinct (addrs ts)" "forest_at s' (f_addr u) [u]"
    "\<And>t. t \<in> set (nodes ts) \<Longrightarrow> t \<noteq> last ts \<Longrightarrow> entries s' (f_addr t) = entries s (f_addr t)"
    "entries s' (f_addr (last ts)) = map_option (fnext_update (\<lambda>_. f_addr u)) (entries s (f_addr (last ts)))"
    "\<And>t. t \<in> set (nodes ts) \<Longrightarrow> flists s' (f_list t) = flists s (f_list t)"
  shows "forest_at s' k (ts @ [u])"
  using assms
proof (induction ts arbitrary: k)
  case (Cons t ts)
  obtain a l n d c b ks where t: "t = FNode a l n d c b ks" by (cases t)
  obtain e j where e: "k = a" "a \<noteq> 0" "l \<noteq> 0" "entries s a = Some e" "entry_is e t" "flists s l = Some j"
    "forest_at s j ks" "forest_at s (fnext e) ts" using Cons.prems(1) t by auto
  have l: "flists s' l = Some j" using Cons.prems(7) [of t] e(6) t by simp
  have ni: "last (t # ts) \<notin> set (nodes ks)"
  proof
    assume i: "last (t # ts) \<in> set (nodes ks)"
    then have "f_addr (last (t # ts)) \<in> set (addrs ks)" by simp
    moreover have "last (t # ts) = t \<or> last (t # ts) \<in> set (nodes ts)"
      using nodes_top [of ts] by (auto dest: last_in_set)
    ultimately show False using Cons.prems(3) t by auto
  qed
  have ks: "forest_at s' j ks"
  proof (rule forest_cong [OF _ e(7)])
    show "\<forall>x\<in>set (nodes ks). entries s' (f_addr x) = entries s (f_addr x) \<and> flists s' (f_list x) = flists s (f_list x)"
      using Cons.prems(5,7) ni t by (metis Un_iff list.set_intros(2) nodes.simps(2) set_append)
  qed
  show ?case
  proof (cases "ts = []")
    case True
    then have "entries s' a = Some (e\<lparr>fnext := f_addr u\<rparr>)" using Cons.prems(6) e(4) t by simp
    then show ?thesis using True t e l ks Cons.prems(4) by (simp add: entry_is_def)
  next
    case False
    then have "last ts \<in> set (nodes ts)" using nodes_top by (auto dest: last_in_set)
    then have "t \<noteq> last ts" by (rule node_fresh [rotated]) (use Cons.prems(3) t in simp)
    then have a: "entries s' a = Some e" using Cons.prems(5) [of t] False e(4) t by simp
    have "forest_at s' (fnext e) (ts @ [u])"
      by (rule Cons.IH) (use Cons.prems False e(8) t in auto)
    then show ?thesis using t e l ks a by (simp add: entry_is_def)
  qed
qed simp

lemma the_node_Some: "the_node p ts = Some t \<Longrightarrow> t \<in> set (nodes ts) \<and> f_addr t = p"
  by (auto simp: the_node_def find_Some_iff)

lemma the_node_ex: "p \<in> set (addrs ts) \<Longrightarrow> \<exists>t. the_node p ts = Some t"
  by (cases "the_node p ts") (auto simp: the_node_def find_None_iff)

lemma the_node_None: "the_node p ts = None \<longleftrightarrow> p \<notin> set (addrs ts)"
  by (auto simp: the_node_def find_None_iff)

lemma find_append: "find P (xs @ ys) = (case find P xs of None \<Rightarrow> find P ys | Some x \<Rightarrow> Some x)"
  by (induction xs) auto

lemma the_node_Cons:
  "the_node p (FNode a l n d c b ks # ts) = (if a = p then Some (FNode a l n d c b ks)
     else case the_node p ks of None \<Rightarrow> the_node p ts | Some t \<Rightarrow> Some t)"
  by (simp add: the_node_def find_append split: option.split)

lemma sub_nodes: "t \<in> set (nodes ts) \<Longrightarrow> set (nodes (f_kids t)) \<subseteq> set (nodes ts)"
  by (induction ts rule: nodes.induct) auto

lemma forest_add_child:
  assumes "forest_at s it ts" "distinct (addrs ts)" "distinct (flist_addrs ts)" "the_node p ts = Some t" "forest_at s' (f_addr u) [u]"
    "\<And>x. x \<in> set (nodes ts) \<Longrightarrow> f_kids t = [] \<or> x \<noteq> last (f_kids t) \<Longrightarrow> entries s' (f_addr x) = entries s (f_addr x)"
    "f_kids t \<noteq> [] \<Longrightarrow> entries s' (f_addr (last (f_kids t))) =
       map_option (fnext_update (\<lambda>_. f_addr u)) (entries s (f_addr (last (f_kids t))))"
    "\<And>x. x \<in> set (nodes ts) \<Longrightarrow> f_kids t \<noteq> [] \<or> x \<noteq> t \<Longrightarrow> flists s' (f_list x) = flists s (f_list x)"
    "f_kids t = [] \<Longrightarrow> flists s' (f_list t) = Some (f_addr u)"
  shows "forest_at s' it (add_child p u ts)"
  using assms
proof (induction p u ts arbitrary: it rule: add_child.induct)
  case (1 p u)
  then show ?case by (simp add: the_node_def)
next
  case (2 p u a l n d c b ks ts)
  let ?t = "FNode a l n d c b ks"
  obtain e k where e: "it = a" "a \<noteq> 0" "l \<noteq> 0" "entries s a = Some e" "entry_is e ?t" "flists s l = Some k"
    "forest_at s k ks" "forest_at s (fnext e) ts" using "2.prems"(1) by auto
  note P = "2.prems"
  have tin: "t \<in> set (nodes (?t # ts))" "f_addr t = p" using the_node_Some [OF P(4)] by simp_all
  have da: "a \<notin> set (addrs ks)" "a \<notin> set (addrs ts)" "set (addrs ks) \<inter> set (addrs ts) = {}" using P(2) by auto
  have dl: "l \<notin> set (flist_addrs ks)" "l \<notin> set (flist_addrs ts)" "set (flist_addrs ks) \<inter> set (flist_addrs ts) = {}" using P(3) by auto
  have last_in: "f_kids t \<noteq> [] \<Longrightarrow> last (f_kids t) \<in> set (nodes (f_kids t))" using nodes_top by (auto dest: last_in_set)
  have keep: "forest_at s' j us" if "forest_at s j us" "set (nodes us) \<subseteq> set (nodes (?t # ts))" "t \<notin> set (nodes us)"
    "f_kids t = [] \<or> last (f_kids t) \<notin> set (nodes us)" for j us
    by (rule forest_cong [OF _ that(1)]) (use that(2-4) P(6,8) in blast)
  consider "a = p" | "a \<noteq> p" "p \<in> set (addrs ks)" | "a \<noteq> p" "p \<in> set (addrs ts)" using tin by fastforce
  then show ?case
  proof cases
    case 1
    then have tt: "t = ?t" using P(4) by (simp add: the_node_def)
    have fr: "t \<notin> set (nodes us)" if "a \<notin> set (addrs us)" for us using that tin(2) 1 by auto
    have lt: "ks = [] \<or> last ks \<notin> set (nodes ts)" using last_in da(3) tt by fastforce
    have ts: "forest_at s' (fnext e) ts" by (rule keep [OF e(8)]) (use fr [OF da(2)] lt tt in auto)
    have a: "entries s' a = Some e"
    proof (cases "ks = []")
      case False
      then have "?t \<noteq> last ks" by (intro node_fresh [of ?t ks]) (use da(1) last_in tt in simp_all)
      then show ?thesis using P(6) [of ?t] e(4) tt by simp
    qed (use P(6) [of ?t] e(4) tt in simp)
    have "\<exists>k'. flists s' l = Some k' \<and> forest_at s' k' (ks @ [u])"
    proof (cases "ks = []")
      case True
      then show ?thesis using P(5,9) tt by simp
    next
      case False
      have "forest_at s' k (ks @ [u])"
      proof (rule forest_append [OF e(7) False _ P(5)])
        show "distinct (addrs ks)" using P(2) by simp
        show "entries s' (f_addr x) = entries s (f_addr x)" if "x \<in> set (nodes ks)" "x \<noteq> last ks" for x
          using P(6) [of x] that tt by simp
        show "entries s' (f_addr (last ks)) = map_option (fnext_update (\<lambda>_. f_addr u)) (entries s (f_addr (last ks)))"
          using P(7) False tt by simp
        show "flists s' (f_list x) = flists s (f_list x)" if "x \<in> set (nodes ks)" for x
          using P(8) [of x] that tt False by simp
      qed
      then show ?thesis using P(8) [of ?t] e(6) False tt by simp
    qed
    then obtain k' where "flists s' l = Some k'" "forest_at s' k' (ks @ [u])" by blast
    moreover have "add_child p u ts = ts" by (rule add_child_other) (use 1 da in simp)
    ultimately show ?thesis using e a ts 1 by (auto simp: entry_is_def)
  next
    case 2
    have pt: "p \<notin> set (addrs ts)" using 2 da by auto
    have n: "the_node p ks = Some t" using P(4) 2 the_node_ex [OF 2(2)] by (auto simp: the_node_Cons)
    have tk: "t \<in> set (nodes ks)" using the_node_Some [OF n] by simp
    have lk: "f_kids t \<noteq> [] \<Longrightarrow> last (f_kids t) \<in> set (nodes ks)" using last_in sub_nodes [OF tk] by blast
    have ks: "forest_at s' k (add_child p u ks)"
      by (rule "2.IH"(1) [OF 2(1) e(7) _ _ n P(5)]) (use P in auto)
    have ts: "forest_at s' (fnext e) ts"
      by (rule keep [OF e(8)]) (use tk lk da(3) in \<open>fastforce+\<close>)
    have "?t \<noteq> t" "f_kids t = [] \<or> ?t \<noteq> last (f_kids t)"
      using node_fresh [of ?t ks t] node_fresh [of ?t ks "last (f_kids t)"] tk lk da(1) by auto
    then have "entries s' a = Some e" "flists s' l = Some k" using P(6,8) [of ?t] e(4,6) by auto
    then show ?thesis using e ks ts 2 add_child_other [OF pt] by (auto simp: entry_is_def)
  next
    case 3
    have pk: "p \<notin> set (addrs ks)" using 3 da by auto
    have n: "the_node p ts = Some t" using P(4) 3 the_node_None [of p ks] pk by (auto simp: the_node_Cons)
    have tk: "t \<in> set (nodes ts)" using the_node_Some [OF n] by simp
    have lk: "f_kids t \<noteq> [] \<Longrightarrow> last (f_kids t) \<in> set (nodes ts)" using last_in sub_nodes [OF tk] by blast
    have ts: "forest_at s' (fnext e) (add_child p u ts)"
      by (rule "2.IH"(2) [OF e(8) _ _ n P(5)]) (use P in auto)
    have ks: "forest_at s' k ks"
      by (rule keep [OF e(7)]) (use tk lk da(3) in \<open>fastforce+\<close>)
    have "?t \<noteq> t" "f_kids t = [] \<or> ?t \<noteq> last (f_kids t)"
      using node_fresh [of ?t ts t] node_fresh [of ?t ts "last (f_kids t)"] tk lk da(2) by auto
    then have "entries s' a = Some e" "flists s' l = Some k" using P(6,8) [of ?t] e(4,6) by auto
    then show ?thesis using e ks ts 3 add_child_other [OF pk] by (auto simp: entry_is_def)
  qed
qed

end
