(* ===== verification/Ramfs_Ops.thy ===== *)
theory Ramfs_Ops
  imports Ramfs_Tree
begin

text \<open>
  The operations of the file system on the tree they work on: \<open>fs_rel\<close> relates a state to a tree with
  distinct names, and to none while there is no root.
\<close>

section \<open>The relation\<close>

abbreviation tree_of :: "ftree option \<Rightarrow> ftree list" where
  "tree_of r \<equiv> (case r of None \<Rightarrow> [] | Some t \<Rightarrow> [t])"

definition fs_rel :: "fs \<Rightarrow> ftree option \<Rightarrow> bool" where
  "fs_rel s r \<longleftrightarrow> forest_at s (root s) (tree_of r) \<and> distinct (avail s) \<and> distinct (addrs (tree_of r)) \<and>
     distinct (flist_addrs (tree_of r)) \<and> distinct (names (tree_of r)) \<and>
     (set (addrs (tree_of r)) \<union> set (flist_addrs (tree_of r))) \<inter> set (avail s) = {}"

definition trim :: "name \<Rightarrow> name" where "trim n = (if last n = 0x2f then butlast n else n)"

definition enough :: "nat \<Rightarrow> fs \<Rightarrow> bool" where
  "enough k s \<longleftrightarrow> k \<le> length (avail s) \<and> 0 \<notin> set (take k (avail s))"

lemma enough_Suc: "enough (Suc k) s \<longleftrightarrow> (\<exists>a as. avail s = a # as \<and> a \<noteq> 0 \<and> enough k (s\<lparr>avail := as\<rparr>))"
  by (cases "avail s") (auto simp: enough_def)

lemma enough_new: "enough (Suc k) s \<Longrightarrow> new_block s = Inr (hd (avail s), s\<lparr>avail := tl (avail s)\<rparr>)"
  by (auto simp: enough_Suc new_block_def)

lemma enough_mono: "enough k s \<Longrightarrow> j \<le> k \<Longrightarrow> enough j s"
  unfolding enough_def by (auto dest: set_take_subset_set_take [THEN subsetD, rotated])

lemma trim_filename_spec:
  "n \<noteq> [] \<Longrightarrow> enough (Suc k) s \<Longrightarrow> trim_filename (Some n) s = Inr (trim n, s\<lparr>avail := tl (avail s)\<rparr>)"
  by (simp add: trim_filename_def enough_new trim_def)

lemma fs_rel_avail: "fs_rel s r \<Longrightarrow> fs_rel (s\<lparr>avail := tl (avail s)\<rparr>) r"
proof -
  assume r: "fs_rel s r"
  have "set (tl (avail s)) \<subseteq> set (avail s)" by (cases "avail s") auto
  moreover have "forest_at (s\<lparr>avail := tl (avail s)\<rparr>) (root s) (tree_of r)"
    by (rule forest_cong [of _ _ s]) (use r in \<open>simp_all add: fs_rel_def\<close>)
  ultimately show ?thesis using r by (auto simp: fs_rel_def distinct_tl)
qed

lemma fs_rel_log: "fs_rel (s\<lparr>log := m\<rparr>) r = fs_rel s r"
proof -
  have "forest_at (s\<lparr>log := m\<rparr>) it ts = forest_at s it ts" for it ts
    using forest_cong [of ts s "s\<lparr>log := m\<rparr>"] forest_cong [of ts "s\<lparr>log := m\<rparr>" s] by auto
  then show ?thesis by (simp add: fs_rel_def)
qed

lemma fs_rel_says [simp]:
  "fs_rel (say m s) r = fs_rel s r" "fs_rel (error_message x y z s) r = fs_rel s r" "fs_rel (say_hex i s) r = fs_rel s r"
  by (simp_all add: say_def say_hex_def error_message_def fs_rel_log)

lemma says_fields [simp]:
  "avail (say m s) = avail s" "avail (error_message x y z s) = avail s" "root (say m s) = root s" "root (error_message x y z s) = root s"
  by (simp_all add: say_def error_message_def)

lemma node_at:
  "forest_at s it ts \<Longrightarrow> x \<in> set (nodes ts) \<Longrightarrow>
   \<exists>e k. entries s (f_addr x) = Some e \<and> entry_is e x \<and> flists s (f_list x) = Some k \<and> forest_at s k (f_kids x) \<and>
     f_addr x \<noteq> 0 \<and> f_list x \<noteq> 0"
  by (induction ts arbitrary: it rule: nodes.induct) auto

lemma not_own_descendant: "distinct (addrs ts) \<Longrightarrow> x \<in> set (nodes ts) \<Longrightarrow> f_addr x \<notin> set (addrs (f_kids x)) \<and> distinct (addrs (f_kids x))"
  by (induction ts rule: nodes.induct) auto

section \<open>Finding\<close>

lemma ramfs_find_spec:
  assumes "fs_rel s r" "n \<noteq> []" "r \<noteq> None \<longrightarrow> enough 1 s"
  shows "ramfs_find (Some n) s = Some (Inr (ptr_of (map_of (index (tree_of r)) (trim n)),
    if r = None then s else s\<lparr>avail := tl (avail s)\<rparr>))"
proof (cases r)
  case None
  then show ?thesis using assms(1) by (simp add: ramfs_find_def fs_rel_def)
next
  case (Some t)
  obtain a l m d c b ks where t: "t = FNode a l m d c b ks" by (cases t)
  let ?s = "s\<lparr>avail := tl (avail s)\<rparr>"
  have rel: "fs_rel ?s r" by (rule fs_rel_avail [OF assms(1)])
  then obtain e k where e: "root s = a" "a \<noteq> 0" "l \<noteq> 0" "entries s a = Some e" "entry_is e t" "flists s l = Some k"
    "forest_at ?s k ks" "distinct (names [t])" using Some t by (auto simp: fs_rel_def)
  have tr: "trim_filename (Some n) s = Inr (trim n, ?s)" using trim_filename_spec [OF assms(2)] assms(3) Some by simp
  have dk: "distinct (names ks)" using e(8) t by simp
  have q: "fentry_list_find_with_name ?s l (trim n) = Some (Inr (ptr_of (map_of (map (\<lambda>t. (f_name t, f_addr t)) ks) (trim n))))"
    by (rule find_with_name_spec [OF e(7)]) (use e in simp_all)
  have c: "find_children ?s (trim n) k = Some (Inr (ptr_of (map_of (index ks) (trim n))))" by (rule find_children_spec [OF e(7) dk])
  have "ramfs_find_recursive ?s a (trim n) = Some (Inr (ptr_of (map_of (index [t]) (trim n))))"
  proof (cases "map_of (map (\<lambda>t. (f_name t, f_addr t)) ks) (trim n)")
    case None
    then show ?thesis using e q c t by (auto simp: ramfs_find_recursive_def fe_def list_begin_def entry_is_def)
  next
    case s: (Some x)
    have m: "map_of (index ks) (trim n) = Some x" by (rule direct_index [OF dk s])
    moreover have "x \<noteq> 0" using map_of_SomeD [OF m] addr_nonzero [OF e(7)] by (auto simp: index_def)
    ultimately show ?thesis using e q c t s by (auto simp: ramfs_find_recursive_def fe_def entry_is_def)
  qed
  then show ?thesis using e tr t Some by (auto simp: ramfs_find_def fe_def entry_is_def)
qed

section \<open>Directory names\<close>

lemma slash_fold:
  "foldl (\<lambda>index i. if (xs :: name) ! i = 0x2f then i else index) k [0..<n] =
   (if \<exists>i<n. xs ! i = 0x2f then Max {i. i < n \<and> xs ! i = 0x2f} else k)"
proof (induction n)
  case (Suc n)
  show ?case
  proof (cases "xs ! n = 0x2f")
    case True
    have "Max {i. i < Suc n \<and> xs ! i = 0x2f} = n" by (rule Max_eqI) (use True in auto)
    then show ?thesis using True by auto
  next
    case False
    then have "{i. i < Suc n \<and> xs ! i = 0x2f} = {i. i < n \<and> xs ! i = 0x2f}" "(\<exists>i<Suc n. xs ! i = 0x2f) = (\<exists>i<n. xs ! i = 0x2f)"
      by (auto simp: less_Suc_eq)
    then show ?thesis using Suc False by auto
  qed
qed simp

lemma slash_index_none: "0x2f \<notin> set n \<Longrightarrow> slash_index n = 257"
  unfolding slash_index_def slash_fold RAMFS_MAX_FILENAME_SIZE_def by (auto simp: in_set_conv_nth)

lemma slash_index_last:
  assumes "0x2f \<notin> set b"
  shows "slash_index (d @ 0x2f # b) = length d"
proof -
  have "Max {i. i < length (d @ 0x2f # b) \<and> (d @ 0x2f # b) ! i = 0x2f} = length d"
  proof (rule Max_eqI)
    fix i assume i: "i \<in> {i. i < length (d @ 0x2f # b) \<and> (d @ 0x2f # b) ! i = 0x2f}"
    show "i \<le> length d"
    proof (rule ccontr)
      assume "\<not> i \<le> length d"
      then obtain j where j: "i = length d + Suc j" by (metis add_Suc_right less_imp_Suc_add not_le)
      then have "j < length b" "b ! j = 0x2f" using i by (auto simp: nth_append)
      then show False using assms nth_mem by metis
    qed
  qed auto
  moreover have "\<exists>i<length (d @ 0x2f # b). (d @ 0x2f # b) ! i = 0x2f" by (rule exI [of _ "length d"]) simp
  ultimately show ?thesis unfolding slash_index_def slash_fold by simp
qed

lemma trim_length: "length (trim n) \<le> length n"
  by (simp add: trim_def)

lemma get_directory_name_spec:
  assumes "n \<noteq> []" "length n \<le> 256" "enough 2 s" "trim n = d @ 0x2f # b" "0x2f \<notin> set b"
  shows "get_directory_name (Some n) s = Inr (Some d, s\<lparr>avail := drop 2 (avail s)\<rparr>)"
proof -
  have i: "slash_index (trim n) = length d" using slash_index_last [OF assms(5)] assms(4) by simp
  have "length d < 256" using trim_length [of n] assms(2,4) by simp
  moreover obtain x y zs where "avail s = x # y # zs" "x \<noteq> 0" "y \<noteq> 0"
    using assms(3) by (auto simp: numeral_2_eq_2 enough_Suc)
  ultimately show ?thesis
    using assms(1,4) i by (simp add: get_directory_name_def trim_filename_def trim_def new_block_def RAMFS_MAX_FILENAME_SIZE_def)
qed

section \<open>Creating an entry\<close>

lemma add_loop_spec:
  "forest_at s it ts \<Longrightarrow> n \<notin> f_name ` set ts \<Longrightarrow>
   add_loop s n it e = Some (Inr (Some (if ts = [] then e else f_addr (last ts))))"
proof (induction ts arbitrary: it e)
  case Nil
  then show ?case by (subst add_loop.simps) simp
next
  case (Cons t ts)
  then show ?case by (subst add_loop.simps; cases t) (auto simp: fe_def entry_is_def)
qed

definition insert_at :: "nat \<Rightarrow> ftree \<Rightarrow> ftree \<Rightarrow> ftree" where
  "insert_at p u t = hd (add_child p u [t])"

lemma insert_at: "add_child p u [t] = [insert_at p u t]"
  by (cases t) (simp add: insert_at_def)

definition leaf :: "nat \<Rightarrow> nat \<Rightarrow> name \<Rightarrow> bool \<Rightarrow> ftree" where
  "leaf a l n d = FNode a l n d None False []"

lemma fs_rel_insert:
  assumes "fs_rel s (Some t)" "the_node p [t] = Some x" "avail s = a # b # l # m # zs" "a \<noteq> 0" "l \<noteq> 0" "n \<notin> set (names [t])"
    "entries s' a = Some e" "entry_is e (leaf a l n d)" "fnext e = 0" "flists s' l = Some 0"
    "\<And>y. y \<in> set (nodes [t]) \<Longrightarrow> f_kids x = [] \<or> y \<noteq> last (f_kids x) \<Longrightarrow> entries s' (f_addr y) = entries s (f_addr y)"
    "f_kids x \<noteq> [] \<Longrightarrow> entries s' (f_addr (last (f_kids x))) = map_option (fnext_update (\<lambda>_. a)) (entries s (f_addr (last (f_kids x))))"
    "\<And>y. y \<in> set (nodes [t]) \<Longrightarrow> f_kids x \<noteq> [] \<or> y \<noteq> x \<Longrightarrow> flists s' (f_list y) = flists s (f_list y)"
    "f_kids x = [] \<Longrightarrow> flists s' (f_list x) = Some a" "root s' = root s" "avail s' = zs"
  shows "fs_rel s' (Some (insert_at p (leaf a l n d) t))"
proof -
  let ?u = "leaf a l n d"
  have u: "f_addr ?u = a" "f_list ?u = l" "f_name ?u = n" "nodes [?u] = [?u]" by (simp_all add: leaf_def)
  have p: "p \<in> set (addrs [t])" using the_node_None [of p "[t]"] assms(2) by auto
  have r: "forest_at s (root s) [t]" "distinct (addrs [t])" "distinct (flist_addrs [t])" "distinct (names [t])" "distinct (avail s)"
    "(set (addrs [t]) \<union> set (flist_addrs [t])) \<inter> set (avail s) = {}" using assms(1) by (auto simp: fs_rel_def)
  have fu: "forest_at s' (f_addr ?u) [?u]" using assms(4,5,7-10) by (simp add: leaf_def)
  have f: "forest_at s' (root s) [insert_at p ?u t]"
    unfolding insert_at [symmetric]
    by (rule forest_add_child [OF r(1-3) assms(2) fu]) (use assms(11-14) u in simp_all)
  note ms = add_child_sets [OF r(2) p u(4), unfolded insert_at]
  let ?T = "[insert_at p ?u t]"
  have na: "mset (addrs ?T) = mset (a # addrs [t])" "mset (flist_addrs ?T) = mset (l # flist_addrs [t])"
    using ms u by simp_all
  have nn: "mset (names ?T) = mset (n # names [t])" using ms u by simp
  have "distinct (a # addrs [t])" "distinct (l # flist_addrs [t])" "distinct (n # names [t])" using r assms(3,6) by auto
  then have d: "distinct (addrs ?T)" "distinct (flist_addrs ?T)" "distinct (names ?T)"
    using na nn by (metis mset_eq_imp_distinct_iff)+
  have "set (addrs ?T) = insert a (set (addrs [t]))" "set (flist_addrs ?T) = insert l (set (flist_addrs [t]))"
    using na by (metis list.simps(15) set_mset_mset)+
  then have "(set (addrs ?T) \<union> set (flist_addrs ?T)) \<inter> set zs = {}" using r(5,6) assms(3) by auto
  then show ?thesis using f d r(5) assms(3,15,16) by (simp add: fs_rel_def)
qed

lemma fe_simp: "entries s a = Some e \<Longrightarrow> a \<noteq> 0 \<Longrightarrow> fe s a = Inr e"
  by (simp add: fe_def)

lemma upd_fe_simp: "entries s a = Some e \<Longrightarrow> a \<noteq> 0 \<Longrightarrow> upd_fe a g s = Inr (s\<lparr>entries := (entries s)(a \<mapsto> g e)\<rparr>)"
  by (simp add: upd_fe_def fe_simp)

lemma fentry_init_spec:
  assumes "entries s a = Some e" "a \<noteq> 0" "avail s = l # m # zs" "l \<noteq> 0" "m \<noteq> 0"
  shows "fentry_init a d s = Inr (a, s\<lparr>avail := zs, flists := (flists s)(l \<mapsto> 0),
    entries := (entries s)(a \<mapsto> e\<lparr>fnext := 0, children := l, contents := None, fsize := 0, is_dir := d, locked := False\<rparr>)\<rparr>)"
  using assms by (simp add: fentry_init_def upd_fe_simp fentry_list_create_def new_block_def)

lemma fentry_list_add_spec:
  assumes "forest_at s k ks" "flists s fl = Some k" "fl \<noteq> 0" "entries s f = Some e" "f \<noteq> 0" "f \<notin> set (addrs ks)"
    "fname e \<notin> f_name ` set ks"
  shows "fentry_list_add fl f s = Some (Inr (f, if ks = []
      then s\<lparr>flists := (flists s)(fl \<mapsto> f), entries := (entries s)(f \<mapsto> e\<lparr>fnext := 0\<rparr>)\<rparr>
      else s\<lparr>entries := (entries s)(f \<mapsto> e\<lparr>fnext := 0\<rparr>,
        f_addr (last ks) := map_option (fnext_update (\<lambda>_. f)) (entries s (f_addr (last ks))))\<rparr>))"
proof -
  let ?s = "s\<lparr>entries := (entries s)(f \<mapsto> e\<lparr>fnext := 0\<rparr>)\<rparr>"
  have b: "list_begin s fl = Inr k" using assms(2,3) by (simp add: list_begin_def)
  have u: "upd_fe f (fnext_update (\<lambda>_. 0)) s = Inr ?s" using assms(4,5) by (simp add: upd_fe_simp)
  show ?thesis
  proof (cases "ks = []")
    case True
    then have "k = 0" using assms(1) by simp
    then show ?thesis using b u True assms(2,3) by (simp add: fentry_list_add_def set_begin_def list_begin_def)
  next
    case False
    then have k: "k \<noteq> 0" using assms(1) by (cases ks rule: nodes.cases) auto
    have at: "forest_at ?s k ks" by (rule forest_cong [OF _ assms(1)]) (use assms(6) in auto)
    have l: "last ks \<in> set (nodes ks)" using nodes_top False by (auto dest: last_in_set)
    obtain el where el: "entries s (f_addr (last ks)) = Some el" "f_addr (last ks) \<noteq> 0" using node_at [OF assms(1) l] by auto
    have nf: "f_addr (last ks) \<noteq> f" using l assms(6) by auto
    have "add_loop ?s (fname e) k 0 = Some (Inr (Some (f_addr (last ks))))"
      using add_loop_spec [OF at assms(7), of 0] False by simp
    then show ?thesis using b u k False el nf assms(5)
      by (simp add: fentry_list_add_def fe_simp upd_fe_simp)
  qed
qed

lemma fentry_create_spec:
  assumes "fs_rel s (Some t)" "the_node p [t] = Some x" "\<not> f_busy x" "n \<noteq> []" "trim n \<notin> set (names [t])"
    "avail s = a # b # l # m # zs" "a \<noteq> 0" "b \<noteq> 0" "l \<noteq> 0" "m \<noteq> 0"
  shows "\<exists>s'. fentry_create n p d s = Some (Inr (a, s')) \<and> fs_rel s' (Some (insert_at p (leaf a l (trim n) d) t)) \<and>
    avail s' = zs \<and> log s' = log s \<and> root s' = root s"
proof -
  have r: "forest_at s (root s) [t]" "distinct (addrs [t])" "distinct (avail s)" "distinct (flist_addrs [t])"
    "(set (addrs [t]) \<union> set (flist_addrs [t])) \<inter> set (avail s) = {}" using assms(1) by (auto simp: fs_rel_def)
  have x: "x \<in> set (nodes [t])" "f_addr x = p" using the_node_Some [OF assms(2)] by simp_all
  obtain e k where e: "entries s p = Some e" "entry_is e x" "flists s (f_list x) = Some k" "forest_at s k (f_kids x)"
    "p \<noteq> 0" "f_list x \<noteq> 0" using node_at [OF r(1) x(1)] x(2) by auto
  have e': "children e = f_list x" "\<not> locked e" using e(2) assms(3) by (simp_all add: entry_is_def)
  have fresh: "f_addr y \<noteq> a" "f_list y \<noteq> l" if "y \<in> set (nodes [t])" for y
    using that r(5) assms(6) by auto
  have pa: "p \<noteq> a" using fresh(1) [OF x(1)] x(2) by simp
  have kn: "set (nodes (f_kids x)) \<subseteq> set (nodes [t])" by (rule sub_nodes [OF x(1)])
  have pk: "p \<notin> set (addrs (f_kids x))" using not_own_descendant [OF r(2) x(1)] x(2) by simp
  let ?n = "new_fentry (trim n) p"
  define s1 where "s1 = s\<lparr>avail := l # m # zs, entries := (entries s)(a \<mapsto> ?n)\<rparr>"
  define s2 where "s2 = s1\<lparr>entries := (entries s1)(p \<mapsto> e\<lparr>locked := True\<rparr>)\<rparr>"
  have lk: "lock_entry p s1 = Inr s2" using e e' pa by (simp add: lock_entry_def fe_simp upd_fe_simp s1_def s2_def)
  have at2: "forest_at s2 k (f_kids x)"
    by (rule forest_cong [OF _ e(4)]) (use fresh kn pk in \<open>fastforce simp: s1_def s2_def\<close>)
  have nk: "fname ?n \<notin> f_name ` set (f_kids x)"
    using assms(5) kn nodes_top [of "f_kids x"] by (auto simp: new_fentry_def)
  have ak: "a \<notin> set (addrs (f_kids x))" using kn fresh(1) by auto
  have f2: "flists s2 (f_list x) = Some k" "entries s2 a = Some ?n" using e pa by (simp_all add: s1_def s2_def)
  note add = fentry_list_add_spec [OF at2 f2(1) e(6) f2(2) assms(7) ak nk]
  define s3 where "s3 = (if f_kids x = []
      then s2\<lparr>flists := (flists s2)(f_list x \<mapsto> a), entries := (entries s2)(a \<mapsto> ?n\<lparr>fnext := 0\<rparr>)\<rparr>
      else s2\<lparr>entries := (entries s2)(a \<mapsto> ?n\<lparr>fnext := 0\<rparr>,
        f_addr (last (f_kids x)) := map_option (fnext_update (\<lambda>_. a)) (entries s2 (f_addr (last (f_kids x)))))\<rparr>)"
  have li: "last (f_kids x) \<in> set (nodes (f_kids x))" if "f_kids x \<noteq> []" using nodes_top that by (auto dest: last_in_set)
  have lp: "f_addr (last (f_kids x)) \<noteq> p" "f_addr (last (f_kids x)) \<noteq> a" if "f_kids x \<noteq> []"
    using li [OF that] pk ak by auto
  have p3: "entries s3 p = Some (e\<lparr>locked := True\<rparr>)" "entries s3 a = Some (?n\<lparr>fnext := 0\<rparr>)" "avail s3 = l # m # zs"
    using pa lp by (auto simp: s3_def s2_def s1_def)
  define s4 where "s4 = s3\<lparr>entries := (entries s3)(p \<mapsto> e)\<rparr>"
  have "e\<lparr>locked := False\<rparr> = e" using e'(2) by simp
  then have ul: "unlock_entry p s3 = Inr s4" using p3(1) e(5) by (simp add: unlock_entry_def upd_fe_simp s4_def)
  have a4: "entries s4 a = Some (?n\<lparr>fnext := 0\<rparr>)" "avail s4 = l # m # zs" using p3 pa by (auto simp: s4_def)
  define ea where "ea = (?n\<lparr>fnext := 0\<rparr>)\<lparr>fnext := 0, children := l, contents := None, fsize := 0, is_dir := d, locked := False\<rparr>"
  define s5 where "s5 = s4\<lparr>avail := zs, flists := (flists s4)(l \<mapsto> 0), entries := (entries s4)(a \<mapsto> ea)\<rparr>"
  have ini: "fentry_init a d s4 = Inr (a, s5)" using fentry_init_spec [OF a4(1) assms(7) a4(2) assms(9,10)] by (simp add: s5_def ea_def)
  have tr: "trim_filename (Some n) (s\<lparr>avail := b # l # m # zs\<rparr>) = Inr (trim n, s\<lparr>avail := l # m # zs\<rparr>)"
    using assms(4,8) by (simp add: trim_filename_def trim_def new_block_def)
  have fe2: "fe s2 p = Inr (e\<lparr>locked := True\<rparr>)" using e(5) by (simp add: fe_simp s2_def)
  have run: "fentry_create n p d s = Some (Inr (a, s5))"
    using assms(6,7) tr e(5) lk fe2 e'(1) add ul ini
    by (simp add: fentry_create_def new_block_def s1_def [symmetric] s3_def [symmetric])
  have "fs_rel s5 (Some (insert_at p (leaf a l (trim n) d) t))"
  proof (rule fs_rel_insert [OF assms(1,2,6,7,9,5), where e = ea])
    show "entries s5 a = Some ea" "fnext ea = 0" "flists s5 l = Some 0" "root s5 = root s" "avail s5 = zs"
      by (simp_all add: s5_def ea_def s4_def s3_def s2_def s1_def)
    show "entry_is ea (leaf a l (trim n) d)" by (simp add: ea_def entry_is_def leaf_def new_fentry_def)
    show "entries s5 (f_addr y) = entries s (f_addr y)"
      if "y \<in> set (nodes [t])" "f_kids x = [] \<or> y \<noteq> last (f_kids x)" for y
    proof -
      have "f_kids x = [] \<or> f_addr y \<noteq> f_addr (last (f_kids x))"
        using that li kn r(2) by (meson inj_onD distinct_map subsetD)
      then show ?thesis using fresh(1) [OF that(1)] e(1) by (auto simp: s5_def s4_def s3_def s2_def s1_def)
    qed
    show "entries s5 (f_addr (last (f_kids x))) = map_option (fnext_update (\<lambda>_. a)) (entries s (f_addr (last (f_kids x))))"
      if "f_kids x \<noteq> []" using that lp [OF that] by (simp add: s5_def s4_def s3_def s2_def s1_def)
    show "flists s5 (f_list y) = flists s (f_list y)" if "y \<in> set (nodes [t])" "f_kids x \<noteq> [] \<or> y \<noteq> x" for y
    proof -
      have "y \<noteq> x \<Longrightarrow> f_list y \<noteq> f_list x" using that(1) x(1) r(4) by (meson inj_onD distinct_map)
      then show ?thesis using fresh(2) [OF that(1)] that(2) by (auto simp: s5_def s4_def s3_def s2_def s1_def)
    qed
    show "flists s5 (f_list x) = Some a" if "f_kids x = []"
      using that fresh(2) [OF x(1)] by (simp add: s5_def s4_def s3_def s2_def s1_def)
  qed
  moreover have "avail s5 = zs" "log s5 = log s" "root s5 = root s"
    by (simp_all add: s5_def s4_def s3_def s2_def s1_def)
  ultimately show ?thesis using run by blast
qed

text \<open>What creation does to the tree and what it returns; \<open>dir\<close> is the name up to the last slash.\<close>

definition create_result :: "ftree option \<Rightarrow> name \<Rightarrow> name \<Rightarrow> bool \<Rightarrow> nat \<Rightarrow> ftree option \<Rightarrow> bool" where
  "create_result r n dir d a r' \<longleftrightarrow>
     (case map_of (index (tree_of r)) n of
        Some p \<Rightarrow> a = p \<and> r' = r
      | None \<Rightarrow>
         (case r of
            None \<Rightarrow> \<exists>l. r' = Some (leaf a l n d)
          | Some t \<Rightarrow>
             (case map_of (index [t]) (trim dir) of
                None \<Rightarrow> a = 0 \<and> r' = r
              | Some p \<Rightarrow> a \<noteq> 0 \<and> (\<exists>l. r' = Some (insert_at p (leaf a l n d) t)))))"

definition all_closed :: "ftree option \<Rightarrow> bool" where
  "all_closed r \<longleftrightarrow> (\<forall>x\<in>set (nodes (tree_of r)). \<not> f_busy x)"

lemma create_root:
  assumes "fs_rel s None" "n \<noteq> []" "length n \<le> 256" "enough 6 s"
  shows "\<exists>a s'. ramfs_create_file n d s = Some (Inr (a, s')) \<and> create_result None (trim n) dir d a (Some (leaf a (avail s ! 4) (trim n) d)) \<and>
    fs_rel s' (Some (leaf a (avail s ! 4) (trim n) d)) \<and> avail s' = drop 6 (avail s)"
proof -
  obtain w1 w2 a b l m zs where av: "avail s = w1 # w2 # a # b # l # m # zs" "w1 \<noteq> 0" "w2 \<noteq> 0" "a \<noteq> 0" "b \<noteq> 0" "l \<noteq> 0" "m \<noteq> 0"
    using assms(4) by (auto simp: eval_nat_numeral enough_Suc)
  have r: "root s = 0" "distinct (avail s)" using assms(1) by (simp_all add: fs_rel_def)
  define s1 where "s1 = s\<lparr>avail := a # b # l # m # zs\<rparr>"
  have dn: "\<exists>dn. get_directory_name (Some n) s = Inr (dn, s1)"
    using av r(1) assms(2) by (simp add: get_directory_name_def trim_filename_def new_block_def s1_def Let_def)
  define s2 where "s2 = s1\<lparr>avail := l # m # zs, entries := (entries s)(a \<mapsto> new_fentry (trim n) 0), root := a\<rparr>"
  define ea where "ea = (new_fentry (trim n) 0)\<lparr>fnext := 0, children := l, contents := None, fsize := 0, is_dir := d, locked := False\<rparr>"
  define s3 where "s3 = s2\<lparr>avail := zs, flists := (flists s2)(l \<mapsto> 0), entries := (entries s2)(a \<mapsto> ea)\<rparr>"
  have s2: "entries s2 a = Some (new_fentry (trim n) 0)" "avail s2 = l # m # zs" by (simp_all add: s2_def)
  have ini: "fentry_init a d s2 = Inr (a, s3)"
    using fentry_init_spec [OF s2(1) av(4) s2(2) av(6,7)] by (simp add: s3_def ea_def)
  have s1: "root s1 = 0" "avail s1 = a # b # l # m # zs" "entries s1 = entries s" using r by (simp_all add: s1_def)
  have "fentry_create n 0 d s1 = Some (Inr (a, s3))"
    using s1 av assms(2) ini
    by (simp add: fentry_create_def new_block_def trim_filename_def trim_def [symmetric] s2_def Let_def)
  then have run: "ramfs_create_file n d s = Some (Inr (a, s3))"
    using assms(2,3) r(1) dn s1(1) by (auto simp: ramfs_create_file_def RAMFS_MAX_FILENAME_SIZE_def ramfs_find_def)
  have f: "forest_at s3 (root s3) [leaf a l (trim n) d]"
    using av by (simp add: s3_def s2_def leaf_def entry_is_def ea_def new_fentry_def)
  have "fs_rel s3 (Some (leaf a l (trim n) d))"
    using f r(2) av(1) by (simp add: fs_rel_def s3_def s2_def leaf_def)
  moreover have "avail s3 = drop 6 (avail s)" "avail s ! 4 = l" using av(1) by (simp_all add: s3_def)
  ultimately show ?thesis using run by (auto simp: create_result_def)
qed

lemma create_child:
  assumes "fs_rel s (Some t)" "n \<noteq> []" "length n \<le> 256" "enough 8 s" "all_closed (Some t)"
    "trim n = dir @ 0x2f # b" "0x2f \<notin> set b" "dir \<noteq> []"
  shows "\<exists>a s' r'. ramfs_create_file n d s = Some (Inr (a, s')) \<and> create_result (Some t) (trim n) dir d a r' \<and>
    fs_rel s' r' \<and> (\<exists>k\<le>8. avail s' = drop k (avail s))"
proof -
  note e1 = enough_mono [OF assms(4)]
  have f: "ramfs_find (Some n) s = Some (Inr (ptr_of (map_of (index [t]) (trim n)), s\<lparr>avail := tl (avail s)\<rparr>))"
    using ramfs_find_spec [OF assms(1,2)] e1 by simp
  have ne: "root s \<noteq> 0" using assms(1) by (cases t) (simp add: fs_rel_def)
  have nz: "a \<noteq> 0" if m: "map_of (index [t]) m = Some a" for m a
  proof -
    obtain x where "x \<in> set (nodes [t])" "f_addr x = a" using map_of_SomeD [OF m] by (auto simp: index_def)
    then show ?thesis using node_at [of s "root s" "[t]" x] assms(1) by (auto simp: fs_rel_def)
  qed
  let ?s1 = "s\<lparr>avail := tl (avail s)\<rparr>"
  obtain w1 w2 w3 w4 a b' l m zs where av: "avail s = w1 # w2 # w3 # w4 # a # b' # l # m # zs" "w1 \<noteq> 0" "w2 \<noteq> 0" "w3 \<noteq> 0" "w4 \<noteq> 0"
    "a \<noteq> 0" "b' \<noteq> 0" "l \<noteq> 0" "m \<noteq> 0"
    using assms(4) by (auto simp: eval_nat_numeral enough_Suc)
  have r1: "fs_rel ?s1 (Some t)" by (rule fs_rel_avail [OF assms(1)])
  show ?thesis
  proof (cases "map_of (index [t]) (trim n)")
    case (Some p)
    let ?s' = "error_message (quoted ''ERROR: file: '') n (unquoted ''already exists.'') ?s1"
    have "ramfs_create_file n d s = Some (Inr (p, ?s'))"
      using f Some nz [OF Some] assms(3) by (simp add: ramfs_create_file_def RAMFS_MAX_FILENAME_SIZE_def)
    moreover have "avail ?s' = drop 1 (avail s)" by (simp add: drop_Suc)
    ultimately show ?thesis using r1 Some by (intro exI [of _ p] exI [of _ ?s'] exI [of _ "Some t"]) (auto simp: create_result_def intro!: exI [of _ 1])
  next
    case None
    let ?s3 = "s\<lparr>avail := w4 # a # b' # l # m # zs\<rparr>"
    have g: "get_directory_name (Some n) ?s1 = Inr (Some dir, ?s3)"
      using get_directory_name_spec [OF assms(2,3) _ assms(6,7), of ?s1] av by (simp add: enough_def eval_nat_numeral)
    have r3: "fs_rel ?s3 (Some t)" using fs_rel_avail [OF fs_rel_avail [OF r1]] av(1) by simp
    let ?s4 = "s\<lparr>avail := a # b' # l # m # zs\<rparr>"
    have p: "ramfs_find (Some dir) ?s3 = Some (Inr (ptr_of (map_of (index [t]) (trim dir)), ?s4))"
      using ramfs_find_spec [OF r3 assms(8)] av by (simp add: enough_def eval_nat_numeral)
    have r4: "fs_rel ?s4 (Some t)" using fs_rel_avail [OF r3] by simp
    have run: "ramfs_create_file n d s = (if ptr_of (map_of (index [t]) (trim dir)) = 0
        then Some (Inr (0, error_message (quoted ''ERROR: directory: '') dir (unquoted ''does not exist.'') ?s4))
        else fentry_create n (ptr_of (map_of (index [t]) (trim dir))) d ?s4)"
      using f None g p assms(3) ne by (simp add: ramfs_create_file_def RAMFS_MAX_FILENAME_SIZE_def)
    show ?thesis
    proof (cases "map_of (index [t]) (trim dir)")
      case n: None
      let ?s' = "error_message (quoted ''ERROR: directory: '') dir (unquoted ''does not exist.'') ?s4"
      have "ramfs_create_file n d s = Some (Inr (0, ?s'))" using run n by simp
      moreover have "avail ?s' = drop 4 (avail s)" using av(1) by simp
      moreover have "create_result (Some t) (trim n) dir d 0 (Some t)" using None n by (simp add: create_result_def)
      moreover have "fs_rel ?s' (Some t)" using r4 by simp
      ultimately show ?thesis by (intro exI [of _ 0] exI [of _ ?s'] exI [of _ "Some t"]) (auto intro!: exI [of _ 4])
    next
      case (Some q)
      obtain x where x: "the_node q [t] = Some x" using the_node_ex [of q "[t]"] map_of_SomeD [OF Some] by (force simp: index_def)
      have c: "\<not> f_busy x" using the_node_Some [OF x] assms(5) by (simp add: all_closed_def)
      have nn: "trim n \<notin> set (names [t])" using None by (metis fst_index map_of_eq_None_iff set_map)
      have av4: "avail ?s4 = a # b' # l # m # zs" by simp
      obtain s' where s': "fentry_create n q d ?s4 = Some (Inr (a, s'))" "fs_rel s' (Some (insert_at q (leaf a l (trim n) d) t))"
        "avail s' = zs" using fentry_create_spec [OF r4 x c assms(2) nn av4 av(6-9), of d] by blast
      have "ramfs_create_file n d s = Some (Inr (a, s'))" using run Some nz [OF Some] s'(1) by simp
      moreover have "avail s' = drop 8 (avail s)" using s'(3) av(1) by simp
      moreover have "create_result (Some t) (trim n) dir d a (Some (insert_at q (leaf a l (trim n) d) t))"
        using None Some av(6) by (auto simp: create_result_def)
      ultimately show ?thesis using s'(2) by blast
    qed
  qed
qed

section \<open>Listing and releasing\<close>

lemma forest_log [simp]: "forest_at (s\<lparr>log := m\<rparr>) it ts = forest_at s it ts"
  using forest_cong [of ts s "s\<lparr>log := m\<rparr>"] forest_cong [of ts "s\<lparr>log := m\<rparr>" s] by auto

definition listing :: "ftree list \<Rightarrow> message list" where
  "listing ts = concat (map (\<lambda>y. [Text (f_name y), Text newline]) (nodes ts))"

lemma print_loop_spec:
  "forest_at s it ts \<Longrightarrow> print_loop it s = Some (Inr (s\<lparr>log := log s @ listing ts\<rparr>))"
proof (induction ts arbitrary: it s rule: nodes.induct)
  case 1
  then show ?case by (subst print_loop.simps) (simp add: listing_def)
next
  case (2 a l n d c b ks ts)
  then obtain e k where e: "it = a" "a \<noteq> 0" "l \<noteq> 0" "entries s a = Some e" "fname e = n" "children e = l" "flists s l = Some k"
    "forest_at s k ks" "forest_at s (fnext e) ts" by (auto simp: entry_is_def)
  let ?s = "s\<lparr>log := log s @ [Text n, Text newline]\<rparr>"
  have "print_loop k ?s = Some (Inr (?s\<lparr>log := log ?s @ listing ks\<rparr>))" by (rule "2.IH"(1)) (simp add: e)
  moreover have "print_loop (fnext e) (?s\<lparr>log := log ?s @ listing ks\<rparr>) =
      Some (Inr (?s\<lparr>log := (log ?s @ listing ks) @ listing ts\<rparr>))"
    using "2.IH"(2) [of "?s\<lparr>log := log ?s @ listing ks\<rparr>" "fnext e"] e(9) by simp
  ultimately show ?case using e
    by (subst print_loop.simps) (simp add: fe_def list_begin_def say_def listing_def)
qed

lemma release_loop_spec:
  "forest_at s it ts \<Longrightarrow> release_loop it s = Some (Inl Bug) \<or> (\<exists>m. release_loop it s = Some (Inr (s\<lparr>log := m\<rparr>)))"
proof (induction ts arbitrary: it s rule: nodes.induct)
  case 1
  then show ?case by (subst (1 2) release_loop.simps) (auto intro!: exI [of _ "log s"])
next
  case (2 a l n d c b ks ts)
  then obtain e k where e: "it = a" "a \<noteq> 0" "l \<noteq> 0" "entries s a = Some e" "children e = l" "flists s l = Some k"
    "forest_at s k ks" "forest_at s (fnext e) ts" by (auto simp: entry_is_def)
  show ?case
  proof (cases "locked e")
    case True
    define m where "m = log (busy_message e s)"
    have b: "busy_message e s = s\<lparr>log := m\<rparr>" by (simp add: m_def busy_message_def error_message_def say_def)
    have f: "forest_at (s\<lparr>log := m\<rparr>) (fnext e) ts" using e(8) by simp
    have "release_loop it s = release_loop (fnext e) (s\<lparr>log := m\<rparr>)"
      using e True b by (subst release_loop.simps) (simp add: fe_def)
    then show ?thesis using "2.IH"(2) [OF f] by auto
  next
    case False
    have "release_loop it s = Some (Inl Bug)"
      using "2.IH"(1) [OF e(7)]
    proof
      assume "release_loop k s = Some (Inl Bug)"
      then show ?thesis using e False by (subst release_loop.simps) (simp add: fe_def list_begin_def)
    next
      assume "\<exists>m. release_loop k s = Some (Inr (s\<lparr>log := m\<rparr>))"
      then show ?thesis using e False by (subst release_loop.simps) (auto simp: fe_def list_begin_def free_list_def)
    qed
    then show ?thesis by blast
  qed
qed

end
