(* ===== verification/Initramfs_Spec.thy ===== *)
theory Initramfs_Spec
  imports Initramfs Ramfs_Ops Stdlib
begin

unbundle bit_operations_syntax

text \<open>
  What a cpio archive in memory is, and that loading it creates its entries one after the other.
\<close>

section \<open>Numbers and padding\<close>

definition padded :: "nat \<Rightarrow> nat" where "padded n = (n + 3) div 4 * 4"

lemma padded_step: "n mod 4 \<noteq> 0 \<Longrightarrow> padded (n + 1) = padded n"
  unfolding padded_def by presburger

lemma padded_aligned: "n mod 4 = 0 \<Longrightarrow> padded n = n"
  unfolding padded_def by presburger

lemma pad4_spec: "unat sz \<le> 2 ^ 32 - 4 \<Longrightarrow> unat (pad4 sz) = padded (unat sz)"
proof (induction sz rule: pad4.induct)
  case (1 sz)
  have m: "unat (sz mod 4) = unat sz mod 4" by (simp add: unat_mod_distrib)
  show ?case
  proof (cases "sz mod 4 = 0")
    case True
    then have "unat sz mod 4 = 0" using m by simp
    then show ?thesis using True by (subst pad4.simps) (simp add: padded_aligned)
  next
    case False
    then have n: "unat sz mod 4 \<noteq> 0" using m by (metis unsigned_eq_0_iff)
    have "unat sz < 2 ^ 32 - 4" using n "1.prems" by (cases "unat sz = 2 ^ 32 - 4") auto
    then have s: "unat (sz + 1) = unat sz + 1" by (simp add: unat_add_lem [THEN iffD1])
    have "unat (pad4 (sz + 1)) = padded (unat sz + 1)"
      using "1.IH" [OF False] s \<open>unat sz < 2 ^ 32 - 4\<close> by simp
    then show ?thesis using False padded_step [OF n] by (subst pad4.simps) simp
  qed
qed

lemma char_to_digit_spec:
  assumes "digit_val c = Some d" "d < 16"
  shows "scast (char_to_digit c) = (of_nat d :: u32)"
proof -
  have c: "unat c = n \<Longrightarrow> c = of_nat n" for n by (metis of_nat_unat ucast_id)
  have "0x30 \<le> unat c \<and> unat c \<le> 0x39 \<or> 0x41 \<le> unat c \<and> unat c \<le> 0x46 \<or> 0x61 \<le> unat c \<and> unat c \<le> 0x66"
    using assms by (auto simp: digit_val_def Let_def split: if_splits)
  moreover have "(n::nat) \<in> {0x30, 0x31, 0x32, 0x33, 0x34, 0x35, 0x36, 0x37, 0x38, 0x39, 0x41, 0x42, 0x43, 0x44, 0x45, 0x46,
    0x61, 0x62, 0x63, 0x64, 0x65, 0x66}"
    if "0x30 \<le> n \<and> n \<le> 0x39 \<or> 0x41 \<le> n \<and> n \<le> 0x46 \<or> 0x61 \<le> n \<and> n \<le> 0x66" for n
    using that unfolding insert_iff empty_iff by presburger
  ultimately have "unat c \<in> {0x30, 0x31, 0x32, 0x33, 0x34, 0x35, 0x36, 0x37, 0x38, 0x39, 0x41, 0x42, 0x43, 0x44, 0x45, 0x46,
    0x61, 0x62, 0x63, 0x64, 0x65, 0x66}" by blast
  then show ?thesis using assms(1)
    unfolding insert_iff empty_iff
    by (elim disjE FalseE) (frule c, (clarsimp simp: digit_val_def char_to_digit_def word_sle_eq; fail))+
qed

definition hex8 :: "memory \<Rightarrow> nat \<Rightarrow> nat \<Rightarrow> bool" where
  "hex8 m a v \<longleftrightarrow> (\<exists>ds. length ds = 8 \<and> (\<forall>i<8. digit_val (m (a + i)) = Some (ds ! i) \<and> ds ! i < 16) \<and> horner 16 0 ds = v)"

lemma cpio_loop_spec:
  assumes "\<forall>i<length ds. digit_val (m (a + i)) = Some (ds ! i) \<and> ds ! i < 16"
  shows "k \<le> length ds \<Longrightarrow> cpio_loop m a k res mul = res + mul * of_nat (horner 16 0 (take k ds))"
proof (induction k arbitrary: res mul)
  case (Suc k)
  have d: "scast (char_to_digit (m (a + k))) = (of_nat (ds ! k) :: u32)"
    using char_to_digit_spec assms Suc.prems by simp
  have t: "take (Suc k) ds = take k ds @ [ds ! k]" using Suc.prems by (simp add: take_Suc_conv_app_nth)
  show ?case using Suc d by (simp add: t horner_append algebra_simps)
qed simp

lemma cpiotoi_spec: "hex8 m a v \<Longrightarrow> cpiotoi m a 8 = of_nat v"
proof -
  assume "hex8 m a v"
  then obtain ds where "length ds = 8" "\<forall>i<8. digit_val (m (a + i)) = Some (ds ! i) \<and> ds ! i < 16" "horner 16 0 ds = v"
    by (auto simp: hex8_def)
  then show ?thesis using cpio_loop_spec [of ds m a 8 0 1] by (simp add: cpiotoi_def)
qed

section \<open>Archives\<close>

record centry =
  cname :: name
  cmode :: u32
  cdata :: "u8 list"

text \<open>The sizes fit a word with room for the padding.\<close>

definition centry_at :: "memory \<Rightarrow> nat \<Rightarrow> centry \<Rightarrow> bool" where
  "centry_at m ptr e \<longleftrightarrow> hex8 m (ptr + 14) (unat (cmode e)) \<and> hex8 m (ptr + 54) (length (cdata e)) \<and>
     hex8 m (ptr + 94) (length (cname e) + 1) \<and> cstr_at m (ptr + 110) (cname e) \<and>
     (\<forall>i<length (cdata e). m (ptr + padded (111 + length (cname e)) + i) = cdata e ! i) \<and>
     length (cdata e) < 2 ^ 31 \<and> take 10 (cname e) \<noteq> END_OF_ARCHIVE"

fun archive_at :: "memory \<Rightarrow> nat \<Rightarrow> centry list \<Rightarrow> bool" where
  "archive_at m ptr [] \<longleftrightarrow> (\<forall>i<10. m (ptr + 110 + i) = END_OF_ARCHIVE ! i)"
| "archive_at m ptr (e # es) \<longleftrightarrow> centry_at m ptr e \<and>
     archive_at m (ptr + padded (111 + length (cname e)) + padded (length (cdata e))) es"

text \<open>
  An archive that can be loaded: names are new and not too long, every entry but the first has its directory
  before it, and directories have no contents.
\<close>

definition base_name :: "name \<Rightarrow> name \<Rightarrow> name \<Rightarrow> bool" where
  "base_name n dir b \<longleftrightarrow> n = dir @ 0x2f # b \<and> 0x2f \<notin> set b \<and> dir \<noteq> []"

fun loadable :: "name set \<Rightarrow> centry list \<Rightarrow> bool" where
  "loadable N [] \<longleftrightarrow> True"
| "loadable N (e # es) \<longleftrightarrow> cname e \<noteq> [] \<and> length (cname e) \<le> 256 \<and> trim (cname e) \<notin> N \<and>
     (N = {} \<or> (\<exists>dir b. base_name (trim (cname e)) dir b \<and> trim dir \<in> N)) \<and>
     (S_ISDIR (cmode e) \<longrightarrow> cdata e = []) \<and> loadable (insert (trim (cname e)) N) es"

lemma length_END: "length END_OF_ARCHIVE = 10" "0 \<notin> set END_OF_ARCHIVE"
  by (simp_all add: END_OF_ARCHIVE_def bytes_def)

lemma not_trailer:
  assumes "cstr_at m a n" "take 10 n \<noteq> END_OF_ARCHIVE" "cstr_at m t END_OF_ARCHIVE"
  shows "str_compare m a t 10 \<noteq> 0"
proof
  assume "str_compare m a t 10 = 0"
  then have e: "\<forall>i<10. m (a + i) = m (t + i)" by (rule str_compare_0)
  have t: "m (t + i) = END_OF_ARCHIVE ! i" "END_OF_ARCHIVE ! i \<noteq> 0" if "i < 10" for i
  proof -
    have "END_OF_ARCHIVE ! i \<in> set END_OF_ARCHIVE" using that length_END(1) by simp
    then show "END_OF_ARCHIVE ! i \<noteq> 0" using length_END(2) by metis
    show "m (t + i) = END_OF_ARCHIVE ! i" using assms(3) that length_END(1) by (simp add: cstr_at_def)
  qed
  have l: "10 \<le> length n"
  proof (rule ccontr)
    assume "\<not> 10 \<le> length n"
    then have "m (a + length n) \<noteq> 0" using e t by simp
    then show False using assms(1) by (simp add: cstr_at_def)
  qed
  have "take 10 n = END_OF_ARCHIVE"
  proof (rule nth_equalityI)
    show "length (take 10 n) = length END_OF_ARCHIVE" using l length_END by simp
    show "take 10 n ! i = END_OF_ARCHIVE ! i" if "i < length (take 10 n)" for i
    proof -
      have i: "i < 10" "i < length n" using that by simp_all
      then have "m (a + i) = n ! i" using assms(1) by (simp add: cstr_at_def)
      then show ?thesis using e t(1) i(1) by simp
    qed
  qed
  then show False using assms(2) by simp
qed

lemma cstring_at: "cstr_at m a n \<Longrightarrow> cstring m a = Some n"
proof -
  assume c: "cstr_at m a n"
  have "strlen m a = Some (length n)" using strlen_loop_cstr [OF c] by (simp add: strlen_def)
  moreover have "map m [a..<a + length n] = n" using c by (intro nth_equalityI) (auto simp: cstr_at_def)
  ultimately show ?thesis by (simp add: cstring_def)
qed

lemma padded_bounds: "n \<le> padded n" "padded n \<le> n + 3"
  unfolding padded_def by presburger+

lemma header_at:
  assumes "centry_at m ptr e" "length (cname e) \<le> 256"
  shows "c_mode (rd_header m ptr) = cmode e" "unat (c_filesize (rd_header m ptr)) = length (cdata e)"
    "contents_at ptr (c_namesize (rd_header m ptr)) = ptr + padded (111 + length (cname e))"
    "next_at ptr (rd_header m ptr) = ptr + padded (111 + length (cname e)) + padded (length (cdata e))"
proof -
  let ?n = "length (cname e)" and ?d = "length (cdata e)"
  have d: "?d < 2 ^ 31" using assms(1) by (simp add: centry_at_def)
  have "cpiotoi m (ptr + 14) 8 = of_nat (unat (cmode e))"
    using assms(1) unfolding centry_at_def by (intro cpiotoi_spec) blast
  then have h: "cpiotoi m (ptr + 14) 8 = cmode e" "cpiotoi m (ptr + 54) 8 = of_nat ?d" "cpiotoi m (ptr + 94) 8 = of_nat (?n + 1)"
    using assms(1) by (simp_all add: centry_at_def cpiotoi_spec del: of_nat_Suc of_nat_add)
  show "c_mode (rd_header m ptr) = cmode e" by (simp add: rd_header_def h)
  have ud: "unat (of_nat ?d :: u32) = ?d" using d by (simp add: unat_of_nat take_bit_eq_mod)
  then show "unat (c_filesize (rd_header m ptr)) = ?d" by (simp add: rd_header_def h)
  have "(of_nat CPIO_HEADER_SIZE + of_nat (?n + 1) :: u32) = of_nat (111 + ?n)" by (simp add: CPIO_HEADER_SIZE_def)
  moreover have "unat (of_nat (111 + ?n) :: u32) = 111 + ?n"
    using assms(2) by (simp only: unat_of_nat) (simp add: take_bit_eq_mod)
  ultimately have p: "unat (pad4 (of_nat CPIO_HEADER_SIZE + of_nat (?n + 1) :: u32)) = padded (111 + ?n)"
    using pad4_spec [of "of_nat (111 + ?n)"] assms(2) by simp
  then show "contents_at ptr (c_namesize (rd_header m ptr)) = ptr + padded (111 + ?n)"
    by (simp add: contents_at_def rd_header_def h del: of_nat_Suc of_nat_add)
  have q: "unat (pad4 (of_nat ?d :: u32)) = padded ?d" using pad4_spec [of "of_nat ?d"] ud d by simp
  have "padded (111 + ?n) + padded ?d < 2 ^ 32" using padded_bounds [of ?d] padded_bounds [of "111 + ?n"] assms(2) d by simp
  then have "unat (pad4 (of_nat CPIO_HEADER_SIZE + of_nat (?n + 1) :: u32) + pad4 (of_nat ?d)) = padded (111 + ?n) + padded ?d"
    using p q by (simp add: unat_add_lem [THEN iffD1] del: of_nat_Suc of_nat_add)
  then show "next_at ptr (rd_header m ptr) = ptr + padded (111 + ?n) + padded ?d"
    by (simp add: next_at_def rd_header_def h del: of_nat_Suc of_nat_add)
qed

section \<open>Loading\<close>

lemma load_file_spec:
  assumes "fs_rel s (Some t)" "map_of (index [t]) (trim n) = Some f" "the_node f [t] = Some x" "\<not> f_busy x" "\<not> f_isd x" "f_data x = None"
    "n \<noteq> []" "enough 1 s"
  shows "\<exists>s'. load_file n f bs s = Some (Inr (True, s')) \<and> fs_rel s' (Some t) \<and> avail s' = tl (avail s)"
proof -
  have x: "x \<in> set (nodes [t])" "f_addr x = f" using the_node_Some [OF assms(3)] by simp_all
  obtain e k where e: "entries s f = Some e" "entry_is e x" "f \<noteq> 0"
    using node_at [of s "root s" "[t]" x] assms(1) x by (auto simp: fs_rel_def)
  have e': "\<not> locked e" "\<not> is_dir e" "fsize e = 0" using e(2) assms(4-6) by (simp_all add: entry_is_def)
  let ?s1 = "s\<lparr>avail := tl (avail s)\<rparr>"
  let ?s2 = "?s1\<lparr>entries := (entries s)(f \<mapsto> e\<lparr>locked := True\<rparr>)\<rparr>"
  have "ramfs_find (Some n) s = Some (Inr (f, ?s1))" using ramfs_find_spec [OF assms(1,7)] assms(2,8) by simp
  then have o: "ramfs_open n s = Some (Inr (f, ?s2))"
    using e e' by (simp add: ramfs_open_def lock_entry_def fe_simp upd_fe_simp)
  obtain m where w: "ramfs_write f 0 bs ?s2 = Inr (0, ?s2\<lparr>log := m\<rparr>)"
  proof (cases "bs = []")
    case True
    have "ramfs_write f 0 bs ?s2 = Inr (0, ?s2\<lparr>log := log ?s2\<rparr>)"
      using e e' True by (simp add: ramfs_write_def fe_simp)
    then show ?thesis by (rule that)
  next
    case False
    then show ?thesis using e e' that
      by (simp add: ramfs_write_def fe_simp say_hex_def error_message_def say_def)
  qed
  have "e\<lparr>locked := False\<rparr> = e" using e'(1) by simp
  then have "(entries s)(f \<mapsto> e\<lparr>locked := False\<rparr>) = entries s" using e(1) by auto
  then have c: "ramfs_close f (?s2\<lparr>log := m\<rparr>) = Inr (?s1\<lparr>log := m\<rparr>)"
    using e(3) by (simp add: ramfs_close_def unlock_entry_def upd_fe_simp)
  have "load_file n f bs s = Some (Inr (True, ?s1\<lparr>log := m\<rparr>))" using o w c by (simp add: load_file_def)
  moreover have "fs_rel (?s1\<lparr>log := m\<rparr>) (Some t)" using fs_rel_avail [OF assms(1)] fs_rel_log by blast
  ultimately show ?thesis by (intro exI [of _ "?s1\<lparr>log := m\<rparr>"]) simp
qed

abbreviation kinds :: "ftree option \<Rightarrow> (name \<times> bool) multiset" where
  "kinds r \<equiv> mset (map (\<lambda>x. (f_name x, f_isd x)) (nodes (tree_of r)))"

definition fresh_files :: "ftree option \<Rightarrow> bool" where
  "fresh_files r \<longleftrightarrow> (\<forall>x\<in>set (nodes (tree_of r)). \<not> f_busy x \<and> f_data x = None)"

lemma enough_drop: "enough k s \<Longrightarrow> avail s' = drop j (avail s) \<Longrightarrow> j + i \<le> k \<Longrightarrow> enough i s'"
proof -
  assume a: "enough k s" "avail s' = drop j (avail s)" "j + i \<le> k"
  have "set (take i (drop j (avail s))) \<subseteq> set (take k (avail s))"
    using a(3) set_drop_subset [of j "take (j + i) (avail s)"] set_take_subset_set_take [of "j + i" k "avail s"]
    by (auto simp: take_drop ac_simps)
  then show ?thesis using a by (auto simp: enough_def)
qed

lemma created_node:
  assumes "create_result r n dir d a r'" "map_of (index (tree_of r)) n = None" "r = None \<or> map_of (index (tree_of r)) (trim dir) \<noteq> None"
    "fresh_files r" "fs_rel s r" "fs_rel s' r'"
  obtains t x where "r' = Some t" "the_node a [t] = Some x" "f_name x = n" "f_isd x = d" "f_data x = None" "\<not> f_busy x" "fresh_files r'"
    "kinds r' = add_mset (n, d) (kinds r)" "a \<noteq> 0"
proof -
  define g where "g = (\<lambda>x. (f_addr x, f_name x, f_isd x, f_data x, f_busy x))"
  obtain l t where t: "r' = Some t" and ms: "mset (map g (nodes [t])) = add_mset (g (leaf a l n d)) (mset (map g (nodes (tree_of r))))"
  proof (cases r)
    case None
    then show ?thesis using assms(1,2) that by (auto simp: create_result_def leaf_def)
  next
    case (Some u)
    then obtain p where p: "map_of (index [u]) (trim dir) = Some p" using assms(3) by auto
    then obtain l where l: "r' = Some (insert_at p (leaf a l n d) u)" using assms(1,2) Some by (auto simp: create_result_def)
    have pu: "p \<in> set (addrs [u])" using map_of_SomeD [OF p] by (auto simp: index_def)
    have du: "distinct (addrs [u])" using assms(5) Some by (simp add: fs_rel_def)
    have "mset (map g (nodes [insert_at p (leaf a l n d) u])) = add_mset (g (leaf a l n d)) (mset (map g (nodes [u])))"
      unfolding insert_at [symmetric] by (rule add_child_mset [OF _ du pu]) (simp_all add: leaf_def g_def)
    then show ?thesis using that [OF l, of l] Some by simp
  qed
  have all: "mset (map g (nodes [t])) = add_mset (a, n, d, None, False) (mset (map g (nodes (tree_of r))))"
    using ms by (simp add: g_def leaf_def)
  have "image_mset (\<lambda>(a, n, d, c, b). (n, d)) (mset (map g (nodes [t]))) =
    add_mset (n, d) (image_mset (\<lambda>(a, n, d, c, b). (n, d)) (mset (map g (nodes (tree_of r)))))" unfolding all by simp
  then have k: "kinds r' = add_mset (n, d) (kinds r)" using t by (simp add: g_def image_mset.compositionality comp_def)
  have "set (map g (nodes [t])) = insert (a, n, d, None, False) (set (map g (nodes (tree_of r))))"
    using all by (metis set_mset_add_mset_insert set_mset_mset)
  then have im: "g ` set (nodes [t]) = insert (a, n, d, None, False) (g ` set (nodes (tree_of r)))" by simp
  have ff: "fresh_files r'"
    unfolding fresh_files_def
  proof
    fix y assume "y \<in> set (nodes (tree_of r'))"
    then have "g y \<in> insert (a, n, d, None, False) (g ` set (nodes (tree_of r)))" using im t by auto
    then show "\<not> f_busy y \<and> f_data y = None" using assms(4) by (auto simp: g_def fresh_files_def)
  qed
  have "(a, n, d, None, False) \<in> g ` set (nodes [t])" unfolding im by simp
  then obtain y where y: "y \<in> set (nodes [t])" "g y = (a, n, d, None, False)" by (rule imageE) auto
  have fy: "f_addr y = a" "f_name y = n" "f_isd y = d" "f_data y = None" "\<not> f_busy y" using y(2) by (simp_all add: g_def)
  have "a \<in> set (addrs [t])" unfolding set_map using y(1) fy(1) by blast
  then obtain x where x: "the_node a [t] = Some x" using the_node_ex by blast
  have d: "distinct (addrs [t])" "forest_at s' (root s') [t]" using assms(6) t by (simp_all add: fs_rel_def)
  have "x = y"
    by (rule inj_onD [of f_addr "set (nodes [t])"]) (use d(1) the_node_Some [OF x] y(1) fy(1) in \<open>simp_all only: distinct_map\<close>)
  then show thesis using that [OF t x _ _ _ _ ff k] addr_nonzero [OF d(2) y(1)] fy by simp
qed

lemma initramfs_loop_spec:
  assumes "archive_at m ptr es" "loadable (set (names (tree_of r))) es" "cstr_at m trailer END_OF_ARCHIVE" "fs_rel s r" "fresh_files r"
    "enough (9 * length es) s"
  shows "\<exists>s' r'. initramfs_loop m trailer ptr s = Some (Inr s') \<and> fs_rel s' r' \<and> fresh_files r' \<and>
    kinds r' = kinds r + mset (map (\<lambda>e. (trim (cname e), S_ISDIR (cmode e))) es)"
  using assms
proof (induction es arbitrary: ptr r s)
  case Nil
  have "\<forall>i<10. m (ptr + 110 + i) = m (trailer + i)" using Nil.prems(1,3) length_END by (simp add: cstr_at_def)
  then have "str_compare m (ptr + CPIO_HEADER_SIZE) trailer (length END_OF_ARCHIVE) = 0"
    by (intro str_compare_same) (simp add: CPIO_HEADER_SIZE_def length_END)
  then have "\<exists>s'. initramfs_loop m trailer ptr s = Some (Inr s') \<and> fs_rel s' r"
    using Nil.prems(4) by (subst initramfs_loop.simps) (simp add: Let_def)
  then show ?case using Nil.prems(5) by auto
next
  case (Cons e es)
  let ?n = "cname e" and ?d = "S_ISDIR (cmode e)" and ?N = "set (names (tree_of r))" and ?h = "rd_header m ptr"
  let ?p = "ptr + padded (111 + length ?n) + padded (length (cdata e))"
  have a: "centry_at m ptr e" "archive_at m ?p es" using Cons.prems(1) by simp_all
  have l: "?n \<noteq> []" "length ?n \<le> 256" "trim ?n \<notin> ?N" "?N = {} \<or> (\<exists>dir b. base_name (trim ?n) dir b \<and> trim dir \<in> ?N)"
    "?d \<longrightarrow> cdata e = []" "loadable (insert (trim ?n) ?N) es" using Cons.prems(2) by simp_all
  have cs: "cstr_at m (ptr + CPIO_HEADER_SIZE) ?n" using a(1) by (simp add: centry_at_def CPIO_HEADER_SIZE_def)
  note h = header_at [OF a(1) l(2)]
  have st: "str_compare m (ptr + CPIO_HEADER_SIZE) trailer (length END_OF_ARCHIVE) \<noteq> 0"
    using not_trailer [OF cs _ Cons.prems(3)] a(1) length_END by (simp add: centry_at_def)
  have new: "map_of (index (tree_of r)) (trim ?n) = None" using l(3) by (metis fst_index map_of_eq_None_iff set_map)
  have closed: "all_closed r" using Cons.prems(5) by (simp add: fresh_files_def all_closed_def)
  have en: "enough 8 s" "enough 6 s" using enough_mono [OF Cons.prems(6)] by simp_all
  obtain f s1 r1 dir k where c: "ramfs_create_file ?n ?d s = Some (Inr (f, s1))" "create_result r (trim ?n) dir ?d f r1" "fs_rel s1 r1"
    "k \<le> 8" "avail s1 = drop k (avail s)" "r = None \<or> map_of (index (tree_of r)) (trim dir) \<noteq> None"
  proof (cases r)
    case None
    obtain f s1 where "ramfs_create_file ?n ?d s = Some (Inr (f, s1))"
      "create_result None (trim ?n) [] ?d f (Some (leaf f (avail s ! 4) (trim ?n) ?d))"
      "fs_rel s1 (Some (leaf f (avail s ! 4) (trim ?n) ?d))" "avail s1 = drop 6 (avail s)"
      using create_root [OF _ l(1,2) en(2)] Cons.prems(4) None by blast
    then show ?thesis using that [of f s1 "[]" "Some (leaf f (avail s ! 4) (trim ?n) ?d)" 6] None by simp
  next
    case (Some t)
    then obtain dir b where db: "base_name (trim ?n) dir b" "trim dir \<in> ?N" using l(4) by (cases t) auto
    have "map_of (index (tree_of r)) (trim dir) \<noteq> None" using db(2) by (metis fst_index map_of_eq_None_iff set_map)
    then show ?thesis
      using create_child [of s t ?n dir b ?d] Cons.prems(4) l(1,2) en(1) closed db(1) that Some unfolding base_name_def by blast
  qed
  obtain t x where n: "r1 = Some t" "the_node f [t] = Some x" "f_name x = trim ?n" "f_isd x = ?d" "f_data x = None" "\<not> f_busy x"
    "fresh_files r1" "kinds r1 = add_mset (trim ?n, ?d) (kinds r)" "f \<noteq> 0"
    by (rule created_node [OF c(2) new c(6) Cons.prems(5,4) c(3)])
  have mp: "map_of (index [t]) (trim ?n) = Some f"
  proof (rule map_of_is_SomeI)
    show "distinct (map fst (index [t]))" using c(3) n(1) by (simp only: fst_index) (simp add: fs_rel_def)
    show "(trim ?n, f) \<in> set (index [t])" using the_node_Some [OF n(2)] n(3) by (force simp: index_def)
  qed
  have e1: "enough 1 s1" by (rule enough_drop [OF Cons.prems(6) c(5)]) (use c(4) in simp)
  obtain s2 j where b: "(if \<not> ?d then load_file ?n f (map m [contents_at ptr (c_namesize ?h)..<contents_at ptr (c_namesize ?h) + unat (c_filesize ?h)]) s1
      else Some (Inr (True, s1))) = Some (Inr (True, s2))" "fs_rel s2 r1" "j \<le> 9" "avail s2 = drop j (avail s)"
  proof (cases "?d")
    case True
    then show ?thesis using that [of s1 k] c(3-5) by simp
  next
    case False
    then obtain s2 where s2: "load_file ?n f (map m [contents_at ptr (c_namesize ?h)..<contents_at ptr (c_namesize ?h) + unat (c_filesize ?h)]) s1
        = Some (Inr (True, s2))" "fs_rel s2 (Some t)" "avail s2 = tl (avail s1)"
      using load_file_spec [of s1 t ?n f x] c(3) n mp l(1) e1 by blast
    have "avail s2 = drop (Suc k) (avail s)" using s2(3) c(5) by (simp add: drop_Suc tl_drop)
    then show ?thesis using that [of s2 "Suc k"] s2 False n(1) c(4) by simp
  qed
  have run: "initramfs_loop m trailer ptr s = initramfs_loop m trailer ?p s2"
    using st cs c(1) n(9) b(1) l(5) h
    by (subst initramfs_loop.simps) (auto simp: Let_def cstring_at split: if_splits)
  have e2: "enough (9 * length es) s2" by (rule enough_drop [OF Cons.prems(6) b(4)]) (use b(3) in simp)
  have "set_mset (image_mset fst (kinds r1)) = set_mset (image_mset fst (add_mset (trim ?n, ?d) (kinds r)))" using n(8) by simp
  then have N: "set (names (tree_of r1)) = insert (trim ?n) ?N" by (simp add: image_image)
  have l': "loadable (set (names (tree_of r1))) es" using l(6) N by simp
  obtain s' r' where "initramfs_loop m trailer ?p s2 = Some (Inr s')" "fs_rel s' r'" "fresh_files r'"
    "kinds r' = kinds r1 + mset (map (\<lambda>e. (trim (cname e), S_ISDIR (cmode e))) es)"
    using Cons.IH [OF a(2) l' Cons.prems(3) b(2) n(7) e2] by blast
  then show ?case using run n(8) by auto
qed

end
