(* ===== verification/Ramfs_Props.thy ===== *)
theory Ramfs_Props
  imports Initramfs_Spec
begin

unbundle bit_operations_syntax

text \<open>The properties of the file system in memory and of the archive it is loaded from.\<close>

section \<open>Examples\<close>

definition ex_entry :: "name \<Rightarrow> nat \<Rightarrow> nat \<Rightarrow> bool \<Rightarrow> fentry" where
  "ex_entry n p l d = (new_fentry n p)\<lparr>children := l, is_dir := d\<rparr>"

definition ex_empty :: fs where
  "ex_empty = \<lparr>entries = (\<lambda>_. None), flists = (\<lambda>_. None), root = 0, avail = [1..<40], log = []\<rparr>"

text \<open>The directory \<open>.\<close> with the file \<open>./a\<close>.\<close>

definition ex_fs :: fs where
  "ex_fs = \<lparr>entries = [1 \<mapsto> ex_entry [0x2e] 0 2 True, 3 \<mapsto> ex_entry [0x2e, 0x2f, 0x61] 1 4 False],
     flists = [2 \<mapsto> 3, 4 \<mapsto> 0], root = 1, avail = [10..<40], log = []\<rparr>"

definition ex_tree :: ftree where
  "ex_tree = FNode 1 2 [0x2e] True None False [FNode 3 4 [0x2e, 0x2f, 0x61] False None False []]"

lemma ex_rels: "fs_rel ex_empty None" "fs_rel ex_fs (Some ex_tree)"
  by (simp_all add: fs_rel_def ex_empty_def ex_fs_def ex_tree_def entry_is_def ex_entry_def new_fentry_def)

lemma ex_enough: "k \<le> 30 \<Longrightarrow> enough k ex_empty" "k \<le> 30 \<Longrightarrow> enough k ex_fs"
  by (auto simp: enough_def ex_empty_def ex_fs_def dest: in_set_takeD)

lemma ex_node: "the_node 1 [ex_tree] = Some ex_tree" "map_of (index [ex_tree]) (trim [0x2e]) = Some 1"
  by (simp_all add: the_node_def ex_tree_def trim_def)

section \<open>Search and creation\<close>

text \<open>
  C24. \<open>ramfs_find\<close> returns the entry with the given path, a slash at its end left out, or \<open>NULL\<close> when there
  is none, in every file system that represents a tree with distinct paths; it ends, and changes nothing but
  the blocks of memory it used for a while.
\<close>

theorem ramfs_find_finds:
  assumes "fs_rel s r" "n \<noteq> []" "r \<noteq> None \<longrightarrow> enough 1 s"
  shows "ramfs_find (Some n) s = Some (Inr (ptr_of (map_of (index (tree_of r)) (trim n)),
    if r = None then s else s\<lparr>avail := tl (avail s)\<rparr>))"
  by (rule ramfs_find_spec [OF assms])

theorem ramfs_find_finds_witness:
  "ramfs_find (Some [0x2e, 0x2f, 0x61, 0x2f]) ex_fs = Some (Inr (3, ex_fs\<lparr>avail := tl (avail ex_fs)\<rparr>))"
  using ramfs_find_finds [OF ex_rels(2), of "[0x2e, 0x2f, 0x61, 0x2f]"] ex_enough(2) [of 1]
  by (simp add: ex_tree_def trim_def)



section \<open>Listing\<close>

text \<open>
  \<open>ramfs_readdir\<close> of a directory prints the paths of all entries below it, each directory before what
  is in it and siblings in the order of their creation, and leaves the directory unlocked.
\<close>

theorem ramfs_readdir_lists:
  assumes "fs_rel s (Some t)" "n \<noteq> []" "enough 1 s" "map_of (index [t]) (trim n) = Some f" "the_node f [t] = Some x"
    "f_isd x" "\<not> f_busy x"
  shows "\<exists>s'. ramfs_readdir n s = Some (Inr s') \<and> log s' = log s @ listing (f_kids x) \<and> fs_rel s' (Some t)"
proof -
  have x: "x \<in> set (nodes [t])" "f_addr x = f" using the_node_Some [OF assms(5)] by simp_all
  have r: "forest_at s (root s) [t]" "distinct (addrs [t])" using assms(1) by (simp_all add: fs_rel_def)
  obtain e k where e: "entries s f = Some e" "entry_is e x" "f \<noteq> 0" "flists s (f_list x) = Some k" "forest_at s k (f_kids x)" "f_list x \<noteq> 0"
    using node_at [OF r(1) x(1)] x(2) by auto
  have e': "\<not> locked e" "is_dir e" "children e = f_list x" using e(2) assms(6,7) by (simp_all add: entry_is_def)
  let ?s1 = "s\<lparr>avail := tl (avail s)\<rparr>"
  let ?s2 = "?s1\<lparr>entries := (entries s)(f \<mapsto> e\<lparr>locked := True\<rparr>)\<rparr>"
  let ?s3 = "?s2\<lparr>log := log s @ listing (f_kids x)\<rparr>"
  have find: "ramfs_find (Some n) s = Some (Inr (f, ?s1))" using ramfs_find_spec [OF assms(1,2)] assms(3,4) by simp
  have "f \<notin> set (addrs (f_kids x))" using not_own_descendant [OF r(2) x(1)] x(2) by simp
  then have "forest_at ?s2 k (f_kids x)" by (intro forest_cong [OF _ e(5)]) auto
  then have p: "fentry_list_print (f_list x) ?s2 = Some (Inr ?s3)"
    using print_loop_spec e(4,6) by (simp add: fentry_list_print_def list_begin_def)
  have "e\<lparr>locked := False\<rparr> = e" using e'(1) by simp
  then have "(entries s)(f \<mapsto> e\<lparr>locked := False\<rparr>) = entries s" using e(1) by auto
  then have "unlock_entry f ?s3 = Inr (?s1\<lparr>log := log s @ listing (f_kids x)\<rparr>)"
    using e(3) by (simp add: unlock_entry_def upd_fe_simp)
  then have "ramfs_readdir n s = Some (Inr (?s1\<lparr>log := log s @ listing (f_kids x)\<rparr>))"
    using find e e' p by (simp add: ramfs_readdir_def lock_entry_def fe_simp upd_fe_simp)
  moreover have "fs_rel (?s1\<lparr>log := log s @ listing (f_kids x)\<rparr>) (Some t)" using fs_rel_avail [OF assms(1)] fs_rel_log by blast
  ultimately show ?thesis by (intro exI [of _ "?s1\<lparr>log := log s @ listing (f_kids x)\<rparr>"]) simp
qed

theorem ramfs_readdir_lists_witness:
  "\<exists>s'. ramfs_readdir [0x2e] ex_fs = Some (Inr s') \<and> log s' = log ex_fs @ listing (f_kids ex_tree) \<and> fs_rel s' (Some ex_tree)"
  by (rule ramfs_readdir_lists [OF ex_rels(2) _ _ ex_node(2,1)])
    (simp_all add: ex_enough ex_tree_def)

section \<open>Defects\<close>




text \<open>
  \<open>fentry_release\<close> of any entry that is not locked stops the kernel: \<open>fentry_list_release\<close> frees the list
  of the children, and \<open>fentry_release\<close> frees it again.
\<close>

theorem fentry_release_double_free:
  assumes "fs_rel s (Some t)" "x \<in> set (nodes [t])" "\<not> f_busy x"
  shows "fentry_release (f_addr x) s = Some (Inl Bug)"
proof -
  have "forest_at s (root s) [t]" using assms(1) by (simp add: fs_rel_def)
  then obtain e k where e: "entries s (f_addr x) = Some e" "entry_is e x" "f_addr x \<noteq> 0" "flists s (f_list x) = Some k"
    "forest_at s k (f_kids x)" "f_list x \<noteq> 0" using node_at [OF _ assms(2)] by blast
  have "release_loop k s = Some (Inl Bug) \<or> (\<exists>m. release_loop k s = Some (Inr (s\<lparr>log := m\<rparr>)))" by (rule release_loop_spec [OF e(5)])
  then have "fentry_list_release (f_list x) s = Some (Inl Bug) \<or>
      (\<exists>s'. fentry_list_release (f_list x) s = Some (Inr s') \<and> flists s' (f_list x) = None)"
    using e(4,6) by (auto simp: fentry_list_release_def list_begin_def free_list_def)
  then show ?thesis using e assms(3) by (auto simp: fentry_release_def fe_simp entry_is_def free_list_def)
qed

theorem fentry_release_double_free_witness: "fentry_release 3 ex_fs = Some (Inl Bug)"
  using fentry_release_double_free [OF ex_rels(2), of "FNode 3 4 [0x2e, 0x2f, 0x61] False None False []"]
  by (simp add: ex_tree_def)

section \<open>The archive\<close>



















end
