(* ===== verification/RbTree.thy ===== *)
theory RbTree
  imports Kernel_Base
begin

unbundle bit_operations_syntax

text \<open>
  The red-black trees of \<open>rbtree.c\<close>, with the nodes of the user linked through left, right and parent
  pointers.  A pointer is a 64-bit word, \<open>NULL\<close> is 0; the lowest bit of the parent field is the colour.
  Nodes are the objects of the store \<open>nodes\<close>; using a pointer to no node is a fault.
\<close>

section \<open>State\<close>

record rb_node =
  left :: u64
  right :: u64
  rparent :: u64

record rb_tree =
  nodes :: "u64 \<Rightarrow> rb_node option"
  root :: u64

definition RED :: u64 where "RED = 0"
definition BLACK :: u64 where "BLACK = 1"

definition rd :: "rb_tree \<Rightarrow> u64 \<Rightarrow> rb_node res" where
  "rd s x = (if x = 0 then Inl Fault else case nodes s x of None \<Rightarrow> Inl Fault | Some n \<Rightarrow> Inr n)"

definition upd :: "u64 \<Rightarrow> (rb_node \<Rightarrow> rb_node) \<Rightarrow> rb_tree \<Rightarrow> rb_tree res" where
  "upd x f s = bindE (rd s x) (\<lambda>n. Inr (s\<lparr>nodes := (nodes s)(x \<mapsto> f n)\<rparr>))"

section \<open>Colours and parents\<close>

definition rb_color :: "rb_node \<Rightarrow> u64" where "rb_color n = rparent n AND 1"

definition rb_set_color :: "u64 \<Rightarrow> u64 \<Rightarrow> rb_tree \<Rightarrow> rb_tree res" where
  "rb_set_color x c s = upd x (\<lambda>n. n\<lparr>rparent := (rparent n AND NOT 1) OR c\<rparr>) s"

definition rb_set_red :: "u64 \<Rightarrow> rb_tree \<Rightarrow> rb_tree res" where "rb_set_red x s = rb_set_color x RED s"

definition rb_set_black :: "u64 \<Rightarrow> rb_tree \<Rightarrow> rb_tree res" where "rb_set_black x s = rb_set_color x BLACK s"

definition rb_parent :: "rb_node \<Rightarrow> u64" where "rb_parent n = rparent n AND NOT 1"

definition rb_set_parent :: "u64 \<Rightarrow> u64 \<Rightarrow> rb_tree \<Rightarrow> rb_tree res" where
  "rb_set_parent x p s = upd x (\<lambda>n. n\<lparr>rparent := (rparent n AND 1) OR p\<rparr>) s"

definition rb_red :: "rb_tree \<Rightarrow> u64 \<Rightarrow> bool res" where
  "rb_red s x = (if x = 0 then Inr False else bindE (rd s x) (\<lambda>n. Inr (rb_color n = RED)))"

definition rb_black :: "rb_tree \<Rightarrow> u64 \<Rightarrow> bool res" where
  "rb_black s x = bindE (rb_red s x) (\<lambda>b. Inr (\<not> b))"

section \<open>Rotations\<close>

text \<open>The pointer to \<open>x\<close> in its parent \<open>p\<close>, or the root, becomes \<open>y\<close>.\<close>

definition replace_child :: "u64 \<Rightarrow> u64 \<Rightarrow> u64 \<Rightarrow> rb_tree \<Rightarrow> rb_tree res" where
  "replace_child p x y s =
     (if p \<noteq> 0
      then bindE (rd s p) (\<lambda>n. if left n = x then upd p (left_update (\<lambda>_. y)) s else upd p (right_update (\<lambda>_. y)) s)
      else Inr (s\<lparr>root := y\<rparr>))"

definition rb_rotate_left :: "u64 \<Rightarrow> rb_tree \<Rightarrow> rb_tree res" where
  "rb_rotate_left x s =
     bindE (rd s x) (\<lambda>n.
     let p = rb_parent n; r = right n
     in bindE (rd s r) (\<lambda>nr.
        bindE (upd x (right_update (\<lambda>_. left nr)) s) (\<lambda>s.
        bindE (if left nr \<noteq> 0 then rb_set_parent (left nr) x s else Inr s) (\<lambda>s.
        bindE (upd r (left_update (\<lambda>_. x)) s) (\<lambda>s.
        bindE (rb_set_parent r p s) (\<lambda>s.
        bindE (replace_child p x r s) (\<lambda>s.
        rb_set_parent x r s)))))))"

definition rb_rotate_right :: "u64 \<Rightarrow> rb_tree \<Rightarrow> rb_tree res" where
  "rb_rotate_right x s =
     bindE (rd s x) (\<lambda>n.
     let p = rb_parent n; l = left n
     in bindE (rd s l) (\<lambda>nl.
        bindE (upd x (left_update (\<lambda>_. right nl)) s) (\<lambda>s.
        bindE (if right nl \<noteq> 0 then rb_set_parent (right nl) x s else Inr s) (\<lambda>s.
        bindE (upd l (right_update (\<lambda>_. x)) s) (\<lambda>s.
        bindE (rb_set_parent l p s) (\<lambda>s.
        bindE (replace_child p x l s) (\<lambda>s.
        rb_set_parent x l s)))))))"

section \<open>Traversal\<close>

partial_function (option) rightmost_loop :: "rb_tree \<Rightarrow> u64 \<Rightarrow> u64 res option" where
  "rightmost_loop s x = bindP (Some (rd s x)) (\<lambda>n. if right n \<noteq> 0 then rightmost_loop s (right n) else Some (Inr x))"

definition rb_rightmost_from :: "rb_tree \<Rightarrow> u64 \<Rightarrow> u64 res option" where
  "rb_rightmost_from s x = (if x = 0 then Some (Inr 0) else rightmost_loop s x)"

partial_function (option) leftmost_loop :: "rb_tree \<Rightarrow> u64 \<Rightarrow> u64 res option" where
  "leftmost_loop s x = bindP (Some (rd s x)) (\<lambda>n. if left n \<noteq> 0 then leftmost_loop s (left n) else Some (Inr x))"

definition rb_leftmost_from :: "rb_tree \<Rightarrow> u64 \<Rightarrow> u64 res option" where
  "rb_leftmost_from s x = (if x = 0 then Some (Inr 0) else leftmost_loop s x)"

definition rb_rightmost :: "rb_tree \<Rightarrow> u64 res option" where "rb_rightmost s = rb_rightmost_from s (root s)"

definition rb_leftmost :: "rb_tree \<Rightarrow> u64 res option" where "rb_leftmost s = rb_leftmost_from s (root s)"

text \<open>Climbing while the node is the right (left) child of its parent \<open>p\<close>.\<close>

partial_function (option) climb_right :: "rb_tree \<Rightarrow> u64 \<Rightarrow> u64 \<Rightarrow> u64 res option" where
  "climb_right s x p =
     (if p = 0 then Some (Inr 0)
      else bindP (Some (rd s p)) (\<lambda>n. if right n = x then climb_right s p (rb_parent n) else Some (Inr p)))"

partial_function (option) climb_left :: "rb_tree \<Rightarrow> u64 \<Rightarrow> u64 \<Rightarrow> u64 res option" where
  "climb_left s x p =
     (if p = 0 then Some (Inr 0)
      else bindP (Some (rd s p)) (\<lambda>n. if left n = x then climb_left s p (rb_parent n) else Some (Inr p)))"

definition rb_next :: "rb_tree \<Rightarrow> u64 \<Rightarrow> u64 res option" where
  "rb_next s x =
     (if x = 0 then Some (Inr 0)
      else bindP (Some (rd s x)) (\<lambda>n.
           if right n \<noteq> 0 then rb_leftmost_from s (right n) else climb_right s x (rb_parent n)))"

definition rb_prev :: "rb_tree \<Rightarrow> u64 \<Rightarrow> u64 res option" where
  "rb_prev s x =
     (if x = 0 then Some (Inr 0)
      else bindP (Some (rd s x)) (\<lambda>n.
           if left n \<noteq> 0 then rb_rightmost_from s (left n) else climb_left s x (rb_parent n)))"

section \<open>Insertion\<close>

text \<open>\<open>rb_link\<close> writes the node and the pointer \<open>*plink\<close>: a child of the parent, or the root.\<close>

datatype plink = RootLink | LeftLink u64 | RightLink u64

definition rb_link :: "u64 \<Rightarrow> u64 \<Rightarrow> plink \<Rightarrow> rb_tree \<Rightarrow> rb_tree res" where
  "rb_link node parent plink s =
     bindE (upd node (\<lambda>n. \<lparr>left = 0, right = 0, rparent = parent\<rparr>) s) (\<lambda>s.
     case plink of
       RootLink \<Rightarrow> Inr (s\<lparr>root := node\<rparr>)
     | LeftLink p \<Rightarrow> upd p (left_update (\<lambda>_. node)) s
     | RightLink p \<Rightarrow> upd p (right_update (\<lambda>_. node)) s)"

partial_function (option) insert_loop :: "u64 \<Rightarrow> u64 \<Rightarrow> rb_tree \<Rightarrow> rb_tree res option" where
  "insert_loop node p s =
     bindP (Some (rb_red s p)) (\<lambda>red.
     if \<not> red then Some (Inr s)
     else
       bindP (Some (rd s p)) (\<lambda>np.
       let g = rb_parent np
       in bindP (Some (rd s g)) (\<lambda>ng.
          if p = left ng then
            bindP (Some (rb_red s (right ng))) (\<lambda>r.
            if r then
              bindP (Some (bindE (rb_set_red g s) (\<lambda>s. bindE (rb_set_black p s) (\<lambda>s. rb_set_black (right ng) s)))) (\<lambda>s.
              bindP (Some (rd s g)) (\<lambda>n. insert_loop g (rb_parent n) s))
            else
              bindP (Some (if node = right np then bindE (rb_rotate_left p s) (\<lambda>s. Inr (node, s)) else Inr (p, s))) (\<lambda>(p, s).
              Some (bindE (rb_rotate_right g s) (\<lambda>s. bindE (rb_set_black p s) (\<lambda>s. rb_set_red g s)))))
          else
            bindP (Some (rb_red s (left ng))) (\<lambda>l.
            if l then
              bindP (Some (bindE (rb_set_red g s) (\<lambda>s. bindE (rb_set_black p s) (\<lambda>s. rb_set_black (left ng) s)))) (\<lambda>s.
              bindP (Some (rd s g)) (\<lambda>n. insert_loop g (rb_parent n) s))
            else
              bindP (Some (if node = left np then bindE (rb_rotate_right p s) (\<lambda>s. Inr (node, s)) else Inr (p, s))) (\<lambda>(p, s).
              Some (bindE (rb_rotate_left g s) (\<lambda>s. bindE (rb_set_black p s) (\<lambda>s. rb_set_red g s))))))))"

definition rb_insert :: "u64 \<Rightarrow> rb_tree \<Rightarrow> rb_tree res option" where
  "rb_insert node s =
     bindP (Some (rd s node)) (\<lambda>n.
     bindP (insert_loop node (rb_parent n) s) (\<lambda>s. Some (rb_set_black (root s) s)))"

section \<open>Removal\<close>

text \<open>
  The two halves of the loop of \<open>rb_erase_fix\<close>: first a red brother is rotated away, then the children
  of the brother decide.  The loop goes on with the returned child and parent, or ends.
\<close>

definition both_black :: "rb_tree \<Rightarrow> u64 \<Rightarrow> u64 \<Rightarrow> bool res" where
  "both_black s x y = bindE (rb_black s x) (\<lambda>b. if b then rb_black s y else Inr False)"

text \<open>The brother \<open>b\<close> is black.\<close>

definition black_left :: "u64 \<Rightarrow> u64 \<Rightarrow> rb_tree \<Rightarrow> ((u64 \<times> u64) option \<times> rb_tree) res" where
  "black_left parent b s =
     bindE (rd s b) (\<lambda>nb.
     bindE (both_black s (left nb) (right nb)) (\<lambda>bb.
     if bb then
       bindE (rb_set_red b s) (\<lambda>s. bindE (rd s parent) (\<lambda>np. Inr (Some (parent, rb_parent np), s)))
     else
       bindE (rb_black s (right nb)) (\<lambda>br.
       bindE (if br then bindE (rb_set_black (left nb) s) (\<lambda>s. bindE (rb_set_red b s) (\<lambda>s.
                         bindE (rb_rotate_right b s) (\<lambda>s. bindE (rd s parent) (\<lambda>np. Inr (right np, s)))))
              else Inr (b, s)) (\<lambda>(b, s).
       bindE (rd s parent) (\<lambda>np.
       bindE (rb_set_color b (rb_color np) s) (\<lambda>s.
       bindE (rb_set_black parent s) (\<lambda>s.
       bindE (rd s b) (\<lambda>nb.
       bindE (if right nb \<noteq> 0 then rb_set_black (right nb) s else Inr s) (\<lambda>s.
       bindE (rb_rotate_left parent s) (\<lambda>s. Inr (None, s)))))))))))"

definition fix_left :: "u64 \<Rightarrow> rb_tree \<Rightarrow> ((u64 \<times> u64) option \<times> rb_tree) res" where
  "fix_left parent s =
     bindE (rd s parent) (\<lambda>np.
     let b = right np
     in bindE (rb_red s b) (\<lambda>red.
        bindE (if red then bindE (rb_set_black b s) (\<lambda>s. bindE (rb_set_red parent s) (\<lambda>s.
                           bindE (rb_rotate_left parent s) (\<lambda>s. bindE (rd s parent) (\<lambda>np. Inr (right np, s)))))
               else Inr (b, s)) (\<lambda>(b, s). black_left parent b s)))"

definition black_right :: "u64 \<Rightarrow> u64 \<Rightarrow> rb_tree \<Rightarrow> ((u64 \<times> u64) option \<times> rb_tree) res" where
  "black_right parent b s =
     bindE (rd s b) (\<lambda>nb.
     bindE (both_black s (right nb) (left nb)) (\<lambda>bb.
     if bb then
       bindE (rb_set_red b s) (\<lambda>s. bindE (rd s parent) (\<lambda>np. Inr (Some (parent, rb_parent np), s)))
     else
       bindE (rb_black s (left nb)) (\<lambda>bl.
       bindE (if bl then bindE (rb_set_black (right nb) s) (\<lambda>s. bindE (rb_set_red b s) (\<lambda>s.
                         bindE (rb_rotate_left b s) (\<lambda>s. bindE (rd s parent) (\<lambda>np. Inr (left np, s)))))
              else Inr (b, s)) (\<lambda>(b, s).
       bindE (rd s parent) (\<lambda>np.
       bindE (rb_set_color b (rb_color np) s) (\<lambda>s.
       bindE (rb_set_black parent s) (\<lambda>s.
       bindE (rd s b) (\<lambda>nb.
       bindE (if left nb \<noteq> 0 then rb_set_black (left nb) s else Inr s) (\<lambda>s.
       bindE (rb_rotate_right parent s) (\<lambda>s. Inr (None, s)))))))))))"

definition fix_right :: "u64 \<Rightarrow> rb_tree \<Rightarrow> ((u64 \<times> u64) option \<times> rb_tree) res" where
  "fix_right parent s =
     bindE (rd s parent) (\<lambda>np.
     let b = left np
     in bindE (rb_red s b) (\<lambda>red.
        bindE (if red then bindE (rb_set_black b s) (\<lambda>s. bindE (rb_set_red parent s) (\<lambda>s.
                           bindE (rb_rotate_right parent s) (\<lambda>s. bindE (rd s parent) (\<lambda>np. Inr (left np, s)))))
               else Inr (b, s)) (\<lambda>(b, s). black_right parent b s)))"

text \<open>The loop ends with the child whose colour becomes black.\<close>

partial_function (option) erase_loop :: "u64 \<Rightarrow> u64 \<Rightarrow> rb_tree \<Rightarrow> (u64 \<times> rb_tree) res option" where
  "erase_loop child parent s =
     bindP (Some (rb_black s child)) (\<lambda>b.
     if \<not> b \<or> child = root s then Some (Inr (child, s))
     else
       bindP (Some (rd s parent)) (\<lambda>np.
       bindP (Some (if child = left np then fix_left parent s else fix_right parent s)) (\<lambda>(next, s).
       case next of
         None \<Rightarrow> Some (Inr (root s, s))
       | Some (child, parent) \<Rightarrow> erase_loop child parent s)))"

definition rb_erase_fix :: "u64 \<Rightarrow> u64 \<Rightarrow> rb_tree \<Rightarrow> rb_tree res option" where
  "rb_erase_fix child parent s =
     bindP (erase_loop child parent s) (\<lambda>(child, s).
     Some (if child \<noteq> 0 then rb_set_black child s else Inr s))"

text \<open>
  Unlinking: the result is the child \<open>c\<close> that took the place of the removed position, its parent \<open>p\<close>, the
  node \<open>x\<close> that takes the place of \<open>node\<close>, and the colour that was lost.
\<close>

definition erase_two :: "u64 \<Rightarrow> rb_tree \<Rightarrow> (u64 \<times> u64 \<times> u64 \<times> u64 \<times> rb_tree) res option" where
  "erase_two node s =
     bindP (rb_next s node) (\<lambda>x.
     bindP (Some (rd s x)) (\<lambda>nx.
     bindP (Some (rd s node)) (\<lambda>n.
     let c = right nx; color = rb_color nx
     in Some (
       if x = right n then
         bindE (upd x (\<lambda>nx. nx\<lparr>left := left n, rparent := rparent n\<rparr>) s) (\<lambda>s.
         bindE (rb_set_parent (left n) x s) (\<lambda>s. Inr (c, x, x, color, s)))
       else
         (let p = rb_parent nx
          in bindE (upd x (\<lambda>_. n) s) (\<lambda>s.
             bindE (upd p (left_update (\<lambda>_. c)) s) (\<lambda>s.
             bindE (if c \<noteq> 0 then rb_set_parent c p s else Inr s) (\<lambda>s.
             bindE (rd s x) (\<lambda>nx.
             bindE (rb_set_parent (left nx) x s) (\<lambda>s.
             bindE (rd s x) (\<lambda>nx.
             bindE (rb_set_parent (right nx) x s) (\<lambda>s. Inr (c, p, x, color, s)))))))))))))"

definition erase_one :: "u64 \<Rightarrow> rb_tree \<Rightarrow> (u64 \<times> u64 \<times> u64 \<times> u64 \<times> rb_tree) res" where
  "erase_one node s =
     bindE (rd s node) (\<lambda>n.
     let p = rb_parent n; color = rb_color n; c = (if left n \<noteq> 0 then left n else right n)
     in bindE (if c \<noteq> 0 then rb_set_parent c p s else Inr s) (\<lambda>s. Inr (c, p, c, color, s)))"

definition rb_erase :: "u64 \<Rightarrow> rb_tree \<Rightarrow> rb_tree res option" where
  "rb_erase node s =
     bindP (Some (rd s node)) (\<lambda>n.
     bindP (if left n \<noteq> 0 \<and> right n \<noteq> 0 then erase_two node s else Some (erase_one node s)) (\<lambda>(c, p, x, color, s).
     bindP (Some (rd s node)) (\<lambda>n.
     bindP (Some (replace_child (rb_parent n) node x s)) (\<lambda>s.
     if color = BLACK then rb_erase_fix c p s else Some (Inr s)))))"

end
