(* ===== verification/RbTree_Heap.thy ===== *)
theory RbTree_Heap
  imports RbTree
begin

unbundle bit_operations_syntax

text \<open>
  Linked nodes as trees.  A place in a tree is a subtree with the path of frames above it; every operation
  of \<open>rbtree.c\<close> changes a few nodes around one place, and the lemmas here say how subtree and path change.
\<close>

section \<open>Trees and paths\<close>

datatype color = R | B

fun cbit :: "color \<Rightarrow> u64" where "cbit R = 0" | "cbit B = 1"

datatype rtree = Lf | Nd color rtree u64 rtree

fun tip :: "rtree \<Rightarrow> u64" where "tip Lf = 0" | "tip (Nd c l a r) = a"

fun inorder :: "rtree \<Rightarrow> u64 list" where
  "inorder Lf = []" | "inorder (Nd c l a r) = inorder l @ a # inorder r"

datatype frame = LeftOf color u64 rtree | RightOf color rtree u64

fun plug :: "rtree \<Rightarrow> frame list \<Rightarrow> rtree" where
  "plug t [] = t"
| "plug t (LeftOf c a r # fs) = plug (Nd c t a r) fs"
| "plug t (RightOf c l a # fs) = plug (Nd c l a t) fs"

fun ctop :: "frame list \<Rightarrow> u64" where
  "ctop [] = 0" | "ctop (LeftOf c a r # fs) = a" | "ctop (RightOf c l a # fs) = a"

definition mk :: "color \<Rightarrow> u64 \<Rightarrow> u64 \<Rightarrow> u64 \<Rightarrow> rb_node" where
  "mk c p l r = \<lparr>left = l, right = r, rparent = p OR cbit c\<rparr>"

definition ptr :: "u64 \<Rightarrow> bool" where "ptr a \<longleftrightarrow> a \<noteq> 0 \<and> \<not> bit a 0"

definition link :: "u64 \<Rightarrow> bool" where "link a \<longleftrightarrow> a = 0 \<or> ptr a"

lemma ptr_nonzero [simp]: "ptr a \<Longrightarrow> a \<noteq> 0"
  by (simp add: ptr_def)

lemma ptr_link: "ptr a \<Longrightarrow> link a"
  by (simp add: link_def)

fun tree_at :: "(u64 \<Rightarrow> rb_node option) \<Rightarrow> u64 \<Rightarrow> rtree \<Rightarrow> bool" where
  "tree_at h p Lf = True"
| "tree_at h p (Nd c l a r) = (ptr a \<and> h a = Some (mk c p (tip l) (tip r)) \<and> tree_at h a l \<and> tree_at h a r)"

fun path_at :: "(u64 \<Rightarrow> rb_node option) \<Rightarrow> u64 \<Rightarrow> u64 \<Rightarrow> frame list \<Rightarrow> bool" where
  "path_at h rt y [] = (rt = y)"
| "path_at h rt y (LeftOf c a r # fs) = (ptr a \<and> h a = Some (mk c (ctop fs) y (tip r)) \<and> tree_at h a r \<and> path_at h rt a fs)"
| "path_at h rt y (RightOf c l a # fs) = (ptr a \<and> h a = Some (mk c (ctop fs) (tip l) y) \<and> tree_at h a l \<and> path_at h rt a fs)"

fun frame_nodes :: "frame list \<Rightarrow> u64 set" where
  "frame_nodes [] = {}"
| "frame_nodes (LeftOf c a r # fs) = insert a (set (inorder r)) \<union> frame_nodes fs"
| "frame_nodes (RightOf c l a # fs) = insert a (set (inorder l)) \<union> frame_nodes fs"

definition zip_at :: "rb_tree \<Rightarrow> rtree \<Rightarrow> frame list \<Rightarrow> bool" where
  "zip_at s t fs \<longleftrightarrow> tree_at (nodes s) (ctop fs) t \<and> path_at (nodes s) (root s) (tip t) fs \<and> distinct (inorder (plug t fs))"

lemma zip_up:
  "zip_at s t (LeftOf c a r # fs) \<longleftrightarrow> zip_at s (Nd c t a r) fs"
  "zip_at s t (RightOf c l a # fs) \<longleftrightarrow> zip_at s (Nd c l a t) fs"
  by (auto simp: zip_at_def)

fun lefts :: "frame list \<Rightarrow> u64 list" where
  "lefts [] = []" | "lefts (LeftOf c a r # fs) = lefts fs" | "lefts (RightOf c l a # fs) = lefts fs @ inorder l @ [a]"

fun rights :: "frame list \<Rightarrow> u64 list" where
  "rights [] = []" | "rights (LeftOf c a r # fs) = a # inorder r @ rights fs" | "rights (RightOf c l a # fs) = rights fs"

lemma inorder_plug: "inorder (plug t fs) = lefts fs @ inorder t @ rights fs"
  by (induction t fs rule: plug.induct) simp_all

lemma set_plug: "set (lefts fs) \<union> set (rights fs) = frame_nodes fs"
  by (induction fs rule: frame_nodes.induct) auto

lemma distinct_plug:
  "distinct (inorder (plug t fs)) \<Longrightarrow> distinct (inorder t) \<and> set (inorder t) \<inter> frame_nodes fs = {}"
  unfolding inorder_plug set_plug [symmetric] by auto

lemma distinct_replace:
  "distinct (inorder (plug t fs)) \<Longrightarrow> inorder t' = inorder t \<Longrightarrow> distinct (inorder (plug t' fs))"
  by (simp add: inorder_plug)

section \<open>The packed parent\<close>

lemma link_bit: "link p \<Longrightarrow> \<not> bit p 0"
  by (auto simp: link_def ptr_def)

lemma mk_color [simp]: "link p \<Longrightarrow> rb_color (mk c p l r) = cbit c"
proof -
  assume p: "link p"
  have "(p OR cbit c) AND 1 = cbit c"
  proof (rule bit_eqI)
    show "bit ((p OR cbit c) AND 1) n = bit (cbit c) n" for n
      using link_bit [OF p] by (cases c; cases n) (simp_all add: bit_and_iff bit_or_iff bit_1_iff)
  qed
  then show ?thesis by (simp add: mk_def rb_color_def)
qed

lemma mk_parent [simp]: "link p \<Longrightarrow> rb_parent (mk c p l r) = p"
proof -
  assume p: "link p"
  have "(p OR cbit c) AND NOT 1 = p"
  proof (rule bit_eqI)
    show "bit ((p OR cbit c) AND NOT 1) n = bit p n" if "possible_bit TYPE(64 word) n" for n
      using link_bit [OF p] that by (cases c; cases n) (simp_all add: bit_and_iff bit_or_iff bit_not_iff bit_1_iff)
  qed
  then show ?thesis by (simp add: mk_def rb_parent_def)
qed

lemma mk_set_color: "link p \<Longrightarrow> (mk c p l r)\<lparr>rparent := (rparent (mk c p l r) AND NOT 1) OR cbit d\<rparr> = mk d p l r"
  using mk_parent [of p c l r] by (simp add: mk_def rb_parent_def)

lemma mk_set_parent: "link p \<Longrightarrow> (mk c p l r)\<lparr>rparent := (rparent (mk c p l r) AND 1) OR q\<rparr> = mk c q l r"
  using mk_color [of p c l r] by (simp add: mk_def rb_color_def or.commute)

lemma mk_fields [simp]:
  "left (mk c p l r) = l" "right (mk c p l r) = r"
  "(mk c p l r)\<lparr>left := l'\<rparr> = mk c p l' r" "(mk c p l r)\<lparr>right := r'\<rparr> = mk c p l r'"
  by (simp_all add: mk_def)

lemma cbit_values: "cbit c = RED \<longleftrightarrow> c = R" "cbit c = BLACK \<longleftrightarrow> c = B"
  by (cases c; simp add: RED_def BLACK_def)+

lemma rd_ok: "nodes s x = Some n \<Longrightarrow> ptr x \<Longrightarrow> rd s x = Inr n"
  by (simp add: rd_def)

lemma upd_ok: "nodes s x = Some n \<Longrightarrow> ptr x \<Longrightarrow> upd x f s = Inr (s\<lparr>nodes := (nodes s)(x \<mapsto> f n)\<rparr>)"
  by (simp add: upd_def rd_ok)

lemma set_color_ok:
  "nodes s x = Some (mk c p l r) \<Longrightarrow> ptr x \<Longrightarrow> link p \<Longrightarrow>
   rb_set_black x s = Inr (s\<lparr>nodes := (nodes s)(x \<mapsto> mk B p l r)\<rparr>) \<and>
   rb_set_red x s = Inr (s\<lparr>nodes := (nodes s)(x \<mapsto> mk R p l r)\<rparr>) \<and>
   rb_set_color x (cbit d) s = Inr (s\<lparr>nodes := (nodes s)(x \<mapsto> mk d p l r)\<rparr>)"
  using mk_set_color [of p c l r B] mk_set_color [of p c l r R] mk_set_color [of p c l r d]
  by (simp add: rb_set_black_def rb_set_red_def rb_set_color_def upd_ok BLACK_def RED_def)

lemma set_parent_ok:
  "nodes s x = Some (mk c p l r) \<Longrightarrow> ptr x \<Longrightarrow> link p \<Longrightarrow>
   rb_set_parent x q s = Inr (s\<lparr>nodes := (nodes s)(x \<mapsto> mk c q l r)\<rparr>)"
  using mk_set_parent [of p c l r q] by (simp add: rb_set_parent_def upd_ok)

section \<open>Frames\<close>

lemma tree_frame: "(\<And>y. y \<in> set (inorder t) \<Longrightarrow> h' y = h y) \<Longrightarrow> tree_at h p t \<Longrightarrow> tree_at h' p t"
  by (induction t arbitrary: p) auto

lemma path_frame: "(\<And>y. y \<in> frame_nodes fs \<Longrightarrow> h' y = h y) \<Longrightarrow> path_at h rt y fs \<Longrightarrow> path_at h' rt y fs"
proof (induction fs arbitrary: y rule: frame_nodes.induct)
  case (2 c a r fs)
  then show ?case using tree_frame [of r h' h a] by auto
next
  case (3 c l a fs)
  then show ?case using tree_frame [of l h' h a] by auto
qed simp

lemma path_link: "path_at h rt y fs \<Longrightarrow> link (ctop fs)"
  by (cases fs rule: frame_nodes.cases) (auto simp: link_def)

lemma tip_in: "tip t \<noteq> 0 \<Longrightarrow> tip t \<in> set (inorder t)"
  by (cases t) auto

lemma ctip_in: "fs \<noteq> [] \<Longrightarrow> ctop fs \<in> frame_nodes fs"
  by (cases fs rule: frame_nodes.cases) auto

definition reparent :: "(u64 \<Rightarrow> rb_node option) \<Rightarrow> rtree \<Rightarrow> u64 \<Rightarrow> u64 \<Rightarrow> rb_node option" where
  "reparent h t q = (case t of Lf \<Rightarrow> h | Nd c l a r \<Rightarrow> h(a \<mapsto> mk c q (tip l) (tip r)))"

lemma reparent_other [simp]: "y \<notin> set (inorder t) \<Longrightarrow> reparent h t q y = h y"
  by (cases t) (auto simp: reparent_def)

lemma tree_reparent: "tree_at h p t \<Longrightarrow> distinct (inorder t) \<Longrightarrow> tree_at (reparent h t q) q t"
proof (cases t)
  case (Nd c l a r)
  assume "tree_at h p t" "distinct (inorder t)"
  moreover from this have "tree_at (reparent h t q) a l" "tree_at (reparent h t q) a r"
    using Nd by (auto simp: reparent_def intro!: tree_frame [of _ _ h])
  ultimately show ?thesis using Nd by (simp add: reparent_def)
qed simp

lemma reparent_ok:
  "tree_at (nodes s) p t \<Longrightarrow> link p \<Longrightarrow>
   (if tip t \<noteq> 0 then rb_set_parent (tip t) q s else Inr s) = Inr (s\<lparr>nodes := reparent (nodes s) t q\<rparr>)"
  by (cases t) (simp_all add: reparent_def set_parent_ok)

text \<open>The pointer from above changes.\<close>

definition relink :: "rb_tree \<Rightarrow> frame list \<Rightarrow> u64 \<Rightarrow> rb_tree" where
  "relink s fs z = (case fs of
     [] \<Rightarrow> s\<lparr>root := z\<rparr>
   | LeftOf c a r # gs \<Rightarrow> s\<lparr>nodes := (nodes s)(a \<mapsto> mk c (ctop gs) z (tip r))\<rparr>
   | RightOf c l a # gs \<Rightarrow> s\<lparr>nodes := (nodes s)(a \<mapsto> mk c (ctop gs) (tip l) z)\<rparr>)"

lemma relink_other: "y \<notin> frame_nodes fs \<Longrightarrow> nodes (relink s fs z) y = nodes s y"
  by (cases fs rule: frame_nodes.cases) (auto simp: relink_def)

lemma distinct_frames:
  "distinct (inorder (plug t fs)) \<Longrightarrow> distinct (lefts fs @ rights fs)"
  by (simp add: inorder_plug) blast

lemma frame_fresh:
  "distinct (lefts (LeftOf c a r # fs) @ rights (LeftOf c a r # fs)) \<Longrightarrow> a \<notin> set (inorder r) \<and> a \<notin> frame_nodes fs"
  "distinct (lefts (RightOf c r a # fs) @ rights (RightOf c r a # fs)) \<Longrightarrow> a \<notin> set (inorder r) \<and> a \<notin> frame_nodes fs"
  by (auto simp: set_plug [symmetric])

lemma path_relink:
  assumes "path_at (nodes s) (root s) y fs" "distinct (lefts fs @ rights fs)"
  shows "path_at (nodes (relink s fs z)) (root (relink s fs z)) z fs"
proof (cases fs rule: frame_nodes.cases)
  case (2 c a r gs)
  note fr = frame_fresh(1) [of c a r gs, OF assms(2) [unfolded 2]]
  have t: "tree_at (nodes (relink s fs z)) a r" by (rule tree_frame [of _ _ "nodes s"]) (use fr assms(1) 2 in \<open>auto simp: relink_def\<close>)
  have p: "path_at (nodes (relink s fs z)) (root s) a gs" by (rule path_frame [of _ _ "nodes s"]) (use fr assms(1) 2 in \<open>auto simp: relink_def\<close>)
  show ?thesis using t p assms(1) 2 by (simp add: relink_def)
next
  case (3 c l a gs)
  note fr = frame_fresh(2) [of c l a gs, OF assms(2) [unfolded 3]]
  have t: "tree_at (nodes (relink s fs z)) a l" by (rule tree_frame [of _ _ "nodes s"]) (use fr assms(1) 3 in \<open>auto simp: relink_def\<close>)
  have p: "path_at (nodes (relink s fs z)) (root s) a gs" by (rule path_frame [of _ _ "nodes s"]) (use fr assms(1) 3 in \<open>auto simp: relink_def\<close>)
  show ?thesis using t p assms(1) 3 by (simp add: relink_def)
qed (simp add: relink_def)

lemma replace_child_ok:
  assumes "path_at (nodes s) (root s) y fs" "y \<notin> frame_nodes fs" "y \<noteq> 0"
  shows "replace_child (ctop fs) y z s = Inr (relink s fs z)"
proof (cases fs rule: frame_nodes.cases)
  case (3 c l a gs)
  have "tip l \<noteq> y" using tip_in [of l] assms(2,3) 3 by auto
  then show ?thesis using assms(1) 3 by (simp add: replace_child_def relink_def rd_ok upd_ok)
qed (use assms in \<open>simp_all add: replace_child_def relink_def rd_ok upd_ok\<close>)

section \<open>Rotations\<close>

lemma rotate_left_spec:
  assumes "zip_at s (Nd c a x (Nd d b r e)) fs"
  shows "\<exists>s'. rb_rotate_left x s = Inr s' \<and> zip_at s' (Nd d (Nd c a x b) r e) fs \<and>
    (\<forall>y. y \<notin> set (inorder (plug (Nd c a x (Nd d b r e)) fs)) \<longrightarrow> nodes s' y = nodes s y)"
proof -
  let ?t = "Nd c a x (Nd d b r e)" and ?p = "ctop fs" and ?h = "nodes s"
  have z: "ptr x" "ptr r" "?h x = Some (mk c ?p (tip a) r)" "?h r = Some (mk d x (tip b) (tip e))" "tree_at ?h x a" "tree_at ?h r b"
    "tree_at ?h r e" "path_at ?h (root s) x fs" and di: "distinct (inorder (plug ?t fs))"
    using assms by (auto simp: zip_at_def)
  have lp: "link ?p" by (rule path_link [OF z(8)])
  have lx: "link x" "link r" using z(1,2) by (simp_all add: link_def)
  note df = distinct_plug [OF di] and dl = distinct_frames [OF di]
  have dd: "x \<noteq> r" "x \<notin> set (inorder a)" "x \<notin> set (inorder b)" "x \<notin> set (inorder e)" "r \<notin> set (inorder a)" "r \<notin> set (inorder b)"
    "r \<notin> set (inorder e)" "set (inorder a) \<inter> set (inorder b) = {}" "set (inorder b) \<inter> set (inorder e) = {}"
    "set (inorder a) \<inter> set (inorder e) = {}" "distinct (inorder b)"
    "x \<notin> frame_nodes fs" "r \<notin> frame_nodes fs" "set (inorder a) \<inter> frame_nodes fs = {}" "set (inorder b) \<inter> frame_nodes fs = {}"
    "set (inorder e) \<inter> frame_nodes fs = {}" using df by auto
  define s1 where "s1 = s\<lparr>nodes := ?h(x \<mapsto> mk c ?p (tip a) (tip b))\<rparr>"
  define s2 where "s2 = s1\<lparr>nodes := reparent (nodes s1) b x\<rparr>"
  define s3 where "s3 = s2\<lparr>nodes := (nodes s2)(r \<mapsto> mk d ?p x (tip e))\<rparr>"
  define s4 where "s4 = relink s3 fs r"
  define s5 where "s5 = s4\<lparr>nodes := (nodes s4)(x \<mapsto> mk c r (tip a) (tip b))\<rparr>"
  have b1: "tree_at (nodes s1) r b" by (rule tree_frame [OF _ z(6)]) (use dd in \<open>auto simp: s1_def\<close>)
  have r2: "nodes s2 r = Some (mk d x (tip b) (tip e))" using dd z(4) by (simp add: s2_def s1_def)
  have x3: "nodes s3 x = Some (mk c ?p (tip a) (tip b))" using dd by (simp add: s3_def s2_def s1_def)
  have o3: "nodes s3 y = ?h y" if "y \<notin> {x, r}" "y \<notin> set (inorder b)" for y using that by (simp add: s3_def s2_def s1_def)
  have p3: "path_at (nodes s3) (root s3) x fs"
  proof -
    have "path_at (nodes s3) (root s) x fs" by (rule path_frame [OF _ z(8)]) (rule o3; use dd in blast)
    then show ?thesis by (simp add: s3_def s2_def s1_def)
  qed
  have x4: "nodes s4 x = Some (mk c ?p (tip a) (tip b))" using relink_other [of x fs s3 r] dd(12) x3 by (simp add: s4_def)
  let ?s2 = "s2\<lparr>nodes := (nodes s2)(r \<mapsto> mk d x x (tip e))\<rparr>"
  have u: "upd x (right_update (\<lambda>_. tip b)) s = Inr s1" "upd r (left_update (\<lambda>_. x)) s2 = Inr ?s2"
    using z(1-3) r2 by (simp_all add: upd_ok s1_def)
  have sp: "rb_set_parent r ?p ?s2 = Inr s3" "rb_set_parent x r s4 = Inr s5"
    using z(1,2) lp lx x4 by (simp_all add: set_parent_ok s3_def s5_def)
  have run: "rb_rotate_left x s = Inr s5"
    using rd_ok [OF z(3,1)] rd_ok [OF z(4,2)] lp u sp replace_child_ok [OF p3 dd(12)] reparent_ok [OF b1 lx(2), of x] z(1)
    by (cases "tip b = 0") (simp_all add: rb_rotate_left_def Let_def s2_def [symmetric] s4_def [symmetric])
  have o4: "nodes s4 y = nodes s3 y" if "y \<notin> frame_nodes fs" for y using relink_other [OF that, of s3 r] by (simp add: s4_def)
  have o5: "nodes s5 y = nodes s4 y" if "y \<noteq> x" for y using that by (simp add: s5_def)
  have same: "nodes s5 y = ?h y" if "y \<notin> {x, r}" "y \<notin> set (inorder b)" "y \<notin> frame_nodes fs" for y
    using that o3 o4 o5 by simp
  have ta: "tree_at (nodes s5) x a" by (rule tree_frame [OF _ z(5)], rule same) (use dd(2,5,8,14) in auto)
  have te: "tree_at (nodes s5) r e" by (rule tree_frame [OF _ z(7)], rule same) (use dd(4,7,9,16) in auto)
  have "tree_at (nodes s2) x b" unfolding s2_def using tree_reparent [OF b1 dd(11)] by simp
  moreover have "nodes s5 y = nodes s2 y" if "y \<in> set (inorder b)" for y
  proof -
    have "y \<noteq> x" "y \<noteq> r" "y \<notin> frame_nodes fs" using that dd(3,6,15) by auto
    then show ?thesis using o4 [of y] o5 [of y] by (simp add: s3_def)
  qed
  ultimately have tb: "tree_at (nodes s5) x b" using tree_frame [of b "nodes s5" "nodes s2" x] by blast
  have r5: "nodes s5 r = Some (mk d ?p x (tip e))" using o4 [OF dd(13)] o5 [of r] dd(1) by (simp add: s3_def)
  have p5: "path_at (nodes s5) (root s5) r fs"
  proof -
    have "path_at (nodes s4) (root s4) r fs" using path_relink [OF p3 dl] by (simp add: s4_def)
    then have "path_at (nodes s5) (root s4) r fs" by (rule path_frame [rotated]) (rule o5; use dd(12) in blast)
    then show ?thesis by (simp add: s5_def)
  qed
  have "zip_at s5 (Nd d (Nd c a x b) r e) fs"
    using z(1,2) ta tb te r5 p5 distinct_replace [OF di, of "Nd d (Nd c a x b) r e"] by (simp add: zip_at_def s5_def)
  moreover have "\<forall>y. y \<notin> set (inorder (plug ?t fs)) \<longrightarrow> nodes s5 y = nodes s y"
    using same by (auto simp: inorder_plug set_plug [symmetric])
  ultimately show ?thesis using run by blast
qed

lemma rotate_right_spec:
  assumes "zip_at s (Nd c (Nd d e r b) x a) fs"
  shows "\<exists>s'. rb_rotate_right x s = Inr s' \<and> zip_at s' (Nd d e r (Nd c b x a)) fs \<and>
    (\<forall>y. y \<notin> set (inorder (plug (Nd c (Nd d e r b) x a) fs)) \<longrightarrow> nodes s' y = nodes s y)"
proof -
  let ?t = "Nd c (Nd d e r b) x a" and ?p = "ctop fs" and ?h = "nodes s"
  have z: "ptr x" "ptr r" "?h x = Some (mk c ?p r (tip a))" "?h r = Some (mk d x (tip e) (tip b))" "tree_at ?h x a" "tree_at ?h r b"
    "tree_at ?h r e" "path_at ?h (root s) x fs" and di: "distinct (inorder (plug ?t fs))"
    using assms by (auto simp: zip_at_def)
  have lp: "link ?p" by (rule path_link [OF z(8)])
  have lx: "link x" "link r" using z(1,2) by (simp_all add: link_def)
  note df = distinct_plug [OF di] and dl = distinct_frames [OF di]
  have dd: "x \<noteq> r" "x \<notin> set (inorder a)" "x \<notin> set (inorder b)" "x \<notin> set (inorder e)" "r \<notin> set (inorder a)" "r \<notin> set (inorder b)"
    "r \<notin> set (inorder e)" "set (inorder a) \<inter> set (inorder b) = {}" "set (inorder b) \<inter> set (inorder e) = {}"
    "set (inorder a) \<inter> set (inorder e) = {}" "distinct (inorder b)"
    "x \<notin> frame_nodes fs" "r \<notin> frame_nodes fs" "set (inorder a) \<inter> frame_nodes fs = {}" "set (inorder b) \<inter> frame_nodes fs = {}"
    "set (inorder e) \<inter> frame_nodes fs = {}" using df by auto
  define s1 where "s1 = s\<lparr>nodes := ?h(x \<mapsto> mk c ?p (tip b) (tip a))\<rparr>"
  define s2 where "s2 = s1\<lparr>nodes := reparent (nodes s1) b x\<rparr>"
  define s3 where "s3 = s2\<lparr>nodes := (nodes s2)(r \<mapsto> mk d ?p (tip e) x)\<rparr>"
  define s4 where "s4 = relink s3 fs r"
  define s5 where "s5 = s4\<lparr>nodes := (nodes s4)(x \<mapsto> mk c r (tip b) (tip a))\<rparr>"
  have b1: "tree_at (nodes s1) r b" by (rule tree_frame [OF _ z(6)]) (use dd in \<open>auto simp: s1_def\<close>)
  have r2: "nodes s2 r = Some (mk d x (tip e) (tip b))" using dd z(4) by (simp add: s2_def s1_def)
  have x3: "nodes s3 x = Some (mk c ?p (tip b) (tip a))" using dd by (simp add: s3_def s2_def s1_def)
  have o3: "nodes s3 y = ?h y" if "y \<notin> {x, r}" "y \<notin> set (inorder b)" for y using that by (simp add: s3_def s2_def s1_def)
  have p3: "path_at (nodes s3) (root s3) x fs"
  proof -
    have "path_at (nodes s3) (root s) x fs" by (rule path_frame [OF _ z(8)]) (rule o3; use dd in blast)
    then show ?thesis by (simp add: s3_def s2_def s1_def)
  qed
  have x4: "nodes s4 x = Some (mk c ?p (tip b) (tip a))" using relink_other [of x fs s3 r] dd(12) x3 by (simp add: s4_def)
  let ?s2 = "s2\<lparr>nodes := (nodes s2)(r \<mapsto> mk d x (tip e) x)\<rparr>"
  have u: "upd x (left_update (\<lambda>_. tip b)) s = Inr s1" "upd r (right_update (\<lambda>_. x)) s2 = Inr ?s2"
    using z(1-3) r2 by (simp_all add: upd_ok s1_def)
  have sp: "rb_set_parent r ?p ?s2 = Inr s3" "rb_set_parent x r s4 = Inr s5"
    using z(1,2) lp lx x4 by (simp_all add: set_parent_ok s3_def s5_def)
  have run: "rb_rotate_right x s = Inr s5"
    using rd_ok [OF z(3,1)] rd_ok [OF z(4,2)] lp u sp replace_child_ok [OF p3 dd(12)] reparent_ok [OF b1 lx(2), of x] z(1)
    by (cases "tip b = 0") (simp_all add: rb_rotate_right_def Let_def s2_def [symmetric] s4_def [symmetric])
  have o4: "nodes s4 y = nodes s3 y" if "y \<notin> frame_nodes fs" for y using relink_other [OF that, of s3 r] by (simp add: s4_def)
  have o5: "nodes s5 y = nodes s4 y" if "y \<noteq> x" for y using that by (simp add: s5_def)
  have same: "nodes s5 y = ?h y" if "y \<notin> {x, r}" "y \<notin> set (inorder b)" "y \<notin> frame_nodes fs" for y
    using that o3 o4 o5 by simp
  have ta: "tree_at (nodes s5) x a" by (rule tree_frame [OF _ z(5)], rule same) (use dd(2,5,8,14) in auto)
  have te: "tree_at (nodes s5) r e" by (rule tree_frame [OF _ z(7)], rule same) (use dd(4,7,9,16) in auto)
  have "tree_at (nodes s2) x b" unfolding s2_def using tree_reparent [OF b1 dd(11)] by simp
  moreover have "nodes s5 y = nodes s2 y" if "y \<in> set (inorder b)" for y
  proof -
    have "y \<noteq> x" "y \<noteq> r" "y \<notin> frame_nodes fs" using that dd(3,6,15) by auto
    then show ?thesis using o4 [of y] o5 [of y] by (simp add: s3_def)
  qed
  ultimately have tb: "tree_at (nodes s5) x b" using tree_frame [of b "nodes s5" "nodes s2" x] by blast
  have r5: "nodes s5 r = Some (mk d ?p (tip e) x)" using o4 [OF dd(13)] o5 [of r] dd(1) by (simp add: s3_def)
  have p5: "path_at (nodes s5) (root s5) r fs"
  proof -
    have "path_at (nodes s4) (root s4) r fs" using path_relink [OF p3 dl] by (simp add: s4_def)
    then have "path_at (nodes s5) (root s4) r fs" by (rule path_frame [rotated]) (rule o5; use dd(12) in blast)
    then show ?thesis by (simp add: s5_def)
  qed
  have "zip_at s5 (Nd d e r (Nd c b x a)) fs"
    using z(1,2) ta tb te r5 p5 distinct_replace [OF di, of "Nd d e r (Nd c b x a)"] by (simp add: zip_at_def s5_def)
  moreover have "\<forall>y. y \<notin> set (inorder (plug ?t fs)) \<longrightarrow> nodes s5 y = nodes s y"
    using same by (auto simp: inorder_plug set_plug [symmetric])
  ultimately show ?thesis using run by blast
qed

section \<open>Colours\<close>

fun is_red :: "rtree \<Rightarrow> bool" where "is_red (Nd R l a r) = True" | "is_red t = False"

definition same_outside :: "rb_tree \<Rightarrow> rb_tree \<Rightarrow> u64 set \<Rightarrow> bool" where
  "same_outside s s' A \<longleftrightarrow> (\<forall>y. y \<notin> A \<longrightarrow> nodes s' y = nodes s y)"

lemma same_outside_refl: "same_outside s s A"
  by (simp add: same_outside_def)

lemma same_outside_trans: "same_outside s s' A \<Longrightarrow> same_outside s' s'' A \<Longrightarrow> same_outside s s'' A"
  by (simp add: same_outside_def)

lemma red_ok: "tree_at (nodes s) p t \<Longrightarrow> link p \<Longrightarrow> rb_red s (tip t) = Inr (is_red t)"
proof (cases t)
  case (Nd c l a r)
  assume "tree_at (nodes s) p t" "link p"
  then show ?thesis using Nd by (cases c) (simp_all add: rb_red_def rd_ok RED_def)
qed (simp add: rb_red_def)

lemma path_red_ok:
  assumes "path_at (nodes s) (root s) y fs"
  shows "rb_red s (ctop fs) = Inr (case fs of [] \<Rightarrow> False | LeftOf c a r # _ \<Rightarrow> c = R | RightOf c l a # _ \<Rightarrow> c = R)"
proof (cases fs rule: frame_nodes.cases)
  case (2 c a r gs)
  then have "link (ctop gs)" using assms path_link [of "nodes s" "root s" a gs] by simp
  then show ?thesis using 2 assms by (simp add: rb_red_def rd_ok cbit_values)
next
  case (3 c l a gs)
  then have "link (ctop gs)" using assms path_link [of "nodes s" "root s" a gs] by simp
  then show ?thesis using 3 assms by (simp add: rb_red_def rd_ok cbit_values)
qed (simp add: rb_red_def)

lemma recolor:
  assumes "zip_at s (Nd c l a r) fs"
  shows "\<exists>s'. rb_set_color a (cbit d) s = Inr s' \<and> zip_at s' (Nd d l a r) fs \<and> same_outside s s' (set (inorder (plug (Nd c l a r) fs)))"
proof -
  let ?s = "s\<lparr>nodes := (nodes s)(a \<mapsto> mk d (ctop fs) (tip l) (tip r))\<rparr>"
  have z: "ptr a" "nodes s a = Some (mk c (ctop fs) (tip l) (tip r))" "tree_at (nodes s) a l" "tree_at (nodes s) a r"
    "path_at (nodes s) (root s) a fs" and di: "distinct (inorder (plug (Nd c l a r) fs))" using assms by (auto simp: zip_at_def)
  have lp: "link (ctop fs)" by (rule path_link [OF z(5)])
  note df = distinct_plug [OF di]
  have "rb_set_color a (cbit d) s = Inr ?s" using set_color_ok [OF z(2,1) lp] by simp
  moreover have "tree_at (nodes ?s) a l" "tree_at (nodes ?s) a r" "path_at (nodes ?s) (root s) a fs"
    by (rule tree_frame [OF _ z(3)] tree_frame [OF _ z(4)] path_frame [OF _ z(5)]; use df in auto)+
  then have "zip_at ?s (Nd d l a r) fs" using z(1) distinct_replace [OF di, of "Nd d l a r"] by (simp add: zip_at_def)
  moreover have "a \<in> set (inorder (plug (Nd c l a r) fs))" by (simp add: inorder_plug)
  then have "same_outside s ?s (set (inorder (plug (Nd c l a r) fs)))" by (auto simp: same_outside_def)
  ultimately show ?thesis by blast
qed

lemma blacken_ok:
  assumes "zip_at s (Nd c l a r) fs"
  obtains s' where "rb_set_black a s = Inr s'" "zip_at s' (Nd B l a r) fs" "same_outside s s' (set (inorder (plug (Nd c l a r) fs)))"
  using recolor [OF assms, of B] by (auto simp: rb_set_black_def BLACK_def)

lemma redden_ok:
  assumes "zip_at s (Nd c l a r) fs"
  obtains s' where "rb_set_red a s = Inr s'" "zip_at s' (Nd R l a r) fs" "same_outside s s' (set (inorder (plug (Nd c l a r) fs)))"
  using recolor [OF assms, of R] by (auto simp: rb_set_red_def RED_def)

lemma rotl_ok:
  assumes "zip_at s (Nd c a x (Nd d b r e)) fs"
  obtains s' where "rb_rotate_left x s = Inr s'" "zip_at s' (Nd d (Nd c a x b) r e) fs"
    "same_outside s s' (set (inorder (plug (Nd c a x (Nd d b r e)) fs)))"
  using rotate_left_spec [OF assms] by (auto simp: same_outside_def)

lemma rotr_ok:
  assumes "zip_at s (Nd c (Nd d e r b) x a) fs"
  obtains s' where "rb_rotate_right x s = Inr s'" "zip_at s' (Nd d e r (Nd c b x a)) fs"
    "same_outside s s' (set (inorder (plug (Nd c (Nd d e r b) x a) fs)))"
  using rotate_right_spec [OF assms] by (auto simp: same_outside_def)

lemma zip_node:
  assumes "zip_at s (Nd c l a r) fs"
  shows "rd s a = Inr (mk c (ctop fs) (tip l) (tip r))" "link (ctop fs)" "ptr a" "link a"
  using assms path_link [of "nodes s" "root s" a fs] by (auto simp: zip_at_def rd_ok link_def)


text \<open>A tree at the root is its place with any path taken off.\<close>

lemma zip_plug: "zip_at s (plug t fs) [] \<longleftrightarrow> zip_at s t fs"
  by (induction t fs rule: plug.induct) (simp_all add: zip_up)

definition is_tree :: "rb_tree \<Rightarrow> rtree \<Rightarrow> bool" where
  "is_tree s t \<longleftrightarrow> tree_at (nodes s) 0 t \<and> root s = tip t \<and> distinct (inorder t)"

lemma is_tree_zip: "is_tree s t \<longleftrightarrow> zip_at s t []"
  by (simp add: is_tree_def zip_at_def)

lemma is_tree_plug: "is_tree s (plug t fs) \<longleftrightarrow> zip_at s t fs"
  by (simp add: is_tree_zip zip_plug)

lemma split_unique: "distinct (xs @ a # ys) \<Longrightarrow> xs @ a # ys = us @ a # vs \<Longrightarrow> xs = us \<and> ys = vs"
proof (induction xs arbitrary: us)
  case (Cons x xs us)
  show ?case
  proof (cases us)
    case Nil then show ?thesis using Cons(2,3) by auto
  next
    case (Cons u us')
    then have "xs @ a # ys = us' @ a # vs" using Cons.prems(2) by simp
    moreover have "distinct (xs @ a # ys)" using Cons.prems(1) by (simp only: append_Cons distinct.simps)
    ultimately show ?thesis using Cons.IH [of us'] Cons.prems(2) \<open>us = u # us'\<close> by simp
  qed
qed (auto simp: Cons_eq_append_conv)

lemma place_of:
  assumes "a \<in> set (inorder t)"
  obtains c l r fs where "t = plug (Nd c l a r) fs"
proof -
  have "\<exists>c l r fs. plug t gs = plug (Nd c l a r) fs" for gs
    using assms
  proof (induction t arbitrary: gs)
    case (Nd c l x r)
    then consider "a = x" | "a \<in> set (inorder l)" | "a \<in> set (inorder r)" by auto
    then show ?case
    proof cases
      case 2 then show ?thesis using Nd(1) [of "LeftOf c x r # gs"] by simp
    next
      case 3 then show ?thesis using Nd(2) [of "RightOf c l x # gs"] by simp
    qed blast
  qed simp
  from this [of "[]"] show thesis using that by auto
qed

end
