(* ===== verification/RbTree_Insert.thy ===== *)
theory RbTree_Insert
  imports RbTree_Heap
begin

text \<open>
  Insertion: the loop of \<open>rb_insert\<close> on linked nodes is the function \<open>ins_fix\<close> on places of a tree, which
  keeps the order and repairs the colours.
\<close>

section \<open>The loop on trees\<close>

fun blacken :: "rtree \<Rightarrow> rtree" where "blacken (Nd c l a r) = Nd B l a r" | "blacken Lf = Lf"

fun ins_fix :: "rtree \<Rightarrow> frame list \<Rightarrow> rtree" where
  "ins_fix t (LeftOf R p r # LeftOf c g u # fs) =
     (if is_red u then ins_fix (Nd R (Nd B t p r) g (blacken u)) fs else plug (Nd B t p (Nd R r g u)) fs)"
| "ins_fix (Nd d a n b) (RightOf R l p # LeftOf c g u # fs) =
     (if is_red u then ins_fix (Nd R (Nd B l p (Nd d a n b)) g (blacken u)) fs
      else plug (Nd B (Nd R l p a) n (Nd R b g u)) fs)"
| "ins_fix t (RightOf R l p # RightOf c u g # fs) =
     (if is_red u then ins_fix (Nd R (blacken u) g (Nd B l p t)) fs else plug (Nd B (Nd R u g l) p t) fs)"
| "ins_fix (Nd d a n b) (LeftOf R p r # RightOf c u g # fs) =
     (if is_red u then ins_fix (Nd R (blacken u) g (Nd B (Nd d a n b) p r)) fs
      else plug (Nd B (Nd R u g a) n (Nd R b p r)) fs)"
| "ins_fix t fs = plug t fs"

fun fcolor :: "frame \<Rightarrow> color" where "fcolor (LeftOf c a r) = c" | "fcolor (RightOf c l a) = c"

definition root_black :: "frame list \<Rightarrow> bool" where "root_black fs \<longleftrightarrow> fs = [] \<or> fcolor (last fs) = B"

lemma inorder_blacken [simp]: "inorder (blacken t) = inorder t"
  by (cases t) auto

lemma inorder_plug_cong: "inorder t = inorder t' \<Longrightarrow> inorder (plug t fs) = inorder (plug t' fs)"
  by (simp add: inorder_plug)

lemma inorder_ins_fix: "inorder (ins_fix t fs) = inorder (plug t fs)"
  by (induction t fs rule: ins_fix.induct) (auto simp: inorder_plug)

section \<open>The loop on nodes\<close>

lemma zip_root: "zip_at s t fs \<Longrightarrow> zip_at s (plug t fs) []"
  by (induction t fs rule: plug.induct) (simp_all add: zip_up)

lemma red_node: "is_red u \<Longrightarrow> \<exists>l a r. u = Nd R l a r"
  by (cases u rule: is_red.cases) auto

text \<open>The three recolourings of the case with a red uncle.\<close>

lemma recolor3:
  assumes "zip_at s (Nd c (Nd R a p b) g (Nd R d u e)) fs" "A = set (inorder (plug (Nd c (Nd R a p b) g (Nd R d u e)) fs))"
  obtains s' where "bindE (rb_set_red g s) (\<lambda>s. bindE (rb_set_black p s) (\<lambda>s. rb_set_black u s)) = Inr s'"
    "zip_at s' (Nd R (Nd B a p b) g (Nd B d u e)) fs" "same_outside s s' A"
proof -
  obtain s1 where s1: "rb_set_red g s = Inr s1" "zip_at s1 (Nd R (Nd R a p b) g (Nd R d u e)) fs" "same_outside s s1 A"
    using redden_ok [OF assms(1)] assms(2) by metis
  obtain s2 where s2: "rb_set_black p s1 = Inr s2" "zip_at s2 (Nd R (Nd B a p b) g (Nd R d u e)) fs" "same_outside s1 s2 A"
    using blacken_ok [of s1 R a p b "LeftOf R g (Nd R d u e) # fs"] s1(2) assms(2) by (auto simp: zip_up inorder_plug)
  obtain s3 where s3: "rb_set_black u s2 = Inr s3" "zip_at s3 (Nd R (Nd B a p b) g (Nd B d u e)) fs" "same_outside s2 s3 A"
    using blacken_ok [of s2 R d u e "RightOf R (Nd B a p b) g # fs"] s2(2) assms(2) by (auto simp: zip_up inorder_plug)
  show thesis
    by (rule that [OF _ s3(2) same_outside_trans [OF same_outside_trans [OF s1(3) s2(3)] s3(3)]]) (simp add: s1(1) s2(1) s3(1))
qed

lemma recolor3r:
  assumes "zip_at s (Nd c (Nd R a u b) g (Nd R d p e)) fs" "A = set (inorder (plug (Nd c (Nd R a u b) g (Nd R d p e)) fs))"
  obtains s' where "bindE (rb_set_red g s) (\<lambda>s. bindE (rb_set_black p s) (\<lambda>s. rb_set_black u s)) = Inr s'"
    "zip_at s' (Nd R (Nd B a u b) g (Nd B d p e)) fs" "same_outside s s' A"
proof -
  obtain s1 where s1: "rb_set_red g s = Inr s1" "zip_at s1 (Nd R (Nd R a u b) g (Nd R d p e)) fs" "same_outside s s1 A"
    using redden_ok [OF assms(1)] assms(2) by metis
  obtain s2 where s2: "rb_set_black p s1 = Inr s2" "zip_at s2 (Nd R (Nd R a u b) g (Nd B d p e)) fs" "same_outside s1 s2 A"
    using blacken_ok [of s1 R d p e "RightOf R (Nd R a u b) g # fs"] s1(2) assms(2) by (auto simp: zip_up inorder_plug)
  obtain s3 where s3: "rb_set_black u s2 = Inr s3" "zip_at s3 (Nd R (Nd B a u b) g (Nd B d p e)) fs" "same_outside s2 s3 A"
    using blacken_ok [of s2 R a u b "LeftOf R g (Nd B d p e) # fs"] s2(2) assms(2) by (auto simp: zip_up inorder_plug)
  show thesis
    by (rule that [OF _ s3(2) same_outside_trans [OF same_outside_trans [OF s1(3) s2(3)] s3(3)]]) (simp add: s1(1) s2(1) s3(1))
qed

text \<open>The final rotation at the grandparent and its two recolourings.\<close>

lemma finish_left:
  assumes "zip_at s (Nd c (Nd R a p b) g u) fs" "A = set (inorder (plug (Nd c (Nd R a p b) g u) fs))"
  obtains s' where "bindE (rb_rotate_right g s) (\<lambda>s. bindE (rb_set_black p s) (\<lambda>s. rb_set_red g s)) = Inr s'"
    "zip_at s' (plug (Nd B a p (Nd R b g u)) fs) []" "same_outside s s' A"
proof -
  obtain s1 where s1: "rb_rotate_right g s = Inr s1" "zip_at s1 (Nd R a p (Nd c b g u)) fs" "same_outside s s1 A"
    using rotr_ok [OF assms(1)] assms(2) by metis
  obtain s2 where s2: "rb_set_black p s1 = Inr s2" "zip_at s2 (Nd B a p (Nd c b g u)) fs" "same_outside s1 s2 A"
    using blacken_ok [OF s1(2)] assms(2) by (auto simp: inorder_plug)
  obtain s3 where s3: "rb_set_red g s2 = Inr s3" "zip_at s3 (Nd B a p (Nd R b g u)) fs" "same_outside s2 s3 A"
    using redden_ok [of s2 c b g u "RightOf B a p # fs"] s2(2) assms(2) by (auto simp: zip_up inorder_plug)
  show thesis
    by (rule that [OF _ zip_root [OF s3(2)] same_outside_trans [OF same_outside_trans [OF s1(3) s2(3)] s3(3)]])
      (simp add: s1(1) s2(1) s3(1))
qed

lemma finish_right:
  assumes "zip_at s (Nd c u g (Nd R a p b)) fs" "A = set (inorder (plug (Nd c u g (Nd R a p b)) fs))"
  obtains s' where "bindE (rb_rotate_left g s) (\<lambda>s. bindE (rb_set_black p s) (\<lambda>s. rb_set_red g s)) = Inr s'"
    "zip_at s' (plug (Nd B (Nd R u g a) p b) fs) []" "same_outside s s' A"
proof -
  obtain s1 where s1: "rb_rotate_left g s = Inr s1" "zip_at s1 (Nd R (Nd c u g a) p b) fs" "same_outside s s1 A"
    using rotl_ok [OF assms(1)] assms(2) by metis
  obtain s2 where s2: "rb_set_black p s1 = Inr s2" "zip_at s2 (Nd B (Nd c u g a) p b) fs" "same_outside s1 s2 A"
    using blacken_ok [OF s1(2)] assms(2) by (auto simp: inorder_plug)
  obtain s3 where s3: "rb_set_red g s2 = Inr s3" "zip_at s3 (Nd B (Nd R u g a) p b) fs" "same_outside s2 s3 A"
    using redden_ok [of s2 c u g a "LeftOf B p b # fs"] s2(2) assms(2) by (auto simp: zip_up inorder_plug)
  show thesis
    by (rule that [OF _ zip_root [OF s3(2)] same_outside_trans [OF same_outside_trans [OF s1(3) s2(3)] s3(3)]])
      (simp add: s1(1) s2(1) s3(1))
qed

lemma not_B: "c \<noteq> B \<longleftrightarrow> c = R"
  by (cases c) auto

text \<open>
  The loop, by the length of the path: at the root or under a black parent it stops, otherwise there is a
  grandparent and one of the four shapes.
\<close>

lemma insert_loop_spec:
  assumes "zip_at s (Nd R a n b) fs" "root_black fs" "A = set (inorder (plug (Nd R a n b) fs))"
  shows "\<exists>s'. insert_loop n (ctop fs) s = Some (Inr s') \<and> zip_at s' (ins_fix (Nd R a n b) fs) [] \<and> same_outside s s' A"
  using assms
proof (induction "length fs" arbitrary: s a n b fs rule: less_induct)
  case less
  have pa: "path_at (nodes s) (root s) n fs" using less.prems(1) by (simp add: zip_at_def)
  note pr = path_red_ok [OF pa]
  show ?case
  proof (cases "fs = [] \<or> fcolor (hd fs) = B")
    case True
    then have "rb_red s (ctop fs) = Inr False" using pr by (cases fs rule: frame_nodes.cases) auto
    then have "insert_loop n (ctop fs) s = Some (Inr s)" by (subst insert_loop.simps) simp
    moreover have "ins_fix (Nd R a n b) fs = plug (Nd R a n b) fs"
      using True by (cases "(Nd R a n b, fs)" rule: ins_fix.cases) auto
    ultimately show ?thesis using less.prems(1) zip_root same_outside_refl by auto
  next
    case False
    then have red: "rb_red s (ctop fs) = Inr True" using pr by (cases fs rule: frame_nodes.cases) (auto simp: not_B)
    obtain f f2 gs where fs: "fs = f # f2 # gs" "fcolor f = R" "root_black gs"
      using False less.prems(2) by (cases fs; cases "tl fs") (auto simp: root_black_def not_B split: if_splits)
    have tree: "zip_at s (Nd R a n b) (f # f2 # gs)" using less.prems(1) fs by simp
    show ?thesis
    proof (cases f2)
      case f2: (LeftOf c g u)
      show ?thesis
      proof (cases f)
        case f: (LeftOf pc p r)
        then have pc: "pc = R" using fs by simp
        have z: "zip_at s (Nd c (Nd R (Nd R a n b) p r) g u) gs" using tree f f2 pc by (simp add: zip_up)
        have zp: "zip_at s (Nd R (Nd R a n b) p r) (LeftOf c g u # gs)" using z by (simp add: zip_up)
        note np = zip_node [OF zp] and ng = zip_node [OF z]
        have nn: "n \<noteq> tip r" using less.prems(1) f fs tip_in [of r] by (auto simp: zip_at_def dest!: distinct_plug)
        have ru: "rb_red s (tip u) = Inr (is_red u)" using z ng(4) by (intro red_ok [of _ g]) (simp_all add: zip_at_def)
        show ?thesis
        proof (cases "is_red u")
          case True
          then obtain ul ux ur where u: "u = Nd R ul ux ur" using red_node by blast
          obtain s' where s': "bindE (rb_set_red g s) (\<lambda>s. bindE (rb_set_black p s) (\<lambda>s. rb_set_black ux s)) = Inr s'"
            "zip_at s' (Nd R (Nd B (Nd R a n b) p r) g (Nd B ul ux ur)) gs" "same_outside s s' A"
            using recolor3 [OF z [unfolded u]] less.prems(3) fs f f2 u pc by (metis plug.simps(2))
          note ng' = zip_node [OF s'(2)]
          have "\<exists>s''. insert_loop g (ctop gs) s' = Some (Inr s'') \<and>
              zip_at s'' (ins_fix (Nd R (Nd B (Nd R a n b) p r) g (Nd B ul ux ur)) gs) [] \<and> same_outside s' s'' A"
            by (rule less.hyps [OF _ s'(2) fs(3)]) (use fs f f2 u less.prems(3) in \<open>simp_all add: inorder_plug\<close>)
          then obtain s'' where s'': "insert_loop g (ctop gs) s' = Some (Inr s'')"
            "zip_at s'' (ins_fix (Nd R (Nd B (Nd R a n b) p r) g (Nd B ul ux ur)) gs) []" "same_outside s' s'' A" by blast
          have "insert_loop n (ctop fs) s = insert_loop g (ctop gs) s'"
            using red np ng ru u s'(1) ng' fs f f2 by (subst insert_loop.simps) simp
          then show ?thesis using s'' same_outside_trans [OF s'(3) s''(3)] fs f f2 u pc by simp
        next
          case nu: False
          obtain s' where s': "bindE (rb_rotate_right g s) (\<lambda>s. bindE (rb_set_black p s) (\<lambda>s. rb_set_red g s)) = Inr s'"
            "zip_at s' (plug (Nd B (Nd R a n b) p (Nd R r g u)) gs) []" "same_outside s s' A"
            using finish_left [OF z] less.prems(3) fs f f2 pc by (metis plug.simps(2))
          have "insert_loop n (ctop fs) s = Some (Inr s')"
            using red np ng ru nu nn s'(1) fs f f2 by (subst insert_loop.simps) simp
          then show ?thesis using s' fs f f2 pc nu by simp
        qed
      next
        case f: (RightOf pc l p)
        then have pc: "pc = R" using fs by simp
        have z: "zip_at s (Nd c (Nd R l p (Nd R a n b)) g u) gs" using tree f f2 pc by (simp add: zip_up)
        have zp: "zip_at s (Nd R l p (Nd R a n b)) (LeftOf c g u # gs)" using z by (simp add: zip_up)
        note np = zip_node [OF zp] and ng = zip_node [OF z]
        have ru: "rb_red s (tip u) = Inr (is_red u)" using z ng(4) by (intro red_ok [of _ g]) (simp_all add: zip_at_def)
        show ?thesis
        proof (cases "is_red u")
          case True
          then obtain ul ux ur where u: "u = Nd R ul ux ur" using red_node by blast
          obtain s' where s': "bindE (rb_set_red g s) (\<lambda>s. bindE (rb_set_black p s) (\<lambda>s. rb_set_black ux s)) = Inr s'"
            "zip_at s' (Nd R (Nd B l p (Nd R a n b)) g (Nd B ul ux ur)) gs" "same_outside s s' A"
            using recolor3 [OF z [unfolded u]] less.prems(3) fs f f2 u pc by (metis plug.simps(2,3))
          note ng' = zip_node [OF s'(2)]
          have "\<exists>s''. insert_loop g (ctop gs) s' = Some (Inr s'') \<and>
              zip_at s'' (ins_fix (Nd R (Nd B l p (Nd R a n b)) g (Nd B ul ux ur)) gs) [] \<and> same_outside s' s'' A"
            by (rule less.hyps [OF _ s'(2) fs(3)]) (use fs f f2 u less.prems(3) in \<open>simp_all add: inorder_plug\<close>)
          then obtain s'' where s'': "insert_loop g (ctop gs) s' = Some (Inr s'')"
            "zip_at s'' (ins_fix (Nd R (Nd B l p (Nd R a n b)) g (Nd B ul ux ur)) gs) []" "same_outside s' s'' A" by blast
          have "insert_loop n (ctop fs) s = insert_loop g (ctop gs) s'"
            using red np ng ru u s'(1) ng' fs f f2 by (subst insert_loop.simps) simp
          then show ?thesis using s'' same_outside_trans [OF s'(3) s''(3)] fs f f2 u pc by simp
        next
          case nu: False
          obtain s1 where s1: "rb_rotate_left p s = Inr s1" "zip_at s1 (Nd R (Nd R l p a) n b) (LeftOf c g u # gs)" "same_outside s s1 A"
            using rotl_ok [OF zp] less.prems(3) fs f f2 pc by (metis plug.simps(3))
          have z1: "zip_at s1 (Nd c (Nd R (Nd R l p a) n b) g u) gs" using s1(2) by (simp add: zip_up)
          have A1: "A = set (inorder (plug (Nd c (Nd R (Nd R l p a) n b) g u) gs))"
            using less.prems(3) fs f f2 by (simp add: inorder_plug)
          obtain s' where s': "bindE (rb_rotate_right g s1) (\<lambda>s. bindE (rb_set_black n s) (\<lambda>s. rb_set_red g s)) = Inr s'"
            "zip_at s' (plug (Nd B (Nd R l p a) n (Nd R b g u)) gs) []" "same_outside s1 s' A"
            by (rule finish_left [OF z1 A1])
          have "insert_loop n (ctop fs) s = Some (Inr s')"
            using red np ng ru nu s1(1) s'(1) fs f f2 by (subst insert_loop.simps) simp
          then show ?thesis using s' same_outside_trans [OF s1(3) s'(3)] fs f f2 pc nu by simp
        qed
      qed
    next
      case f2: (RightOf c u g)
      show ?thesis
      proof (cases f)
        case f: (RightOf pc l p)
        then have pc: "pc = R" using fs by simp
        have z: "zip_at s (Nd c u g (Nd R l p (Nd R a n b))) gs" using tree f f2 pc by (simp add: zip_up)
        have zp: "zip_at s (Nd R l p (Nd R a n b)) (RightOf c u g # gs)" using z by (simp add: zip_up)
        note np = zip_node [OF zp] and ng = zip_node [OF z]
        have nn: "n \<noteq> tip l" using less.prems(1) f fs tip_in [of l] by (auto simp: zip_at_def dest!: distinct_plug)
        have pu: "p \<noteq> tip u" using zp tip_in [of u] np(3) by (auto simp: zip_at_def dest!: distinct_plug)
        have ru: "rb_red s (tip u) = Inr (is_red u)" using z ng(4) by (intro red_ok [of _ g]) (simp_all add: zip_at_def)
        show ?thesis
        proof (cases "is_red u")
          case True
          then obtain ul ux ur where u: "u = Nd R ul ux ur" using red_node by blast
          obtain s' where s': "bindE (rb_set_red g s) (\<lambda>s. bindE (rb_set_black p s) (\<lambda>s. rb_set_black ux s)) = Inr s'"
            "zip_at s' (Nd R (Nd B ul ux ur) g (Nd B l p (Nd R a n b))) gs" "same_outside s s' A"
            using recolor3r [OF z [unfolded u]] less.prems(3) fs f f2 u pc by (metis plug.simps(3))
          note ng' = zip_node [OF s'(2)]
          have "\<exists>s''. insert_loop g (ctop gs) s' = Some (Inr s'') \<and>
              zip_at s'' (ins_fix (Nd R (Nd B ul ux ur) g (Nd B l p (Nd R a n b))) gs) [] \<and> same_outside s' s'' A"
            by (rule less.hyps [OF _ s'(2) fs(3)]) (use fs f f2 u less.prems(3) in \<open>simp_all add: inorder_plug\<close>)
          then obtain s'' where s'': "insert_loop g (ctop gs) s' = Some (Inr s'')"
            "zip_at s'' (ins_fix (Nd R (Nd B ul ux ur) g (Nd B l p (Nd R a n b))) gs) []" "same_outside s' s'' A" by blast
          have "insert_loop n (ctop fs) s = insert_loop g (ctop gs) s'"
            using red np ng ru u s'(1) ng' pu fs f f2 by (subst insert_loop.simps) simp
          then show ?thesis using s'' same_outside_trans [OF s'(3) s''(3)] fs f f2 u pc by simp
        next
          case nu: False
          obtain s' where s': "bindE (rb_rotate_left g s) (\<lambda>s. bindE (rb_set_black p s) (\<lambda>s. rb_set_red g s)) = Inr s'"
            "zip_at s' (plug (Nd B (Nd R u g l) p (Nd R a n b)) gs) []" "same_outside s s' A"
            using finish_right [OF z] less.prems(3) fs f f2 pc by (metis plug.simps(3))
          have "insert_loop n (ctop fs) s = Some (Inr s')"
            using red np ng ru nu nn pu s'(1) fs f f2 by (subst insert_loop.simps) simp
          then show ?thesis using s' fs f f2 pc nu by simp
        qed
      next
        case f: (LeftOf pc p r)
        then have pc: "pc = R" using fs by simp
        have z: "zip_at s (Nd c u g (Nd R (Nd R a n b) p r)) gs" using tree f f2 pc by (simp add: zip_up)
        have zp: "zip_at s (Nd R (Nd R a n b) p r) (RightOf c u g # gs)" using z by (simp add: zip_up)
        note np = zip_node [OF zp] and ng = zip_node [OF z]
        have pu: "p \<noteq> tip u" using zp tip_in [of u] np(3) by (auto simp: zip_at_def dest!: distinct_plug)
        have ru: "rb_red s (tip u) = Inr (is_red u)" using z ng(4) by (intro red_ok [of _ g]) (simp_all add: zip_at_def)
        show ?thesis
        proof (cases "is_red u")
          case True
          then obtain ul ux ur where u: "u = Nd R ul ux ur" using red_node by blast
          obtain s' where s': "bindE (rb_set_red g s) (\<lambda>s. bindE (rb_set_black p s) (\<lambda>s. rb_set_black ux s)) = Inr s'"
            "zip_at s' (Nd R (Nd B ul ux ur) g (Nd B (Nd R a n b) p r)) gs" "same_outside s s' A"
            using recolor3r [OF z [unfolded u]] less.prems(3) fs f f2 u pc by (metis plug.simps(2,3))
          note ng' = zip_node [OF s'(2)]
          have "\<exists>s''. insert_loop g (ctop gs) s' = Some (Inr s'') \<and>
              zip_at s'' (ins_fix (Nd R (Nd B ul ux ur) g (Nd B (Nd R a n b) p r)) gs) [] \<and> same_outside s' s'' A"
            by (rule less.hyps [OF _ s'(2) fs(3)]) (use fs f f2 u less.prems(3) in \<open>simp_all add: inorder_plug\<close>)
          then obtain s'' where s'': "insert_loop g (ctop gs) s' = Some (Inr s'')"
            "zip_at s'' (ins_fix (Nd R (Nd B ul ux ur) g (Nd B (Nd R a n b) p r)) gs) []" "same_outside s' s'' A" by blast
          have "insert_loop n (ctop fs) s = insert_loop g (ctop gs) s'"
            using red np ng ru u s'(1) ng' pu fs f f2 by (subst insert_loop.simps) simp
          then show ?thesis using s'' same_outside_trans [OF s'(3) s''(3)] fs f f2 u pc by simp
        next
          case nu: False
          obtain s1 where s1: "rb_rotate_right p s = Inr s1" "zip_at s1 (Nd R a n (Nd R b p r)) (RightOf c u g # gs)" "same_outside s s1 A"
            using rotr_ok [OF zp] less.prems(3) fs f f2 pc by (metis plug.simps(2))
          have z1: "zip_at s1 (Nd c u g (Nd R a n (Nd R b p r))) gs" using s1(2) by (simp add: zip_up)
          have A1: "A = set (inorder (plug (Nd c u g (Nd R a n (Nd R b p r))) gs))"
            using less.prems(3) fs f f2 by (simp add: inorder_plug)
          obtain s' where s': "bindE (rb_rotate_left g s1) (\<lambda>s. bindE (rb_set_black n s) (\<lambda>s. rb_set_red g s)) = Inr s'"
            "zip_at s' (plug (Nd B (Nd R u g a) n (Nd R b p r)) gs) []" "same_outside s1 s' A"
            by (rule finish_right [OF z1 A1])
          have "insert_loop n (ctop fs) s = Some (Inr s')"
            using red np ng ru nu pu s1(1) s'(1) fs f f2 by (subst insert_loop.simps) simp
          then show ?thesis using s' same_outside_trans [OF s1(3) s'(3)] fs f f2 pc nu by simp
        qed
      qed
    qed
  qed
qed

section \<open>Colours\<close>

fun rbh :: "nat \<Rightarrow> rtree \<Rightarrow> bool" where
  "rbh n Lf \<longleftrightarrow> n = 0"
| "rbh n (Nd R l a r) \<longleftrightarrow> rbh n l \<and> rbh n r"
| "rbh 0 (Nd B l a r) \<longleftrightarrow> False"
| "rbh (Suc n) (Nd B l a r) \<longleftrightarrow> rbh n l \<and> rbh n r"

fun nrr :: "rtree \<Rightarrow> bool" where
  "nrr Lf \<longleftrightarrow> True"
| "nrr (Nd c l a r) \<longleftrightarrow> nrr l \<and> nrr r \<and> (c = R \<longrightarrow> \<not> is_red l \<and> \<not> is_red r)"

text \<open>The same for a path: which heights and colours of a subtree fit in its place.\<close>

fun pbh :: "nat \<Rightarrow> frame list \<Rightarrow> nat \<Rightarrow> bool" where
  "pbh n [] N \<longleftrightarrow> n = N"
| "pbh n (LeftOf c a r # fs) N \<longleftrightarrow> rbh n r \<and> pbh (if c = B then Suc n else n) fs N"
| "pbh n (RightOf c l a # fs) N \<longleftrightarrow> rbh n l \<and> pbh (if c = B then Suc n else n) fs N"

fun pnrr :: "bool \<Rightarrow> frame list \<Rightarrow> bool" where
  "pnrr red [] \<longleftrightarrow> True"
| "pnrr red (LeftOf c a r # fs) \<longleftrightarrow> nrr r \<and> (c = R \<longrightarrow> \<not> red \<and> \<not> is_red r) \<and> pnrr (c = R) fs"
| "pnrr red (RightOf c l a # fs) \<longleftrightarrow> nrr l \<and> (c = R \<longrightarrow> \<not> red \<and> \<not> is_red l) \<and> pnrr (c = R) fs"

lemma rbh_Nd: "rbh n (Nd c l a r) \<longleftrightarrow> (if c = B then \<exists>m. n = Suc m \<and> rbh m l \<and> rbh m r else rbh n l \<and> rbh n r)"
  by (cases c; cases n) auto

lemma is_red_Nd [simp]: "is_red (Nd c l a r) \<longleftrightarrow> c = R"
  by (cases c) (simp_all only: is_red.simps color.distinct simp_thms)

lemma rbh_plug: "rbh N (plug t fs) \<longleftrightarrow> (\<exists>n. rbh n t \<and> pbh n fs N)"
proof (induction t fs rule: plug.induct)
  case (2 t c a r fs)
  then show ?case by (cases c) (auto simp: rbh_Nd)
next
  case (3 t c l a fs)
  then show ?case by (cases c) (auto simp: rbh_Nd)
qed simp

lemma nrr_plug: "nrr (plug t fs) \<longleftrightarrow> nrr t \<and> pnrr (is_red t) fs"
  by (induction t fs rule: plug.induct) auto

lemma pnrr_black: "pnrr red fs \<Longrightarrow> pnrr False fs"
  by (cases "(red, fs)" rule: pnrr.cases) auto

lemma blacken_nrr: "nrr t \<Longrightarrow> nrr (blacken t)" and blacken_not_red [simp]: "\<not> is_red (blacken t)"
  by (cases t; simp)+

lemma blacken_rbh: "is_red t \<Longrightarrow> rbh n t \<Longrightarrow> rbh (Suc n) (blacken t)"
  by (cases t) (auto split: if_splits)

lemma blacken_any: "rbh n t \<Longrightarrow> \<exists>M. rbh M (blacken t)"
proof (cases "is_red t")
  case False
  assume "rbh n t"
  from False have "blacken t = t" by (cases t rule: is_red.cases) auto
  then show ?thesis using \<open>rbh n t\<close> by auto
qed (use blacken_rbh in blast)

definition red_black :: "rtree \<Rightarrow> bool" where
  "red_black t \<longleftrightarrow> nrr t \<and> \<not> is_red t \<and> (\<exists>n. rbh n t)"

lemma plug_red_black:
  assumes "nrr t" "rbh n t" "pnrr (is_red t) fs" "pbh n fs N"
  shows "red_black (blacken (plug t fs))"
proof -
  have "nrr (plug t fs)" "rbh N (plug t fs)" using assms by (auto simp: nrr_plug rbh_plug)
  then show ?thesis using blacken_nrr blacken_any by (auto simp: red_black_def)
qed

lemma root_black_drop: "root_black (f # f2 # fs) \<Longrightarrow> root_black fs"
  by (cases fs) (auto simp: root_black_def)

lemma stop_red_black:
  assumes "nrr t" "rbh n t" "pnrr False fs" "pbh n fs N" "fs = [] \<or> fcolor (hd fs) = B"
  shows "red_black (blacken (plug t fs))"
proof (rule plug_red_black [OF assms(1,2) _ assms(4)])
  show "pnrr (is_red t) fs" using assms(3,5) by (cases fs rule: frame_nodes.cases) auto
qed

text \<open>Where the loop stops the colours fit; where it goes on the height has grown by the new black node.\<close>

lemma ins_fix_red_black:
  assumes "nrr t" "is_red t" "rbh n t" "pnrr False fs" "pbh n fs N" "root_black fs"
  shows "red_black (blacken (ins_fix t fs))"
  using assms
proof (induction t fs arbitrary: n rule: ins_fix.induct)
  case (1 t p r c g u fs)
  then have c: "c = B" "nrr r" "\<not> is_red r" "nrr u" "pnrr False fs" "rbh n r" "rbh n u" "pbh (Suc n) fs N"
    by (auto simp: not_B split: if_splits)
  show ?case
  proof (cases "is_red u")
    case True
    then show ?thesis using 1(1) [OF True, of "Suc n"] 1(2-) c blacken_nrr blacken_rbh root_black_drop by auto
  next
    case False
    then show ?thesis using plug_red_black [of "Nd B t p (Nd R r g u)" "Suc n" fs N] 1(2-) c by auto
  qed
next
  case (2 d a n b l p c g u fs m)
  then have c: "c = B" "nrr l" "\<not> is_red l" "nrr u" "pnrr False fs" "rbh m l" "rbh m u" "pbh (Suc m) fs N"
    by (auto simp: not_B split: if_splits)
  show ?case
  proof (cases "is_red u")
    case True
    then show ?thesis using 2(1) [OF True, of "Suc m"] 2(2-) c blacken_nrr blacken_rbh root_black_drop by auto
  next
    case False
    then show ?thesis using plug_red_black [of "Nd B (Nd R l p a) n (Nd R b g u)" "Suc m" fs N] 2(2-) c by auto
  qed
next
  case (3 t l p c u g fs)
  then have c: "c = B" "nrr l" "\<not> is_red l" "nrr u" "pnrr False fs" "rbh n l" "rbh n u" "pbh (Suc n) fs N"
    by (auto simp: not_B split: if_splits)
  show ?case
  proof (cases "is_red u")
    case True
    then show ?thesis using 3(1) [OF True, of "Suc n"] 3(2-) c blacken_nrr blacken_rbh root_black_drop by auto
  next
    case False
    then show ?thesis using plug_red_black [of "Nd B (Nd R u g l) p t" "Suc n" fs N] 3(2-) c by auto
  qed
next
  case (4 d a n b p r c u g fs m)
  then have c: "c = B" "nrr r" "\<not> is_red r" "nrr u" "pnrr False fs" "rbh m r" "rbh m u" "pbh (Suc m) fs N"
    by (auto simp: not_B split: if_splits)
  show ?case
  proof (cases "is_red u")
    case True
    then show ?thesis using 4(1) [OF True, of "Suc m"] 4(2-) c blacken_nrr blacken_rbh root_black_drop by auto
  next
    case False
    then show ?thesis using plug_red_black [of "Nd B (Nd R u g a) n (Nd R b p r)" "Suc m" fs N] 4(2-) c by auto
  qed
qed (simp_all only: ins_fix.simps is_red.simps simp_thms,
  (rule stop_red_black; simp add: root_black_def)+)


section \<open>Insertion as a whole\<close>

fun plink_of :: "frame list \<Rightarrow> plink" where
  "plink_of [] = RootLink" | "plink_of (LeftOf c a r # fs) = LeftLink a" | "plink_of (RightOf c l a # fs) = RightLink a"

lemma rb_link_at:
  assumes "zip_at s Lf fs" "ptr node" "node \<notin> frame_nodes fs" "nodes s node \<noteq> None"
  shows "\<exists>s'. rb_link node (ctop fs) (plink_of fs) s = Inr s' \<and> zip_at s' (Nd R Lf node Lf) fs \<and>
    same_outside s s' (insert node (frame_nodes fs))"
proof -
  define s1 where "s1 = s\<lparr>nodes := (nodes s)(node \<mapsto> mk R (ctop fs) 0 0)\<rparr>"
  have p: "path_at (nodes s) (root s) 0 fs" and di: "distinct (lefts fs @ rights fs)"
    using assms(1) distinct_frames [of Lf fs] by (auto simp: zip_at_def)
  have p1: "path_at (nodes s1) (root s1) 0 fs"
    using path_frame [OF _ p, of "nodes s1"] assms(3) by (fastforce simp: s1_def)
  obtain n where n: "nodes s node = Some n" using assms(4) by auto
  have run: "rb_link node (ctop fs) (plink_of fs) s = Inr (relink s1 fs node)"
  proof (cases fs rule: frame_nodes.cases)
    case 1
    then show ?thesis using n assms(2) by (simp add: rb_link_def upd_ok s1_def relink_def mk_def)
  next
    case (2 c a r gs)
    then have "nodes s1 a = Some (mk c (ctop gs) 0 (tip r))" "ptr a" using p1 by auto
    then show ?thesis using 2 upd_ok [OF n assms(2)] by (simp add: rb_link_def upd_ok s1_def relink_def mk_def)
  next
    case (3 c l a gs)
    then have "nodes s1 a = Some (mk c (ctop gs) (tip l) 0)" "ptr a" using p1 by auto
    then show ?thesis using 3 upd_ok [OF n assms(2)] by (simp add: rb_link_def upd_ok s1_def relink_def mk_def)
  qed
  have o: "nodes (relink s1 fs node) y = nodes s1 y" if "y \<notin> frame_nodes fs" for y using that by (rule relink_other)
  have "distinct (inorder (plug (Nd R Lf node Lf) fs))"
    using di assms(3) by (auto simp: inorder_plug set_plug [symmetric])
  moreover have "nodes (relink s1 fs node) node = Some (mk R (ctop fs) 0 0)" using o [OF assms(3)] by (simp add: s1_def)
  ultimately have "zip_at (relink s1 fs node) (Nd R Lf node Lf) fs"
    using path_relink [OF p1 di] assms(2) by (simp add: zip_at_def)
  moreover have "same_outside s (relink s1 fs node) (insert node (frame_nodes fs))"
    using o by (auto simp: same_outside_def s1_def)
  ultimately show ?thesis using run by blast
qed

lemma ins_fix_node: "ins_fix (Nd c l a r) fs \<noteq> Lf"
proof -
  have "a \<in> set (inorder (ins_fix (Nd c l a r) fs))" by (simp add: inorder_ins_fix inorder_plug)
  then show ?thesis by auto
qed

lemma rb_insert_at:
  assumes "zip_at s (Nd R a n b) fs" "root_black fs"
  shows "\<exists>s'. rb_insert n s = Some (Inr s') \<and> is_tree s' (blacken (ins_fix (Nd R a n b) fs)) \<and>
    same_outside s s' (set (inorder (plug (Nd R a n b) fs)))"
proof -
  let ?A = "set (inorder (plug (Nd R a n b) fs))" and ?t = "ins_fix (Nd R a n b) fs"
  obtain s1 where s1: "insert_loop n (ctop fs) s = Some (Inr s1)" "zip_at s1 ?t []" "same_outside s s1 ?A"
    using insert_loop_spec [OF assms refl] by blast
  obtain c l x r where t: "?t = Nd c l x r" using ins_fix_node by (cases ?t) auto
  have rt: "root s1 = x" using s1(2) t by (simp add: zip_at_def)
  obtain s' where s': "rb_set_black x s1 = Inr s'" "zip_at s' (Nd B l x r) []" "same_outside s1 s' ?A"
    using blacken_ok [OF s1(2) [unfolded t]] t inorder_ins_fix [of "Nd R a n b" fs] by (metis plug.simps(1))
  have "rb_insert n s = Some (Inr s')"
    using zip_node [OF assms(1)] s1(1) s'(1) rt by (simp add: rb_insert_def)
  then show ?thesis using s'(2) t same_outside_trans [OF s1(3) s'(3)] by (auto simp: is_tree_zip)
qed

lemma red_black_path: "red_black (plug t fs) \<Longrightarrow> pnrr (is_red t) fs \<and> (\<exists>n N. rbh n t \<and> pbh n fs N) \<and> (fs = [] \<or> fcolor (last fs) = B)"
proof -
  assume rb: "red_black (plug t fs)"
  have "fs \<noteq> [] \<Longrightarrow> is_red (plug t fs) \<longleftrightarrow> fcolor (last fs) = R" for t fs
    by (induction t fs rule: plug.induct) auto
  then show ?thesis using rb not_B by (auto simp: red_black_def nrr_plug rbh_plug)
qed

end
