(* ===== verification/RbTree_Walk.thy ===== *)
theory RbTree_Walk
  imports RbTree_Heap
begin

text \<open>
  Walking: the leftmost and rightmost nodes are the ends of the order, and \<open>rb_next\<close> and \<open>rb_prev\<close> step to
  the neighbours in it.
\<close>

lemma leftmost_loop_first:
  assumes "tree_at (nodes s) p (Nd c l a r)"
  shows "leftmost_loop s a = Some (Inr (hd (inorder (Nd c l a r))))"
  using assms
proof (induction l arbitrary: p c a r)
  case Lf
  then show ?case by (subst leftmost_loop.simps) (simp add: rd_ok)
next
  case (Nd d ll x lr)
  have "leftmost_loop s x = Some (Inr (hd (inorder (Nd d ll x lr))))" using Nd(1) [of a d x lr] Nd(3) by simp
  then show ?case using Nd(3) by (subst leftmost_loop.simps) (auto simp: rd_ok hd_append)
qed

lemma rightmost_loop_last:
  assumes "tree_at (nodes s) p (Nd c l a r)"
  shows "rightmost_loop s a = Some (Inr (last (inorder (Nd c l a r))))"
  using assms
proof (induction r arbitrary: p c a l)
  case Lf
  then show ?case by (subst rightmost_loop.simps) (simp add: rd_ok)
next
  case (Nd d rl x rr)
  have "rightmost_loop s x = Some (Inr (last (inorder (Nd d rl x rr))))" using Nd(2) [of a d rl x] Nd(3) by simp
  then show ?case using Nd(3) by (subst rightmost_loop.simps) (auto simp: rd_ok)
qed

fun first_or :: "u64 list \<Rightarrow> u64" where "first_or [] = 0" | "first_or (x # xs) = x"

definition last_or :: "u64 list \<Rightarrow> u64" where "last_or xs = (if xs = [] then 0 else last xs)"

lemma last_or_Nil [simp]: "last_or [] = 0"
  by (simp add: last_or_def)

lemma first_or_hd: "xs \<noteq> [] \<Longrightarrow> first_or (xs @ ys) = hd xs"
  by (cases xs) auto

lemma last_or_last: "xs \<noteq> [] \<Longrightarrow> last_or (ys @ xs) = last xs"
  by (simp add: last_or_def)

lemma leftmost_from_first: "tree_at (nodes s) p t \<Longrightarrow> rb_leftmost_from s (tip t) = Some (Inr (first_or (inorder t)))"
proof (cases t)
  case (Nd c l a r)
  assume t: "tree_at (nodes s) p t"
  have "inorder l @ a # inorder r \<noteq> []" by simp
  then show ?thesis using Nd t leftmost_loop_first [of s p c l a r] first_or_hd [of "inorder t" "[]"]
    by (simp add: rb_leftmost_from_def)
qed (simp add: rb_leftmost_from_def)

lemma rightmost_from_last: "tree_at (nodes s) p t \<Longrightarrow> rb_rightmost_from s (tip t) = Some (Inr (last_or (inorder t)))"
proof (cases t)
  case (Nd c l a r)
  assume t: "tree_at (nodes s) p t"
  have "inorder l @ a # inorder r \<noteq> []" by simp
  then show ?thesis using Nd t rightmost_loop_last [of s p c l a r] last_or_last [of "inorder t" "[]"]
    by (simp add: rb_rightmost_from_def)
qed (simp add: rb_rightmost_from_def)

lemma climb_right_ok:
  assumes "path_at (nodes s) (root s) x fs" "x \<noteq> 0" "x \<notin> frame_nodes fs" "distinct (lefts fs @ rights fs)"
  shows "climb_right s x (ctop fs) = Some (Inr (first_or (rights fs)))"
  using assms
proof (induction fs arbitrary: x rule: frame_nodes.induct)
  case 1
  then show ?case by (subst climb_right.simps) simp
next
  case (2 c a r fs)
  then have "tip r \<noteq> x" using tip_in [of r] by auto
  then show ?case using 2 by (subst climb_right.simps) (simp add: rd_ok)
next
  case (3 c l a fs)
  note fr = frame_fresh(2) [OF 3(5)]
  have lp: "link (ctop fs)" using 3(2) path_link [of "nodes s" "root s" a fs] by simp
  have "climb_right s a (ctop fs) = Some (Inr (first_or (rights fs)))" by (rule 3(1)) (use 3(2-) fr in auto)
  then show ?case using 3(2) lp by (subst climb_right.simps) (simp add: rd_ok)
qed

lemma climb_left_ok:
  assumes "path_at (nodes s) (root s) x fs" "x \<noteq> 0" "x \<notin> frame_nodes fs" "distinct (lefts fs @ rights fs)"
  shows "climb_left s x (ctop fs) = Some (Inr (last_or (lefts fs)))"
  using assms
proof (induction fs arbitrary: x rule: frame_nodes.induct)
  case 1
  then show ?case by (subst climb_left.simps) simp
next
  case (3 c l a fs)
  then have "tip l \<noteq> x" using tip_in [of l] by auto
  then show ?case using 3 last_or_last [of "[a]" "lefts fs @ inorder l"] by (subst climb_left.simps) (simp add: rd_ok)
next
  case (2 c a r fs)
  note fr = frame_fresh(1) [OF 2(5)]
  have lp: "link (ctop fs)" using 2(2) path_link [of "nodes s" "root s" a fs] by simp
  have "climb_left s a (ctop fs) = Some (Inr (last_or (lefts fs)))" by (rule 2(1)) (use 2(2-) fr in auto)
  then show ?case using 2(2) lp by (subst climb_left.simps) (simp add: rd_ok)
qed

lemma rb_next_at:
  assumes "zip_at s (Nd c l a r) fs"
  shows "rb_next s a = Some (Inr (first_or (inorder r @ rights fs)))"
proof -
  note n = zip_node [OF assms]
  have z: "tree_at (nodes s) a r" "path_at (nodes s) (root s) a fs" and di: "distinct (inorder (plug (Nd c l a r) fs))"
    using assms by (auto simp: zip_at_def)
  show ?thesis
  proof (cases r)
    case Lf
    have "a \<notin> frame_nodes fs" using distinct_plug [OF di] by auto
    then show ?thesis using n Lf climb_right_ok [OF z(2) ptr_nonzero [OF n(3)] _ distinct_frames [OF di]]
      by (simp add: rb_next_def)
  next
    case (Nd d rl x rr)
    then show ?thesis using n z(1) leftmost_from_first [OF z(1)] first_or_hd [of "inorder r" "rights fs"]
        first_or_hd [of "inorder r" "[]"] by (simp add: rb_next_def)
  qed
qed

lemma rb_prev_at:
  assumes "zip_at s (Nd c l a r) fs"
  shows "rb_prev s a = Some (Inr (last_or (lefts fs @ inorder l)))"
proof -
  note n = zip_node [OF assms]
  have z: "tree_at (nodes s) a l" "path_at (nodes s) (root s) a fs" and di: "distinct (inorder (plug (Nd c l a r) fs))"
    using assms by (auto simp: zip_at_def)
  show ?thesis
  proof (cases l)
    case Lf
    have "a \<notin> frame_nodes fs" using distinct_plug [OF di] by auto
    then show ?thesis using n Lf climb_left_ok [OF z(2) ptr_nonzero [OF n(3)] _ distinct_frames [OF di]]
      by (simp add: rb_prev_def)
  next
    case (Nd d rl x rr)
    then show ?thesis using n z(1) rightmost_from_last [OF z(1)] last_or_last [of "inorder l" "lefts fs"]
        last_or_last [of "inorder l" "[]"] by (simp add: rb_prev_def)
  qed
qed

end
