(* ===== verification/RbTree_Fix.thy ===== *)
theory RbTree_Fix
  imports RbTree_Insert RbTree_Walk
begin

text \<open>
  Removal, the repair: the loop of \<open>rb_erase_fix\<close> on a place whose subtree lacks one black node on every path.
\<close>

section \<open>A black brother\<close>

lemma rb_black_ok: "tree_at (nodes s) p t \<Longrightarrow> link p \<Longrightarrow> rb_black s (tip t) = Inr (\<not> is_red t)"
  by (simp add: rb_black_def red_ok)

lemma zip_children:
  assumes "zip_at s (Nd c l a r) fs"
  shows "tree_at (nodes s) a l" "tree_at (nodes s) a r"
  using assms by (auto simp: zip_at_def)

lemma color_ok:
  assumes "zip_at s (Nd c l a r) fs"
  obtains s' where "rb_set_color a (cbit d) s = Inr s'" "zip_at s' (Nd d l a r) fs" "same_outside s s' (set (inorder (plug (Nd c l a r) fs)))"
  using recolor [OF assms, of d] by auto

lemma both_black_ok:
  "tree_at (nodes s) p t \<Longrightarrow> tree_at (nodes s) p u \<Longrightarrow> link p \<Longrightarrow>
   both_black s (tip t) (tip u) = Inr (\<not> is_red t \<and> \<not> is_red u)"
  by (simp add: both_black_def rb_black_ok)

text \<open>
  What one round at a parent coloured \<open>c\<close> achieves: either the lack of a black node is made up for, or it
  has moved up to the parent.
\<close>

definition mended :: "nat \<Rightarrow> color \<Rightarrow> rtree \<Rightarrow> bool" where
  "mended n c u \<longleftrightarrow> nrr u \<and> rbh (if c = B then Suc (Suc n) else Suc n) u \<and> (is_red u \<longrightarrow> c = R)"

definition lacking :: "nat \<Rightarrow> color \<Rightarrow> rtree \<Rightarrow> bool" where
  "lacking n c u \<longleftrightarrow> nrr (blacken u) \<and> rbh (if c = B then Suc n else n) u \<and> (is_red u \<longleftrightarrow> c = R)"

text \<open>The last part of the round: the brother takes the colour of the parent and is rotated above it.\<close>

lemma finish_black_left:
  assumes "zip_at s t (LeftOf c p (Nd d x b (Nd R yl yn yr)) # fs)" "A = set (inorder (plug t (LeftOf c p (Nd d x b (Nd R yl yn yr)) # fs)))"
  obtains s' where
    "bindE (rd s p) (\<lambda>np. bindE (rb_set_color b (rb_color np) s) (\<lambda>s. bindE (rb_set_black p s) (\<lambda>s. bindE (rd s b) (\<lambda>nb.
     bindE (if right nb \<noteq> 0 then rb_set_black (right nb) s else Inr s) (\<lambda>s. bindE (rb_rotate_left p s) (\<lambda>s. Inr (None :: (u64 \<times> u64) option, s))))))) =
     Inr (None, s')"
    "zip_at s' (Nd c (Nd B t p x) b (Nd B yl yn yr)) fs" "same_outside s s' A"
proof -
  let ?y = "Nd R yl yn yr"
  have z: "zip_at s (Nd c t p (Nd d x b ?y)) fs" using assms(1) by (simp add: zip_up)
  note np = zip_node [OF z]
  have zb: "zip_at s (Nd d x b ?y) (RightOf c t p # fs)" using z by (simp add: zip_up)
  obtain s1 where s1: "rb_set_color b (cbit c) s = Inr s1" "zip_at s1 (Nd c x b ?y) (RightOf c t p # fs)" "same_outside s s1 A"
    using color_ok [OF zb, of c] assms(2) by (metis plug.simps(2,3))
  have z1: "zip_at s1 (Nd c t p (Nd c x b ?y)) fs" using s1(2) by (simp add: zip_up)
  obtain s2 where s2: "rb_set_black p s1 = Inr s2" "zip_at s2 (Nd B t p (Nd c x b ?y)) fs" "same_outside s1 s2 A"
    using blacken_ok [OF z1] assms(2) by (auto simp: inorder_plug)
  have zb2: "zip_at s2 (Nd c x b ?y) (RightOf B t p # fs)" using s2(2) by (simp add: zip_up)
  note nb = zip_node [OF zb2]
  have zy: "zip_at s2 ?y (RightOf c x b # RightOf B t p # fs)" using zb2 by (simp add: zip_up)
  obtain s3 where s3: "rb_set_black yn s2 = Inr s3" "zip_at s3 (Nd B yl yn yr) (RightOf c x b # RightOf B t p # fs)" "same_outside s2 s3 A"
    using blacken_ok [OF zy] assms(2) by (auto simp: inorder_plug)
  have z3: "zip_at s3 (Nd B t p (Nd c x b (Nd B yl yn yr))) fs" using s3(2) by (simp add: zip_up)
  obtain s4 where s4: "rb_rotate_left p s3 = Inr s4" "zip_at s4 (Nd c (Nd B t p x) b (Nd B yl yn yr)) fs" "same_outside s3 s4 A"
    using rotl_ok [OF z3] assms(2) by (auto simp: inorder_plug)
  have yn: "yn \<noteq> 0" using zip_node(3) [OF zy] by simp
  show thesis
    by (rule that [OF _ s4(2) same_outside_trans [OF same_outside_trans [OF s1(3) s2(3)] same_outside_trans [OF s3(3) s4(3)]]])
      (simp add: np nb s1(1) s2(1) s3(1) s4(1) yn)
qed


lemma finish_black_right:
  assumes "zip_at s t (RightOf c (Nd d (Nd R yl yn yr) b x) p # fs)" "A = set (inorder (plug t (RightOf c (Nd d (Nd R yl yn yr) b x) p # fs)))"
  obtains s' where
    "bindE (rd s p) (\<lambda>np. bindE (rb_set_color b (rb_color np) s) (\<lambda>s. bindE (rb_set_black p s) (\<lambda>s. bindE (rd s b) (\<lambda>nb.
     bindE (if left nb \<noteq> 0 then rb_set_black (left nb) s else Inr s) (\<lambda>s. bindE (rb_rotate_right p s) (\<lambda>s. Inr (None :: (u64 \<times> u64) option, s))))))) =
     Inr (None, s')"
    "zip_at s' (Nd c (Nd B yl yn yr) b (Nd B x p t)) fs" "same_outside s s' A"
proof -
  let ?y = "Nd R yl yn yr"
  have z: "zip_at s (Nd c (Nd d ?y b x) p t) fs" using assms(1) by (simp add: zip_up)
  note np = zip_node [OF z]
  have zb: "zip_at s (Nd d ?y b x) (LeftOf c p t # fs)" using z by (simp add: zip_up)
  obtain s1 where s1: "rb_set_color b (cbit c) s = Inr s1" "zip_at s1 (Nd c ?y b x) (LeftOf c p t # fs)" "same_outside s s1 A"
    using color_ok [OF zb, of c] assms(2) by (metis plug.simps(2,3))
  have z1: "zip_at s1 (Nd c (Nd c ?y b x) p t) fs" using s1(2) by (simp add: zip_up)
  obtain s2 where s2: "rb_set_black p s1 = Inr s2" "zip_at s2 (Nd B (Nd c ?y b x) p t) fs" "same_outside s1 s2 A"
    using blacken_ok [OF z1] assms(2) by (auto simp: inorder_plug)
  have zb2: "zip_at s2 (Nd c ?y b x) (LeftOf B p t # fs)" using s2(2) by (simp add: zip_up)
  note nb = zip_node [OF zb2]
  have zy: "zip_at s2 ?y (LeftOf c b x # LeftOf B p t # fs)" using zb2 by (simp add: zip_up)
  obtain s3 where s3: "rb_set_black yn s2 = Inr s3" "zip_at s3 (Nd B yl yn yr) (LeftOf c b x # LeftOf B p t # fs)" "same_outside s2 s3 A"
    using blacken_ok [OF zy] assms(2) by (auto simp: inorder_plug)
  have z3: "zip_at s3 (Nd B (Nd c (Nd B yl yn yr) b x) p t) fs" using s3(2) by (simp add: zip_up)
  obtain s4 where s4: "rb_rotate_right p s3 = Inr s4" "zip_at s4 (Nd c (Nd B yl yn yr) b (Nd B x p t)) fs" "same_outside s3 s4 A"
    using rotr_ok [OF z3] assms(2) by (auto simp: inorder_plug)
  have yn: "yn \<noteq> 0" using zip_node(3) [OF zy] by simp
  show thesis
    by (rule that [OF _ s4(2) same_outside_trans [OF same_outside_trans [OF s1(3) s2(3)] same_outside_trans [OF s3(3) s4(3)]]])
      (simp add: np nb s1(1) s2(1) s3(1) s4(1) yn)
qed

text \<open>The outcome of a round: either the loop is over or it goes on at the parent.\<close>

definition round_ok :: "nat \<Rightarrow> color \<Rightarrow> u64 \<Rightarrow> u64 \<Rightarrow> ((u64 \<times> u64) option \<times> rb_tree) res \<Rightarrow> rb_tree \<Rightarrow> frame list \<Rightarrow> u64 list \<Rightarrow> u64 set \<Rightarrow> bool" where
  "round_ok n c p g res s fs xs A \<longleftrightarrow>
     (\<exists>s' u. same_outside s s' A \<and> zip_at s' u fs \<and> inorder u = xs \<and>
       (res = Inr (None, s') \<and> mended n c u \<or> res = Inr (Some (p, g), s') \<and> tip u = p \<and> u \<noteq> Lf \<and> lacking n c u))"

lemma black_left_ok:
  assumes "zip_at s t (LeftOf c p (Nd B x b y) # fs)" "A = set (inorder (plug t (LeftOf c p (Nd B x b y) # fs)))"
    and "nrr t" "\<not> is_red t" "rbh n t" "rbh n x" "rbh n y" "nrr x" "nrr y"
  shows "round_ok n c p (ctop fs) (black_left p b s) s fs (inorder t @ p # inorder x @ b # inorder y) A"
proof -
  have z: "zip_at s (Nd c t p (Nd B x b y)) fs" using assms(1) by (simp add: zip_up)
  have zb: "zip_at s (Nd B x b y) (RightOf c t p # fs)" using z by (simp add: zip_up)
  note np = zip_node [OF z] and nb = zip_node [OF zb] and ch = zip_children [OF zb]
  have bb: "both_black s (tip x) (tip y) = Inr (\<not> is_red x \<and> \<not> is_red y)" by (rule both_black_ok [OF ch nb(4)])
  have br: "rb_black s (tip y) = Inr (\<not> is_red y)" by (rule rb_black_ok [OF ch(2) nb(4)])
  show ?thesis
  proof (cases "\<not> is_red x \<and> \<not> is_red y")
    case True
    obtain s1 where s1: "rb_set_red b s = Inr s1" "zip_at s1 (Nd R x b y) (RightOf c t p # fs)" "same_outside s s1 A"
      using redden_ok [OF zb] assms(2) by (metis plug.simps(2,3))
    have z1: "zip_at s1 (Nd c t p (Nd R x b y)) fs" using s1(2) by (simp add: zip_up)
    have "black_left p b s = Inr (Some (p, ctop fs), s1)"
      using True bb nb s1(1) zip_node [OF z1] by (simp add: black_left_def)
    moreover have "lacking n c (Nd c t p (Nd R x b y))" using assms(3-) True by (cases c) (auto simp: lacking_def)
    ultimately show ?thesis using z1 s1(3) unfolding round_ok_def by (intro exI [of _ s1] exI conjI) auto
  next
    case nbb: False
    show ?thesis
    proof (cases "is_red y")
      case True
      then obtain yl yn yr where y: "y = Nd R yl yn yr" using red_node by blast
      obtain s' where s': "bindE (rd s p) (\<lambda>np. bindE (rb_set_color b (rb_color np) s) (\<lambda>s. bindE (rb_set_black p s) (\<lambda>s.
          bindE (rd s b) (\<lambda>nb. bindE (if right nb \<noteq> 0 then rb_set_black (right nb) s else Inr s)
          (\<lambda>s. bindE (rb_rotate_left p s) (\<lambda>s. Inr (None :: (u64 \<times> u64) option, s))))))) = Inr (None, s')"
        "zip_at s' (Nd c (Nd B t p x) b (Nd B yl yn yr)) fs" "same_outside s s' A"
        by (rule finish_black_left [OF assms(1,2) [unfolded y]])
      have "black_left p b s = Inr (None, s')" using True bb br nb s'(1) nbb by (simp add: black_left_def)
      moreover have "mended n c (Nd c (Nd B t p x) b (Nd B yl yn yr))"
        using assms(3-) y by (cases c) (auto simp: mended_def)
      ultimately show ?thesis using s'(2,3) y unfolding round_ok_def by (intro exI [of _ s'] exI conjI) auto
    next
      case False
      then have "is_red x" using nbb by simp
      then obtain xl xn xr where x: "x = Nd R xl xn xr" using red_node by blast
      have zx: "zip_at s (Nd R xl xn xr) (LeftOf B b y # RightOf c t p # fs)" using zb x by (simp add: zip_up)
      obtain s1 where s1: "rb_set_black xn s = Inr s1" "zip_at s1 (Nd B xl xn xr) (LeftOf B b y # RightOf c t p # fs)" "same_outside s s1 A"
        using blacken_ok [OF zx] assms(2) x by (metis plug.simps(2,3))
      have z1: "zip_at s1 (Nd B (Nd B xl xn xr) b y) (RightOf c t p # fs)" using s1(2) by (simp add: zip_up)
      obtain s2 where s2: "rb_set_red b s1 = Inr s2" "zip_at s2 (Nd R (Nd B xl xn xr) b y) (RightOf c t p # fs)" "same_outside s1 s2 A"
        using redden_ok [OF z1] assms(2) x by (auto simp: inorder_plug)
      obtain s3 where s3: "rb_rotate_right b s2 = Inr s3" "zip_at s3 (Nd B xl xn (Nd R xr b y)) (RightOf c t p # fs)" "same_outside s2 s3 A"
        using rotr_ok [OF s2(2)] assms(2) x by (auto simp: inorder_plug)
      have z3: "zip_at s3 (Nd c t p (Nd B xl xn (Nd R xr b y))) fs" using s3(2) by (simp add: zip_up)
      have z3': "zip_at s3 t (LeftOf c p (Nd B xl xn (Nd R xr b y)) # fs)" using z3 by (simp add: zip_up)
      have A3: "A = set (inorder (plug t (LeftOf c p (Nd B xl xn (Nd R xr b y)) # fs)))" using assms(2) x by (simp add: inorder_plug)
      obtain s' where s': "bindE (rd s3 p) (\<lambda>np. bindE (rb_set_color xn (rb_color np) s3) (\<lambda>s. bindE (rb_set_black p s) (\<lambda>s.
          bindE (rd s xn) (\<lambda>nb. bindE (if right nb \<noteq> 0 then rb_set_black (right nb) s else Inr s)
          (\<lambda>s. bindE (rb_rotate_left p s) (\<lambda>s. Inr (None :: (u64 \<times> u64) option, s))))))) = Inr (None, s')"
        "zip_at s' (Nd c (Nd B t p xl) xn (Nd B xr b y)) fs" "same_outside s3 s' A"
        by (rule finish_black_left [OF z3' A3])
      have "black_left p b s = Inr (None, s')"
        using False bb br nb x s1(1) s2(1) s3(1) s'(1) zip_node [OF z3] by (simp add: black_left_def)
      moreover have "mended n c (Nd c (Nd B t p xl) xn (Nd B xr b y))"
        using assms(3-) x False by (cases c) (auto simp: mended_def)
      moreover have "same_outside s s' A"
        using same_outside_trans [OF same_outside_trans [OF s1(3) s2(3)] same_outside_trans [OF s3(3) s'(3)]] .
      ultimately show ?thesis using s'(2) x unfolding round_ok_def by (intro exI [of _ s'] exI conjI) auto
    qed
  qed
qed


lemma black_right_ok:
  assumes "zip_at s t (RightOf c (Nd B y b x) p # fs)" "A = set (inorder (plug t (RightOf c (Nd B y b x) p # fs)))"
    and "nrr t" "\<not> is_red t" "rbh n t" "rbh n x" "rbh n y" "nrr x" "nrr y"
  shows "round_ok n c p (ctop fs) (black_right p b s) s fs (inorder y @ b # inorder x @ p # inorder t) A"
proof -
  have z: "zip_at s (Nd c (Nd B y b x) p t) fs" using assms(1) by (simp add: zip_up)
  have zb: "zip_at s (Nd B y b x) (LeftOf c p t # fs)" using z by (simp add: zip_up)
  note np = zip_node [OF z] and nb = zip_node [OF zb] and ch = zip_children [OF zb]
  have bb: "both_black s (tip x) (tip y) = Inr (\<not> is_red x \<and> \<not> is_red y)" by (rule both_black_ok [OF ch(2,1) nb(4)])
  have br: "rb_black s (tip y) = Inr (\<not> is_red y)" by (rule rb_black_ok [OF ch(1) nb(4)])
  show ?thesis
  proof (cases "\<not> is_red x \<and> \<not> is_red y")
    case True
    obtain s1 where s1: "rb_set_red b s = Inr s1" "zip_at s1 (Nd R y b x) (LeftOf c p t # fs)" "same_outside s s1 A"
      using redden_ok [OF zb] assms(2) by (metis plug.simps(2,3))
    have z1: "zip_at s1 (Nd c (Nd R y b x) p t) fs" using s1(2) by (simp add: zip_up)
    have "black_right p b s = Inr (Some (p, ctop fs), s1)"
      using True bb nb s1(1) zip_node [OF z1] by (simp add: black_right_def)
    moreover have "lacking n c (Nd c (Nd R y b x) p t)" using assms(3-) True by (cases c) (auto simp: lacking_def)
    ultimately show ?thesis using z1 s1(3) unfolding round_ok_def by (intro exI [of _ s1] exI conjI) auto
  next
    case nbb: False
    show ?thesis
    proof (cases "is_red y")
      case True
      then obtain yl yn yr where y: "y = Nd R yl yn yr" using red_node by blast
      obtain s' where s': "bindE (rd s p) (\<lambda>np. bindE (rb_set_color b (rb_color np) s) (\<lambda>s. bindE (rb_set_black p s) (\<lambda>s.
          bindE (rd s b) (\<lambda>nb. bindE (if left nb \<noteq> 0 then rb_set_black (left nb) s else Inr s)
          (\<lambda>s. bindE (rb_rotate_right p s) (\<lambda>s. Inr (None :: (u64 \<times> u64) option, s))))))) = Inr (None, s')"
        "zip_at s' (Nd c (Nd B yl yn yr) b (Nd B x p t)) fs" "same_outside s s' A"
        by (rule finish_black_right [OF assms(1,2) [unfolded y]])
      have "black_right p b s = Inr (None, s')" using True bb br nb s'(1) nbb by (simp add: black_right_def)
      moreover have "mended n c (Nd c (Nd B yl yn yr) b (Nd B x p t))"
        using assms(3-) y by (cases c) (auto simp: mended_def)
      ultimately show ?thesis using s'(2,3) y unfolding round_ok_def by (intro exI [of _ s'] exI conjI) auto
    next
      case False
      then have "is_red x" using nbb by simp
      then obtain xl xn xr where x: "x = Nd R xl xn xr" using red_node by blast
      have zx: "zip_at s (Nd R xl xn xr) (RightOf B y b # LeftOf c p t # fs)" using zb x by (simp add: zip_up)
      obtain s1 where s1: "rb_set_black xn s = Inr s1" "zip_at s1 (Nd B xl xn xr) (RightOf B y b # LeftOf c p t # fs)" "same_outside s s1 A"
        using blacken_ok [OF zx] assms(2) x by (metis plug.simps(2,3))
      have z1: "zip_at s1 (Nd B y b (Nd B xl xn xr)) (LeftOf c p t # fs)" using s1(2) by (simp add: zip_up)
      obtain s2 where s2: "rb_set_red b s1 = Inr s2" "zip_at s2 (Nd R y b (Nd B xl xn xr)) (LeftOf c p t # fs)" "same_outside s1 s2 A"
        using redden_ok [OF z1] assms(2) x by (auto simp: inorder_plug)
      obtain s3 where s3: "rb_rotate_left b s2 = Inr s3" "zip_at s3 (Nd B (Nd R y b xl) xn xr) (LeftOf c p t # fs)" "same_outside s2 s3 A"
        using rotl_ok [OF s2(2)] assms(2) x by (auto simp: inorder_plug)
      have z3: "zip_at s3 (Nd c (Nd B (Nd R y b xl) xn xr) p t) fs" using s3(2) by (simp add: zip_up)
      have z3': "zip_at s3 t (RightOf c (Nd B (Nd R y b xl) xn xr) p # fs)" using z3 by (simp add: zip_up)
      have A3: "A = set (inorder (plug t (RightOf c (Nd B (Nd R y b xl) xn xr) p # fs)))" using assms(2) x by (simp add: inorder_plug)
      obtain s' where s': "bindE (rd s3 p) (\<lambda>np. bindE (rb_set_color xn (rb_color np) s3) (\<lambda>s. bindE (rb_set_black p s) (\<lambda>s.
          bindE (rd s xn) (\<lambda>nb. bindE (if left nb \<noteq> 0 then rb_set_black (left nb) s else Inr s)
          (\<lambda>s. bindE (rb_rotate_right p s) (\<lambda>s. Inr (None :: (u64 \<times> u64) option, s))))))) = Inr (None, s')"
        "zip_at s' (Nd c (Nd B y b xl) xn (Nd B xr p t)) fs" "same_outside s3 s' A"
        by (rule finish_black_right [OF z3' A3])
      have "black_right p b s = Inr (None, s')"
        using False bb br nb x s1(1) s2(1) s3(1) s'(1) zip_node [OF z3] by (simp add: black_right_def)
      moreover have "mended n c (Nd c (Nd B y b xl) xn (Nd B xr p t))"
        using assms(3-) x False by (cases c) (auto simp: mended_def)
      moreover have "same_outside s s' A"
        using same_outside_trans [OF same_outside_trans [OF s1(3) s2(3)] same_outside_trans [OF s3(3) s'(3)]] .
      ultimately show ?thesis using s'(2) x unfolding round_ok_def by (intro exI [of _ s'] exI conjI) auto
    qed
  qed
qed

section \<open>The loop\<close>

lemma path_root_in: "path_at h rt y fs \<Longrightarrow> fs \<noteq> [] \<Longrightarrow> rt \<in> frame_nodes fs \<and> rt \<noteq> 0"
proof (induction fs arbitrary: y rule: frame_nodes.induct)
  case (2 c a r fs) then show ?case by (cases "fs = []") auto
next
  case (3 c l a fs) then show ?case by (cases "fs = []") auto
qed simp

lemma not_root:
  assumes "zip_at s t fs" "fs \<noteq> []"
  shows "tip t \<noteq> root s"
proof
  assume "tip t = root s"
  moreover have "root s \<in> frame_nodes fs" "root s \<noteq> 0" using path_root_in assms by (auto simp: zip_at_def)
  moreover have "set (inorder t) \<inter> frame_nodes fs = {}" using assms(1) distinct_plug [of t fs] by (simp add: zip_at_def)
  ultimately show False using tip_in [of t] by auto
qed

definition fixed :: "rb_tree \<Rightarrow> rtree \<Rightarrow> frame list \<Rightarrow> u64 set \<Rightarrow> (u64 \<times> rb_tree) res option \<Rightarrow> bool" where
  "fixed s t fs A res \<longleftrightarrow> (\<exists>x s1 s2 u. res = Some (Inr (x, s1)) \<and> (if x \<noteq> 0 then rb_set_black x s1 else Inr s1) = Inr s2 \<and>
     is_tree s2 u \<and> red_black u \<and> inorder u = inorder (plug t fs) \<and> same_outside s s2 A)"

lemma blacken_tip:
  assumes "zip_at s t fs" "A = set (inorder (plug t fs))"
  shows "\<exists>s'. (if tip t \<noteq> 0 then rb_set_black (tip t) s else Inr s) = Inr s' \<and> zip_at s' (blacken t) fs \<and> same_outside s s' A"
proof (cases t)
  case (Nd c l a r)
  then have z: "zip_at s (Nd c l a r) fs" using assms(1) by simp
  then show ?thesis using blacken_ok [OF z] zip_node(3) [OF z] assms(2) Nd by (metis blacken.simps(1) ptr_nonzero tip.simps(2))
qed (use assms same_outside_refl in auto)

lemma fixed_here:
  assumes "zip_at s t fs" "A = set (inorder (plug t fs))" "nrr (blacken t)" "pnrr False fs" "rbh m (blacken t)" "pbh m fs N" "root_black fs"
  shows "fixed s t fs A (Some (Inr (tip t, s)))"
proof -
  obtain s' where s': "(if tip t \<noteq> 0 then rb_set_black (tip t) s else Inr s) = Inr s'" "zip_at s' (blacken t) fs" "same_outside s s' A"
    using blacken_tip [OF assms(1,2)] by blast
  have "\<not> is_red (plug (blacken t) fs)"
  proof (cases "fs = []")
    case False
    have "gs \<noteq> [] \<Longrightarrow> is_red (plug u gs) \<longleftrightarrow> fcolor (last gs) = R" for u gs
      by (induction u gs rule: plug.induct) auto
    then show ?thesis using False assms(7) by (simp add: root_black_def)
  qed simp
  then have "red_black (plug (blacken t) fs)"
    using assms(3-6) unfolding red_black_def nrr_plug rbh_plug by auto
  then show ?thesis using s' unfolding fixed_def
    by (intro exI [of _ "tip t"] exI [of _ s] exI [of _ s'] exI [of _ "plug (blacken t) fs"]) (simp add: is_tree_plug inorder_plug)
qed


abbreviation go_on :: "(u64 \<times> u64) option \<times> rb_tree \<Rightarrow> (u64 \<times> rb_tree) res option" where
  "go_on \<equiv> \<lambda>(next, s). case next of None \<Rightarrow> Some (Inr (root s, s)) | Some (child, parent) \<Rightarrow> erase_loop child parent s"

lemma zip_black: "zip_at s t fs \<Longrightarrow> rb_black s (tip t) = Inr (\<not> is_red t)"
  by (rule rb_black_ok [of _ "ctop fs"]) (auto simp: zip_at_def dest: path_link)

lemma erase_loop_stop:
  assumes "zip_at s t fs" "is_red t \<or> fs = []"
  shows "erase_loop (tip t) (ctop fs) s = Some (Inr (tip t, s))"
proof -
  have "fs = [] \<Longrightarrow> tip t = root s" using assms(1) by (simp add: zip_at_def)
  then show ?thesis using zip_black [OF assms(1)] assms(2) by (subst erase_loop.simps) auto
qed

lemma erase_loop_left:
  assumes "zip_at s t (LeftOf c p r # fs)" "\<not> is_red t"
  shows "erase_loop (tip t) p s = bindP (Some (fix_left p s)) go_on"
  using zip_black [OF assms(1)] not_root [OF assms(1)] assms(2) zip_node(1) [OF assms(1) [unfolded zip_up]]
  by (subst erase_loop.simps) simp

lemma erase_loop_right:
  assumes "zip_at s t (RightOf c l p # fs)" "\<not> is_red t" "l \<noteq> Lf"
  shows "erase_loop (tip t) p s = bindP (Some (fix_right p s)) go_on"
proof -
  have z: "zip_at s (Nd c l p t) fs" using assms(1) by (simp add: zip_up)
  have "distinct (inorder (Nd c l p t))" using z distinct_plug [of "Nd c l p t" fs] by (simp add: zip_at_def)
  moreover have "tip l \<in> set (inorder l)" using assms(3) by (cases l) auto
  moreover have "tip l \<noteq> 0" using assms(3) z by (cases l) (auto simp: zip_at_def)
  ultimately have "tip t \<noteq> tip l" using tip_in [of t] by auto
  then show ?thesis
    using zip_black [OF assms(1)] not_root [OF assms(1)] assms(2) zip_node(1) [OF z] by (subst erase_loop.simps) simp
qed

lemma fixed_from: "fixed s' u fs' A res \<Longrightarrow> same_outside s s' A \<Longrightarrow> inorder (plug u fs') = inorder (plug t fs) \<Longrightarrow> fixed s t fs A res"
  unfolding fixed_def using same_outside_trans by metis

lemma fixed_root:
  assumes "zip_at s u fs" "A = set (inorder (plug u fs))" "nrr u" "pnrr (is_red u) fs" "rbh m u" "pbh m fs N"
  shows "fixed s u fs A (Some (Inr (root s, s)))"
proof -
  have z: "zip_at s (plug u fs) []" using assms(1) by (simp add: zip_plug)
  have rb: "nrr (blacken (plug u fs))" "\<exists>M. rbh M (blacken (plug u fs))"
    using plug_red_black [OF assms(3,5,4,6)] by (auto simp: red_black_def)
  have "fixed s (plug u fs) [] A (Some (Inr (tip (plug u fs), s)))"
    using fixed_here [OF z] assms(2) rb by (auto simp: root_black_def)
  moreover have "root s = tip (plug u fs)" using z by (simp add: zip_at_def)
  ultimately show ?thesis by (simp add: fixed_def)
qed

lemma loop_round:
  assumes "round_ok n c p (ctop fs) res s fs xs A" "A = set (lefts fs @ xs @ rights fs)"
    and "inorder (plug t0 fs0) = lefts fs @ xs @ rights fs" "pnrr (c = R) fs" "pbh (if c = B then Suc (Suc n) else Suc n) fs N"
    and ih: "\<And>s u. zip_at s u fs \<Longrightarrow> lacking n c u \<Longrightarrow> A = set (inorder (plug u fs)) \<Longrightarrow> fixed s u fs A (erase_loop (tip u) (ctop fs) s)"
  shows "fixed s t0 fs0 A (bindP (Some res) go_on)"
proof -
  obtain s' u where u: "same_outside s s' A" "zip_at s' u fs" "inorder u = xs"
    "res = Inr (None, s') \<and> mended n c u \<or> res = Inr (Some (p, ctop fs), s') \<and> tip u = p \<and> u \<noteq> Lf \<and> lacking n c u"
    using assms(1) unfolding round_ok_def by blast
  have A: "A = set (inorder (plug u fs))" using assms(2) u(3) by (simp add: inorder_plug)
  have eq: "inorder (plug u fs) = inorder (plug t0 fs0)" using assms(3) u(3) by (simp add: inorder_plug)
  show ?thesis
  proof (cases "fst (projr res)")
    case None
    then have m: "res = Inr (None, s')" "mended n c u" using u(4) by auto
    have "pnrr (is_red u) fs" using assms(4) m(2) pnrr_black [of "c = R" fs] by (cases "is_red u") (auto simp: mended_def)
    then have "fixed s' u fs A (Some (Inr (root s', s')))"
      using fixed_root [OF u(2) A] m(2) assms(5) by (auto simp: mended_def)
    then show ?thesis using fixed_from [OF _ u(1) eq] m(1) by simp
  next
    case (Some pg)
    then have l: "res = Inr (Some (tip u, ctop fs), s')" "lacking n c u" using u(4) by auto
    show ?thesis using fixed_from [OF ih [OF u(2) l(2) A] u(1) eq] l(1) by simp
  qed
qed


text \<open>A red brother is rotated above the parent, whose new brother is black.\<close>

lemma fix_left_black:
  assumes "zip_at s t (LeftOf c p (Nd B x b y) # fs)"
  shows "fix_left p s = black_left p b s"
proof -
  have z: "zip_at s (Nd c t p (Nd B x b y)) fs" using assms by (simp add: zip_up)
  note np = zip_node [OF z]
  have "rb_red s b = Inr False" using red_ok [OF zip_children(2) [OF z] np(4)] by simp
  then show ?thesis using np by (simp add: fix_left_def)
qed

lemma fix_right_black:
  assumes "zip_at s t (RightOf c (Nd B y b x) p # fs)"
  shows "fix_right p s = black_right p b s"
proof -
  have z: "zip_at s (Nd c (Nd B y b x) p t) fs" using assms by (simp add: zip_up)
  note np = zip_node [OF z]
  have "rb_red s b = Inr False" using red_ok [OF zip_children(1) [OF z] np(4)] by simp
  then show ?thesis using np by (simp add: fix_right_def)
qed

lemma fix_left_red:
  assumes "zip_at s t (LeftOf c p (Nd R bl b br) # fs)" "A = set (inorder (plug t (LeftOf c p (Nd R bl b br) # fs)))"
  obtains s' where "fix_left p s = black_left p (tip bl) s'" "zip_at s' t (LeftOf R p bl # LeftOf B b br # fs)" "same_outside s s' A"
proof -
  have z: "zip_at s (Nd c t p (Nd R bl b br)) fs" using assms(1) by (simp add: zip_up)
  note np = zip_node [OF z]
  have red: "rb_red s b = Inr True" using red_ok [OF zip_children(2) [OF z] np(4)] by simp
  have zb: "zip_at s (Nd R bl b br) (RightOf c t p # fs)" using z by (simp add: zip_up)
  obtain s1 where s1: "rb_set_black b s = Inr s1" "zip_at s1 (Nd B bl b br) (RightOf c t p # fs)" "same_outside s s1 A"
    using blacken_ok [OF zb] assms(2) by (metis plug.simps(2,3))
  have z1: "zip_at s1 (Nd c t p (Nd B bl b br)) fs" using s1(2) by (simp add: zip_up)
  obtain s2 where s2: "rb_set_red p s1 = Inr s2" "zip_at s2 (Nd R t p (Nd B bl b br)) fs" "same_outside s1 s2 A"
    using redden_ok [OF z1] assms(2) by (auto simp: inorder_plug)
  obtain s3 where s3: "rb_rotate_left p s2 = Inr s3" "zip_at s3 (Nd B (Nd R t p bl) b br) fs" "same_outside s2 s3 A"
    using rotl_ok [OF s2(2)] assms(2) by (auto simp: inorder_plug)
  have z3: "zip_at s3 (Nd R t p bl) (LeftOf B b br # fs)" using s3(2) by (simp add: zip_up)
  have "fix_left p s = black_left p (tip bl) s3"
    using np red s1(1) s2(1) s3(1) zip_node [OF z3] by (simp add: fix_left_def)
  then show thesis using that z3 same_outside_trans [OF same_outside_trans [OF s1(3) s2(3)] s3(3)] by (simp add: zip_up)
qed

lemma fix_right_red:
  assumes "zip_at s t (RightOf c (Nd R br b bl) p # fs)" "A = set (inorder (plug t (RightOf c (Nd R br b bl) p # fs)))"
  obtains s' where "fix_right p s = black_right p (tip bl) s'" "zip_at s' t (RightOf R bl p # RightOf B br b # fs)" "same_outside s s' A"
proof -
  have z: "zip_at s (Nd c (Nd R br b bl) p t) fs" using assms(1) by (simp add: zip_up)
  note np = zip_node [OF z]
  have red: "rb_red s b = Inr True" using red_ok [OF zip_children(1) [OF z] np(4)] by simp
  have zb: "zip_at s (Nd R br b bl) (LeftOf c p t # fs)" using z by (simp add: zip_up)
  obtain s1 where s1: "rb_set_black b s = Inr s1" "zip_at s1 (Nd B br b bl) (LeftOf c p t # fs)" "same_outside s s1 A"
    using blacken_ok [OF zb] assms(2) by (metis plug.simps(2,3))
  have z1: "zip_at s1 (Nd c (Nd B br b bl) p t) fs" using s1(2) by (simp add: zip_up)
  obtain s2 where s2: "rb_set_red p s1 = Inr s2" "zip_at s2 (Nd R (Nd B br b bl) p t) fs" "same_outside s1 s2 A"
    using redden_ok [OF z1] assms(2) by (auto simp: inorder_plug)
  obtain s3 where s3: "rb_rotate_right p s2 = Inr s3" "zip_at s3 (Nd B br b (Nd R bl p t)) fs" "same_outside s2 s3 A"
    using rotr_ok [OF s2(2)] assms(2) by (auto simp: inorder_plug)
  have z3: "zip_at s3 (Nd R bl p t) (RightOf B br b # fs)" using s3(2) by (simp add: zip_up)
  have "fix_right p s = black_right p (tip bl) s3"
    using np red s1(1) s2(1) s3(1) zip_node [OF z3] by (simp add: fix_right_def)
  then show thesis using that z3 same_outside_trans [OF same_outside_trans [OF s1(3) s2(3)] s3(3)] by (simp add: zip_up)
qed

lemma black_node: "rbh (Suc n) t \<Longrightarrow> \<not> is_red t \<Longrightarrow> nrr t \<Longrightarrow> \<exists>l a r. t = Nd B l a r \<and> rbh n l \<and> rbh n r \<and> nrr l \<and> nrr r"
  by (cases t rule: is_red.cases) auto

lemma not_red_blacken: "\<not> is_red t \<Longrightarrow> blacken t = t"
  by (cases t rule: is_red.cases) auto

lemma red_stops:
  assumes "zip_at s u fs" "lacking n R u" "A = set (inorder (plug u fs))" "pnrr False fs" "pbh (Suc n) fs N" "root_black fs"
  shows "fixed s u fs A (erase_loop (tip u) (ctop fs) s)"
proof -
  have "nrr (blacken u)" "rbh (Suc n) (blacken u)" "is_red u" using assms(2) blacken_rbh by (auto simp: lacking_def)
  then show ?thesis using fixed_here [OF assms(1,3) _ assms(4) _ assms(5,6)] erase_loop_stop [OF assms(1)] by simp
qed

lemma round_from:
  assumes "round_ok n c p g res s' fs xs A" "same_outside s s' A"
  shows "round_ok n c p g res s fs xs A"
proof -
  obtain s2 u where "same_outside s' s2 A" "zip_at s2 u fs" "inorder u = xs"
    "res = Inr (None, s2) \<and> mended n c u \<or> res = Inr (Some (p, g), s2) \<and> tip u = p \<and> u \<noteq> Lf \<and> lacking n c u"
    using assms(1) unfolding round_ok_def by blast
  then show ?thesis using same_outside_trans [OF assms(2)] unfolding round_ok_def by blast
qed

lemma root_black_tl: "root_black (f # fs) \<Longrightarrow> root_black fs"
  by (cases fs) (auto simp: root_black_def)

lemma erase_loop_ok:
  assumes "zip_at s t fs" "A = set (inorder (plug t fs))" "nrr (blacken t)" "rbh n t" "pbh (Suc n) fs N" "pnrr False fs" "root_black fs"
  shows "fixed s t fs A (erase_loop (tip t) (ctop fs) s)"
  using assms
proof (induction fs arbitrary: s t n)
  case Nil
  obtain M where "rbh M (blacken t)" using blacken_any [OF Nil(4)] by blast
  then show ?case using fixed_here [OF Nil(1,2,3) _ _ _ Nil(7), of M M] erase_loop_stop [OF Nil(1)] by simp
next
  case (Cons f fs)
  show ?case
  proof (cases "is_red t")
    case True
    have "rbh (Suc n) (blacken t)" using blacken_rbh True Cons(5) by blast
    then show ?thesis using fixed_here [OF Cons(2,3,4,7) _ Cons(6,8)] erase_loop_stop [OF Cons(2)] True by simp
  next
    case nr: False
    have t: "nrr t" using Cons(4) not_red_blacken [OF nr] by simp
    have rb: "root_black fs" using Cons(8) by (rule root_black_tl)
    have go: "fixed s' u fs A (erase_loop (tip u) (ctop fs) s')"
      if a: "zip_at s' u fs" "lacking n c u" "A = set (inorder (plug u fs))" "pnrr (c = R) fs"
        "pbh (if c = B then Suc (Suc n) else Suc n) fs N" for s' u c
    proof -
      have l: "nrr (blacken u)" "rbh (if c = B then Suc n else n) u" using a(2) by (auto simp: lacking_def)
      have p: "pbh (Suc (if c = B then Suc n else n)) fs N" using a(5) by (simp split: if_splits)
      show ?thesis by (rule Cons(1) [OF a(1,3) l p pnrr_black [OF a(4)] rb])
    qed
    show ?thesis
    proof (cases f)
      case f: (LeftOf c p r)
      have r: "rbh (Suc n) r" "nrr r" "c = R \<Longrightarrow> \<not> is_red r" "pnrr (c = R) fs" "pbh (if c = B then Suc (Suc n) else Suc n) fs N"
        using Cons(6,7) f by auto
      have z: "zip_at s t (LeftOf c p r # fs)" and A: "A = set (inorder (plug t (LeftOf c p r # fs)))" using Cons(2,3) f by auto
      note run = erase_loop_left [OF z nr]
      show ?thesis
      proof (cases "is_red r")
        case False
        then obtain x b y where b: "r = Nd B x b y" "rbh n x" "rbh n y" "nrr x" "nrr y" using black_node r(1,2) by blast
        have "round_ok n c p (ctop fs) (fix_left p s) s fs (inorder t @ p # inorder x @ b # inorder y) A"
          unfolding fix_left_black [OF z [unfolded b(1)]]
          by (rule black_left_ok [OF z [unfolded b(1)] A [unfolded b(1)] t nr Cons(5) b(2-5)])
        then have "fixed s t (LeftOf c p r # fs) A (bindP (Some (fix_left p s)) go_on)"
          by (rule loop_round [OF _ _ _ r(4,5) go]) (use A b(1) r(4,5) in \<open>simp_all add: inorder_plug\<close>)
        then show ?thesis using run f by simp
      next
        case True
        then obtain bl b br where b: "r = Nd R bl b br" using red_node by blast
        have c: "c = B" using r(3) True by (cases c) auto
        obtain x d y where d: "bl = Nd B x d y" "rbh n x" "rbh n y" "nrr x" "nrr y" "rbh (Suc n) br" "nrr br"
          using black_node [of n bl] r(1,2) b by auto
        obtain s' where s': "fix_left p s = black_left p (tip bl) s'" "zip_at s' t (LeftOf R p bl # LeftOf B b br # fs)" "same_outside s s' A"
          by (rule fix_left_red [OF z [unfolded b] A [unfolded b]])
        have A': "A = set (inorder (plug t (LeftOf R p bl # LeftOf B b br # fs)))" using A b by (simp add: inorder_plug)
        have "round_ok n R p b (fix_left p s) s (LeftOf B b br # fs) (inorder t @ p # inorder x @ d # inorder y) A"
          using round_from [OF black_left_ok [OF s'(2) [unfolded d(1)] A' [unfolded d(1)] t nr Cons(5) d(2-5)] s'(3)] s'(1) d(1) by simp
        then have "fixed s t (LeftOf c p r # fs) A (bindP (Some (fix_left p s)) go_on)"
        proof (rule loop_round [of _ _ _ "LeftOf B b br # fs", simplified])
          show "fixed s' u (LeftOf B b br # fs) A (erase_loop (tip u) b s')"
            if "zip_at s' u (LeftOf B b br # fs)" "lacking n R u" "A = set (inorder (plug (Nd B u b br) fs))" for s' u
            using red_stops [OF that(1,2)] that(3) r(4,5) c d(6,7) rb by (auto simp: root_black_def)
        qed (use A b d r(4,5) c in \<open>auto simp: inorder_plug\<close>)
        then show ?thesis using run f by simp
      qed
    next
      case f: (RightOf c r p)
      have r: "rbh (Suc n) r" "nrr r" "c = R \<Longrightarrow> \<not> is_red r" "pnrr (c = R) fs" "pbh (if c = B then Suc (Suc n) else Suc n) fs N"
        using Cons(6,7) f by auto
      have z: "zip_at s t (RightOf c r p # fs)" and A: "A = set (inorder (plug t (RightOf c r p # fs)))" using Cons(2,3) f by auto
      have "r \<noteq> Lf" using r(1) by auto
      note run = erase_loop_right [OF z nr this]
      show ?thesis
      proof (cases "is_red r")
        case False
        then obtain y b x where b: "r = Nd B y b x" "rbh n y" "rbh n x" "nrr y" "nrr x" using black_node r(1,2) by blast
        have "round_ok n c p (ctop fs) (fix_right p s) s fs (inorder y @ b # inorder x @ p # inorder t) A"
          unfolding fix_right_black [OF z [unfolded b(1)]]
          by (rule black_right_ok [OF z [unfolded b(1)] A [unfolded b(1)] t nr Cons(5) b(3,2,5,4)])
        then have "fixed s t (RightOf c r p # fs) A (bindP (Some (fix_right p s)) go_on)"
          by (rule loop_round [OF _ _ _ r(4,5) go]) (use A b(1) r(4,5) in \<open>simp_all add: inorder_plug\<close>)
        then show ?thesis using run f by simp
      next
        case True
        then obtain br b bl where b: "r = Nd R br b bl" using red_node by blast
        have c: "c = B" using r(3) True by (cases c) auto
        obtain y d x where d: "bl = Nd B y d x" "rbh n y" "rbh n x" "nrr y" "nrr x" "rbh (Suc n) br" "nrr br"
          using black_node [of n bl] r(1,2) b by auto
        obtain s' where s': "fix_right p s = black_right p (tip bl) s'" "zip_at s' t (RightOf R bl p # RightOf B br b # fs)" "same_outside s s' A"
          by (rule fix_right_red [OF z [unfolded b] A [unfolded b]])
        have A': "A = set (inorder (plug t (RightOf R bl p # RightOf B br b # fs)))" using A b by (simp add: inorder_plug)
        have "round_ok n R p b (fix_right p s) s (RightOf B br b # fs) (inorder y @ d # inorder x @ p # inorder t) A"
          using round_from [OF black_right_ok [OF s'(2) [unfolded d(1)] A' [unfolded d(1)] t nr Cons(5) d(3,2,5,4)] s'(3)] s'(1) d(1) by simp
        then have "fixed s t (RightOf c r p # fs) A (bindP (Some (fix_right p s)) go_on)"
        proof (rule loop_round [of _ _ _ "RightOf B br b # fs", simplified])
          show "fixed s' u (RightOf B br b # fs) A (erase_loop (tip u) b s')"
            if "zip_at s' u (RightOf B br b # fs)" "lacking n R u" "A = set (inorder (plug (Nd B br b u) fs))" for s' u
            using red_stops [OF that(1,2)] that(3) r(4,5) c d(6,7) rb by (auto simp: root_black_def)
        qed (use A b d r(4,5) c in \<open>auto simp: inorder_plug\<close>)
        then show ?thesis using run f by simp
      qed
    qed
  qed
qed

end
