(* ===== verification/RbTree_Erase.thy ===== *)
theory RbTree_Erase
  imports RbTree_Fix
begin

text \<open>
  Removal, the unlinking: \<open>rb_erase\<close> takes the node out, or puts its successor in its place, and repairs the
  colours with \<open>rb_erase_fix\<close>.
\<close>

section \<open>The smallest node of a subtree\<close>

fun min_path :: "rtree \<Rightarrow> frame list" where
  "min_path (Nd c (Nd d ll b lr) a r) = min_path (Nd d ll b lr) @ [LeftOf c a r]"
| "min_path t = []"

fun min_sub :: "rtree \<Rightarrow> rtree" where
  "min_sub (Nd c (Nd d ll b lr) a r) = min_sub (Nd d ll b lr)"
| "min_sub t = t"

lemma plug_append: "plug t (gs @ fs) = plug (plug t gs) fs"
  by (induction t gs rule: plug.induct) simp_all

lemma zip_append: "zip_at s t (gs @ fs) \<longleftrightarrow> zip_at s (plug t gs) fs"
  using zip_plug [of s t "gs @ fs"] zip_plug [of s "plug t gs" fs] by (simp add: plug_append)

lemma min_split: "t = plug (min_sub t) (min_path t)"
  by (induction t rule: min_sub.induct) (simp_all add: plug_append)

lemma min_sub_node:
  assumes "t \<noteq> Lf"
  obtains d x xr where "min_sub t = Nd d Lf x xr"
proof -
  have "\<exists>d x xr. min_sub t = Nd d Lf x xr" using assms by (induction t rule: min_sub.induct) auto
  then show thesis using that by blast
qed

lemma lefts_min_path [simp]: "lefts (min_path t) = []"
proof -
  have "lefts (gs @ [LeftOf c b u]) = lefts gs" for gs c b u
    by (induction gs rule: lefts.induct) simp_all
  then show ?thesis by (induction t rule: min_path.induct) simp_all
qed

lemma min_first: "min_sub t = Nd d Lf x xr \<Longrightarrow> \<exists>ys. inorder t = x # inorder xr @ ys \<and> ys = rights (min_path t)"
  using min_split [of t] inorder_plug [of "min_sub t" "min_path t"] by simp

text \<open>Taking the smallest node out: its parent points to its right subtree.\<close>

lemma min_tip: "min_path t \<noteq> [] \<Longrightarrow> tip (plug u (min_path t)) = tip t"
  by (induction t arbitrary: u rule: min_path.induct) (auto simp: plug_append)


lemma min_sub_leaf: "min_sub t = Nd d Lf x xr \<Longrightarrow> min_path t = [] \<Longrightarrow> t = Nd d Lf x xr"
  using min_split [of t] by simp

lemma min_parent:
  assumes "tree_at h q t" "min_sub t = Nd d Lf x xr" "min_path t \<noteq> []" "link q" "p = ctop (min_path t)"
  shows "(\<exists>e g u. h p = Some (mk e g x u) \<and> link g) \<and> p \<in> set (inorder t) \<and> ptr p \<and>
    h x = Some (mk d p 0 (tip xr)) \<and> tree_at h x xr \<and> ptr x"
  using assms
proof (induction t arbitrary: q rule: min_path.induct)
  case (1 c d' ll b lr a r)
  let ?l = "Nd d' ll b lr"
  have ha: "ptr a" "h a = Some (mk c q b (tip r))" "tree_at h a ?l" using 1(2) by auto
  show ?case
  proof (cases "min_path ?l = []")
    case True
    have "min_sub ?l = Nd d Lf x xr" using 1(3) by simp
    then have "?l = Nd d Lf x xr" using True by (rule min_sub_leaf)
    then show ?thesis using 1(5,6) ha True by auto
  next
    case False
    then have "p = ctop (min_path ?l)" using 1(6) by (cases "min_path ?l" rule: ctop.cases) auto
    then show ?thesis using 1(1) [OF ha(3) _ False ptr_link [OF ha(1)]] 1(3) by auto
  qed
qed simp_all

lemma min_sub_in: "min_sub t = Nd d Lf x xr \<Longrightarrow> x \<in> set (inorder t) \<and> set (inorder xr) \<subseteq> set (inorder t)"
  using min_first by fastforce

lemma unlink_min:
  assumes "tree_at h q t" "min_sub t = Nd d Lf x xr" "min_path t \<noteq> []" "distinct (inorder t)" "p = ctop (min_path t)" "link q"
    and "\<And>y. y \<in> set (inorder t) \<Longrightarrow> y \<noteq> x \<Longrightarrow>
      h' y = (if y = p then map_option (left_update (\<lambda>_. tip xr)) (h p) else reparent h xr p y)"
  shows "tree_at h' q (plug xr (min_path t))"
  using assms
proof (induction t arbitrary: q rule: min_path.induct)
  case (1 c d' ll b lr a r)
  let ?l = "Nd d' ll b lr"
  have ha: "ptr a" "h a = Some (mk c q b (tip r))" "tree_at h a ?l" "tree_at h a r" using 1(2) by auto
  have ms: "min_sub ?l = Nd d Lf x xr" using 1(3) by simp
  note xin = min_sub_in [OF ms]
  have dl: "distinct (inorder ?l)" "a \<notin> set (inorder ?l)" "a \<notin> set (inorder r)" "set (inorder ?l) \<inter> set (inorder r) = {}"
    using 1(5) by auto
  have ax: "a \<noteq> x" "a \<notin> set (inorder xr)" "x \<notin> set (inorder r)" "set (inorder xr) \<inter> set (inorder r) = {}" using dl xin by auto
  have pr: "p \<notin> set (inorder r)" "p \<in> set (inorder ?l) \<or> p = a \<and> min_path ?l = []"
  proof -
    have "p = a" if "min_path ?l = []" using 1(6) that by simp
    moreover have "p \<in> set (inorder ?l)" if ne: "min_path ?l \<noteq> []"
    proof -
      have "p = ctop (min_path ?l)" using 1(6) ne by (cases "min_path ?l" rule: ctop.cases) auto
      then show ?thesis using min_parent [OF ha(3) ms ne ptr_link [OF ha(1)]] by blast
    qed
    ultimately show "p \<in> set (inorder ?l) \<or> p = a \<and> min_path ?l = []" by blast
    then show "p \<notin> set (inorder r)" using dl(3,4) by auto
  qed
  have hr: "tree_at h' a r"
  proof (rule tree_frame [OF _ ha(4)])
    fix y assume y: "y \<in> set (inorder r)"
    then have "y \<noteq> p" "y \<noteq> x" "y \<notin> set (inorder xr)" using pr(1) ax(3,4) by auto
    then show "h' y = h y" using 1(8) [of y] y by simp
  qed
  show ?case
  proof (cases "min_path ?l = []")
    case True
    have l: "?l = Nd d Lf x xr" by (rule min_sub_leaf [OF ms True])
    have p: "p = a" using pr(2) True dl(2) 1(6) by simp
    have "h' a = Some (mk c q (tip xr) (tip r))" using 1(8) [of a] ax(1) ha(2) p by simp
    moreover have "tree_at (reparent h xr a) a xr" using ha(3) l dl(1) by (intro tree_reparent) auto
    then have "tree_at h' a xr"
    proof (rule tree_frame [rotated])
      fix y assume y: "y \<in> set (inorder xr)"
      then have "y \<noteq> a" "y \<noteq> x" "y \<in> set (inorder (Nd c ?l a r))" using ax(2) dl(1) l by auto
      then show "h' y = reparent h xr a y" using 1(8) [of y] p by simp
    qed
    ultimately show ?thesis using True ha(1) hr by simp
  next
    case False
    have p: "p = ctop (min_path ?l)" using 1(6) False by (cases "min_path ?l" rule: ctop.cases) auto
    have "tree_at h' a (plug xr (min_path ?l))"
      by (rule 1(1) [OF ha(3) ms False dl(1) p ptr_link [OF ha(1)]]) (rule 1(8); auto)
    moreover have "a \<noteq> p" using pr(2) False dl(2) by auto
    then have "h' a = Some (mk c q b (tip r))" using 1(8) [of a] ax(1,2) ha(2) by simp
    moreover have "tip (plug xr (min_path ?l)) = b" using min_tip [OF False, of xr] by simp
    ultimately show ?thesis using ha(1) hr by (simp add: plug_append)
  qed
qed simp_all


section \<open>Unlinking a node with two children\<close>

text \<open>The state before the pointer to \<open>node\<close> from above is changed to its successor \<open>x\<close>.\<close>

definition moved :: "rb_tree \<Rightarrow> rb_tree \<Rightarrow> color \<Rightarrow> rtree \<Rightarrow> u64 \<Rightarrow> u64 \<Rightarrow> rtree \<Rightarrow> frame list \<Rightarrow> u64 set \<Rightarrow> bool" where
  "moved s s' c l node x r' fs A \<longleftrightarrow>
     nodes s' node = nodes s node \<and> path_at (nodes s') (root s') node fs \<and> ptr x \<and>
     nodes s' x = Some (mk c (ctop fs) (tip l) (tip r')) \<and> tree_at (nodes s') x l \<and> tree_at (nodes s') x r' \<and> same_outside s s' A"

lemma ctop_app: "gs \<noteq> [] \<Longrightarrow> ctop (gs @ fs) = ctop gs"
  by (cases gs rule: ctop.cases) auto

lemma next_in_right:
  assumes "zip_at s (Nd c l node r) fs" "min_sub r = Nd d Lf x xr"
  shows "rb_next s node = Some (Inr x)"
proof -
  obtain ys where "inorder r = x # ys" using min_first [OF assms(2)] by auto
  then show ?thesis using rb_next_at [OF assms(1)] by simp
qed

lemma reparent_set:
  assumes "tree_at (nodes s) p t" "link p" "t \<noteq> Lf"
  shows "rb_set_parent (tip t) q s = Inr (s\<lparr>nodes := reparent (nodes s) t q\<rparr>)"
proof -
  have "tip t \<noteq> 0" using assms(1,3) by (cases t) auto
  then show ?thesis using reparent_ok [OF assms(1,2), of q] by simp
qed

lemma erase_two_near:
  assumes "zip_at s (Nd c l node (Nd d Lf x xr)) fs" "l \<noteq> Lf"
  shows "\<exists>s'. erase_two node s = Some (Inr (tip xr, x, x, cbit d, s')) \<and>
    moved s s' c l node x xr fs (set (inorder (plug (Nd c l node (Nd d Lf x xr)) fs)))"
proof -
  let ?t = "Nd c l node (Nd d Lf x xr)"
  have z: "ptr node" "nodes s node = Some (mk c (ctop fs) (tip l) x)" "tree_at (nodes s) node l" "ptr x"
    "nodes s x = Some (mk d node 0 (tip xr))" "tree_at (nodes s) x xr" "path_at (nodes s) (root s) node fs"
    and di: "distinct (inorder (plug ?t fs))" using assms by (auto simp: zip_at_def)
  note nn = zip_node [OF assms(1)]
  have dd: "node \<notin> set (inorder l)" "x \<notin> set (inorder l)" "x \<noteq> node" "x \<notin> set (inorder xr)" "set (inorder l) \<inter> set (inorder xr) = {}"
    "x \<notin> frame_nodes fs" "set (inorder l) \<inter> frame_nodes fs = {}" "distinct (inorder l)"
    using distinct_plug [OF di] by auto
  define s1 where "s1 = s\<lparr>nodes := (nodes s)(x \<mapsto> mk c (ctop fs) (tip l) (tip xr))\<rparr>"
  define s2 where "s2 = s1\<lparr>nodes := reparent (nodes s1) l x\<rparr>"
  have nx: "rb_next s node = Some (Inr x)" by (rule next_in_right [OF assms(1), of d x xr]) simp
  have "(mk d node 0 (tip xr))\<lparr>left := tip l, rparent := rparent (mk c (ctop fs) (tip l) x)\<rparr> = mk c (ctop fs) (tip l) (tip xr)"
    by (simp add: mk_def)
  then have u: "upd x (\<lambda>nx. nx\<lparr>left := tip l, rparent := rparent (mk c (ctop fs) (tip l) x)\<rparr>) s = Inr s1"
    using upd_ok [OF z(5,4)] by (simp add: s1_def)
  have l1: "tree_at (nodes s1) node l" by (rule tree_frame [OF _ z(3)]) (use dd in \<open>auto simp: s1_def\<close>)
  have ln: "link node" using z(1) by (rule ptr_link)
  have u2: "rb_set_parent (tip l) x s1 = Inr s2" using reparent_set [OF l1 ln assms(2)] by (simp add: s2_def)
  have run: "erase_two node s = Some (Inr (tip xr, x, x, cbit d, s2))"
    using nx rd_ok [OF z(5,4)] nn(1) u u2 ln by (simp add: erase_two_def Let_def)
  have same: "nodes s2 y = nodes s y" if "y \<noteq> x" "y \<notin> set (inorder l)" for y using that by (simp add: s2_def s1_def)
  have "tree_at (nodes s2) x l" using tree_reparent [OF l1 dd(8)] by (simp add: s2_def)
  moreover have "tree_at (nodes s2) x xr" by (rule tree_frame [OF same z(6)]) (use dd in auto)
  moreover have "path_at (nodes s2) (root s2) node fs"
    using path_frame [OF same z(7)] dd(6,7) by (fastforce simp: s2_def s1_def)
  moreover have "nodes s2 x = Some (mk c (ctop fs) (tip l) (tip xr))" using dd(2) by (simp add: s2_def s1_def)
  moreover have "same_outside s s2 (set (inorder (plug ?t fs)))"
    using same by (auto simp: same_outside_def inorder_plug)
  ultimately have "moved s s2 c l node x xr fs (set (inorder (plug ?t fs)))"
    using z(4) same [of node] dd(1,3) by (simp add: moved_def)
  then show ?thesis using run by blast
qed


lemma min_not_tip:
  assumes "min_sub t = Nd d Lf x xr" "min_path t \<noteq> []" "distinct (inorder t)"
  shows "x \<noteq> tip t" "x \<noteq> ctop (min_path t)" "x \<notin> set (inorder (plug xr (min_path t)))" "ctop (min_path t) \<notin> set (inorder xr)"
    "set (inorder (plug xr (min_path t))) \<subseteq> set (inorder t)" "distinct (inorder (plug xr (min_path t)))"
proof -
  have t: "t = plug (Nd d Lf x xr) (min_path t)" using min_split [of t] assms(1) by simp
  then have di: "distinct (inorder (plug (Nd d Lf x xr) (min_path t)))" using assms(3) by simp
  then show new: "x \<notin> set (inorder (plug xr (min_path t)))" "distinct (inorder (plug xr (min_path t)))"
    by (auto simp: inorder_plug)
  have "tip t = tip (plug xr (min_path t))" using min_tip [OF assms(2)] by simp
  moreover have "plug xr (min_path t) \<noteq> Lf"
  proof
    assume "plug xr (min_path t) = Lf"
    then have "inorder (plug xr (min_path t)) = []" by simp
    then have "lefts (min_path t) = []" "rights (min_path t) = []" by (simp_all add: inorder_plug)
    then have "frame_nodes (min_path t) = {}" by (simp flip: set_plug)
    then show False using ctip_in [OF assms(2)] by simp
  qed
  ultimately have "tip t \<in> set (inorder (plug xr (min_path t)))" by (cases "plug xr (min_path t)") auto
  then show "x \<noteq> tip t" using new by auto
  have "set (inorder (Nd d Lf x xr)) \<inter> frame_nodes (min_path t) = {}" using distinct_plug [OF di] by simp
  then show "x \<noteq> ctop (min_path t)" "ctop (min_path t) \<notin> set (inorder xr)" using ctip_in [OF assms(2)] by auto
  have "set (inorder (plug xr (min_path t))) \<subseteq> set (inorder (plug (Nd d Lf x xr) (min_path t)))" by (auto simp: inorder_plug)
  then show "set (inorder (plug xr (min_path t))) \<subseteq> set (inorder t)" using t by simp
qed

lemma erase_two_far:
  assumes "zip_at s (Nd c l node r) fs" "l \<noteq> Lf" "min_sub r = Nd d Lf x xr" "min_path r \<noteq> []"
  shows "\<exists>s'. erase_two node s = Some (Inr (tip xr, ctop (min_path r), x, cbit d, s')) \<and>
    moved s s' c l node x (plug xr (min_path r)) fs (set (inorder (plug (Nd c l node r) fs)))"
proof -
  let ?t = "Nd c l node r" and ?r = "plug xr (min_path r)"
  define p where "p = ctop (min_path r)"
  have z: "ptr node" "nodes s node = Some (mk c (ctop fs) (tip l) (tip r))" "tree_at (nodes s) node l" "tree_at (nodes s) node r"
    "path_at (nodes s) (root s) node fs" and di: "distinct (inorder (plug ?t fs))" using assms by (auto simp: zip_at_def)
  note nn = zip_node [OF assms(1)]
  have dr: "distinct (inorder r)" using distinct_plug [OF di] by auto
  note mn = min_not_tip [OF assms(3,4) dr, folded p_def]
  obtain e g u where pn: "nodes s p = Some (mk e g x u)" "link g" "p \<in> set (inorder r)" "ptr p"
    and xn: "nodes s x = Some (mk d p 0 (tip xr))" "tree_at (nodes s) x xr" "ptr x"
    using min_parent [OF z(4) assms(3,4) nn(4) p_def] by blast
  note xin = min_sub_in [OF assms(3)]
  have dt: "distinct (inorder l @ node # inorder r)" "(set (inorder l) \<union> insert node (set (inorder r))) \<inter> frame_nodes fs = {}"
    using distinct_plug [OF di] by auto
  have dd: "x \<notin> set (inorder l)" "x \<noteq> node" "p \<notin> set (inorder l)" "p \<noteq> node" "node \<notin> set (inorder l)" "node \<notin> set (inorder r)"
    "set (inorder xr) \<inter> set (inorder l) = {}" "distinct (inorder l)" "set (inorder ?r) \<inter> set (inorder l) = {}" "node \<notin> set (inorder xr)"
    "node \<notin> set (inorder ?r)" "x \<notin> set (inorder xr)" "distinct (inorder xr)"
    using dt(1) xin pn(3) mn(5) min_first [OF assms(3)] dr by auto
  have df: "x \<notin> frame_nodes fs" "p \<notin> frame_nodes fs" "set (inorder l) \<inter> frame_nodes fs = {}" "set (inorder xr) \<inter> frame_nodes fs = {}"
    "set (inorder ?r) \<inter> frame_nodes fs = {}"
    using dt(2) xin pn(3) mn(5) by auto
  define s1 where "s1 = s\<lparr>nodes := (nodes s)(x \<mapsto> mk c (ctop fs) (tip l) (tip r))\<rparr>"
  define s2 where "s2 = s1\<lparr>nodes := (nodes s1)(p \<mapsto> mk e g (tip xr) u)\<rparr>"
  define s3 where "s3 = s2\<lparr>nodes := reparent (nodes s2) xr p\<rparr>"
  define s4 where "s4 = s3\<lparr>nodes := reparent (nodes s3) l x\<rparr>"
  define s5 where "s5 = s4\<lparr>nodes := reparent (nodes s4) ?r x\<rparr>"
  have lk: "link node" "link x" "link p" using z(1) xn(3) pn(4) by (simp_all add: ptr_link)
  have u1: "upd x (\<lambda>_. mk c (ctop fs) (tip l) (tip r)) s = Inr s1" using upd_ok [OF xn(1,3)] by (simp add: s1_def)
  have u2: "upd p (left_update (\<lambda>_. tip xr)) s1 = Inr s2"
    using upd_ok [of s1 p "mk e g x u"] pn(1,4) mn(2) by (simp add: s2_def s1_def)
  have t2: "tree_at (nodes s2) x xr"
    by (rule tree_frame [OF _ xn(2)]) (use mn(4) dd(12) in \<open>auto simp: s2_def s1_def\<close>)
  have u3: "(if tip xr \<noteq> 0 then rb_set_parent (tip xr) p s2 else Inr s2) = Inr s3"
    using reparent_ok [OF t2 lk(2), of p] by (simp add: s3_def)
  have x3: "nodes s3 x = Some (mk c (ctop fs) (tip l) (tip r))" using mn(2) dd(12) by (simp add: s3_def s2_def s1_def)
  have l3: "tree_at (nodes s3) node l"
  proof (rule tree_frame [OF _ z(3)])
    fix y assume "y \<in> set (inorder l)"
    then have "y \<notin> set (inorder xr)" "y \<noteq> x" "y \<noteq> p" using dd(1,3,7) by auto
    then show "nodes s3 y = nodes s y" by (simp add: s3_def s2_def s1_def)
  qed
  have u4: "rb_set_parent (tip l) x s3 = Inr s4" using reparent_set [OF l3 lk(1) assms(2)] by (simp add: s4_def)
  have x4: "nodes s4 x = Some (mk c (ctop fs) (tip l) (tip r))" using x3 dd(1) by (simp add: s4_def)
  have o4: "nodes s4 y = (if y = p then map_option (left_update (\<lambda>_. tip xr)) (nodes s p) else reparent (nodes s) xr p y)"
    if y: "y \<in> set (inorder r)" "y \<noteq> x" for y
  proof -
    have "y \<notin> set (inorder l)" using y(1) dt(1) by auto
    then have "nodes s4 y = reparent (nodes s2) xr p y" by (simp add: s4_def s3_def)
    also have "\<dots> = (if y = p then Some (mk e g (tip xr) u) else reparent (nodes s) xr p y)"
      using y(2) mn(4) by (cases xr) (auto simp: reparent_def s2_def s1_def)
    finally show ?thesis using pn(1) by simp
  qed
  have r4: "tree_at (nodes s4) node ?r"
    by (rule unlink_min [OF z(4) assms(3,4) dr p_def nn(4) o4])
  have rn: "?r \<noteq> Lf" "tip ?r = tip r"
  proof -
    show tp: "tip ?r = tip r" by (rule min_tip [OF assms(4)])
    have "tip r \<noteq> 0" using z(4) assms(3) by (cases r) auto
    then show "?r \<noteq> Lf" using tp by auto
  qed
  have u5: "rb_set_parent (tip r) x s4 = Inr s5" using reparent_set [OF r4 lk(1) rn(1)] rn(2) by (simp add: s5_def)
  have run: "erase_two node s = Some (Inr (tip xr, p, x, cbit d, s5))"
    using next_in_right [OF assms(1,3)] rd_ok [OF xn(1,3)] nn(1) mn(1) lk u1 u2 u3 u4 u5 rd_ok [OF x3 xn(3)] rd_ok [OF x4 xn(3)]
    by (cases "tip xr = 0") (simp_all add: erase_two_def Let_def)
  have same: "nodes s5 y = nodes s y" if "y \<noteq> x" "y \<noteq> p" "y \<notin> set (inorder l)" "y \<notin> set (inorder xr)" "y \<notin> set (inorder ?r)" for y
    using that by (simp add: s5_def s4_def s3_def s2_def s1_def)
  have "tree_at (nodes s4) x l" using tree_reparent [OF l3 dd(8)] by (simp add: s4_def)
  then have "tree_at (nodes s5) x l"
  proof (rule tree_frame [rotated])
    fix y assume "y \<in> set (inorder l)"
    then have "y \<notin> set (inorder ?r)" using dd(9) by auto
    then show "nodes s5 y = nodes s4 y" by (simp add: s5_def)
  qed
  moreover have "tree_at (nodes s5) x ?r" using tree_reparent [OF r4 mn(6)] by (simp add: s5_def)
  moreover have "path_at (nodes s5) (root s5) node fs"
  proof -
    have "path_at (nodes s5) (root s) node fs"
      by (rule path_frame [OF same z(5)]) (use df in \<open>auto simp: disjoint_iff\<close>)
    then show ?thesis by (simp add: s5_def s4_def s3_def s2_def s1_def)
  qed
  moreover have "nodes s5 x = Some (mk c (ctop fs) (tip l) (tip ?r))" using x4 mn(3) rn(2) by (simp add: s5_def)
  moreover have "same_outside s s5 (set (inorder (plug ?t fs)))"
  proof -
    have "{x, p} \<union> set (inorder l) \<union> set (inorder xr) \<union> set (inorder ?r) \<subseteq> set (inorder (plug ?t fs))"
      using xin pn(3) mn(5) by (auto simp: inorder_plug)
    then show ?thesis using same unfolding same_outside_def by blast
  qed
  moreover have "nodes s5 node = nodes s node" by (rule same) (use dd in auto)
  ultimately have "moved s s5 c l node x ?r fs (set (inorder (plug ?t fs)))" using xn(3) by (simp add: moved_def)
  then show ?thesis using run unfolding p_def by blast
qed


section \<open>Removal as a whole\<close>

lemma same_outside_mono: "same_outside s s' A \<Longrightarrow> A \<subseteq> A' \<Longrightarrow> same_outside s s' A'"
  by (auto simp: same_outside_def)

lemma erase_fix_ok:
  assumes "fixed s t fs A (erase_loop (tip t) (ctop fs) s)"
  shows "\<exists>s' u. rb_erase_fix (tip t) (ctop fs) s = Some (Inr s') \<and> is_tree s' u \<and> red_black u \<and>
    inorder u = inorder (plug t fs) \<and> same_outside s s' A"
proof -
  obtain x s1 s2 u where "erase_loop (tip t) (ctop fs) s = Some (Inr (x, s1))"
    "(if x \<noteq> 0 then rb_set_black x s1 else Inr s1) = Inr s2"
    "is_tree s2 u" "red_black u" "inorder u = inorder (plug t fs)" "same_outside s s2 A"
    using assms unfolding fixed_def by blast
  then show ?thesis by (intro exI [of _ s2] exI [of _ u]) (simp add: rb_erase_fix_def)
qed

text \<open>The lost node had colour \<open>d\<close>; its only child \<open>m\<close> is in its place.\<close>

lemma erase_tail:
  assumes "zip_at s m fs" "A = set (inorder (plug m fs))" "nrr m" "d = R \<Longrightarrow> \<not> is_red m" "rbh k m"
    and "pnrr (d = R) fs" "pbh (if d = B then Suc k else k) fs N" "root_black fs"
  shows "\<exists>s' t. (if cbit d = BLACK then rb_erase_fix (tip m) (ctop fs) s else Some (Inr s)) = Some (Inr s') \<and> is_tree s' t \<and>
    red_black t \<and> inorder t = inorder (plug m fs) \<and> same_outside s s' A"
proof (cases d)
  case B
  have "pbh (Suc k) fs N" using assms(7) B by simp
  then have "fixed s m fs A (erase_loop (tip m) (ctop fs) s)"
    using erase_loop_ok [OF assms(1,2) blacken_nrr [OF assms(3)] assms(5) _ pnrr_black [OF assms(6)] assms(8)] by simp
  then show ?thesis using erase_fix_ok B by (simp add: BLACK_def)
next
  case R
  have nr: "\<not> is_red m" using assms(4) R by simp
  have "red_black (blacken (plug m fs))"
    by (rule plug_red_black [OF assms(3,5)]) (use assms(6,7) R nr pnrr_black in auto)
  moreover have "\<not> is_red (plug m fs)"
  proof (cases "fs = []")
    case False
    have "gs \<noteq> [] \<Longrightarrow> is_red (plug u gs) \<longleftrightarrow> fcolor (last gs) = R" for u gs
      by (induction u gs rule: plug.induct) auto
    then show ?thesis using False assms(8) by (simp add: root_black_def)
  qed (use nr in simp)
  then have "blacken (plug m fs) = plug m fs" by (rule not_red_blacken)
  ultimately have "red_black (plug m fs)" by simp
  moreover have "is_tree s (plug m fs)" using assms(1) by (simp add: is_tree_plug)
  moreover have "same_outside s s A" by (rule same_outside_refl)
  ultimately have "is_tree s (plug m fs) \<and> red_black (plug m fs) \<and> inorder (plug m fs) = inorder (plug m fs) \<and> same_outside s s A"
    by simp
  then show ?thesis unfolding R by (intro exI [of _ s] exI [of _ "plug m fs"]) (simp add: BLACK_def)
qed

lemma path_rename:
  "pnrr b (gs @ RightOf c l x # fs) \<longleftrightarrow> pnrr b (gs @ RightOf c l y # fs)"
  "pbh n (gs @ RightOf c l x # fs) N \<longleftrightarrow> pbh n (gs @ RightOf c l y # fs) N"
  "root_black (gs @ RightOf c l x # fs) \<longleftrightarrow> root_black (gs @ RightOf c l y # fs)"
proof -
  show "pnrr b (gs @ RightOf c l x # fs) \<longleftrightarrow> pnrr b (gs @ RightOf c l y # fs)"
    by (induction b gs rule: pnrr.induct) simp_all
  show "pbh n (gs @ RightOf c l x # fs) N \<longleftrightarrow> pbh n (gs @ RightOf c l y # fs) N"
    by (induction n gs N rule: pbh.induct) simp_all
qed (simp add: root_black_def)

lemma erase_one_at:
  assumes "zip_at s (Nd c l node r) fs" "l = Lf \<or> r = Lf" "m = (if l \<noteq> Lf then l else r)"
  shows "\<exists>s1. erase_one node s = Inr (tip m, ctop fs, tip m, cbit c, s1) \<and> nodes s1 node = nodes s node \<and>
    replace_child (ctop fs) node (tip m) s1 = Inr (relink s1 fs (tip m)) \<and> zip_at (relink s1 fs (tip m)) m fs \<and>
    same_outside s (relink s1 fs (tip m)) (set (inorder (plug (Nd c l node r) fs)))"
proof -
  let ?t = "Nd c l node r"
  note nn = zip_node [OF assms(1)]
  have z: "tree_at (nodes s) node l" "tree_at (nodes s) node r" "path_at (nodes s) (root s) node fs"
    and di: "distinct (inorder (plug ?t fs))" using assms by (auto simp: zip_at_def)
  have m: "tree_at (nodes s) node m" "set (inorder m) \<subseteq> set (inorder ?t) - {node}" "distinct (inorder m)"
    using z(1,2) assms(2,3) distinct_plug [OF di] by auto
  have "tip l \<noteq> 0 \<longleftrightarrow> l \<noteq> Lf" using z(1) by (cases l) auto
  then have tm: "(if tip l \<noteq> 0 then tip l else tip r) = tip m" using assms(3) by simp
  define s1 where "s1 = s\<lparr>nodes := reparent (nodes s) m (ctop fs)\<rparr>"
  have fr: "set (inorder ?t) \<inter> frame_nodes fs = {}" using distinct_plug [OF di] by simp
  have run: "erase_one node s = Inr (tip m, ctop fs, tip m, cbit c, s1)"
    using nn reparent_ok [OF m(1) nn(4), of "ctop fs"] tm
    by (cases "tip l = 0"; cases "tip m = 0") (simp_all add: erase_one_def Let_def s1_def)
  have same: "nodes s1 y = nodes s y" if "y \<notin> set (inorder m)" for y using that by (simp add: s1_def)
  have p1: "path_at (nodes s1) (root s1) node fs"
  proof -
    have "path_at (nodes s1) (root s) node fs" by (rule path_frame [OF same z(3)]) (use fr m(2) in auto)
    then show ?thesis by (simp add: s1_def)
  qed
  have nf: "node \<notin> frame_nodes fs" using fr by auto
  have dl: "distinct (lefts fs @ rights fs)" by (rule distinct_frames [OF di])
  have t1: "tree_at (nodes (relink s1 fs (tip m))) (ctop fs) m"
  proof (rule tree_frame)
    show "tree_at (nodes s1) (ctop fs) m" using tree_reparent [OF m(1,3)] by (simp add: s1_def)
    show "nodes (relink s1 fs (tip m)) y = nodes s1 y" if "y \<in> set (inorder m)" for y
      by (rule relink_other) (use that fr m(2) in auto)
  qed
  have "inorder (plug m fs) = lefts fs @ inorder m @ rights fs" by (rule inorder_plug)
  moreover have "inorder m = inorder l @ inorder r" using assms(2,3) by auto
  ultimately have "distinct (inorder (plug m fs))" using di by (auto simp: inorder_plug)
  then have "zip_at (relink s1 fs (tip m)) m fs" using t1 path_relink [OF p1 dl] by (simp add: zip_at_def)
  moreover have "same_outside s (relink s1 fs (tip m)) (set (inorder (plug ?t fs)))"
  proof -
    have "nodes (relink s1 fs (tip m)) y = nodes s y" if "y \<notin> frame_nodes fs" "y \<notin> set (inorder m)" for y
      using that relink_other same by simp
    moreover have "frame_nodes fs \<union> set (inorder m) \<subseteq> set (inorder (plug ?t fs))"
      using m(2) by (auto simp: inorder_plug simp flip: set_plug)
    ultimately show ?thesis unfolding same_outside_def by blast
  qed
  moreover have "nodes s1 node = nodes s node" by (rule same) (use m(2) in auto)
  ultimately show ?thesis using run replace_child_ok [OF p1 nf ptr_nonzero [OF nn(3)]] by blast
qed

lemma moved_relink:
  assumes "moved s s' c l node x r' fs A" "zip_at s (Nd c l node r) fs" "node \<notin> frame_nodes fs"
    and "distinct (inorder (plug (Nd c l x r') fs))" "frame_nodes fs \<subseteq> A"
  shows "replace_child (ctop fs) node x s' = Inr (relink s' fs x) \<and> zip_at (relink s' fs x) (Nd c l x r') fs \<and>
    same_outside s (relink s' fs x) A"
proof -
  have mv: "path_at (nodes s') (root s') node fs" "ptr x" "nodes s' x = Some (mk c (ctop fs) (tip l) (tip r'))"
    "tree_at (nodes s') x l" "tree_at (nodes s') x r'" "same_outside s s' A"
    using assms(1) by (auto simp: moved_def)
  have fr: "set (inorder (Nd c l x r')) \<inter> frame_nodes fs = {}" using distinct_plug [OF assms(4)] by simp
  have o: "nodes (relink s' fs x) y = nodes s' y" if "y \<notin> frame_nodes fs" for y using that by (rule relink_other)
  have "tree_at (nodes (relink s' fs x)) x l" by (rule tree_frame [OF o mv(4)]) (use fr in auto)
  moreover have "tree_at (nodes (relink s' fs x)) x r'" by (rule tree_frame [OF o mv(5)]) (use fr in auto)
  moreover have "nodes (relink s' fs x) x = Some (mk c (ctop fs) (tip l) (tip r'))" using o [of x] fr mv(3) by simp
  ultimately have "zip_at (relink s' fs x) (Nd c l x r') fs"
    using mv(2) path_relink [OF mv(1) distinct_frames [OF assms(4)]] assms(4) by (simp add: zip_at_def)
  moreover have "same_outside s (relink s' fs x) A"
    unfolding same_outside_def
  proof (intro allI impI)
    fix y assume y: "y \<notin> A"
    then have "y \<notin> frame_nodes fs" using assms(5) by blast
    then show "nodes (relink s' fs x) y = nodes s y" using o mv(6) y by (simp add: same_outside_def)
  qed
  ultimately show ?thesis using replace_child_ok [OF mv(1) assms(3)] zip_node(3) [OF assms(2)] by simp
qed


lemma nrr_child: "nrr (Nd c l a r) \<Longrightarrow> nrr l \<and> nrr r \<and> (c = R \<longrightarrow> \<not> is_red l \<and> \<not> is_red r)"
  by auto

lemma rb_erase_at:
  assumes "zip_at s (Nd c l node r) fs" "red_black (plug (Nd c l node r) fs)"
  shows "\<exists>s' t. rb_erase node s = Some (Inr s') \<and> is_tree s' t \<and> red_black t \<and>
    inorder t = lefts fs @ inorder l @ inorder r @ rights fs \<and> same_outside s s' (set (inorder (plug (Nd c l node r) fs)))"
proof -
  let ?t = "Nd c l node r"
  let ?A = "set (inorder (plug ?t fs))"
  note nn = zip_node [OF assms(1)]
  have z: "tree_at (nodes s) node l" "tree_at (nodes s) node r" "nodes s node = Some (mk c (ctop fs) (tip l) (tip r))"
    and di: "distinct (inorder (plug ?t fs))" using assms(1) by (auto simp: zip_at_def)
  have t0: "tip l \<noteq> 0 \<longleftrightarrow> l \<noteq> Lf" using z(1) by (cases l) auto
  have t1: "tip r \<noteq> 0 \<longleftrightarrow> r \<noteq> Lf" using z(2) by (cases r) auto
  show ?thesis
  proof (cases "l = Lf \<or> r = Lf")
    case True
    define m where "m = (if l \<noteq> Lf then l else r)"
    obtain s1 where s1: "erase_one node s = Inr (tip m, ctop fs, tip m, cbit c, s1)" "nodes s1 node = nodes s node"
      "replace_child (ctop fs) node (tip m) s1 = Inr (relink s1 fs (tip m))" "zip_at (relink s1 fs (tip m)) m fs"
      "same_outside s (relink s1 fs (tip m)) ?A"
      using erase_one_at [OF assms(1) True m_def] by blast
    have im: "inorder m = inorder l @ inorder r" using True m_def by auto
    obtain n N where c: "pnrr (c = R) fs" "rbh n ?t" "pbh n fs N" "root_black fs" "nrr ?t"
      using red_black_path [OF assms(2)] assms(2) by (auto simp: root_black_def red_black_def nrr_plug)
    obtain k where k: "rbh k m" "n = (if c = B then Suc k else k)" using c(2) m_def by (auto simp: rbh_Nd split: if_splits)
    have p: "pbh (if c = B then Suc k else k) fs N" using c(3) k(2) by simp
    have nm: "nrr m" "c = R \<Longrightarrow> \<not> is_red m" using nrr_child [OF c(5)] m_def by auto
    obtain s' t where st: "(if cbit c = BLACK then rb_erase_fix (tip m) (ctop fs) (relink s1 fs (tip m)) else Some (Inr (relink s1 fs (tip m)))) = Some (Inr s')"
      "is_tree s' t" "red_black t" "inorder t = inorder (plug m fs)" "same_outside (relink s1 fs (tip m)) s' (set (inorder (plug m fs)))"
      using erase_tail [OF s1(4) refl nm k(1) c(1) p c(4)] by blast
    have nd: "rd s1 node = Inr (mk c (ctop fs) (tip l) (tip r))" using s1(2) z(3) nn(3) by (simp add: rd_ok)
    have "rb_erase node s = Some (Inr s')"
      using True t0 t1 nn s1(1,3) st(1) nd by (auto simp: rb_erase_def)
    moreover have "set (inorder (plug m fs)) \<subseteq> ?A" using im by (auto simp: inorder_plug)
    then have "same_outside s s' ?A" using same_outside_trans [OF s1(5) same_outside_mono [OF st(5)]] by simp
    ultimately show ?thesis using st(2-4) im by (intro exI [of _ s'] exI [of _ t]) (simp add: inorder_plug)
  next
    case False
    then have two: "l \<noteq> Lf" "r \<noteq> Lf" by auto
    obtain d x xr where ms: "min_sub r = Nd d Lf x xr" by (rule min_sub_node [OF two(2)])
    have r: "r = plug (Nd d Lf x xr) (min_path r)" using min_split [of r] ms by simp
    let ?r = "plug xr (min_path r)" and ?fs = "min_path r @ RightOf c l x # fs"
    have run: "\<exists>s1. erase_two node s = Some (Inr (tip xr, ctop ?fs, x, cbit d, s1)) \<and> moved s s1 c l node x ?r fs ?A"
    proof (cases "min_path r = []")
      case True
      then have "r = Nd d Lf x xr" using r by simp
      then show ?thesis using erase_two_near [of s c l node d x xr fs] assms(1) two(1) True by auto
    next
      case ne: False
      show ?thesis using erase_two_far [OF assms(1) two(1) ms ne] ctop_app [OF ne] by simp
    qed
    then obtain s1 where s1: "erase_two node s = Some (Inr (tip xr, ctop ?fs, x, cbit d, s1))" "moved s s1 c l node x ?r fs ?A" by blast
    define s2 where "s2 = relink s1 fs x"
    define ys where "ys = inorder xr @ rights (min_path r)"
    have ir: "inorder r = x # ys" "inorder ?r = ys"
      using inorder_plug [of "Nd d Lf x xr" "min_path r"] r by (simp_all add: ys_def inorder_plug)
    have nf: "node \<notin> frame_nodes fs" using distinct_plug [OF di] by auto
    have dx: "distinct (inorder (plug (Nd c l x ?r) fs))" using di ir by (auto simp: inorder_plug)
    have fA: "frame_nodes fs \<subseteq> ?A" by (auto simp: inorder_plug simp flip: set_plug)
    have s2: "replace_child (ctop fs) node x s1 = Inr s2" "zip_at s2 (Nd c l x ?r) fs" "same_outside s s2 ?A"
      using moved_relink [OF s1(2) assms(1) nf dx fA] by (simp_all add: s2_def)
    have zx: "zip_at s2 xr ?fs" using s2(2) by (simp add: zip_append zip_up)
    have "plug ?t fs = plug (Nd d Lf x xr) (min_path r @ RightOf c l node # fs)" using r by (simp add: plug_append)
    then have rb: "red_black (plug (Nd d Lf x xr) (min_path r @ RightOf c l node # fs))" using assms(2) by simp
    obtain n N where c: "pnrr (d = R) ?fs" "rbh n (Nd d Lf x xr)" "pbh n ?fs N" "root_black ?fs" "nrr (Nd d Lf x xr)"
    proof -
      note pr = path_rename [where gs = "min_path r" and c = c and l = l and fs = fs and x = node and y = x]
      have "root_black (min_path r @ RightOf c l node # fs)" "nrr (Nd d Lf x xr)"
        using red_black_path [OF rb] rb by (auto simp: root_black_def red_black_def nrr_plug)
      then show thesis using that red_black_path [OF rb] pr by auto
    qed
    obtain k where k: "rbh k xr" "n = (if d = B then Suc k else k)" using c(2) by (auto simp: rbh_Nd split: if_splits)
    have p: "pbh (if d = B then Suc k else k) ?fs N" using c(3) k(2) by simp
    have nm: "nrr xr" "d = R \<Longrightarrow> \<not> is_red xr" using nrr_child [OF c(5)] by auto
    obtain s' t where st: "(if cbit d = BLACK then rb_erase_fix (tip xr) (ctop ?fs) s2 else Some (Inr s2)) = Some (Inr s')"
      "is_tree s' t" "red_black t" "inorder t = inorder (plug xr ?fs)" "same_outside s2 s' (set (inorder (plug xr ?fs)))"
      using erase_tail [OF zx refl nm k(1) c(1) p c(4)] by blast
    have it: "inorder (plug xr ?fs) = lefts fs @ inorder l @ inorder r @ rights fs"
      using ir by (simp add: plug_append inorder_plug)
    have nd: "rd s1 node = Inr (mk c (ctop fs) (tip l) (tip r))" using s1(2) z(3) nn(3) by (simp add: rd_ok moved_def)
    have "rb_erase node s = Some (Inr s')"
      using two t0 t1 nn s1(1) s2(1) st(1) nd by (simp add: rb_erase_def)
    moreover have "set (inorder (plug xr ?fs)) \<subseteq> ?A" unfolding it by (auto simp: inorder_plug)
    then have "same_outside s s' ?A" using same_outside_trans [OF s2(3) same_outside_mono [OF st(5)]] by simp
    ultimately show ?thesis using st(2-4) it by (intro exI [of _ s'] exI [of _ t]) simp
  qed
qed

end
