(* ===== verification/RbTree_Order.thy ===== *)
theory RbTree_Order
  imports RbTree_Erase
begin

text \<open>
  What the users of the trees see: a red-black tree is an order of nodes, which insertion and removal change
  at one place and the traversal functions walk along.
\<close>

section \<open>Trees as orders\<close>

definition rb_order :: "rb_tree \<Rightarrow> u64 list \<Rightarrow> bool" where
  "rb_order s xs \<longleftrightarrow> (\<exists>t. is_tree s t \<and> red_black t \<and> inorder t = xs)"

lemma rb_order_empty: "root s = 0 \<Longrightarrow> rb_order s []"
  by (auto simp: rb_order_def is_tree_def red_black_def intro!: exI [of _ Lf])

lemma tree_at_nonzero: "tree_at h p t \<Longrightarrow> a \<in> set (inorder t) \<Longrightarrow> ptr a \<and> h a \<noteq> None"
  by (induction t arbitrary: p) auto

lemma rb_order_nodes: "rb_order s xs \<Longrightarrow> distinct xs \<and> (\<forall>a\<in>set xs. ptr a \<and> nodes s a \<noteq> None)"
  using tree_at_nonzero unfolding rb_order_def is_tree_def by blast

lemma rb_order_frame:
  assumes "rb_order s xs" "\<And>a. a \<in> set xs \<Longrightarrow> nodes s' a = nodes s a" "root s' = root s"
  shows "rb_order s' xs"
proof -
  obtain t where t: "is_tree s t" "red_black t" "inorder t = xs" using assms(1) unfolding rb_order_def by blast
  have "tree_at (nodes s') 0 t" by (rule tree_frame [of _ _ "nodes s"]) (use t assms(2) in \<open>auto simp: is_tree_def\<close>)
  then show ?thesis using t assms(3) unfolding rb_order_def is_tree_def by auto
qed

lemma order_erase:
  assumes "rb_order s (xs @ node # ys)"
  shows "\<exists>s'. rb_erase node s = Some (Inr s') \<and> rb_order s' (xs @ ys) \<and> same_outside s s' (set (xs @ node # ys))"
proof -
  obtain t where t: "is_tree s t" "red_black t" "inorder t = xs @ node # ys" using assms unfolding rb_order_def by blast
  then have "node \<in> set (inorder t)" by simp
  then obtain c l r fs where p: "t = plug (Nd c l node r) fs" by (rule place_of)
  have it: "inorder t = (lefts fs @ inorder l) @ node # (inorder r @ rights fs)" by (simp add: p inorder_plug)
  have "distinct (xs @ node # ys)" using t(1) unfolding t(3) [symmetric] by (simp add: is_tree_def)
  then have e: "xs = lefts fs @ inorder l \<and> ys = inorder r @ rights fs"
    by (rule split_unique) (simp only: it t(3) [symmetric])
  have "zip_at s (Nd c l node r) fs" using t(1) by (simp add: p is_tree_plug)
  from rb_erase_at [OF this] show ?thesis using t(2,3) e unfolding rb_order_def p [symmetric] by auto
qed

lemma order_insert:
  assumes "is_tree s (plug Lf fs)" "red_black (plug Lf fs)" "ptr node" "nodes s node \<noteq> None" "node \<notin> set (inorder (plug Lf fs))"
  shows "\<exists>s1 s2. rb_link node (ctop fs) (plink_of fs) s = Inr s1 \<and> rb_insert node s1 = Some (Inr s2) \<and>
    rb_order s2 (lefts fs @ node # rights fs) \<and> same_outside s s2 (insert node (set (inorder (plug Lf fs))))"
proof -
  have fr: "node \<notin> frame_nodes fs" "frame_nodes fs = set (inorder (plug Lf fs))"
    using assms(5) by (simp_all add: inorder_plug flip: set_plug)
  obtain s1 where s1: "rb_link node (ctop fs) (plink_of fs) s = Inr s1" "zip_at s1 (Nd R Lf node Lf) fs"
    "same_outside s s1 (insert node (frame_nodes fs))"
    using rb_link_at assms(1,3,4) fr(1) unfolding is_tree_plug by blast
  have c: "pnrr False fs" "root_black fs" "\<exists>N. pbh 0 fs N"
    using red_black_path [OF assms(2)] by (auto simp: root_black_def)
  obtain s2 where s2: "rb_insert node s1 = Some (Inr s2)" "is_tree s2 (blacken (ins_fix (Nd R Lf node Lf) fs))"
    "same_outside s1 s2 (set (inorder (plug (Nd R Lf node Lf) fs)))"
    using rb_insert_at [OF s1(2) c(2)] by blast
  have rb: "red_black (blacken (ins_fix (Nd R Lf node Lf) fs))"
    using c by (auto intro: ins_fix_red_black)
  have o: "inorder (blacken (ins_fix (Nd R Lf node Lf) fs)) = lefts fs @ node # rights fs"
    by (simp add: inorder_ins_fix inorder_plug)
  have "set (inorder (plug (Nd R Lf node Lf) fs)) = insert node (set (inorder (plug Lf fs)))"
    by (auto simp: inorder_plug)
  then have "same_outside s s2 (insert node (set (inorder (plug Lf fs))))"
    using s1(3) s2(3) fr(2) same_outside_trans by simp
  then show ?thesis using s1(1) s2(1,2) rb o unfolding rb_order_def by blast
qed

lemma tree_neighbours:
  assumes t: "is_tree s t" "inorder t = xs @ a # ys"
  shows "rb_next s a = Some (Inr (hd (ys @ [0])))" "rb_prev s a = Some (Inr (last (0 # xs)))"
proof -
  have "a \<in> set (inorder t)" using t(2) by simp
  then obtain c l r fs where p: "t = plug (Nd c l a r) fs" by (rule place_of)
  then have z: "zip_at s (Nd c l a r) fs" using t(1) by (simp add: is_tree_plug)
  have it: "inorder t = (lefts fs @ inorder l) @ a # (inorder r @ rights fs)" by (simp add: p inorder_plug)
  have "distinct (xs @ a # ys)" using t(1) unfolding t(2) [symmetric] by (simp add: is_tree_def)
  then have e: "xs = lefts fs @ inorder l \<and> ys = inorder r @ rights fs"
    by (rule split_unique) (simp only: it t(2) [symmetric])
  have "hd (ys @ [0]) = first_or ys" by (cases ys) auto
  then show "rb_next s a = Some (Inr (hd (ys @ [0])))" using rb_next_at [OF z] e by simp
  have "last (0 # xs) = last_or xs" by (simp add: last_or_def)
  then show "rb_prev s a = Some (Inr (last (0 # xs)))" using rb_prev_at [OF z] e by simp
qed

lemma tree_ends:
  assumes "is_tree s t"
  shows "rb_leftmost s = Some (Inr (hd (inorder t @ [0])))" "rb_rightmost s = Some (Inr (last (0 # inorder t)))"
proof -
  have t: "tree_at (nodes s) 0 t" "root s = tip t" using assms by (simp_all add: is_tree_def)
  have "hd (inorder t @ [0]) = first_or (inorder t)" by (cases "inorder t") auto
  then show "rb_leftmost s = Some (Inr (hd (inorder t @ [0])))"
    using leftmost_from_first [OF t(1)] t(2) by (simp add: rb_leftmost_def)
  show "rb_rightmost s = Some (Inr (last (0 # inorder t)))"
    using rightmost_from_last [OF t(1)] t(2) by (simp add: rb_rightmost_def last_or_def)
qed

lemma order_neighbours:
  "rb_order s (xs @ a # ys) \<Longrightarrow> rb_next s a = Some (Inr (hd (ys @ [0])))"
  "rb_order s (xs @ a # ys) \<Longrightarrow> rb_prev s a = Some (Inr (last (0 # xs)))"
  unfolding rb_order_def using tree_neighbours by blast+

lemma order_ends:
  "rb_order s xs \<Longrightarrow> rb_leftmost s = Some (Inr (hd (xs @ [0])))"
  "rb_order s xs \<Longrightarrow> rb_rightmost s = Some (Inr (last (0 # xs)))"
  unfolding rb_order_def using tree_ends by blast+

section \<open>Walking an order\<close>

text \<open>The loop of every user: from the first node on, a body and then the next node, until \<open>NULL\<close>.\<close>

partial_function (option) walk :: "('n \<Rightarrow> 'n res option) \<Rightarrow> 'n \<Rightarrow> ('n \<Rightarrow> 's \<Rightarrow> 's res) \<Rightarrow> 'n \<Rightarrow> 's \<Rightarrow> 's res option" where
  "walk step nul body cur st =
     (if cur = nul then Some (Inr st)
      else bindP (Some (body cur st)) (\<lambda>st. bindP (step cur) (\<lambda>next. walk step nul body next st)))"

fun run_all :: "('n \<Rightarrow> 's \<Rightarrow> 's res) \<Rightarrow> 'n list \<Rightarrow> 's \<Rightarrow> 's res" where
  "run_all body [] st = Inr st"
| "run_all body (x # xs) st = bindE (body x st) (run_all body xs)"

locale ordered_nodes =
  fixes rep :: "'t \<Rightarrow> 'n list \<Rightarrow> bool"
    and nul :: 'n
    and first_of :: "'t \<Rightarrow> 'n res option"
    and next_of :: "'t \<Rightarrow> 'n \<Rightarrow> 'n res option"
  assumes nul_outside: "rep t xs \<Longrightarrow> nul \<notin> set xs"
    and first_law: "rep t xs \<Longrightarrow> first_of t = Some (Inr (hd (xs @ [nul])))"
    and next_law: "rep t (xs @ a # ys) \<Longrightarrow> next_of t a = Some (Inr (hd (ys @ [nul])))"
begin

lemma walk_from: "rep t (us @ xs) \<Longrightarrow> walk (next_of t) nul body (hd (xs @ [nul])) st = Some (run_all body xs st)"
proof (induction xs arbitrary: us st)
  case Nil
  show ?case by (subst walk.simps) simp
next
  case (Cons x xs)
  have "x \<noteq> nul" using nul_outside [OF Cons(2)] by auto
  moreover have "next_of t x = Some (Inr (hd (xs @ [nul])))" using next_law [OF Cons(2)] .
  moreover have "walk (next_of t) nul body (hd (xs @ [nul])) st' = Some (run_all body xs st')" for st'
    using Cons(1) [of "us @ [x]"] Cons(2) by simp
  ultimately show ?case by (subst walk.simps) (cases "body x st"; simp)
qed

text \<open>Walking from the first node runs the body on every node, in order, and ends.\<close>

lemma walk_all:
  assumes "rep t xs"
  shows "bindP (first_of t) (\<lambda>a. walk (next_of t) nul body a st) = Some (run_all body xs st)"
  using walk_from [of t "[]" xs] first_law [OF assms] assms by simp

end

interpretation rb: ordered_nodes rb_order 0 rb_leftmost rb_next
proof
  show "rb_order t xs \<Longrightarrow> 0 \<notin> set xs" for t xs using rb_order_nodes [of t xs] ptr_nonzero [of 0] by auto
qed (simp_all add: order_ends order_neighbours)

end
