(* ===== verification/RbTree_Props.thy ===== *)
theory RbTree_Props
  imports RbTree_Order
begin

text \<open>
  The properties of the red-black trees: inserting keeps a red-black tree and puts the node in its place,
  removing a node takes just it out, and the traversal functions give the neighbours in the order.
\<close>

definition demo_tree :: rb_tree where
  "demo_tree = \<lparr>nodes = [8 \<mapsto> mk R 16 0 0, 16 \<mapsto> mk B 0 8 24, 24 \<mapsto> mk R 16 0 0, 32 \<mapsto> \<lparr>left = 7, right = 7, rparent = 7\<rparr>],
     root = 16\<rparr>"

definition demo_shape :: rtree where "demo_shape = Nd B (Nd R Lf 8 Lf) 16 (Nd R Lf 24 Lf)"

lemma demo_is_tree: "is_tree demo_tree demo_shape"
  by (simp add: is_tree_def demo_tree_def demo_shape_def ptr_def bit_0)

lemma demo_red_black: "red_black demo_shape"
  by (auto simp: red_black_def demo_shape_def intro: exI [of _ 1] simp: numeral_eq_Suc)

text \<open>
  C28. Linking a new node at any free place of a red-black tree and calling \<open>rb_insert\<close> always ends without
  fault with a red-black tree again: the root is black, no red node has a red child, every path has the same
  number of black nodes, all parent pointers are right, the order of the nodes is the old one with the new
  node at its place, and no other node of the store is touched.
\<close>
theorem rb_insert_red_black:
  assumes "is_tree s (plug Lf fs)" "red_black (plug Lf fs)"
    and "ptr node" "nodes s node \<noteq> None" "node \<notin> set (inorder (plug Lf fs))"
  shows "\<exists>s1 s2 t. rb_link node (ctop fs) (plink_of fs) s = Inr s1 \<and> rb_insert node s1 = Some (Inr s2) \<and>
    is_tree s2 t \<and> red_black t \<and> inorder t = lefts fs @ node # rights fs \<and>
    same_outside s s2 (insert node (set (inorder (plug Lf fs))))"
  using order_insert [OF assms] unfolding rb_order_def by blast

theorem rb_insert_red_black_witness:
  "\<exists>s1 s2 t. rb_link 32 24 (RightLink 24) demo_tree = Inr s1 \<and> rb_insert 32 s1 = Some (Inr s2) \<and>
    is_tree s2 t \<and> red_black t \<and> inorder t = [8, 16, 24, 32] \<and> same_outside demo_tree s2 {8, 16, 24, 32}"
proof -
  let ?fs = "[RightOf R Lf 24, RightOf B (Nd R Lf 8 Lf) 16]"
  have p: "plug Lf ?fs = demo_shape" by (simp add: demo_shape_def)
  have h: "ptr 32" "nodes demo_tree 32 \<noteq> None" "32 \<notin> set (inorder demo_shape)" "insert 32 (set (inorder demo_shape)) = {8, 16, 24, 32}"
    by (auto simp: ptr_def bit_0 demo_tree_def demo_shape_def)
  show ?thesis using rb_insert_red_black [of demo_tree ?fs 32, unfolded p, OF demo_is_tree demo_red_black h(1-3), unfolded h(4)]
    by simp
qed

text \<open>
  C29. In a linked tree \<open>rb_next\<close> of a node is the next node in the order, \<open>rb_prev\<close> the previous one, or
  \<open>NULL\<close> at the ends, and \<open>rb_leftmost\<close> and \<open>rb_rightmost\<close> are the two ends; none of the loops runs for
  ever and none follows a dangling pointer.
\<close>
theorem rb_next_neighbour:
  assumes "is_tree s t" "inorder t = xs @ a # ys"
  shows "rb_next s a = Some (Inr (case ys of [] \<Rightarrow> 0 | y # _ \<Rightarrow> y)) \<and>
    rb_prev s a = Some (Inr (if xs = [] then 0 else last xs)) \<and>
    rb_leftmost s = Some (Inr (hd (inorder t))) \<and> rb_rightmost s = Some (Inr (last (inorder t)))"
proof (intro conjI)
  show "rb_next s a = Some (Inr (case ys of [] \<Rightarrow> 0 | y # _ \<Rightarrow> y))"
    using tree_neighbours(1) [OF assms] by (cases ys) simp_all
  show "rb_prev s a = Some (Inr (if xs = [] then 0 else last xs))"
    using tree_neighbours(2) [OF assms] by simp
qed (use tree_ends [OF assms(1)] assms(2) in \<open>cases xs; simp\<close>)+

theorem rb_next_neighbour_witness:
  "rb_next demo_tree 8 = Some (Inr 16) \<and> rb_prev demo_tree 8 = Some (Inr 0) \<and>
   rb_leftmost demo_tree = Some (Inr 8) \<and> rb_rightmost demo_tree = Some (Inr 24)"
  using rb_next_neighbour [OF demo_is_tree, of "[]" 8 "[16, 24]"] by (simp add: demo_shape_def)


text \<open>
  C30. Removing any node of a red-black tree with \<open>rb_erase\<close>, whether it has no child, one or two, always ends
  without fault with a red-black tree of the other nodes in their old order, and touches no node outside of
  the tree.
\<close>
theorem rb_erase_red_black:
  assumes "is_tree s t" "red_black t" "inorder t = xs @ node # ys"
  shows "\<exists>s' t'. rb_erase node s = Some (Inr s') \<and> is_tree s' t' \<and> red_black t' \<and> inorder t' = xs @ ys \<and>
    same_outside s s' (set (inorder t))"
proof -
  have "rb_order s (xs @ node # ys)" using assms unfolding rb_order_def by blast
  from order_erase [OF this] show ?thesis unfolding rb_order_def assms(3) by blast
qed

theorem rb_erase_red_black_witness:
  "\<exists>s' t'. rb_erase 16 demo_tree = Some (Inr s') \<and> is_tree s' t' \<and> red_black t' \<and> inorder t' = [8, 24] \<and>
    same_outside demo_tree s' {8, 16, 24}"
proof -
  have i: "inorder demo_shape = [8] @ 16 # [24]" by (simp add: demo_shape_def)
  show ?thesis using rb_erase_red_black [OF demo_is_tree demo_red_black i] by (simp add: i)
qed

end
