(* ===== verification/Balloc.thy ===== *)
theory Balloc
  imports RbTree_Order KList Initramfs
begin

unbundle bit_operations_syntax

text \<open>
  The ranges of physical memory known at boot: \<open>balloc.c\<close> over the red-black trees of \<open>rbtree.c\<close>.  A memory
  node is named by its address; its \<open>link\<close> is a union of a tree node and a list node, and as the tree pointers
  and the list pointers of the code share these bytes, the store \<open>bnodes\<close> has the tree view of a node just as
  long as the node is not on the list of free nodes.  Both trees share the store.
\<close>

section \<open>State\<close>

datatype bl = FreeHead | MNode u64

datatype tree_id = FreeRanges | MemoryMap

record balloc =
  bnodes :: "u64 \<Rightarrow> rb_node option"
  mbegin :: "u64 \<Rightarrow> u64"
  mend :: "u64 \<Rightarrow> u64"
  broot :: "tree_id \<Rightarrow> u64"
  blist :: "bl lheap"

definition BALLOC_MAX_RANGES :: nat where "BALLOC_MAX_RANGES = 128"

definition tree_of :: "tree_id \<Rightarrow> balloc \<Rightarrow> rb_tree" where
  "tree_of w s = \<lparr>nodes = bnodes s, rb_tree.root = broot s w\<rparr>"

definition put_tree :: "tree_id \<Rightarrow> rb_tree \<Rightarrow> balloc \<Rightarrow> balloc" where
  "put_tree w t s = s\<lparr>bnodes := nodes t, broot := (broot s)(w := rb_tree.root t)\<rparr>"

section \<open>Nodes\<close>

text \<open>\<open>list_del\<close> leaves null pointers in the links of the node, which are now read as those of a tree node.\<close>

definition balloc_alloc_node :: "balloc \<Rightarrow> (u64 \<times> balloc) res" where
  "balloc_alloc_node s =
     bindE (list_empty FreeHead (blist s)) (\<lambda>e. bug_on e (
     bindE (list_first FreeHead (blist s)) (\<lambda>node.
     case node of
       Some (MNode p) \<Rightarrow> bindE (list_del (MNode p) (blist s)) (\<lambda>l.
         Inr (p, s\<lparr>blist := l, bnodes := (bnodes s)(p \<mapsto> \<lparr>left = 0, right = 0, rparent = 0\<rparr>)\<rparr>))
     | _ \<Rightarrow> Inl Fault)))"

definition balloc_free_node :: "u64 \<Rightarrow> balloc \<Rightarrow> balloc res" where
  "balloc_free_node p s =
     bindE (list_add (MNode p) FreeHead (blist s)) (\<lambda>l. Inr (s\<lparr>blist := l, bnodes := (bnodes s)(p := None)\<rparr>))"

section \<open>Adding a range\<close>

text \<open>The way down the tree: the parent and the pointer to follow, until that is \<open>NULL\<close>.\<close>

partial_function (option) add_place :: "balloc \<Rightarrow> rb_tree \<Rightarrow> u64 \<Rightarrow> u64 \<Rightarrow> u64 \<Rightarrow> plink \<Rightarrow> (u64 \<times> plink) res option" where
  "add_place s t from cur parent plink =
     (if cur = 0 then Some (Inr (parent, plink))
      else bindP (Some (rd t cur)) (\<lambda>n.
        if mbegin s cur < from then add_place s t from (right n) cur (RightLink cur)
        else add_place s t from (left n) cur (LeftLink cur)))"

text \<open>Merging the new node with its neighbours.\<close>

definition erase_node :: "tree_id \<Rightarrow> u64 \<Rightarrow> balloc \<Rightarrow> balloc res option" where
  "erase_node w p s = bindP (rb_erase p (tree_of w s)) (\<lambda>t. Some (Inr (put_tree w t s)))"

definition merge_prev :: "tree_id \<Rightarrow> u64 \<Rightarrow> balloc \<Rightarrow> balloc res option" where
  "merge_prev w new s =
     bindP (rb_prev (tree_of w s) new) (\<lambda>prev.
     if prev \<noteq> 0 \<and> mend s prev \<ge> mbegin s new then
       let s = s\<lparr>mbegin := (mbegin s)(new := mbegin s prev)\<rparr>;
           s = (if mend s prev > mend s new then s\<lparr>mend := (mend s)(new := mend s prev)\<rparr> else s)
       in bindP (erase_node w prev s) (\<lambda>s. Some (balloc_free_node prev s))
     else Some (Inr s))"

definition merge_next :: "tree_id \<Rightarrow> u64 \<Rightarrow> balloc \<Rightarrow> balloc res option" where
  "merge_next w new s =
     bindP (rb_next (tree_of w s) new) (\<lambda>next.
     if next \<noteq> 0 \<and> mbegin s next \<le> mend s new then
       let s = s\<lparr>mend := (mend s)(new := mend s next)\<rparr>
       in bindP (erase_node w next s) (\<lambda>s. Some (balloc_free_node next s))
     else Some (Inr s))"

definition balloc_add_range :: "tree_id \<Rightarrow> u64 \<Rightarrow> u64 \<Rightarrow> balloc \<Rightarrow> balloc res option" where
  "balloc_add_range w from to s =
     bindP (add_place s (tree_of w s) from (broot s w) 0 RootLink) (\<lambda>(parent, plink).
     bindP (Some (balloc_alloc_node s)) (\<lambda>(new, s).
     let s = s\<lparr>mbegin := (mbegin s)(new := from), mend := (mend s)(new := to)\<rparr>
     in bindP (Some (rb_link new parent plink (tree_of w s))) (\<lambda>t.
        bindP (rb_insert new t) (\<lambda>t.
        bindP (merge_prev w new (put_tree w t s)) (\<lambda>s.
        merge_next w new s)))))"

section \<open>Removing and allocating\<close>

text \<open>The first node that ends behind \<open>from\<close>.\<close>

partial_function (option) first_ending :: "balloc \<Rightarrow> rb_tree \<Rightarrow> u64 \<Rightarrow> u64 \<Rightarrow> u64 \<Rightarrow> u64 res option" where
  "first_ending s t from cur p =
     (if cur = 0 then Some (Inr p)
      else bindP (Some (rd t cur)) (\<lambda>n.
        if mend s cur > from then first_ending s t from (left n) cur
        else first_ending s t from (right n) p))"

text \<open>The parts of the node \<open>p\<close> outside of \<open>[from, to)\<close> become nodes of their own.\<close>

definition cut_node :: "tree_id \<Rightarrow> u64 \<Rightarrow> u64 \<Rightarrow> u64 \<Rightarrow> balloc \<Rightarrow> balloc res option" where
  "cut_node w p from to s =
     bindP (erase_node w p s) (\<lambda>s.
     bindP (if mbegin s p < from then balloc_add_range w (mbegin s p) from s else Some (Inr s)) (\<lambda>s.
     bindP (if mend s p > to then balloc_add_range w to (mend s p) s else Some (Inr s)) (\<lambda>s.
     Some (balloc_free_node p s))))"

partial_function (option) remove_loop :: "tree_id \<Rightarrow> u64 \<Rightarrow> u64 \<Rightarrow> u64 \<Rightarrow> balloc \<Rightarrow> balloc res option" where
  "remove_loop w from to p s =
     (if p \<noteq> 0 \<and> mbegin s p < to then
        bindP (rb_next (tree_of w s) p) (\<lambda>next.
        bindP (cut_node w p from to s) (\<lambda>s. remove_loop w from to next s))
      else Some (Inr s))"

definition balloc_remove_range :: "tree_id \<Rightarrow> u64 \<Rightarrow> u64 \<Rightarrow> balloc \<Rightarrow> balloc res option" where
  "balloc_remove_range w from to s =
     bindP (first_ending s (tree_of w s) from (broot s w) 0) (\<lambda>p. remove_loop w from to p s)"

text \<open>The address tried in a node, rounded up to the alignment.\<close>

definition fit_addr :: "u64 \<Rightarrow> u64 \<Rightarrow> u64 \<Rightarrow> u64" where
  "fit_addr align from b = (let b = (if b > from then b else from); mask = align - 1 in (b + mask) AND NOT mask)"

partial_function (option) alloc_loop :: "u64 \<Rightarrow> u64 \<Rightarrow> u64 \<Rightarrow> u64 \<Rightarrow> u64 \<Rightarrow> balloc \<Rightarrow> (u64 \<times> balloc) res option" where
  "alloc_loop sz align from to p s =
     (if p \<noteq> 0 \<and> mbegin s p < to then
        let e = (if mend s p < to then mend s p else to);
            addr = fit_addr align from (mbegin s p)
        in if addr + sz \<le> e
           then bindP (cut_node FreeRanges p addr (addr + sz) s) (\<lambda>s. Some (Inr (addr, s)))
           else bindP (rb_next (tree_of FreeRanges s) p) (\<lambda>next. alloc_loop sz align from to next s)
      else Some (Inr (to, s)))"

definition balloc_alloc_aligned :: "u64 \<Rightarrow> u64 \<Rightarrow> u64 \<Rightarrow> u64 \<Rightarrow> balloc \<Rightarrow> (u64 \<times> balloc) res option" where
  "balloc_alloc_aligned sz align from to s =
     bindP (first_ending s (tree_of FreeRanges s) from (broot s FreeRanges) 0) (\<lambda>p. alloc_loop sz align from to p s)"

definition balloc_alloc :: "u64 \<Rightarrow> u64 \<Rightarrow> u64 \<Rightarrow> balloc \<Rightarrow> (u64 \<times> balloc) res option" where
  "balloc_alloc sz from to s =
     (let align = 64; align = (if sz \<le> 32 then 32 else align); align = (if sz \<le> 16 then 16 else align);
          align = (if sz \<le> 8 then 8 else align)
      in balloc_alloc_aligned sz align from to s)"

definition balloc_free :: "u64 \<Rightarrow> u64 \<Rightarrow> balloc \<Rightarrow> balloc res option" where
  "balloc_free b e s = balloc_add_range FreeRanges b e s"

section \<open>Set-up\<close>

text \<open>\<open>balloc_nodes\<close> is an array of structures of 40 bytes at the address \<open>base\<close>.\<close>

definition balloc_node :: "u64 \<Rightarrow> nat \<Rightarrow> u64" where "balloc_node base i = base + of_nat (40 * i)"

fun free_nodes :: "u64 \<Rightarrow> nat list \<Rightarrow> balloc \<Rightarrow> balloc res" where
  "free_nodes base [] s = Inr s"
| "free_nodes base (i # is) s = bindE (balloc_free_node (balloc_node base i) s) (free_nodes base is)"

definition balloc_setup_nodes :: "u64 \<Rightarrow> balloc \<Rightarrow> balloc res" where
  "balloc_setup_nodes base s =
     bindE (list_init FreeHead (blist s)) (\<lambda>l. free_nodes base [0..<BALLOC_MAX_RANGES] (s\<lparr>blist := l\<rparr>))"

record mmap_entry =
  e_size :: u32
  e_addr :: u64
  e_length :: u64
  e_type :: u32

definition MMAP_ENTRY_SIZE :: u64 where "MMAP_ENTRY_SIZE = 24"

definition rd64 :: "memory \<Rightarrow> nat \<Rightarrow> u64" where
  "rd64 m a = ucast (rd32 m a) OR push_bit 32 (ucast (rd32 m (a + 4)))"

definition rd_mmap_entry :: "memory \<Rightarrow> u64 \<Rightarrow> mmap_entry" where
  "rd_mmap_entry m p = (let a = unat p in \<lparr>e_size = rd32 m a, e_addr = rd64 m (a + 4), e_length = rd64 m (a + 12), e_type = rd32 m (a + 20)\<rparr>)"

text \<open>The two passes over the memory map of the boot loader.\<close>

partial_function (option) add_entries :: "memory \<Rightarrow> u64 \<Rightarrow> u64 \<Rightarrow> balloc \<Rightarrow> balloc res option" where
  "add_entries m end p s =
     (if p + MMAP_ENTRY_SIZE \<le> end then
        let e = rd_mmap_entry m p; rbegin = e_addr e; rend = rbegin + e_length e
        in bindP (balloc_add_range MemoryMap rbegin rend s) (\<lambda>s.
           bindP (balloc_add_range FreeRanges rbegin rend s) (\<lambda>s.
           add_entries m end (p + (ucast (e_size e) + 4)) s))
      else Some (Inr s))"

partial_function (option) remove_entries :: "memory \<Rightarrow> u64 \<Rightarrow> u64 \<Rightarrow> balloc \<Rightarrow> balloc res option" where
  "remove_entries m end p s =
     (if p + MMAP_ENTRY_SIZE \<le> end then
        let e = rd_mmap_entry m p; rbegin = e_addr e; rend = rbegin + e_length e
        in bindP (if e_type e \<noteq> 1 then balloc_remove_range FreeRanges rbegin rend s else Some (Inr s)) (\<lambda>s.
           remove_entries m end (p + (ucast (e_size e) + 4)) s)
      else Some (Inr s))"

text \<open>The addresses of the kernel and of the archive are symbols of the linker and globals of \<open>initramfs.c\<close>.\<close>

definition balloc_parse_mmap :: "memory \<Rightarrow> nat \<Rightarrow> u64 \<times> u64 \<Rightarrow> u64 \<times> u64 \<Rightarrow> balloc \<Rightarrow> balloc res option" where
  "balloc_parse_mmap m info krange irange s =
     (let i = rd_multiboot_info m info
      in if mb_flags i AND push_bit 6 1 = 0 then Some (Inl Bug)
         else let start = ucast (mmap_addr i); end = start + ucast (mmap_length i)
              in bindP (add_entries m end start s) (\<lambda>s.
                 bindP (balloc_add_range MemoryMap (fst krange) (snd krange) s) (\<lambda>s.
                 bindP (balloc_add_range FreeRanges (fst krange) (snd krange) s) (\<lambda>s.
                 bindP (balloc_add_range MemoryMap (fst irange) (snd irange) s) (\<lambda>s.
                 bindP (balloc_add_range FreeRanges (fst irange) (snd irange) s) (\<lambda>s.
                 bindP (remove_entries m end start s) (\<lambda>s.
                 bindP (balloc_remove_range FreeRanges (fst krange) (snd krange) s) (\<lambda>s.
                 balloc_remove_range FreeRanges (fst irange) (snd irange) s))))))))"

text \<open>The lines of a dump are the ranges printed.\<close>

definition balloc_dump_tree :: "tree_id \<Rightarrow> balloc \<Rightarrow> (u64 \<times> u64) list \<Rightarrow> (u64 \<times> u64) list res option" where
  "balloc_dump_tree w s out =
     bindP (rb_leftmost (tree_of w s)) (\<lambda>node.
     walk (rb_next (tree_of w s)) 0 (\<lambda>node out. Inr (out @ [(mbegin s node, mend s node)])) node out)"

definition balloc_dump_ranges :: "balloc \<Rightarrow> ((u64 \<times> u64) list \<times> (u64 \<times> u64) list) res option" where
  "balloc_dump_ranges s =
     bindP (balloc_dump_tree MemoryMap s []) (\<lambda>known. bindP (balloc_dump_tree FreeRanges s []) (\<lambda>free. Some (Inr (known, free))))"

definition balloc_memory :: "balloc \<Rightarrow> u64 res option" where
  "balloc_memory s = bindP (rb_rightmost (tree_of MemoryMap s)) (\<lambda>node. Some (if node = 0 then Inl Fault else Inr (mend s node)))"

definition balloc_setup :: "u64 \<Rightarrow> memory \<Rightarrow> nat \<Rightarrow> u64 \<times> u64 \<Rightarrow> u64 \<times> u64 \<Rightarrow> balloc \<Rightarrow> balloc res option" where
  "balloc_setup base m info krange irange s =
     bindP (Some (balloc_setup_nodes base s)) (\<lambda>s.
     bindP (balloc_parse_mmap m info krange irange s) (\<lambda>s.
     bindP (balloc_dump_ranges s) (\<lambda>_. Some (Inr s))))"

end
