(* ===== verification/Balloc_Nodes.thy ===== *)
theory Balloc_Nodes
  imports Balloc
begin

text \<open>
  The nodes of \<open>balloc.c\<close>: who owns a node (the list of free nodes, one of the trees, or the running
  operation), and what taking, giving back, inserting and erasing a node does to that.
\<close>

section \<open>Ownership\<close>

definition owned :: "(tree_id \<Rightarrow> u64 list) \<Rightarrow> u64 set" where "owned xs = set (xs FreeRanges) \<union> set (xs MemoryMap)"

lemma owned_tree: "set (xs w) \<subseteq> owned xs"
  by (cases w) (auto simp: owned_def)

definition nodes_ok :: "balloc \<Rightarrow> u64 list \<Rightarrow> (tree_id \<Rightarrow> u64 list) \<Rightarrow> bool" where
  "nodes_ok s F xs \<longleftrightarrow> dlist (blist s) FreeHead (map MNode F) \<and> (\<forall>p\<in>set F. bnodes s p = None \<and> ptr p) \<and>
     (\<forall>w. rb_order (tree_of w s) (xs w)) \<and> set (xs FreeRanges) \<inter> set (xs MemoryMap) = {} \<and>
     MNode ` owned xs \<subseteq> dom (blist s)"

text \<open>A node the running operation holds.\<close>

definition held :: "balloc \<Rightarrow> u64 list \<Rightarrow> (tree_id \<Rightarrow> u64 list) \<Rightarrow> u64 \<Rightarrow> bool" where
  "held s F xs p \<longleftrightarrow> ptr p \<and> p \<notin> set F \<and> p \<notin> owned xs \<and> MNode p \<in> dom (blist s)"

lemma tree_of_put [simp]: "tree_of w (put_tree w t s) = t"
  by (simp add: tree_of_def put_tree_def)

lemma put_tree_fields [simp]:
  "mbegin (put_tree w t s) = mbegin s" "mend (put_tree w t s) = mend s" "blist (put_tree w t s) = blist s"
  "bnodes (put_tree w t s) = nodes t"
  by (simp_all add: put_tree_def)

lemma tree_of_fields [simp]: "nodes (tree_of w s) = bnodes s" "rb_tree.root (tree_of w s) = broot s w"
  by (simp_all add: tree_of_def)

lemma tree_of_upd [simp]:
  "tree_of w (s\<lparr>mbegin := f\<rparr>) = tree_of w s" "tree_of w (s\<lparr>mend := f\<rparr>) = tree_of w s" "tree_of w (s\<lparr>blist := l\<rparr>) = tree_of w s"
  by (simp_all add: tree_of_def)

lemma nodes_ok_upd [simp]:
  "nodes_ok (s\<lparr>mbegin := f\<rparr>) F xs = nodes_ok s F xs" "nodes_ok (s\<lparr>mend := f\<rparr>) F xs = nodes_ok s F xs"
  by (simp_all add: nodes_ok_def)

lemma held_upd [simp]:
  "held (s\<lparr>mbegin := f\<rparr>) F xs p = held s F xs p" "held (s\<lparr>mend := f\<rparr>) F xs p = held s F xs p"
  by (simp_all add: held_def)

lemma tree_order: "nodes_ok s F xs \<Longrightarrow> rb_order (tree_of w s) (xs w)"
  by (simp add: nodes_ok_def)

lemma owned_nodes: "nodes_ok s F xs \<Longrightarrow> p \<in> owned xs \<Longrightarrow> ptr p \<and> bnodes s p \<noteq> None"
  using rb_order_nodes [of "tree_of _ s"] unfolding nodes_ok_def owned_def by (metis Un_iff tree_of_fields(1))

lemma free_not_owned: "nodes_ok s F xs \<Longrightarrow> p \<in> set F \<Longrightarrow> p \<notin> owned xs"
  using owned_nodes [of s F xs p] by (auto simp: nodes_ok_def)

section \<open>Taking and giving back\<close>

lemma nodes_distinct: "nodes_ok s F xs \<Longrightarrow> distinct F"
  by (auto simp: nodes_ok_def dlist_def distinct_map)

text \<open>A change of the store outside of the trees.\<close>

lemma orders_frame:
  assumes "\<forall>w. rb_order (tree_of w s) (xs w)" "\<And>a. a \<in> owned xs \<Longrightarrow> bnodes s' a = bnodes s a" "broot s' = broot s"
  shows "\<forall>w. rb_order (tree_of w s') (xs w)"
proof
  show "rb_order (tree_of w s') (xs w)" for w
    by (rule rb_order_frame [of "tree_of w s"]) (use assms owned_tree [of xs w] in auto)
qed

lemma alloc_node_empty: "nodes_ok s [] xs \<Longrightarrow> balloc_alloc_node s = Inl Bug"
  using list_empty_dlist [of "blist s" FreeHead "[]"] by (simp add: nodes_ok_def balloc_alloc_node_def)

lemma alloc_node_ok:
  assumes "nodes_ok s (p # F) xs"
  shows "\<exists>s'. balloc_alloc_node s = Inr (p, s') \<and> nodes_ok s' F xs \<and> held s' F xs p \<and> bnodes s' p \<noteq> None \<and>
    mbegin s' = mbegin s \<and> mend s' = mend s \<and> broot s' = broot s \<and> (\<forall>a\<in>owned xs. bnodes s' a = bnodes s a) \<and>
    dom (blist s') = dom (blist s)"
proof -
  have d: "dlist (blist s) FreeHead (map MNode (p # F))" and po: "p \<notin> owned xs" and fr: "\<forall>q\<in>set (p # F). bnodes s q = None \<and> ptr q"
    and od: "\<forall>w. rb_order (tree_of w s) (xs w)" and dj: "set (xs FreeRanges) \<inter> set (xs MemoryMap) = {}"
    and dm: "MNode ` owned xs \<subseteq> dom (blist s)"
    using assms free_not_owned [OF assms, of p] unfolding nodes_ok_def by auto
  obtain l where l: "list_del (MNode p) (blist s) = Inr l" "dlist l FreeHead (map MNode F)" "dom l = dom (blist s)"
    using list_del_dlist [OF d, of "MNode p"] by auto
  have fi: "list_first FreeHead (blist s) = Inr (Some (MNode p))" using list_first_dlist [OF d] by simp
  have ne: "list_empty FreeHead (blist s) = Inr False" using list_empty_dlist [OF d] by simp
  let ?s = "s\<lparr>blist := l, bnodes := (bnodes s)(p \<mapsto> \<lparr>left = 0, right = 0, rparent = 0\<rparr>)\<rparr>"
  have run: "balloc_alloc_node s = Inr (p, ?s)" by (simp add: balloc_alloc_node_def fi ne l(1))
  have pF: "p \<notin> set F" using nodes_distinct [OF assms] by simp
  have "\<forall>w. rb_order (tree_of w ?s) (xs w)" by (rule orders_frame [OF od]) (use po in auto)
  then have "nodes_ok ?s F xs" using l fr pF dj dm unfolding nodes_ok_def by auto
  moreover have "MNode p \<in> dom (blist s)" using dlist_dom [OF d] by auto
  then have "held ?s F xs p" using fr pF po l(3) by (simp add: held_def dom_def)
  ultimately show ?thesis using run l(3) po by (intro exI [of _ ?s]) auto
qed

lemma free_node_ok:
  assumes "nodes_ok s F xs" "held s F xs p"
  shows "\<exists>s'. balloc_free_node p s = Inr s' \<and> nodes_ok s' (p # F) xs \<and> mbegin s' = mbegin s \<and> mend s' = mend s \<and>
    (\<forall>q. q \<noteq> p \<longrightarrow> held s F xs q \<longrightarrow> held s' (p # F) xs q)"
proof -
  have d: "dlist (blist s) FreeHead (map MNode F)" and fr: "\<forall>q\<in>set F. bnodes s q = None \<and> ptr q"
    and od: "\<forall>w. rb_order (tree_of w s) (xs w)" and dj: "set (xs FreeRanges) \<inter> set (xs MemoryMap) = {}"
    and dm: "MNode ` owned xs \<subseteq> dom (blist s)" using assms(1) unfolding nodes_ok_def by auto
  have p: "ptr p" "p \<notin> set F" "p \<notin> owned xs" "MNode p \<in> dom (blist s)" using assms(2) unfolding held_def by auto
  obtain l where l: "list_add (MNode p) FreeHead (blist s) = Inr l" "dlist l FreeHead (MNode p # map MNode F)" "dom l = dom (blist s)"
    using list_add_dlist [OF d, of "MNode p"] p by auto
  let ?s = "s\<lparr>blist := l, bnodes := (bnodes s)(p := None)\<rparr>"
  have "\<forall>w. rb_order (tree_of w ?s) (xs w)" by (rule orders_frame [OF od]) (use p in auto)
  then have "nodes_ok ?s (p # F) xs" using l fr p dj dm unfolding nodes_ok_def by auto
  moreover have "\<forall>q. q \<noteq> p \<longrightarrow> held s F xs q \<longrightarrow> held ?s (p # F) xs q" using l(3) by (simp add: held_def)
  ultimately show ?thesis using l(1) by (intro exI [of _ ?s]) (simp add: balloc_free_node_def)
qed

section \<open>Erasing and inserting\<close>

lemma tree_change:
  assumes "nodes_ok s F xs" "rb_order t ys" "same_outside (tree_of w s) t (insert p (set (xs w)))"
    and "set ys \<subseteq> insert p (set (xs w))" "held s F (xs(w := [])) p \<or> p \<in> set (xs w)"
    and "p \<notin> set (xs (if w = FreeRanges then MemoryMap else FreeRanges))"
  shows "nodes_ok (put_tree w t s) F (xs(w := ys))"
proof -
  let ?v = "if w = FreeRanges then MemoryMap else FreeRanges"
  have d: "dlist (blist s) FreeHead (map MNode F)" and fr: "\<forall>q\<in>set F. bnodes s q = None \<and> ptr q"
    and od: "\<forall>w. rb_order (tree_of w s) (xs w)" and dj: "set (xs FreeRanges) \<inter> set (xs MemoryMap) = {}"
    and dm: "MNode ` owned xs \<subseteq> dom (blist s)" using assms(1) unfolding nodes_ok_def by auto
  have same: "nodes t a = bnodes s a" if "a \<notin> insert p (set (xs w))" for a
    using assms(3) that by (simp add: same_outside_def)
  have dv: "set (xs w) \<inter> set (xs ?v) = {}" using dj by (cases w) auto
  have "rb_order (tree_of ?v (put_tree w t s)) (xs ?v)"
  proof (rule rb_order_frame [of "tree_of ?v s"])
    show "nodes (tree_of ?v (put_tree w t s)) a = nodes (tree_of ?v s) a" if "a \<in> set (xs ?v)" for a
      using same [of a] that assms(6) dv by (auto simp: put_tree_def)
  qed (use od in \<open>cases w; simp add: put_tree_def\<close>)+
  then have "\<forall>u. rb_order (tree_of u (put_tree w t s)) ((xs(w := ys)) u)"
    using assms(2) by (metis (full_types) fun_upd_apply tree_id.exhaust tree_of_put)
  moreover have "nodes t q = None" if "q \<in> set F" for q
  proof -
    have "q \<noteq> p" "q \<notin> set (xs w)"
      using that assms(5) free_not_owned [OF assms(1) that] owned_tree [of xs w] by (auto simp: held_def)
    then show ?thesis using same [of q] fr that by simp
  qed
  moreover have "insert p (set (xs w)) \<inter> set (xs ?v) = {}" using assms(6) dv by simp
  then have "set ys \<inter> set (xs ?v) = {}" using assms(4) by blast
  then have "set ((xs(w := ys)) FreeRanges) \<inter> set ((xs(w := ys)) MemoryMap) = {}" by (cases w) auto
  moreover have "MNode ` owned (xs(w := ys)) \<subseteq> dom (blist s)"
  proof -
    have "MNode p \<in> dom (blist s)" using assms(5) dm owned_tree [of xs w] by (auto simp: held_def)
    then have "MNode ` (insert p (owned xs)) \<subseteq> dom (blist s)" using dm by auto
    moreover have "owned (xs(w := ys)) \<subseteq> insert p (owned xs)" using assms(4) by (cases w) (auto simp: owned_def)
    ultimately show ?thesis by blast
  qed
  ultimately show ?thesis using d fr unfolding nodes_ok_def by simp
qed

lemma erase_node_ok:
  assumes "nodes_ok s F xs" "xs w = us @ p # vs"
  shows "\<exists>s'. erase_node w p s = Some (Inr s') \<and> nodes_ok s' F (xs(w := us @ vs)) \<and> held s' F (xs(w := us @ vs)) p \<and>
    mbegin s' = mbegin s \<and> mend s' = mend s \<and> dom (blist s') = dom (blist s)"
proof -
  obtain t where t: "rb_erase p (tree_of w s) = Some (Inr t)" "rb_order t (us @ vs)" "same_outside (tree_of w s) t (set (us @ p # vs))"
    using order_erase [of "tree_of w s" us p vs] tree_order [OF assms(1), of w] assms(2) by auto
  have po: "p \<in> owned xs" using assms(2) owned_tree [of xs w] by auto
  have di: "distinct (us @ p # vs)" using rb_order_nodes tree_order [OF assms(1), of w] assms(2) by metis
  have dj: "set (xs FreeRanges) \<inter> set (xs MemoryMap) = {}" using assms(1) by (simp add: nodes_ok_def)
  have pv: "p \<notin> set (xs (if w = FreeRanges then MemoryMap else FreeRanges))" using dj assms(2) by (cases w) auto
  have ok: "nodes_ok (put_tree w t s) F (xs(w := us @ vs))"
    by (rule tree_change [OF assms(1) t(2) _ _ _ pv]) (use t(3) assms(2) in \<open>auto simp: insert_absorb\<close>)
  have "p \<notin> owned (xs(w := us @ vs))" using pv di by (cases w) (auto simp: owned_def)
  moreover have "p \<notin> set F" using free_not_owned [OF assms(1)] po by auto
  moreover have "ptr p" "MNode p \<in> dom (blist s)" using owned_nodes [OF assms(1) po] po assms(1) by (auto simp: nodes_ok_def)
  ultimately have "held (put_tree w t s) F (xs(w := us @ vs)) p" by (simp add: held_def)
  then show ?thesis using t(1) ok by (intro exI [of _ "put_tree w t s"]) (simp add: erase_node_def)
qed

lemma insert_node_ok:
  assumes "nodes_ok s F xs" "held s F xs p" "bnodes s p \<noteq> None" "is_tree (tree_of w s) (plug Lf fs)" "red_black (plug Lf fs)"
    and "xs w = lefts fs @ rights fs"
  shows "\<exists>t1 t2. rb_link p (ctop fs) (plink_of fs) (tree_of w s) = Inr t1 \<and> rb_insert p t1 = Some (Inr t2) \<and>
    nodes_ok (put_tree w t2 s) F (xs(w := lefts fs @ p # rights fs))"
proof -
  have p: "ptr p" "p \<notin> set F" "p \<notin> owned xs" "MNode p \<in> dom (blist s)" using assms(2) unfolding held_def by auto
  have ip: "inorder (plug Lf fs) = xs w" using assms(6) by (simp add: inorder_plug)
  have pw: "p \<notin> set (xs v)" for v using p(3) owned_tree [of xs v] by auto
  obtain t1 t2 where t: "rb_link p (ctop fs) (plink_of fs) (tree_of w s) = Inr t1" "rb_insert p t1 = Some (Inr t2)"
    "rb_order t2 (lefts fs @ p # rights fs)" "same_outside (tree_of w s) t2 (insert p (set (xs w)))"
    using order_insert [OF assms(4,5) p(1)] assms(3) pw ip by auto
  have "held s F (xs(w := [])) p" using p by (cases w) (auto simp: held_def owned_def)
  then have "nodes_ok (put_tree w t2 s) F (xs(w := lefts fs @ p # rights fs))"
    by (intro tree_change [OF assms(1) t(3,4)]) (use assms(6) pw in auto)
  then show ?thesis using t(1,2) by blast
qed

end
