(* ===== verification/Balloc_Spec.thy ===== *)
theory Balloc_Spec
  imports Balloc_Nodes
begin

text \<open>
  Ranges as lists of pairs of addresses in increasing order: what adding, removing and allocating do to them,
  and which addresses they cover.
\<close>

section \<open>Lists of ranges\<close>

type_synonym range = "u64 \<times> u64"

definition separated :: "range list \<Rightarrow> bool" where
  "separated rs \<longleftrightarrow> (\<forall>r\<in>set rs. fst r < snd r) \<and> sorted_wrt (\<lambda>r r'. snd r < fst r') rs"

definition cover :: "range list \<Rightarrow> u64 set" where "cover rs = (\<Union>r\<in>set rs. {fst r..<snd r})"

lemma cover_simps [simp]:
  "cover [] = {}" "cover (r # rs) = {fst r..<snd r} \<union> cover rs" "cover (rs @ rs') = cover rs \<union> cover rs'"
  by (auto simp: cover_def)

lemma separated_append:
  "separated (rs @ rs') \<longleftrightarrow> separated rs \<and> separated rs' \<and> (\<forall>r\<in>set rs. \<forall>r'\<in>set rs'. snd r < fst r')"
  by (auto simp: separated_def sorted_wrt_append)

lemma separated_Cons:
  "separated (r # rs) \<longleftrightarrow> fst r < snd r \<and> (\<forall>r'\<in>set rs. snd r < fst r') \<and> separated rs"
  by (auto simp: separated_def)

lemma separated_Nil [simp]: "separated []"
  by (simp add: separated_def)

lemma separated_before: "separated (rs @ [r]) \<Longrightarrow> \<forall>q\<in>set rs. snd q < fst r"
  by (simp add: separated_append)

text \<open>Adding: the new range takes in the last range before it and the first one behind it, if they touch.\<close>

definition join_prev :: "range \<Rightarrow> range list \<Rightarrow> range \<times> range list" where
  "join_prev r ls =
     (if ls \<noteq> [] \<and> snd (last ls) \<ge> fst r
      then ((fst (last ls), if snd (last ls) > snd r then snd (last ls) else snd r), butlast ls) else (r, ls))"

definition join_next :: "range \<Rightarrow> range list \<Rightarrow> range \<times> range list" where
  "join_next r hs = (if hs \<noteq> [] \<and> fst (hd hs) \<le> snd r then ((fst r, snd (hd hs)), tl hs) else (r, hs))"

definition add_range :: "range \<Rightarrow> range list \<Rightarrow> range list" where
  "add_range r rs =
     (let (q, ls) = join_prev r (filter (\<lambda>x. fst x < fst r) rs);
          (q, hs) = join_next q (filter (\<lambda>x. \<not> fst x < fst r) rs)
      in ls @ q # hs)"

text \<open>Cutting out: what is left of one range outside of another one.\<close>

definition cut :: "u64 \<Rightarrow> u64 \<Rightarrow> range \<Rightarrow> range list" where
  "cut from to r = (if fst r < from then [(fst r, from)] else []) @ (if snd r > to then [(to, snd r)] else [])"

definition remove_range :: "u64 \<Rightarrow> u64 \<Rightarrow> range list \<Rightarrow> range list" where
  "remove_range from to rs = concat (map (\<lambda>r. if snd r > from \<and> fst r < to then cut from to r else [r]) rs)"

lemma remove_range_simps [simp]:
  "remove_range from to [] = []"
  "remove_range from to (r # rs) = (if snd r > from \<and> fst r < to then cut from to r else [r]) @ remove_range from to rs"
  "remove_range from to (rs @ rs') = remove_range from to rs @ remove_range from to rs'"
  by (simp_all add: remove_range_def)

lemma remove_range_none: "(\<And>r. r \<in> set rs \<Longrightarrow> \<not> (snd r > from \<and> fst r < to)) \<Longrightarrow> remove_range from to rs = rs"
  by (induction rs) auto

section \<open>What they cover\<close>

lemma separated_sorted: "separated rs \<Longrightarrow> sorted_wrt (\<lambda>r r'. fst r < fst r') rs"
proof (induction rs)
  case (Cons r rs)
  have "fst r < fst r'" if "r' \<in> set rs" for r'
    using Cons(2) that less_trans [of "fst r" "snd r" "fst r'"] by (simp add: separated_Cons)
  then show ?case using Cons by (simp add: separated_Cons)
qed simp

lemma separated_filter: "separated rs \<Longrightarrow> separated (filter P rs)"
  by (induction rs) (auto simp: separated_Cons)

lemma filter_split: "separated rs \<Longrightarrow> rs = filter (\<lambda>x. fst x < b) rs @ filter (\<lambda>x. \<not> fst x < b) rs"
proof (induction rs)
  case (Cons r rs)
  show ?case
  proof (cases "fst r < b")
    case False
    have "filter (\<lambda>x. fst x < b) rs = []"
      using False separated_sorted [OF Cons(2)] by (force simp: filter_empty_conv)
    moreover have "filter (\<lambda>x. \<not> fst x < b) rs = rs"
      using False separated_sorted [OF Cons(2)] by (force simp: filter_id_conv)
    ultimately show ?thesis using False by simp
  qed (use Cons in \<open>simp add: separated_Cons\<close>)
qed simp

lemma cut_separated:
  assumes "separated (ls @ r # hs)" "from < to" "snd r > from" "fst r < to"
  shows "separated (ls @ cut from to r @ hs)" "cover (cut from to r) = {fst r..<snd r} - {from..<to}"
proof -
  have a: "fst r < snd r" "separated ls" "separated hs" "\<forall>q\<in>set ls. snd q < fst r" "\<forall>q\<in>set hs. snd r < fst q"
    "\<forall>q\<in>set ls. \<forall>q'\<in>set hs. snd q < fst q'" using assms(1) by (auto simp: separated_append separated_Cons)
  have l: "snd q < from" if "q \<in> set ls" "fst r < from" for q using a(4) that less_trans by blast
  have l2: "snd q < to" if "q \<in> set ls" for q using a(4) that assms(4) less_trans by blast
  have h: "from < fst q" if "q \<in> set hs" for q using a(5) that assms(3) less_trans by blast
  show "separated (ls @ cut from to r @ hs)"
    using a l l2 h assms(2) by (auto simp: cut_def separated_append separated_Cons)
  show "cover (cut from to r) = {fst r..<snd r} - {from..<to}"
    using a(1) assms(2,3,4) by (auto simp: cut_def)
qed

text \<open>Removing is the difference of sets.\<close>

lemma remove_range_ok:
  assumes "separated rs" "from < to"
  shows "separated (remove_range from to rs) \<and> cover (remove_range from to rs) = cover rs - {from..<to} \<and>
    (\<forall>q\<in>set (remove_range from to rs). \<exists>r\<in>set rs. fst r \<le> fst q)"
  using assms(1)
proof (induction rs)
  case Nil
  then show ?case by (simp add: remove_range_def)
next
  case (Cons r rs)
  have ih: "separated (remove_range from to rs)" "cover (remove_range from to rs) = cover rs - {from..<to}"
    "\<forall>q\<in>set (remove_range from to rs). \<exists>r\<in>set rs. fst r \<le> fst q" using Cons by (auto simp: separated_Cons)
  have bh: "snd r < fst q" if q: "q \<in> set (remove_range from to rs)" for q
  proof -
    obtain r' where r': "r' \<in> set rs" "fst r' \<le> fst q" using ih(3) q by blast
    have "snd r < fst r'" using Cons(2) r'(1) by (simp add: separated_Cons)
    then show ?thesis using r'(2) by (rule less_le_trans)
  qed
  have e: "remove_range from to (r # rs) = (if snd r > from \<and> fst r < to then cut from to r else [r]) @ remove_range from to rs"
    by (simp add: remove_range_def)
  show ?case
  proof (cases "snd r > from \<and> fst r < to")
    case True
    have "separated ([] @ r # remove_range from to rs)" using bh ih(1) Cons(2) by (simp add: separated_Cons)
    from cut_separated [OF this assms(2)] True
    have c: "separated (cut from to r @ remove_range from to rs)" "cover (cut from to r) = {fst r..<snd r} - {from..<to}"
      by simp_all
    have "fst r \<le> to" using True by (intro less_imp_le) simp
    then have "\<forall>q\<in>set (cut from to r). fst r \<le> fst q" by (auto simp: cut_def)
    then have b: "\<forall>q\<in>set (cut from to r @ remove_range from to rs). \<exists>r\<in>set (r # rs). fst r \<le> fst q"
      using ih(3) by simp blast
    have e': "remove_range from to (r # rs) = cut from to r @ remove_range from to rs" using True e by simp
    show ?thesis unfolding e' using c(1) b by (simp only: cover_simps c(2) ih(2) Un_Diff simp_thms)
  next
    case False
    have "{fst r..<snd r} - {from..<to} = {fst r..<snd r}" using False by auto
    then show ?thesis using bh ih Cons(2) False unfolding e by (auto simp: separated_Cons Un_Diff)
  qed
qed


section \<open>Adding\<close>

lemma join_prev_ok:
  assumes "separated ls" "\<forall>x\<in>set ls. fst x < fst r" "fst r < snd r" "join_prev r ls = (q, ls')"
  shows "separated (ls' @ [q]) \<and> cover (ls' @ [q]) = cover ls \<union> {fst r..<snd r} \<and> fst q \<le> fst r \<and> snd r \<le> snd q \<and>
    (snd q = snd r \<or> (\<exists>x\<in>set ls. snd q = snd x))"
proof (cases "ls \<noteq> [] \<and> snd (last ls) \<ge> fst r")
  case True
  then obtain ms x where ls: "ls = ms @ [x]" by (metis rev_exhaust)
  have x: "fst x < fst r" "fst r \<le> snd x" "fst x < snd x" "separated ms" "\<forall>y\<in>set ms. snd y < fst x"
    using True assms(1,2) by (auto simp: ls separated_append separated_Cons)
  have q: "q = (fst x, if snd x > snd r then snd x else snd r)" "ls' = ms" using True assms(4) by (auto simp: join_prev_def ls)
  have le: "fst x < snd q" "fst x \<le> fst r" "snd r \<le> snd q" using x(1,3) assms(3) q(1) by (auto simp: not_less)
  have "{fst x..<snd q} = {fst x..<snd x} \<union> {fst r..<snd r}"
    using x(1,2) assms(3) q(1) by (auto simp: not_less)
  moreover have "separated (ms @ [q])" using x(4,5) le q(1) by (simp add: separated_append separated_Cons)
  moreover have "snd q = snd r \<or> (\<exists>y\<in>set ls. snd q = snd y)" using q(1) by (simp add: ls)
  ultimately show ?thesis using q le by (auto simp: ls)
next
  case False
  then have q: "q = r" "ls' = ls" using assms(4) by (auto simp: join_prev_def)
  have "snd y < fst r" if y: "y \<in> set ls" for y
  proof -
    obtain ms x where ls: "ls = ms @ [x]" using y by (cases ls rule: rev_cases) auto
    have x: "snd x < fst r" using False by (simp add: ls not_le)
    show ?thesis
    proof (cases "y = x")
      case ne: False
      then have "snd y < fst x" using y assms(1) by (auto simp: ls separated_append)
      moreover have "fst x < snd x" using assms(1) by (simp add: ls separated_append separated_Cons)
      ultimately show ?thesis using x less_trans by blast
    qed (use x in simp)
  qed
  then have "separated (ls @ [r])" using assms(1,3) by (simp add: separated_append separated_Cons)
  then show ?thesis using q by simp
qed

definition swallows :: "range \<Rightarrow> range list \<Rightarrow> bool" where
  "swallows q hs \<longleftrightarrow> hs \<noteq> [] \<and> fst (hd hs) \<le> snd q \<and> snd (hd hs) < snd q"

lemma join_next_ok:
  assumes "separated hs" "\<forall>x\<in>set hs. fst q \<le> fst x" "fst q < snd q" "join_next q hs = (q', hs')"
  shows "separated (q' # hs') \<and> fst q' = fst q \<and> cover (q' # hs') \<subseteq> cover (q # hs) \<and>
    (\<not> swallows q hs \<longrightarrow> cover (q' # hs') = cover (q # hs))"
proof (cases "hs \<noteq> [] \<and> fst (hd hs) \<le> snd q")
  case True
  then obtain x ms where hs: "hs = x # ms" by (cases hs) auto
  have x: "fst x \<le> snd q" "fst q \<le> fst x" "fst x < snd x" "separated ms" "\<forall>y\<in>set ms. snd x < fst y"
    using True assms(1,2) by (auto simp: hs separated_Cons)
  have q: "q' = (fst q, snd x)" "hs' = ms" using True assms(4) by (auto simp: join_next_def hs)
  have "separated (q' # hs')" using x q by (simp add: separated_Cons)
  moreover have "{fst q..<snd x} \<subseteq> {fst q..<snd q} \<union> {fst x..<snd x}" using x(1) by auto
  moreover have "{fst q..<snd x} = {fst q..<snd q} \<union> {fst x..<snd x}" if "snd q \<le> snd x" using x(1,2) that by auto
  ultimately show ?thesis using q x(1) by (auto simp: hs swallows_def not_less)
next
  case False
  then have q: "q' = q" "hs' = hs" using assms(4) by (auto simp: join_next_def)
  have "snd q < fst y" if y: "y \<in> set hs" for y
  proof -
    obtain x ms where hs: "hs = x # ms" using y by (cases hs) auto
    have x: "snd q < fst x" using False by (simp add: hs not_le)
    show ?thesis
    proof (cases "y = x")
      case ne: False
      then have "snd x < fst y" using y assms(1) by (simp add: hs separated_Cons)
      moreover have "fst x < snd x" using assms(1) by (simp add: hs separated_Cons)
      ultimately show ?thesis using x less_trans by blast
    qed (use x in simp)
  qed
  then show ?thesis using q assms(1,3) by (simp add: separated_Cons)
qed

text \<open>
  Adding keeps the ranges separated, and covers what it should unless a range behind the new one is
  swallowed by it: then the end of the swallowed range becomes the end of the new one.
\<close>

lemma add_range_ok:
  assumes "separated rs" "fst r < snd r"
  shows "separated (add_range r rs) \<and> cover (add_range r rs) \<subseteq> cover rs \<union> {fst r..<snd r} \<and>
    (\<not> swallows (fst (join_prev r (filter (\<lambda>x. fst x < fst r) rs))) (filter (\<lambda>x. \<not> fst x < fst r) rs) \<longrightarrow>
     cover (add_range r rs) = cover rs \<union> {fst r..<snd r})"
proof -
  let ?ls = "filter (\<lambda>x. fst x < fst r) rs" and ?hs = "filter (\<lambda>x. \<not> fst x < fst r) rs"
  obtain q ls' where p: "join_prev r ?ls = (q, ls')" by fastforce
  obtain q' hs' where n: "join_next q ?hs = (q', hs')" by fastforce
  have P: "separated (ls' @ [q])" "cover (ls' @ [q]) = cover ?ls \<union> {fst r..<snd r}" "fst q \<le> fst r" "snd r \<le> snd q"
    using join_prev_ok [OF separated_filter [OF assms(1)] _ assms(2) p] by auto
  have q: "fst q < snd q" using P(1) by (simp add: separated_append separated_Cons)
  have "\<forall>x\<in>set ?hs. fst q \<le> fst x" using P(3) by (auto simp: not_less)
  from join_next_ok [OF separated_filter [OF assms(1)] this q n]
  have N: "separated (q' # hs')" "fst q' = fst q" "cover (q' # hs') \<subseteq> cover (q # ?hs)"
    "\<not> swallows q ?hs \<longrightarrow> cover (q' # hs') = cover (q # ?hs)" by auto
  have e: "add_range r rs = ls' @ q' # hs'" by (simp add: add_range_def p n)
  have bl: "snd x < fst q'" if "x \<in> set ls'" for x using P(1) N(2) that by (auto simp: separated_append)
  have "snd x < fst y" if "x \<in> set ls'" "y \<in> set (q' # hs')" for x y
  proof -
    have "fst q' \<le> fst y" using N(1) that(2) separated_sorted [of "q' # hs'"] by (auto intro: less_imp_le)
    then show ?thesis using bl [OF that(1)] by (rule less_le_trans [rotated])
  qed
  then have "separated (add_range r rs)" using P(1) N(1) unfolding e by (simp add: separated_append)
  moreover have cv: "cover rs = cover ?ls \<union> cover ?hs" using arg_cong [OF filter_split [OF assms(1), of "fst r"], of cover] by simp
  have "cover ls' \<union> cover (q # ?hs) = cover rs \<union> {fst r..<snd r}" using P(2) cv by auto
  then have "cover (add_range r rs) \<subseteq> cover rs \<union> {fst r..<snd r}"
    "\<not> swallows q ?hs \<longrightarrow> cover (add_range r rs) = cover rs \<union> {fst r..<snd r}"
    using N(3,4) unfolding e cover_simps(3) by blast+
  ultimately show ?thesis using p by simp
qed

text \<open>Where nothing touches, adding only puts the range in its place.\<close>

lemma add_range_free:
  assumes "separated (ls @ r # hs)"
  shows "add_range r (ls @ hs) = ls @ r # hs"
proof -
  have a: "separated ls" "\<forall>x\<in>set ls. snd x < fst r" "\<forall>x\<in>set hs. snd r < fst x" "fst r < snd r"
    using assms by (auto simp: separated_append separated_Cons)
  have "fst x < fst r" if x: "x \<in> set ls" for x
  proof -
    have "fst x < snd x" using a(1) x by (simp add: separated_def)
    then show ?thesis using a(2) x less_trans by blast
  qed
  moreover have "\<not> fst x < fst r" if x: "x \<in> set hs" for x
  proof -
    have "fst r < fst x" using a(3,4) x less_trans by blast
    then show ?thesis by (rule order_less_not_sym)
  qed
  ultimately have f: "filter (\<lambda>x. fst x < fst r) (ls @ hs) = ls" "filter (\<lambda>x. \<not> fst x < fst r) (ls @ hs) = hs"
    by (auto simp: filter_id_conv filter_empty_conv)
  have "ls \<noteq> [] \<Longrightarrow> snd (last ls) < fst r" using a(2) last_in_set by blast
  then have "\<not> (ls \<noteq> [] \<and> snd (last ls) \<ge> fst r)" by (auto simp: not_le)
  moreover have "hs \<noteq> [] \<Longrightarrow> snd r < fst (hd hs)" using a(3) hd_in_set by blast
  then have "\<not> (hs \<noteq> [] \<and> fst (hd hs) \<le> snd r)" by (auto simp: not_le)
  ultimately have "join_prev r ls = (r, ls)" "join_next r hs = (r, hs)" by (auto simp: join_prev_def join_next_def)
  then show ?thesis by (simp only: add_range_def f prod.case Let_def)
qed

end
