(* ===== verification/Balloc_Refine.thy ===== *)
theory Balloc_Refine
  imports Balloc_Spec
begin

text \<open>
  The operations of \<open>balloc.c\<close> on nodes do to the ranges what \<open>Balloc_Spec\<close> says.
\<close>

section \<open>Finding the place\<close>

lemma lefts_append: "lefts (gs @ hs) = lefts hs @ lefts gs"
  by (induction gs rule: lefts.induct) simp_all

lemma rights_append: "rights (gs @ hs) = rights gs @ rights hs"
  by (induction gs rule: rights.induct) simp_all

lemma plug_app: "plug t (gs @ fs) = plug (plug t gs) fs"
  by (induction t gs rule: plug.induct) simp_all

lemma add_place_at:
  assumes "zip_at t u fs" "sorted_wrt (\<lambda>x y. mbegin s y < from \<longrightarrow> mbegin s x < from) (inorder u)"
  shows "\<exists>gs. add_place s t from (tip u) (ctop fs) (plink_of fs) = Some (Inr (ctop (gs @ fs), plink_of (gs @ fs))) \<and> plug Lf gs = u \<and>
    lefts gs = filter (\<lambda>x. mbegin s x < from) (inorder u) \<and> rights gs = filter (\<lambda>x. \<not> mbegin s x < from) (inorder u)"
  using assms
proof (induction u arbitrary: fs)
  case Lf
  show ?case by (subst add_place.simps) (intro exI [of _ "[]"], simp)
next
  case (Nd c l a r)
  note n = zip_node [OF Nd(3)]
  have so: "sorted_wrt (\<lambda>x y. mbegin s y < from \<longrightarrow> mbegin s x < from) (inorder l)"
    "sorted_wrt (\<lambda>x y. mbegin s y < from \<longrightarrow> mbegin s x < from) (inorder r)"
    "\<forall>x\<in>set (inorder l). mbegin s a < from \<longrightarrow> mbegin s x < from" "\<forall>y\<in>set (inorder r). mbegin s y < from \<longrightarrow> mbegin s a < from"
    using Nd(4) by (auto simp: sorted_wrt_append)
  show ?case
  proof (cases "mbegin s a < from")
    case True
    have z: "zip_at t r (RightOf c l a # fs)" using Nd(3) by (simp add: zip_up)
    obtain gs where gs: "add_place s t from (tip r) a (RightLink a) = Some (Inr (ctop (gs @ RightOf c l a # fs), plink_of (gs @ RightOf c l a # fs)))"
      "plug Lf gs = r" "lefts gs = filter (\<lambda>x. mbegin s x < from) (inorder r)" "rights gs = filter (\<lambda>x. \<not> mbegin s x < from) (inorder r)"
      using Nd(2) [OF z so(2)] by auto
    have fl: "filter (\<lambda>x. mbegin s x < from) (inorder l) = inorder l" "filter (\<lambda>x. \<not> mbegin s x < from) (inorder l) = []"
      using so(3) True by (auto simp: filter_id_conv filter_empty_conv)
    have "add_place s t from a (ctop fs) (plink_of fs) = add_place s t from (tip r) a (RightLink a)"
      using n True by (subst add_place.simps) simp
    then show ?thesis using gs fl True
      by (intro exI [of _ "gs @ [RightOf c l a]"]) (simp add: plug_app lefts_append rights_append)
  next
    case False
    have z: "zip_at t l (LeftOf c a r # fs)" using Nd(3) by (simp add: zip_up)
    obtain gs where gs: "add_place s t from (tip l) a (LeftLink a) = Some (Inr (ctop (gs @ LeftOf c a r # fs), plink_of (gs @ LeftOf c a r # fs)))"
      "plug Lf gs = l" "lefts gs = filter (\<lambda>x. mbegin s x < from) (inorder l)" "rights gs = filter (\<lambda>x. \<not> mbegin s x < from) (inorder l)"
      using Nd(1) [OF z so(1)] by auto
    have fr: "filter (\<lambda>x. mbegin s x < from) (inorder r) = []" "filter (\<lambda>x. \<not> mbegin s x < from) (inorder r) = inorder r"
      using so(4) False by (auto simp: filter_id_conv filter_empty_conv)
    have "add_place s t from a (ctop fs) (plink_of fs) = add_place s t from (tip l) a (LeftLink a)"
      using n False by (subst add_place.simps) simp
    then show ?thesis using gs fr False
      by (intro exI [of _ "gs @ [LeftOf c a r]"]) (simp add: plug_app lefts_append rights_append)
  qed
qed

lemma first_ending_at:
  assumes "tree_at (nodes t) q u" "sorted_wrt (\<lambda>x y. mend s x > from \<longrightarrow> mend s y > from) (inorder u)"
  shows "first_ending s t from (tip u) p = Some (Inr (hd (filter (\<lambda>x. mend s x > from) (inorder u) @ [p])))"
  using assms
proof (induction u arbitrary: q p)
  case Lf
  show ?case by (subst first_ending.simps) simp
next
  case (Nd c l a r)
  have so: "sorted_wrt (\<lambda>x y. mend s x > from \<longrightarrow> mend s y > from) (inorder l)"
    "sorted_wrt (\<lambda>x y. mend s x > from \<longrightarrow> mend s y > from) (inorder r)"
    "\<forall>x\<in>set (inorder l). mend s x > from \<longrightarrow> mend s a > from"
    using Nd(4) unfolding inorder.simps sorted_wrt_append sorted_wrt.simps list.set by blast+
  have n: "rd t a = Inr (mk c q (tip l) (tip r))" "a \<noteq> 0" "tree_at (nodes t) a l" "tree_at (nodes t) a r"
    using Nd(3) by (auto simp: rd_ok)
  show ?case
  proof (cases "mend s a > from")
    case True
    have "first_ending s t from (tip (Nd c l a r)) p = first_ending s t from (tip l) a"
      using n True by (subst first_ending.simps) simp
    also have "\<dots> = Some (Inr (hd (filter (\<lambda>x. mend s x > from) (inorder l) @ [a])))" by (rule Nd(1) [OF n(3) so(1)])
    finally show ?thesis using True by (simp add: hd_append)
  next
    case False
    have "filter (\<lambda>x. mend s x > from) (inorder l) = []" using so(3) False by (auto simp: filter_empty_conv)
    moreover have "first_ending s t from (tip (Nd c l a r)) p = first_ending s t from (tip r) p"
      using n False by (subst first_ending.simps) simp
    ultimately show ?thesis using Nd(2) [OF n(4) so(2)] False by simp
  qed
qed

section \<open>Merging\<close>

definition rng :: "balloc \<Rightarrow> u64 list \<Rightarrow> range list" where "rng s ps = map (\<lambda>p. (mbegin s p, mend s p)) ps"

lemma rng_simps [simp]:
  "rng s [] = []" "rng s (p # ps) = (mbegin s p, mend s p) # rng s ps" "rng s (ps @ qs) = rng s ps @ rng s qs"
  "rng s ps = [] \<longleftrightarrow> ps = []" "length (rng s ps) = length ps"
  by (simp_all add: rng_def)

lemma rng_cong: "(\<And>p. p \<in> set ps \<Longrightarrow> mbegin s' p = mbegin s p \<and> mend s' p = mend s p) \<Longrightarrow> rng s' ps = rng s ps"
  by (simp add: rng_def)

text \<open>Only the ranges of \<open>P\<close> change, and what the running operation holds stays held.\<close>

definition keeps :: "balloc \<Rightarrow> u64 list \<Rightarrow> (tree_id \<Rightarrow> u64 list) \<Rightarrow> balloc \<Rightarrow> u64 list \<Rightarrow> (tree_id \<Rightarrow> u64 list) \<Rightarrow> u64 \<Rightarrow> bool" where
  "keeps s F xs s' F' xs' p \<longleftrightarrow> (\<forall>q. q \<noteq> p \<longrightarrow> mbegin s' q = mbegin s q \<and> mend s' q = mend s q) \<and>
     (\<forall>q. held s F xs q \<longrightarrow> held s' F' xs' q)"

lemma keeps_refl: "keeps s F xs s F xs p"
  by (simp add: keeps_def)

lemma keeps_trans: "keeps s F xs s1 F1 xs1 p \<Longrightarrow> keeps s1 F1 xs1 s2 F2 xs2 p \<Longrightarrow> keeps s F xs s2 F2 xs2 p"
  by (simp add: keeps_def)

lemma drop_node_ok:
  assumes "nodes_ok s F xs" "xs w = us @ q # vs" "s' = s\<lparr>mbegin := f, mend := g\<rparr>"
  shows "\<exists>s''. bindP (erase_node w q s') (\<lambda>s. Some (balloc_free_node q s)) = Some (Inr s'') \<and>
    nodes_ok s'' (q # F) (xs(w := us @ vs)) \<and> mbegin s'' = f \<and> mend s'' = g \<and>
    (\<forall>x. held s F xs x \<longrightarrow> held s'' (q # F) (xs(w := us @ vs)) x)"
proof -
  have ok: "nodes_ok s' F xs" using assms(1,3) by simp
  obtain s1 where s1: "erase_node w q s' = Some (Inr s1)" "nodes_ok s1 F (xs(w := us @ vs))" "held s1 F (xs(w := us @ vs)) q"
    "mbegin s1 = mbegin s'" "mend s1 = mend s'" "dom (blist s1) = dom (blist s')"
    using erase_node_ok [OF ok assms(2)] by blast
  obtain s2 where s2: "balloc_free_node q s1 = Inr s2" "nodes_ok s2 (q # F) (xs(w := us @ vs))" "mbegin s2 = mbegin s1" "mend s2 = mend s1"
    "\<forall>x. x \<noteq> q \<longrightarrow> held s1 F (xs(w := us @ vs)) x \<longrightarrow> held s2 (q # F) (xs(w := us @ vs)) x"
    using free_node_ok [OF s1(2,3)] by blast
  have "held s2 (q # F) (xs(w := us @ vs)) x" if h: "held s F xs x" for x
  proof -
    have "q \<in> owned xs" using assms(2) owned_tree [of xs w] by auto
    then have "x \<noteq> q" using h by (auto simp: held_def)
    moreover have "owned (xs(w := us @ vs)) \<subseteq> owned xs" using assms(2) by (cases w) (auto simp: owned_def)
    then have "held s1 F (xs(w := us @ vs)) x" using h s1(6) assms(3) by (auto simp: held_def)
    ultimately show ?thesis using s2(5) by blast
  qed
  then show ?thesis using s1(1,4,5) s2 assms(3) by (intro exI [of _ s2]) simp
qed

lemma merge_prev_ok:
  assumes "nodes_ok s F xs" "xs w = us @ p # vs"
  shows "\<exists>s' F' us'. merge_prev w p s = Some (Inr s') \<and> nodes_ok s' F' (xs(w := us' @ p # vs)) \<and>
    join_prev (mbegin s p, mend s p) (rng s us) = ((mbegin s' p, mend s' p), rng s' us') \<and>
    keeps s F xs s' F' (xs(w := us' @ p # vs)) p \<and> length F' + length us' = length F + length us \<and> us' = take (length us') us"
proof -
  have od: "rb_order (tree_of w s) (us @ p # vs)" using tree_order [OF assms(1), of w] assms(2) by simp
  have di: "distinct (us @ p # vs)" "0 \<notin> set (us @ p # vs)" using rb_order_nodes [OF od] ptr_nonzero by blast+
  have pv: "rb_prev (tree_of w s) p = Some (Inr (last (0 # us)))" by (rule order_neighbours(2) [OF od])
  show ?thesis
  proof (cases "us \<noteq> [] \<and> mend s (last us) \<ge> mbegin s p")
    case True
    then obtain ms q where us: "us = ms @ [q]" by (metis rev_exhaust)
    have q: "q \<noteq> 0" "q \<noteq> p" "p \<notin> set ms" "q \<notin> set ms" using di by (auto simp: us)
    define s1 where "s1 = s\<lparr>mbegin := (mbegin s)(p := mbegin s q), mend := (if mend s q > mend s p then (mend s)(p := mend s q) else mend s)\<rparr>"
    have xw: "xs w = ms @ q # (p # vs)" using assms(2) us by simp
    obtain s2 where s2: "bindP (erase_node w q s1) (\<lambda>s. Some (balloc_free_node q s)) = Some (Inr s2)"
      "nodes_ok s2 (q # F) (xs(w := ms @ p # vs))" "mbegin s2 = mbegin s1" "mend s2 = mend s1"
      "\<forall>x. held s F xs x \<longrightarrow> held s2 (q # F) (xs(w := ms @ p # vs)) x"
      using drop_node_ok [OF assms(1) xw s1_def] by (auto simp: s1_def)
    have run: "merge_prev w p s = Some (Inr s2)"
      using True q s2(1) pv by (auto simp: merge_prev_def us s1_def Let_def split: if_splits)
    have "rng s2 ms = rng s ms" by (rule rng_cong) (use q s2(3,4) in \<open>auto simp: s1_def\<close>)
    then have "join_prev (mbegin s p, mend s p) (rng s us) = ((mbegin s2 p, mend s2 p), rng s2 ms)"
      using True q s2(3,4) by (simp add: join_prev_def us s1_def)
    moreover have "keeps s F xs s2 (q # F) (xs(w := ms @ p # vs)) p"
      using s2(3-5) by (simp add: keeps_def s1_def)
    ultimately show ?thesis using run s2(2) by (intro exI [of _ s2] exI [of _ "q # F"] exI [of _ ms]) (simp add: us)
  next
    case False
    have "last us \<in> set us" if "us \<noteq> []" using that by simp
    then have "merge_prev w p s = Some (Inr s)" using False pv di(2) by (auto simp: merge_prev_def)
    moreover have "join_prev (mbegin s p, mend s p) (rng s us) = ((mbegin s p, mend s p), rng s us)"
      using False by (auto simp: join_prev_def rng_def last_map)
    moreover have "xs(w := us @ p # vs) = xs" using assms(2) by auto
    ultimately show ?thesis using assms(1) keeps_refl [of s F xs p] by (intro exI [of _ s] exI [of _ F] exI [of _ us]) simp
  qed
qed


lemma merge_next_ok:
  assumes "nodes_ok s F xs" "xs w = us @ p # vs"
  shows "\<exists>s' F' vs'. merge_next w p s = Some (Inr s') \<and> nodes_ok s' F' (xs(w := us @ p # vs')) \<and>
    join_next (mbegin s p, mend s p) (rng s vs) = ((mbegin s' p, mend s' p), rng s' vs') \<and>
    keeps s F xs s' F' (xs(w := us @ p # vs')) p \<and> length F' + length vs' = length F + length vs \<and> vs' = drop (length vs - length vs') vs"
proof -
  have od: "rb_order (tree_of w s) (us @ p # vs)" using tree_order [OF assms(1), of w] assms(2) by simp
  have di: "distinct (us @ p # vs)" "0 \<notin> set (us @ p # vs)" using rb_order_nodes [OF od] ptr_nonzero by blast+
  have nx: "rb_next (tree_of w s) p = Some (Inr (hd (vs @ [0])))" by (rule order_neighbours(1) [OF od])
  show ?thesis
  proof (cases "vs \<noteq> [] \<and> mbegin s (hd vs) \<le> mend s p")
    case True
    then obtain q ms where vs: "vs = q # ms" by (cases vs) auto
    have q: "q \<noteq> 0" "q \<noteq> p" "p \<notin> set ms" "q \<notin> set ms" using di by (auto simp: vs)
    define s1 where "s1 = s\<lparr>mbegin := mbegin s, mend := (mend s)(p := mend s q)\<rparr>"
    have xw: "xs w = (us @ [p]) @ q # ms" using assms(2) vs by simp
    obtain s2 where s2: "bindP (erase_node w q s1) (\<lambda>s. Some (balloc_free_node q s)) = Some (Inr s2)"
      "nodes_ok s2 (q # F) (xs(w := us @ p # ms))" "mbegin s2 = mbegin s1" "mend s2 = mend s1"
      "\<forall>x. held s F xs x \<longrightarrow> held s2 (q # F) (xs(w := us @ p # ms)) x"
      using drop_node_ok [OF assms(1) xw s1_def] by (auto simp: s1_def)
    have run: "merge_next w p s = Some (Inr s2)"
      using True q s2(1) nx by (simp add: merge_next_def vs s1_def Let_def)
    have "rng s2 ms = rng s ms" by (rule rng_cong) (use q s2(3,4) in \<open>auto simp: s1_def\<close>)
    then have "join_next (mbegin s p, mend s p) (rng s vs) = ((mbegin s2 p, mend s2 p), rng s2 ms)"
      using True q s2(3,4) by (simp add: join_next_def vs s1_def)
    moreover have "keeps s F xs s2 (q # F) (xs(w := us @ p # ms)) p"
      using s2(3-5) by (simp add: keeps_def s1_def)
    ultimately show ?thesis using run s2(2) by (intro exI [of _ s2] exI [of _ "q # F"] exI [of _ ms]) (simp add: vs)
  next
    case False
    then have "merge_next w p s = Some (Inr s)" using nx by (cases vs) (auto simp: merge_next_def)
    moreover have "join_next (mbegin s p, mend s p) (rng s vs) = ((mbegin s p, mend s p), rng s vs)"
      using False by (cases vs) (auto simp: join_next_def)
    moreover have "xs(w := us @ p # vs) = xs" using assms(2) by auto
    ultimately show ?thesis using assms(1) keeps_refl [of s F xs p] by (intro exI [of _ s] exI [of _ F] exI [of _ vs]) simp
  qed
qed

section \<open>Adding a range\<close>

lemma is_tree_frame:
  assumes "is_tree t u" "\<And>a. a \<in> set (inorder u) \<Longrightarrow> nodes t' a = nodes t a" "rb_tree.root t' = rb_tree.root t"
  shows "is_tree t' u"
  using assms tree_frame [of u "nodes t'" "nodes t" 0] by (simp add: is_tree_def)

lemma rng_filter: "filter (\<lambda>x. fst x < b) (rng s ps) = rng s (filter (\<lambda>p. mbegin s p < b) ps)"
  "filter (\<lambda>x. \<not> fst x < b) (rng s ps) = rng s (filter (\<lambda>p. \<not> mbegin s p < b) ps)"
  by (simp_all add: rng_def filter_map o_def)

lemma sorted_rng:
  assumes "separated (rng s ps)"
  shows "sorted_wrt (\<lambda>p q. mbegin s p < mbegin s q) ps" "sorted_wrt (\<lambda>p q. mend s p < mend s q) ps"
proof -
  show "sorted_wrt (\<lambda>p q. mbegin s p < mbegin s q) ps"
    using separated_sorted [OF assms] by (simp add: rng_def sorted_wrt_map)
  have "sorted_wrt (\<lambda>r r'. snd r < snd r') rs" if "separated rs" for rs
    using that
  proof (induction rs)
    case (Cons r rs)
    have "snd r < snd r'" if r': "r' \<in> set rs" for r'
    proof -
      have "snd r < fst r'" "fst r' < snd r'" using Cons(2) r' by (auto simp: separated_Cons separated_def)
      then show ?thesis by (rule less_trans)
    qed
    then show ?case using Cons by (simp add: separated_Cons)
  qed simp
  from this [OF assms] show "sorted_wrt (\<lambda>p q. mend s p < mend s q) ps"
    by (simp add: rng_def sorted_wrt_map)
qed

lemma place_for:
  assumes "nodes_ok s F xs" "separated (rng s (xs w))"
  obtains fs where "add_place s (tree_of w s) from (broot s w) 0 RootLink = Some (Inr (ctop fs, plink_of fs))"
    "is_tree (tree_of w s) (plug Lf fs)" "red_black (plug Lf fs)" "lefts fs = filter (\<lambda>p. mbegin s p < from) (xs w)"
    "rights fs = filter (\<lambda>p. \<not> mbegin s p < from) (xs w)" "xs w = lefts fs @ rights fs"
proof -
  obtain t where t: "is_tree (tree_of w s) t" "red_black t" "inorder t = xs w"
    using tree_order [OF assms(1), of w] unfolding rb_order_def by blast
  have "sorted_wrt (\<lambda>x y. mbegin s y < from \<longrightarrow> mbegin s x < from) (inorder t)"
    unfolding t(3) by (rule sorted_wrt_mono_rel [OF _ sorted_rng(1) [OF assms(2)]]) (rule impI, erule (1) less_trans)
  then obtain gs where gs: "add_place s (tree_of w s) from (tip t) 0 RootLink = Some (Inr (ctop gs, plink_of gs))"
    "plug Lf gs = t" "lefts gs = filter (\<lambda>x. mbegin s x < from) (inorder t)" "rights gs = filter (\<lambda>x. \<not> mbegin s x < from) (inorder t)"
    using add_place_at [of "tree_of w s" t "[]" s "from"] t(1) unfolding is_tree_zip by (simp only: append_Nil2 ctop.simps plink_of.simps) blast
  have r: "broot s w = tip t" using t(1) by (simp add: is_tree_def)
  have i: "xs w = lefts gs @ rights gs" using inorder_plug [of Lf gs] gs(2) t(3) by simp
  show thesis
    by (rule that [OF gs(1) [folded r]]) (fact t(1) [folded gs(2)] t(2) [folded gs(2)] gs(3) [unfolded t(3)] gs(4) [unfolded t(3)] i)+
qed

lemma add_range_run:
  assumes "nodes_ok s (p # F) xs" "separated (rng s (xs w))"
  shows "\<exists>s' F' ys. balloc_add_range w from to s = Some (Inr s') \<and> nodes_ok s' F' (xs(w := ys)) \<and>
    rng s' ys = add_range (from, to) (rng s (xs w)) \<and> keeps s (p # F) xs s' F' (xs(w := ys)) p \<and>
    length F' + length ys = length (p # F) + length (xs w) \<and>
    (length ys = Suc (length (xs w)) \<longrightarrow> ys = filter (\<lambda>p. mbegin s p < from) (xs w) @ p # filter (\<lambda>p. \<not> mbegin s p < from) (xs w))"
proof -
  obtain fs where fs: "add_place s (tree_of w s) from (broot s w) 0 RootLink = Some (Inr (ctop fs, plink_of fs))"
    "is_tree (tree_of w s) (plug Lf fs)" "red_black (plug Lf fs)" "lefts fs = filter (\<lambda>p. mbegin s p < from) (xs w)"
    "rights fs = filter (\<lambda>p. \<not> mbegin s p < from) (xs w)" "xs w = lefts fs @ rights fs"
    by (rule place_for [OF assms])
  obtain s1 where s1: "balloc_alloc_node s = Inr (p, s1)" "nodes_ok s1 F xs" "held s1 F xs p" "bnodes s1 p \<noteq> None"
    "mbegin s1 = mbegin s" "mend s1 = mend s" "broot s1 = broot s" "\<forall>a\<in>owned xs. bnodes s1 a = bnodes s a" "dom (blist s1) = dom (blist s)"
    using alloc_node_ok [OF assms(1)] by blast
  define s2 where "s2 = s1\<lparr>mbegin := (mbegin s1)(p := from), mend := (mend s1)(p := to)\<rparr>"
  have ok2: "nodes_ok s2 F xs" "held s2 F xs p" "bnodes s2 p \<noteq> None" using s1(2-4) by (simp_all add: s2_def)
  have io: "inorder (plug Lf fs) = xs w" using fs(6) by (simp add: inorder_plug)
  have "is_tree (tree_of w s2) (plug Lf fs)"
    by (rule is_tree_frame [OF fs(2)]) (use s1(7,8) io owned_tree [of xs w] in \<open>auto simp: s2_def\<close>)
  then obtain t1 t2 where t: "rb_link p (ctop fs) (plink_of fs) (tree_of w s2) = Inr t1" "rb_insert p t1 = Some (Inr t2)"
    "nodes_ok (put_tree w t2 s2) F (xs(w := lefts fs @ p # rights fs))"
    using insert_node_ok [OF ok2 _ fs(3,6)] by blast
  define s3 where "s3 = put_tree w t2 s2"
  let ?x3 = "xs(w := lefts fs @ p # rights fs)"
  have po: "p \<notin> owned xs" using s1(3) by (simp add: held_def)
  have pn: "p \<notin> set (lefts fs)" "p \<notin> set (rights fs)" using po owned_tree [of xs w] fs(6) by auto
  have k3: "keeps s (p # F) xs s3 F ?x3 p"
  proof -
    have "held s3 F ?x3 q" if h: "held s (p # F) xs q" for q
    proof -
      have "q \<noteq> p" using h by (auto simp: held_def)
      moreover have "owned ?x3 = insert p (owned xs)" using fs(6) by (cases w) (auto simp: owned_def)
      ultimately show ?thesis using h s1(9) by (auto simp: held_def s3_def s2_def)
    qed
    then show ?thesis using s1(5,6) by (simp add: keeps_def s3_def s2_def)
  qed
  have r3: "mbegin s3 p = from" "mend s3 p = to" "rng s3 (lefts fs) = rng s (lefts fs)" "rng s3 (rights fs) = rng s (rights fs)"
    using pn s1(5,6) by (auto simp: s3_def s2_def rng_def)
  obtain s4 F4 us where s4: "merge_prev w p s3 = Some (Inr s4)" "nodes_ok s4 F4 (xs(w := us @ p # rights fs))"
    "join_prev (from, to) (rng s (lefts fs)) = ((mbegin s4 p, mend s4 p), rng s4 us)" "keeps s3 F ?x3 s4 F4 (xs(w := us @ p # rights fs)) p"
    "length F4 + length us = length F + length (lefts fs)" "us = take (length us) (lefts fs)"
    using merge_prev_ok [of s3 F ?x3 w "lefts fs" p "rights fs"] t(3) r3 by (auto simp: s3_def [symmetric])
  have "rng s4 (rights fs) = rng s3 (rights fs)" by (rule rng_cong) (use s4(4) pn(2) in \<open>auto simp: keeps_def\<close>)
  then have r4: "rng s4 (rights fs) = rng s (rights fs)" using r3(4) by simp
  obtain s5 F5 vs where s5: "merge_next w p s4 = Some (Inr s5)" "nodes_ok s5 F5 (xs(w := us @ p # vs))"
    "join_next (mbegin s4 p, mend s4 p) (rng s (rights fs)) = ((mbegin s5 p, mend s5 p), rng s5 vs)"
    "keeps s4 F4 (xs(w := us @ p # rights fs)) s5 F5 (xs(w := us @ p # vs)) p" "length F5 + length vs = length F4 + length (rights fs)"
    "vs = drop (length (rights fs) - length vs) (rights fs)"
    using merge_next_ok [of s4 F4 "xs(w := us @ p # rights fs)" w us p "rights fs"] s4(2) r4 by auto
  have pu: "p \<notin> set us" using s4(6) pn(1) in_set_takeD by metis
  have r5: "rng s5 us = rng s4 us" by (rule rng_cong) (use s5(4) pu in \<open>auto simp: keeps_def\<close>)
  have run: "balloc_add_range w from to s = Some (Inr s5)"
    using fs(1) s1(1) t(1,2) s4(1) s5(1) unfolding s3_def s2_def by (simp add: balloc_add_range_def Let_def)
  have "rng s5 (us @ p # vs) = add_range (from, to) (rng s (xs w))"
    using s4(3) s5(3) fs(4,5) r5 by (simp add: add_range_def rng_filter Let_def)
  moreover have "keeps s (p # F) xs s5 F5 (xs(w := us @ p # vs)) p"
    using keeps_trans [OF keeps_trans [OF k3 s4(4)] s5(4)] .
  moreover have "length F5 + length (us @ p # vs) = length (p # F) + length (xs w)"
    using s4(5) s5(5) fs(6) by simp
  moreover have "us @ p # vs = lefts fs @ p # rights fs" if e: "length (us @ p # vs) = Suc (length (xs w))"
  proof -
    have "length us \<le> length (lefts fs)" "length vs \<le> length (rights fs)"
      using arg_cong [OF s4(6), of length] arg_cong [OF s5(6), of length] by simp_all
    moreover have "length us + length vs = length (lefts fs) + length (rights fs)" using e fs(6) by simp
    ultimately have "length us = length (lefts fs)" "length vs = length (rights fs)" by simp_all
    then show ?thesis using s4(6) s5(6) by simp
  qed
  ultimately show ?thesis using run s5(2) unfolding fs(4,5) by blast
qed

lemma add_range_full:
  assumes "nodes_ok s [] xs" "separated (rng s (xs w))"
  shows "balloc_add_range w from to s = Some (Inl Bug)"
proof -
  obtain fs where "add_place s (tree_of w s) from (broot s w) 0 RootLink = Some (Inr (ctop fs, plink_of fs))"
    by (rule place_for [OF assms])
  then show ?thesis using alloc_node_empty [OF assms(1)] by (simp add: balloc_add_range_def)
qed

end
