(* ===== verification/Balloc_Ops.thy ===== *)
theory Balloc_Ops
  imports Balloc_Refine
begin

text \<open>
  Removing a range and allocating: the loops over the nodes cut ranges out of the trees, which is the
  difference of the sets of addresses.
\<close>

lemma ex3I: "P a b c \<Longrightarrow> \<exists>x y z. P x y z"
  by blast

section \<open>Cutting a node\<close>

lemma add_free:
  assumes "nodes_ok s (p # F) xs" "xs w = us @ vs" "separated (rng s us @ (from, to) # rng s vs)"
  shows "\<exists>s' F'. balloc_add_range w from to s = Some (Inr s') \<and> nodes_ok s' F' (xs(w := us @ p # vs)) \<and>
    mbegin s' p = from \<and> mend s' p = to \<and> keeps s (p # F) xs s' F' (xs(w := us @ p # vs)) p \<and> length F' = length F"
proof -
  have sp: "separated (rng s (xs w))" using assms(2,3) by (auto simp: separated_append separated_Cons)
  have af: "add_range (from, to) (rng s (xs w)) = rng s us @ (from, to) # rng s vs"
    using add_range_free [OF assms(3)] assms(2) by simp
  obtain s' F' ys where s': "balloc_add_range w from to s = Some (Inr s')" "nodes_ok s' F' (xs(w := ys))"
    "rng s' ys = rng s us @ (from, to) # rng s vs" "keeps s (p # F) xs s' F' (xs(w := ys)) p"
    "length F' + length ys = length (p # F) + length (xs w)"
    "length ys = Suc (length (xs w)) \<Longrightarrow> ys = filter (\<lambda>p. mbegin s p < from) (xs w) @ p # filter (\<lambda>p. \<not> mbegin s p < from) (xs w)"
    using add_range_run [OF assms(1) sp, of "from" to] af by auto
  have ly: "length ys = Suc (length (xs w))" using arg_cong [OF s'(3), of length] assms(2) by simp
  have ss: "sorted_wrt (\<lambda>r r'. fst r < fst r') (rng s us @ (from, to) # rng s vs)" by (rule separated_sorted [OF assms(3)])
  have "filter (\<lambda>p. mbegin s p < from) us = us" "filter (\<lambda>p. mbegin s p < from) vs = []"
    "filter (\<lambda>p. \<not> mbegin s p < from) us = []" "filter (\<lambda>p. \<not> mbegin s p < from) vs = vs"
    using ss by (auto simp: filter_id_conv filter_empty_conv sorted_wrt_append rng_def dest: order_less_not_sym)
  then have ys: "ys = us @ p # vs" using s'(6) [OF ly] assms(2) by simp
  have "p \<notin> owned xs" using free_not_owned [OF assms(1)] by simp
  then have "p \<notin> set us" using assms(2) owned_tree [of xs w] by auto
  then have "rng s' us = rng s us" by (intro rng_cong) (use s'(4) in \<open>auto simp: keeps_def\<close>)
  then have "(mbegin s' p, mend s' p) = (from, to)" using s'(3) by (simp add: ys)
  then show ?thesis using s'(1,2,4,5) ly by (auto simp: ys)
qed

text \<open>Parameters: the piece before \<open>from\<close>, then the piece behind \<open>to\<close>.\<close>

lemma cut_node_ok:
  assumes "nodes_ok s F xs" "xs w = us @ q # vs" "separated (rng s (xs w))" "from < to" "mend s q > from" "mbegin s q < to"
    and "length (cut from to (mbegin s q, mend s q)) \<le> length F"
  shows "\<exists>s' F' ps. cut_node w q from to s = Some (Inr s') \<and> nodes_ok s' F' (xs(w := us @ ps @ vs)) \<and>
    rng s' ps = cut from to (mbegin s q, mend s q) \<and> (\<forall>x. x \<in> owned (xs(w := us @ vs)) \<longrightarrow> mbegin s' x = mbegin s x \<and> mend s' x = mend s x) \<and>
    length F' + length ps = Suc (length F)"
proof -
  let ?b = "mbegin s q" and ?e = "mend s q"
  let ?x0 = "xs(w := us @ vs)"
  obtain s0 where s0: "erase_node w q s = Some (Inr s0)" "nodes_ok s0 F ?x0" "held s0 F ?x0 q" "mbegin s0 = mbegin s" "mend s0 = mend s"
    using erase_node_ok [OF assms(1,2)] by blast
  have rg: "rng s0 ps = rng s ps" for ps using s0(4,5) by (simp add: rng_def)
  have sc: "separated (rng s us @ cut from to (?b, ?e) @ rng s vs)"
    using cut_separated(1) [of "rng s us" "(?b, ?e)" "rng s vs"] assms(2-6) by simp
  let ?c1 = "if ?b < from then [(?b, from)] else []" and ?c2 = "if ?e > to then [(to, ?e)] else []"
  have cut: "cut from to (?b, ?e) = ?c1 @ ?c2" by (simp add: cut_def)
  have "\<exists>s1 F1 p1. (if ?b < from then balloc_add_range w ?b from s0 else Some (Inr s0)) = Some (Inr s1) \<and>
    nodes_ok s1 F1 (xs(w := us @ p1 @ vs)) \<and> rng s1 p1 = ?c1 \<and> held s1 F1 (xs(w := us @ p1 @ vs)) q \<and>
    (\<forall>x. x \<in> insert q (owned ?x0) \<longrightarrow> mbegin s1 x = mbegin s x \<and> mend s1 x = mend s x) \<and> length F1 + length p1 = length F"
  proof (cases "?b < from")
    case True
    then obtain p F0 where F: "F = p # F0" using assms(7) by (cases F) (auto simp: cut_def)
    have po: "p \<notin> owned ?x0" "p \<noteq> q" using free_not_owned [OF s0(2)] F s0(3) by (auto simp: held_def)
    have "separated (rng s0 us @ (?b, from) # rng s0 vs)" using sc True unfolding rg cut by (auto simp: separated_append separated_Cons split: if_splits)
    then obtain s1 F1 where s1: "balloc_add_range w ?b from s0 = Some (Inr s1)" "nodes_ok s1 F1 (?x0(w := us @ p # vs))" "mbegin s1 p = ?b"
      "mend s1 p = from" "keeps s0 F ?x0 s1 F1 (?x0(w := us @ p # vs)) p" "length F1 = length F0"
      using add_free [of s0 p F0 ?x0 w us vs ?b "from"] s0(2) F by auto
    have k: "\<forall>x. x \<in> insert q (owned ?x0) \<longrightarrow> mbegin s1 x = mbegin s x \<and> mend s1 x = mend s x"
    proof (intro allI impI)
      fix x assume "x \<in> insert q (owned ?x0)"
      then have "x \<noteq> p" using po by auto
      then show "mbegin s1 x = mbegin s x \<and> mend s1 x = mend s x" using s1(5) s0(4,5) by (simp add: keeps_def)
    qed
    have "held s1 F1 (?x0(w := us @ p # vs)) q" using s1(5) s0(3) by (simp add: keeps_def)
    then show ?thesis
      using True s1(1-4,6) k F by (intro ex3I [of _ s1 F1 "[p]"]) simp
  next
    case False
    then show ?thesis using s0 by (intro ex3I [of _ s0 F "[]"]) simp
  qed
  then obtain s1 F1 p1 where s1: "(if ?b < from then balloc_add_range w ?b from s0 else Some (Inr s0)) = Some (Inr s1)"
    "nodes_ok s1 F1 (xs(w := us @ p1 @ vs))" "rng s1 p1 = ?c1" "held s1 F1 (xs(w := us @ p1 @ vs)) q"
    "\<forall>x. x \<in> insert q (owned ?x0) \<longrightarrow> mbegin s1 x = mbegin s x \<and> mend s1 x = mend s x" "length F1 + length p1 = length F" by blast
  let ?x1 = "xs(w := us @ p1 @ vs)"
  have ow: "set us \<subseteq> owned ?x0" "set vs \<subseteq> owned ?x0" using owned_tree [of ?x0 w] by auto
  have r1: "rng s1 us = rng s us" "rng s1 vs = rng s vs" using s1(5) ow by (auto intro!: rng_cong)
  have "\<exists>s2 F2 p2. (if ?e > to then balloc_add_range w to ?e s1 else Some (Inr s1)) = Some (Inr s2) \<and>
    nodes_ok s2 F2 (xs(w := us @ (p1 @ p2) @ vs)) \<and> rng s2 p2 = ?c2 \<and> rng s2 p1 = ?c1 \<and> held s2 F2 (xs(w := us @ (p1 @ p2) @ vs)) q \<and>
    (\<forall>x. x \<in> owned ?x0 \<longrightarrow> mbegin s2 x = mbegin s x \<and> mend s2 x = mend s x) \<and> length F2 + length p2 = length F1"
  proof (cases "?e > to")
    case True
    have "length p1 + 1 \<le> length F" using assms(7) True arg_cong [OF s1(3), of length] unfolding cut by simp
    then obtain p F0 where F: "F1 = p # F0" using s1(6) by (cases F1) auto
    have po: "p \<notin> owned ?x1" using free_not_owned [OF s1(2)] F by auto
    have px: "p \<notin> owned ?x0" "p \<notin> set p1" using po by (cases w; auto simp: owned_def)+
    have "separated (rng s1 (us @ p1) @ (to, ?e) # rng s1 vs)" using sc True s1(3) r1 unfolding cut by simp
    then obtain s2 F2 where s2: "balloc_add_range w to ?e s1 = Some (Inr s2)" "nodes_ok s2 F2 (?x1(w := (us @ p1) @ p # vs))" "mbegin s2 p = to"
      "mend s2 p = ?e" "keeps s1 F1 ?x1 s2 F2 (?x1(w := (us @ p1) @ p # vs)) p" "length F2 = length F0"
      using add_free [of s1 p F0 ?x1 w "us @ p1" vs to ?e] s1(2) F by auto
    have "rng s2 p1 = rng s1 p1" by (rule rng_cong) (use s2(5) px(2) in \<open>auto simp: keeps_def\<close>)
    moreover have "\<forall>x. x \<in> owned ?x0 \<longrightarrow> mbegin s2 x = mbegin s x \<and> mend s2 x = mend s x"
      using s1(5) s2(5) px(1) by (auto simp: keeps_def)
    moreover have "held s2 F2 (xs(w := us @ (p1 @ [p]) @ vs)) q" using s2(5) s1(4) by (simp add: keeps_def)
    ultimately show ?thesis using True s2(1-4,6) s1(3) F by (intro ex3I [of _ s2 F2 "[p]"]) simp
  next
    case False
    then show ?thesis using s1 by (intro ex3I [of _ s1 F1 "[]"]) simp
  qed
  then obtain s2 F2 p2 where s2: "(if ?e > to then balloc_add_range w to ?e s1 else Some (Inr s1)) = Some (Inr s2)"
    "nodes_ok s2 F2 (xs(w := us @ (p1 @ p2) @ vs))" "rng s2 p2 = ?c2" "rng s2 p1 = ?c1" "held s2 F2 (xs(w := us @ (p1 @ p2) @ vs)) q"
    "\<forall>x. x \<in> owned ?x0 \<longrightarrow> mbegin s2 x = mbegin s x \<and> mend s2 x = mend s x" "length F2 + length p2 = length F1" by blast
  obtain s3 where s3: "balloc_free_node q s2 = Inr s3" "nodes_ok s3 (q # F2) (xs(w := us @ (p1 @ p2) @ vs))" "mbegin s3 = mbegin s2" "mend s3 = mend s2"
    using free_node_ok [OF s2(2,5)] by blast
  have q1: "mbegin s1 q = ?b" "mend s1 q = ?e" using s1(5) by auto
  have q0: "mbegin s0 q = ?b" using s0(4) by simp
  have run: "cut_node w q from to s = Some (Inr s3)"
    by (simp only: cut_node_def s0(1) bindP_simps q0 s1(1) q1 s2(1) s3(1))
  have "rng s3 (p1 @ p2) = cut from to (?b, ?e)" using s2(3,4) s3(3,4) unfolding cut by (simp add: rng_def)
  then show ?thesis using run s3 s2(6,7) s1(6)
    by (intro ex3I [of _ s3 "q # F2" "p1 @ p2"]) simp
qed

section \<open>Removing a range\<close>

lemma remove_loop_ok:
  assumes "nodes_ok s F xs" "xs w = us @ vs" "separated (rng s (xs w))" "from < to" "\<forall>q\<in>set vs. mend s q > from"
    and "length F \<ge> 2 \<or> (\<forall>q\<in>set vs. mbegin s q \<ge> to)"
  shows "\<exists>s' F' ys. remove_loop w from to (hd (vs @ [0])) s = Some (Inr s') \<and> nodes_ok s' F' (xs(w := us @ ys)) \<and>
    rng s' us = rng s us \<and> rng s' ys = remove_range from to (rng s vs) \<and>
    (\<forall>x. x \<in> owned (xs(w := [])) \<longrightarrow> mbegin s' x = mbegin s x \<and> mend s' x = mend s x) \<and> length F' + length ys = length F + length vs"
  using assms
proof (induction vs arbitrary: s F xs us)
  case Nil
  then show ?case by (subst remove_loop.simps) (intro exI [of _ s] exI [of _ F] exI [of _ "[]"], simp add: remove_range_def fun_upd_idem)
next
  case (Cons q vs)
  have od: "rb_order (tree_of w s) (us @ q # vs)" using tree_order [OF Cons(2), of w] Cons(3) by simp
  have q0: "q \<noteq> 0" using rb_order_nodes [OF od] by auto
  show ?case
  proof (cases "mbegin s q < to")
    case False
    have "fst r \<ge> to" if "r \<in> set (rng s (q # vs))" for r
    proof -
      have "mbegin s q \<le> fst r" using separated_sorted [OF Cons(4)] Cons(3) that by (auto simp: sorted_wrt_append intro: less_imp_le)
      then show ?thesis using False by (simp add: not_less)
    qed
    then have "remove_range from to (rng s (q # vs)) = rng s (q # vs)" by (intro remove_range_none) (simp add: not_less)
    then show ?thesis using Cons(2,3) False
      by (subst remove_loop.simps) (intro exI [of _ s] exI [of _ F] exI [of _ "q # vs"], simp add: fun_upd_idem)
  next
    case True
    let ?c = "cut from to (mbegin s q, mend s q)"
    have F: "length F \<ge> 2" using Cons(7) True by (auto simp: not_le)
    have "length ?c \<le> length F" using F by (simp add: cut_def)
    moreover have qe: "mend s q > from" using Cons(6) by simp
    ultimately obtain s1 F1 ps where s1: "cut_node w q from to s = Some (Inr s1)" "nodes_ok s1 F1 (xs(w := us @ ps @ vs))"
      "rng s1 ps = ?c" "\<And>x. x \<in> owned (xs(w := us @ vs)) \<Longrightarrow> mbegin s1 x = mbegin s x \<and> mend s1 x = mend s x"
      "length F1 + length ps = Suc (length F)"
      using cut_node_ok [OF Cons(2,3,4,5) _ True] by blast
    let ?x1 = "xs(w := (us @ ps) @ vs)"
    have ow: "set us \<subseteq> owned (xs(w := us @ vs))" "set vs \<subseteq> owned (xs(w := us @ vs))"
      using owned_tree [of "xs(w := us @ vs)" w] by auto
    have r1: "rng s1 us = rng s us" "rng s1 vs = rng s vs" using s1(4) ow by (auto intro!: rng_cong)
    have sp: "separated (rng s us @ (mbegin s q, mend s q) # rng s vs)" using Cons(3,4) by simp
    have sc: "separated (rng s1 (?x1 w))"
      using cut_separated(1) [OF sp Cons(5)] qe True r1 s1(3) by simp
    have e1: "\<forall>q\<in>set vs. mend s1 q > from" using Cons(6) s1(4) ow by auto
    have f1: "length F1 \<ge> 2 \<or> (\<forall>q\<in>set vs. mbegin s1 q \<ge> to)"
    proof (cases "length ps \<le> 1")
      case False
      then have "mend s q > to" using arg_cong [OF s1(3), of length] by (auto simp: cut_def split: if_splits)
      moreover have "mend s q < mbegin s x" if "x \<in> set vs" for x
        using sp that by (auto simp: separated_append separated_Cons rng_def)
      ultimately have "mbegin s1 x \<ge> to" if "x \<in> set vs" for x
        using that s1(4) ow less_trans [of to "mend s q" "mbegin s x"] by (auto intro: less_imp_le)
      then show ?thesis by blast
    qed (use s1(5) F in simp)
    obtain s2 F2 ys where s2: "remove_loop w from to (hd (vs @ [0])) s1 = Some (Inr s2)" "nodes_ok s2 F2 (?x1(w := (us @ ps) @ ys))"
      "rng s2 (us @ ps) = rng s1 (us @ ps)" "rng s2 ys = remove_range from to (rng s1 vs)"
      "\<forall>x. x \<in> owned (?x1(w := [])) \<longrightarrow> mbegin s2 x = mbegin s1 x \<and> mend s2 x = mend s1 x" "length F2 + length ys = length F1 + length vs"
    proof -
      have a: "nodes_ok s1 F1 ?x1" "?x1 w = (us @ ps) @ vs" using s1(2) by simp_all
      show thesis using Cons(1) [OF a sc Cons(5) e1 f1] that by blast
    qed
    have nx: "rb_next (tree_of w s) q = Some (Inr (hd (vs @ [0])))" by (rule order_neighbours(1) [OF od])
    have run: "remove_loop w from to (hd ((q # vs) @ [0])) s = Some (Inr s2)"
      using q0 True nx s1(1) s2(1) by (subst remove_loop.simps) simp
    have r2: "rng s2 us = rng s us" "rng s2 ps = ?c"
    proof -
      have "rng s2 us @ rng s2 ps = rng s1 us @ rng s1 ps" using s2(3) by simp
      then show "rng s2 us = rng s us" "rng s2 ps = ?c" using r1(1) s1(3) by simp_all
    qed
    have "mbegin s2 x = mbegin s x \<and> mend s2 x = mend s x" if "x \<in> owned (xs(w := []))" for x
    proof -
      have "x \<in> owned (xs(w := us @ vs))" using that by (cases w) (auto simp: owned_def)
      then show ?thesis using s1(4) [of x] s2(5) that by simp
    qed
    moreover have "nodes_ok s2 F2 (xs(w := us @ (ps @ ys)))" using s2(2) by simp
    ultimately show ?thesis using run s2(4,6) r2 r1(2) s1(5) qe True
      by (intro ex3I [of _ s2 F2 "ps @ ys"]) (simp add: fun_upd_def cong: if_cong)
  qed
qed

lemma ending_split:
  assumes "separated (rng s ps)"
  shows "\<exists>us vs. ps = us @ vs \<and> (\<forall>q\<in>set us. \<not> mend s q > from) \<and> filter (\<lambda>q. mend s q > from) ps = vs"
  using assms
proof (induction ps)
  case (Cons p ps)
  show ?case
  proof (cases "mend s p > from")
    case True
    have "mend s q > from" if "q \<in> set ps" for q
      using sorted_rng(2) [OF Cons(2)] that True less_trans by fastforce
    then show ?thesis using True by (intro exI [of _ "[]"] exI [of _ "p # ps"]) simp
  next
    case False
    obtain us vs where "ps = us @ vs" "\<forall>q\<in>set us. \<not> mend s q > from" "filter (\<lambda>q. mend s q > from) ps = vs"
      using Cons by (auto simp: separated_Cons)
    then show ?thesis using False by (intro exI [of _ "p # us"] exI [of _ vs]) simp
  qed
qed simp

lemma first_ending_ok:
  assumes "nodes_ok s F xs" "separated (rng s (xs w))"
  shows "first_ending s (tree_of w s) from (broot s w) 0 = Some (Inr (hd (filter (\<lambda>q. mend s q > from) (xs w) @ [0])))"
proof -
  obtain t where t: "is_tree (tree_of w s) t" "inorder t = xs w"
    using tree_order [OF assms(1), of w] unfolding rb_order_def by blast
  have "sorted_wrt (\<lambda>x y. mend s x > from \<longrightarrow> mend s y > from) (inorder t)"
    unfolding t(2) by (rule sorted_wrt_mono_rel [OF _ sorted_rng(2) [OF assms(2)]]) (rule impI, erule (1) less_trans)
  moreover have r: "broot s w = tip t" and "tree_at (nodes (tree_of w s)) 0 t" using t(1) by (auto simp: is_tree_def)
  ultimately show ?thesis unfolding r t(2) [symmetric] by (intro first_ending_at)
qed

lemma remove_range_run:
  assumes "nodes_ok s F xs" "separated (rng s (xs w))" "from < to" "length F \<ge> 2"
  shows "\<exists>s' F' ys. balloc_remove_range w from to s = Some (Inr s') \<and> nodes_ok s' F' (xs(w := ys)) \<and>
    rng s' ys = remove_range from to (rng s (xs w)) \<and>
    (\<forall>x. x \<in> owned (xs(w := [])) \<longrightarrow> mbegin s' x = mbegin s x \<and> mend s' x = mend s x) \<and> length F' + length ys = length F + length (xs w)"
proof -
  obtain us vs where sp: "xs w = us @ vs" "\<forall>q\<in>set us. \<not> mend s q > from" "filter (\<lambda>q. mend s q > from) (xs w) = vs"
    using ending_split [OF assms(2)] by blast
  have ev: "\<forall>q\<in>set vs. mend s q > from" using sp(3) by auto
  have "length F \<ge> 2 \<or> (\<forall>q\<in>set vs. mbegin s q \<ge> to)" using assms(4) by simp
  from remove_loop_ok [OF assms(1) sp(1) assms(2,3) ev this]
  obtain s' F' ys where s': "remove_loop w from to (hd (vs @ [0])) s = Some (Inr s')" "nodes_ok s' F' (xs(w := us @ ys))"
    "rng s' us = rng s us" "rng s' ys = remove_range from to (rng s vs)"
    "\<forall>x. x \<in> owned (xs(w := [])) \<longrightarrow> mbegin s' x = mbegin s x \<and> mend s' x = mend s x" "length F' + length ys = length F + length vs"
    by blast
  have "remove_range from to (rng s us) = rng s us" by (rule remove_range_none) (use sp(2) in \<open>auto simp: rng_def\<close>)
  then have "rng s' (us @ ys) = remove_range from to (rng s (xs w))" using s'(3,4) sp(1) by simp
  moreover have "balloc_remove_range w from to s = Some (Inr s')"
    using s'(1) first_ending_ok [OF assms(1,2), of "from"] sp(3) by (simp add: balloc_remove_range_def)
  ultimately show ?thesis using s'(2,5,6) sp(1) by (intro exI [of _ s'] exI [of _ F'] exI [of _ "us @ ys"]) simp
qed

end
