(* ===== verification/Balloc_Alloc.thy ===== *)
theory Balloc_Alloc
  imports Balloc_Ops
begin

unbundle bit_operations_syntax

text \<open>
  Allocation: the first range with room behind \<open>from\<close> is cut, and when the code finds none there is none.
\<close>

section \<open>Rounding up\<close>

lemma and_not_split: "(x AND NOT m) + (x AND m) = (x :: u64)"
proof -
  have "(x AND NOT m) + (x AND m) = (x AND NOT m) OR (x AND m)"
    by (rule disjunctive_add) (auto simp: bit_and_iff bit_not_iff)
  also have "\<dots> = x" by (rule bit_eqI) (auto simp: bit_and_iff bit_or_iff bit_not_iff)
  finally show ?thesis .
qed

lemma round_up:
  fixes b m :: u64
  assumes "unat b + unat m < 2 ^ 64"
  shows "b \<le> (b + m) AND NOT m" "((b + m) AND NOT m) AND m = 0" "unat ((b + m) AND NOT m) \<le> unat b + unat m"
proof -
  let ?r = "(b + m) AND NOT m"
  have s: "unat (b + m) = unat b + unat m" using assms by (simp add: unat_word_ariths)
  have "unat ?r \<le> unat (b + m)" using word_and_le2 [of "b + m" "NOT m"] by (simp add: word_le_nat_alt)
  then show ub: "unat ?r \<le> unat b + unat m" using s by simp
  have le: "unat ((b + m) AND m) \<le> unat m" using word_and_le1 [of "b + m" m] by (simp add: word_le_nat_alt)
  have "?r = (b + m) - ((b + m) AND m)" using and_not_split [of "b + m" m] by (metis add_diff_cancel_right')
  moreover have "(b + m) AND m \<le> b + m" by (rule word_and_le2)
  ultimately have "unat ?r = unat (b + m) - unat ((b + m) AND m)" by (simp add: unat_sub)
  then have "unat b \<le> unat ?r" using le s by simp
  then show "b \<le> ?r" by (simp add: word_le_nat_alt)
  show "?r AND m = 0" by (rule bit_eqI) (simp add: bit_and_iff bit_not_iff)
qed

lemma round_up_least:
  assumes "unat b + unat (mask k :: u64) < 2 ^ 64" "a AND mask k = 0" "b \<le> a"
  shows "(b + mask k) AND NOT (mask k) \<le> (a :: u64)"
proof -
  let ?x = "b + mask k"
  have s: "unat ?x = unat b + unat (mask k :: u64)" using assms(1) by (simp add: unat_word_ariths)
  have t: "unat (x AND mask k) = unat x mod 2 ^ k" for x :: u64
    by (simp only: take_bit_eq_mask [symmetric] unsigned_take_bit_eq take_bit_nat_def)
  have "unat (mask k AND mask k :: u64) < 2 ^ k" unfolding t by simp
  then have m: "unat (mask k :: u64) < 2 ^ k" by simp
  have am: "unat a mod 2 ^ k = 0" using t [of a] assms(2) by simp
  have "?x AND NOT (mask k) = ?x - (?x AND mask k)" using and_not_split [of ?x "mask k"] by (metis add_diff_cancel_right')
  moreover have "?x AND mask k \<le> ?x" by (rule word_and_le2)
  ultimately have r: "unat (?x AND NOT (mask k)) = unat ?x - unat ?x mod 2 ^ k" by (simp add: unat_sub t)
  then have r: "unat (?x AND NOT (mask k)) = unat ?x div 2 ^ k * 2 ^ k" by (simp add: minus_mod_eq_div_mult)
  have "unat ?x < unat a + 2 ^ k" using assms(3) s m by (simp add: word_le_nat_alt)
  also have "unat a + 2 ^ k = (unat a div 2 ^ k + 1) * 2 ^ k" using am by (simp add: mult.commute flip: dvd_eq_mod_eq_0)
  finally have "unat ?x div 2 ^ k < unat a div 2 ^ k + 1" by (simp only: div_less_iff_less_mult zero_less_power zero_less_numeral)
  then have "unat ?x div 2 ^ k * 2 ^ k \<le> unat a div 2 ^ k * 2 ^ k" by simp
  also have "\<dots> \<le> unat a" by simp
  finally show ?thesis using r by (simp add: word_le_nat_alt)
qed


section \<open>The first range with room\<close>

definition fits :: "u64 \<Rightarrow> u64 \<Rightarrow> u64 \<Rightarrow> u64 \<Rightarrow> range \<Rightarrow> bool" where
  "fits sz align from to r \<longleftrightarrow> fst r < to \<and> fit_addr align from (fst r) + sz \<le> (if snd r < to then snd r else to)"

fun alloc_range :: "u64 \<Rightarrow> u64 \<Rightarrow> u64 \<Rightarrow> u64 \<Rightarrow> range list \<Rightarrow> (u64 \<times> range list) option" where
  "alloc_range sz align from to [] = None"
| "alloc_range sz align from to (r # rs) =
     (if snd r > from \<and> fits sz align from to r
      then let a = fit_addr align from (fst r) in Some (a, cut a (a + sz) r @ rs)
      else map_option (\<lambda>(a, rs). (a, r # rs)) (alloc_range sz align from to rs))"

text \<open>No address that is tried wraps around.\<close>

definition no_wrap :: "u64 \<Rightarrow> u64 \<Rightarrow> u64 \<Rightarrow> u64 \<Rightarrow> bool" where
  "no_wrap sz align from to \<longleftrightarrow> 0 < sz \<and> from < to \<and> unat to + unat (align - 1) + unat sz < 2 ^ 64"

lemma fit_addr_ok:
  assumes "no_wrap sz align from to" "b < to"
  shows "b \<le> fit_addr align from b" "from \<le> fit_addr align from b" "fit_addr align from b AND (align - 1) = 0"
    "fit_addr align from b < fit_addr align from b + sz"
proof -
  let ?b = "if b > from then b else from" and ?m = "align - 1"
  have bt: "unat ?b < unat to" "0 < unat sz" using assms by (auto simp: no_wrap_def word_less_nat_alt)
  have nw: "unat to + unat ?m + unat sz < 2 ^ 64" using assms(1) by (simp add: no_wrap_def)
  then have "unat ?b + unat ?m < 2 ^ 64" using bt by simp
  note r = round_up [OF this]
  have e: "fit_addr align from b = (?b + ?m) AND NOT ?m" by (simp add: fit_addr_def Let_def)
  have "b \<le> ?b" "from \<le> ?b" by (auto simp: not_less)
  then show "b \<le> fit_addr align from b" "from \<le> fit_addr align from b" using r(1) unfolding e by (blast intro: order_trans)+
  show "fit_addr align from b AND (align - 1) = 0" using r(2) unfolding e .
  have "unat (fit_addr align from b) + unat sz < 2 ^ 64" using r(3) bt nw unfolding e by linarith
  then have "unat (fit_addr align from b + sz) = unat (fit_addr align from b) + unat sz" by (simp add: unat_word_ariths)
  then show "fit_addr align from b < fit_addr align from b + sz" using bt(2) by (simp add: word_less_nat_alt)
qed

lemma fits_inside:
  assumes "no_wrap sz align from to" "fits sz align from to r" "a = fit_addr align from (fst r)"
  shows "fst r \<le> a" "from \<le> a" "a < a + sz" "a + sz \<le> snd r" "a + sz \<le> to" "a AND (align - 1) = 0"
proof -
  have "fst r < to" "a + sz \<le> (if snd r < to then snd r else to)" using assms(2,3) by (auto simp: fits_def)
  then show "fst r \<le> a" "from \<le> a" "a < a + sz" "a AND (align - 1) = 0" "a + sz \<le> snd r" "a + sz \<le> to"
    using fit_addr_ok [OF assms(1), of "fst r"] assms(3) by (auto simp: not_less split: if_splits)
qed

lemma alloc_range_ok:
  assumes "separated rs" "no_wrap sz align from to" "alloc_range sz align from to rs = Some (a, rs')"
  shows "separated rs' \<and> cover rs' = cover rs - {a..<a + sz} \<and> {a..<a + sz} \<subseteq> cover rs \<and> from \<le> a \<and> a < a + sz \<and> a + sz \<le> to \<and>
    a AND (align - 1) = 0 \<and> (\<forall>q\<in>set rs'. \<exists>r\<in>set rs. fst r \<le> fst q)"
  using assms(1,3)
proof (induction rs arbitrary: rs')
  case (Cons r rs)
  have dj: "snd r < fst q" if "q \<in> set rs" for q using Cons(2) that by (simp add: separated_Cons)
  show ?case
  proof (cases "snd r > from \<and> fits sz align from to r")
    case True
    then have a: "a = fit_addr align from (fst r)" "rs' = cut a (a + sz) r @ rs" using Cons(3) by (auto simp: Let_def)
    have f: "fst r \<le> a" "from \<le> a" "a < a + sz" "a + sz \<le> snd r" "a + sz \<le> to" "a AND (align - 1) = 0"
      using fits_inside [OF assms(2) _ a(1)] True by auto
    have ar: "a < snd r" "fst r < a + sz" using f by (blast intro: less_le_trans le_less_trans)+
    have c: "separated (cut a (a + sz) r @ rs)" "cover (cut a (a + sz) r) = {fst r..<snd r} - {a..<a + sz}"
      using cut_separated [of "[]" r rs, OF _ f(3)] Cons(2) ar by auto
    have out: "x \<notin> {a..<a + sz}" if x: "x \<in> cover rs" for x
    proof -
      obtain q where "q \<in> set rs" "fst q \<le> x" using x by (auto simp: cover_def)
      then have "a + sz < x" using dj f(4) by (meson le_less_trans less_le_trans)
      then show ?thesis by auto
    qed
    have "{a..<a + sz} \<subseteq> {fst r..<snd r}" using f(1,4) by auto
    moreover have "cover rs' = cover (r # rs) - {a..<a + sz}" using c(2) out unfolding a(2) by auto
    moreover have "\<forall>q\<in>set rs'. \<exists>r\<in>set (r # rs). fst r \<le> fst q"
    proof
      fix q assume "q \<in> set rs'"
      moreover have "\<forall>q\<in>set (cut a (a + sz) r). fst r \<le> fst q" using ar(2) by (auto simp: cut_def intro: less_imp_le)
      ultimately show "\<exists>r\<in>set (r # rs). fst r \<le> fst q" unfolding a(2) by auto
    qed
    ultimately show ?thesis using c(1) f a(2) by auto
  next
    case False
    then obtain rs1 where r1: "alloc_range sz align from to rs = Some (a, rs1)" "rs' = r # rs1"
      using Cons(3) by (auto simp: Let_def)
    have ih: "separated rs1" "cover rs1 = cover rs - {a..<a + sz}" "{a..<a + sz} \<subseteq> cover rs" "from \<le> a" "a < a + sz" "a + sz \<le> to"
      "a AND (align - 1) = 0" "\<forall>q\<in>set rs1. \<exists>r\<in>set rs. fst r \<le> fst q"
      using Cons(1) [OF _ r1(1)] Cons(2) by (auto simp: separated_Cons)
    have "snd r < fst q" if q: "q \<in> set rs1" for q
    proof -
      obtain r' where "r' \<in> set rs" "fst r' \<le> fst q" using ih(8) q by blast
      then show ?thesis using dj less_le_trans by blast
    qed
    then have "separated rs'" using ih(1) Cons(2) by (simp add: r1(2) separated_Cons)
    moreover have "{fst r..<snd r} \<inter> cover rs = {}"
    proof -
      have "snd r < x" if x: "x \<in> cover rs" for x
      proof -
        obtain q where "q \<in> set rs" "fst q \<le> x" using x by (auto simp: cover_def)
        then show ?thesis using dj less_le_trans by blast
      qed
      then show ?thesis by force
    qed
    then have "cover rs' = cover (r # rs) - {a..<a + sz}" using ih(2,3) by (auto simp: r1(2))
    ultimately show ?thesis using ih r1(2) by auto
  qed
qed simp


lemma separated_apart:
  assumes "separated rs" "r \<in> set rs" "r' \<in> set rs"
  shows "r = r' \<or> snd r < fst r' \<or> snd r' < fst r"
  using assms by (induction rs) (auto simp: separated_Cons)

lemma interval_in_range:
  assumes "separated rs" "{a..<e} \<subseteq> cover rs" "a < e"
  shows "\<exists>r\<in>set rs. fst r \<le> a \<and> e \<le> snd r"
proof -
  have "a \<in> cover rs" using assms(2,3) by auto
  then obtain r where r: "r \<in> set rs" "fst r \<le> a" "a < snd r" by (auto simp: cover_def)
  have "e \<le> snd r"
  proof (rule ccontr)
    assume "\<not> e \<le> snd r"
    then have "snd r \<in> {a..<e}" using r(3) by auto
    then obtain r' where r': "r' \<in> set rs" "fst r' \<le> snd r" "snd r < snd r'" using assms(2) by (auto simp: cover_def)
    have "fst r < snd r" using r(2,3) by (rule le_less_trans)
    then have "\<not> snd r' < fst r" using r'(3) by (meson less_asym less_trans)
    moreover have "r \<noteq> r'" "\<not> snd r < fst r'" using r'(2,3) by auto
    ultimately show False using separated_apart [OF assms(1) r(1) r'(1)] by blast
  qed
  then show ?thesis using r(1,2) by blast
qed

lemma alloc_range_length: "alloc_range sz align from to rs = Some (a, rs') \<Longrightarrow> length rs' \<le> Suc (length rs)"
  by (induction rs arbitrary: rs') (auto simp: Let_def cut_def split: if_splits)

lemma alloc_range_None: "alloc_range sz align from to rs = None \<longleftrightarrow> (\<forall>r\<in>set rs. \<not> (snd r > from \<and> fits sz align from to r))"
  by (induction rs) (auto simp: Let_def)

text \<open>A range with room for an aligned block is one the code takes, and the address it takes is not above that of the block.\<close>

lemma fitting:
  assumes "no_wrap sz align from to" "align - 1 = mask k" "fst r \<le> a" "a + sz \<le> snd r"
    and "from \<le> a" "a AND (align - 1) = 0" "a < a + sz" "a + sz \<le> to"
  shows "fit_addr align from (fst r) \<le> a" "fits sz align from to r" "from < snd r"
proof -
  let ?b = "if fst r > from then fst r else from"
  have bt: "?b \<le> a" using assms(3,5) by simp
  have at: "a < to" using assms(7,8) by (rule less_le_trans)
  then have "unat ?b < unat to" using bt by (simp add: word_less_nat_alt [symmetric] le_less_trans)
  then have "unat ?b + unat (mask k :: u64) < 2 ^ 64" using assms(1) unfolding no_wrap_def assms(2) by linarith
  then show fa: "fit_addr align from (fst r) \<le> a"
    using round_up_least [OF _ assms(6) [unfolded assms(2)] bt] assms(2) by (simp add: fit_addr_def Let_def)
  have "unat a + unat sz < 2 ^ 64"
    using assms(1) at unfolding no_wrap_def by (simp add: word_less_nat_alt)
  then have "fit_addr align from (fst r) + sz \<le> a + sz"
    using fa by (simp add: word_le_nat_alt unat_word_ariths)
  then show "fits sz align from to r" using assms(3,4) at assms(8) by (auto simp: fits_def intro: order_trans le_less_trans)
  show "from < snd r" using assms(4,5,7) by (meson le_less_trans less_le_trans)
qed

lemma alloc_range_fails:
  assumes "separated rs" "no_wrap sz align from to" "align - 1 = mask k" "alloc_range sz align from to rs = None"
    and "from \<le> a" "a AND (align - 1) = 0" "a < a + sz" "a + sz \<le> to"
  shows "\<not> {a..<a + sz} \<subseteq> cover rs"
proof
  assume "{a..<a + sz} \<subseteq> cover rs"
  then obtain r where r: "r \<in> set rs" "fst r \<le> a" "a + sz \<le> snd r" using interval_in_range [OF assms(1) _ assms(7)] by blast
  from fitting [OF assms(2,3) r(2,3) assms(5-8)] show False using assms(4) r(1) unfolding alloc_range_None by blast
qed

lemma alloc_range_least:
  assumes "separated rs" "no_wrap sz align from to" "align - 1 = mask k" "alloc_range sz align from to rs = Some (a, rs')"
    and "from \<le> x" "x AND (align - 1) = 0" "x < x + sz" "x + sz \<le> to" "{x..<x + sz} \<subseteq> cover rs"
  shows "a \<le> x"
  using assms(1,4,9)
proof (induction rs arbitrary: rs')
  case (Cons r rs)
  obtain r' where r': "r' \<in> set (r # rs)" "fst r' \<le> x" "x + sz \<le> snd r'" using interval_in_range [OF Cons(2,4) assms(7)] by blast
  note f = fitting [OF assms(2,3) r'(2,3) assms(5-8)]
  show ?case
  proof (cases "snd r > from \<and> fits sz align from to r")
    case True
    then have a: "a = fit_addr align from (fst r)" using Cons(3) by (auto simp: Let_def)
    show ?thesis
    proof (cases "r' = r")
      case False
      then have "snd r < fst r'" using Cons(2) r'(1) by (auto simp: separated_Cons)
      moreover have "a < a + sz" "a + sz \<le> snd r" using fits_inside [OF assms(2) _ a] True by simp_all
      ultimately show ?thesis using r'(2) by (meson le_less_trans less_le_trans less_imp_le)
    qed (use f(1) a in simp)
  next
    case False
    then obtain rs1 where r1: "alloc_range sz align from to rs = Some (a, rs1)" using Cons(3) by (auto simp: Let_def)
    have rs: "r' \<in> set rs" using r'(1) f False by auto
    have "{x..<x + sz} \<subseteq> cover rs" 
    proof (intro subsetI)
      fix y assume "y \<in> {x..<x + sz}"
      then have "y \<in> {fst r'..<snd r'}" using r'(2,3) by auto
      then show "y \<in> cover rs" using rs by (auto simp: cover_def)
    qed
    then show ?thesis using Cons(1) [OF _ r1] Cons(2) by (simp add: separated_Cons)
  qed
qed simp

section \<open>The loop\<close>

lemma alloc_loop_ok:
  assumes "nodes_ok s F xs" "xs FreeRanges = us @ vs" "separated (rng s (xs FreeRanges))" "\<forall>q\<in>set vs. mend s q > from" "length F \<ge> 2"
    and "no_wrap sz align from to"
  shows "case alloc_range sz align from to (rng s vs) of
      None \<Rightarrow> alloc_loop sz align from to (hd (vs @ [0])) s = Some (Inr (to, s))
    | Some (a, rs) \<Rightarrow> \<exists>s' F' ys. alloc_loop sz align from to (hd (vs @ [0])) s = Some (Inr (a, s')) \<and> nodes_ok s' F' (xs(FreeRanges := us @ ys)) \<and>
        rng s' us = rng s us \<and> rng s' ys = rs \<and>
        (\<forall>x. x \<in> owned (xs(FreeRanges := [])) \<longrightarrow> mbegin s' x = mbegin s x \<and> mend s' x = mend s x) \<and>
        length F' + length ys = length F + length vs"
  using assms
proof (induction vs arbitrary: us)
  case Nil
  then show ?case by (subst alloc_loop.simps) simp
next
  case (Cons q vs)
  have od: "rb_order (tree_of FreeRanges s) (us @ q # vs)" using tree_order [OF Cons(2), of FreeRanges] Cons(3) by simp
  have q0: "q \<noteq> 0" using rb_order_nodes [OF od] by auto
  have qe: "mend s q > from" using Cons(5) by simp
  let ?r = "(mbegin s q, mend s q)" and ?a = "fit_addr align from (mbegin s q)"
  have sp: "separated (rng s us @ ?r # rng s vs)" using Cons(3,4) by simp
  show ?case
  proof (cases "fits sz align from to ?r")
    case True
    have f: "mbegin s q \<le> ?a" "?a < ?a + sz" "?a + sz \<le> mend s q" using fits_inside [OF Cons(7) True refl] by simp_all
    have ar: "?a < mend s q" "mbegin s q < ?a + sz" using f by (blast intro: less_le_trans le_less_trans)+
    have "length (cut ?a (?a + sz) ?r) \<le> length F" using Cons(6) by (simp add: cut_def)
    from cut_node_ok [OF Cons(2,3,4) f(2) ar this]
    obtain s1 F1 ps where s1: "cut_node FreeRanges q ?a (?a + sz) s = Some (Inr s1)" "nodes_ok s1 F1 (xs(FreeRanges := us @ ps @ vs))"
      "rng s1 ps = cut ?a (?a + sz) ?r" "\<forall>x. x \<in> owned (xs(FreeRanges := us @ vs)) \<longrightarrow> mbegin s1 x = mbegin s x \<and> mend s1 x = mend s x"
      "length F1 + length ps = Suc (length F)" by blast
    have ow: "set us \<subseteq> owned (xs(FreeRanges := us @ vs))" "set vs \<subseteq> owned (xs(FreeRanges := us @ vs))"
      "owned (xs(FreeRanges := [])) \<subseteq> owned (xs(FreeRanges := us @ vs))" by (auto simp: owned_def)
    have r1: "rng s1 us = rng s us" "rng s1 vs = rng s vs" using s1(4) ow by (auto intro!: rng_cong)
    have le: "?a + sz \<le> (if mend s q < to then mend s q else to)" "mbegin s q < to"
      using True by (simp_all only: fits_def fst_conv snd_conv)
    have "alloc_loop sz align from to q s = Some (Inr (?a, s1))"
      by (subst alloc_loop.simps) (simp only: Let_def le q0 s1(1) if_True simp_thms bindP_simps)
    moreover have "alloc_range sz align from to (rng s (q # vs)) = Some (?a, cut ?a (?a + sz) ?r @ rng s vs)"
      using True qe by (simp add: Let_def)
    moreover have "\<forall>x. x \<in> owned (xs(FreeRanges := [])) \<longrightarrow> mbegin s1 x = mbegin s x \<and> mend s1 x = mend s x"
      using s1(4) ow(3) by blast
    moreover have "rng s1 (ps @ vs) = cut ?a (?a + sz) ?r @ rng s vs" using s1(3) r1(2) by simp
    moreover have "length F1 + length (ps @ vs) = length F + length (q # vs)" using s1(5) by simp
    ultimately show ?thesis using s1(2) r1(1) by (simp only: option.case prod.case list.sel append_Cons) (intro ex3I [of _ s1 F1 "ps @ vs"] conjI refl)
  next
    case False
    have nx: "rb_next (tree_of FreeRanges s) q = Some (Inr (hd (vs @ [0])))" by (rule order_neighbours(1) [OF od])
    have step: "alloc_loop sz align from to q s = (if mbegin s q < to then alloc_loop sz align from to (hd (vs @ [0])) s else Some (Inr (to, s)))"
    proof (cases "mbegin s q < to")
      case True
      then have nf: "\<not> ?a + sz \<le> (if mend s q < to then mend s q else to)" using False by (simp only: fits_def fst_conv snd_conv simp_thms)
      show ?thesis by (subst alloc_loop.simps) (simp only: Let_def nf q0 True nx if_True if_False simp_thms bindP_simps)
    qed (subst alloc_loop.simps, simp)
    have ih: "case alloc_range sz align from to (rng s vs) of
      None \<Rightarrow> alloc_loop sz align from to (hd (vs @ [0])) s = Some (Inr (to, s))
    | Some (a, rs) \<Rightarrow> \<exists>s' F' ys. alloc_loop sz align from to (hd (vs @ [0])) s = Some (Inr (a, s')) \<and> nodes_ok s' F' (xs(FreeRanges := (us @ [q]) @ ys)) \<and>
        rng s' (us @ [q]) = rng s (us @ [q]) \<and> rng s' ys = rs \<and>
        (\<forall>x. x \<in> owned (xs(FreeRanges := [])) \<longrightarrow> mbegin s' x = mbegin s x \<and> mend s' x = mend s x) \<and>
        length F' + length ys = length F + length vs"
      by (rule Cons(1)) (use Cons(2-) in auto)
    show ?thesis
    proof (cases "alloc_range sz align from to (rng s vs)")
      case None
      then show ?thesis using ih step False by simp
    next
      case (Some p)
      obtain a rs where p: "p = (a, rs)" by fastforce
      obtain s' F' ys where s': "alloc_loop sz align from to (hd (vs @ [0])) s = Some (Inr (a, s'))"
        "nodes_ok s' F' (xs(FreeRanges := (us @ [q]) @ ys))" "rng s' (us @ [q]) = rng s (us @ [q])" "rng s' ys = rs"
        "\<forall>x. x \<in> owned (xs(FreeRanges := [])) \<longrightarrow> mbegin s' x = mbegin s x \<and> mend s' x = mend s x"
        "length F' + length ys = length F + length vs" using ih unfolding Some p by auto
      have "mbegin s q < to"
      proof (rule ccontr)
        assume n: "\<not> mbegin s q < to"
        have "\<not> fits sz align from to r" if r: "r \<in> set (rng s vs)" for r
        proof -
          have "mend s q < fst r" "mbegin s q < mend s q" using sp r by (auto simp: separated_append separated_Cons)
          then have "\<not> fst r < to" using n by (meson less_trans)
          then show ?thesis by (simp add: fits_def)
        qed
        then show False using Some alloc_range_None [of sz align "from" to "rng s vs"] by auto
      qed
      then have "alloc_loop sz align from to q s = Some (Inr (a, s'))" using step s'(1) by simp
      moreover have "alloc_range sz align from to (rng s (q # vs)) = Some (a, ?r # rs)" using False Some p by simp
      moreover have "rng s' us = rng s us" "rng s' (q # ys) = ?r # rs"
      proof -
        have "rng s' us @ rng s' [q] = rng s us @ rng s [q]" using s'(3) by simp
        then show "rng s' us = rng s us" "rng s' (q # ys) = ?r # rs" using s'(4) by (simp_all add: append_eq_append_conv)
      qed
      moreover have "nodes_ok s' F' (xs(FreeRanges := us @ (q # ys)))" using s'(2) by simp
      moreover have "length F' + length (q # ys) = length F + length (q # vs)" using s'(6) by simp
      ultimately show ?thesis using s'(5) by (simp only: option.case prod.case list.sel append_Cons) (intro ex3I [of _ s' F' "q # ys"] conjI refl)
    qed
  qed
qed

end
