(* ===== verification/Balloc_Rep.thy ===== *)
theory Balloc_Rep
  imports Balloc_Alloc
begin

text \<open>
  The abstract view of the state of \<open>balloc.c\<close>: how many nodes are free and which ranges the two trees hold, and
  the operations on it.
\<close>

section \<open>The abstract view\<close>

definition balloc_rep :: "balloc \<Rightarrow> nat \<Rightarrow> (tree_id \<Rightarrow> range list) \<Rightarrow> bool" where
  "balloc_rep s n rs \<longleftrightarrow> (\<exists>F xs. nodes_ok s F xs \<and> length F = n \<and> (\<forall>w. rng s (xs w) = rs w \<and> separated (rs w)))"

lemma other_rng:
  assumes "\<forall>x. x \<in> owned (xs(w := [])) \<longrightarrow> mbegin s' x = mbegin s x \<and> mend s' x = mend s x" "v \<noteq> w"
  shows "rng s' (xs v) = rng s (xs v)"
proof (rule rng_cong)
  fix p assume "p \<in> set (xs v)"
  then have "p \<in> owned (xs(w := []))" using assms(2) by (cases v; cases w) (auto simp: owned_def)
  then show "mbegin s' p = mbegin s p \<and> mend s' p = mend s p" using assms(1) by blast
qed

lemma kept_rng:
  assumes "keeps s F xs s' F' xs' p" "p \<notin> owned xs"
  shows "rng s' (xs v) = rng s (xs v)"
proof (rule rng_cong)
  fix q assume "q \<in> set (xs v)"
  then have "q \<noteq> p" using assms(2) owned_tree [of xs v] by blast
  then show "mbegin s' q = mbegin s q \<and> mend s' q = mend s q" using assms(1) by (simp add: keeps_def)
qed

lemma balloc_repI:
  assumes "nodes_ok s' F' (xs(w := ys))" "rng s' ys = r" "separated r" "\<And>v. v \<noteq> w \<Longrightarrow> rng s' (xs v) = rs v \<and> separated (rs v)"
  shows "balloc_rep s' (length F') (rs(w := r))"
  unfolding balloc_rep_def using assms by (intro exI [of _ F'] exI [of _ "xs(w := ys)"]) simp

section \<open>Set-up\<close>

lemma free_nodes_ok:
  assumes "nodes_ok s F (\<lambda>_. [])" "distinct (map (balloc_node base) is @ F)"
    and "\<forall>i\<in>set is. ptr (balloc_node base i) \<and> MNode (balloc_node base i) \<in> dom (blist s)"
  shows "\<exists>s'. free_nodes base is s = Inr s' \<and> nodes_ok s' (rev (map (balloc_node base) is) @ F) (\<lambda>_. [])"
  using assms
proof (induction "is" arbitrary: s F)
  case (Cons i "is")
  have "held s F (\<lambda>_. []) (balloc_node base i)" using Cons(3,4) by (auto simp: held_def owned_def)
  then obtain s1 where s1: "balloc_free_node (balloc_node base i) s = Inr s1" "nodes_ok s1 (balloc_node base i # F) (\<lambda>_. [])"
    "\<forall>q. q \<noteq> balloc_node base i \<longrightarrow> held s F (\<lambda>_. []) q \<longrightarrow> held s1 (balloc_node base i # F) (\<lambda>_. []) q"
    using free_node_ok [OF Cons(2)] by blast
  have "\<forall>j\<in>set is. ptr (balloc_node base j) \<and> MNode (balloc_node base j) \<in> dom (blist s1)"
  proof
    fix j assume j: "j \<in> set is"
    then have "balloc_node base j \<in> balloc_node base ` set is" by (rule imageI)
    moreover have "balloc_node base i \<notin> balloc_node base ` set is" using Cons(3) by simp
    ultimately have ne: "balloc_node base j \<noteq> balloc_node base i" by metis
    then have "balloc_node base j \<noteq> balloc_node base i" "held s F (\<lambda>_. []) (balloc_node base j)"
      using Cons(3,4) j ne by (auto simp: held_def owned_def)
    then show "ptr (balloc_node base j) \<and> MNode (balloc_node base j) \<in> dom (blist s1)" using s1(3) by (auto simp: held_def)
  qed
  then show ?case using Cons(1) [OF s1(2)] Cons(3) s1(1) by auto
qed simp

lemma balloc_node_ok:
  assumes "ptr base" "unat base + 40 * BALLOC_MAX_RANGES \<le> 2 ^ 64" "i < BALLOC_MAX_RANGES"
  shows "unat (balloc_node base i) = unat base + 40 * i" "ptr (balloc_node base i)"
proof -
  show u: "unat (balloc_node base i) = unat base + 40 * i"
    using assms(2,3) by (simp add: balloc_node_def BALLOC_MAX_RANGES_def unat_word_ariths unat_of_nat)
  have b: "bit w 0 \<longleftrightarrow> odd (unat w)" for w :: u64 using bit_unsigned_iff [of w 0, where 'a = nat] by (simp add: bit_0 possible_bit_def)
  have "even (unat base)" "0 < unat base" using assms(1) by (auto simp: ptr_def b unat_gt_0)
  then have "even (unat (balloc_node base i))" "0 < unat (balloc_node base i)" using u by simp_all
  then show "ptr (balloc_node base i)" by (auto simp: ptr_def b unat_gt_0)
qed

lemma balloc_setup_nodes_ok:
  assumes "ptr base" "unat base + 40 * BALLOC_MAX_RANGES \<le> 2 ^ 64" "\<And>w. broot s w = 0"
    and "FreeHead \<in> dom (blist s)" "\<And>i. i < BALLOC_MAX_RANGES \<Longrightarrow> MNode (balloc_node base i) \<in> dom (blist s)"
  shows "\<exists>s'. balloc_setup_nodes base s = Inr s' \<and> balloc_rep s' BALLOC_MAX_RANGES (\<lambda>_. [])"
proof -
  obtain l where l: "list_init FreeHead (blist s) = Inr l" "dlist l FreeHead []" "dom l = dom (blist s)"
    using list_init_dlist [OF assms(4)] by blast
  have ok: "nodes_ok (s\<lparr>blist := l\<rparr>) [] (\<lambda>_. [])"
    using l(2) assms(3) by (auto simp: nodes_ok_def owned_def tree_of_def intro!: rb_order_empty)
  let ?is = "[0..<BALLOC_MAX_RANGES]"
  have "inj_on (balloc_node base) {0..<BALLOC_MAX_RANGES}"
    using balloc_node_ok(1) [OF assms(1,2)] by (intro inj_onI) (metis atLeastLessThan_iff add_left_cancel mult_left_cancel zero_neq_numeral)
  then have "distinct (map (balloc_node base) ?is @ [])" by (simp add: distinct_map)
  moreover have "\<forall>i\<in>set ?is. ptr (balloc_node base i) \<and> MNode (balloc_node base i) \<in> dom (blist (s\<lparr>blist := l\<rparr>))"
    using balloc_node_ok(2) [OF assms(1,2)] assms(5) l(3) by auto
  ultimately obtain s' where "free_nodes base ?is (s\<lparr>blist := l\<rparr>) = Inr s'" "nodes_ok s' (rev (map (balloc_node base) ?is)) (\<lambda>_. [])"
    using free_nodes_ok [OF ok, of base ?is] by auto
  then show ?thesis using l(1) unfolding balloc_rep_def
    by (intro exI [of _ s']) (auto simp: balloc_setup_nodes_def intro!: exI [of _ "rev (map (balloc_node base) ?is)"] exI [of _ "\<lambda>_. []"])
qed

section \<open>The operations\<close>

lemma add_refines:
  assumes "balloc_rep s n rs" "from < to"
  shows "if n = 0 then balloc_add_range w from to s = Some (Inl Bug)
    else \<exists>s' n'. balloc_add_range w from to s = Some (Inr s') \<and> balloc_rep s' n' (rs(w := add_range (from, to) (rs w))) \<and>
      n' + length (add_range (from, to) (rs w)) = n + length (rs w)"
proof -
  obtain F xs where r: "nodes_ok s F xs" "length F = n" "\<And>v. rng s (xs v) = rs v \<and> separated (rs v)"
    using assms(1) unfolding balloc_rep_def by blast
  have sp: "separated (rng s (xs w))" using r(3) by simp
  show ?thesis
  proof (cases F)
    case Nil
    then show ?thesis using add_range_full [of s xs w] sp r(1,2) by simp
  next
    case (Cons p F0)
    obtain s' F' ys where s': "balloc_add_range w from to s = Some (Inr s')" "nodes_ok s' F' (xs(w := ys))"
      "rng s' ys = add_range (from, to) (rs w)" "keeps s F xs s' F' (xs(w := ys)) p" "length F' + length ys = n + length (xs w)"
      using add_range_run [of s p F0 xs w "from" to] r Cons by auto
    have "p \<notin> owned xs" using free_not_owned [OF r(1)] Cons by simp
    then have o: "rng s' (xs v) = rs v \<and> separated (rs v)" for v using kept_rng [OF s'(4)] r(3) Cons by simp
    have "separated (add_range (from, to) (rs w))" using add_range_ok [of "rs w" "(from, to)"] r(3) assms(2) by simp
    then have "balloc_rep s' (length F') (rs(w := add_range (from, to) (rs w)))"
      using balloc_repI [OF s'(2,3)] o by blast
    moreover have "length ys = length (add_range (from, to) (rs w))" "length (xs w) = length (rs w)"
      using arg_cong [OF s'(3), of length] arg_cong [OF conjunct1 [OF r(3)], of length] by simp_all
    ultimately show ?thesis using s'(1,5) r(2) Cons by auto
  qed
qed

lemma remove_difference:
  assumes "balloc_rep s n rs" "from < to" "2 \<le> n"
  shows "\<exists>s' n' r. balloc_remove_range w from to s = Some (Inr s') \<and> balloc_rep s' n' (rs(w := r)) \<and>
    cover r = cover (rs w) - {from..<to}"
proof -
  obtain F xs where r: "nodes_ok s F xs" "length F = n" "\<And>v. rng s (xs v) = rs v \<and> separated (rs v)"
    using assms(1) unfolding balloc_rep_def by blast
  have sp: "separated (rng s (xs w))" "length F \<ge> 2" using r(2,3) assms(3) by simp_all
  obtain s' F' ys where s': "balloc_remove_range w from to s = Some (Inr s')" "nodes_ok s' F' (xs(w := ys))"
    "rng s' ys = remove_range from to (rng s (xs w))"
    "\<forall>x. x \<in> owned (xs(w := [])) \<longrightarrow> mbegin s' x = mbegin s x \<and> mend s' x = mend s x"
    using remove_range_run [OF r(1) sp(1) assms(2) sp(2)] by blast
  have c: "separated (remove_range from to (rng s (xs w)))" "cover (remove_range from to (rng s (xs w))) = cover (rs w) - {from..<to}"
    using remove_range_ok [OF sp(1) assms(2)] r(3) by simp_all
  have "rng s' (xs v) = rs v \<and> separated (rs v)" if "v \<noteq> w" for v using other_rng [OF s'(4) that] r(3) by simp
  from balloc_repI [OF s'(2,3) c(1) this] s'(1) c(2) show ?thesis by blast
qed

lemma alloc_exact:
  assumes "balloc_rep s n rs" "2 \<le> n" "no_wrap sz align from to" "align - 1 = mask k"
  shows "(\<exists>a s' n' r. balloc_alloc_aligned sz align from to s = Some (Inr (a, s')) \<and> balloc_rep s' n' (rs(FreeRanges := r)) \<and> n \<le> Suc n' \<and>
      from \<le> a \<and> a < a + sz \<and> a + sz \<le> to \<and> a AND (align - 1) = 0 \<and> {a..<a + sz} \<subseteq> cover (rs FreeRanges) \<and>
      cover r = cover (rs FreeRanges) - {a..<a + sz} \<and>
      (\<forall>x. from \<le> x \<and> x < x + sz \<and> x + sz \<le> to \<and> x AND (align - 1) = 0 \<and> {x..<x + sz} \<subseteq> cover (rs FreeRanges) \<longrightarrow> a \<le> x)) \<or>
    balloc_alloc_aligned sz align from to s = Some (Inr (to, s)) \<and>
      \<not> (\<exists>a. from \<le> a \<and> a < a + sz \<and> a + sz \<le> to \<and> a AND (align - 1) = 0 \<and> {a..<a + sz} \<subseteq> cover (rs FreeRanges))"
proof -
  obtain F xs where r: "nodes_ok s F xs" "length F = n" "\<And>v. rng s (xs v) = rs v \<and> separated (rs v)"
    using assms(1) unfolding balloc_rep_def by blast
  have sp: "separated (rng s (xs FreeRanges))" "length F \<ge> 2" using r(2,3) assms(2) by simp_all
  obtain us vs where v: "xs FreeRanges = us @ vs" "\<forall>q\<in>set us. \<not> mend s q > from" "filter (\<lambda>q. mend s q > from) (xs FreeRanges) = vs"
    using ending_split [OF sp(1)] by blast
  have ev: "\<forall>q\<in>set vs. mend s q > from" using v(3) by auto
  have run: "balloc_alloc_aligned sz align from to s = alloc_loop sz align from to (hd (vs @ [0])) s"
    using first_ending_ok [OF r(1) sp(1), of "from"] v(3) by (simp add: balloc_alloc_aligned_def)
  have skip: "alloc_range sz align from to (us' @ vs') = map_option (\<lambda>(a, q). (a, us' @ q)) (alloc_range sz align from to vs')"
    if "\<forall>q\<in>set us'. \<not> snd q > from" for us' vs'
    using that by (induction us') (auto simp: option.map_comp o_def case_prod_unfold option.map_ident)
  have ar: "alloc_range sz align from to (rs FreeRanges) = map_option (\<lambda>(a, q). (a, rng s us @ q)) (alloc_range sz align from to (rng s vs))"
    using skip [of "rng s us" "rng s vs"] v(1,2) r(3) [of FreeRanges] by (auto simp: rng_def)
  note lp = alloc_loop_ok [OF r(1) v(1) sp(1) ev sp(2) assms(3)]
  show ?thesis
  proof (cases "alloc_range sz align from to (rng s vs)")
    case None
    then have n: "alloc_range sz align from to (rs FreeRanges) = None" using ar by simp
    have "separated (rs FreeRanges)" using r(3) by simp
    from alloc_range_fails [OF this assms(3,4) n] lp show ?thesis using None run by auto
  next
    case (Some p)
    obtain a q where p: "p = (a, q)" by fastforce
    obtain s' F' ys where s': "alloc_loop sz align from to (hd (vs @ [0])) s = Some (Inr (a, s'))" "nodes_ok s' F' (xs(FreeRanges := us @ ys))"
      "rng s' us = rng s us" "rng s' ys = q" "\<forall>x. x \<in> owned (xs(FreeRanges := [])) \<longrightarrow> mbegin s' x = mbegin s x \<and> mend s' x = mend s x"
      "length F' + length ys = length F + length vs"
      using lp Some p by auto
    have "alloc_range sz align from to (rs FreeRanges) = Some (a, rng s us @ q)" using ar Some p by simp
    moreover have sf: "separated (rs FreeRanges)" using r(3) by simp
    ultimately have lst: "\<forall>x. from \<le> x \<and> x < x + sz \<and> x + sz \<le> to \<and> x AND (align - 1) = 0 \<and> {x..<x + sz} \<subseteq> cover (rs FreeRanges) \<longrightarrow> a \<le> x"
      using alloc_range_least [OF sf assms(3,4)] by blast
    have "alloc_range sz align from to (rs FreeRanges) = Some (a, rng s us @ q)" using ar Some p by simp
    then have c: "separated (rng s us @ q)" "cover (rng s us @ q) = cover (rs FreeRanges) - {a..<a + sz}" "{a..<a + sz} \<subseteq> cover (rs FreeRanges)"
      "from \<le> a" "a < a + sz" "a + sz \<le> to" "a AND (align - 1) = 0"
      using alloc_range_ok [OF sf assms(3)] by blast+
    have "length ys = length q" using arg_cong [OF s'(4), of length] by simp
    then have ln: "n \<le> Suc (length F')" using alloc_range_length [of sz align "from" to "rng s vs" a q] Some p s'(6) r(2) by simp
    have ry: "rng s' (us @ ys) = rng s us @ q" using s'(3,4) by simp
    have "rng s' (xs v) = rs v \<and> separated (rs v)" if "v \<noteq> FreeRanges" for v using other_rng [OF s'(5) that] r(3) by simp
    then have rep: "balloc_rep s' (length F') (rs(FreeRanges := rng s us @ q))" by (rule balloc_repI [OF s'(2) ry c(1)])
    have fin: "balloc_alloc_aligned sz align from to s = Some (Inr (a, s'))" using run s'(1) by simp
    show ?thesis by (intro disjI1 ex3I [of _ a s' "length F'"] exI [of _ "rng s us @ q"] conjI fin rep ln c lst)
  qed
qed

section \<open>Walking the ranges\<close>

lemma dump_lists:
  assumes "balloc_rep s n rs"
  shows "balloc_dump_tree w s out = Some (Inr (out @ rs w))"
proof -
  obtain F xs where r: "nodes_ok s F xs" "rng s (xs w) = rs w" using assms unfolding balloc_rep_def by blast
  have "run_all (\<lambda>node out. Inr (out @ [(mbegin s node, mend s node)])) ps out = Inr (out @ rng s ps)" for ps out
    by (induction ps arbitrary: out) (simp_all add: rng_def)
  then show ?thesis unfolding balloc_dump_tree_def rb.walk_all [OF tree_order [OF r(1), of w]] using r(2) by simp
qed

lemma memory_end:
  assumes "balloc_rep s n rs" "rs MemoryMap \<noteq> []"
  shows "balloc_memory s = Some (Inr (snd (last (rs MemoryMap))))"
proof -
  obtain F xs where r: "nodes_ok s F xs" "rng s (xs MemoryMap) = rs MemoryMap" using assms unfolding balloc_rep_def by blast
  note o = tree_order [OF r(1), of MemoryMap]
  have ne: "xs MemoryMap \<noteq> []" using r(2) assms(2) by (auto simp: rng_def)
  then have "last (xs MemoryMap) \<noteq> 0" using rb_order_nodes [OF o] ptr_nonzero by (metis last_in_set)
  moreover have "snd (last (rs MemoryMap)) = mend s (last (xs MemoryMap))" unfolding r(2) [symmetric] rng_def using ne by (simp add: last_map)
  ultimately show ?thesis using order_ends(2) [OF o] ne by (simp add: balloc_memory_def)
qed

end
