(* ===== verification/Balloc_Props.thy ===== *)
theory Balloc_Props
  imports Balloc_Rep
begin

text \<open>The properties of \<open>balloc.c\<close>, over the abstract view of its state.\<close>

section \<open>A concrete state\<close>

text \<open>Three nodes: one range in the tree of free ranges, two free nodes.\<close>

definition demo_balloc :: balloc where
  "demo_balloc = \<lparr>bnodes = [8 \<mapsto> mk B 0 0 0], mbegin = (\<lambda>p. 0x1000), mend = (\<lambda>p. 0x3000),
     broot = (\<lambda>w. if w = FreeRanges then 8 else 0),
     blist = [FreeHead \<mapsto> \<lparr>nxt = Some (MNode 16), prv = Some (MNode 24)\<rparr>, MNode 8 \<mapsto> \<lparr>nxt = None, prv = None\<rparr>,
       MNode 16 \<mapsto> \<lparr>nxt = Some (MNode 24), prv = Some FreeHead\<rparr>, MNode 24 \<mapsto> \<lparr>nxt = Some FreeHead, prv = Some (MNode 16)\<rparr>]\<rparr>"

definition demo_ranges :: "tree_id \<Rightarrow> range list" where
  "demo_ranges w = (if w = FreeRanges then [(0x1000, 0x3000)] else [])"

lemma demo_balloc_rep: "balloc_rep demo_balloc 2 demo_ranges"
proof -
  have rb: "red_black (Nd B Lf 8 Lf)" unfolding red_black_def by (intro exI [of _ "Suc 0"] conjI) simp_all
  have f: "rb_order (tree_of FreeRanges demo_balloc) [8]"
    unfolding rb_order_def
    by (intro exI [of _ "Nd B Lf 8 Lf"])
      (auto simp: is_tree_def tree_of_def demo_balloc_def ptr_def bit_0 rb)
  have m: "rb_order (tree_of MemoryMap demo_balloc) []" by (rule rb_order_empty) (simp add: demo_balloc_def)
  have "\<forall>w. rb_order (tree_of w demo_balloc) (if w = FreeRanges then [8] else [])"
    using f m by (auto intro: tree_id.exhaust)
  then have "nodes_ok demo_balloc [16, 24] (\<lambda>w. if w = FreeRanges then [8] else [])"
    by (auto simp: nodes_ok_def dlist_def nx_def pv_def demo_balloc_def ptr_def bit_0 owned_def)
  then show ?thesis unfolding balloc_rep_def
    by (intro exI [of _ "[16, 24]"] exI [of _ "\<lambda>w. if w = FreeRanges then [8] else []"])
      (auto simp: rng_def demo_balloc_def demo_ranges_def separated_Cons)
qed

section \<open>Properties\<close>

text \<open>
  C31. Adding a range refines its specification on lists of ranges: if no node is left the kernel stops, and
  otherwise the call returns, the ranges of the tree are the old ones with the new one joined in, sorted and
  apart from each other, the other tree is as before, and every node is still in a tree or free.
\<close>
theorem balloc_add_range_refines:
  assumes "balloc_rep s n rs" "from < to"
  shows "if n = 0 then balloc_add_range w from to s = Some (Inl Bug)
    else \<exists>s' n'. balloc_add_range w from to s = Some (Inr s') \<and> balloc_rep s' n' (rs(w := add_range (from, to) (rs w))) \<and>
      n' + length (add_range (from, to) (rs w)) = n + length (rs w)"
  using add_refines [OF assms] .

theorem balloc_add_range_refines_witness:
  "\<exists>s' n'. balloc_add_range FreeRanges 0x3000 0x5000 demo_balloc = Some (Inr s') \<and>
    balloc_rep s' n' (demo_ranges(FreeRanges := [(0x1000, 0x5000)])) \<and> n' = 2"
  using balloc_add_range_refines [OF demo_balloc_rep, of "0x3000" "0x5000" FreeRanges]
  by (simp add: demo_ranges_def add_range_def join_prev_def join_next_def)

text \<open>
  C32. Removing a range leaves exactly the other addresses: with two nodes to spare the call returns, and the
  addresses covered by the ranges of the tree are those covered before without the removed ones.
\<close>
theorem balloc_remove_range_difference:
  assumes "balloc_rep s n rs" "from < to" "2 \<le> n"
  shows "\<exists>s' n' r. balloc_remove_range w from to s = Some (Inr s') \<and> balloc_rep s' n' (rs(w := r)) \<and>
    cover r = cover (rs w) - {from..<to}"
  using remove_difference [OF assms] .

theorem balloc_remove_range_difference_witness:
  "\<exists>s' n' r. balloc_remove_range FreeRanges 0x1800 0x2000 demo_balloc = Some (Inr s') \<and>
    balloc_rep s' n' (demo_ranges(FreeRanges := r)) \<and> cover r = {0x1000..<0x3000} - {0x1800..<0x2000}"
  using balloc_remove_range_difference [OF demo_balloc_rep, of "0x1800" "0x2000" FreeRanges] by (simp add: demo_ranges_def)

text \<open>
  C33. Allocation: if the call does not give up, the block lies between \<open>from\<close> and \<open>to\<close>, is aligned, was free, is
  the lowest such block, and is exactly what is no longer free; if it returns \<open>to\<close> nothing has changed, and no aligned block of that size
  between \<open>from\<close> and \<open>to\<close> is free.  The alignment is a power of two, and no address that is tried wraps around.
\<close>
theorem balloc_alloc_exact:
  assumes "balloc_rep s n rs" "2 \<le> n" "no_wrap sz align from to" "align - 1 = mask k"
  shows "(\<exists>a s' n' r. balloc_alloc_aligned sz align from to s = Some (Inr (a, s')) \<and> balloc_rep s' n' (rs(FreeRanges := r)) \<and>
      from \<le> a \<and> a < a + sz \<and> a + sz \<le> to \<and> a AND (align - 1) = 0 \<and> {a..<a + sz} \<subseteq> cover (rs FreeRanges) \<and>
      cover r = cover (rs FreeRanges) - {a..<a + sz} \<and>
      (\<forall>x. from \<le> x \<and> x < x + sz \<and> x + sz \<le> to \<and> x AND (align - 1) = 0 \<and> {x..<x + sz} \<subseteq> cover (rs FreeRanges) \<longrightarrow> a \<le> x)) \<or>
    balloc_alloc_aligned sz align from to s = Some (Inr (to, s)) \<and>
      \<not> (\<exists>a. from \<le> a \<and> a < a + sz \<and> a + sz \<le> to \<and> a AND (align - 1) = 0 \<and> {a..<a + sz} \<subseteq> cover (rs FreeRanges))"
  using alloc_exact [OF assms] by blast

theorem balloc_alloc_exact_witness:
  "\<exists>a s'. balloc_alloc_aligned 0x1000 0x1000 0 0x100000000 demo_balloc = Some (Inr (a, s')) \<and> {a..<a + 0x1000} \<subseteq> {0x1000..<0x3000}"
proof -
  have m: "(0x1000 :: u64) - 1 = mask 12" by (simp add: mask_eq_exp_minus_1)
  have n: "no_wrap 0x1000 0x1000 0 0x100000000" by (simp add: no_wrap_def)
  have "\<exists>a. (0 :: u64) \<le> a \<and> a < a + 0x1000 \<and> a + 0x1000 \<le> 0x100000000 \<and> a AND (0x1000 - 1) = 0 \<and> {a..<a + 0x1000} \<subseteq> cover (demo_ranges FreeRanges)"
    by (intro exI [of _ "0x1000"]) (auto simp: demo_ranges_def)
  then show ?thesis using balloc_alloc_exact [OF demo_balloc_rep _ n m] by (simp add: demo_ranges_def) blast
qed

text \<open>
  C34. A range that contains another one from its begin on loses its end: \<open>__balloc_add_range\<close> takes the end of
  the next range as the new end even where it comes before its own, so adding \<open>[from, to)\<close> to a tree that holds
  \<open>[b, e)\<close> with \<open>from \<le> b\<close> and \<open>e < to\<close> leaves \<open>[from, e)\<close>, and the addresses behind \<open>e\<close> are not in the tree.
\<close>
theorem balloc_add_range_loses_end:
  assumes "balloc_rep s n rs" "rs w = [(b, e)]" "from \<le> b" "e < to" "0 < n"
  shows "\<exists>s' n'. balloc_add_range w from to s = Some (Inr s') \<and> balloc_rep s' n' (rs(w := [(from, e)]))"
proof -
  obtain F xs where r: "nodes_ok s F xs" "length F = n" "\<And>v. rng s (xs v) = rs v \<and> separated (rs v)"
    using assms(1) unfolding balloc_rep_def by blast
  have be: "b < e" using r(3) [of w] assms(2) by (simp add: separated_Cons)
  have a: "add_range (from, to) (rs w) = [(from, e)]"
    using assms(2-4) be by (auto simp: add_range_def join_prev_def join_next_def not_less)
  obtain p F0 where F: "F = p # F0" using r(2) assms(5) by (cases F) auto
  obtain s' F' ys where s': "balloc_add_range w from to s = Some (Inr s')" "nodes_ok s' F' (xs(w := ys))"
    "rng s' ys = [(from, e)]" "keeps s F xs s' F' (xs(w := ys)) p"
    using add_range_run [of s p F0 xs w "from" to] r F a by auto
  have "p \<notin> owned xs" using free_not_owned [OF r(1)] F by simp
  then have o: "rng s' (xs v) = rs v \<and> separated (rs v)" for v using kept_rng [OF s'(4)] r(3) F by simp
  have "separated [(from, e)]" using assms(3) be by (simp add: separated_Cons)
  then show ?thesis using balloc_repI [OF s'(2,3)] o s'(1) by blast
qed

theorem balloc_add_range_loses_end_witness:
  "\<exists>s' n'. balloc_add_range FreeRanges 0 0x10000 demo_balloc = Some (Inr s') \<and> balloc_rep s' n' (demo_ranges(FreeRanges := [(0, 0x3000)]))"
  by (rule balloc_add_range_loses_end [OF demo_balloc_rep]) (simp_all add: demo_ranges_def)

end
