(* ===== verification/Paging.thy ===== *)
theory Paging
  imports Balloc
begin

unbundle bit_operations_syntax

text \<open>
  The four-level page tables of \<open>paging.c\<close>: sizes and indices, the count of the tables a mapping needs, the
  mapping itself, and the first table that \<open>paging_setup\<close> builds.  Table entries are words in a memory
  that is named by the pointers the code uses, which point into the window of all physical memory at \<open>HIGHER_BASE\<close>.
\<close>

section \<open>Addresses\<close>

definition VIRTUAL_BASE :: u64 where "VIRTUAL_BASE = 0xffffffff80000000"
definition HIGHER_BASE :: u64 where "HIGHER_BASE = 0xffff800000000000"
definition MAX_PMEM_SIZE :: u64 where "MAX_PMEM_SIZE = 0x00007fff00000000"
definition BOOTSTRAP_MEM :: u64 where "BOOTSTRAP_MEM = 0x100000000"
definition PAGE_SIZE :: u64 where "PAGE_SIZE = push_bit 12 1"
definition PAGE_MASK :: u64 where "PAGE_MASK = PAGE_SIZE - 1"

definition PTE_PRESENT :: u64 where "PTE_PRESENT = push_bit 0 1"
definition PTE_LARGE :: u64 where "PTE_LARGE = push_bit 7 1"
definition PTE_WRITE :: u64 where "PTE_WRITE = push_bit 1 1"
definition PTE_USER :: u64 where "PTE_USER = push_bit 2 1"
definition PTE_PHYS_MASK :: u64 where "PTE_PHYS_MASK = 0xffffffffff000"

type_synonym ptmem = "u64 \<Rightarrow> u64"

text \<open>\<open>va\<close> is the pointer to a physical address; \<open>pte_ptr pml i\<close> is the address of \<open>pml[i]\<close>.\<close>

definition phys_ptr :: "u64 \<Rightarrow> u64" where "phys_ptr phys = phys + HIGHER_BASE"

definition pte_ptr :: "u64 \<Rightarrow> nat \<Rightarrow> u64" where "pte_ptr pml i = pml + 8 * of_nat i"

section \<open>Levels\<close>

definition pml_shift :: "nat \<Rightarrow> nat res" where
  "pml_shift level = bug_on (level < 1 \<or> level > 4) (Inr ([0, 12, 21, 30, 39] ! level))"

definition pml_offs :: "u64 \<Rightarrow> nat \<Rightarrow> nat res" where
  "pml_offs addr level =
     bug_on (level > 4) (bindE (pml_shift level) (\<lambda>shift.
     Inr (unat (drop_bit shift addr AND [0xfff, 0x1ff, 0x1ff, 0x1ff, 0x1ff] ! level))))"

definition pml_size :: "nat \<Rightarrow> u64 res" where
  "pml_size level = bug_on (level < 1 \<or> level > 4) (bindE (pml_shift level) (\<lambda>shift. Inr (push_bit shift 1)))"

section \<open>Counting tables\<close>

text \<open>
  The loop over the entries of a table; \<open>sub\<close> is the recursive call.  The test of the alignment is that of the
  begin of the range.  A loop that starts behind its end would not stop there.
\<close>

fun count_entries :: "(u64 \<Rightarrow> u64 \<Rightarrow> u64 \<Rightarrow> nat res option) \<Rightarrow> nat \<Rightarrow> u64 \<Rightarrow> bool \<Rightarrow> nat list \<Rightarrow> u64 \<Rightarrow> u64 \<Rightarrow> u64 \<Rightarrow> nat \<Rightarrow> nat res option" where
  "count_entries sub lvl sz notaligned [] begin end phys count = Some (Inr count)"
| "count_entries sub lvl sz notaligned (i # is) begin end phys count =
     (let entry_end = (begin + sz) AND NOT (sz - 1);
          map_end = (if entry_end < end then entry_end else end);
          tomap = map_end - begin
      in bindP (if lvl = 4 \<or> notaligned then sub begin map_end phys else Some (Inr 0)) (\<lambda>k.
         count_entries sub lvl sz notaligned is (begin + tomap) end (phys + tomap) (count + k)))"

fun pt_count_level :: "nat \<Rightarrow> u64 \<Rightarrow> u64 \<Rightarrow> u64 \<Rightarrow> nat res option" where
  "pt_count_level 0 begin end phys = Some (Inl Bug)"
| "pt_count_level (Suc l) begin end phys =
     bindP (Some (pml_size (Suc l))) (\<lambda>sz.
     bindP (Some (pml_offs begin (Suc l))) (\<lambda>from.
     bindP (Some (pml_offs (end - 1) (Suc l))) (\<lambda>last.
     let to = last + 1; mask = sz - 1; notaligned = (begin AND mask \<noteq> 0 \<or> phys AND mask \<noteq> 0)
     in if Suc l = 1 then Some (Inr 1)
        else if from > to then None
        else count_entries (pt_count_level l) (Suc l) sz notaligned [from..<to] begin end phys 1)))"

definition pt_count_pages :: "u64 \<Rightarrow> u64 \<Rightarrow> u64 \<Rightarrow> nat res option" where
  "pt_count_pages begin end phys = pt_count_level 4 begin end phys"

section \<open>Mapping\<close>

text \<open>A pool of pages: its two operations over the tables and a state of its own.  \<open>None\<close> is a null pointer.\<close>

record 'a page_pool =
  get_page :: "ptmem \<Rightarrow> 'a \<Rightarrow> (u64 \<times> ptmem \<times> 'a) res option"
  put_page :: "(u64 \<Rightarrow> ptmem \<Rightarrow> 'a \<Rightarrow> (ptmem \<times> 'a) res option) option"

definition pool_get_page :: "'a page_pool option \<Rightarrow> ptmem \<Rightarrow> 'a \<Rightarrow> (u64 \<times> ptmem \<times> 'a) res option" where
  "pool_get_page pool m a = (case pool of None \<Rightarrow> Some (Inl Fault) | Some p \<Rightarrow> get_page p m a)"

definition pool_put_page :: "'a page_pool option \<Rightarrow> u64 \<Rightarrow> ptmem \<Rightarrow> 'a \<Rightarrow> (ptmem \<times> 'a) res option" where
  "pool_put_page pool page m a =
     (case pool of None \<Rightarrow> Some (Inl Fault) | Some p \<Rightarrow> (case put_page p of None \<Rightarrow> Some (Inl Fault) | Some f \<Rightarrow> f page m a))"

definition pde_flags :: u64 where "pde_flags = PTE_PRESENT OR PTE_WRITE OR PTE_USER"

text \<open>
  One turn of the loop of \<open>__pt_map_pages\<close>, for the entry \<open>pml[i]\<close>: it maps a page, or has the table the entry
  points to, a new one if need be, map its part of the range.  \<open>sub\<close> is the recursive call.
\<close>

type_synonym 'a map_call = "u64 \<Rightarrow> u64 \<Rightarrow> u64 \<Rightarrow> u64 \<Rightarrow> ptmem \<times> 'a \<Rightarrow> (ptmem \<times> 'a) res option"

definition map_entry :: "'a map_call \<Rightarrow> nat \<Rightarrow> u64 \<Rightarrow> u64 \<Rightarrow> 'a page_pool option \<Rightarrow> u64 \<Rightarrow> nat \<Rightarrow> u64 \<Rightarrow> u64 \<Rightarrow> u64 \<Rightarrow> ptmem \<times> 'a \<Rightarrow> (ptmem \<times> 'a) res option" where
  "map_entry sub lvl sz flags pool pml i begin map_end phys s =
     (let (m, a) = s;
          mask = sz - 1;
          pte_large = (if lvl = 3 \<or> lvl = 2 then flags AND PTE_LARGE else 0);
          aligned = (begin AND mask = 0 \<and> phys AND mask = 0);
          tomap = map_end - begin + 1;
          pte = m (pte_ptr pml i)
      in if pte AND PTE_PRESENT = 0 then
           if lvl \<noteq> 4 \<and> tomap = sz \<and> aligned \<and> (pte_large \<noteq> 0 \<or> lvl = 1) then
             Some (Inr (m(pte_ptr pml i := phys OR flags OR pte_large), a))
           else if lvl = 1 then Some (Inl Bug)
           else
             bindP (pool_get_page pool m a) (\<lambda>(page, m, a).
             if page = 0 then Some (Inl Bug)
             else
               let pte = page OR pde_flags
               in sub (phys_ptr (pte AND PTE_PHYS_MASK)) begin map_end phys (m(pte_ptr pml i := pte), a))
         else if lvl = 1 then Some (Inl Bug)
         else sub (phys_ptr (pte AND PTE_PHYS_MASK)) begin map_end phys (m, a))"

definition map_end_in :: "u64 \<Rightarrow> u64 \<Rightarrow> u64 \<Rightarrow> u64" where
  "map_end_in sz begin end =
     (let mask = sz - 1; entry_end = ((begin + sz) AND NOT mask) - 1 in if entry_end < end then entry_end else end)"

fun map_entries :: "'a map_call \<Rightarrow> nat \<Rightarrow> u64 \<Rightarrow> u64 \<Rightarrow> 'a page_pool option \<Rightarrow> u64 \<Rightarrow> nat list \<Rightarrow> u64 \<Rightarrow> u64 \<Rightarrow> u64 \<Rightarrow> ptmem \<times> 'a \<Rightarrow> (ptmem \<times> 'a) res option" where
  "map_entries sub lvl sz flags pool pml [] begin end phys s = Some (Inr s)"
| "map_entries sub lvl sz flags pool pml (i # is) begin end phys s =
     (let map_end = map_end_in sz begin end; tomap = map_end - begin + 1
      in bindP (map_entry sub lvl sz flags pool pml i begin map_end phys s) (\<lambda>s.
         map_entries sub lvl sz flags pool pml is (begin + tomap) end (phys + tomap) s))"

fun pt_map_level :: "nat \<Rightarrow> u64 \<Rightarrow> 'a page_pool option \<Rightarrow> u64 \<Rightarrow> u64 \<Rightarrow> u64 \<Rightarrow> u64 \<Rightarrow> ptmem \<times> 'a \<Rightarrow> (ptmem \<times> 'a) res option" where
  "pt_map_level 0 flags pool pml begin end phys s = Some (Inl Bug)"
| "pt_map_level (Suc l) flags pool pml begin end phys s =
     bindP (Some (pml_size (Suc l))) (\<lambda>sz.
     bindP (Some (pml_offs begin (Suc l))) (\<lambda>from.
     bindP (Some (pml_offs end (Suc l))) (\<lambda>to.
     map_entries (pt_map_level l flags pool) (Suc l) sz flags pool pml [from..<to + 1] begin end phys s)))"

definition pt_map_pages :: "u64 \<Rightarrow> u64 \<Rightarrow> u64 \<Rightarrow> u64 \<Rightarrow> u64 \<Rightarrow> 'a page_pool option \<Rightarrow> ptmem \<times> 'a \<Rightarrow> (ptmem \<times> 'a) res option" where
  "pt_map_pages pml4 begin end phys flags pool s =
     (if begin AND PAGE_MASK \<noteq> 0 then Some (Inl Bug)
      else if end AND PAGE_MASK \<noteq> 0 then Some (Inl Bug)
      else pt_map_level 4 (flags OR PTE_PRESENT OR PTE_LARGE OR PTE_USER) pool pml4 begin (end - 1) phys s)"

definition pt_populate_pages :: "u64 \<Rightarrow> u64 \<Rightarrow> u64 \<Rightarrow> 'a page_pool option \<Rightarrow> ptmem \<times> 'a \<Rightarrow> (ptmem \<times> 'a) res option" where
  "pt_populate_pages pml4 begin end pool s =
     (if begin AND PAGE_MASK \<noteq> 0 then Some (Inl Bug)
      else if end AND PAGE_MASK \<noteq> 0 then Some (Inl Bug)
      else pt_map_level 4 0 pool pml4 begin (end - 1) 0 s)"

section \<open>The first page table\<close>

text \<open>\<open>memset(va(page), 0, PAGE_SIZE)\<close>.\<close>

definition zero_page :: "u64 \<Rightarrow> ptmem \<Rightarrow> ptmem" where
  "zero_page page m = (\<lambda>x. if x - phys_ptr page < PAGE_SIZE then 0 else m x)"

definition paging_setup_get_page :: "ptmem \<Rightarrow> balloc \<Rightarrow> (u64 \<times> ptmem \<times> balloc) res option" where
  "paging_setup_get_page m s =
     bindP (balloc_alloc_aligned PAGE_SIZE PAGE_SIZE 0 BOOTSTRAP_MEM s) (\<lambda>(page, s).
     Some (bug_on (page = BOOTSTRAP_MEM) (Inr (page, zero_page page m, s))))"

definition setup_pool :: "balloc page_pool" where
  "setup_pool = \<lparr>get_page = paging_setup_get_page, put_page = None\<rparr>"

text \<open>What \<open>paging_setup\<close> writes besides the tables: \<open>cr3\<close> and the bounds of the archive.\<close>

record paging =
  ptables :: ptmem
  boot_mem :: balloc
  cr3 :: u64
  initrd :: "u64 \<times> u64"

definition paging_setup :: "paging \<Rightarrow> paging res option" where
  "paging_setup g =
     bindP (balloc_memory (boot_mem g)) (\<lambda>memory.
     let phys_mem_limit = memory AND NOT PAGE_MASK;
         mem_size = (if phys_mem_limit < MAX_PMEM_SIZE then phys_mem_limit else MAX_PMEM_SIZE);
         pool = Some setup_pool
     in bindP (pool_get_page pool (ptables g) (boot_mem g)) (\<lambda>(pml4, m, s).
        bindP (pt_map_pages (phys_ptr pml4) HIGHER_BASE (HIGHER_BASE + mem_size) 0 PTE_WRITE pool (m, s)) (\<lambda>s.
        bindP (pt_map_pages (phys_ptr pml4) VIRTUAL_BASE 0 0 PTE_WRITE pool s) (\<lambda>(m, s).
        Some (Inr (g\<lparr>ptables := m, boot_mem := s, cr3 := pml4,
          initrd := (phys_ptr (fst (initrd g)), phys_ptr (snd (initrd g)))\<rparr>))))))"

end
