(* ===== verification/Paging_Tables.thy ===== *)
theory Paging_Tables
  imports Paging
begin

unbundle bit_operations_syntax

text \<open>
  What a tree of page tables means to the processor, and when it is one.  A table is named by its physical
  address; \<open>d\<close> is its depth, the level of the code less one, so that a table at depth 0 has pages only.
\<close>

section \<open>Entries\<close>

definition frame :: "u64 \<Rightarrow> bool" where "frame q \<longleftrightarrow> q AND PTE_PHYS_MASK = q"

definition ent :: "ptmem \<Rightarrow> u64 \<Rightarrow> nat \<Rightarrow> u64" where "ent m p i = m (pte_ptr (phys_ptr p) i)"

definition is_sub :: "nat \<Rightarrow> u64 \<Rightarrow> bool" where
  "is_sub d e \<longleftrightarrow> e AND PTE_PRESENT \<noteq> 0 \<and> 0 < d \<and> (d = 3 \<or> e AND PTE_LARGE = 0)"

definition shift_of :: "nat \<Rightarrow> nat" where "shift_of d = 12 + 9 * d"

text \<open>The number of the entry that an address falls into, counted over all tables of the depth and in its own.\<close>

definition span :: "nat \<Rightarrow> u64 \<Rightarrow> nat" where "span d x = unat x div 2 ^ shift_of d"

definition idx :: "nat \<Rightarrow> u64 \<Rightarrow> nat" where "idx d x = span d x mod 512"

lemma idx_less [simp]: "idx d x < 512"
  by (simp add: idx_def)

lemma span_Suc: "span (Suc d) x = span d x div 512"
proof -
  have "(2 :: nat) ^ shift_of (Suc d) = 2 ^ shift_of d * 512" by (simp add: shift_of_def power_add)
  then show ?thesis by (simp add: span_def div_mult2_eq)
qed

lemma span_eqI: "span (Suc d) x = span (Suc d) y \<Longrightarrow> idx d x = idx d y \<Longrightarrow> span d x = span d y"
  unfolding span_Suc idx_def by (metis div_mult_mod_eq)

lemma span_mono: "x \<le> y \<Longrightarrow> span d x \<le> span d y"
  by (simp add: span_def word_le_nat_alt div_le_mono)

lemma frameD:
  assumes "frame q"
  shows "unat q mod 4096 = 0" "unat q < 2 ^ 52"
proof -
  have b: "bit q n \<Longrightarrow> 12 \<le> n \<and> n < 52" for n
  proof -
    assume "bit q n"
    then have "bit (q AND PTE_PHYS_MASK) n" using assms by (simp add: frame_def)
    moreover have e: "PTE_PHYS_MASK = push_bit 12 (mask 40)" by (simp add: PTE_PHYS_MASK_def mask_eq_exp_minus_1)
    ultimately have "bit (push_bit 12 (mask 40) :: u64) n" by (simp add: bit_and_iff)
    then show "12 \<le> n \<and> n < 52" by (simp add: bit_push_bit_iff bit_mask_iff) linarith
  qed
  have "take_bit 12 q = 0" by (rule bit_word_eqI) (use b in \<open>fastforce simp: bit_take_bit_iff\<close>)
  then have "take_bit 12 (unat q) = 0" by (metis unat_0 unsigned_take_bit_eq)
  then show "unat q mod 4096 = 0" by (simp add: take_bit_eq_mod)
  have "take_bit 52 q = q" by (rule bit_word_eqI) (use b in \<open>fastforce simp: bit_take_bit_iff\<close>)
  then have "take_bit 52 (unat q) = unat q" by (metis unsigned_take_bit_eq)
  then show "unat q < 2 ^ 52" by (simp add: take_bit_nat_eq_self_iff)
qed

lemma pte_ptr_unat:
  assumes "frame p" "i < 512"
  shows "pte_ptr (phys_ptr p) i = p + 8 * of_nat i + HIGHER_BASE" "unat (p + 8 * of_nat i) = unat p + 8 * i"
proof -
  show "pte_ptr (phys_ptr p) i = p + 8 * of_nat i + HIGHER_BASE" by (simp add: pte_ptr_def phys_ptr_def)
  have "unat (8 * of_nat i :: u64) = 8 * i" using assms(2) by (simp add: unat_word_ariths unat_of_nat)
  then show "unat (p + 8 * of_nat i) = unat p + 8 * i" using frameD(2) [OF assms(1)] assms(2) by (simp add: unat_word_ariths)
qed

lemma aligned_offset:
  assumes "(a :: nat) mod 4096 = 0" "b mod 4096 = 0" "i < 512" "j < 512" "a + 8 * i = b + 8 * j"
  shows "a = b \<and> i = j"
proof -
  have "(a + 8 * i) mod 4096 = 8 * i" "(b + 8 * j) mod 4096 = 8 * j"
    using assms(1-4) by (simp_all add: mod_add_eq [symmetric])
  then show ?thesis using assms(5) by simp
qed

lemma ent_upd:
  assumes "frame p" "frame q" "i < 512" "j < 512"
  shows "ent (m(pte_ptr (phys_ptr p) i := v)) q j = (if q = p \<and> j = i then v else ent m q j)"
proof (cases "pte_ptr (phys_ptr q) j = pte_ptr (phys_ptr p) i")
  case True
  then have "unat q + 8 * j = unat p + 8 * i" using pte_ptr_unat [OF assms(1,3)] pte_ptr_unat [OF assms(2,4)] by (metis add_right_cancel)
  then show ?thesis using aligned_offset [OF frameD(1) [OF assms(2)] frameD(1) [OF assms(1)] assms(4,3)] word_unat_eq_iff [of q p] by (auto simp: ent_def)
qed (auto simp: ent_def)

lemma ent_zero_page:
  assumes "frame p" "frame q" "i < 512"
  shows "ent (zero_page q m) p i = (if p = q then 0 else ent m p i)"
proof -
  let ?x = "p + 8 * of_nat i"
  have e: "pte_ptr (phys_ptr p) i - phys_ptr q = ?x - q" using pte_ptr_unat(1) [OF assms(1,3)] by (simp add: phys_ptr_def)
  have ux: "unat ?x = unat p + 8 * i" by (rule pte_ptr_unat(2) [OF assms(1,3)])
  have a: "unat p mod 4096 = 0" "unat q mod 4096 = 0" "unat p < 2 ^ 52" "unat q < 2 ^ 52" using frameD assms(1,2) by blast+
  have "?x - q < 0x1000 \<longleftrightarrow> p = q"
  proof (cases "q \<le> ?x")
    case True
    then have u: "unat (?x - q) = unat p + 8 * i - unat q" "unat q \<le> unat p + 8 * i" using ux by (simp_all add: unat_sub word_le_nat_alt)
    have "unat p + 8 * i - unat q < 4096 \<longleftrightarrow> unat p = unat q"
    proof -
      obtain a' b' where ab: "unat p = 4096 * a'" "unat q = 4096 * b'" using a(1,2) by (metis dvd_def mod_eq_0_iff_dvd)
      have "4096 * b' \<le> 4096 * a' + 8 * i" "8 * i < 4096" using u(2) ab assms(3) by simp_all
      then have "b' < a' + 1" by linarith
      then show ?thesis using ab assms(3) by (cases "a' = b'") auto
    qed
    then show ?thesis using u(1) by (simp add: word_less_nat_alt word_unat_eq_iff [of p q])
  next
    case False
    then have lt: "unat p + 8 * i < unat q" using ux by (simp add: word_less_nat_alt not_le)
    have "unat (?x - q) = unat p + 8 * i + 2 ^ 64 - unat q" using lt ux False by (simp add: unat_sub_if' word_le_nat_alt)
    then show ?thesis using lt a by (auto simp: word_less_nat_alt)
  qed
  then show ?thesis using e by (simp add: ent_def zero_page_def PAGE_SIZE_def)
qed

section \<open>Trees of tables\<close>

definition agree :: "u64 set \<Rightarrow> ptmem \<Rightarrow> ptmem \<Rightarrow> bool" where
  "agree F m m' \<longleftrightarrow> (\<forall>q\<in>F. \<forall>i<512. ent m' q i = ent m q i)"

definition nxt_table :: "ptmem \<Rightarrow> u64 \<Rightarrow> nat \<Rightarrow> u64" where "nxt_table m p i = ent m p i AND PTE_PHYS_MASK"

fun frames :: "ptmem \<Rightarrow> nat \<Rightarrow> u64 \<Rightarrow> u64 set" where
  "frames m 0 p = {p}"
| "frames m (Suc d) p = insert p (\<Union>i\<in>{i. i < 512 \<and> is_sub (Suc d) (ent m p i)}. frames m d (nxt_table m p i))"

fun tables_ok :: "ptmem \<Rightarrow> nat \<Rightarrow> u64 \<Rightarrow> bool" where
  "tables_ok m 0 p \<longleftrightarrow> frame p"
| "tables_ok m (Suc d) p \<longleftrightarrow> frame p \<and>
     (\<forall>i<512. is_sub (Suc d) (ent m p i) \<longrightarrow> tables_ok m d (nxt_table m p i) \<and> p \<notin> frames m d (nxt_table m p i)) \<and>
     (\<forall>i<512. \<forall>j<512. i \<noteq> j \<longrightarrow> is_sub (Suc d) (ent m p i) \<longrightarrow> is_sub (Suc d) (ent m p j) \<longrightarrow>
        frames m d (nxt_table m p i) \<inter> frames m d (nxt_table m p j) = {})"

text \<open>The walk of the processor: the physical address and the rights to write and to use in user mode.\<close>

definition leaf_addr :: "nat \<Rightarrow> u64 \<Rightarrow> u64 \<Rightarrow> u64" where
  "leaf_addr d e x = ((e AND PTE_PHYS_MASK) AND NOT (mask (shift_of d))) + (x AND mask (shift_of d))"

definition rights :: "u64 \<Rightarrow> u64" where "rights e = e AND (PTE_WRITE OR PTE_USER)"

fun lookup :: "ptmem \<Rightarrow> nat \<Rightarrow> u64 \<Rightarrow> u64 \<Rightarrow> (u64 \<times> u64) option" where
  "lookup m 0 p x = (let e = ent m p (idx 0 x) in if e AND PTE_PRESENT = 0 then None else Some (leaf_addr 0 e x, rights e))"
| "lookup m (Suc d) p x = (let e = ent m p (idx (Suc d) x) in
     if e AND PTE_PRESENT = 0 then None
     else if is_sub (Suc d) e then lookup m d (e AND PTE_PHYS_MASK) x
     else Some (leaf_addr (Suc d) e x, rights e))"

text \<open>Whether all tables for the address exist.\<close>

fun populated :: "ptmem \<Rightarrow> nat \<Rightarrow> u64 \<Rightarrow> u64 \<Rightarrow> bool" where
  "populated m 0 p x \<longleftrightarrow> True"
| "populated m (Suc d) p x \<longleftrightarrow> (let e = ent m p (idx (Suc d) x) in is_sub (Suc d) e \<and> populated m d (e AND PTE_PHYS_MASK) x)"

lemma root_frame: "p \<in> frames m d p"
  by (cases d) auto

lemma tables_ok_frame: "tables_ok m d p \<Longrightarrow> frame p"
  by (cases d) auto

lemma agree_subset: "agree F m m' \<Longrightarrow> G \<subseteq> F \<Longrightarrow> agree G m m'"
  by (auto simp: agree_def)

lemma agree_trans: "agree F m m1 \<Longrightarrow> agree F m1 m2 \<Longrightarrow> agree F m m2"
  by (auto simp: agree_def)

lemma agree_frames: "agree (frames m d p) m m' \<Longrightarrow> frames m' d p = frames m d p"
proof (induction d arbitrary: p)
  case (Suc d)
  have e: "ent m' p i = ent m p i" if "i < 512" for i using Suc(2) that by (auto simp: agree_def)
  have "frames m' d (nxt_table m' p i) = frames m d (nxt_table m p i)" if i: "i < 512" "is_sub (Suc d) (ent m p i)" for i
  proof -
    have "agree (frames m d (nxt_table m p i)) m m'" by (rule agree_subset [OF Suc(2)]) (use i in auto)
    then show ?thesis using Suc(1) e [OF i(1)] by (simp add: nxt_table_def)
  qed
  then show ?case using e by auto
qed simp

lemma agree_sub: "agree (frames m (Suc d) p) m m' \<Longrightarrow> i < 512 \<Longrightarrow> is_sub (Suc d) (ent m p i) \<Longrightarrow> agree (frames m d (nxt_table m p i)) m m'"
  by (rule agree_subset) auto

lemma agree_tables_ok: "agree (frames m d p) m m' \<Longrightarrow> tables_ok m' d p = tables_ok m d p"
proof (induction d arbitrary: p)
  case (Suc d)
  have e: "ent m' p i = ent m p i" if "i < 512" for i using Suc(2) that by (auto simp: agree_def)
  have n: "nxt_table m' p i = nxt_table m p i" if "i < 512" for i using e [OF that] by (simp add: nxt_table_def)
  have f: "frames m' d (nxt_table m p i) = frames m d (nxt_table m p i)" "tables_ok m' d (nxt_table m p i) = tables_ok m d (nxt_table m p i)"
    if "i < 512" "is_sub (Suc d) (ent m p i)" for i
    using agree_frames [OF agree_sub [OF Suc(2) that]] Suc(1) [OF agree_sub [OF Suc(2) that]] by simp_all
  show ?case using e n f by (simp cong: conj_cong imp_cong)
qed simp

lemma agree_lookup: "agree (frames m d p) m m' \<Longrightarrow> lookup m' d p x = lookup m d p x \<and> populated m' d p x = populated m d p x"
proof (induction d arbitrary: p)
  case (Suc d)
  have e: "ent m' p (idx (Suc d) x) = ent m p (idx (Suc d) x)" using Suc(2) by (auto simp: agree_def)
  show ?case
  proof (cases "is_sub (Suc d) (ent m p (idx (Suc d) x))")
    case True
    then show ?thesis using Suc(1) [OF agree_sub [OF Suc(2) idx_less True]] e by (simp add: nxt_table_def Let_def)
  qed (simp add: e Let_def)
qed (auto simp: agree_def Let_def)

end
