(* ===== verification/Paging_Seg.thy ===== *)
theory Paging_Seg
  imports Paging_Tables
begin

unbundle bit_operations_syntax

text \<open>The part of a range that falls into one entry, and what the loop over the entries does to the range.\<close>

definition entry_size :: "nat \<Rightarrow> u64" where "entry_size d = push_bit (shift_of d) 1"

definition in_table :: "nat \<Rightarrow> u64 \<Rightarrow> u64 \<Rightarrow> bool" where
  "in_table d b e \<longleftrightarrow> b \<le> e \<and> span (Suc d) b = span (Suc d) e"

lemma shift_less: "d < 4 \<Longrightarrow> shift_of d < 64"
  by (simp add: shift_of_def)

lemma entry_size_mask: "entry_size d - 1 = mask (shift_of d)"
  by (simp add: entry_size_def mask_eq_exp_minus_1 push_bit_eq_mult)

lemma u64_less: "unat (x :: u64) < 2 ^ 64"
  by (rule order.strict_trans2 [OF unsigned_less]) simp

lemma unat_exp: "k < 64 \<Longrightarrow> unat (2 ^ k :: u64) = 2 ^ k"
proof -
  assume "k < 64"
  then have "(2 :: nat) ^ k < 2 ^ 64" by (rule power_strict_increasing) simp
  then show ?thesis using unat_of_nat [of "2 ^ k", where 'a = 64] by simp
qed

lemma unat_mask: "k < 64 \<Longrightarrow> unat (mask k :: u64) = mask k"
proof -
  assume "k < 64"
  then have "(2 :: nat) ^ k < 2 ^ 64" by (rule power_strict_increasing) simp
  then have "(mask k :: nat) < 2 ^ 64" by (simp add: mask_eq_exp_minus_1)
  then show ?thesis using unat_of_nat [of "mask k", where 'a = 64] by (simp add: of_nat_mask_eq)
qed

lemma unat_entry_size: "d < 4 \<Longrightarrow> unat (entry_size d) = 2 ^ shift_of d"
  using unat_exp [OF shift_less [of d]] by (simp add: entry_size_def push_bit_eq_mult)

lemma pml_size_ok: "d < 4 \<Longrightarrow> pml_size (Suc d) = Inr (entry_size d)"
  by (auto simp: pml_size_def pml_shift_def entry_size_def shift_of_def less_Suc_eq numeral_eq_Suc)

lemma drop_mask_idx: "unat (drop_bit (shift_of d) x AND 0x1FF) = idx d x"
proof -
  have "(0x1FF :: u64) = mask 9" by (simp add: mask_eq_exp_minus_1)
  then have "drop_bit (shift_of d) x AND 0x1FF = take_bit 9 (drop_bit (shift_of d) x)" by (simp add: take_bit_eq_mask)
  then have "unat (drop_bit (shift_of d) x AND 0x1FF) = take_bit 9 (drop_bit (shift_of d) (unat x))"
    by (simp only: unsigned_take_bit_eq unat_drop_bit_eq)
  then show ?thesis unfolding take_bit_eq_mod drop_bit_eq_div idx_def span_def by simp
qed

lemma pml_offs_ok: "d < 4 \<Longrightarrow> pml_offs x (Suc d) = Inr (idx d x)"
proof -
  assume "d < 4"
  then have "[0xfff, 0x1ff, 0x1ff, 0x1ff, 0x1ff :: u64] ! Suc d = 0x1FF" "pml_shift (Suc d) = Inr (shift_of d)"
    by (auto simp: pml_shift_def shift_of_def less_Suc_eq numeral_eq_Suc)
  then show ?thesis using \<open>d < 4\<close> drop_mask_idx [of d x] by (simp add: pml_offs_def)
qed

lemma unat_or_mask: "k < 64 \<Longrightarrow> unat (b OR mask k :: u64) = unat b div 2 ^ k * 2 ^ k + (2 ^ k - 1)"
proof -
  assume k: "k < 64"
  let ?n = "unat b OR mask k"
  have "unat (b OR mask k) = ?n" using k by (simp add: unsigned_or_eq unat_mask)
  also have "?n = push_bit k (drop_bit k ?n) + take_bit k ?n" by (rule bits_ident [symmetric])
  also have "drop_bit k ?n = drop_bit k (unat b)" by (rule bit_eqI) (simp add: bit_simps)
  also have "take_bit k ?n = mask k" by (rule bit_eqI) (auto simp: bit_simps)
  finally show ?thesis by (simp add: push_bit_eq_mult drop_bit_eq_div mask_eq_exp_minus_1)
qed

lemma map_end_or:
  assumes "d < 4"
  shows "map_end_in (entry_size d) b e = (if b OR mask (shift_of d) < e then b OR mask (shift_of d) else e)"
proof -
  let ?k = "shift_of d"
  have t: "take_bit ?k (b + entry_size d) = take_bit ?k b"
  proof -
    have dv: "(2 :: nat) ^ ?k dvd 2 ^ 64" using shift_less [OF assms] by (intro le_imp_power_dvd) simp
    have "unat (take_bit ?k (b + entry_size d)) = (unat b + 2 ^ ?k) mod 2 ^ 64 mod 2 ^ ?k"
      unfolding unsigned_take_bit_eq unfolding take_bit_eq_mod using unat_entry_size [OF assms] by (simp add: unat_word_ariths)
    also have "\<dots> = unat (take_bit ?k b)" unfolding mod_mod_cancel [OF dv] unsigned_take_bit_eq unfolding take_bit_eq_mod by simp
    finally show ?thesis by (simp add: word_unat_eq_iff)
  qed
  have split: "x AND NOT (mask ?k) = x - take_bit ?k x" for x :: u64
  proof -
    have "x = (x AND NOT (mask ?k)) OR (x AND mask ?k)" by (rule bit_word_eqI) (auto simp: bit_simps)
    also have "\<dots> = (x AND NOT (mask ?k)) + (x AND mask ?k)"
      by (rule disjunctive_add [symmetric]) (auto simp: bit_simps)
    finally show ?thesis by (simp add: take_bit_eq_mask algebra_simps)
  qed
  have "b OR mask ?k = (b AND NOT (mask ?k)) OR mask ?k" by (rule bit_word_eqI) (auto simp: bit_simps)
  also have "\<dots> = (b AND NOT (mask ?k)) + mask ?k" by (rule disjunctive_add [symmetric]) (auto simp: bit_simps)
  finally have "((b + entry_size d) AND NOT (mask ?k)) - 1 = b OR mask ?k"
    unfolding split t using entry_size_mask [of d] by (simp add: algebra_simps)
  then show ?thesis by (simp add: map_end_in_def entry_size_mask)
qed

lemma map_end_unat:
  assumes "d < 4"
  shows "unat (map_end_in (entry_size d) b e) = min (span d b * 2 ^ shift_of d + (2 ^ shift_of d - 1)) (unat e)"
  using unat_or_mask [OF shift_less [OF assms], of b] unfolding map_end_or [OF assms]
  by (auto simp: span_def word_less_nat_alt)

lemma segment:
  assumes "d < 4" "b \<le> e" "me = map_end_in (entry_size d) b e"
  shows "b \<le> me" "me \<le> e" "span d me = span d b" "me = e \<longleftrightarrow> span d b = span d e"
    and "me \<noteq> e \<Longrightarrow> unat (me + 1) = unat me + 1 \<and> span d (me + 1) = Suc (span d b) \<and> me + 1 \<le> e \<and> unat (me + 1) mod 2 ^ shift_of d = 0"
    and "me \<noteq> e \<Longrightarrow> unat me = span d b * 2 ^ shift_of d + (2 ^ shift_of d - 1)"
proof -
  let ?z = "(2 :: nat) ^ shift_of d"
  let ?t = "span d b * ?z + (?z - 1)"
  have z: "0 < ?z" by simp
  have m: "unat me = min ?t (unat e)" using map_end_unat [OF assms(1)] assms(3) by simp
  have bs: "span d b * ?z \<le> unat b" "unat b \<le> ?t"
    using mod_less_divisor [OF z, of "unat b"] div_mult_mod_eq [of "unat b" ?z] unfolding span_def by linarith+
  have es: "span d e * ?z \<le> unat e" "unat e \<le> span d e * ?z + (?z - 1)"
    using mod_less_divisor [OF z, of "unat e"] div_mult_mod_eq [of "unat e" ?z] unfolding span_def by linarith+
  have be: "unat b \<le> unat e" using assms(2) by (simp add: word_le_nat_alt)
  show "b \<le> me" "me \<le> e" using m bs be by (simp_all add: word_le_nat_alt)
  have in_t: "n div ?z = span d b" if "span d b * ?z \<le> n" "n \<le> ?t" for n
  proof (rule div_nat_eqI)
    show "?z * span d b \<le> n" using that(1) by (simp only: mult.commute [of ?z])
    have "?z * Suc (span d b) = span d b * ?z + ?z" by simp
    then show "n < ?z * Suc (span d b)" using that(2) z by linarith
  qed
  show s: "span d me = span d b" using in_t [of "unat me"] m bs be by (simp add: span_def [of d me])
  show "me = e \<longleftrightarrow> span d b = span d e"
  proof
    assume "span d b = span d e"
    then have "unat e \<le> ?t" using es by simp
    then show "me = e" using m by (simp add: word_unat_eq_iff)
  qed (use s in simp)
  assume ne: "me \<noteq> e"
  then have ne': "unat me \<noteq> unat e" by (simp add: word_unat_eq_iff)
  show me: "unat me = ?t" using m ne' by linarith
  have lt: "unat me < unat e" using m ne' by linarith
  then have u: "unat (me + 1) = unat me + 1" using u64_less [of e] by (simp add: unat_word_ariths)
  have e1: "unat me + 1 = Suc (span d b) * ?z" using me z by (simp add: algebra_simps)
  then show "unat (me + 1) = unat me + 1 \<and> span d (me + 1) = Suc (span d b) \<and> me + 1 \<le> e \<and> unat (me + 1) mod ?z = 0"
    using u lt by (simp add: span_def word_le_nat_alt)
qed

text \<open>Ranges of whole pages, and the physical addresses they go to.\<close>

definition pages_ok :: "u64 \<Rightarrow> u64 \<Rightarrow> u64 \<Rightarrow> bool" where
  "pages_ok b e phys \<longleftrightarrow> unat b mod 4096 = 0 \<and> unat e mod 4096 = 4095 \<and> unat phys mod 4096 = 0 \<and> unat phys + (unat e - unat b) < 2 ^ 52"

lemma four_k_dvd: "4096 dvd (2 :: nat) ^ shift_of d"
proof -
  have "(2 :: nat) ^ 12 dvd 2 ^ shift_of d" by (rule le_imp_power_dvd) (simp add: shift_of_def)
  then show ?thesis by simp
qed

lemma Suc_mod_same: "Suc n div 512 = n div 512 \<Longrightarrow> Suc n mod 512 = Suc (n mod 512)"
  by (metis div_mult_mod_eq add_Suc_right add_left_cancel)

lemma mod_Suc_4096: "m mod 4096 = 4095 \<Longrightarrow> 4096 dvd (m + 1 :: nat)"
proof -
  assume "m mod 4096 = 4095"
  then have "m + 1 = m div 4096 * 4096 + 4096" using div_mult_mod_eq [of m 4096] by linarith
  then show ?thesis by (metis dvd_add dvd_triv_right dvd_refl)
qed

lemma dvd_Suc_4096: "4096 dvd (m + 1 :: nat) \<Longrightarrow> m mod 4096 = 4095"
proof -
  assume "4096 dvd m + 1"
  then obtain k where k: "m + 1 = 4096 * k" ..
  then obtain j where "k = Suc j" by (cases k) auto
  then have "m = 4096 * j + 4095" using k by simp
  then show ?thesis by simp
qed

lemma pages_length: "(b :: nat) mod 4096 = 0 \<Longrightarrow> m mod 4096 = 4095 \<Longrightarrow> b \<le> m \<Longrightarrow> 4096 dvd m - b + 1"
proof -
  assume a: "b mod 4096 = 0" "m mod 4096 = 4095" "b \<le> m"
  have "4096 dvd (m + 1) - b" by (rule dvd_diff_nat [OF mod_Suc_4096 [OF a(2)] mod_0_imp_dvd [OF a(1)]])
  moreover have "m - b + 1 = (m + 1) - b" using a(3) by simp
  ultimately show ?thesis by simp
qed

lemma in_table_segment:
  assumes "d < 4" "in_table d b e" "me = map_end_in (entry_size d) b e"
  shows "in_table d b me" "\<And>d'. d = Suc d' \<Longrightarrow> in_table d' b me"
    and "me = e \<longleftrightarrow> idx d b = idx d e" "idx d b \<le> idx d e"
    and "me \<noteq> e \<Longrightarrow> in_table d (me + 1) e \<and> idx d (me + 1) = Suc (idx d b)"
proof -
  have be: "b \<le> e" "span (Suc d) b = span (Suc d) e" using assms(2) by (simp_all add: in_table_def)
  note s = segment [OF assms(1) be(1) assms(3)]
  show "in_table d b me" "\<And>d'. d = Suc d' \<Longrightarrow> in_table d' b me" using s(1,3) by (simp_all add: in_table_def span_Suc)
  show "me = e \<longleftrightarrow> idx d b = idx d e" unfolding s(4)
  proof
    show "idx d b = idx d e" if "span d b = span d e" using that by (simp add: idx_def)
    show "span d b = span d e" if "idx d b = idx d e" by (rule span_eqI [OF be(2) that])
  qed
  have "span d b \<le> span d e" by (rule span_mono [OF be(1)])
  then show "idx d b \<le> idx d e" using be(2) unfolding span_Suc idx_def by (metis div_mult_mod_eq nat_add_left_cancel_le)
  assume ne: "me \<noteq> e"
  note n = s(5) [OF ne]
  have "b \<le> me + 1" using n s(1) by (simp add: word_le_nat_alt)
  then have "span (Suc d) b \<le> span (Suc d) (me + 1)" "span (Suc d) (me + 1) \<le> span (Suc d) e"
    using n by (auto intro: span_mono)
  then have r: "span (Suc d) (me + 1) = span (Suc d) b" using be(2) by simp
  then have "span d (me + 1) div 512 = span d b div 512" by (simp add: span_Suc)
  then have "idx d (me + 1) = Suc (idx d b)" using n Suc_mod_same unfolding idx_def by simp
  then show "in_table d (me + 1) e \<and> idx d (me + 1) = Suc (idx d b)" using n r be(2) by (simp add: in_table_def)
qed

lemma pages_ok_segment:
  assumes "d < 4" "b \<le> e" "pages_ok b e phys" "me = map_end_in (entry_size d) b e"
  shows "pages_ok b me phys" "me \<noteq> e \<Longrightarrow> pages_ok (me + 1) e (phys + (me - b + 1))"
    and "me \<noteq> e \<Longrightarrow> unat (phys + (me - b + 1)) = unat phys + (unat me - unat b + 1)"
proof -
  note s = segment [OF assms(1,2,4)]
  have le: "unat b \<le> unat me" "unat me \<le> unat e" using s(1,2) by (simp_all add: word_le_nat_alt)
  have p: "unat b mod 4096 = 0" "unat e mod 4096 = 4095" "unat phys mod 4096 = 0" "unat phys + (unat e - unat b) < 2 ^ 52"
    using assms(3) by (simp_all add: pages_ok_def)
  have m: "unat me mod 4096 = 4095"
  proof (cases "me = e")
    case False
    have "unat me + 1 = Suc (span d b) * 2 ^ shift_of d" using s(6) [OF False] by (simp add: algebra_simps)
    then have "4096 dvd unat me + 1" using four_k_dvd dvd_mult by metis
    then show ?thesis by (rule dvd_Suc_4096)
  qed (use p in simp)
  show "pages_ok b me phys" using p m le by (simp add: pages_ok_def)
  assume ne: "me \<noteq> e"
  then have lt: "unat me < unat e" using le word_unat_eq_iff [of me e] by linarith
  have u1: "unat (me - b + 1) = unat me - unat b + 1"
  proof -
    have "unat (me - b) = unat me - unat b" by (rule unat_sub [OF s(1)])
    moreover have "unat me - unat b + 1 < 2 ^ 52" using p(4) lt le by linarith
    ultimately show ?thesis by (simp add: unat_word_ariths)
  qed
  show u: "unat (phys + (me - b + 1)) = unat phys + (unat me - unat b + 1)"
    using u1 p(4) lt le by (simp add: unat_word_ariths)
  have um: "unat (me + 1) = unat me + 1" using s(5) [OF ne] by simp
  have "(unat phys + (unat me - unat b + 1)) mod 4096 = 0"
    by (rule dvd_imp_mod_0 [OF dvd_add [OF mod_0_imp_dvd [OF p(3)] pages_length [OF p(1) m le(1)]]])
  moreover have "(unat me + 1) mod 4096 = 0" by (rule dvd_imp_mod_0 [OF mod_Suc_4096 [OF m]])
  moreover have "unat phys + (unat me - unat b + 1) + (unat e - (unat me + 1)) < 2 ^ 52" using p(4) le lt by linarith
  ultimately show "pages_ok (me + 1) e (phys + (me - b + 1))" using p(2) u um by (simp only: pages_ok_def simp_thms)
qed

end
