(* ===== verification/Paging_Map.thy ===== *)
theory Paging_Map
  imports Paging_Seg
begin

unbundle bit_operations_syntax

text \<open>
  What it means that a range was mapped in a tree of tables, and how the mapping of a tree is put together
  from that of its entries.
\<close>

section \<open>One entry changes\<close>

lemma tables_okD:
  assumes "tables_ok m (Suc d) p" "j < 512" "is_sub (Suc d) (ent m p j)"
  shows "tables_ok m d (nxt_table m p j)" "p \<notin> frames m d (nxt_table m p j)" "frames m d (nxt_table m p j) \<subseteq> frames m (Suc d) p"
    and "l < 512 \<Longrightarrow> l \<noteq> j \<Longrightarrow> is_sub (Suc d) (ent m p l) \<Longrightarrow> frames m d (nxt_table m p j) \<inter> frames m d (nxt_table m p l) = {}"
  using assms by auto

definition others :: "nat \<Rightarrow> u64 \<Rightarrow> nat \<Rightarrow> ptmem \<Rightarrow> ptmem \<Rightarrow> bool" where
  "others d p i m m' \<longleftrightarrow> (\<forall>j<512. j \<noteq> i \<longrightarrow> ent m' p j = ent m p j \<and>
     (is_sub d (ent m p j) \<longrightarrow> agree (frames m (d - 1) (nxt_table m p j)) m m'))"

definition rest :: "ptmem \<Rightarrow> nat \<Rightarrow> u64 \<Rightarrow> nat \<Rightarrow> u64 set" where
  "rest m d p i = (\<Union>j\<in>{j. j < 512 \<and> j \<noteq> i \<and> is_sub (Suc d) (ent m p j)}. frames m d (nxt_table m p j))"

lemma frames_rest:
  assumes "i < 512"
  shows "frames m (Suc d) p = insert p (rest m d p i \<union> (if is_sub (Suc d) (ent m p i) then frames m d (nxt_table m p i) else {}))"
proof -
  have "{j. j < 512 \<and> is_sub (Suc d) (ent m p j)} = {j. j < 512 \<and> j \<noteq> i \<and> is_sub (Suc d) (ent m p j)} \<union>
    (if is_sub (Suc d) (ent m p i) then {i} else {})" using assms by auto
  then show ?thesis by (auto simp: rest_def)
qed

lemma tables_ok_frames: "tables_ok m d p \<Longrightarrow> q \<in> frames m d p \<Longrightarrow> frame q"
  by (induction d arbitrary: p) auto

lemma others_keep:
  assumes "others (Suc d) p i m m'" "j < 512" "j \<noteq> i"
  shows "ent m' p j = ent m p j" "nxt_table m' p j = nxt_table m p j"
    and "is_sub (Suc d) (ent m p j) \<Longrightarrow> frames m' d (nxt_table m p j) = frames m d (nxt_table m p j)"
    and "is_sub (Suc d) (ent m p j) \<Longrightarrow> tables_ok m' d (nxt_table m p j) = tables_ok m d (nxt_table m p j)"
    and "is_sub (Suc d) (ent m p j) \<Longrightarrow> lookup m' d (nxt_table m p j) x = lookup m d (nxt_table m p j) x"
    and "is_sub (Suc d) (ent m p j) \<Longrightarrow> populated m' d (nxt_table m p j) x = populated m d (nxt_table m p j) x"
proof -
  have o: "ent m' p j = ent m p j" "is_sub (Suc d) (ent m p j) \<Longrightarrow> agree (frames m d (nxt_table m p j)) m m'"
    using assms by (simp_all add: others_def)
  show "ent m' p j = ent m p j" "nxt_table m' p j = nxt_table m p j" using o(1) by (simp_all add: nxt_table_def)
  assume s: "is_sub (Suc d) (ent m p j)"
  show "frames m' d (nxt_table m p j) = frames m d (nxt_table m p j)" by (rule agree_frames [OF o(2) [OF s]])
  show "tables_ok m' d (nxt_table m p j) = tables_ok m d (nxt_table m p j)" by (rule agree_tables_ok [OF o(2) [OF s]])
  show "lookup m' d (nxt_table m p j) x = lookup m d (nxt_table m p j) x"
    "populated m' d (nxt_table m p j) x = populated m d (nxt_table m p j) x" using agree_lookup [OF o(2) [OF s], of x] by simp_all
qed

lemma others_rest: "others (Suc d) p i m m' \<Longrightarrow> rest m' d p i = rest m d p i"
  using others_keep(1-3) [of d p i m m'] unfolding rest_def by (intro SUP_cong) auto

lemma entry_change:
  assumes ok: "tables_ok m (Suc d) p" and o: "others (Suc d) p i m m'" and i: "i < 512"
    and new: "is_sub (Suc d) (ent m' p i) \<Longrightarrow> tables_ok m' d (nxt_table m' p i) \<and> frames m' d (nxt_table m' p i) \<inter> insert p (rest m d p i) = {}"
  shows "tables_ok m' (Suc d) p"
    and "idx (Suc d) x \<noteq> i \<Longrightarrow> lookup m' (Suc d) p x = lookup m (Suc d) p x \<and> populated m' (Suc d) p x = populated m (Suc d) p x"
proof -
  note k = others_keep [OF o]
  have old: "tables_ok m' d (nxt_table m' p j)" "p \<notin> frames m' d (nxt_table m' p j)" "frames m' d (nxt_table m' p j) \<subseteq> rest m d p i"
    "frames m' d (nxt_table m' p j) = frames m d (nxt_table m p j)" "is_sub (Suc d) (ent m p j)"
    if "j < 512" "j \<noteq> i" "is_sub (Suc d) (ent m' p j)" for j
    using ok k(1-4) [OF that(1,2)] that by (auto simp: rest_def)
  have dj: "frames m' d (nxt_table m' p j) \<inter> frames m' d (nxt_table m' p l) = {}"
    if "j < 512" "l < 512" "j \<noteq> l" "is_sub (Suc d) (ent m' p j)" "is_sub (Suc d) (ent m' p l)" for j l
  proof -
    consider "j = i" | "l = i" | "j \<noteq> i" "l \<noteq> i" by blast
    then show ?thesis
    proof cases
      case 1
      then show ?thesis using new old(3) [OF that(2) _ that(5)] that by blast
    next
      case 2
      then show ?thesis using new old(3) [OF that(1) _ that(4)] that by blast
    next
      case 3
      then show ?thesis using old(4,5) [OF that(1) 3(1) that(4)] old(4,5) [OF that(2) 3(2) that(5)] ok that(1-3) by simp
    qed
  qed
  have each: "tables_ok m' d (nxt_table m' p j) \<and> p \<notin> frames m' d (nxt_table m' p j)"
    if "j < 512" "is_sub (Suc d) (ent m' p j)" for j
    using old(1,2) [OF that(1) _ that(2)] new that by (cases "j = i") auto
  show "tables_ok m' (Suc d) p" using each dj ok by (simp only: tables_ok.simps) blast
  assume x: "idx (Suc d) x \<noteq> i"
  show "lookup m' (Suc d) p x = lookup m (Suc d) p x \<and> populated m' (Suc d) p x = populated m (Suc d) p x"
    using k(1,5,6) [OF idx_less [of "Suc d" x] x] by (auto simp: Let_def nxt_table_def)
qed

section \<open>Mapping a range\<close>

definition leaf_of :: "u64 \<Rightarrow> u64 \<Rightarrow> u64 \<Rightarrow> u64 \<Rightarrow> (u64 \<times> u64) option" where
  "leaf_of fl b phys x = (if fl AND PTE_PRESENT = 0 then None else Some (phys + (x - b), rights fl))"

definition maps :: "nat \<Rightarrow> u64 \<Rightarrow> u64 \<Rightarrow> u64 \<Rightarrow> u64 \<Rightarrow> u64 \<Rightarrow> ptmem \<Rightarrow> u64 set \<Rightarrow> ptmem \<Rightarrow> u64 set \<Rightarrow> bool" where
  "maps d p b e phys fl m U m' U' \<longleftrightarrow>
     tables_ok m' d p \<and> U \<subseteq> U' \<and> frames m' d p = frames m d p \<union> (U' - U) \<and>
     agree {q. frame q \<and> q \<notin> frames m' d p} m m' \<and>
     (\<forall>i<512. i < idx d b \<or> idx d e < i \<longrightarrow> ent m' p i = ent m p i) \<and>
     (\<forall>x. span (Suc d) x = span (Suc d) b \<longrightarrow>
        lookup m' d p x = (if b \<le> x \<and> x \<le> e then leaf_of fl b phys x else lookup m d p x) \<and>
        (populated m d p x \<longrightarrow> populated m' d p x) \<and>
        (fl AND PTE_LARGE = 0 \<longrightarrow> b \<le> x \<longrightarrow> x \<le> e \<longrightarrow> populated m' d p x))"

lemma mapsD:
  assumes "maps d p b e phys fl m U m' U'"
  shows "tables_ok m' d p" "U \<subseteq> U'" "frames m' d p = frames m d p \<union> (U' - U)" "agree {q. frame q \<and> q \<notin> frames m' d p} m m'"
    and "span (Suc d) x = span (Suc d) b \<Longrightarrow> lookup m' d p x = (if b \<le> x \<and> x \<le> e then leaf_of fl b phys x else lookup m d p x)"
    and "span (Suc d) x = span (Suc d) b \<Longrightarrow> populated m d p x \<Longrightarrow> populated m' d p x"
    and "span (Suc d) x = span (Suc d) b \<Longrightarrow> fl AND PTE_LARGE = 0 \<Longrightarrow> b \<le> x \<Longrightarrow> x \<le> e \<Longrightarrow> populated m' d p x"
    and "i < 512 \<Longrightarrow> i < idx d b \<or> idx d e < i \<Longrightarrow> ent m' p i = ent m p i"
  using assms unfolding maps_def by blast+

lemma idx_mono: "x \<le> y \<Longrightarrow> span (Suc d) x = span (Suc d) y \<Longrightarrow> idx d x \<le> idx d y"
  using span_mono [of x y d] unfolding span_Suc idx_def by (metis div_mult_mod_eq nat_add_left_cancel_le)

lemma next_le: "c < (e :: u64) \<Longrightarrow> c + 1 \<le> x \<longleftrightarrow> c < x"
proof -
  assume "c < e"
  then have "unat (c + 1) = unat c + 1" using u64_less [of e] by (simp add: word_less_nat_alt unat_word_ariths)
  then show ?thesis by (simp add: word_less_nat_alt word_le_nat_alt Suc_le_eq)
qed

lemma leaf_of_shift: "leaf_of fl (c + 1) (phys + (c - b + 1)) x = leaf_of fl b phys x"
  by (simp add: leaf_of_def algebra_simps)

lemma in_span: "b \<le> x \<Longrightarrow> x \<le> e \<Longrightarrow> span d e = span d b \<Longrightarrow> span d x = span d b"
  using span_mono [of b x d] span_mono [of x e d] by simp

lemma maps_compose:
  assumes m1: "maps d p b c phys fl m U m1 U1" and m2: "maps d p (c + 1) e (phys + (c - b + 1)) fl m1 U1 m2 U2"
    and "b \<le> c" "c < e" and r: "span (Suc d) (c + 1) = span (Suc d) b" and re: "span (Suc d) e = span (Suc d) b"
  shows "maps d p b e phys fl m U m2 U2"
proof -
  note a = mapsD [OF m1] and z = mapsD [OF m2]
  have fr: "frames m2 d p = frames m d p \<union> (U2 - U)" using a(2,3) z(2,3) by auto
  have ag: "agree {q. frame q \<and> q \<notin> frames m2 d p} m m2"
    by (rule agree_trans [OF agree_subset [OF a(4)] z(4)]) (use z(3) in auto)
  have ce: "c + 1 \<le> e" using next_le [OF assms(4), of e] assms(4) by simp
  have bc: "c \<le> c + 1" using next_le [OF assms(4), of "c + 1"] by simp
  have rc: "span (Suc d) c = span (Suc d) b" using in_span [OF assms(3) less_imp_le [OF assms(4)] re] .
  have il: "idx d c \<le> idx d e" "idx d b \<le> idx d (c + 1)"
    using idx_mono [OF less_imp_le [OF assms(4)]] idx_mono [OF order_trans [OF assms(3) bc]] rc re r by simp_all
  have ut: "\<forall>i<512. i < idx d b \<or> idx d e < i \<longrightarrow> ent m2 p i = ent m p i"
    using a(8) z(8) il by (metis le_less_trans less_le_trans)
  have lk: "lookup m2 d p x = (if b \<le> x \<and> x \<le> e then leaf_of fl b phys x else lookup m d p x)"
    and pp: "populated m d p x \<longrightarrow> populated m2 d p x" "fl AND PTE_LARGE = 0 \<longrightarrow> b \<le> x \<longrightarrow> x \<le> e \<longrightarrow> populated m2 d p x"
    if x: "span (Suc d) x = span (Suc d) b" for x
  proof -
    have x': "span (Suc d) x = span (Suc d) (c + 1)" using x r by simp
    have "c + 1 \<le> x \<longleftrightarrow> c < x" by (rule next_le [OF assms(4)])
    then show "lookup m2 d p x = (if b \<le> x \<and> x \<le> e then leaf_of fl b phys x else lookup m d p x)"
      using a(5) [OF x] z(5) [OF x'] assms(3,4) by (auto simp: leaf_of_shift)
    show "populated m d p x \<longrightarrow> populated m2 d p x" using a(6) [OF x] z(6) [OF x'] by blast
    show "fl AND PTE_LARGE = 0 \<longrightarrow> b \<le> x \<longrightarrow> x \<le> e \<longrightarrow> populated m2 d p x"
      using a(7) [OF x] z(6,7) [OF x'] next_le [OF assms(4), of x] by (meson linorder_not_le)
  qed
  have UU: "U \<subseteq> U2" using a(2) z(2) by blast
  show ?thesis unfolding maps_def using z(1) UU fr ag ut lk pp by blast
qed

lemma maps_descend:
  assumes ok: "tables_ok m (Suc d) p" and U: "frames m (Suc d) p \<subseteq> U" and i: "i = idx (Suc d) b"
    and sub: "is_sub (Suc d) (ent m p i)" and seg: "in_table d b e"
    and mp: "maps d (nxt_table m p i) b e phys fl m U m' U'"
  shows "maps (Suc d) p b e phys fl m U m' U'" "others (Suc d) p i m m'"
proof -
  let ?q = "nxt_table m p i"
  note a = mapsD [OF mp]
  have i5: "i < 512" using i by simp
  have F: "frames m (Suc d) p = insert p (rest m d p i \<union> frames m d ?q)" using frames_rest [OF i5, of m d p] sub by simp
  have dj: "rest m d p i \<inter> frames m d ?q = {}" "p \<notin> frames m d ?q" "p \<notin> rest m d p i"
    using ok i5 sub by (auto simp: rest_def)
  have new: "frames m' d ?q \<inter> insert p (rest m d p i) = {}" 
  proof -
    have "insert p (rest m d p i) \<subseteq> U" using U F by blast
    then show ?thesis using a(3) dj by blast
  qed
  have fr: "frame q" if "q \<in> insert p (rest m d p i)" for q using tables_ok_frames [OF ok] F that by blast
  have out: "agree (insert p (rest m d p i)) m m'" by (rule agree_subset [OF a(4)]) (use fr new in blast)
  have pj: "ent m' p j = ent m p j" if "j < 512" for j using out that by (simp add: agree_def)
  have o: "others (Suc d) p i m m'"
    unfolding others_def
  proof (intro allI impI conjI)
    fix j :: nat assume j: "j < 512" "j \<noteq> i"
    show "ent m' p j = ent m p j" by (rule pj [OF j(1)])
    assume "is_sub (Suc d) (ent m p j)"
    then have "frames m d (nxt_table m p j) \<subseteq> rest m d p i" using j by (auto simp: rest_def)
    then show "agree (frames m (Suc d - 1) (nxt_table m p j)) m m'" using agree_subset [OF out] by simp blast
  qed
  have q': "nxt_table m' p i = ?q" "is_sub (Suc d) (ent m' p i)" using pj [OF i5] sub by (simp_all add: nxt_table_def)
  have ok': "tables_ok m' d (nxt_table m' p i) \<and> frames m' d (nxt_table m' p i) \<inter> insert p (rest m d p i) = {}" using a(1) new q' by simp
  note ec = entry_change [OF ok o i5 ok']
  have F': "frames m' (Suc d) p = insert p (rest m d p i \<union> frames m' d ?q)"
    using frames_rest [OF i5, of m' d p] others_rest [OF o] q' by simp
  have seg': "b \<le> e" "span (Suc d) e = span (Suc d) b" using seg by (simp_all add: in_table_def)
  have lk: "lookup m' (Suc d) p x = (if b \<le> x \<and> x \<le> e then leaf_of fl b phys x else lookup m (Suc d) p x)"
    and pp: "populated m (Suc d) p x \<longrightarrow> populated m' (Suc d) p x"
      "fl AND PTE_LARGE = 0 \<longrightarrow> b \<le> x \<longrightarrow> x \<le> e \<longrightarrow> populated m' (Suc d) p x"
    if x: "span (Suc (Suc d)) x = span (Suc (Suc d)) b" for x
  proof -
    have "lookup m' (Suc d) p x = (if b \<le> x \<and> x \<le> e then leaf_of fl b phys x else lookup m (Suc d) p x) \<and>
      (populated m (Suc d) p x \<longrightarrow> populated m' (Suc d) p x) \<and> (fl AND PTE_LARGE = 0 \<longrightarrow> b \<le> x \<longrightarrow> x \<le> e \<longrightarrow> populated m' (Suc d) p x)"
    proof (cases "idx (Suc d) x = i")
      case True
      then have s: "span (Suc d) x = span (Suc d) b" using span_eqI [OF x] i by simp
      have pr: "ent m p i AND PTE_PRESENT \<noteq> 0" "ent m' p i AND PTE_PRESENT \<noteq> 0" using sub q'(2) by (simp_all add: is_sub_def)
      have "lookup m' (Suc d) p x = lookup m' d ?q x" "lookup m (Suc d) p x = lookup m d ?q x"
        "populated m' (Suc d) p x = populated m' d ?q x" "populated m (Suc d) p x = populated m d ?q x"
        using True sub q' pr by (simp_all add: Let_def nxt_table_def)
      then show ?thesis using a(5-7) [OF s] by simp
    next
      case False
      have "\<not> (b \<le> x \<and> x \<le> e)" using in_span [OF _ _ seg'(2), of x] False i by (auto simp: idx_def)
      then show ?thesis using ec(2) [OF False] by auto
    qed
    then show "lookup m' (Suc d) p x = (if b \<le> x \<and> x \<le> e then leaf_of fl b phys x else lookup m (Suc d) p x)"
      "populated m (Suc d) p x \<longrightarrow> populated m' (Suc d) p x"
      "fl AND PTE_LARGE = 0 \<longrightarrow> b \<le> x \<longrightarrow> x \<le> e \<longrightarrow> populated m' (Suc d) p x" by blast+
  qed
  have ag: "agree {q. frame q \<and> q \<notin> frames m' (Suc d) p} m m'" by (rule agree_subset [OF a(4)]) (use F' in auto)
  have un: "frames m' (Suc d) p = frames m (Suc d) p \<union> (U' - U)" using F F' a(3) by auto
  show "maps (Suc d) p b e phys fl m U m' U'" unfolding maps_def using ec(1) a(2) un ag pj lk pp by blast
  show "others (Suc d) p i m m'" by (rule o)
qed

section \<open>A page or a new table in an empty entry\<close>

lemma lookup_entry:
  "lookup m d p x = (let e = ent m p (idx d x) in if e AND PTE_PRESENT = 0 then None
     else if is_sub d e then lookup m (d - 1) (e AND PTE_PHYS_MASK) x else Some (leaf_addr d e x, rights e))"
  by (cases d) (simp_all add: is_sub_def Let_def)

lemma not_present_sub: "e AND PTE_PRESENT = 0 \<Longrightarrow> \<not> is_sub d e"
  by (simp add: is_sub_def)

lemma ent_upd_same: "ent (m(pte_ptr (phys_ptr p) i := v)) p i = v"
  by (simp add: ent_def)

lemma others_upd:
  assumes "tables_ok m d p" "i < 512" "m' = m(pte_ptr (phys_ptr p) i := v)"
  shows "others d p i m m'"
proof -
  have p: "frame p" by (rule tables_ok_frame [OF assms(1)])
  have "agree (frames m d' (nxt_table m p j)) m m'" if j: "j < 512" "is_sub (Suc d') (ent m p j)" "d = Suc d'" for j d'
  proof -
    have t: "tables_ok m d' (nxt_table m p j)" "p \<notin> frames m d' (nxt_table m p j)" using assms(1) j by simp_all
    then show ?thesis using tables_ok_frames [OF t(1)] ent_upd [OF p _ assms(2)] unfolding agree_def assms(3) by metis
  qed
  then show ?thesis unfolding others_def using ent_upd [OF p p assms(2)] assms(3) is_sub_def by (cases d) auto
qed

lemma maps_leaf:
  assumes ok: "tables_ok m d p" and i: "i = idx d b" and np: "\<not> is_sub d (ent m p i)"
    and m': "m' = m(pte_ptr (phys_ptr p) i := v)" and ns: "\<not> is_sub d v"
    and whole: "\<And>x. span d x = span d b \<longleftrightarrow> b \<le> x \<and> x \<le> e"
    and val: "\<And>x. span d x = span d b \<Longrightarrow> (if v AND PTE_PRESENT = 0 then None else Some (leaf_addr d v x, rights v)) = leaf_of fl b phys x"
    and large: "0 < d \<Longrightarrow> fl AND PTE_LARGE \<noteq> 0"
  shows "maps d p b e phys fl m U m' U" "others d p i m m'"
proof -
  have i5: "i < 512" using i by simp
  have p: "frame p" by (rule tables_ok_frame [OF ok])
  have o: "others d p i m m'" by (rule others_upd [OF ok i5 m'])
  have ei: "ent m' p i = v" by (simp add: m' ent_upd_same)
  have fr: "tables_ok m' d p \<and> frames m' d p = frames m d p \<and>
    (\<forall>x. idx d x \<noteq> i \<longrightarrow> lookup m' d p x = lookup m d p x \<and> populated m' d p x = populated m d p x)"
  proof (cases d)
    case 0
    then show ?thesis using ok o by (simp add: others_def Let_def)
  next
    case (Suc d')
    have ns': "\<not> is_sub (Suc d') (ent m' p i)" using ns ei Suc by simp
    note ec = entry_change [OF ok [unfolded Suc] o [unfolded Suc] i5]
    have "frames m' (Suc d') p = frames m (Suc d') p"
      unfolding frames_rest [OF i5] using others_rest [OF o [unfolded Suc]] ns' np Suc by simp
    then show ?thesis using ec ns' Suc by blast
  qed
  have ag: "agree {q. frame q \<and> q \<notin> frames m' d p} m m'"
    using fr root_frame [of p m d] ent_upd [OF p _ i5] by (auto simp: agree_def m')
  have "lookup m' d p x = (if b \<le> x \<and> x \<le> e then leaf_of fl b phys x else lookup m d p x) \<and>
      (populated m d p x \<longrightarrow> populated m' d p x) \<and> (fl AND PTE_LARGE = 0 \<longrightarrow> b \<le> x \<longrightarrow> x \<le> e \<longrightarrow> populated m' d p x)"
    if x: "span (Suc d) x = span (Suc d) b" for x
  proof (cases "idx d x = i")
    case True
    then have s: "span d x = span d b" using span_eqI [OF x] i by simp
    have "lookup m' d p x = leaf_of fl b phys x"
      unfolding val [OF s, symmetric] by (subst lookup_entry) (use ns True ei in \<open>simp add: Let_def\<close>)
    moreover have "populated m d p x \<longleftrightarrow> d = 0" using np True by (cases d) (simp_all add: Let_def)
    ultimately show ?thesis using whole [of x] s large by (cases d) auto
  next
    case False
    then have "span d x \<noteq> span d b" using i by (auto simp: idx_def)
    then have "\<not> (b \<le> x \<and> x \<le> e)" using whole [of x] by simp
    then show ?thesis using fr False by auto
  qed
  moreover have "\<forall>j<512. j < idx d b \<or> idx d e < j \<longrightarrow> ent m' p j = ent m p j"
  proof -
    have "b \<le> e" using whole [of b] by simp
    then have "span d e = span d b" using whole [of e] by simp
    then have "idx d e = i" using i by (simp add: idx_def)
    then show ?thesis using o i by (auto simp: others_def)
  qed
  ultimately show "maps d p b e phys fl m U m' U" unfolding maps_def using fr ag by blast
  show "others d p i m m'" by (rule o)
qed

lemma zero_table:
  assumes "frame q" "\<forall>i<512. ent m q i = 0"
  shows "frames m d q = {q}" "tables_ok m d q" "lookup m d q x = None"
proof -
  have e: "\<not> is_sub d (ent m q i)" if "i < 512" for i d using assms(2) that by (simp add: is_sub_def)
  show "frames m d q = {q}" "tables_ok m d q" using e assms(1) by (cases d; auto)+
  show "lookup m d q x = None" using assms(2) by (cases d) (simp_all add: Let_def)
qed

lemma phys_mask_bits: "PTE_PHYS_MASK = push_bit 12 (mask 40)"
  by (simp add: PTE_PHYS_MASK_def mask_eq_exp_minus_1)

lemma frame_flags:
  assumes "frame q" "fl AND PTE_PHYS_MASK = 0"
  shows "(q OR fl) AND PTE_PHYS_MASK = q" "q AND PTE_PRESENT = 0" "q AND PTE_LARGE = 0" "rights (q OR fl) = rights fl"
    and "(q OR fl) AND PTE_PRESENT = fl AND PTE_PRESENT" "(q OR fl) AND PTE_LARGE = fl AND PTE_LARGE"
proof -
  have q: "q = q AND PTE_PHYS_MASK" using assms(1) by (simp add: frame_def)
  show "(q OR fl) AND PTE_PHYS_MASK = q" using assms by (simp add: bit.conj_disj_distrib2 frame_def)
  have z: "q AND x = 0" if "PTE_PHYS_MASK AND x = 0" for x
  proof -
    have "q AND x = q AND (PTE_PHYS_MASK AND x)" by (subst q) (simp only: and.assoc)
    then show ?thesis using that by simp
  qed
  have p: "q AND PTE_PRESENT = 0" "q AND PTE_LARGE = 0" "q AND (PTE_WRITE OR PTE_USER) = 0"
    by (rule z, simp add: PTE_PHYS_MASK_def PTE_PRESENT_def PTE_LARGE_def PTE_WRITE_def PTE_USER_def)+
  show "q AND PTE_PRESENT = 0" "q AND PTE_LARGE = 0" by (fact p)+
  show "rights (q OR fl) = rights fl" "(q OR fl) AND PTE_PRESENT = fl AND PTE_PRESENT" "(q OR fl) AND PTE_LARGE = fl AND PTE_LARGE"
    using p by (simp_all add: rights_def bit.conj_disj_distrib2)
qed

lemma pde_flags_bits: "pde_flags AND PTE_PHYS_MASK = 0" "pde_flags AND PTE_PRESENT \<noteq> 0" "pde_flags AND PTE_LARGE = 0"
  by (simp_all add: pde_flags_def PTE_PHYS_MASK_def PTE_PRESENT_def PTE_LARGE_def PTE_WRITE_def PTE_USER_def)

lemma fresh_table:
  assumes ok: "tables_ok m (Suc d) p" and U: "frames m (Suc d) p \<subseteq> U" and i: "i < 512" and np: "ent m p i AND PTE_PRESENT = 0"
    and q: "frame q" "q \<notin> U" and m1: "m1 = (zero_page q m)(pte_ptr (phys_ptr p) i := q OR pde_flags)"
  shows "tables_ok m1 (Suc d) p" "ent m1 p i = q OR pde_flags" "is_sub (Suc d) (ent m1 p i)" "nxt_table m1 p i = q"
    and "frames m1 (Suc d) p = insert q (frames m (Suc d) p)" "others (Suc d) p i m m1"
    and "agree {r. frame r \<and> r \<notin> insert q (frames m (Suc d) p)} m m1" "\<forall>j<512. ent m1 q j = 0"
    and "lookup m1 (Suc d) p x = lookup m (Suc d) p x \<and> (populated m (Suc d) p x \<longrightarrow> populated m1 (Suc d) p x)"
proof -
  have p: "frame p" by (rule tables_ok_frame [OF ok])
  have ent1: "ent m1 r j = (if r = p \<and> j = i then q OR pde_flags else if r = q then 0 else ent m r j)" if "frame r" "j < 512" for r j
    unfolding m1 ent_upd [OF p that(1) i that(2)] ent_zero_page [OF that(1) q(1) that(2)] by simp
  have pq: "p \<noteq> q" using U q(2) root_frame [of p m "Suc d"] by blast
  show ei: "ent m1 p i = q OR pde_flags" using ent1 [OF p i] by simp
  note ff = frame_flags [OF q(1) pde_flags_bits(1)]
  show sub: "is_sub (Suc d) (ent m1 p i)" unfolding ei using ff(5,6) pde_flags_bits by (simp add: is_sub_def)
  show nt: "nxt_table m1 p i = q" unfolding nxt_table_def ei by (rule ff(1))
  show z: "\<forall>j<512. ent m1 q j = 0" using ent1 [OF q(1)] pq by simp
  have R: "rest m d p i \<subseteq> frames m (Suc d) p" using frames_rest [OF i, of m d p] by blast
  have o: "others (Suc d) p i m m1"
    unfolding others_def
  proof (intro allI impI conjI)
    fix j :: nat assume j: "j < 512" "j \<noteq> i"
    show "ent m1 p j = ent m p j" using ent1 [OF p j(1)] pq j(2) by simp
    assume s: "is_sub (Suc d) (ent m p j)"
    have t: "tables_ok m d (nxt_table m p j)" "p \<notin> frames m d (nxt_table m p j)" using ok j(1) s by simp_all
    have "frames m d (nxt_table m p j) \<subseteq> rest m d p i" using j s by (auto simp: rest_def)
    then have "q \<notin> frames m d (nxt_table m p j)" using R U q(2) by blast
    then show "agree (frames m (Suc d - 1) (nxt_table m p j)) m m1"
      using t ent1 tables_ok_frames [OF t(1)] by (auto simp: agree_def)
  qed
  then show "others (Suc d) p i m m1" .
  note zt = zero_table [OF q(1) z]
  have new: "tables_ok m1 d (nxt_table m1 p i) \<and> frames m1 d (nxt_table m1 p i) \<inter> insert p (rest m d p i) = {}"
    unfolding nt zt(1) using zt(2) [of d] R U q(2) pq by blast
  note ec = entry_change [OF ok o i new]
  show "tables_ok m1 (Suc d) p" by (rule ec(1))
  have "\<not> is_sub (Suc d) (ent m p i)" by (rule not_present_sub [OF np])
  then show "frames m1 (Suc d) p = insert q (frames m (Suc d) p)"
    unfolding frames_rest [OF i] using others_rest [OF o] sub nt zt(1) by auto
  show "agree {r. frame r \<and> r \<notin> insert q (frames m (Suc d) p)} m m1"
    using ent1 root_frame [of p m "Suc d"] by (auto simp: agree_def simp del: frames.simps)
  show "lookup m1 (Suc d) p x = lookup m (Suc d) p x \<and> (populated m (Suc d) p x \<longrightarrow> populated m1 (Suc d) p x)"
  proof (cases "idx (Suc d) x = i")
    case True
    have "ent m1 p i AND PTE_PRESENT \<noteq> 0" using sub by (simp add: is_sub_def)
    then have "lookup m1 (Suc d) p x = None" using True sub zt(3) nt by (simp add: Let_def nxt_table_def)
    moreover have "lookup m (Suc d) p x = None" "\<not> populated m (Suc d) p x"
      using True np not_present_sub [OF np] by (simp_all add: Let_def)
    ultimately show ?thesis by simp
  qed (use ec(2) in blast)
qed

text \<open>What is mapped below a new table is mapped in the tree that did not have it.\<close>

lemma maps_fresh:
  assumes ok: "tables_ok m (Suc d) p" and U: "frames m (Suc d) p \<subseteq> U" and i: "i < 512" and np: "ent m p i AND PTE_PRESENT = 0"
    and q: "frame q" "q \<notin> U" and m1: "m1 = (zero_page q m)(pte_ptr (phys_ptr p) i := q OR pde_flags)"
    and mp: "maps (Suc d) p b e phys fl m1 (insert q U) m' U'" and o': "others (Suc d) p i m1 m'"
    and ie: "idx (Suc d) b \<le> i" "i \<le> idx (Suc d) e"
  shows "maps (Suc d) p b e phys fl m U m' U'" "others (Suc d) p i m m'"
proof -
  note f = fresh_table [OF ok U i np q m1] and a = mapsD [OF mp]
  have un: "frames m' (Suc d) p = frames m (Suc d) p \<union> (U' - U)" unfolding a(3) f(5) using a(2) q(2) by blast
  have ag: "agree {q. frame q \<and> q \<notin> frames m' (Suc d) p} m m'"
    by (rule agree_trans [OF agree_subset [OF f(7)] a(4)]) (unfold a(3) f(5), blast)
  have UU: "U \<subseteq> U'" using a(2) by blast
  have rs: "lookup m' (Suc d) p x = (if b \<le> x \<and> x \<le> e then leaf_of fl b phys x else lookup m (Suc d) p x)"
    "populated m (Suc d) p x \<longrightarrow> populated m' (Suc d) p x"
    "fl AND PTE_LARGE = 0 \<longrightarrow> b \<le> x \<longrightarrow> x \<le> e \<longrightarrow> populated m' (Suc d) p x"
    if x: "span (Suc (Suc d)) x = span (Suc (Suc d)) b" for x
    using a(5-7) [OF x] f(9) [of x] by auto
  have ut: "\<forall>j<512. j < idx (Suc d) b \<or> idx (Suc d) e < j \<longrightarrow> ent m' p j = ent m p j"
    using a(8) f(6) ie unfolding others_def by (metis not_less)
  show "maps (Suc d) p b e phys fl m U m' U'" unfolding maps_def using a(1) UU un ag ut rs by blast
  show "others (Suc d) p i m m'"
    unfolding others_def
  proof (intro allI impI conjI)
    fix j :: nat assume j: "j < 512" "j \<noteq> i"
    note k = others_keep [OF f(6) j]
    show "ent m' p j = ent m p j" using o' j k(1) by (simp add: others_def)
    assume s: "is_sub (Suc d) (ent m p j)"
    have "agree (frames m1 d (nxt_table m1 p j)) m1 m'" using o' j s k(1) by (simp add: others_def)
    then have "agree (frames m d (nxt_table m p j)) m1 m'" using k(2) k(3) [OF s] by simp
    moreover have "agree (frames m d (nxt_table m p j)) m m1" using f(6) j s by (simp add: others_def)
    ultimately show "agree (frames m (Suc d - 1) (nxt_table m p j)) m m'" using agree_trans by simp
  qed
qed

end
