(* ===== verification/Paging_Run.thy ===== *)
theory Paging_Run
  imports Paging_Map
begin

unbundle bit_operations_syntax

text \<open>
  The loop of \<open>__pt_map_pages\<close> over a supply of pages: the number of tables a mapping takes from the pool, the
  contract of a pool, and the proof that the mapping ends and does what \<open>maps\<close> says.
\<close>

section \<open>How many tables\<close>

definition leaf_fits :: "nat \<Rightarrow> u64 \<Rightarrow> u64 \<Rightarrow> u64 \<Rightarrow> u64 \<Rightarrow> bool" where
  "leaf_fits d fl b me phys \<longleftrightarrow> d \<noteq> 3 \<and> me - b + 1 = entry_size d \<and> b AND mask (shift_of d) = 0 \<and> phys AND mask (shift_of d) = 0 \<and>
     (d = 0 \<or> fl AND PTE_LARGE \<noteq> 0)"

text \<open>The table an entry points to; a table that does not exist yet is \<open>None\<close>.\<close>

definition sub_table :: "ptmem \<Rightarrow> nat \<Rightarrow> u64 option \<Rightarrow> nat \<Rightarrow> u64 option" where
  "sub_table m d po i = (case po of None \<Rightarrow> None | Some p \<Rightarrow> if is_sub d (ent m p i) then Some (nxt_table m p i) else None)"

definition entry_need :: "(u64 option \<Rightarrow> u64 \<Rightarrow> u64 \<Rightarrow> u64 \<Rightarrow> nat) \<Rightarrow> ptmem \<Rightarrow> nat \<Rightarrow> u64 \<Rightarrow> u64 option \<Rightarrow> nat \<Rightarrow> u64 \<Rightarrow> u64 \<Rightarrow> u64 \<Rightarrow> nat" where
  "entry_need sub m d fl po i b me phys =
     (case sub_table m d po i of
        Some q \<Rightarrow> sub (Some q) b me phys
      | None \<Rightarrow> if leaf_fits d fl b me phys then 0 else Suc (sub None b me phys))"

fun need_entries :: "(u64 option \<Rightarrow> u64 \<Rightarrow> u64 \<Rightarrow> u64 \<Rightarrow> nat) \<Rightarrow> ptmem \<Rightarrow> nat \<Rightarrow> u64 \<Rightarrow> u64 option \<Rightarrow> nat list \<Rightarrow> u64 \<Rightarrow> u64 \<Rightarrow> u64 \<Rightarrow> nat" where
  "need_entries sub m d fl po [] b e phys = 0"
| "need_entries sub m d fl po (i # is) b e phys =
     (let me = map_end_in (entry_size d) b e; k = me - b + 1
      in entry_need sub m d fl po i b me phys + need_entries sub m d fl po is (b + k) e (phys + k))"

fun needs :: "ptmem \<Rightarrow> u64 \<Rightarrow> nat \<Rightarrow> u64 option \<Rightarrow> u64 \<Rightarrow> u64 \<Rightarrow> u64 \<Rightarrow> nat" where
  "needs m fl 0 po b e phys = 0"
| "needs m fl (Suc d) po b e phys = need_entries (needs m fl d) m (Suc d) fl po [idx (Suc d) b..<Suc (idx (Suc d) e)] b e phys"

lemma need_entries_cong:
  assumes "\<And>j b e phys. j \<in> set is \<Longrightarrow> entry_need sub m d fl po j b e phys = entry_need sub' m' d fl po' j b e phys"
  shows "need_entries sub m d fl po is b e phys = need_entries sub' m' d fl po' is b e phys"
  using assms by (induction "is" arbitrary: b phys) (simp_all add: Let_def)

lemma needs_None: "needs m' fl d None b e phys = needs m fl d None b e phys"
proof (induction d arbitrary: b e phys)
  case (Suc d)
  show ?case unfolding needs.simps by (rule need_entries_cong) (simp add: entry_need_def sub_table_def Suc)
qed simp

lemma needs_zero:
  assumes "\<forall>i<512. ent m q i = 0"
  shows "needs m fl d (Some q) b e phys = needs m fl d None b e phys"
proof (cases d)
  case (Suc d')
  have "sub_table m d (Some q) j = sub_table m d None j" if "j < 512" for j using assms that by (simp add: sub_table_def is_sub_def)
  then show ?thesis unfolding Suc needs.simps
    by (intro need_entries_cong) (use Suc idx_less [of "Suc d'" e] in \<open>auto simp: entry_need_def simp del: idx_less\<close>)
qed simp

lemma need_others:
  assumes IH: "\<And>q b e phys. agree (frames m d q) m m' \<Longrightarrow> needs m' fl d (Some q) b e phys = needs m fl d (Some q) b e phys"
    and j: "j < 512" "ent m' p j = ent m p j" "is_sub (Suc d) (ent m p j) \<Longrightarrow> agree (frames m d (nxt_table m p j)) m m'"
  shows "entry_need (needs m' fl d) m' (Suc d) fl (Some p) j b e phys = entry_need (needs m fl d) m (Suc d) fl (Some p) j b e phys"
proof -
  have n: "nxt_table m' p j = nxt_table m p j" using j(2) by (simp add: nxt_table_def)
  show ?thesis using IH [OF j(3)] j(2) n needs_None [of m' fl d _ _ _ m]
    by (simp add: entry_need_def sub_table_def)
qed

lemma needs_agree: "agree (frames m d p) m m' \<Longrightarrow> needs m' fl d (Some p) b e phys = needs m fl d (Some p) b e phys"
proof (induction d arbitrary: p b e phys)
  case (Suc d)
  show ?case unfolding needs.simps
  proof (rule need_entries_cong)
    fix j b' e' phys' assume "j \<in> set [idx (Suc d) b..<Suc (idx (Suc d) e)]"
    then have j: "j < 512" using idx_less [of "Suc d" e] by (auto simp del: idx_less)
    have "ent m' p j = ent m p j" using Suc(2) j root_frame [of p m "Suc d"] unfolding agree_def by blast
    then show "entry_need (needs m' fl d) m' (Suc d) fl (Some p) j b' e' phys' = entry_need (needs m fl d) m (Suc d) fl (Some p) j b' e' phys'"
      using Suc(1) j agree_sub [OF Suc(2) j] by (intro need_others) simp_all
  qed
qed simp

lemma needs_others:
  assumes "others (Suc d) p i m m'" "\<forall>j\<in>set is. j < 512 \<and> j \<noteq> i"
  shows "need_entries (needs m' fl d) m' (Suc d) fl (Some p) is b e phys = need_entries (needs m fl d) m (Suc d) fl (Some p) is b e phys"
  by (intro need_entries_cong need_others needs_agree) (use assms in \<open>auto simp: others_def\<close>)

section \<open>A page\<close>

lemma pages_frame: "pages_ok b e phys \<Longrightarrow> frame phys"
proof -
  assume "pages_ok b e phys"
  then have p: "unat phys mod 4096 = 0" "unat phys < 2 ^ 52" by (auto simp: pages_ok_def)
  have "take_bit 12 phys = 0" using p(1) word_unat_eq_iff [of "take_bit 12 phys" 0] by (simp add: unsigned_take_bit_eq take_bit_eq_mod [of 12 "unat phys"])
  then have lo: "\<not> bit phys n" if "n < 12" for n using that by (metis bit_0_eq bit_take_bit_iff bot_apply bot_bool_def)
  have "take_bit 52 (unat phys) = unat phys" using p(2) by (simp add: take_bit_nat_eq_self)
  then have "take_bit 52 phys = phys" by (simp add: word_unat_eq_iff unsigned_take_bit_eq)
  then have hi: "\<not> bit phys n" if "52 \<le> n" for n using that by (metis bit_take_bit_iff not_less)
  show "frame phys" unfolding frame_def phys_mask_bits
  proof (rule bit_word_eqI)
    fix n assume n: "n < LENGTH(64)"
    consider "n < 12" | "12 \<le> n" "n < 52" | "52 \<le> n" by linarith
    then show "bit (phys AND push_bit 12 (mask 40)) n = bit phys n" using lo [of n] hi [of n] n by cases (auto simp: bit_simps)
  qed
qed

lemma leaf_whole:
  assumes "d < 4" "leaf_fits d fl b me phys" "span d me = span d b" "b \<le> me"
  shows "span d x = span d b \<longleftrightarrow> b \<le> x \<and> x \<le> me" "b \<le> x \<Longrightarrow> x \<le> me \<Longrightarrow> leaf_addr d phys x = (phys AND PTE_PHYS_MASK) + (x - b)"
proof -
  let ?k = "shift_of d"
  let ?z = "(2 :: nat) ^ ?k"
  have l: "me - b + 1 = entry_size d" "b AND mask ?k = 0" "phys AND mask ?k = 0" using assms(2) by (simp_all add: leaf_fits_def)
  have b: "unat b = span d b * ?z"
  proof -
    have "take_bit ?k (unat b) = 0" using l(2) by (metis take_bit_eq_mask unat_0 unsigned_take_bit_eq)
    then show ?thesis using div_mult_mod_eq [of "unat b" ?z] by (simp add: span_def take_bit_eq_mod)
  qed
  have me: "unat me = unat b + (?z - 1)"
  proof -
    have "me - b = entry_size d - 1" using l(1) by (simp add: algebra_simps)
    then have "unat (me - b) = ?z - 1" using unat_mask [OF shift_less [OF assms(1)]] by (simp add: entry_size_mask mask_eq_exp_minus_1)
    moreover have "unat (me - b) = unat me - unat b" "unat b \<le> unat me" using unat_sub [OF assms(4)] assms(4) by (simp_all add: word_le_nat_alt)
    ultimately show ?thesis by linarith
  qed
  have sx: "span d x * ?z \<le> unat x" "unat x \<le> span d x * ?z + (?z - 1)" for x
  proof -
    have "unat x mod ?z < ?z" by (rule mod_less_divisor) simp
    then show "span d x * ?z \<le> unat x" "unat x \<le> span d x * ?z + (?z - 1)"
      using div_mult_mod_eq [of "unat x" ?z] unfolding span_def by linarith+
  qed
  show w: "span d x = span d b \<longleftrightarrow> b \<le> x \<and> x \<le> me"
  proof
    assume "span d x = span d b"
    then show "b \<le> x \<and> x \<le> me" using sx [of x] b me by (simp add: word_le_nat_alt)
  qed (use in_span assms(3) in blast)
  assume x: "b \<le> x" "x \<le> me"
  then have s: "span d x = span d b" using w by blast
  have "unat (x AND mask ?k) = unat x mod ?z" unfolding take_bit_eq_mask [symmetric] unsigned_take_bit_eq by (simp add: take_bit_eq_mod)
  also have "\<dots> = unat x - span d b * ?z" using minus_div_mult_eq_mod [of "unat x" ?z] s by (simp add: span_def)
  also have "\<dots> = unat (x - b)" using unat_sub [OF x(1)] b by simp
  finally have xm: "x AND mask ?k = x - b" by (simp add: word_unat_eq_iff)
  have "(phys AND PTE_PHYS_MASK) AND NOT (mask ?k) = phys AND PTE_PHYS_MASK"
  proof (rule bit_word_eqI)
    fix n assume "n < LENGTH(64)"
    show "bit ((phys AND PTE_PHYS_MASK) AND NOT (mask ?k)) n = bit (phys AND PTE_PHYS_MASK) n"
    proof (cases "n < ?k")
      case True
      then have "\<not> bit phys n" using l(3) \<open>n < LENGTH(64)\<close> by (metis bit_and_iff bit_mask_iff bit_0_eq bot_apply bot_bool_def possible_bit_word)
      then show ?thesis by (simp add: bit_simps)
    qed (use \<open>n < LENGTH(64)\<close> in \<open>simp add: bit_simps\<close>)
  qed
  then show "leaf_addr d phys x = (phys AND PTE_PHYS_MASK) + (x - b)" by (simp add: leaf_addr_def xm)
qed

lemma leaf_fits_page:
  assumes "b \<le> me" "span 0 me = span 0 b" "pages_ok b me phys"
  shows "leaf_fits 0 fl b me phys"
proof -
  have p: "unat b mod 4096 = 0" "unat me mod 4096 = 4095" "unat phys mod 4096 = 0" using assms(3) by (simp_all add: pages_ok_def)
  have s: "unat me div 4096 = unat b div 4096" using assms(2) by (simp add: span_def shift_of_def)
  have "unat me = unat b + 4095" using div_mult_mod_eq [of "unat me" 4096] div_mult_mod_eq [of "unat b" 4096] p s by linarith
  then have "unat (me - b) = 4095" using unat_sub [OF assms(1)] by simp
  then have "me - b = mask 12" by (simp add: word_unat_eq_iff mask_eq_exp_minus_1)
  then have k: "me - b + 1 = entry_size 0" using entry_size_mask [of 0] by (simp add: shift_of_def algebra_simps)
  have z: "x AND mask 12 = 0" if "unat x mod 4096 = 0" for x :: u64
  proof -
    have "unat (take_bit 12 x) = 0" unfolding unsigned_take_bit_eq using that by (simp add: take_bit_eq_mod)
    then show ?thesis by (simp add: take_bit_eq_mask [symmetric] unat_0_iff)
  qed
  show ?thesis using k z [OF p(1)] z [OF p(3)] by (simp add: leaf_fits_def shift_of_def)
qed

lemma or_and_absorb: "fl OR (fl AND x) = (fl :: u64)"
  by (rule bit_word_eqI) (auto simp: bit_simps)

lemma map_leaf:
  assumes d: "d < 4" and ok: "tables_ok m d p" and np: "ent m p (idx d b) AND PTE_PRESENT = 0" and f: "leaf_fits d fl b me phys"
    and s: "span d me = span d b" "b \<le> me" and pg: "pages_ok b me phys" and fl: "fl AND PTE_PHYS_MASK = 0"
    and m': "m' = m(pte_ptr (phys_ptr p) (idx d b) := phys OR fl)"
  shows "maps d p b me phys fl m U m' U" "others d p (idx d b) m m'"
proof -
  have fr: "frame phys" by (rule pages_frame [OF pg])
  note ff = frame_flags [OF fr fl] and w = leaf_whole [OF d f s]
  have lp: "0 < d \<Longrightarrow> fl AND PTE_LARGE \<noteq> 0" using f by (auto simp: leaf_fits_def)
  have "d \<noteq> 3" using f by (simp add: leaf_fits_def)
  then have ns: "\<not> is_sub d (phys OR fl)" using ff(6) lp by (auto simp: is_sub_def)
  have val: "(if (phys OR fl) AND PTE_PRESENT = 0 then None else Some (leaf_addr d (phys OR fl) x, rights (phys OR fl))) = leaf_of fl b phys x"
    if "span d x = span d b" for x
  proof -
    have x: "b \<le> x" "x \<le> me" using w(1) [of x] that by simp_all
    have "leaf_addr d (phys OR fl) x = leaf_addr d phys x" using ff(1) fr by (simp add: leaf_addr_def frame_def)
    also have "\<dots> = phys + (x - b)" using w(2) [OF x] fr by (simp add: frame_def)
    finally show ?thesis using ff(4,5) by (simp add: leaf_of_def)
  qed
  show "maps d p b me phys fl m U m' U" "others d p (idx d b) m m'"
    by (rule maps_leaf [OF ok refl not_present_sub [OF np] m' ns w(1) val lp]; assumption)+
qed

section \<open>A supply of pages\<close>

text \<open>
  The contract of the pool: as long as \<open>stock U (Suc n)\<close> holds, \<open>get_page\<close> gives a page outside of \<open>U\<close>, filled with
  zeros, and \<open>n\<close> more can be got.
\<close>

text \<open>What \<open>__pt_map_pages\<close> promises for a table at depth \<open>d\<close>.\<close>

definition level_ok :: "'a page_pool option \<Rightarrow> (u64 set \<Rightarrow> nat \<Rightarrow> 'a \<Rightarrow> bool) \<Rightarrow> nat \<Rightarrow> u64 \<Rightarrow> bool" where
  "level_ok pool stock d fl \<longleftrightarrow> (\<forall>m p b e phys U n a. tables_ok m d p \<longrightarrow> frames m d p \<subseteq> U \<longrightarrow> 0 \<in> U \<longrightarrow> in_table d b e \<longrightarrow> pages_ok b e phys \<longrightarrow>
     (\<forall>x. b \<le> x \<longrightarrow> x \<le> e \<longrightarrow> lookup m d p x = None) \<longrightarrow> stock U (needs m fl d (Some p) b e phys + n) a \<longrightarrow>
     (\<exists>m' a' U'. pt_map_level (Suc d) fl pool (phys_ptr p) b e phys (m, a) = Some (Inr (m', a')) \<and>
        maps d p b e phys fl m U m' U' \<and> stock U' n a'))"

locale page_supply =
  fixes pool :: "'a page_pool option" and stock :: "u64 set \<Rightarrow> nat \<Rightarrow> 'a \<Rightarrow> bool"
  assumes take_page: "stock U (Suc n) a \<Longrightarrow> \<exists>q a'. pool_get_page pool m a = Some (Inr (q, zero_page q m, a')) \<and>
    frame q \<and> q \<notin> U \<and> stock (insert q U) n a'"
begin

lemma level_okD:
  assumes "level_ok pool stock d fl" "tables_ok m d p" "frames m d p \<subseteq> U" "0 \<in> U" "in_table d b e" "pages_ok b e phys"
    "\<And>x. b \<le> x \<Longrightarrow> x \<le> e \<Longrightarrow> lookup m d p x = None" "stock U (needs m fl d (Some p) b e phys + n) a"
  obtains m' a' U' where "pt_map_level (Suc d) fl pool (phys_ptr p) b e phys (m, a) = Some (Inr (m', a'))"
    "maps d p b e phys fl m U m' U'" "stock U' n a'"
  using assms(1) [unfolded level_ok_def, rule_format, OF assms(2-7) assms(8)] that by blast


text \<open>One turn of the loop, given what the recursive call does.\<close>

lemma entry_ok:
  assumes IH: "\<And>d'. d = Suc d' \<Longrightarrow> level_ok pool stock d' fl" and d: "d < 4" and ok: "tables_ok m d p" and U: "frames m d p \<subseteq> U" "0 \<in> U"
    and seg: "b \<le> me" "span d me = span d b" and pg: "pages_ok b me phys" and fl: "fl AND PTE_PHYS_MASK = 0"
    and un: "\<And>x. b \<le> x \<Longrightarrow> x \<le> me \<Longrightarrow> lookup m d p x = None"
    and st: "stock U (entry_need (needs m fl (d - 1)) m d fl (Some p) (idx d b) b me phys + n) a"
  shows "\<exists>m' a' U'. map_entry (pt_map_level d fl pool) (Suc d) (entry_size d) fl pool (phys_ptr p) (idx d b) b me phys (m, a) = Some (Inr (m', a')) \<and>
    maps d p b me phys fl m U m' U' \<and> others d p (idx d b) m m' \<and> stock U' n a'"
proof -
  let ?i = "idx d b"
  have large: "(if Suc d = 3 \<or> Suc d = 2 then fl AND PTE_LARGE else 0) \<noteq> 0 \<or> Suc d = 1 \<longleftrightarrow> (d = 1 \<or> d = 2) \<and> fl AND PTE_LARGE \<noteq> 0 \<or> d = 0" by auto
  have fits: "Suc d \<noteq> 4 \<and> me - b + 1 = entry_size d \<and> (b AND (entry_size d - 1) = 0 \<and> phys AND (entry_size d - 1) = 0) \<and>
      ((if Suc d = 3 \<or> Suc d = 2 then fl AND PTE_LARGE else 0) \<noteq> 0 \<or> Suc d = 1) \<longleftrightarrow> leaf_fits d fl b me phys"
    unfolding large using d by (auto simp: leaf_fits_def entry_size_mask)
  have val: "phys OR fl OR (if Suc d = 3 \<or> Suc d = 2 then fl AND PTE_LARGE else 0) = phys OR fl"
    by (simp add: or.assoc or_and_absorb)
  note body = map_entry_def [of "pt_map_level d fl pool" "Suc d" "entry_size d" fl pool "phys_ptr p" ?i b me phys "(m, a)"]
  have pe: "m (pte_ptr (phys_ptr p) ?i) = ent m p ?i" by (simp add: ent_def)
  have b_in: "lookup m d p b = None" using un seg(1) by simp
  show ?thesis
  proof (cases "ent m p ?i AND PTE_PRESENT = 0")
    case np: True
    then have sb: "sub_table m d (Some p) ?i = None" using not_present_sub by (simp add: sub_table_def)
    show ?thesis
    proof (cases "leaf_fits d fl b me phys")
      case True
      let ?m = "m(pte_ptr (phys_ptr p) ?i := phys OR fl)"
      have "map_entry (pt_map_level d fl pool) (Suc d) (entry_size d) fl pool (phys_ptr p) ?i b me phys (m, a) = Some (Inr (?m, a))"
        unfolding body Let_def case_prod_conv pe fits val using np True by simp
      moreover have "stock U n a" using st sb True by (simp add: entry_need_def)
      ultimately show ?thesis using map_leaf [OF d ok np True seg(2,1) pg fl refl] by blast
    next
      case False
      then have "d \<noteq> 0" using leaf_fits_page [OF seg(1) _ pg] seg(2) by metis
      then obtain d' where d': "d = Suc d'" by (cases d) auto
      have "stock U (Suc (needs m fl d' None b me phys + n)) a" using st sb False d' by (simp add: entry_need_def)
      from take_page [OF this, of m] obtain q a1 where q: "pool_get_page pool m a = Some (Inr (q, zero_page q m, a1))" "frame q" "q \<notin> U"
        "stock (insert q U) (needs m fl d' None b me phys + n) a1" by blast
      let ?m = "(zero_page q m)(pte_ptr (phys_ptr p) ?i := q OR pde_flags)"
      have q0: "q \<noteq> 0" using q(3) U(2) by blast
      have run: "map_entry (pt_map_level d fl pool) (Suc d) (entry_size d) fl pool (phys_ptr p) ?i b me phys (m, a) = pt_map_level (Suc d') fl pool (phys_ptr q) b me phys (?m, a1)"
        unfolding body Let_def case_prod_conv pe fits
        using np False d' q0 q(1) frame_flags(1) [OF q(2) pde_flags_bits(1)] by simp
      note f = fresh_table [OF ok [unfolded d'] U(1) [unfolded d'] idx_less np [unfolded d'] q(2,3) refl]
      note f = f [folded d']
      note zt = zero_table [OF q(2) f(8)]
      have i1: "tables_ok ?m d' q" "frames ?m d' q \<subseteq> insert q U" "0 \<in> insert q U" "in_table d' b me"
        using zt U(2) seg d' by (simp_all add: in_table_def)
      have i2: "stock (insert q U) (needs ?m fl d' (Some q) b me phys + n) a1"
        using q(4) needs_zero [OF f(8)] needs_None [of ?m fl d' b me phys m] by simp
      obtain m' a' U' where r: "pt_map_level (Suc d') fl pool (phys_ptr q) b me phys (?m, a1) = Some (Inr (m', a'))"
        "maps d' q b me phys fl ?m (insert q U) m' U'" "stock U' n a'"
        by (rule level_okD [OF IH [OF d'] i1 pg zt(3) i2])
      have fU: "frames ?m (Suc d') p \<subseteq> insert q U" using f(5) U(1) d' by blast
      have ok1: "tables_ok ?m (Suc d') p" using f(1) d' by simp
      have sub1: "is_sub (Suc d') (ent ?m p ?i)" "nxt_table ?m p ?i = q" using f(3,4) d' by simp_all
      have s1: "in_table d' b me" "?i = idx (Suc d') b" using i1(4) d' by simp_all
      have mp: "maps (Suc d') p b me phys fl ?m (insert q U) m' U'" "others (Suc d') p ?i ?m m'"
        using maps_descend [OF ok1 fU s1(2) sub1(1) s1(1)] r(2) sub1(2) by simp_all
      have ie: "idx (Suc d') b \<le> ?i" "?i \<le> idx (Suc d') me" using seg(2) d' by (simp_all add: idx_def)
      from maps_fresh [OF ok [unfolded d'] U(1) [unfolded d'] _ np q(2,3) refl mp ie] run r(1,3) show ?thesis unfolding d' by auto
    qed
  next
    case pr: False
    then have sub: "is_sub d (ent m p ?i)" using b_in lookup_entry [of m d p b] by (auto simp: Let_def split: if_splits)
    then have "0 < d" by (simp add: is_sub_def)
    then obtain d' where d': "d = Suc d'" by (cases d) auto
    let ?q = "nxt_table m p ?i"
    have "sub_table m d (Some p) ?i = Some ?q" using sub by (simp add: sub_table_def)
    then have st': "stock U (needs m fl d' (Some ?q) b me phys + n) a" using st d' by (simp add: entry_need_def)
    have run: "map_entry (pt_map_level d fl pool) (Suc d) (entry_size d) fl pool (phys_ptr p) ?i b me phys (m, a) = pt_map_level (Suc d') fl pool (phys_ptr ?q) b me phys (m, a)"
      unfolding body Let_def case_prod_conv pe using pr d' by (simp add: nxt_table_def)
    have sub': "is_sub (Suc d') (ent m p ?i)" and i: "?i = idx (Suc d') b" using sub d' by simp_all
    note td = tables_okD [OF ok [unfolded d'] idx_less sub' [unfolded d']]
    have t: "tables_ok m d' ?q" "frames m d' ?q \<subseteq> U" "in_table d' b me" using td(1,3) U(1) seg d' by (auto simp: in_table_def)
    have u': "lookup m d' ?q x = None" if x: "b \<le> x" "x \<le> me" for x
    proof -
      have "idx d x = ?i" using in_span [OF x seg(2)] by (simp add: idx_def)
      then show ?thesis using un [OF x] sub d' pr by (simp add: Let_def nxt_table_def)
    qed
    obtain m' a' U' where r: "pt_map_level (Suc d') fl pool (phys_ptr ?q) b me phys (m, a) = Some (Inr (m', a'))"
      "maps d' ?q b me phys fl m U m' U'" "stock U' n a'"
      by (rule level_okD [OF IH [OF d'] t(1,2) U(2) t(3) pg u' st'])
    from maps_descend [OF ok [unfolded d'] U(1) [unfolded d'] i sub' t(3) r(2)] run r(1,3) show ?thesis unfolding d' by auto
  qed
qed


lemma loop_ok:
  assumes IH: "\<And>d'. d = Suc d' \<Longrightarrow> level_ok pool stock d' fl" and d: "d < 4" and fl: "fl AND PTE_PHYS_MASK = 0"
  shows "is = [idx d b..<Suc (idx d e)] \<Longrightarrow> tables_ok m d p \<Longrightarrow> frames m d p \<subseteq> U \<Longrightarrow> 0 \<in> U \<Longrightarrow> in_table d b e \<Longrightarrow> pages_ok b e phys \<Longrightarrow>
    (\<And>x. b \<le> x \<Longrightarrow> x \<le> e \<Longrightarrow> lookup m d p x = None) \<Longrightarrow>
    stock U ((if d = 0 then 0 else need_entries (needs m fl (d - 1)) m d fl (Some p) is b e phys) + n) a \<Longrightarrow>
    \<exists>m' a' U'. map_entries (pt_map_level d fl pool) (Suc d) (entry_size d) fl pool (phys_ptr p) is b e phys (m, a) = Some (Inr (m', a')) \<and>
      maps d p b e phys fl m U m' U' \<and> stock U' n a'"
proof (induction "is" arbitrary: b phys m a U)
  case Nil
  then show ?case using in_table_segment(4) [OF d Nil(5) refl] by simp
next
  case (Cons i "is")
  let ?me = "map_end_in (entry_size d) b e"
  have i: "i = idx d b" and tl: "is = [Suc (idx d b)..<Suc (idx d e)]"
    using Cons(2) upt_conv_Cons [of "idx d b" "Suc (idx d e)"] in_table_segment(4) [OF d Cons(6) refl] by (simp_all del: upt_Suc)
  have be: "b \<le> e" using Cons(6) by (simp add: in_table_def)
  note s = segment [OF d be refl] and t = in_table_segment [OF d Cons(6) refl] and pg = pages_ok_segment [OF d be Cons(7) refl]
  let ?need = "if d = 0 then 0 else entry_need (needs m fl (d - 1)) m d fl (Some p) i b ?me phys"
  let ?k = "?me - b + 1"
  let ?rest = "if d = 0 then 0 else need_entries (needs m fl (d - 1)) m d fl (Some p) is (b + ?k) e (phys + ?k)"
  have bk: "b + ?k = ?me + 1" by (simp add: algebra_simps)
  have zero: "entry_need (needs m fl (d - 1)) m d fl (Some p) i b ?me phys = 0" if "d = 0"
    using leaf_fits_page [OF s(1)] s(3) pg(1) that by (simp add: entry_need_def sub_table_def is_sub_def)
  have st: "stock U (entry_need (needs m fl (d - 1)) m d fl (Some p) (idx d b) b ?me phys + (?rest + n)) a"
    using Cons(9) zero i by (simp add: Let_def add.assoc split: if_splits)
  have un: "lookup m d p x = None" if "b \<le> x" "x \<le> ?me" for x using Cons(8) that s(2) by simp
  obtain m1 a1 U1 where r: "map_entry (pt_map_level d fl pool) (Suc d) (entry_size d) fl pool (phys_ptr p) i b ?me phys (m, a) = Some (Inr (m1, a1))"
    "maps d p b ?me phys fl m U m1 U1" "others d p i m m1" "stock U1 (?rest + n) a1"
    using entry_ok [OF IH d Cons(3-5) s(1,3) pg(1) fl un st] i by blast
  show ?case
  proof (cases "?me = e")
    case True
    then have e: "is = []" using t(3) tl by simp
    have "stock U1 n a1" using r(4) e by (cases "d = 0") simp_all
    then show ?thesis using r(1,2) e True by (intro exI [of _ m1] exI [of _ a1] exI [of _ U1]) (simp add: Let_def)
  next
    case False
    note n = t(5) [OF False] and sn = s(5) [OF False] and a = mapsD [OF r(2)]
    have is1: "is = [idx d (?me + 1)..<Suc (idx d e)]" using tl n by simp
    have fU: "frames m1 d p \<subseteq> U1" using a(2,3) Cons(4) by blast
    have u1: "lookup m1 d p x = None" if x: "?me + 1 \<le> x" "x \<le> e" for x
    proof -
      have lt: "?me < e" using False s(2) by simp
      then have gt: "?me < x" using x(1) next_le by blast
      then have bx: "b \<le> x" using s(1) by simp
      have "span (Suc d) x = span (Suc d) b" using in_span [OF bx x(2)] Cons(6) by (simp add: in_table_def)
      then show ?thesis using a(5) [of x] gt Cons(8) [OF bx x(2)] by (simp add: not_le [symmetric])
    qed
    have is512: "\<forall>j\<in>set is. j < 512 \<and> j \<noteq> i" using tl i idx_less [of d e] by (auto simp del: idx_less)
    have "(if d = 0 then 0 else need_entries (needs m1 fl (d - 1)) m1 d fl (Some p) is (?me + 1) e (phys + ?k)) = ?rest"
      unfolding bk using needs_others [of "d - 1" p i m m1 "is" fl] r(3) is512 by (cases d) auto
    then have st1: "stock U1 ((if d = 0 then 0 else need_entries (needs m1 fl (d - 1)) m1 d fl (Some p) is (?me + 1) e (phys + ?k)) + n) a1"
      using r(4) by simp
    have z: "0 \<in> U1" using a(2) Cons(5) by blast
    have nt: "in_table d (?me + 1) e" using n by blast
    obtain m2 a2 U2 where r2: "map_entries (pt_map_level d fl pool) (Suc d) (entry_size d) fl pool (phys_ptr p) is (?me + 1) e (phys + ?k) (m1, a1) = Some (Inr (m2, a2))"
      "maps d p (?me + 1) e (phys + ?k) fl m1 U1 m2 U2" "stock U2 n a2"
      using Cons(1) [OF is1 a(1) fU z nt pg(2) [OF False] u1 st1] by blast
    have lt: "?me < e" using False s(2) by simp
    have sp: "span (Suc d) (?me + 1) = span (Suc d) b" using nt Cons(6) by (simp add: in_table_def)
    have se: "span (Suc d) e = span (Suc d) b" using Cons(6) by (simp add: in_table_def)
    have "maps d p b e phys fl m U m2 U2" by (rule maps_compose [OF r(2) r2(2) s(1) lt sp se])
    then show ?thesis using r(1) r2(1,3) bk by (intro exI [of _ m2] exI [of _ a2] exI [of _ U2]) (simp add: Let_def)
  qed
qed

theorem map_level_ok: "d < 4 \<Longrightarrow> fl AND PTE_PHYS_MASK = 0 \<Longrightarrow> level_ok pool stock d fl"
proof (induction d)
  case 0
  have "\<exists>m' a' U'. pt_map_level (Suc 0) fl pool (phys_ptr p) b e phys (m, a) = Some (Inr (m', a')) \<and> maps 0 p b e phys fl m U m' U' \<and> stock U' n a'"
    if "tables_ok m 0 p" "frames m 0 p \<subseteq> U" "0 \<in> U" "in_table 0 b e" "pages_ok b e phys" "\<forall>x. b \<le> x \<longrightarrow> x \<le> e \<longrightarrow> lookup m 0 p x = None"
      "stock U (needs m fl 0 (Some p) b e phys + n) a" for m p b e phys U n a
    using loop_ok [of 0 fl "[idx 0 b..<Suc (idx 0 e)]" b e m p U phys n a] 0 that pml_size_ok [of 0] pml_offs_ok [of 0] by simp
  then show ?case unfolding level_ok_def by blast
next
  case (Suc d)
  have lv: "level_ok pool stock d fl" using Suc by simp
  have "\<exists>m' a' U'. pt_map_level (Suc (Suc d)) fl pool (phys_ptr p) b e phys (m, a) = Some (Inr (m', a')) \<and> maps (Suc d) p b e phys fl m U m' U' \<and> stock U' n a'"
    if h: "tables_ok m (Suc d) p" "frames m (Suc d) p \<subseteq> U" "0 \<in> U" "in_table (Suc d) b e" "pages_ok b e phys"
      "\<forall>x. b \<le> x \<longrightarrow> x \<le> e \<longrightarrow> lookup m (Suc d) p x = None" "stock U (needs m fl (Suc d) (Some p) b e phys + n) a" for m p b e phys U n a
  proof -
    have "\<exists>m' a' U'. map_entries (pt_map_level (Suc d) fl pool) (Suc (Suc d)) (entry_size (Suc d)) fl pool (phys_ptr p) [idx (Suc d) b..<Suc (idx (Suc d) e)] b e phys (m, a) = Some (Inr (m', a')) \<and>
      maps (Suc d) p b e phys fl m U m' U' \<and> stock U' n a'"
      by (rule loop_ok) (use lv Suc(2,3) h in auto)
    then show ?thesis using pml_size_ok [OF Suc(2)] pml_offs_ok [OF Suc(2)] by (simp del: upt_Suc)
  qed
  then show ?case unfolding level_ok_def by blast
qed

end

end
