(* ===== verification/Paging_Boot.thy ===== *)
theory Paging_Boot
  imports Paging_Run Balloc_Rep
begin

unbundle bit_operations_syntax

text \<open>
  The pool of \<open>paging_setup\<close>, which takes its pages from \<open>balloc.c\<close>, meets the contract of a pool, and the table
  that \<open>paging_setup\<close> builds.
\<close>

section \<open>Whole ranges\<close>

context page_supply
begin

lemma map_pages_ok:
  assumes "b AND PAGE_MASK = 0" "e AND PAGE_MASK = 0" "flags AND PTE_PHYS_MASK = 0" "fl = flags OR PTE_PRESENT OR PTE_LARGE OR PTE_USER"
    and "tables_ok m 3 p" "frames m 3 p \<subseteq> U" "0 \<in> U" "in_table 3 b (e - 1)" "pages_ok b (e - 1) phys"
    and "\<And>x. b \<le> x \<Longrightarrow> x \<le> e - 1 \<Longrightarrow> lookup m 3 p x = None" "stock U (needs m fl 3 (Some p) b (e - 1) phys + n) a"
  shows "\<exists>m' a' U'. pt_map_pages (phys_ptr p) b e phys flags pool (m, a) = Some (Inr (m', a')) \<and>
    maps 3 p b (e - 1) phys fl m U m' U' \<and> stock U' n a'"
proof -
  have "(PTE_PRESENT OR PTE_LARGE OR PTE_USER) AND PTE_PHYS_MASK = 0"
    by (simp add: PTE_PHYS_MASK_def PTE_PRESENT_def PTE_LARGE_def PTE_USER_def)
  then have f: "fl AND PTE_PHYS_MASK = 0" using assms(3) by (simp add: assms(4) bit.conj_disj_distrib2 or.assoc)
  have "level_ok pool stock 3 fl" by (rule map_level_ok) (simp_all add: f)
  then obtain m' a' U' where "pt_map_level (Suc 3) fl pool (phys_ptr p) b (e - 1) phys (m, a) = Some (Inr (m', a'))"
    "maps 3 p b (e - 1) phys fl m U m' U'" "stock U' n a'"
    by (rule level_okD [OF _ assms(5-11)])
  moreover have "pt_map_pages (phys_ptr p) b e phys flags pool (m, a) = pt_map_level (Suc 3) fl pool (phys_ptr p) b (e - 1) phys (m, a)"
    using assms(1,2,4) by (simp add: pt_map_pages_def)
  ultimately show ?thesis by metis
qed

end

section \<open>How many tables at most\<close>

lemma map_end_aligned:
  assumes "d < 4" "b \<le> e" "me = map_end_in (entry_size d) b e" "me \<noteq> e" "b AND mask (shift_of d) = 0"
  shows "me - b + 1 = entry_size d" "(me + 1) AND mask (shift_of d) = 0"
proof -
  let ?k = "shift_of d"
  have me: "me = b OR mask ?k" using assms(3,4) map_end_or [OF assms(1), of b e] by (auto split: if_splits)
  also have "\<dots> = b + mask ?k"
    by (rule disjunctive_add [symmetric]) (metis assms(5) bit_0_eq bit_and_iff bot_apply bot_bool_def)
  finally have s: "me = b + mask ?k" .
  show k: "me - b + 1 = entry_size d" using s entry_size_mask [of d] by (simp add: algebra_simps)
  have "unat (me + 1) mod 2 ^ ?k = 0" using segment(5) [OF assms(1-4)] by blast
  then have "unat (take_bit ?k (me + 1)) = 0" unfolding unsigned_take_bit_eq by (simp add: take_bit_eq_mod)
  then show "(me + 1) AND mask ?k = 0" by (simp add: take_bit_eq_mask [symmetric] unat_0_iff)
qed

lemma and_mask_smaller: "x AND mask k = 0 \<Longrightarrow> j \<le> k \<Longrightarrow> (x :: u64) AND mask j = 0"
proof -
  assume a: "x AND mask k = 0" "j \<le> k"
  have "mask j = mask k AND (mask j :: u64)" by (rule bit_word_eqI) (use a(2) in \<open>auto simp: bit_simps\<close>)
  then have "x AND mask j = (x AND mask k) AND mask j" by (simp only: and.assoc)
  then show ?thesis using a(1) by simp
qed

lemma add_aligned: "x AND mask k = 0 \<Longrightarrow> (x + entry_size d :: u64) AND mask k = 0" if "k \<le> shift_of d" "d < 4"
proof -
  assume "x AND mask k = 0"
  then have x: "2 ^ k dvd unat x" by (simp add: and_mask_dvd_nat)
  have e: "2 ^ k dvd unat (entry_size d)" unfolding unat_entry_size [OF that(2)] by (rule le_imp_power_dvd [OF that(1)])
  have "2 ^ k dvd (2 :: nat) ^ 64" using that shift_less [OF that(2)] by (intro le_imp_power_dvd) simp
  then have "2 ^ k dvd (unat x + unat (entry_size d)) mod 2 ^ 64" using x e by (simp add: dvd_mod)
  then have "2 ^ k dvd unat (x + entry_size d)" by (simp add: unat_word_ariths)
  then show ?thesis unfolding and_mask_dvd_nat .
qed

lemma div_of_end: "0 < (z :: nat) \<Longrightarrow> (j * z + (z - 1)) div z = j"
  using div_mult_self3 [of z j "z - 1"] by simp

lemma fits_to_end:
  assumes "d < 3" "d < 4" "span d b = span d e" "b AND mask (shift_of d) = 0" "phys AND mask (shift_of d) = 0" "(e + 1) AND mask (shift_of d) = 0" "fl AND PTE_LARGE \<noteq> 0"
  shows "leaf_fits d fl b e phys"
proof -
  let ?z = "(2 :: nat) ^ shift_of d"
  have b: "unat b mod ?z = 0" using assms(4) by (simp only: and_mask_dvd_nat [symmetric] dvd_eq_mod_eq_0 [symmetric])
  have "?z dvd unat (e + 1)" using assms(6) by (simp only: and_mask_dvd_nat)
  moreover have "unat (e + 1) = (unat e + 1) mod 2 ^ 64" by (simp add: unat_word_ariths)
  moreover have "?z dvd 2 ^ 64" using shift_less [OF assms(2)] by (intro le_imp_power_dvd) simp
  ultimately have "?z dvd unat e + 1" using dvd_mod_imp_dvd by metis
  then obtain k where k: "unat e + 1 = ?z * k" ..
  then obtain j where j: "k = Suc j" by (cases k) auto
  have z: "0 < ?z" by simp
  have e: "unat e = j * ?z + (?z - 1)" using k j z by (simp add: mult.commute)
  have "unat e div ?z = j" unfolding e by (rule div_of_end [OF z])
  then have "span d e = j" by (simp add: span_def)
  then have "unat b = j * ?z" using div_mult_mod_eq [of "unat b" ?z] b assms(3) by (simp add: span_def)
  then have d: "unat e = unat b + (?z - 1)" using e by simp
  then have "b \<le> e" unfolding word_le_nat_alt by (metis le_add1)
  then have "unat (e - b) = unat e - unat b" by (rule unat_sub)
  then have "unat (e - b) = ?z - 1" using d by simp
  then have "e - b = mask (shift_of d)" using unat_mask [OF shift_less [OF assms(2)]] by (simp add: word_unat_eq_iff mask_eq_exp_minus_1)
  then have "e - b + 1 = entry_size d" using entry_size_mask [of d] by (simp add: algebra_simps)
  then show ?thesis using assms by (simp add: leaf_fits_def)
qed

text \<open>With large pages and an aligned begin only the end of the range needs tables below the third level.\<close>

lemma needs_aligned:
  assumes "fl AND PTE_LARGE \<noteq> 0"
  shows "d < 3 \<Longrightarrow> in_table d b e \<Longrightarrow> b AND mask (shift_of d) = 0 \<Longrightarrow> phys AND mask (shift_of d) = 0 \<Longrightarrow>
    needs m fl d None b e phys \<le> d \<and> ((e + 1) AND mask (shift_of d) = 0 \<longrightarrow> needs m fl d None b e phys = 0)"
proof (induction d arbitrary: b e phys)
  case (Suc d)
  have d4: "Suc d < 4" using Suc(2) by simp
  let ?k = "shift_of (Suc d)"
  have "need_entries (needs m fl d) m (Suc d) fl None is b e phys \<le> Suc d \<and>
      ((e + 1) AND mask ?k = 0 \<longrightarrow> need_entries (needs m fl d) m (Suc d) fl None is b e phys = 0)"
    if "is = [idx (Suc d) b..<Suc (idx (Suc d) e)]" "in_table (Suc d) b e" "b AND mask ?k = 0" "phys AND mask ?k = 0" for "is" b phys
    using that
  proof (induction "is" arbitrary: b phys)
    case (Cons i "is")
    let ?me = "map_end_in (entry_size (Suc d)) b e"
    note t = in_table_segment [OF d4 Cons(3) refl]
    have be: "b \<le> e" using Cons(3) by (simp add: in_table_def)
    have tl: "is = [Suc (idx (Suc d) b)..<Suc (idx (Suc d) e)]"
      using Cons(2) upt_conv_Cons [of "idx (Suc d) b" "Suc (idx (Suc d) e)"] t(4) by (simp del: upt_Suc)
    show ?case
    proof (cases "?me = e")
      case True
      then have e: "is = []" using t(3) tl by simp
      have "needs m fl d None b e phys \<le> d"
      proof (rule conjunct1 [OF Suc.IH])
        show "d < 3" "in_table d b e" using Suc(2) t(2) True by simp_all
        show "b AND mask (shift_of d) = 0" "phys AND mask (shift_of d) = 0"
          using and_mask_smaller [OF Cons(4), of "shift_of d"] and_mask_smaller [OF Cons(5), of "shift_of d"] by (simp_all add: shift_of_def)
      qed
      moreover have "leaf_fits (Suc d) fl b e phys" if "(e + 1) AND mask ?k = 0"
        by (rule fits_to_end [OF Suc(2) d4 _ Cons(4,5) that assms]) (use segment(4) [OF d4 be refl] True in blast)
      ultimately show ?thesis using e True by (auto simp: Let_def entry_need_def sub_table_def)
    next
      case False
      note al = map_end_aligned [OF d4 be refl False Cons(4)]
      have fit: "leaf_fits (Suc d) fl b ?me phys" using al(1) Cons(4,5) assms Suc(2) by (simp add: leaf_fits_def)
      let ?N = "need_entries (needs m fl d) m (Suc d) fl None is (?me + 1) e (phys + (?me - b + 1))"
      have "?N \<le> Suc d \<and> ((e + 1) AND mask ?k = 0 \<longrightarrow> ?N = 0)"
      proof (rule Cons(1))
        show "is = [idx (Suc d) (?me + 1)..<Suc (idx (Suc d) e)]" "in_table (Suc d) (?me + 1) e" using tl t(5) [OF False] by simp_all
        show "(?me + 1) AND mask ?k = 0" by (rule al(2))
        show "(phys + (?me - b + 1)) AND mask ?k = 0" unfolding al(1) by (rule add_aligned [OF order_refl d4 Cons(5)])
      qed
      moreover have "b + (?me - b + 1) = ?me + 1" by (simp add: algebra_simps)
      ultimately show ?thesis using fit by (simp add: Let_def entry_need_def sub_table_def)
    qed
  qed simp
  from this [OF refl Suc(3-5)] show ?case by simp
qed simp

lemma needs_aligned_top:
  assumes "fl AND PTE_LARGE \<noteq> 0" "in_table 3 b e" "b AND mask (shift_of 3) = 0" "phys AND mask (shift_of 3) = 0"
  shows "needs m fl 3 None b e phys \<le> idx 3 e - idx 3 b + 3"
proof -
  have d4: "3 < (4 :: nat)" "2 < (4 :: nat)" by simp_all
  have "need_entries (needs m fl 2) m 3 fl None is b e phys \<le> idx 3 e - idx 3 b + 3"
    if "is = [idx 3 b..<Suc (idx 3 e)]" "in_table 3 b e" "b AND mask (shift_of 3) = 0" "phys AND mask (shift_of 3) = 0" for "is" b phys
    using that
  proof (induction "is" arbitrary: b phys)
    case (Cons i "is")
    let ?me = "map_end_in (entry_size 3) b e"
    note t = in_table_segment [OF d4(1) Cons(3) refl]
    have be: "b \<le> e" using Cons(3) by (simp add: in_table_def)
    have tl: "is = [Suc (idx 3 b)..<Suc (idx 3 e)]"
      using Cons(2) upt_conv_Cons [of "idx 3 b" "Suc (idx 3 e)"] t(4) by (simp del: upt_Suc)
    have al2: "b AND mask (shift_of 2) = 0" "phys AND mask (shift_of 2) = 0"
      using Cons(4,5) and_mask_smaller [of _ "shift_of 3" "shift_of 2"] by (simp_all add: shift_of_def)
    have in2: "in_table 2 b ?me" using t(2) [of 2] by simp
    note n2 = needs_aligned [OF assms(1) _ in2 al2, of m]
    show ?case
    proof (cases "?me = e")
      case True
      then have "is = []" using t(3) tl by simp
      then show ?thesis using n2 True t(3) by (simp add: Let_def entry_need_def sub_table_def)
    next
      case False
      note al = map_end_aligned [OF d4(1) be refl False Cons(4)]
      note n = t(5) [OF False]
      have "(?me + 1) AND mask (shift_of 2) = 0" using and_mask_smaller [OF al(2), of "shift_of 2"] by (simp add: shift_of_def)
      then have whole: "needs m fl 2 None b ?me phys = 0" using n2 by simp
      have "need_entries (needs m fl 2) m 3 fl None is (?me + 1) e (phys + (?me - b + 1)) \<le> idx 3 e - idx 3 (?me + 1) + 3"
      proof (rule Cons(1))
        show "is = [idx 3 (?me + 1)..<Suc (idx 3 e)]" "in_table 3 (?me + 1) e" using tl n by simp_all
        show "(?me + 1) AND mask (shift_of 3) = 0" by (rule al(2))
        show "(phys + (?me - b + 1)) AND mask (shift_of 3) = 0" unfolding al(1) by (rule add_aligned [OF order_refl d4(1) Cons(5)])
      qed
      moreover have "b + (?me - b + 1) = ?me + 1" by (simp add: algebra_simps)
      moreover have "idx 3 (?me + 1) \<le> idx 3 e" using in_table_segment(4) [OF d4(1) _ refl] n by blast
      ultimately have "need_entries (needs m fl 2) m 3 fl None (i # is) b e phys \<le> Suc (idx 3 e - Suc (idx 3 b) + 3)" "Suc (idx 3 b) \<le> idx 3 e"
        using whole n by (simp_all add: Let_def entry_need_def sub_table_def)
      then show ?thesis by linarith
    qed
  qed simp
  from this [OF refl assms(2-4)] show ?thesis by (simp add: numeral_3_eq_3 numeral_2_eq_2)
qed

lemma needs_single:
  assumes "Suc d < 4" "in_table (Suc d) b e" "idx (Suc d) b = idx (Suc d) e"
  shows "needs m fl (Suc d) po b e phys = entry_need (needs m fl d) m (Suc d) fl po (idx (Suc d) b) b e phys"
proof -
  have "map_end_in (entry_size (Suc d)) b e = e" using in_table_segment(3) [OF assms(1,2) refl] assms(3) by simp
  then show ?thesis using assms(3) by (simp add: Let_def)
qed

lemma needs_one:
  assumes "in_table 3 b e" "idx 3 b = idx 3 e"
  shows "needs m fl 3 po b e phys = entry_need (needs m fl 2) m 3 fl po (idx 3 b) b e phys"
  using needs_single [of 2 b e m fl po phys] assms by (simp add: numeral_3_eq_3 numeral_2_eq_2)

section \<open>Pages from the boot-time ranges\<close>

definition free_pages :: "range list \<Rightarrow> u64 set" where
  "free_pages S = {a. a < a + PAGE_SIZE \<and> a + PAGE_SIZE \<le> BOOTSTRAP_MEM \<and> a AND (PAGE_SIZE - 1) = 0 \<and> {a..<a + PAGE_SIZE} \<subseteq> cover S}"

text \<open>\<open>U\<close> are the pages in use; they have come from the pages \<open>R0\<close> that were free at first.\<close>

definition boot_stock :: "range list \<Rightarrow> u64 set \<Rightarrow> nat \<Rightarrow> balloc \<Rightarrow> bool" where
  "boot_stock R0 U n s \<longleftrightarrow> (\<exists>k rs. balloc_rep s k rs \<and> n < k \<and> n \<le> card (free_pages (rs FreeRanges)) \<and>
     U \<inter> free_pages (rs FreeRanges) = {} \<and> U \<union> free_pages (rs FreeRanges) = insert 0 (free_pages R0))"

lemma page_unat:
  assumes "a < a + PAGE_SIZE" "a AND (PAGE_SIZE - 1) = 0"
  shows "unat a mod 4096 = 0" "unat (a + PAGE_SIZE) = unat a + 4096"
proof -
  have "PAGE_SIZE - 1 = mask 12" by (simp add: PAGE_SIZE_def mask_eq_exp_minus_1)
  then have "a AND mask 12 = 0" using assms(2) by simp
  then have "2 ^ 12 dvd unat a" unfolding and_mask_dvd_nat .
  then show "unat a mod 4096 = 0" by simp
  show "unat (a + PAGE_SIZE) = unat a + 4096" 
    using assms(1) unat_plus_if' [of a "0x1000"] by (simp add: PAGE_SIZE_def word_less_nat_alt split: if_splits)
qed

lemma frameI: "unat q mod 4096 = 0 \<Longrightarrow> unat q < 2 ^ 50 \<Longrightarrow> frame q"
  by (rule pages_frame [of 0 "0xFFF"]) (simp add: pages_ok_def)

lemma free_pages_take:
  assumes "a \<in> free_pages S" "cover S' = cover S - {a..<a + PAGE_SIZE}"
  shows "free_pages S' = free_pages S - {a}"
proof -
  have a: "a < a + PAGE_SIZE" "a AND (PAGE_SIZE - 1) = 0" "{a..<a + PAGE_SIZE} \<subseteq> cover S" using assms(1) by (simp_all add: free_pages_def)
  have dj: "{b..<b + PAGE_SIZE} \<inter> {a..<a + PAGE_SIZE} = {}" if b: "b < b + PAGE_SIZE" "b AND (PAGE_SIZE - 1) = 0" "b \<noteq> a" for b
  proof -
    note ua = page_unat [OF a(1,2)] and ub = page_unat [OF b(1,2)]
    have no: False if x: "b \<le> x" "x < b + PAGE_SIZE" "a \<le> x" "x < a + PAGE_SIZE" for x :: u64
    proof -
      have "unat b \<le> unat x" "unat x < unat b + 4096" "unat a \<le> unat x" "unat x < unat a + 4096"
        using x ua(2) ub(2) by (simp_all add: word_le_nat_alt word_less_nat_alt)
      moreover obtain i j where "unat a = 4096 * i" "unat b = 4096 * j" using ua(1) ub(1) by (metis mod_0_imp_dvd dvd_def)
      ultimately have "4096 * i < 4096 * j + 4096" "4096 * j < 4096 * i + 4096" by linarith+
      then have "i = j" by linarith
      then have "unat a = unat b" using \<open>unat a = 4096 * i\<close> \<open>unat b = 4096 * j\<close> by simp
      then show False using b(3) by (simp add: word_unat_eq_iff)
    qed
    show ?thesis
    proof (intro equals0I)
      fix x assume "x \<in> {b..<b + PAGE_SIZE} \<inter> {a..<a + PAGE_SIZE}"
      then show False using no [of x] by simp
    qed
  qed
  have "b \<in> free_pages S' \<longleftrightarrow> b \<in> free_pages S - {a}" for b
  proof (cases "b = a")
    case True
    then show ?thesis using a(1) assms(2) by (auto simp: free_pages_def)
  next
    case False
    then show ?thesis using dj [of b] unfolding free_pages_def assms(2) by blast
  qed
  then show ?thesis by blast
qed

lemma free_page_frame: "a \<in> free_pages S \<Longrightarrow> frame a" "a \<in> free_pages S \<Longrightarrow> a \<noteq> BOOTSTRAP_MEM"
proof -
  assume "a \<in> free_pages S"
  then have a: "a < a + PAGE_SIZE" "a AND (PAGE_SIZE - 1) = 0" "a + PAGE_SIZE \<le> BOOTSTRAP_MEM" by (simp_all add: free_pages_def)
  have "unat a + 4096 \<le> 2 ^ 32" using page_unat(2) [OF a(1,2)] a(3) by (simp add: word_le_nat_alt BOOTSTRAP_MEM_def)
  then show "frame a" "a \<noteq> BOOTSTRAP_MEM" using page_unat(1) [OF a(1,2)] by (auto intro: frameI simp: BOOTSTRAP_MEM_def)
qed

text \<open>The lowest free page is taken.\<close>

lemma setup_get_page:
  assumes "balloc_rep s k rs" "2 \<le> k" "free_pages (rs FreeRanges) \<noteq> {}"
  obtains q s' k' r where "paging_setup_get_page m s = Some (Inr (q, zero_page q m, s'))" "balloc_rep s' k' (rs(FreeRanges := r))" "k \<le> Suc k'"
    "q \<in> free_pages (rs FreeRanges)" "free_pages r = free_pages (rs FreeRanges) - {q}" "\<forall>x\<in>free_pages (rs FreeRanges). q \<le> x"
proof -
  let ?F = "free_pages (rs FreeRanges)"
  have nw: "no_wrap PAGE_SIZE PAGE_SIZE 0 BOOTSTRAP_MEM" by (simp add: no_wrap_def PAGE_SIZE_def BOOTSTRAP_MEM_def)
  have mk: "PAGE_SIZE - 1 = mask 12" by (simp add: PAGE_SIZE_def mask_eq_exp_minus_1)
  have ex: "\<exists>a. 0 \<le> a \<and> a < a + PAGE_SIZE \<and> a + PAGE_SIZE \<le> BOOTSTRAP_MEM \<and> a AND (PAGE_SIZE - 1) = 0 \<and> {a..<a + PAGE_SIZE} \<subseteq> cover (rs FreeRanges)"
    using assms(3) by (auto simp: free_pages_def)
  obtain q s' k' r where q: "balloc_alloc_aligned PAGE_SIZE PAGE_SIZE 0 BOOTSTRAP_MEM s = Some (Inr (q, s'))" "balloc_rep s' k' (rs(FreeRanges := r))"
    "k \<le> Suc k'" "q < q + PAGE_SIZE" "q + PAGE_SIZE \<le> BOOTSTRAP_MEM" "q AND (PAGE_SIZE - 1) = 0" "{q..<q + PAGE_SIZE} \<subseteq> cover (rs FreeRanges)"
    "cover r = cover (rs FreeRanges) - {q..<q + PAGE_SIZE}"
    "\<forall>x. 0 \<le> x \<and> x < x + PAGE_SIZE \<and> x + PAGE_SIZE \<le> BOOTSTRAP_MEM \<and> x AND (PAGE_SIZE - 1) = 0 \<and> {x..<x + PAGE_SIZE} \<subseteq> cover (rs FreeRanges) \<longrightarrow> q \<le> x"
    using alloc_exact [OF assms(1,2) nw mk] ex by blast
  have f: "q \<in> ?F" using q(4-7) by (simp add: free_pages_def)
  show thesis
  proof (rule that [OF _ q(2,3) f free_pages_take [OF f q(8)]])
    show "paging_setup_get_page m s = Some (Inr (q, zero_page q m, s'))" using q(1) free_page_frame(2) [OF f] by (simp add: paging_setup_get_page_def)
    show "\<forall>x\<in>?F. q \<le> x" using q(9) by (simp add: free_pages_def)
  qed
qed

interpretation boot: page_supply "Some setup_pool" "boot_stock R0" for R0
proof
  fix U n s and m :: ptmem assume "boot_stock R0 U (Suc n) s"
  then obtain k rs where s: "balloc_rep s k rs" "Suc n < k" "Suc n \<le> card (free_pages (rs FreeRanges))"
    "U \<inter> free_pages (rs FreeRanges) = {}" "U \<union> free_pages (rs FreeRanges) = insert 0 (free_pages R0)" unfolding boot_stock_def by blast
  let ?F = "free_pages (rs FreeRanges)"
  have ne: "2 \<le> k" "?F \<noteq> {}" using s(2,3) by auto
  obtain q s' k' r where q: "paging_setup_get_page m s = Some (Inr (q, zero_page q m, s'))" "balloc_rep s' k' (rs(FreeRanges := r))" "k \<le> Suc k'"
    "q \<in> ?F" "free_pages r = ?F - {q}" by (rule setup_get_page [OF s(1) ne])
  have "n \<le> card (?F - {q})" using s(3) q(4) by (simp add: card_Diff_singleton)
  then have "boot_stock R0 (insert q U) n s'" unfolding boot_stock_def
    using q(2-5) s(2,4,5) by (intro exI [of _ k'] exI [of _ "rs(FreeRanges := r)"]) auto
  then show "\<exists>q a'. pool_get_page (Some setup_pool) m s = Some (Inr (q, zero_page q m, a')) \<and> frame q \<and> q \<notin> U \<and> boot_stock R0 (insert q U) n a'"
    using q(1,4) s(4) free_page_frame(1) [OF q(4)] by (auto simp: pool_get_page_def setup_pool_def)
qed

section \<open>The table of the kernel\<close>

lemma span_unat: "span 4 x = unat x div 2 ^ 48"
  by (simp add: span_def shift_of_def)

lemma upper_half: "HIGHER_BASE \<le> x \<Longrightarrow> span 4 x = 65535"
proof -
  assume "HIGHER_BASE \<le> x"
  then have "65535 * 2 ^ 48 \<le> unat x" by (simp add: word_le_nat_alt HIGHER_BASE_def)
  moreover have "unat x < 65536 * 2 ^ 48" using u64_less [of x] by simp
  ultimately show ?thesis unfolding span_unat by (intro div_nat_eqI) simp_all
qed

lemma upper_ranges:
  assumes "0 < M" "M < 0x7f8000000000" "M AND PAGE_MASK = 0"
  shows "in_table 3 HIGHER_BASE (HIGHER_BASE + M - 1)" "pages_ok HIGHER_BASE (HIGHER_BASE + M - 1) 0"
    "HIGHER_BASE \<le> x \<Longrightarrow> x \<le> HIGHER_BASE + M - 1 \<longleftrightarrow> x - HIGHER_BASE < M" "(HIGHER_BASE + M) AND PAGE_MASK = 0"
    "idx 3 (HIGHER_BASE + M - 1) < 511" "idx 3 (HIGHER_BASE + M - 1) = 256 + (unat M - 1) div 2 ^ 39"
proof -
  have m: "0 < unat M" "unat M < 0x7f8000000000" using assms(1,2) by (simp_all add: word_less_nat_alt)
  have uh: "unat HIGHER_BASE = 0xffff800000000000" by (simp add: HIGHER_BASE_def)
  have e: "unat (HIGHER_BASE + M - 1) = 0xffff800000000000 + (unat M - 1)"
  proof -
    have "unat (M - 1) = unat M - 1" using assms(1) by (simp add: unat_minus_one)
    then have "unat (HIGHER_BASE + (M - 1)) = unat HIGHER_BASE + (unat M - 1)" using m uh by (simp add: unat_word_ariths)
    then show ?thesis using uh by (simp add: algebra_simps)
  qed
  have be: "HIGHER_BASE \<le> HIGHER_BASE + M - 1" using e uh by (simp add: word_le_nat_alt)
  show "in_table 3 HIGHER_BASE (HIGHER_BASE + M - 1)" using be upper_half [OF be] upper_half [OF order_refl] by (simp add: in_table_def)
  have pm: "PAGE_MASK = mask 12" by (simp add: PAGE_MASK_def PAGE_SIZE_def mask_eq_exp_minus_1)
  have d12: "2 ^ 12 dvd unat M" using assms(3) unfolding pm and_mask_dvd_nat .
  then obtain j where j: "unat M = 4096 * j" by auto
  show "pages_ok HIGHER_BASE (HIGHER_BASE + M - 1) 0"
  proof -
    have "4096 dvd unat (HIGHER_BASE + M - 1) + 1" using e j m by simp
    then have "unat (HIGHER_BASE + M - 1) mod 4096 = 4095" by (rule dvd_Suc_4096)
    then show ?thesis using e uh m by (simp add: pages_ok_def)
  qed
  show "x \<le> HIGHER_BASE + M - 1 \<longleftrightarrow> x - HIGHER_BASE < M" if x: "HIGHER_BASE \<le> x"
  proof -
    have "unat (x - HIGHER_BASE) = unat x - 0xffff800000000000" using unat_sub [OF x] uh by simp
    moreover have "0xffff800000000000 \<le> unat x" using x uh by (simp add: word_le_nat_alt)
    ultimately show ?thesis using e m by (simp add: word_le_nat_alt word_less_nat_alt) linarith
  qed
  have "unat (HIGHER_BASE + M) = 0xffff800000000000 + unat M" using m uh by (simp add: unat_word_ariths)
  then have "2 ^ 12 dvd unat (HIGHER_BASE + M)" using d12 by simp
  then show "(HIGHER_BASE + M) AND PAGE_MASK = 0" unfolding pm and_mask_dvd_nat .
  have lt: "(unat M - 1) div 2 ^ 39 < 255" using m by (intro less_mult_imp_div_less) simp
  have "span 3 (HIGHER_BASE + M - 1) = (33554176 * 2 ^ 39 + (unat M - 1)) div 2 ^ 39" by (simp add: span_def shift_of_def e)
  also have "\<dots> = 33554176 + (unat M - 1) div 2 ^ 39" by (rule div_mult_self3) simp
  finally have "idx 3 (HIGHER_BASE + M - 1) = (65535 * 512 + (256 + (unat M - 1) div 2 ^ 39)) mod 512" by (simp add: idx_def)
  also have "\<dots> = (256 + (unat M - 1) div 2 ^ 39) mod 512" by (rule mod_mult_self3)
  finally show i: "idx 3 (HIGHER_BASE + M - 1) = 256 + (unat M - 1) div 2 ^ 39" using lt by simp
  then show "idx 3 (HIGHER_BASE + M - 1) < 511" using lt by linarith
qed

definition kernel_flags :: u64 where "kernel_flags = PTE_WRITE OR PTE_PRESENT OR PTE_LARGE OR PTE_USER"

lemma kernel_flags_bits:
  "kernel_flags AND PTE_PRESENT \<noteq> 0" "kernel_flags AND PTE_LARGE \<noteq> 0" "rights kernel_flags = PTE_WRITE OR PTE_USER" "PTE_WRITE AND PTE_PHYS_MASK = 0"
  by (simp_all add: kernel_flags_def rights_def PTE_PHYS_MASK_def PTE_PRESENT_def PTE_LARGE_def PTE_WRITE_def PTE_USER_def)

lemma setup_ok:
  assumes r: "balloc_rep (boot_mem g) k rs" "rs MemoryMap \<noteq> []" and M: "M = snd (last (rs MemoryMap)) AND NOT PAGE_MASK" "0 < M" "M < 0x7f8000000000"
    and n: "unat M div 2 ^ 39 + 8 < k" "unat M div 2 ^ 39 + 8 \<le> card (free_pages (rs FreeRanges))"
  shows "\<exists>g'. paging_setup g = Some (Inr g') \<and> tables_ok (ptables g') 3 (cr3 g') \<and> frames (ptables g') 3 (cr3 g') \<subseteq> free_pages (rs FreeRanges) \<and>
    initrd g' = (phys_ptr (fst (initrd g)), phys_ptr (snd (initrd g))) \<and>
    (\<forall>x\<ge>HIGHER_BASE. lookup (ptables g') 3 (cr3 g') x =
      (if x - HIGHER_BASE < M then Some (x - HIGHER_BASE, PTE_WRITE OR PTE_USER)
       else if VIRTUAL_BASE \<le> x then Some (x - VIRTUAL_BASE, PTE_WRITE OR PTE_USER) else None))"
proof -
  let ?F = "free_pages (rs FreeRanges)" and ?fl = "kernel_flags" and ?e = "HIGHER_BASE + M - 1"
  have Mp: "M AND PAGE_MASK = 0" using M(1) by (simp add: and.assoc)
  note up = upper_ranges [OF M(2,3) Mp]
  have ne: "2 \<le> k" "?F \<noteq> {}" using n by auto
  obtain q s1 k1 r1 where q: "paging_setup_get_page (ptables g) (boot_mem g) = Some (Inr (q, zero_page q (ptables g), s1))"
    "balloc_rep s1 k1 (rs(FreeRanges := r1))" "k \<le> Suc k1" "q \<in> ?F" "free_pages r1 = ?F - {q}" "\<forall>x\<in>?F. q \<le> x"
    by (rule setup_get_page [OF r(1) ne, of "ptables g"])
  let ?m1 = "zero_page q (ptables g)" and ?S = "boot_stock (rs FreeRanges)"
  have fq: "frame q" by (rule free_page_frame(1) [OF q(4)])
  have z1: "\<forall>i<512. ent ?m1 q i = 0" using ent_zero_page [OF fq fq] by simp
  note zt = zero_table [OF fq z1]
  have nq: "needs ?m1 ?fl 3 (Some q) HIGHER_BASE ?e 0 \<le> unat M div 2 ^ 39 + 3"
  proof -
    have al: "HIGHER_BASE AND mask (shift_of 3) = 0" "0 AND mask (shift_of 3) = (0 :: u64)" by (simp_all add: HIGHER_BASE_def shift_of_def mask_eq_exp_minus_1)
    have "idx 3 HIGHER_BASE = 256" by (simp add: idx_def span_def shift_of_def HIGHER_BASE_def)
    then have "needs ?m1 ?fl 3 None HIGHER_BASE ?e 0 \<le> (unat M - 1) div 2 ^ 39 + 3"
      using needs_aligned_top [OF kernel_flags_bits(2) up(1) al, of ?m1] up(6) by simp
    moreover have "(unat M - 1) div 2 ^ 39 \<le> unat M div 2 ^ 39" by (rule div_le_mono) simp
    ultimately show ?thesis using needs_zero [OF z1] by simp
  qed
  have n1: "needs ?m1 ?fl 3 (Some q) HIGHER_BASE ?e 0 + 3 < k1" "needs ?m1 ?fl 3 (Some q) HIGHER_BASE ?e 0 + 3 \<le> card (?F - {q})"
    using nq n q(3,4) by (simp_all add: card_Diff_singleton)
  have zero: "q = 0" if "0 \<in> ?F" using q(6) that by auto
  have st1: "?S {0, q} (needs ?m1 ?fl 3 (Some q) HIGHER_BASE ?e 0 + 3) s1"
    unfolding boot_stock_def using q(2,4,5) n1 zero by (intro exI [of _ k1] exI [of _ "rs(FreeRanges := r1)"]) auto
  have a1: "HIGHER_BASE AND PAGE_MASK = 0" by (simp add: HIGHER_BASE_def PAGE_MASK_def PAGE_SIZE_def)
  have fU: "frames ?m1 3 q \<subseteq> {0, q}" using zt(1) [of 3] by simp
  have z: "0 \<in> {0, q}" by simp
  obtain m2 s2 U2 where m2: "pt_map_pages (phys_ptr q) HIGHER_BASE (HIGHER_BASE + M) 0 PTE_WRITE (Some setup_pool) (?m1, s1) = Some (Inr (m2, s2))"
    "maps 3 q HIGHER_BASE ?e 0 ?fl ?m1 {0, q} m2 U2" "?S U2 3 s2"
    using boot.map_pages_ok [OF a1 up(4) kernel_flags_bits(4) kernel_flags_def zt(2) fU z up(1,2) zt(3) st1] by blast
  note d2 = mapsD [OF m2(2)]
  have e2: "ent m2 q 511 = 0" using d2(8) [of 511] up(5) z1 by simp
  have iv: "idx 3 VIRTUAL_BASE = 511" "idx 3 (- 1) = 511" by (simp_all add: idx_def span_def shift_of_def VIRTUAL_BASE_def unsigned_minus_1_eq_mask mask_eq_exp_minus_1)
  have sv: "HIGHER_BASE \<le> VIRTUAL_BASE" "VIRTUAL_BASE \<le> - 1" "HIGHER_BASE \<le> - 1" by (simp_all add: HIGHER_BASE_def VIRTUAL_BASE_def)
  have iv2: "in_table 3 VIRTUAL_BASE (0 - 1)" using sv upper_half [OF sv(1)] upper_half [OF sv(3)] by (simp add: in_table_def)
  have pv: "pages_ok VIRTUAL_BASE (0 - 1) 0" by (simp add: pages_ok_def VIRTUAL_BASE_def unsigned_minus_1_eq_mask mask_eq_exp_minus_1)
  have "?e - HIGHER_BASE < M" using up(3) [of ?e] up(1) by (simp add: in_table_def)
  have low: "?e < VIRTUAL_BASE"
  proof (rule ccontr)
    assume "\<not> ?e < VIRTUAL_BASE"
    then have "VIRTUAL_BASE - HIGHER_BASE < M" using up(3) [OF sv(1)] by (simp add: not_less)
    then show False using M(3) by (simp add: VIRTUAL_BASE_def HIGHER_BASE_def word_less_nat_alt)
  qed
  have un2: "lookup m2 3 q x = None" if "VIRTUAL_BASE \<le> x" "x \<le> 0 - 1" for x
  proof -
    have "HIGHER_BASE \<le> x" using that(1) sv(1) by simp
    then have "span (Suc 3) x = span (Suc 3) HIGHER_BASE" using upper_half [of x] upper_half [OF order_refl] by simp
    from d2(5) [OF this] zt(3) show ?thesis using low that(1) by auto
  qed
  have n2: "needs m2 ?fl 3 (Some q) VIRTUAL_BASE (0 - 1) 0 \<le> 3"
  proof -
    have "sub_table m2 3 (Some q) 511 = None" using e2 by (simp add: sub_table_def is_sub_def)
    then have "needs m2 ?fl 3 (Some q) VIRTUAL_BASE (0 - 1) 0 \<le> Suc (needs m2 ?fl 2 None VIRTUAL_BASE (0 - 1) 0)"
      using needs_one [OF iv2, of m2 ?fl "Some q" 0] iv by (simp add: entry_need_def)
    moreover have "needs m2 ?fl 2 None VIRTUAL_BASE (0 - 1) 0 \<le> 2"
    proof (rule conjunct1 [OF needs_aligned [OF kernel_flags_bits(2)]])
      show "in_table 2 VIRTUAL_BASE (0 - 1)"
        using sv by (simp add: in_table_def span_def shift_of_def VIRTUAL_BASE_def unsigned_minus_1_eq_mask mask_eq_exp_minus_1)
    qed (simp_all add: VIRTUAL_BASE_def shift_of_def mask_eq_exp_minus_1)
    ultimately show ?thesis by linarith
  qed
  then obtain n3 where n3: "3 = needs m2 ?fl 3 (Some q) VIRTUAL_BASE (0 - 1) 0 + n3" using le_Suc_ex by blast
  have st2: "?S U2 (needs m2 ?fl 3 (Some q) VIRTUAL_BASE (0 - 1) 0 + n3) s2" using m2(3) n3 by simp
  have fU2: "frames m2 3 q \<subseteq> U2" using d2(2,3) zt(1) [of 3] by auto
  have z2: "0 \<in> U2" using d2(2) by blast
  have a2: "VIRTUAL_BASE AND PAGE_MASK = 0" "0 AND PAGE_MASK = 0" by (simp_all add: VIRTUAL_BASE_def PAGE_MASK_def PAGE_SIZE_def)
  obtain m3 s3 U3 where m3: "pt_map_pages (phys_ptr q) VIRTUAL_BASE 0 0 PTE_WRITE (Some setup_pool) (m2, s2) = Some (Inr (m3, s3))"
    "maps 3 q VIRTUAL_BASE (0 - 1) 0 ?fl m2 U2 m3 U3" "?S U3 n3 s3"
    using boot.map_pages_ok [OF a2 kernel_flags_bits(4) kernel_flags_def d2(1) fU2 z2 iv2 pv un2 st2] by blast
  note d3 = mapsD [OF m3(2)]
  have run: "paging_setup g = Some (Inr (g\<lparr>ptables := m3, boot_mem := s3, cr3 := q, initrd := (phys_ptr (fst (initrd g)), phys_ptr (snd (initrd g)))\<rparr>))"
  proof -
    have "M < MAX_PMEM_SIZE" using M(3) by (simp add: MAX_PMEM_SIZE_def word_less_nat_alt)
    moreover have "pool_get_page (Some setup_pool) (ptables g) (boot_mem g) = Some (Inr (q, ?m1, s1))"
      using q(1) by (simp add: pool_get_page_def setup_pool_def)
    ultimately show ?thesis using memory_end [OF r] M(1) m2(1) m3(1) by (simp add: paging_setup_def Let_def)
  qed
  have fr: "frames m3 3 q \<subseteq> ?F"
  proof -
    have U3: "U3 \<subseteq> insert 0 ?F" using m3(3) unfolding boot_stock_def by blast
    have "{q} \<union> (U2 - {0, q}) \<union> (U3 - U2) \<subseteq> ?F"
    proof (intro Un_least subsetI)
      fix z assume "z \<in> U2 - {0, q}"
      then show "z \<in> ?F" using U3 d3(2) by blast
    next
      fix z assume "z \<in> U3 - U2"
      then show "z \<in> ?F" using U3 z2 by blast
    qed (use q(4) in simp)
    then show ?thesis unfolding d3(3) d2(3) zt(1) .
  qed
  have lk: "lookup m3 3 q x = (if x - HIGHER_BASE < M then Some (x - HIGHER_BASE, PTE_WRITE OR PTE_USER)
       else if VIRTUAL_BASE \<le> x then Some (x - VIRTUAL_BASE, PTE_WRITE OR PTE_USER) else None)" if x: "HIGHER_BASE \<le> x" for x
  proof -
    have sp: "span (Suc 3) x = span (Suc 3) VIRTUAL_BASE" "span (Suc 3) x = span (Suc 3) HIGHER_BASE"
      using upper_half [OF x] upper_half [OF sv(1)] upper_half [OF order_refl] by simp_all
    have "x \<le> 0 - 1" by simp
    then have "lookup m3 3 q x = (if VIRTUAL_BASE \<le> x then Some (x - VIRTUAL_BASE, PTE_WRITE OR PTE_USER) else lookup m2 3 q x)"
      using d3(5) [OF sp(1)] kernel_flags_bits by (simp add: leaf_of_def)
    moreover have "lookup m2 3 q x = (if x - HIGHER_BASE < M then Some (x - HIGHER_BASE, PTE_WRITE OR PTE_USER) else None)"
      using d2(5) [OF sp(2)] x up(3) [OF x] zt(3) kernel_flags_bits by (simp add: leaf_of_def)
    moreover have "\<not> x - HIGHER_BASE < M" if "VIRTUAL_BASE \<le> x"
      using up(3) [OF x] low that by (meson not_le less_le_trans)
    ultimately show ?thesis by auto
  qed
  let ?g = "g\<lparr>ptables := m3, boot_mem := s3, cr3 := q, initrd := (phys_ptr (fst (initrd g)), phys_ptr (snd (initrd g)))\<rparr>"
  have g: "ptables ?g = m3" "cr3 ?g = q" "initrd ?g = (phys_ptr (fst (initrd g)), phys_ptr (snd (initrd g)))" by simp_all
  show ?thesis
    by (rule exI [of _ ?g]) (unfold g, intro conjI allI impI run d3(1) fr refl, erule lk)
qed

end
