(* ===== verification/Paging_Props.thy ===== *)
theory Paging_Props
  imports Paging_Boot
begin

unbundle bit_operations_syntax

text \<open>The properties of the page tables.\<close>

section \<open>A concrete start\<close>

text \<open>Two megabytes of memory, all but the first page of it free.\<close>

definition demo_boot_ranges :: "tree_id \<Rightarrow> range list" where
  "demo_boot_ranges w = (if w = MemoryMap then [(0, 0x200000)] else [(0x1000, 0x200000)])"

lemma demo_boot: "\<exists>s k. balloc_rep s k demo_boot_ranges \<and> 100 \<le> k"
proof -
  let ?s = "\<lparr>bnodes = Map.empty, mbegin = (\<lambda>_. 0), mend = (\<lambda>_. 0), broot = (\<lambda>_. 0), blist = (\<lambda>_. Some \<lparr>nxt = None, prv = None\<rparr>)\<rparr>"
  have b: "ptr 8" "unat (8 :: u64) + 40 * BALLOC_MAX_RANGES \<le> 2 ^ 64" by (simp_all add: ptr_def bit_0 BALLOC_MAX_RANGES_def)
  obtain s0 where s0: "balloc_rep s0 BALLOC_MAX_RANGES (\<lambda>_. [])" using balloc_setup_nodes_ok [OF b, of ?s] by auto
  have a: "add_range r [] = [r]" for r by (cases r) (simp add: add_range_def join_prev_def join_next_def)
  obtain s1 k1 where s1: "balloc_rep s1 k1 ((\<lambda>_. [])(MemoryMap := [(0, 0x200000)]))" "k1 + 1 = BALLOC_MAX_RANGES"
    using add_refines [OF s0, of 0 "0x200000" MemoryMap] by (auto simp: a BALLOC_MAX_RANGES_def)
  obtain s2 k2 where s2: "balloc_rep s2 k2 ((\<lambda>_. [])(MemoryMap := [(0, 0x200000)], FreeRanges := [(0x1000, 0x200000)]))" "k2 + 1 = k1"
    using add_refines [OF s1(1), of "0x1000" "0x200000" FreeRanges] s1(2) by (auto simp: a BALLOC_MAX_RANGES_def)
  have "(\<lambda>_. [])(MemoryMap := [(0, 0x200000)], FreeRanges := [(0x1000, 0x200000)]) = demo_boot_ranges"
    by (rule ext, rename_tac w, case_tac w) (simp_all add: demo_boot_ranges_def)
  then show ?thesis using s1(2) s2 by (auto simp: BALLOC_MAX_RANGES_def intro!: exI [of _ s2] exI [of _ k2])
qed

lemma demo_free_pages: "8 \<le> card (free_pages (demo_boot_ranges FreeRanges))"
proof -
  let ?P = "{0x1000, 0x2000, 0x3000, 0x4000, 0x5000, 0x6000, 0x7000, 0x8000} :: u64 set"
  have "?P \<subseteq> free_pages (demo_boot_ranges FreeRanges)"
    by (auto simp: free_pages_def demo_boot_ranges_def PAGE_SIZE_def BOOTSTRAP_MEM_def)
  moreover have "finite (free_pages (demo_boot_ranges FreeRanges))" by (rule finite_subset [OF subset_UNIV]) simp
  moreover have "card ?P = 8" by simp
  ultimately show ?thesis using card_mono by metis
qed

section \<open>Properties\<close>

text \<open>
  C35. The first page table: given a map of the memory with \<open>M\<close> bytes and enough free pages below 4 GB, \<open>paging_setup\<close>
  returns, and its tables are a tree of page tables in pages that were free, in which the address \<open>HIGHER_BASE + a\<close> is
  translated to \<open>a\<close> for all the memory, \<open>VIRTUAL_BASE + a\<close> is translated to \<open>a\<close> for the last two gigabytes, and
  no other address of the upper half is translated.  The archive is reached through the new window.
\<close>
theorem paging_setup_maps:
  assumes "balloc_rep (boot_mem g) k rs" "rs MemoryMap \<noteq> []" "M = snd (last (rs MemoryMap)) AND NOT PAGE_MASK" "0 < M" "M < 0x7f8000000000"
    and "unat M div 2 ^ 39 + 8 < k" "unat M div 2 ^ 39 + 8 \<le> card (free_pages (rs FreeRanges))"
  shows "\<exists>g'. paging_setup g = Some (Inr g') \<and> tables_ok (ptables g') 3 (cr3 g') \<and> frames (ptables g') 3 (cr3 g') \<subseteq> free_pages (rs FreeRanges) \<and>
    initrd g' = (phys_ptr (fst (initrd g)), phys_ptr (snd (initrd g))) \<and>
    (\<forall>x\<ge>HIGHER_BASE. lookup (ptables g') 3 (cr3 g') x =
      (if x - HIGHER_BASE < M then Some (x - HIGHER_BASE, PTE_WRITE OR PTE_USER)
       else if VIRTUAL_BASE \<le> x then Some (x - VIRTUAL_BASE, PTE_WRITE OR PTE_USER) else None))"
  by (rule setup_ok [OF assms])

theorem paging_setup_maps_witness:
  "\<exists>g g'. paging_setup g = Some (Inr g') \<and> lookup (ptables g') 3 (cr3 g') 0xffffffff80001234 = Some (0x1234, 6)"
proof -
  obtain s k where s: "balloc_rep s k demo_boot_ranges" "100 \<le> k" using demo_boot by blast
  let ?g = "\<lparr>ptables = (\<lambda>_. 0), boot_mem = s, cr3 = 0, initrd = (0, 0)\<rparr>"
  have r: "balloc_rep (boot_mem ?g) k demo_boot_ranges" using s(1) by simp
  have m: "demo_boot_ranges MemoryMap \<noteq> []" "(0x200000 :: u64) = snd (last (demo_boot_ranges MemoryMap)) AND NOT PAGE_MASK"
    "(0 :: u64) < 0x200000" "(0x200000 :: u64) < 0x7f8000000000"
    by (simp_all add: demo_boot_ranges_def PAGE_MASK_def PAGE_SIZE_def)
  have n: "unat (0x200000 :: u64) div 2 ^ 39 + 8 < k" "unat (0x200000 :: u64) div 2 ^ 39 + 8 \<le> card (free_pages (demo_boot_ranges FreeRanges))"
    using s(2) demo_free_pages by simp_all
  obtain g' where g': "paging_setup ?g = Some (Inr g')" "\<forall>x\<ge>HIGHER_BASE. lookup (ptables g') 3 (cr3 g') x =
      (if x - HIGHER_BASE < 0x200000 then Some (x - HIGHER_BASE, PTE_WRITE OR PTE_USER)
       else if VIRTUAL_BASE \<le> x then Some (x - VIRTUAL_BASE, PTE_WRITE OR PTE_USER) else None)"
    using paging_setup_maps [OF r m n] by blast
  have "lookup (ptables g') 3 (cr3 g') 0xffffffff80001234 = Some (0x1234, 6)"
    using g'(2) [rule_format, of "0xffffffff80001234"] by (simp add: HIGHER_BASE_def VIRTUAL_BASE_def PTE_WRITE_def PTE_USER_def)
  then show ?thesis using g'(1) by blast
qed

text \<open>
  \<open>pt_count_pages\<close> is too small for a range that ends inside a large page: one page at the bottom of an empty
  tree needs three tables besides the top one, and is counted as one, as only the alignment of the begin is looked at.
\<close>
theorem pt_count_pages_short:
  "pt_count_pages 0 0x1000 0 = Some (Inr 2) \<and> needs (\<lambda>_. 0) kernel_flags 3 (Some 0) 0 0xfff 0 = 3"
proof
  have l3: "pt_count_level (Suc 2) 0 0x1000 0 = Some (Inr 1)"
    unfolding pt_count_level.simps using pml_offs_ok [of 2 0] pml_offs_ok [of 2 "0x1000 - 1"] pml_size_ok [of 2]
    by (simp add: idx_def span_def shift_of_def entry_size_def)
  have "pt_count_level (Suc 3) 0 0x1000 0 = Some (Inr 2)"
    unfolding pt_count_level.simps using pml_offs_ok [of 3 0] pml_offs_ok [of 3 "0x1000 - 1"] pml_size_ok [of 3] l3
    by (simp add: idx_def span_def shift_of_def entry_size_def Let_def)
  then show "pt_count_pages 0 0x1000 0 = Some (Inr 2)" by (simp add: pt_count_pages_def)
next
  have s: "needs (\<lambda>_. 0) kernel_flags (Suc d) po 0 0xfff 0 = Suc (needs (\<lambda>_. 0) kernel_flags d None 0 0xfff 0)" if d: "d < 3" for d po
  proof -
    have le: "(0x1000 :: nat) * 2 ^ 9 \<le> 2 ^ shift_of (Suc d)" by (simp add: shift_of_def power_add)
    have sp: "span (Suc d) 0 = 0" "span (Suc d) 0xfff = 0" using le by (simp_all add: span_def)
    then have "idx (Suc d) 0 = 0" "idx (Suc d) 0xfff = 0" "in_table (Suc d) 0 0xfff" by (simp_all add: idx_def in_table_def span_Suc)
    moreover have "entry_size (Suc d) \<noteq> 0x1000" using le unat_entry_size [of "Suc d"] d by (auto simp del: unat_entry_size)
    ultimately show ?thesis using needs_single [of d 0 "0xfff" "\<lambda>_. 0" kernel_flags po 0] d
      by (simp add: entry_need_def sub_table_def is_sub_def leaf_fits_def ent_def split: option.splits)
  qed
  have "needs (\<lambda>_. 0) kernel_flags (Suc (Suc (Suc 0))) (Some 0) 0 0xfff 0 = 3" using s [of 0] s [of "Suc 0"] s [of "Suc (Suc 0)"] by simp
  then show "needs (\<lambda>_. 0) kernel_flags 3 (Some 0) 0 0xfff 0 = 3" by (simp only: numeral_3_eq_3)
qed

end
