(* ===== verification/Kmap.thy ===== *)
theory Kmap
  imports Paging Slab Sched
begin

unbundle bit_operations_syntax

text \<open>
  The second half of \<open>paging.c\<close>: the window of virtual addresses from \<open>KMAP_BEGIN\<close> to \<open>KMAP_END\<close>, its allocator of
  ranges of pages, and \<open>kmap\<close> and \<open>kunmap\<close>.  The array \<open>kmap_ranges\<close> has an entry for each page of the window; a
  range is named by the index of its first entry, and the sizes are kept in its first and its last entry.
\<close>

section \<open>Ranges\<close>

definition KMAP_SIZE :: u64 where "KMAP_SIZE = 0x080000000"
definition KMAP_BEGIN :: u64 where "KMAP_BEGIN = VIRTUAL_BASE - KMAP_SIZE"
definition KMAP_END :: u64 where "KMAP_END = VIRTUAL_BASE"
definition KMAP_ORDERS :: nat where "KMAP_ORDERS = 16"
definition KMAP_PAGES :: nat where "KMAP_PAGES = unat (drop_bit 12 KMAP_SIZE)"

datatype kl = KHead nat | KRange nat

record kmap_ranges =
  klinks :: "kl lheap"
  kpages :: "nat \<Rightarrow> nat"

definition rd_pages :: "nat \<Rightarrow> kmap_ranges \<Rightarrow> nat res" where
  "rd_pages i s = (if i < KMAP_PAGES then Inr (kpages s i) else Inl Fault)"

definition wr_pages :: "nat \<Rightarrow> nat \<Rightarrow> kmap_ranges \<Rightarrow> kmap_ranges res" where
  "wr_pages i n s = (if i < KMAP_PAGES then Inr (s\<lparr>kpages := (kpages s)(i := n)\<rparr>) else Inl Fault)"

definition addr_kmap :: "u64 \<Rightarrow> nat" where
  "addr_kmap addr = unat (drop_bit 12 (addr - KMAP_BEGIN))"

definition kmap_addr :: "nat \<Rightarrow> u64" where
  "kmap_addr no = KMAP_BEGIN + push_bit 12 (of_nat no)"

function order_loop :: "nat \<Rightarrow> nat \<Rightarrow> nat" where
  "order_loop pages order = (if 2 ^ order < pages \<and> order < KMAP_ORDERS then order_loop pages (Suc order) else order)"
  by pat_completeness auto
termination by (relation "measure (\<lambda>(_, order). KMAP_ORDERS - order)") auto

declare order_loop.simps [simp del]

definition kmap_order :: "nat \<Rightarrow> nat" where "kmap_order pages = order_loop pages 0"

text \<open>The search through the list of an order.\<close>

partial_function (option) find_free_loop :: "kmap_ranges \<Rightarrow> kl \<Rightarrow> nat \<Rightarrow> kl option \<Rightarrow> nat option res option" where
  "find_free_loop s head pages pos =
     (if pos = Some head then Some (Inr None)
      else case pos of
        Some (KRange i) \<Rightarrow>
          bindP (Some (rd_pages i s)) (\<lambda>n.
          if n \<ge> pages then Some (Inr (Some i))
          else bindP (Some (rd_node (klinks s) pos)) (\<lambda>nd. find_free_loop s head pages (nxt nd)))
      | _ \<Rightarrow> Some (Inl Fault))"

definition kmap_find_free :: "nat \<Rightarrow> nat \<Rightarrow> kmap_ranges \<Rightarrow> nat option res option" where
  "kmap_find_free order pages s =
     bindP (Some (list_first (KHead order) (klinks s))) (\<lambda>pos. find_free_loop s (KHead order) pages pos)"

text \<open>A range that is released takes in a free range before it, and one behind it.\<close>

definition take_in :: "nat \<Rightarrow> kmap_ranges \<Rightarrow> (bool \<times> kmap_ranges) res" where
  "take_in i s =
     bindE (list_empty (KRange i) (klinks s)) (\<lambda>e.
     if e then Inr (False, s) else bindE (list_del (KRange i) (klinks s)) (\<lambda>l. Inr (True, s\<lparr>klinks := l\<rparr>)))"

definition merge_before :: "nat \<Rightarrow> nat \<Rightarrow> kmap_ranges \<Rightarrow> (nat \<times> nat \<times> kmap_ranges) res" where
  "merge_before rg pages s =
     (if rg > 0 then
        bindE (rd_pages (rg - 1) s) (\<lambda>k.
        if k > rg then Inl Fault
        else let prev = rg - k
             in bindE (take_in prev s) (\<lambda>(merged, s).
                if merged then bindE (rd_pages prev s) (\<lambda>n. Inr (prev, pages + n, s)) else Inr (rg, pages, s)))
      else Inr (rg, pages, s))"

definition merge_behind :: "nat \<Rightarrow> nat \<Rightarrow> kmap_ranges \<Rightarrow> (nat \<times> kmap_ranges) res" where
  "merge_behind rg pages s =
     (if rg + pages < KMAP_PAGES then
        let next = rg + pages
        in bindE (take_in next s) (\<lambda>(merged, s).
           if merged then bindE (rd_pages next s) (\<lambda>n. Inr (pages + n, s)) else Inr (pages, s))
      else Inr (pages, s))"

definition set_pages :: "nat \<Rightarrow> nat \<Rightarrow> kmap_ranges \<Rightarrow> kmap_ranges res" where
  "set_pages rg pages s =
     bindE (wr_pages rg pages s) (\<lambda>s. if rg + pages = 0 then Inl Fault else wr_pages (rg + pages - 1) pages s)"

definition kmap_free_range :: "nat \<Rightarrow> nat \<Rightarrow> kmap_ranges \<Rightarrow> kmap_ranges res" where
  "kmap_free_range rg pages s =
     bindE (merge_before rg pages s) (\<lambda>(rg, pages, s).
     bindE (merge_behind rg pages s) (\<lambda>(pages, s).
     bindE (set_pages rg pages s) (\<lambda>s.
     bindE (list_add (KRange rg) (KHead (kmap_order (pages + 1) - 1)) (klinks s)) (\<lambda>l.
     Inr (s\<lparr>klinks := l\<rparr>)))))"

fun find_from :: "nat list \<Rightarrow> nat \<Rightarrow> kmap_ranges \<Rightarrow> nat option res option" where
  "find_from [] pages s = Some (Inr None)"
| "find_from (order # os) pages s =
     bindP (kmap_find_free order pages s) (\<lambda>r. case r of Some i \<Rightarrow> Some (Inr (Some i)) | None \<Rightarrow> find_from os pages s)"

definition kmap_alloc_range :: "nat \<Rightarrow> kmap_ranges \<Rightarrow> (nat option \<times> kmap_ranges) res option" where
  "kmap_alloc_range pages s =
     (let start = kmap_order pages
      in bindP (find_from [start..<KMAP_ORDERS] pages s) (\<lambda>r.
         bindP (if r = None \<and> 2 ^ start > pages
           then if start = 0 then Some (Inl Fault) else kmap_find_free (start - 1) pages s
           else Some (Inr r)) (\<lambda>r.
         case r of
           None \<Rightarrow> Some (Inr (None, s))
         | Some rg \<Rightarrow>
             Some (bindE (rd_pages rg s) (\<lambda>range_pages.
               bindE (list_del (KRange rg) (klinks s)) (\<lambda>l.
               bindE (list_init (KRange rg) l) (\<lambda>l.
               bindE (set_pages rg pages (s\<lparr>klinks := l\<rparr>)) (\<lambda>s.
               if range_pages > pages
               then bindE (kmap_free_range (rg + pages) (range_pages - pages) s) (\<lambda>s. Inr (Some rg, s))
               else Inr (Some rg, s)))))))))"

section \<open>Mapping pages into the window\<close>

text \<open>\<open>kflushed\<close> lists the addresses whose translations were dropped by \<open>flush_tlb_addr\<close>, the last one first.\<close>

record kernel_map =
  kt :: ptmem
  kcr3 :: u64
  kflushed :: "u64 list"
  kranges :: kmap_ranges
  kheap :: heap
  ksched :: sched

definition pages_nth :: "page_ptr list \<Rightarrow> nat \<Rightarrow> page_ptr res" where
  "pages_nth pages i = (if i < length pages then Inr (pages ! i) else Inl Fault)"

definition flush_tlb_addr :: "u64 \<Rightarrow> kernel_map \<Rightarrow> kernel_map" where
  "flush_tlb_addr addr s = s\<lparr>kflushed := addr # kflushed s\<rparr>"

partial_function (option) kmap_loop :: "page_ptr list \<Rightarrow> u64 \<Rightarrow> u64 \<Rightarrow> u64 \<Rightarrow> nat \<Rightarrow> kernel_map \<Rightarrow> kernel_map res option" where
  "kmap_loop pages pte to addr i s =
     (if addr = to then Some (Inr s)
      else bindP (Some (pages_nth pages i)) (\<lambda>p.
           bindP (Some (page_addr p (hzones (kheap s)))) (\<lambda>phys.
           bindP (pt_map_pages pte addr (addr + Paging.PAGE_SIZE) (of_nat phys) PTE_WRITE None (kt s, ())) (\<lambda>(m, _).
           kmap_loop pages pte to (addr + Paging.PAGE_SIZE) (Suc i) (flush_tlb_addr addr (s\<lparr>kt := m\<rparr>))))))"

definition kmap_unlocked :: "page_ptr list \<Rightarrow> nat \<Rightarrow> kernel_map \<Rightarrow> (u64 \<times> kernel_map) res option" where
  "kmap_unlocked pages count s =
     (if count = 0 then Some (Inr (0, s))
      else if count = 1 then
        Some (bindE (pages_nth pages 0) (\<lambda>p. bindE (page_addr p (hzones (kheap s))) (\<lambda>phys. Inr (phys_ptr (of_nat phys), s))))
      else
        bindP (kmap_alloc_range count (kranges s)) (\<lambda>(r, rs).
        let s = s\<lparr>kranges := rs\<rparr>
        in case r of
             None \<Rightarrow> Some (Inr (0, s))
           | Some rg \<Rightarrow>
               let pte = phys_ptr (kcr3 s); from = kmap_addr rg; to = from + of_nat count * Paging.PAGE_SIZE
               in bindP (kmap_loop pages pte to from 0 s) (\<lambda>s. Some (Inr (kmap_addr rg, s)))))"

text \<open>The way to the entry of a page: the table that \<open>v\<close> points to, and on through the levels.\<close>

fun pte_walk :: "ptmem \<Rightarrow> u64 \<Rightarrow> nat \<Rightarrow> u64 \<Rightarrow> u64 res" where
  "pte_walk m addr 0 v = Inl Fault"
| "pte_walk m addr (Suc l) v =
     bindE (pml_offs addr (Suc l)) (\<lambda>i.
     let pte = pte_ptr (phys_ptr (v AND PTE_PHYS_MASK)) i
     in if l = 0 then Inr pte else pte_walk m addr l (m pte))"

partial_function (option) kunmap_loop :: "u64 \<Rightarrow> u64 \<Rightarrow> kernel_map \<Rightarrow> kernel_map res option" where
  "kunmap_loop to addr s =
     (if addr = to then Some (Inr s)
      else bindP (Some (pte_walk (kt s) addr 4 (kcr3 s))) (\<lambda>pte.
           kunmap_loop to (addr + Paging.PAGE_SIZE) (flush_tlb_addr addr (s\<lparr>kt := (kt s)(pte := 0)\<rparr>))))"

definition kunmap_unlocked :: "u64 \<Rightarrow> kernel_map \<Rightarrow> kernel_map res option" where
  "kunmap_unlocked pos s =
     (if pos < KMAP_BEGIN \<or> pos \<ge> KMAP_END then Some (Inr s)
      else let rg = addr_kmap pos
           in bindP (Some (rd_pages rg (kranges s))) (\<lambda>count.
              bindP (kunmap_loop (pos + of_nat count * Paging.PAGE_SIZE) pos s) (\<lambda>s.
              bindP (Some (rd_pages rg (kranges s))) (\<lambda>count.
              bindP (Some (kmap_free_range rg count (kranges s))) (\<lambda>rs.
              Some (Inr (s\<lparr>kranges := rs\<rparr>)))))))"

text \<open>\<open>kmap\<close> and \<open>kunmap\<close> do this under the lock.\<close>

definition kmap :: "page_ptr list \<Rightarrow> nat \<Rightarrow> kernel_map \<Rightarrow> (u64 \<times> kernel_map) res option" where
  "kmap pages count s =
     (let (enable, sc) = spin_lock_irqsave (ksched s)
      in bindP (kmap_unlocked pages count (s\<lparr>ksched := sc\<rparr>)) (\<lambda>(pos, s).
         Some (Inr (pos, s\<lparr>ksched := spin_unlock_irqrestore enable (ksched s)\<rparr>))))"

definition kunmap :: "u64 \<Rightarrow> kernel_map \<Rightarrow> kernel_map res option" where
  "kunmap pos s =
     (let (enable, sc) = spin_lock_irqsave (ksched s)
      in bindP (kunmap_unlocked pos (s\<lparr>ksched := sc\<rparr>)) (\<lambda>s.
         Some (Inr (s\<lparr>ksched := spin_unlock_irqrestore enable (ksched s)\<rparr>))))"

section \<open>Set-up\<close>

definition kmap_setup_get_page :: "ptmem \<Rightarrow> zone list \<Rightarrow> (u64 \<times> ptmem \<times> zone list) res option" where
  "kmap_setup_get_page m zs =
     bindP (Some (page_alloc 0 zs)) (\<lambda>(addr, zs).
     if addr = 0 then Some (Inl Bug) else Some (Inr (of_nat addr, zero_page (of_nat addr) m, zs)))"

definition kmap_pool :: "zone list page_pool" where
  "kmap_pool = \<lparr>get_page = kmap_setup_get_page, put_page = None\<rparr>"

fun init_heads :: "nat list \<Rightarrow> kl lheap \<Rightarrow> kl lheap res" where
  "init_heads [] l = Inr l"
| "init_heads (i # is) l = bindE (list_init (KHead i) l) (init_heads is)"

text \<open>\<open>mem_alloc\<close> gives the array with the contents \<open>raw\<close> the memory happened to have.\<close>

definition kmap_setup :: "(nat \<Rightarrow> kl list_head \<times> nat) \<Rightarrow> kernel_map \<Rightarrow> kernel_map res option" where
  "kmap_setup raw s =
     bindP (pt_populate_pages (phys_ptr (kcr3 s)) KMAP_BEGIN KMAP_END (Some kmap_pool) (kt s, hzones (kheap s))) (\<lambda>(m, zs).
     bindP (Some (mem_alloc (24 * KMAP_PAGES) ((kheap s)\<lparr>hzones := zs\<rparr>))) (\<lambda>(p, h).
     if p = None then Some (Inl Bug)
     else
       let l = (\<lambda>x. case x of KHead i \<Rightarrow> klinks (kranges s) (KHead i) | KRange i \<Rightarrow> if i < KMAP_PAGES then Some (fst (raw i)) else None)
       in bindP (Some (init_heads [0..<KMAP_ORDERS] l)) (\<lambda>l.
          bindP (Some (kmap_free_range 0 KMAP_PAGES \<lparr>klinks = l, kpages = (\<lambda>i. snd (raw i))\<rparr>)) (\<lambda>rs.
          Some (Inr (s\<lparr>kt := m, kheap := h, kranges := rs\<rparr>))))))"

end
