(* ===== verification/Kmap_Inv.thy ===== *)
theory Kmap_Inv
  imports Kmap Allocator
begin

text \<open>
  The window of \<open>kmap\<close> as a partition into ranges that are held or free.  \<open>S\<close> maps the first page of each range to
  its size and whether it is free; while a range is on its way there is a hole \<open>[h, h + k)\<close> in the partition.
\<close>

section \<open>Orders\<close>

lemma order_loop_ok:
  assumes "order \<le> KMAP_ORDERS" "order = 0 \<or> 2 ^ (order - 1) < pages"
  shows "order_loop pages order \<le> KMAP_ORDERS \<and> (order_loop pages order < KMAP_ORDERS \<longrightarrow> pages \<le> 2 ^ order_loop pages order) \<and>
    (0 < order_loop pages order \<longrightarrow> 2 ^ (order_loop pages order - 1) < pages)"
  using assms
proof (induction pages order rule: order_loop.induct)
  case (1 pages order)
  show ?case
  proof (cases "2 ^ order < pages \<and> order < KMAP_ORDERS")
    case True
    then show ?thesis using 1(1) [OF True] by (simp add: order_loop.simps [of pages order])
  next
    case False
    then show ?thesis using 1(2,3) by (auto simp: order_loop.simps [of pages order])
  qed
qed

lemma kmap_order_ok:
  "kmap_order p \<le> KMAP_ORDERS" "kmap_order p < KMAP_ORDERS \<Longrightarrow> p \<le> 2 ^ kmap_order p" "0 < kmap_order p \<Longrightarrow> 2 ^ (kmap_order p - 1) < p"
  using order_loop_ok [of 0 p] by (simp_all add: kmap_order_def)

text \<open>The list a free range is on.\<close>

definition slot :: "nat \<Rightarrow> nat" where "slot n = kmap_order (n + 1) - 1"

lemma slot_less: "slot n < KMAP_ORDERS"
  using kmap_order_ok(1) [of "n + 1"] by (auto simp: slot_def KMAP_ORDERS_def)

lemma slot_bounds:
  assumes "0 < n"
  shows "2 ^ slot n \<le> n" "slot n + 1 < KMAP_ORDERS \<Longrightarrow> n < 2 ^ (slot n + 1)"
proof -
  have p: "0 < kmap_order (n + 1)"
  proof (rule ccontr)
    assume "\<not> 0 < kmap_order (n + 1)"
    then show False using kmap_order_ok(2) [of "n + 1"] assms by (simp add: KMAP_ORDERS_def)
  qed
  then show "2 ^ slot n \<le> n" using kmap_order_ok(3) [of "n + 1"] by (simp add: slot_def)
  have s: "slot n + 1 = kmap_order (n + 1)" using p by (simp add: slot_def)
  show "n < 2 ^ (slot n + 1)" if "slot n + 1 < KMAP_ORDERS" using kmap_order_ok(2) [of "n + 1"] that unfolding s by simp
qed

section \<open>The invariant\<close>

type_synonym segs = "nat \<Rightarrow> (nat \<times> bool) option"

definition held :: "segs \<Rightarrow> (nat \<times> nat) set" where "held S = {(i, n). S i = Some (n, False)}"

definition room :: "segs \<Rightarrow> nat set" where "room S = {j. \<exists>i n. S i = Some (n, True) \<and> i \<le> j \<and> j < i + n}"

definition seg_ok :: "segs \<Rightarrow> nat \<Rightarrow> nat \<Rightarrow> bool" where
  "seg_ok S h k \<longleftrightarrow> h + k \<le> KMAP_PAGES \<and>
     (\<forall>i n f. S i = Some (n, f) \<longrightarrow> 0 < n \<and> i + n \<le> KMAP_PAGES \<and> (i + n \<le> h \<or> h + k \<le> i)) \<and>
     (\<forall>i n f i' n' f'. S i = Some (n, f) \<longrightarrow> S i' = Some (n', f') \<longrightarrow> i < i' \<longrightarrow> i + n \<le> i') \<and>
     (\<forall>j<KMAP_PAGES. h \<le> j \<and> j < h + k \<or> (\<exists>i n f. S i = Some (n, f) \<and> i \<le> j \<and> j < i + n))"

definition no_neighbours :: "segs \<Rightarrow> bool" where
  "no_neighbours S \<longleftrightarrow> (\<forall>i n m. S i = Some (n, True) \<longrightarrow> S (i + n) \<noteq> Some (m, True))"

definition tags_ok :: "segs \<Rightarrow> kmap_ranges \<Rightarrow> bool" where
  "tags_ok S s \<longleftrightarrow> (\<forall>i n f. S i = Some (n, f) \<longrightarrow> kpages s i = n \<and> kpages s (i + n - 1) = n)"

definition heads :: "segs \<Rightarrow> kl set" where
  "heads S = KHead ` {..<KMAP_ORDERS} \<union> {KRange i | i. \<exists>n. S i = Some (n, False)}"

definition family_ok :: "segs \<Rightarrow> (kl \<Rightarrow> kl list) \<Rightarrow> bool" where
  "family_ok S F \<longleftrightarrow> (\<forall>i n. S i = Some (n, False) \<longrightarrow> F (KRange i) = []) \<and>
     (\<forall>o'<KMAP_ORDERS. \<forall>i. KRange i \<in> set (F (KHead o')) \<longleftrightarrow> (\<exists>n. S i = Some (n, True) \<and> slot n = o')) \<and>
     (\<forall>o'<KMAP_ORDERS. \<forall>o''. KHead o'' \<notin> set (F (KHead o')))"

definition lists_ok :: "segs \<Rightarrow> kl lheap \<Rightarrow> bool" where
  "lists_ok S l \<longleftrightarrow> KRange ` {..<KMAP_PAGES} \<subseteq> dom l \<and> (\<exists>F. lists_rep l (heads S) F \<and> family_ok S F)"

definition kinv :: "segs \<Rightarrow> kmap_ranges \<Rightarrow> nat \<Rightarrow> nat \<Rightarrow> bool" where
  "kinv S s h k \<longleftrightarrow> seg_ok S h k \<and> no_neighbours S \<and> tags_ok S s \<and> lists_ok S (klinks s)"

lemma kinvD:
  assumes "kinv S s h k"
  shows "seg_ok S h k" "no_neighbours S" "tags_ok S s" "lists_ok S (klinks s)"
  using assms by (simp_all add: kinv_def)

section \<open>The lists\<close>

lemma lseg_next_other: "lseg N P a xs b \<Longrightarrow> distinct xs \<Longrightarrow> b \<notin> set xs \<Longrightarrow> e \<in> set xs \<Longrightarrow> N e \<noteq> Some e"
proof (induction xs arbitrary: a)
  case (Cons x xs)
  then show ?case
  proof (cases "e = x")
    case True
    have "lseg N P x xs b" using Cons(2) by simp
    then have "N x = Some (hd (xs @ [b]))" by (rule lseg_next)
    then show ?thesis using Cons(3,4) True by (cases xs) auto
  qed auto
qed simp

lemma list_entry_not_empty: "dlist h a xs \<Longrightarrow> e \<in> set xs \<Longrightarrow> list_empty e h = Inr False"
proof -
  assume d: "dlist h a xs" and e: "e \<in> set xs"
  have "nx h e \<noteq> Some e" using d e lseg_next_other [of "nx h" "pv h" a xs a e] by (auto simp: dlist_def)
  moreover have "e \<in> dom h" using dlist_dom [OF d] e by blast
  ultimately show ?thesis using rd_node_ok [of e h] by (auto simp: list_empty_def)
qed

lemma lists_okE:
  assumes "lists_ok S l"
  obtains F where "KRange ` {..<KMAP_PAGES} \<subseteq> dom l" "lists_rep l (heads S) F" "family_ok S F"
  using assms unfolding lists_ok_def by blast

lemma family_okD:
  assumes "family_ok S F"
  shows "S i = Some (n, False) \<Longrightarrow> F (KRange i) = []"
    and "o' < KMAP_ORDERS \<Longrightarrow> KRange i \<in> set (F (KHead o')) \<longleftrightarrow> (\<exists>n. S i = Some (n, True) \<and> slot n = o')"
    and "o' < KMAP_ORDERS \<Longrightarrow> KHead o'' \<notin> set (F (KHead o'))"
  using assms unfolding family_ok_def by blast+

lemma kheads_mem [simp]: "KHead o' \<in> heads S \<longleftrightarrow> o' < KMAP_ORDERS" "KRange i \<in> heads S \<longleftrightarrow> (\<exists>n. S i = Some (n, False))"
  by (auto simp: heads_def)

lemma heads_eqI: "(\<And>i. KRange i \<in> A \<longleftrightarrow> KRange i \<in> A') \<Longrightarrow> (\<And>o'. KHead o' \<in> A \<longleftrightarrow> KHead o' \<in> A') \<Longrightarrow> A = A'"
  by (metis kl.exhaust subset_antisym subsetI)

lemma khead_in: "o' < KMAP_ORDERS \<Longrightarrow> KHead o' \<in> heads S"
  by (simp add: heads_def)

lemma held_in: "S i = Some (n, False) \<Longrightarrow> KRange i \<in> heads S"
  by (auto simp: heads_def)

lemma in_heads: "b \<in> heads S \<Longrightarrow> (\<exists>o'<KMAP_ORDERS. b = KHead o') \<or> (\<exists>i n. b = KRange i \<and> S i = Some (n, False))"
  by (auto simp: heads_def)

lemma not_listed:
  assumes "family_ok S F" "S i = None"
  shows "\<forall>b\<in>heads S. KRange i \<notin> set (b # F b)"
proof
  fix b assume "b \<in> heads S"
  then consider o' where "o' < KMAP_ORDERS" "b = KHead o'" | j n where "b = KRange j" "S j = Some (n, False)" using in_heads by blast
  then show "KRange i \<notin> set (b # F b)"
  proof cases
    case 1
    then show ?thesis using family_okD(2) [OF assms(1) 1(1), of i] assms(2) by simp
  next
    case 2
    then show ?thesis using family_okD(1) [OF assms(1) 2(2)] assms(2) by auto
  qed
qed

lemma lists_empty:
  assumes "lists_ok S l" "S i = Some (n, f)"
  shows "list_empty (KRange i) l = Inr (\<not> f)"
proof -
  obtain F where F: "lists_rep l (heads S) F" "family_ok S F" using assms(1) by (rule lists_okE)
  show ?thesis
  proof (cases f)
    case False
    then have h: "S i = Some (n, False)" using assms(2) by simp
    show ?thesis using kl.rep_empty [OF F(1) held_in [of S i n, OF h]] family_okD(1) [OF F(2) h] False by simp
  next
    case True
    then have "\<exists>m. S i = Some (m, True) \<and> slot m = slot n" using assms(2) by simp
    then have e: "KRange i \<in> set (F (KHead (slot n)))" using family_okD(2) [OF F(2) slot_less, of i n] by simp
    have d: "dlist l (KHead (slot n)) (F (KHead (slot n)))" by (rule lists_rep_dlist [OF F(1) khead_in [OF slot_less]])
    have "list_empty (KRange i) l = Inr False" by (rule list_entry_not_empty [OF d e])
    then show ?thesis using True by simp
  qed
qed

lemma lists_del:
  assumes "lists_ok S l" "S i = Some (n, True)"
  shows "\<exists>l'. list_del (KRange i) l = Inr l' \<and> lists_ok (S(i := None)) l'"
proof -
  obtain F where F: "KRange ` {..<KMAP_PAGES} \<subseteq> dom l" "lists_rep l (heads S) F" "family_ok S F" using assms(1) by (rule lists_okE)
  let ?h = "KHead (slot n)"
  let ?F = "F(?h := remove1 (KRange i) (F ?h))"
  have e: "KRange i \<in> set (F ?h)" using family_okD(2) [OF F(3) slot_less] assms(2) by blast
  obtain l' where l': "list_del (KRange i) l = Inr l'" "lists_rep l' (heads S) ?F" "dom l' = dom l"
    using kl.rep_del [OF F(2) khead_in [OF slot_less] e] by blast
  have hs: "heads (S(i := None)) = heads S" using assms(2) by (intro heads_eqI) auto
  have "distinct (F ?h)" using kl.rep_distinct [OF F(2) khead_in [OF slot_less]] by blast
  then have "family_ok (S(i := None)) ?F"
    unfolding family_ok_def using family_okD [OF F(3)] assms(2) by (auto simp: set_remove1_eq)
  then show ?thesis using l' hs F(1) unfolding lists_ok_def by metis
qed

lemma lists_init:
  assumes "lists_ok S l" "S i = None" "i < KMAP_PAGES"
  shows "\<exists>l'. list_init (KRange i) l = Inr l' \<and> lists_ok (S(i := Some (n, False))) l'"
proof -
  obtain F where F: "KRange ` {..<KMAP_PAGES} \<subseteq> dom l" "lists_rep l (heads S) F" "family_ok S F" using assms(1) by (rule lists_okE)
  have "KRange i \<in> dom l" using F(1) assms(3) by blast
  from lists_rep_init [OF F(2) this not_listed [OF F(3) assms(2)]]
  obtain l' where l': "list_init (KRange i) l = Inr l'" "lists_rep l' (insert (KRange i) (heads S)) (F(KRange i := []))" "dom l' = dom l" by blast
  have hs: "heads (S(i := Some (n, False))) = insert (KRange i) (heads S)" using assms(2) by (intro heads_eqI) auto
  have "family_ok (S(i := Some (n, False))) (F(KRange i := []))"
    unfolding family_ok_def using family_okD [OF F(3)] assms(2) by auto
  then show ?thesis using l' hs F(1) unfolding lists_ok_def by metis
qed

lemma lists_add:
  assumes "lists_ok S l" "S i = None" "i < KMAP_PAGES"
  shows "\<exists>l'. list_add (KRange i) (KHead (slot n)) l = Inr l' \<and> lists_ok (S(i := Some (n, True))) l'"
proof -
  obtain F where F: "KRange ` {..<KMAP_PAGES} \<subseteq> dom l" "lists_rep l (heads S) F" "family_ok S F" using assms(1) by (rule lists_okE)
  let ?h = "KHead (slot n)"
  have "KRange i \<in> dom l" using F(1) assms(3) by blast
  from kl.rep_add [OF F(2) khead_in [OF slot_less] this not_listed [OF F(3) assms(2)]]
  obtain l' where l': "list_add (KRange i) ?h l = Inr l'" "lists_rep l' (heads S) (F(?h := KRange i # F ?h))" "dom l' = dom l" by blast
  have hs: "heads (S(i := Some (n, True))) = heads S" using assms(2) by (intro heads_eqI) auto
  have "family_ok (S(i := Some (n, True))) (F(?h := KRange i # F ?h))"
    unfolding family_ok_def using family_okD [OF F(3)] assms(2) by auto
  then show ?thesis using l' hs F(1) unfolding lists_ok_def by metis
qed

lemma lists_drop:
  assumes "lists_ok S l" "S i = Some (n, False)"
  shows "lists_ok (S(i := None)) l"
proof -
  obtain F where F: "KRange ` {..<KMAP_PAGES} \<subseteq> dom l" "lists_rep l (heads S) F" "family_ok S F" using assms(1) by (rule lists_okE)
  have "heads (S(i := None)) \<subseteq> heads S" by (auto simp: heads_def)
  then have "lists_rep l (heads (S(i := None))) F" using F(2) unfolding lists_rep_def by blast
  moreover have "family_ok (S(i := None)) F" unfolding family_ok_def using family_okD [OF F(3)] assms(2) by auto
  ultimately show ?thesis using F(1) unfolding lists_ok_def by blast
qed

end
