(* ===== verification/Kmap_Ops.thy ===== *)
theory Kmap_Ops
  imports Kmap_Inv
begin

text \<open>Releasing and allocating a range keep the partition.\<close>

section \<open>The partition\<close>

lemma seg_okD:
  assumes "seg_ok S h k"
  shows "h + k \<le> KMAP_PAGES"
    and "S i = Some (n, f) \<Longrightarrow> 0 < n" "S i = Some (n, f) \<Longrightarrow> i + n \<le> KMAP_PAGES" "S i = Some (n, f) \<Longrightarrow> i + n \<le> h \<or> h + k \<le> i"
    and "S i = Some (n, f) \<Longrightarrow> S i' = Some (n', f') \<Longrightarrow> i < i' \<Longrightarrow> i + n \<le> i'"
    and "j < KMAP_PAGES \<Longrightarrow> h \<le> j \<and> j < h + k \<or> (\<exists>i n f. S i = Some (n, f) \<and> i \<le> j \<and> j < i + n)"
  using assms unfolding seg_ok_def by blast+

lemma seg_okI:
  assumes "h + k \<le> KMAP_PAGES"
    and "\<And>i n f. S i = Some (n, f) \<Longrightarrow> 0 < n \<and> i + n \<le> KMAP_PAGES \<and> (i + n \<le> h \<or> h + k \<le> i)"
    and "\<And>i n f i' n' f'. S i = Some (n, f) \<Longrightarrow> S i' = Some (n', f') \<Longrightarrow> i < i' \<Longrightarrow> i + n \<le> i'"
    and "\<And>j. j < KMAP_PAGES \<Longrightarrow> h \<le> j \<and> j < h + k \<or> (\<exists>i n f. S i = Some (n, f) \<and> i \<le> j \<and> j < i + n)"
  shows "seg_ok S h k"
  using assms unfolding seg_ok_def by blast

lemma hole_none: "seg_ok S h k \<Longrightarrow> 0 < k \<Longrightarrow> S h = None"
proof (rule ccontr)
  assume s: "seg_ok S h k" "0 < k" "S h \<noteq> None"
  then obtain n f where "S h = Some (n, f)" by auto
  then show False using seg_okD(2,4) [OF s(1)] s(2) by fastforce
qed

lemma seg_prev:
  assumes "seg_ok S h k" "0 < k" "0 < h"
  obtains p m f where "S p = Some (m, f)" "p + m = h"
proof -
  have "h - 1 < KMAP_PAGES" using seg_okD(1) [OF assms(1)] assms(2,3) by linarith
  from seg_okD(6) [OF assms(1) this] obtain p m f where p: "S p = Some (m, f)" "p \<le> h - 1" "h - 1 < p + m" using assms(3) by auto
  then have "p + m = h" using seg_okD(4) [OF assms(1) p(1)] assms(2,3) by linarith
  then show thesis using that p(1) by blast
qed

lemma seg_next:
  assumes "seg_ok S h k" "0 < k" "h + k < KMAP_PAGES"
  obtains m f where "S (h + k) = Some (m, f)"
proof -
  from seg_okD(6) [OF assms(1,3)] obtain i n f where i: "S i = Some (n, f)" "i \<le> h + k" "h + k < i + n" by auto
  then have "i = h + k" using seg_okD(4) [OF assms(1) i(1)] assms(2) by linarith
  then show thesis using that i(1) by blast
qed

lemma seg_merge_prev:
  assumes s: "seg_ok S h k" and p: "S p = Some (m, f)" "p + m = h"
  shows "seg_ok (S(p := None)) p (m + k)"
proof (rule seg_okI)
  show "p + (m + k) \<le> KMAP_PAGES" using seg_okD(1) [OF s] p(2) by simp
next
  fix i n g assume "(S(p := None)) i = Some (n, g)"
  then have i: "S i = Some (n, g)" "i \<noteq> p" by (auto split: if_splits)
  have "0 < n" "i + n \<le> KMAP_PAGES" "i + n \<le> h \<or> h + k \<le> i" using seg_okD(2-4) [OF s i(1)] by blast+
  moreover have "i < p \<Longrightarrow> i + n \<le> p" "p < i \<Longrightarrow> p + m \<le> i" using seg_okD(5) [OF s i(1) p(1)] seg_okD(5) [OF s p(1) i(1)] by blast+
  ultimately show "0 < n \<and> i + n \<le> KMAP_PAGES \<and> (i + n \<le> p \<or> p + (m + k) \<le> i)" using i(2) p(2) by linarith
next
  fix i n g i' n' g' assume "(S(p := None)) i = Some (n, g)" "(S(p := None)) i' = Some (n', g')" "i < i'"
  then show "i + n \<le> i'" using seg_okD(5) [OF s] by (auto split: if_splits)
next
  fix j assume "j < KMAP_PAGES"
  from seg_okD(6) [OF s this] consider "h \<le> j" "j < h + k" | i n g where "S i = Some (n, g)" "i \<le> j" "j < i + n" by blast
  then show "p \<le> j \<and> j < p + (m + k) \<or> (\<exists>i n f. (S(p := None)) i = Some (n, f) \<and> i \<le> j \<and> j < i + n)"
  proof cases
    case 2
    then show ?thesis using p by (cases "i = p") auto
  qed (use p(2) in auto)
qed

lemma seg_merge_next:
  assumes s: "seg_ok S h k" and p: "S (h + k) = Some (m, f)"
  shows "seg_ok (S(h + k := None)) h (k + m)"
proof (rule seg_okI)
  show "h + (k + m) \<le> KMAP_PAGES" using seg_okD(3) [OF s p] by simp
next
  fix i n g assume "(S(h + k := None)) i = Some (n, g)"
  then have i: "S i = Some (n, g)" "i \<noteq> h + k" by (auto split: if_splits)
  have "0 < n" "i + n \<le> KMAP_PAGES" "i + n \<le> h \<or> h + k \<le> i" using seg_okD(2-4) [OF s i(1)] by blast+
  moreover have "h + k < i \<Longrightarrow> h + k + m \<le> i" using seg_okD(5) [OF s p i(1)] by blast
  ultimately show "0 < n \<and> i + n \<le> KMAP_PAGES \<and> (i + n \<le> h \<or> h + (k + m) \<le> i)" using i(2) by linarith
next
  fix i n g i' n' g' assume "(S(h + k := None)) i = Some (n, g)" "(S(h + k := None)) i' = Some (n', g')" "i < i'"
  then show "i + n \<le> i'" using seg_okD(5) [OF s] by (auto split: if_splits)
next
  fix j assume "j < KMAP_PAGES"
  from seg_okD(6) [OF s this] consider "h \<le> j" "j < h + k" | i n g where "S i = Some (n, g)" "i \<le> j" "j < i + n" by blast
  then show "h \<le> j \<and> j < h + (k + m) \<or> (\<exists>i n f. (S(h + k := None)) i = Some (n, f) \<and> i \<le> j \<and> j < i + n)"
  proof cases
    case 2
    then show ?thesis using p by (cases "i = h + k") auto
  qed auto
qed

lemma seg_fill:
  assumes s: "seg_ok S h k" and k: "0 < k"
  shows "seg_ok (S(h := Some (k, f))) 0 0"
proof (rule seg_okI)
  fix i n g assume i: "(S(h := Some (k, f))) i = Some (n, g)"
  show "0 < n \<and> i + n \<le> KMAP_PAGES \<and> (i + n \<le> 0 \<or> 0 + 0 \<le> i)"
    using i seg_okD(1-3) [OF s] k by (cases "i = h") auto
next
  fix i n g i' n' g' assume i: "(S(h := Some (k, f))) i = Some (n, g)" "(S(h := Some (k, f))) i' = Some (n', g')" "i < i'"
  consider "i = h" "n = k" "S i' = Some (n', g')" | "i' = h" "S i = Some (n, g)" | "S i = Some (n, g)" "S i' = Some (n', g')"
    using i by (auto split: if_splits)
  then show "i + n \<le> i'"
  proof cases
    case 1
    then show ?thesis using seg_okD(2,4) [OF s 1(3)] i(3) by linarith
  next
    case 2
    then show ?thesis using seg_okD(2,4) [OF s 2(2)] i(3) by linarith
  qed (use seg_okD(5) [OF s] i(3) in blast)
next
  fix j assume "j < KMAP_PAGES"
  from seg_okD(6) [OF s this] consider "h \<le> j" "j < h + k" | i n g where "S i = Some (n, g)" "i \<le> j" "j < i + n" by blast
  then show "0 \<le> j \<and> j < 0 + 0 \<or> (\<exists>i n g. (S(h := Some (k, f))) i = Some (n, g) \<and> i \<le> j \<and> j < i + n)"
  proof cases
    case 2
    then have "i \<noteq> h" using hole_none [OF s k] by auto
    then show ?thesis using 2 by (intro disjI2 exI [of _ i] exI [of _ n] exI [of _ g]) simp
  qed auto
qed simp

lemma seg_drop: "seg_ok S 0 0 \<Longrightarrow> S i = Some (n, f) \<Longrightarrow> seg_ok (S(i := None)) i n"
proof -
  assume s: "seg_ok S 0 0" and i: "S i = Some (n, f)"
  have a: "i + n \<le> KMAP_PAGES" using seg_okD(3) [OF s i] .
  have o: "j + m \<le> i \<or> i + n \<le> j" if "S j = Some (m, g)" "j \<noteq> i" for j m g
    using seg_okD(5) [OF s that(1) i] seg_okD(5) [OF s i that(1)] that(2) by linarith
  show ?thesis
  proof (rule seg_okI)
    fix j assume "j < KMAP_PAGES"
    then show "i \<le> j \<and> j < i + n \<or> (\<exists>ia na f. (S(i := None)) ia = Some (na, f) \<and> ia \<le> j \<and> j < ia + na)"
      using seg_okD(6) [OF s] i by (metis add_0 fun_upd_other less_nat_zero_code option.inject prod.inject)
  qed (use a o seg_okD(2,3,5) [OF s] in \<open>auto split: if_splits\<close>)
qed

lemma seg_cut:
  assumes s: "seg_ok S 0 0" and i: "S i = Some (n, f)" and p: "0 < p" "p \<le> n"
  shows "seg_ok (S(i := Some (p, g))) (i + p) (n - p)"
proof -
  have d: "seg_ok (S(i := None)) i n" by (rule seg_drop [OF s i])
  show ?thesis
  proof (rule seg_okI)
    show "i + p + (n - p) \<le> KMAP_PAGES" using seg_okD(1) [OF d] p by simp
  next
    fix j m q assume j: "(S(i := Some (p, g))) j = Some (m, q)"
    show "0 < m \<and> j + m \<le> KMAP_PAGES \<and> (j + m \<le> i + p \<or> i + p + (n - p) \<le> j)"
    proof (cases "j = i")
      case True
      then show ?thesis using j p seg_okD(1) [OF d] by auto
    next
      case False
      then have j': "(S(i := None)) j = Some (m, q)" using j by simp
      then show ?thesis using seg_okD(2-4) [OF d j'] p by linarith
    qed
  next
    fix j m q j' m' q' assume j: "(S(i := Some (p, g))) j = Some (m, q)" "(S(i := Some (p, g))) j' = Some (m', q')" "j < j'"
    consider "j = i" "m = p" "(S(i := None)) j' = Some (m', q')" | "j' = i" "(S(i := None)) j = Some (m, q)"
      | "(S(i := None)) j = Some (m, q)" "(S(i := None)) j' = Some (m', q')" using j by (auto split: if_splits)
    then show "j + m \<le> j'"
    proof cases
      case 1
      then show ?thesis using seg_okD(2,4) [OF d 1(3)] j(3) p by linarith
    next
      case 2
      then show ?thesis using seg_okD(2,4) [OF d 2(2)] j(3) by linarith
    qed (use seg_okD(5) [OF d] j(3) in blast)
  next
    fix j assume "j < KMAP_PAGES"
    from seg_okD(6) [OF d this] consider "i \<le> j" "j < i + n" | a m q where "(S(i := None)) a = Some (m, q)" "a \<le> j" "j < a + m" by blast
    then show "i + p \<le> j \<and> j < i + p + (n - p) \<or> (\<exists>a m q. (S(i := Some (p, g))) a = Some (m, q) \<and> a \<le> j \<and> j < a + m)"
    proof cases
      case 1
      then show ?thesis using p by (cases "j < i + p") (auto intro: exI [of _ i])
    next
      case 2
      then show ?thesis by (intro disjI2 exI [of _ a] exI [of _ m] exI [of _ q]) (auto split: if_splits)
    qed
  qed
qed

section \<open>Releasing\<close>

text \<open>What is held and what is free, with the hole counted as free.\<close>

definition same_use :: "segs \<Rightarrow> nat \<Rightarrow> nat \<Rightarrow> segs \<Rightarrow> nat \<Rightarrow> nat \<Rightarrow> bool" where
  "same_use S h k S' h' k' \<longleftrightarrow> held S' = held S \<and> room S' \<union> {h'..<h' + k'} = room S \<union> {h..<h + k}"

lemma kheld_upd: "held (S(i := None)) = held S - {i} \<times> UNIV" "held (S(i := Some (n, True))) = held S - {i} \<times> UNIV"
  "held (S(i := Some (n, False))) = insert (i, n) (held S - {i} \<times> UNIV)"
  by (auto simp: held_def split: if_splits)

lemma held_none: "(\<And>n. S i \<noteq> Some (n, False)) \<Longrightarrow> held S - {i} \<times> UNIV = held S"
  by (auto simp: held_def)

definition frees :: "segs \<Rightarrow> (nat \<times> nat) set" where "frees S = {(i, n). S i = Some (n, True)}"

lemma room_frees: "room S = (\<Union>x\<in>frees S. {fst x..<fst x + snd x})"
  by (fastforce simp: room_def frees_def)

lemma room_merge: "S p = Some (m, True) \<Longrightarrow> room (S(p := None)) \<union> {p..<p + m} = room S"
proof -
  assume p: "S p = Some (m, True)"
  then have "frees S = insert (p, m) (frees (S(p := None)))" by (auto simp: frees_def split: if_splits)
  then show ?thesis unfolding room_frees by auto
qed

lemma room_fill: "S h = None \<Longrightarrow> room (S(h := Some (k, True))) = room S \<union> {h..<h + k}"
proof -
  assume "S h = None"
  then have "frees (S(h := Some (k, True))) = insert (h, k) (frees S)" by (auto simp: frees_def split: if_splits)
  then show ?thesis unfolding room_frees by auto
qed

lemma take_in_ok:
  assumes "lists_ok S (klinks s)" "S i = Some (n, f)"
  shows "\<exists>l. take_in i s = Inr (f, s\<lparr>klinks := l\<rparr>) \<and> lists_ok (if f then S(i := None) else S) l"
proof (cases f)
  case True
  then show ?thesis using lists_del [OF assms(1), of i n] lists_empty [OF assms] assms(2) by (auto simp: take_in_def)
next
  case False
  then show ?thesis using lists_empty [OF assms] assms(1) by (auto simp: take_in_def intro!: exI [of _ "klinks s"])
qed

lemma kinv_del:
  assumes "kinv S s h k" "seg_ok (S(p := None)) h' k'" "lists_ok (S(p := None)) l"
  shows "kinv (S(p := None)) (s\<lparr>klinks := l\<rparr>) h' k'"
  using assms unfolding kinv_def no_neighbours_def tags_ok_def by (auto split: if_splits)

lemma merge_before_ok:
  assumes i: "kinv S s h k" "0 < k"
  shows "\<exists>S' s' h' k'. merge_before h k s = Inr (h', k', s') \<and> kinv S' s' h' k' \<and> 0 < k' \<and> same_use S h k S' h' k' \<and>
    (\<forall>p m. S' p = Some (m, True) \<longrightarrow> p + m \<noteq> h')"
proof (cases "0 < h")
  case False
  then have "p + m \<noteq> h" if "S p = Some (m, True)" for p m using seg_okD(2) [OF kinvD(1) [OF i(1)] that] by linarith
  then show ?thesis using i False by (auto simp: merge_before_def same_use_def intro!: exI [of _ S])
next
  case True
  note d = kinvD [OF i(1)]
  obtain p m f where p: "S p = Some (m, f)" "p + m = h" by (rule seg_prev [OF d(1) i(2) True])
  have mp: "0 < m" using seg_okD(2) [OF d(1) p(1)] .
  have "kpages s (h - 1) = m" "kpages s p = m" using d(3) p by (auto simp: tags_ok_def)
  moreover have "h \<le> KMAP_PAGES" "p < KMAP_PAGES" using seg_okD(1) [OF d(1)] p(2) mp i(2) by linarith+
  ultimately have rd: "rd_pages (h - 1) s = Inr m" "\<And>l. rd_pages p (s\<lparr>klinks := l\<rparr>) = Inr m" "h - m = p" "m \<le> h"
    using True p(2) by (auto simp: rd_pages_def)
  obtain l where l: "take_in p s = Inr (f, s\<lparr>klinks := l\<rparr>)" "lists_ok (if f then S(p := None) else S) l"
    using take_in_ok [OF d(4) p(1)] by blast
  show ?thesis
  proof (cases f)
    case False
    have "q + n \<noteq> h" if q: "S q = Some (n, True)" for q n
      using seg_okD(5) [OF d(1) p(1) q] seg_okD(5) [OF d(1) q p(1)] seg_okD(2) [OF d(1) q] p q False mp by (cases "p < q"; cases "q < p") auto
    moreover have "merge_before h k s = Inr (h, k, s\<lparr>klinks := l\<rparr>)" using rd l(1) False True by (simp add: merge_before_def Let_def)
    moreover have "kinv S (s\<lparr>klinks := l\<rparr>) h k" using l(2) False d by (simp add: kinv_def tags_ok_def)
    ultimately show ?thesis using i(2) by (intro exI [of _ S] exI [of _ "s\<lparr>klinks := l\<rparr>"] exI [of _ h] exI [of _ k]) (simp add: same_use_def)
  next
    case f: True
    have k': "kinv (S(p := None)) (s\<lparr>klinks := l\<rparr>) p (k + m)"
      using kinv_del [OF i(1), of p p "k + m" l] seg_merge_prev [OF d(1) p] l(2) f by (simp add: add.commute)
    have "q + n \<noteq> p" if q: "(S(p := None)) q = Some (n, True)" for q n
    proof -
      have q': "S q = Some (n, True)" using q by (simp split: if_splits)
      then show ?thesis using d(2) p(1) f unfolding no_neighbours_def by (metis (full_types))
    qed
    moreover have "same_use S h k (S(p := None)) p (k + m)"
    proof -
      have "{p..<p + (k + m)} = {p..<p + m} \<union> {h..<h + k}" using p(2) by auto
      moreover have "room (S(p := None)) \<union> {p..<p + m} = room S" using room_merge [of S p m] p(1) f by simp
      ultimately show ?thesis using p(1) f held_none [of S p] unfolding same_use_def kheld_upd by auto
    qed
    moreover have "merge_before h k s = Inr (p, k + m, s\<lparr>klinks := l\<rparr>)" using rd l(1) f True by (simp add: merge_before_def Let_def)
    ultimately show ?thesis using k' i(2)
      by (intro exI [of _ "S(p := None)"] exI [of _ "s\<lparr>klinks := l\<rparr>"] exI [of _ p] exI [of _ "k + m"]) simp
  qed
qed

lemma merge_behind_ok:
  assumes i: "kinv S s h k" "0 < k"
  shows "\<exists>S' s' k'. merge_behind h k s = Inr (k', s') \<and> kinv S' s' h k' \<and> 0 < k' \<and> same_use S h k S' h k' \<and>
    (\<forall>p n. S' p = Some (n, True) \<longrightarrow> S p = Some (n, True)) \<and> (\<forall>n. S' (h + k') \<noteq> Some (n, True))"
proof (cases "h + k < KMAP_PAGES")
  case False
  then have "S (h + k) \<noteq> Some (n, True)" for n
    using seg_okD(2,3) [OF kinvD(1) [OF i(1)], of "h + k" n True] by auto
  then show ?thesis using i False by (auto simp: merge_behind_def same_use_def intro!: exI [of _ S])
next
  case True
  note d = kinvD [OF i(1)]
  obtain m f where p: "S (h + k) = Some (m, f)" by (rule seg_next [OF d(1) i(2) True])
  have "kpages s (h + k) = m" using d(3) p by (auto simp: tags_ok_def)
  then have rd: "rd_pages (h + k) (s\<lparr>klinks := l\<rparr>) = Inr m" for l using True by (simp add: rd_pages_def)
  obtain l where l: "take_in (h + k) s = Inr (f, s\<lparr>klinks := l\<rparr>)" "lists_ok (if f then S(h + k := None) else S) l"
    using take_in_ok [OF d(4) p(1)] by blast
  show ?thesis
  proof (cases f)
    case False
    have "merge_behind h k s = Inr (k, s\<lparr>klinks := l\<rparr>)" using l(1) False True by (simp add: merge_behind_def Let_def)
    moreover have "kinv S (s\<lparr>klinks := l\<rparr>) h k" using l(2) False d by (simp add: kinv_def tags_ok_def)
    ultimately show ?thesis using i(2) p False by (intro exI [of _ S] exI [of _ "s\<lparr>klinks := l\<rparr>"] exI [of _ k]) (simp add: same_use_def)
  next
    case f: True
    let ?S = "S(h + k := None)"
    have k': "kinv ?S (s\<lparr>klinks := l\<rparr>) h (k + m)"
      using kinv_del [OF i(1), of "h + k" h "k + m" l] seg_merge_next [OF d(1) p] l(2) f by simp
    have "same_use S h k ?S h (k + m)"
    proof -
      have "{h..<h + (k + m)} = {h + k..<h + k + m} \<union> {h..<h + k}" by auto
      moreover have "room ?S \<union> {h + k..<h + k + m} = room S" using room_merge [of S "h + k" m] p f by simp
      ultimately show ?thesis using p f held_none [of S "h + k"] unfolding same_use_def kheld_upd by auto
    qed
    moreover have "merge_behind h k s = Inr (k + m, s\<lparr>klinks := l\<rparr>)" using rd l(1) f True by (simp add: merge_behind_def Let_def)
    moreover have "\<forall>n. ?S (h + (k + m)) \<noteq> Some (n, True)"
    proof
      fix n have "S (h + k + m) \<noteq> Some (n, True)" using d(2) p f unfolding no_neighbours_def by (metis (full_types))
      then show "?S (h + (k + m)) \<noteq> Some (n, True)" by (simp add: add.assoc)
    qed
    moreover have "\<forall>p n. ?S p = Some (n, True) \<longrightarrow> S p = Some (n, True)" by (simp split: if_splits)
    moreover have "0 < k + m" using i(2) by simp
    ultimately show ?thesis using k' by blast
  qed
qed

lemma tags_okD: "tags_ok S s \<Longrightarrow> S i = Some (n, f) \<Longrightarrow> kpages s i = n \<and> kpages s (i + n - 1) = n"
  unfolding tags_ok_def by blast

lemma set_pages_ok:
  assumes "seg_ok (S(h := None)) h' k'" "h' \<le> h" "h + k \<le> h' + k'" "0 < k" "tags_ok (S(h := None)) s"
    and apart: "\<And>i n g. S i = Some (n, g) \<Longrightarrow> i \<noteq> h \<Longrightarrow> i + n \<le> h \<or> h + k \<le> i"
  shows "\<exists>s'. set_pages h k s = Inr s' \<and> klinks s' = klinks s \<and> tags_ok (S(h := Some (k, f))) s'"
proof -
  have b: "h < KMAP_PAGES" "h + k - 1 < KMAP_PAGES" using seg_okD(1) [OF assms(1)] assms(2-4) by linarith+
  let ?s = "s\<lparr>kpages := (kpages s)(h := k, h + k - 1 := k)\<rparr>"
  have "kpages ?s i = n \<and> kpages ?s (i + n - 1) = n" if i: "S i = Some (n, g)" "i \<noteq> h" for i n g
  proof -
    have i': "(S(h := None)) i = Some (n, g)" using i by simp
    have "i + n \<le> h \<or> h + k \<le> i" "0 < n" using apart [OF i] seg_okD(2) [OF assms(1) i'] by blast+
    then have "i \<noteq> h \<and> i \<noteq> h + k - 1 \<and> i + n - 1 \<noteq> h \<and> i + n - 1 \<noteq> h + k - 1" using i(2) assms(4) by auto
    then show ?thesis using tags_okD [OF assms(5) i'] by simp
  qed
  moreover have "kpages ?s h = k \<and> kpages ?s (h + k - 1) = k" using assms(4) by simp
  ultimately have "tags_ok (S(h := Some (k, f))) ?s" unfolding tags_ok_def by (metis fun_upd_apply option.inject prod.inject)
  then show ?thesis using b assms(4) by (intro exI [of _ ?s]) (simp add: set_pages_def wr_pages_def)
qed

theorem free_range_ok:
  assumes "kinv S s h k" "0 < k"
  shows "\<exists>S' s'. kmap_free_range h k s = Inr s' \<and> kinv S' s' 0 0 \<and> held S' = held S \<and> room S' = room S \<union> {h..<h + k}"
proof -
  obtain S1 s1 h1 k1 where b: "merge_before h k s = Inr (h1, k1, s1)" "kinv S1 s1 h1 k1" "0 < k1" "same_use S h k S1 h1 k1"
    "\<forall>p m. S1 p = Some (m, True) \<longrightarrow> p + m \<noteq> h1" using merge_before_ok [OF assms] by blast
  obtain S2 s2 k2 where c: "merge_behind h1 k1 s1 = Inr (k2, s2)" "kinv S2 s2 h1 k2" "0 < k2" "same_use S1 h1 k1 S2 h1 k2"
    "\<forall>p n. S2 p = Some (n, True) \<longrightarrow> S1 p = Some (n, True)" "\<forall>n. S2 (h1 + k2) \<noteq> Some (n, True)" using merge_behind_ok [OF b(2,3)] by blast
  note d = kinvD [OF c(2)]
  let ?S = "S2(h1 := Some (k2, True))"
  have n: "S2 h1 = None" by (rule hole_none [OF d(1) c(3)])
  obtain s3 where s3: "set_pages h1 k2 s2 = Inr s3" "klinks s3 = klinks s2" "tags_ok ?S s3"
    using set_pages_ok [of S2 h1 h1 k2 k2 s2 True] d(1,3) c(3) n seg_okD(4) [OF d(1)] by (auto simp: fun_upd_idem)
  have "h1 < KMAP_PAGES" using seg_okD(1) [OF d(1)] c(3) by linarith
  then obtain l where l: "list_add (KRange h1) (KHead (slot k2)) (klinks s3) = Inr l" "lists_ok ?S l"
    using lists_add [of S2 "klinks s2" h1 k2] n d(4) s3(2) by auto
  have "no_neighbours ?S" unfolding no_neighbours_def
  proof (intro allI impI)
    fix i a m assume i: "?S i = Some (a, True)"
    show "?S (i + a) \<noteq> Some (m, True)"
    proof (cases "i = h1")
      case True
      then show ?thesis using i c(3,6) by simp
    next
      case False
      then have "S2 i = Some (a, True)" using i by simp
      then show ?thesis using d(2) b(5) c(5) unfolding no_neighbours_def by (metis fun_upd_apply)
    qed
  qed
  then have k: "kinv ?S (s3\<lparr>klinks := l\<rparr>) 0 0" using seg_fill [OF d(1) c(3)] s3(3) l(2) by (simp add: kinv_def tags_ok_def)
  have "kmap_free_range h k s = Inr (s3\<lparr>klinks := l\<rparr>)" using b(1) c(1) s3(1) l(1) by (simp add: kmap_free_range_def slot_def)
  moreover have "held ?S = held S" "room ?S = room S \<union> {h..<h + k}"
    using b(4) c(4) n held_none [of S2 h1] room_fill [of S2 h1 k2] unfolding same_use_def kheld_upd by auto
  ultimately show ?thesis using k by blast
qed

lemma drop_held:
  assumes "kinv S s 0 0" "S i = Some (n, False)"
  shows "kinv (S(i := None)) s i n" "0 < n" "held (S(i := None)) = held S - {(i, n)}" "room (S(i := None)) = room S"
proof -
  note d = kinvD [OF assms(1)]
  show "0 < n" by (rule seg_okD(2) [OF d(1) assms(2)])
  show "kinv (S(i := None)) s i n" using seg_drop [OF d(1) assms(2)] lists_drop [OF d(4) assms(2)] d(2,3)
    unfolding kinv_def no_neighbours_def tags_ok_def by (auto split: if_splits)
  show "held (S(i := None)) = held S - {(i, n)}" using assms(2) by (auto simp: held_def split: if_splits)
  have "frees (S(i := None)) = frees S" using assms(2) by (auto simp: frees_def split: if_splits)
  then show "room (S(i := None)) = room S" by (simp add: room_frees)
qed

end
