(* ===== verification/Kmap_Alloc.thy ===== *)
theory Kmap_Alloc
  imports Kmap_Ops
begin

text \<open>The search through the lists of free ranges, and what \<open>kmap_alloc_range\<close> and \<open>kmap_free_range\<close> do to the window.\<close>

section \<open>The search\<close>

lemma find_free_loop_run:
  assumes "lseg (nx (klinks s)) P a xs (KHead o')" "\<forall>x\<in>set xs. x \<in> dom (klinks s) \<and> (\<exists>i<KMAP_PAGES. x = KRange i)"
  shows "find_free_loop s (KHead o') pages (Some (hd (xs @ [KHead o']))) =
    Some (Inr (case find (\<lambda>x. case x of KRange i \<Rightarrow> kpages s i \<ge> pages | _ \<Rightarrow> False) xs of Some (KRange i) \<Rightarrow> Some i | _ \<Rightarrow> None))"
  using assms
proof (induction xs arbitrary: a)
  case Nil
  then show ?case by (simp add: find_free_loop.simps)
next
  case (Cons x xs)
  obtain i where x: "x = KRange i" "i < KMAP_PAGES" "KRange i \<in> dom (klinks s)" using Cons(3) by auto
  have n: "nx (klinks s) (KRange i) = Some (hd (xs @ [KHead o']))" using lseg_next [of "nx (klinks s)" P x xs "KHead o'"] Cons(2) x(1) by simp
  then obtain nd where nd: "rd_node (klinks s) (Some (KRange i)) = Inr nd" "nxt nd = Some (hd (xs @ [KHead o']))"
    using rd_node_ok [OF x(3)] by auto
  have "lseg (nx (klinks s)) P x xs (KHead o')" using Cons(2) by simp
  from Cons(1) [OF this] Cons(3) have "find_free_loop s (KHead o') pages (nxt nd) =
    Some (Inr (case find (\<lambda>x. case x of KRange i \<Rightarrow> kpages s i \<ge> pages | _ \<Rightarrow> False) xs of Some (KRange i) \<Rightarrow> Some i | _ \<Rightarrow> None))"
    using nd(2) by simp
  then show ?case using x nd(1) by (simp add: find_free_loop.simps [of s "KHead o'" pages "Some (KRange i)"] rd_pages_def)
qed

lemma find_free_ok:
  assumes "kinv S s 0 0" "o' < KMAP_ORDERS"
  shows "\<exists>r. kmap_find_free o' pages s = Some (Inr r) \<and>
    (case r of Some i \<Rightarrow> \<exists>n. S i = Some (n, True) \<and> slot n = o' \<and> pages \<le> n
     | None \<Rightarrow> \<forall>i n. S i = Some (n, True) \<longrightarrow> slot n = o' \<longrightarrow> n < pages)"
proof -
  note d = kinvD [OF assms(1)]
  obtain F where F: "lists_rep (klinks s) (heads S) F" "family_ok S F" using d(4) by (rule lists_okE)
  let ?xs = "F (KHead o')"
  let ?fits = "\<lambda>x. case x of KRange i \<Rightarrow> kpages s i \<ge> pages | _ \<Rightarrow> False"
  have dl: "dlist (klinks s) (KHead o') ?xs" by (rule lists_rep_dlist [OF F(1) khead_in [OF assms(2)]])
  have mem: "KRange i \<in> set ?xs \<longleftrightarrow> (\<exists>n. S i = Some (n, True) \<and> slot n = o')" for i by (rule family_okD(2) [OF F(2) assms(2)])
  have pg: "kpages s i = n" if "S i = Some (n, True)" for i n using tags_okD [OF d(3) that] by blast
  have el: "\<exists>i n. x = KRange i \<and> S i = Some (n, True) \<and> slot n = o'" if x: "x \<in> set ?xs" for x
  proof (cases x)
    case (KHead a)
    then show ?thesis using family_okD(3) [OF F(2) assms(2), of a] x by simp
  next
    case (KRange i)
    then show ?thesis using mem x by blast
  qed
  have "\<forall>x\<in>set ?xs. x \<in> dom (klinks s) \<and> (\<exists>i<KMAP_PAGES. x = KRange i)"
  proof
    fix x assume x: "x \<in> set ?xs"
    obtain i n where i: "x = KRange i" "S i = Some (n, True)" using el [OF x] by blast
    have "i < KMAP_PAGES" using seg_okD(2,3) [OF d(1) i(2)] by linarith
    then show "x \<in> dom (klinks s) \<and> (\<exists>i<KMAP_PAGES. x = KRange i)" using dlist_dom [OF dl] x i(1) by blast
  qed
  moreover have "lseg (nx (klinks s)) (pv (klinks s)) (KHead o') ?xs (KHead o')" using dl by (simp add: dlist_def)
  ultimately have run: "kmap_find_free o' pages s = Some (Inr (case find ?fits ?xs of Some (KRange i) \<Rightarrow> Some i | _ \<Rightarrow> None))"
    unfolding kmap_find_free_def list_first_dlist [OF dl] using find_free_loop_run by simp
  show ?thesis
  proof (cases "find ?fits ?xs")
    case None
    then have no: "\<not> ?fits x" if "x \<in> set ?xs" for x using that by (auto simp: find_None_iff)
    have "n < pages" if n: "S i = Some (n, True)" "slot n = o'" for i n
    proof -
      have "KRange i \<in> set ?xs" using mem n by blast
      from no [OF this] show ?thesis using pg [OF n(1)] by simp
    qed
    then show ?thesis using run None by simp
  next
    case (Some x)
    then have x: "x \<in> set ?xs" "?fits x" by (auto simp: find_Some_iff)
    obtain i n where i: "x = KRange i" "S i = Some (n, True)" "slot n = o'" using el [OF x(1)] by blast
    then show ?thesis using run Some x(2) pg [OF i(2)] by simp
  qed
qed

lemma find_from_ok:
  assumes "kinv S s 0 0" "set os \<subseteq> {..<KMAP_ORDERS}"
  shows "\<exists>r. find_from os pages s = Some (Inr r) \<and>
    (case r of Some i \<Rightarrow> \<exists>n. S i = Some (n, True) \<and> pages \<le> n
     | None \<Rightarrow> \<forall>i n. S i = Some (n, True) \<longrightarrow> slot n \<in> set os \<longrightarrow> n < pages)"
  using assms(2)
proof (induction os)
  case (Cons x os)
  obtain r where r: "kmap_find_free x pages s = Some (Inr r)"
    "case r of Some i \<Rightarrow> \<exists>n. S i = Some (n, True) \<and> slot n = x \<and> pages \<le> n
     | None \<Rightarrow> \<forall>i n. S i = Some (n, True) \<longrightarrow> slot n = x \<longrightarrow> n < pages"
    using find_free_ok [OF assms(1), of x pages] Cons(2) by auto
  obtain r' where r': "find_from os pages s = Some (Inr r')"
    "case r' of Some i \<Rightarrow> \<exists>n. S i = Some (n, True) \<and> pages \<le> n
     | None \<Rightarrow> \<forall>i n. S i = Some (n, True) \<longrightarrow> slot n \<in> set os \<longrightarrow> n < pages"
    using Cons by auto
  show ?case
  proof (cases r)
    case None
    then show ?thesis using r r' by (cases r') auto
  next
    case (Some i)
    then show ?thesis using r by auto
  qed
qed simp

text \<open>A free range that is large enough is on a list that is searched, unless \<open>2 ^ 16\<close> pages or more are wanted.\<close>

lemma fits_slot:
  assumes "pages \<le> n" "0 < pages" "pages < 2 ^ KMAP_ORDERS"
  shows "slot n \<in> set [kmap_order pages..<KMAP_ORDERS] \<or> 2 ^ kmap_order pages > pages \<and> 0 < kmap_order pages \<and> slot n = kmap_order pages - 1"
proof -
  let ?k = "kmap_order pages"
  have n: "0 < n" using assms by simp
  note sb = slot_bounds [OF n]
  consider "?k \<le> slot n" | "slot n + 1 = ?k" | "slot n + 1 < ?k" by linarith
  then show ?thesis
  proof cases
    case 1
    then show ?thesis using slot_less [of n] by simp
  next
    case 2
    have "pages < 2 ^ ?k"
    proof (cases "?k < KMAP_ORDERS")
      case True
      then have "n < 2 ^ ?k" using sb(2) unfolding 2 by blast
      then show ?thesis using assms(1) by simp
    next
      case False
      then have "?k = KMAP_ORDERS" using kmap_order_ok(1) [of pages] by simp
      then show ?thesis using assms(3) by simp
    qed
    then show ?thesis using 2 by auto
  next
    case 3
    have "n < 2 ^ (slot n + 1)" using sb(2) 3 kmap_order_ok(1) [of pages] by simp
    also have "\<dots> \<le> 2 ^ (?k - 1)" by (rule power_increasing) (use 3 in simp_all)
    also have "\<dots> < pages" using kmap_order_ok(3) [of pages] 3 by simp
    finally show ?thesis using assms(1) by simp
  qed
qed

lemma search_ok:
  assumes "kinv S s 0 0" "0 < pages"
  shows "\<exists>r. bindP (find_from [kmap_order pages..<KMAP_ORDERS] pages s) (\<lambda>r.
      if r = None \<and> 2 ^ kmap_order pages > pages
      then if kmap_order pages = 0 then Some (Inl Fault) else kmap_find_free (kmap_order pages - 1) pages s
      else Some (Inr r)) = Some (Inr r) \<and>
    (case r of Some i \<Rightarrow> \<exists>n. S i = Some (n, True) \<and> pages \<le> n
     | None \<Rightarrow> pages < 2 ^ KMAP_ORDERS \<longrightarrow> (\<forall>i n. S i = Some (n, True) \<longrightarrow> n < pages))"
proof -
  let ?k = "kmap_order pages"
  have os: "set [?k..<KMAP_ORDERS] \<subseteq> {..<KMAP_ORDERS}" by auto
  obtain r where r: "find_from [?k..<KMAP_ORDERS] pages s = Some (Inr r)"
    "case r of Some i \<Rightarrow> \<exists>n. S i = Some (n, True) \<and> pages \<le> n
     | None \<Rightarrow> \<forall>i n. S i = Some (n, True) \<longrightarrow> slot n \<in> set [?k..<KMAP_ORDERS] \<longrightarrow> n < pages"
    using find_from_ok [OF assms(1) os, of pages] by blast
  have z: "2 ^ ?k > pages \<Longrightarrow> ?k \<noteq> 0" using assms(2) by (intro notI) simp
  show ?thesis
  proof (cases "r = None \<and> 2 ^ ?k > pages")
    case False
    show ?thesis
    proof (cases r)
      case None
      then have k: "\<not> 2 ^ ?k > pages" using False by simp
      have "\<forall>i n. S i = Some (n, True) \<longrightarrow> slot n \<in> set [?k..<KMAP_ORDERS] \<longrightarrow> n < pages" using r(2) None by simp
      then have "n < pages" if "pages < 2 ^ KMAP_ORDERS" "S i = Some (n, True)" for i n
        using fits_slot [of pages n] that k assms(2) not_le by blast
      then show ?thesis using r(1) None k by simp
    qed (use r in simp)
  next
    case True
    have "?k - 1 < KMAP_ORDERS" using kmap_order_ok(1) [of pages] z True by simp
    from find_free_ok [OF assms(1) this, of pages]
    obtain r' where r': "kmap_find_free (?k - 1) pages s = Some (Inr r')"
      "case r' of Some i \<Rightarrow> \<exists>n. S i = Some (n, True) \<and> slot n = ?k - 1 \<and> pages \<le> n
       | None \<Rightarrow> \<forall>i n. S i = Some (n, True) \<longrightarrow> slot n = ?k - 1 \<longrightarrow> n < pages" by blast
    show ?thesis
    proof (cases r')
      case None
      have "\<forall>i n. S i = Some (n, True) \<longrightarrow> slot n \<in> set [?k..<KMAP_ORDERS] \<longrightarrow> n < pages" using r(2) True by simp
      moreover have "\<forall>i n. S i = Some (n, True) \<longrightarrow> slot n = ?k - 1 \<longrightarrow> n < pages" using r'(2) None by simp
      ultimately have "n < pages" if "pages < 2 ^ KMAP_ORDERS" "S i = Some (n, True)" for i n
        using fits_slot [of pages n] that assms(2) not_le by blast
      then show ?thesis using r(1) r'(1) None True z by simp
    next
      case (Some i)
      then show ?thesis using r(1) r' True z by auto
    qed
  qed
qed

section \<open>Allocation\<close>

lemma seg_close: "seg_ok S h 0 \<Longrightarrow> seg_ok S 0 0"
  unfolding seg_ok_def by fastforce

lemma room_hole: "seg_ok S h k \<Longrightarrow> room S \<inter> {h..<h + k} = {}"
  using seg_okD(4) [of S h k] by (fastforce simp: room_def)

lemma use_held:
  assumes "seg_ok S 0 0" "S i = Some (n, True)"
  shows "held (S(i := Some (k, False))) = insert (i, k) (held S)" "\<forall>m. (i, m) \<notin> held S"
    "{i..<i + n} \<subseteq> room S" "room (S(i := Some (k, False))) = room S - {i..<i + n}"
proof -
  show "held (S(i := Some (k, False))) = insert (i, k) (held S)" using assms(2) held_none [of S i] by (simp add: kheld_upd)
  show "\<forall>m. (i, m) \<notin> held S" using assms(2) by (simp add: held_def)
  note m = room_merge [of S i n, OF assms(2)] room_hole [OF seg_drop [OF assms]]
  then show "{i..<i + n} \<subseteq> room S" by blast
  have "frees (S(i := Some (k, False))) = frees (S(i := None))" by (auto simp: frees_def split: if_splits)
  then have "room (S(i := Some (k, False))) = room (S(i := None))" by (simp add: room_frees)
  then show "room (S(i := Some (k, False))) = room S - {i..<i + n}" using m by blast
qed

theorem kmap_range_ok:
  assumes "kinv S s 0 0" "0 < pages"
  shows "\<exists>r s'. kmap_alloc_range pages s = Some (Inr (r, s')) \<and>
    (case r of
       Some i \<Rightarrow> \<exists>S'. kinv S' s' 0 0 \<and> held S' = insert (i, pages) (held S) \<and> (\<forall>n. (i, n) \<notin> held S) \<and>
         {i..<i + pages} \<subseteq> room S \<and> room S' = room S - {i..<i + pages}
     | None \<Rightarrow> s' = s \<and> (pages < 2 ^ KMAP_ORDERS \<longrightarrow> (\<forall>i n. S i = Some (n, True) \<longrightarrow> n < pages)))"
proof -
  let ?k = "kmap_order pages"
  let ?search = "bindP (find_from [?k..<KMAP_ORDERS] pages s) (\<lambda>r.
      if r = None \<and> 2 ^ ?k > pages
      then if ?k = 0 then Some (Inl Fault) else kmap_find_free (?k - 1) pages s
      else Some (Inr r))"
  obtain r where r: "?search = Some (Inr r)"
    "case r of Some i \<Rightarrow> \<exists>n. S i = Some (n, True) \<and> pages \<le> n
     | None \<Rightarrow> pages < 2 ^ KMAP_ORDERS \<longrightarrow> (\<forall>i n. S i = Some (n, True) \<longrightarrow> n < pages)"
    using search_ok [OF assms] by blast
  have run: "kmap_alloc_range pages s = (case r of
           None \<Rightarrow> Some (Inr (None, s))
         | Some rg \<Rightarrow>
             Some (bindE (rd_pages rg s) (\<lambda>range_pages.
               bindE (list_del (KRange rg) (klinks s)) (\<lambda>l.
               bindE (list_init (KRange rg) l) (\<lambda>l.
               bindE (set_pages rg pages (s\<lparr>klinks := l\<rparr>)) (\<lambda>s.
               if range_pages > pages
               then bindE (kmap_free_range (rg + pages) (range_pages - pages) s) (\<lambda>s. Inr (Some rg, s))
               else Inr (Some rg, s)))))))"
    using r(1) by (auto simp: kmap_alloc_range_def Let_def bindP_eq_Inr)
  note d = kinvD [OF assms(1)]
  show ?thesis
  proof (cases r)
    case None
    then show ?thesis using run r(2) by simp
  next
    case (Some i)
    obtain n where n: "S i = Some (n, True)" "pages \<le> n" using r(2) Some by auto
    let ?S = "S(i := Some (pages, False))"
    have b: "i + n \<le> KMAP_PAGES" "0 < n" using seg_okD(2,3) [OF d(1) n(1)] by blast+
    have rd: "rd_pages i s = Inr n" using tags_okD [OF d(3) n(1)] b by (simp add: rd_pages_def)
    obtain l1 where l1: "list_del (KRange i) (klinks s) = Inr l1" "lists_ok (S(i := None)) l1" using lists_del [OF d(4) n(1)] by blast
    have "\<exists>l2. list_init (KRange i) l1 = Inr l2 \<and> lists_ok ((S(i := None))(i := Some (pages, False))) l2"
      by (rule lists_init [OF l1(2)]) (use b in simp_all)
    then obtain l2 where l2: "list_init (KRange i) l1 = Inr l2" "lists_ok ?S l2" by auto
    have dr: "seg_ok (S(i := None)) i n" by (rule seg_drop [OF d(1) n(1)])
    have cut: "seg_ok ?S (i + pages) (n - pages)" by (rule seg_cut [OF d(1) n(1) assms(2) n(2)])
    have tg: "tags_ok (S(i := None)) (s\<lparr>klinks := l2\<rparr>)" using d(3) by (auto simp: tags_ok_def split: if_splits)
    obtain s3 where s3: "set_pages i pages (s\<lparr>klinks := l2\<rparr>) = Inr s3" "klinks s3 = l2" "tags_ok ?S s3"
      using set_pages_ok [of S i i n pages "s\<lparr>klinks := l2\<rparr>" False] dr tg n(2) assms(2) seg_okD(4) [OF dr] by fastforce
    have k3: "kinv ?S s3 (i + pages) (n - pages)"
      using cut s3 l2(2) d(2) unfolding kinv_def no_neighbours_def by (auto split: if_splits)
    have use: "held ?S = insert (i, pages) (held S)" "\<forall>m. (i, m) \<notin> held S" "{i..<i + n} \<subseteq> room S" "room ?S = room S - {i..<i + n}"
      by (rule use_held [OF d(1) n(1)])+
    have fin: "kmap_alloc_range pages s = Some (if n > pages then bindE (kmap_free_range (i + pages) (n - pages) s3) (\<lambda>s. Inr (Some i, s)) else Inr (Some i, s3))"
      using run Some rd l1(1) l2(1) s3(1) by simp
    show ?thesis
    proof (cases "n > pages")
      case True
      then obtain S' s' where s': "kmap_free_range (i + pages) (n - pages) s3 = Inr s'" "kinv S' s' 0 0" "held S' = held ?S"
        "room S' = room ?S \<union> {i + pages..<i + pages + (n - pages)}" using free_range_ok [OF k3] by auto
      have "{i..<i + n} = {i..<i + pages} \<union> {i + pages..<i + pages + (n - pages)}" using n(2) by auto
      then have "{i..<i + pages} \<subseteq> room S" "room S' = room S - {i..<i + pages}" using use(3,4) s'(4) by auto
      then show ?thesis using fin True s' use by (intro exI [of _ "Some i"] exI [of _ s']) auto
    next
      case False
      then have e: "n = pages" using n(2) by simp
      have "kinv ?S s3 0 0" using k3 seg_close [of ?S "i + pages"] e by (simp add: kinv_def)
      then show ?thesis using fin use e by (intro exI [of _ "Some i"] exI [of _ s3]) auto
    qed
  qed
qed

text \<open>What is held is not free, and when nothing is held the window is one free range again.\<close>

lemma held_not_free:
  assumes "seg_ok S 0 0" "(i, n) \<in> held S" "i \<le> j" "j < i + n"
  shows "j \<notin> room S"
proof
  assume "j \<in> room S"
  then obtain a m where a: "S a = Some (m, True)" "a \<le> j" "j < a + m" by (auto simp: room_def)
  have i: "S i = Some (n, False)" using assms(2) by (simp add: held_def)
  have "a \<noteq> i" using a(1) i by auto
  then show False using seg_okD(5) [OF assms(1) a(1) i] seg_okD(5) [OF assms(1) i a(1)] a(2,3) assms(3,4) by linarith
qed

lemma whole_window:
  assumes k: "kinv S s 0 0" "held S = {}"
  shows "S 0 = Some (KMAP_PAGES, True)"
proof -
  note d = kinvD [OF k(1)]
  have free: "f" if "S i = Some (n, f)" for i n f using k(2) that by (cases f) (auto simp: held_def)
  have "0 < KMAP_PAGES" by (simp add: KMAP_PAGES_def KMAP_SIZE_def)
  from seg_okD(6) [OF d(1) this] obtain n f where n: "S 0 = Some (n, f)" by auto
  have n0: "0 < n" "n \<le> KMAP_PAGES" using seg_okD(2,3) [OF d(1) n] by simp_all
  have "n = KMAP_PAGES"
  proof (rule ccontr)
    assume "n \<noteq> KMAP_PAGES"
    then have "n < KMAP_PAGES" using n0 by simp
    from seg_okD(6) [OF d(1) this] obtain a m f' where a: "S a = Some (m, f')" "a \<le> n" "n < a + m" by auto
    have "a \<noteq> 0" using a(1,3) n by (intro notI) simp
    then have "n \<le> a" using seg_okD(5) [OF d(1) n a(1)] by simp
    then have "S (0 + n) = Some (m, True)" using a(1,2) free [OF a(1)] by simp
    moreover have "S 0 = Some (n, True)" using n free [OF n] by simp
    ultimately show False using d(2) unfolding no_neighbours_def by blast
  qed
  then show ?thesis using n free [OF n] by simp
qed

end
