(* ===== verification/Kmap_Start.thy ===== *)
theory Kmap_Start
  imports Kmap_Alloc
begin

text \<open>The window after its set-up, and the contract of an allocator for the ranges of the window.\<close>

section \<open>The empty window\<close>

lemma init_heads_ok:
  assumes "lists_rep l (KHead ` D) (\<lambda>_. [])" "set is \<inter> D = {}" "distinct is" "KHead ` set is \<subseteq> dom l"
  shows "\<exists>l'. init_heads is l = Inr l' \<and> lists_rep l' (KHead ` (D \<union> set is)) (\<lambda>_. []) \<and> dom l' = dom l"
  using assms
proof (induction "is" arbitrary: l D)
  case (Cons i "is")
  have i: "KHead i \<in> dom l" "\<forall>b\<in>KHead ` D. KHead i \<notin> set (b # (\<lambda>_. []) b)" using Cons(3,5) by auto
  obtain l1 where l1: "list_init (KHead i) l = Inr l1" "lists_rep l1 (insert (KHead i) (KHead ` D)) ((\<lambda>_. [])(KHead i := []))" "dom l1 = dom l"
    using lists_rep_init [OF Cons(2) i] by blast
  have "lists_rep l1 (KHead ` insert i D) (\<lambda>_. [])" using l1(2) by (simp add: fun_upd_idem)
  from Cons(1) [OF this] Cons(3-5) l1(3) obtain l' where
    "init_heads is l1 = Inr l'" "lists_rep l' (KHead ` (insert i D \<union> set is)) (\<lambda>_. [])" "dom l' = dom l1" by auto
  then show ?case using l1(1,3) by simp
qed simp

lemma KMAP_PAGES_eq: "KMAP_PAGES = 0x80000"
  by (simp add: KMAP_PAGES_def KMAP_SIZE_def)

text \<open>The array \<open>kmap_ranges\<close> of \<open>kmap_setup\<close>, with whatever contents, becomes one free range.\<close>

lemma window_setup:
  assumes "KHead ` {..<KMAP_ORDERS} \<union> KRange ` {..<KMAP_PAGES} \<subseteq> dom l"
  shows "\<exists>l' s S. init_heads [0..<KMAP_ORDERS] l = Inr l' \<and> kmap_free_range 0 KMAP_PAGES \<lparr>klinks = l', kpages = pg\<rparr> = Inr s \<and>
    kinv S s 0 0 \<and> held S = {} \<and> room S = {..<KMAP_PAGES}"
proof -
  have "lists_rep l (KHead ` {}) (\<lambda>_. [])" by (simp add: lists_rep_def)
  moreover have "set [0..<KMAP_ORDERS] \<inter> {} = {}" "distinct [0..<KMAP_ORDERS]" by simp_all
  moreover have s: "set [0..<KMAP_ORDERS] = {..<KMAP_ORDERS}" by auto
  then have "KHead ` set [0..<KMAP_ORDERS] \<subseteq> dom l" unfolding s using assms by (rule_tac le_supE)
  ultimately have "\<exists>l'. init_heads [0..<KMAP_ORDERS] l = Inr l' \<and> lists_rep l' (KHead ` ({} \<union> set [0..<KMAP_ORDERS])) (\<lambda>_. []) \<and> dom l' = dom l"
    by (rule init_heads_ok)
  then obtain l' where l': "init_heads [0..<KMAP_ORDERS] l = Inr l'" "lists_rep l' (KHead ` {..<KMAP_ORDERS}) (\<lambda>_. [])" "dom l' = dom l"
    unfolding s by auto
  have "heads Map.empty = KHead ` {..<KMAP_ORDERS}" by (auto simp: heads_def)
  then have "lists_ok Map.empty l'" using l'(2,3) assms unfolding lists_ok_def by (intro conjI exI [of _ "\<lambda>_. []"]) (auto simp: family_ok_def)
  then have "kinv Map.empty \<lparr>klinks = l', kpages = pg\<rparr> 0 KMAP_PAGES" by (simp add: kinv_def seg_ok_def no_neighbours_def tags_ok_def)
  from free_range_ok [OF this] obtain S s where "kmap_free_range 0 KMAP_PAGES \<lparr>klinks = l', kpages = pg\<rparr> = Inr s" "kinv S s 0 0"
    "held S = held Map.empty" "room S = room Map.empty \<union> {0..<0 + KMAP_PAGES}" using KMAP_PAGES_eq by fastforce
  moreover have "held Map.empty = {}" "room Map.empty = {}" by (simp_all add: held_def room_def)
  ultimately show ?thesis using l'(1) by (intro exI [of _ l'] exI [of _ s] exI [of _ S]) auto
qed

section \<open>The ranges as an allocator\<close>

text \<open>The calls \<open>kmap\<close> and \<open>kunmap\<close> make: a range of no pages is not asked for, and a range is released with the size it has.\<close>

definition range_request :: "nat \<Rightarrow> kmap_ranges \<Rightarrow> ((nat \<times> nat) option \<times> kmap_ranges) res" where
  "range_request pages s =
     (if pages = 0 then Inr (None, s)
      else case kmap_alloc_range pages s of
        None \<Rightarrow> Inl Hang
      | Some r \<Rightarrow> bindE r (\<lambda>(rg, s). Inr (map_option (\<lambda>rg. (rg, pages)) rg, s)))"

definition range_return :: "nat \<times> nat \<Rightarrow> kmap_ranges \<Rightarrow> kmap_ranges res" where
  "range_return rg s = bindE (rd_pages (fst rg) s) (\<lambda>pages. kmap_free_range (fst rg) pages s)"

definition window_inv :: "kmap_ranges \<Rightarrow> (nat \<times> nat) set \<Rightarrow> bool" where
  "window_inv s H \<longleftrightarrow> (\<exists>S. kinv S s 0 0 \<and> held S = H)"

lemma release_ok:
  assumes "kinv S s 0 0" "(i, n) \<in> held S"
  shows "\<exists>S' s'. range_return (i, n) s = Inr s' \<and> kinv S' s' 0 0 \<and> held S' = held S - {(i, n)} \<and> room S' = room S \<union> {i..<i + n}"
proof -
  have h: "S i = Some (n, False)" using assms(2) by (simp add: held_def)
  note d = drop_held [OF assms(1) h] and c = kinvD [OF assms(1)]
  have "i < KMAP_PAGES" using seg_okD(2,3) [OF c(1) h] by linarith
  then have "rd_pages i s = Inr n" using tags_okD [OF c(3) h] by (simp add: rd_pages_def)
  then show ?thesis using free_range_ok [OF d(1,2)] d(3,4) by (simp add: range_return_def)
qed

interpretation ranges: allocator window_inv range_request range_return
proof unfold_locales
  fix s H q
  assume "window_inv s H"
  then obtain S where S: "kinv S s 0 0" "held S = H" unfolding window_inv_def by blast
  show "\<exists>r s'. range_request q s = Inr (r, s') \<and> (case r of None \<Rightarrow> window_inv s' H | Some x \<Rightarrow> x \<notin> H \<and> window_inv s' (insert x H))"
  proof (cases "q = 0")
    case True
    then show ?thesis using \<open>window_inv s H\<close> by (simp add: range_request_def)
  next
    case False
    then obtain r s' where a: "kmap_alloc_range q s = Some (Inr (r, s'))"
      "case r of Some i \<Rightarrow> \<exists>S'. kinv S' s' 0 0 \<and> held S' = insert (i, q) (held S) \<and> (\<forall>n. (i, n) \<notin> held S) \<and>
         {i..<i + q} \<subseteq> room S \<and> room S' = room S - {i..<i + q}
       | None \<Rightarrow> s' = s \<and> (q < 2 ^ KMAP_ORDERS \<longrightarrow> (\<forall>i n. S i = Some (n, True) \<longrightarrow> n < q))"
      using kmap_range_ok [OF S(1), of q] by blast
    have run: "range_request q s = Inr (map_option (\<lambda>rg. (rg, q)) r, s')" using a(1) False by (simp add: range_request_def)
    show ?thesis
    proof (cases r)
      case None
      then show ?thesis using run a(2) \<open>window_inv s H\<close> by simp
    next
      case (Some i)
      then show ?thesis using run a(2) S(2) unfolding window_inv_def by (intro exI [of _ "Some (i, q)"] exI [of _ s']) auto
    qed
  qed
next
  fix s H x
  assume "window_inv s H" "x \<in> H"
  then show "\<exists>s'. range_return x s = Inr s' \<and> window_inv s' (H - {x})"
    unfolding window_inv_def by (cases x) (metis release_ok)
qed

end
