(* ===== verification/Kmap_Map.thy ===== *)
theory Kmap_Map
  imports Paging_Boot Kmap_Start
begin

unbundle bit_operations_syntax

text \<open>
  The pages of the window in the page tables: what mapping and unmapping one page does, and the loops of \<open>kmap\<close>
  and \<open>kunmap\<close>.
\<close>

section \<open>Pages of the window\<close>

definition in_window :: "u64 \<Rightarrow> bool" where "in_window x \<longleftrightarrow> KMAP_BEGIN \<le> x \<and> x < KMAP_END"

lemma kmap_addr_unat: "i \<le> KMAP_PAGES \<Longrightarrow> unat (kmap_addr i) = 0xffffffff00000000 + 4096 * i"
proof -
  assume i: "i \<le> KMAP_PAGES"
  have "unat (push_bit 12 (of_nat i) :: u64) = 4096 * i" using i unfolding KMAP_PAGES_eq by (simp add: push_bit_eq_mult unat_word_ariths unat_of_nat)
  then show ?thesis using i unfolding KMAP_PAGES_eq kmap_addr_def KMAP_BEGIN_def KMAP_SIZE_def VIRTUAL_BASE_def by (simp add: unat_word_ariths)
qed

lemma in_window_unat: "in_window x \<longleftrightarrow> 0xffffffff00000000 \<le> unat x \<and> unat x < 0xffffffff80000000"
  by (simp add: in_window_def KMAP_BEGIN_def KMAP_END_def KMAP_SIZE_def VIRTUAL_BASE_def word_le_nat_alt word_less_nat_alt)

lemma addr_kmap_unat: "in_window x \<Longrightarrow> addr_kmap x = (unat x - 0xffffffff00000000) div 4096"
proof -
  assume w: "in_window x"
  then have "KMAP_BEGIN \<le> x" by (simp add: in_window_def)
  then have "unat (x - KMAP_BEGIN) = unat x - unat KMAP_BEGIN" by (rule unat_sub)
  moreover have "unat KMAP_BEGIN = 0xffffffff00000000" by (simp add: KMAP_BEGIN_def KMAP_SIZE_def VIRTUAL_BASE_def)
  moreover have "unat (drop_bit 12 y) = unat y div 4096" for y :: u64 unfolding unat_drop_bit_eq unfolding drop_bit_eq_div by simp
  ultimately show ?thesis unfolding addr_kmap_def by presburger
qed

text \<open>The page \<open>i\<close> of the window, from its first to its last address.\<close>

lemma window_page:
  assumes i: "i < KMAP_PAGES" and b: "b = kmap_addr i" and e: "e = b + Paging.PAGE_SIZE - 1"
  shows "unat b = 0xffffffff00000000 + 4096 * i" "unat e = unat b + 4095" "b + Paging.PAGE_SIZE = kmap_addr (Suc i)"
    and "b AND PAGE_MASK = 0" "span 0 e = span 0 b" "b \<le> e" "in_window b" "addr_kmap b = i"
    and "b \<le> x \<and> x \<le> e \<longleftrightarrow> in_window x \<and> addr_kmap x = i"
    and "b \<le> x \<Longrightarrow> x \<le> e \<Longrightarrow> x - b = x AND PAGE_MASK"
    and "frame phys \<Longrightarrow> pages_ok b e phys"
proof -
  have i': "i < 0x80000" using i by (simp add: KMAP_PAGES_eq)
  show ub: "unat b = 0xffffffff00000000 + 4096 * i" using kmap_addr_unat [of i] i b by simp
  have "e = b + 0xfff" by (simp add: e Paging.PAGE_SIZE_def)
  then show ue: "unat e = unat b + 4095" using ub i' by (simp add: unat_word_ariths)
  have "unat (b + Paging.PAGE_SIZE) = unat b + 4096" using ub i' by (simp add: Paging.PAGE_SIZE_def unat_word_ariths)
  then show "b + Paging.PAGE_SIZE = kmap_addr (Suc i)" using kmap_addr_unat [of "Suc i"] i ub by (simp add: word_unat_eq_iff)
  have pm: "PAGE_MASK = mask 12" by (simp add: PAGE_MASK_def Paging.PAGE_SIZE_def mask_eq_exp_minus_1)
  have bm: "unat b = 4096 * (0xffffffff00000 + i)" using ub by simp
  have "2 ^ 12 dvd unat b" using bm by simp
  then show "b AND PAGE_MASK = 0" unfolding pm and_mask_dvd_nat .
  have "(4096 * (0xffffffff00000 + i) + 4095) div 4096 = 0xffffffff00000 + i" by simp
  then show "span 0 e = span 0 b" using ue bm by (simp add: span_def shift_of_def)
  show "b \<le> e" using ue by (simp add: word_le_nat_alt)
  show w: "in_window b" using ub i' by (simp add: in_window_unat)
  show "addr_kmap b = i" using addr_kmap_unat [OF w] ub by simp
  show "b \<le> x \<and> x \<le> e \<longleftrightarrow> in_window x \<and> addr_kmap x = i"
  proof (cases "in_window x")
    case True
    then have "0xffffffff00000000 \<le> unat x" by (simp add: in_window_unat)
    then obtain y where y: "unat x = 0xffffffff00000000 + y" using le_Suc_ex by blast
    have "b \<le> x \<and> x \<le> e \<longleftrightarrow> 4096 * i \<le> y \<and> y \<le> 4095 + 4096 * i" using y ub ue by (simp add: word_le_nat_alt)
    also have "\<dots> \<longleftrightarrow> y div 4096 = i" by (auto simp: div_nat_eqI)
    finally show ?thesis using True addr_kmap_unat [OF True] y by simp
  next
    case False
    then show ?thesis using ub ue i' by (auto simp: word_le_nat_alt in_window_unat)
  qed
  show "x - b = x AND PAGE_MASK" if x: "b \<le> x" "x \<le> e"
  proof -
    have u: "unat (x - b) = unat x - unat b" "unat b \<le> unat x" "unat x \<le> unat b + 4095" using x ue by (simp_all add: unat_sub word_le_nat_alt)
    then obtain y where y: "unat x = unat b + y" "y \<le> 4095" using le_Suc_ex by (metis add_le_cancel_left)
    have "unat (x AND PAGE_MASK) = unat x mod 4096" unfolding pm take_bit_eq_mask [symmetric] unsigned_take_bit_eq unfolding take_bit_eq_mod by simp
    also have "\<dots> = (4096 * (0xffffffff00000 + i) + y) mod 4096" using y(1) bm by simp
    also have "\<dots> = y" unfolding mod_mult_self4 using y(2) by simp
    finally show ?thesis using u y by (simp add: word_unat_eq_iff)
  qed
  show "pages_ok b e phys" if f: "frame phys"
  proof -
    note d = frameD [OF f]
    obtain k where k: "unat phys = 4096 * k" using d(1) by (metis mod_0_imp_dvd dvd_def)
    have "k < 2 ^ 40" using d(2) k by simp
    then have "unat phys + 4095 < 2 ^ 52" using k by simp
    moreover have "unat e mod 4096 = 4095" using ue bm by simp
    ultimately show ?thesis using d(1) bm ue by (simp add: pages_ok_def)
  qed
qed

lemma same_spans: "span 0 x = span 0 y \<Longrightarrow> span d x = span d y"
  by (induction d) (simp_all add: span_Suc)

section \<open>One page\<close>

interpretation no_pool: page_supply "None :: unit page_pool option" "\<lambda>U n _. n = 0 \<and> U = U0" for U0
  by unfold_locales simp

lemma populated_needs:
  "d < 4 \<Longrightarrow> populated m d p b \<Longrightarrow> b \<le> e \<Longrightarrow> span 0 b = span 0 e \<Longrightarrow> needs m fl d (Some p) b e phys = 0"
proof (induction d arbitrary: p)
  case (Suc d)
  let ?i = "idx (Suc d) b"
  have s: "is_sub (Suc d) (ent m p ?i)" "populated m d (nxt_table m p ?i) b" using Suc(3) by (simp_all add: Let_def nxt_table_def)
  have "in_table (Suc d) b e" "?i = idx (Suc d) e" using same_spans [OF Suc(5)] Suc(4) by (simp_all add: in_table_def idx_def)
  note n = needs_single [OF Suc(2) this, of m fl "Some p" phys]
  have "needs m fl d (Some (nxt_table m p ?i)) b e phys = 0" by (rule Suc(1) [OF _ s(2) Suc(4,5)]) (use Suc(2) in simp)
  then show ?case unfolding n using s(1) by (simp add: entry_need_def sub_table_def)
qed simp

text \<open>What \<open>f\<close> says of the pages from \<open>i\<close> on replaces what the tables said of them.\<close>

definition remapped :: "u64 \<Rightarrow> nat \<Rightarrow> nat \<Rightarrow> (u64 \<Rightarrow> (u64 \<times> u64) option) \<Rightarrow> ptmem \<Rightarrow> ptmem \<Rightarrow> bool" where
  "remapped p i k f m m' \<longleftrightarrow> tables_ok m' 3 p \<and> frames m' 3 p = frames m 3 p \<and>
     (\<forall>x\<ge>Paging.HIGHER_BASE. lookup m' 3 p x = (if in_window x \<and> i \<le> addr_kmap x \<and> addr_kmap x < i + k then f x else lookup m 3 p x) \<and>
        (populated m 3 p x \<longrightarrow> populated m' 3 p x))"

lemma remapped_trans:
  "remapped p i k f m m1 \<Longrightarrow> remapped p (i + k) l f m1 m2 \<Longrightarrow> remapped p i (k + l) f m m2"
  unfolding remapped_def by auto

lemma window_upper: "in_window x \<Longrightarrow> Paging.HIGHER_BASE \<le> x"
  by (simp add: in_window_unat Paging.HIGHER_BASE_def word_le_nat_alt)

lemma maps_remapped:
  assumes m: "maps 3 p b e phys fl m U m' U" and i: "i < KMAP_PAGES" and b: "b = kmap_addr i" and e: "e = b + Paging.PAGE_SIZE - 1"
    and f: "\<And>x. b \<le> x \<Longrightarrow> x \<le> e \<Longrightarrow> leaf_of fl b phys x = f x"
  shows "remapped p i 1 f m m'"
proof -
  note w = window_page [OF i b e] and d = mapsD [OF m]
  have "Paging.HIGHER_BASE \<le> b" by (rule window_upper [OF w(7)])
  then have sp: "span (Suc 3) x = span (Suc 3) b" if "Paging.HIGHER_BASE \<le> x" for x using upper_half [OF that] upper_half [OF \<open>Paging.HIGHER_BASE \<le> b\<close>] by simp
  have "lookup m' 3 p x = (if in_window x \<and> i \<le> addr_kmap x \<and> addr_kmap x < i + 1 then f x else lookup m 3 p x)"
    if x: "Paging.HIGHER_BASE \<le> x" for x
    using d(5) [OF sp [OF x]] w(9) [of x] f [of x] by auto
  then show ?thesis unfolding remapped_def using d(1,3,6) sp by auto
qed

lemma map_page:
  assumes ok: "tables_ok m 3 p" and i: "i < KMAP_PAGES" and fr: "frame phys" and pop: "populated m 3 p (kmap_addr i)"
    and un: "\<And>x. in_window x \<Longrightarrow> addr_kmap x = i \<Longrightarrow> lookup m 3 p x = None"
  shows "\<exists>m'. pt_map_pages (phys_ptr p) (kmap_addr i) (kmap_addr i + Paging.PAGE_SIZE) phys PTE_WRITE None (m, ()) = Some (Inr (m', ())) \<and>
    remapped p i 1 (\<lambda>x. Some (phys + (x AND PAGE_MASK), PTE_WRITE OR PTE_USER)) m m'"
proof -
  let ?b = "kmap_addr i" and ?U = "insert 0 (frames m 3 p)"
  note w = window_page [OF i refl refl]
  let ?e = "?b + Paging.PAGE_SIZE - 1"
  have a: "(?b + Paging.PAGE_SIZE) AND PAGE_MASK = 0" unfolding w(3)
  proof -
    have "unat (kmap_addr (Suc i)) = 4096 * (0xffffffff00000 + Suc i)" using kmap_addr_unat [of "Suc i"] i by simp
    then have "2 ^ 12 dvd unat (kmap_addr (Suc i))" by simp
    moreover have "PAGE_MASK = mask 12" by (simp add: PAGE_MASK_def Paging.PAGE_SIZE_def mask_eq_exp_minus_1)
    ultimately show "kmap_addr (Suc i) AND PAGE_MASK = 0" unfolding and_mask_dvd_nat by simp
  qed
  have it: "in_table 3 ?b ?e" using w(6) same_spans [OF w(5)] by (simp add: in_table_def)
  have n: "needs m kernel_flags 3 (Some p) ?b ?e phys = 0" by (rule populated_needs [OF _ pop w(6)]) (use w(5) in simp_all)
  have un': "lookup m 3 p x = None" if "?b \<le> x" "x \<le> ?e" for x using un w(9) that by blast
  obtain m' a' U' where m': "pt_map_pages (phys_ptr p) ?b (?b + Paging.PAGE_SIZE) phys PTE_WRITE None (m, ()) = Some (Inr (m', a'))"
    "maps 3 p ?b ?e phys kernel_flags m ?U m' U'" "0 = (0 :: nat) \<and> U' = ?U"
    using no_pool.map_pages_ok [OF w(4) a kernel_flags_bits(4) kernel_flags_def ok _ _ it w(11) [OF fr] un', of ?U 0 ?U "()"] n by auto
  have "remapped p i 1 (\<lambda>x. Some (phys + (x AND PAGE_MASK), PTE_WRITE OR PTE_USER)) m m'"
  proof (rule maps_remapped [OF _ i refl refl])
    show "maps 3 p ?b ?e phys kernel_flags m ?U m' ?U" using m'(2,3) by simp
    show "leaf_of kernel_flags ?b phys x = Some (phys + (x AND PAGE_MASK), PTE_WRITE OR PTE_USER)" if "?b \<le> x" "x \<le> ?e" for x
      using kernel_flags_bits w(10) [OF that] by (simp add: leaf_of_def)
  qed
  then show ?thesis using m'(1) by simp
qed

text \<open>The walk of \<open>__kunmap\<close> ends at the entry of the page; clearing it unmaps the page and nothing else.\<close>

lemma page_clear:
  assumes "span 0 e = span 0 b" "b \<le> e" "\<And>x. span 0 x = span 0 b \<longleftrightarrow> b \<le> x \<and> x \<le> e"
  shows "d < 4 \<Longrightarrow> tables_ok m d p \<Longrightarrow> frames m d p \<subseteq> U \<Longrightarrow> populated m d p b \<Longrightarrow> v AND PTE_PHYS_MASK = p \<Longrightarrow>
    \<exists>pte. pte_walk m b (Suc d) v = Inr pte \<and> maps d p b e 0 0 m U (m(pte := 0)) U"
proof (induction d arbitrary: p v)
  case 0
  have "maps 0 p b e 0 0 m U (m(pte_ptr (phys_ptr p) (idx 0 b) := 0)) U"
    by (rule maps_leaf [OF 0(2) refl _ refl]) (use assms(3) in \<open>simp_all add: is_sub_def leaf_of_def\<close>)
  moreover have "pte_walk m b (Suc 0) v = Inr (pte_ptr (phys_ptr p) (idx 0 b))" using pml_offs_ok [of 0 b] 0(5) by simp
  ultimately show ?case by blast
next
  case (Suc d)
  let ?i = "idx (Suc d) b"
  have s: "is_sub (Suc d) (ent m p ?i)" "populated m d (nxt_table m p ?i) b" using Suc(5) by (simp_all add: Let_def nxt_table_def)
  note t = tables_okD [OF Suc(3) idx_less s(1)]
  obtain pte where pte: "pte_walk m b (Suc d) (ent m p ?i) = Inr pte" "maps d (nxt_table m p ?i) b e 0 0 m U (m(pte := 0)) U"
    using Suc(1) [OF Suc_lessD [OF Suc(2)] t(1) subset_trans [OF t(3) Suc(4)] s(2) nxt_table_def [symmetric]] by blast
  have "in_table d b e" using assms(1,2) same_spans [OF assms(1)] by (simp add: in_table_def)
  then have "maps (Suc d) p b e 0 0 m U (m(pte := 0)) U" by (rule maps_descend(1) [OF Suc(3,4) refl s(1) _ pte(2)])
  moreover have "pte_walk m b (Suc (Suc d)) v = Inr pte" using pml_offs_ok [OF Suc(2), of b] Suc(6) pte(1) by (simp add: ent_def)
  ultimately show ?case by blast
qed

lemma unmap_page:
  assumes ok: "tables_ok m 3 p" and i: "i < KMAP_PAGES" and pop: "populated m 3 p (kmap_addr i)"
  shows "\<exists>pte. pte_walk m (kmap_addr i) 4 p = Inr pte \<and> remapped p i 1 (\<lambda>_. None) m (m(pte := 0))"
proof -
  let ?b = "kmap_addr i" 
  let ?e = "?b + Paging.PAGE_SIZE - 1"
  note w = window_page [OF i refl refl]
  have r: "span 0 x = span 0 ?b \<longleftrightarrow> ?b \<le> x \<and> x \<le> ?e" for x
  proof -
    have "span 0 ?b = 0xffffffff00000 + i" using w(1) by (simp add: span_def shift_of_def)
    moreover have "?b \<le> x \<and> x \<le> ?e \<longleftrightarrow> 4096 * (0xffffffff00000 + i) \<le> unat x \<and> unat x \<le> 4096 * (0xffffffff00000 + i) + 4095"
      using w(1,2) by (simp add: word_le_nat_alt)
    moreover have "\<dots> \<longleftrightarrow> unat x div 4096 = 0xffffffff00000 + i" by (auto simp: div_nat_eqI)
    ultimately show ?thesis by (simp add: span_def [of 0 x] shift_of_def)
  qed
  have p: "p AND PTE_PHYS_MASK = p" using tables_ok_frame [OF ok] by (simp add: frame_def)
  obtain pte where pte: "pte_walk m ?b (Suc 3) p = Inr pte" "maps 3 p ?b ?e 0 0 m (frames m 3 p) (m(pte := 0)) (frames m 3 p)"
    using page_clear [OF w(5,6) r _ ok order_refl pop p] by auto
  have "remapped p i 1 (\<lambda>_. None) m (m(pte := 0))"
    by (rule maps_remapped [OF pte(2) i refl refl]) (simp add: leaf_of_def)
  then show ?thesis using pte(1) by auto
qed

end
