(* ===== verification/Kmap_Run.thy ===== *)
theory Kmap_Run
  imports Kmap_Map
begin

unbundle bit_operations_syntax

text \<open>The loops of \<open>kmap\<close> and \<open>kunmap\<close> over the pages of a range, and the two operations on the window.\<close>

section \<open>The loops\<close>

lemma remapped_cong:
  "remapped p i k f m m' \<Longrightarrow> (\<And>x. in_window x \<Longrightarrow> i \<le> addr_kmap x \<Longrightarrow> addr_kmap x < i + k \<Longrightarrow> f x = g x) \<Longrightarrow> remapped p i k g m m'"
  unfolding remapped_def by auto

lemma remapped_none: "tables_ok m 3 p \<Longrightarrow> remapped p i 0 f m m"
  by (auto simp: remapped_def)

lemma remappedD:
  assumes "remapped p i k f m m'"
  shows "tables_ok m' 3 p" "frames m' 3 p = frames m 3 p"
    and "Paging.HIGHER_BASE \<le> x \<Longrightarrow> lookup m' 3 p x = (if in_window x \<and> i \<le> addr_kmap x \<and> addr_kmap x < i + k then f x else lookup m 3 p x)"
    and "Paging.HIGHER_BASE \<le> x \<Longrightarrow> populated m 3 p x \<Longrightarrow> populated m' 3 p x"
  using assms unfolding remapped_def by blast+

definition window_tables :: "ptmem \<Rightarrow> u64 \<Rightarrow> bool" where
  "window_tables m p \<longleftrightarrow> tables_ok m 3 p \<and> (\<forall>x. in_window x \<longrightarrow> populated m 3 p x)"

lemma remapped_tables: "window_tables m p \<Longrightarrow> remapped p i k f m m' \<Longrightarrow> window_tables m' p"
  unfolding window_tables_def using remappedD(1,4) window_upper by blast

text \<open>The pages of a mapped range: \<open>phys\<close> gives the frame of each page of the window.\<close>

definition mapped_to :: "(nat \<Rightarrow> nat) \<Rightarrow> u64 \<Rightarrow> (u64 \<times> u64) option" where
  "mapped_to phys x = Some (of_nat (phys (addr_kmap x)) + (x AND PAGE_MASK), PTE_WRITE OR PTE_USER)"

lemma kmap_addr_inj: "i \<le> KMAP_PAGES \<Longrightarrow> j \<le> KMAP_PAGES \<Longrightarrow> kmap_addr i = kmap_addr j \<longleftrightarrow> i = j"
proof
  assume a: "i \<le> KMAP_PAGES" "j \<le> KMAP_PAGES" "kmap_addr i = kmap_addr j"
  then have "0xffffffff00000000 + 4096 * i = 0xffffffff00000000 + 4096 * j" using kmap_addr_unat [OF a(1)] kmap_addr_unat [OF a(2)] by metis
  then show "i = j" by simp
qed simp

lemma kmap_loop_ok:
  assumes "window_tables (kt s) (kcr3 s)" "i + k \<le> KMAP_PAGES" "a + k \<le> length pages"
    and "\<And>x. in_window x \<Longrightarrow> i \<le> addr_kmap x \<Longrightarrow> addr_kmap x < i + k \<Longrightarrow> lookup (kt s) 3 (kcr3 s) x = None"
    and "\<And>j. j < k \<Longrightarrow> page_addr (pages ! (a + j)) (hzones (kheap s)) = Inr (phys (i + j)) \<and> frame (of_nat (phys (i + j)))"
  shows "\<exists>m. kmap_loop pages (phys_ptr (kcr3 s)) (kmap_addr (i + k)) (kmap_addr i) a s =
      Some (Inr (s\<lparr>kt := m, kflushed := rev (map kmap_addr [i..<i + k]) @ kflushed s\<rparr>)) \<and>
    remapped (kcr3 s) i k (mapped_to phys) (kt s) m"
  using assms
proof (induction k arbitrary: i a s)
  case 0
  then have "tables_ok (kt s) 3 (kcr3 s)" by (simp add: window_tables_def)
  from remapped_none [OF this] have "remapped (kcr3 s) i 0 (mapped_to phys) (kt s) (kt s)" .
  moreover have "kmap_loop pages (phys_ptr (kcr3 s)) (kmap_addr (i + 0)) (kmap_addr i) a s = Some (Inr (s\<lparr>kt := kt s, kflushed := rev (map kmap_addr [i..<i + 0]) @ kflushed s\<rparr>))"
    by (subst kmap_loop.simps) simp
  ultimately show ?case by blast
next
  case (Suc k)
  let ?p = "kcr3 s"
  have i: "i < KMAP_PAGES" using Suc(3) by simp
  note w = window_page [OF i refl refl]
  have ok: "tables_ok (kt s) 3 ?p" "populated (kt s) 3 ?p (kmap_addr i)" using Suc(2) w(7) by (simp_all add: window_tables_def)
  have ph: "page_addr (pages ! a) (hzones (kheap s)) = Inr (phys i)" "frame (of_nat (phys i))" using Suc(6) [of 0] by simp_all
  have un: "lookup (kt s) 3 ?p x = None" if "in_window x" "addr_kmap x = i" for x using Suc(5) [of x] that by simp
  obtain m1 where m1: "pt_map_pages (phys_ptr ?p) (kmap_addr i) (kmap_addr i + Paging.PAGE_SIZE) (of_nat (phys i)) PTE_WRITE None (kt s, ()) = Some (Inr (m1, ()))"
    "remapped ?p i 1 (\<lambda>x. Some (of_nat (phys i) + (x AND PAGE_MASK), PTE_WRITE OR PTE_USER)) (kt s) m1"
    using map_page [OF ok(1) i ph(2) ok(2) un] by blast
  have r1: "remapped ?p i 1 (mapped_to phys) (kt s) m1"
    by (rule remapped_cong [OF m1(2)]) (simp add: mapped_to_def le_less_Suc_eq)
  let ?s = "flush_tlb_addr (kmap_addr i) (s\<lparr>kt := m1\<rparr>)"
  have s: "kt ?s = m1" "kcr3 ?s = ?p" "kheap ?s = kheap s" "kflushed ?s = kmap_addr i # kflushed s" by (simp_all add: flush_tlb_addr_def)
  have "\<exists>m. kmap_loop pages (phys_ptr (kcr3 ?s)) (kmap_addr (Suc i + k)) (kmap_addr (Suc i)) (Suc a) ?s =
      Some (Inr (?s\<lparr>kt := m, kflushed := rev (map kmap_addr [Suc i..<Suc i + k]) @ kflushed ?s\<rparr>)) \<and>
    remapped (kcr3 ?s) (Suc i) k (mapped_to phys) (kt ?s) m"
  proof (rule Suc(1))
    show "window_tables (kt ?s) (kcr3 ?s)" using remapped_tables [OF Suc(2) r1] s by simp
    show "Suc i + k \<le> KMAP_PAGES" "Suc a + k \<le> length pages" using Suc(3,4) by simp_all
    show "lookup (kt ?s) 3 (kcr3 ?s) x = None" if "in_window x" "Suc i \<le> addr_kmap x" "addr_kmap x < Suc i + k" for x
      using remappedD(3) [OF r1 window_upper [OF that(1)]] Suc(5) [of x] that s by simp
    show "page_addr (pages ! (Suc a + j)) (hzones (kheap ?s)) = Inr (phys (Suc i + j)) \<and> frame (of_nat (phys (Suc i + j)))" if "j < k" for j
      using Suc(6) [of "Suc j"] that s by simp
  qed
  then obtain m2 where m2: "kmap_loop pages (phys_ptr ?p) (kmap_addr (Suc i + k)) (kmap_addr (Suc i)) (Suc a) ?s =
      Some (Inr (?s\<lparr>kt := m2, kflushed := rev (map kmap_addr [Suc i..<Suc i + k]) @ kmap_addr i # kflushed s\<rparr>))"
    "remapped ?p (i + 1) k (mapped_to phys) m1 m2" unfolding s Suc_eq_plus1 [of i] by blast
  have "kmap_addr i \<noteq> kmap_addr (i + Suc k)" using kmap_addr_inj [of i "i + Suc k"] Suc(3) by simp
  then have "kmap_loop pages (phys_ptr ?p) (kmap_addr (i + Suc k)) (kmap_addr i) a s =
    kmap_loop pages (phys_ptr ?p) (kmap_addr (Suc i + k)) (kmap_addr (Suc i)) (Suc a) ?s"
    using Suc(4) ph(1) m1(1) w(3) by (subst kmap_loop.simps) (simp add: pages_nth_def)
  also have "\<dots> = Some (Inr (s\<lparr>kt := m2, kflushed := rev (map kmap_addr [i..<i + Suc k]) @ kflushed s\<rparr>))"
    using m2(1) upt_conv_Cons [of i "i + Suc k"] by (simp add: flush_tlb_addr_def del: upt_Suc)
  finally show ?case using remapped_trans [OF r1 m2(2)] by auto
qed

lemma kunmap_loop_ok:
  assumes "window_tables (kt s) (kcr3 s)" "i + k \<le> KMAP_PAGES"
  shows "\<exists>m. kunmap_loop (kmap_addr (i + k)) (kmap_addr i) s =
      Some (Inr (s\<lparr>kt := m, kflushed := rev (map kmap_addr [i..<i + k]) @ kflushed s\<rparr>)) \<and>
    remapped (kcr3 s) i k (\<lambda>_. None) (kt s) m"
  using assms
proof (induction k arbitrary: i s)
  case 0
  then have "tables_ok (kt s) 3 (kcr3 s)" by (simp add: window_tables_def)
  from remapped_none [OF this] have "remapped (kcr3 s) i 0 (\<lambda>_. None) (kt s) (kt s)" .
  moreover have "kunmap_loop (kmap_addr (i + 0)) (kmap_addr i) s = Some (Inr (s\<lparr>kt := kt s, kflushed := rev (map kmap_addr [i..<i + 0]) @ kflushed s\<rparr>))"
    by (subst kunmap_loop.simps) simp
  ultimately show ?case by blast
next
  case (Suc k)
  let ?p = "kcr3 s"
  have i: "i < KMAP_PAGES" using Suc(3) by simp
  note w = window_page [OF i refl refl]
  have ok: "tables_ok (kt s) 3 ?p" "populated (kt s) 3 ?p (kmap_addr i)" using Suc(2) w(7) by (simp_all add: window_tables_def)
  obtain pte where pte: "pte_walk (kt s) (kmap_addr i) 4 ?p = Inr pte" "remapped ?p i 1 (\<lambda>_. None) (kt s) ((kt s)(pte := 0))"
    using unmap_page [OF ok(1) i ok(2)] by blast
  let ?s = "flush_tlb_addr (kmap_addr i) (s\<lparr>kt := (kt s)(pte := 0)\<rparr>)"
  have s: "kt ?s = (kt s)(pte := 0)" "kcr3 ?s = ?p" "kflushed ?s = kmap_addr i # kflushed s" by (simp_all add: flush_tlb_addr_def)
  have "\<exists>m. kunmap_loop (kmap_addr (Suc i + k)) (kmap_addr (Suc i)) ?s =
      Some (Inr (?s\<lparr>kt := m, kflushed := rev (map kmap_addr [Suc i..<Suc i + k]) @ kflushed ?s\<rparr>)) \<and>
    remapped (kcr3 ?s) (Suc i) k (\<lambda>_. None) (kt ?s) m"
  proof (rule Suc(1))
    show "window_tables (kt ?s) (kcr3 ?s)" unfolding s by (rule remapped_tables [OF Suc(2) pte(2)])
    show "Suc i + k \<le> KMAP_PAGES" using Suc(3) by simp
  qed
  then obtain m2 where m2: "kunmap_loop (kmap_addr (Suc i + k)) (kmap_addr (Suc i)) ?s =
      Some (Inr (?s\<lparr>kt := m2, kflushed := rev (map kmap_addr [Suc i..<Suc i + k]) @ kflushed ?s\<rparr>))"
    "remapped ?p (i + 1) k (\<lambda>_. None) ((kt s)(pte := 0)) m2" unfolding s Suc_eq_plus1 [of i] by blast
  have "kmap_addr i \<noteq> kmap_addr (i + Suc k)" using kmap_addr_inj [of i "i + Suc k"] Suc(3) by simp
  then have "kunmap_loop (kmap_addr (i + Suc k)) (kmap_addr i) s = kunmap_loop (kmap_addr (Suc i + k)) (kmap_addr (Suc i)) ?s"
    using pte(1) w(3) by (subst kunmap_loop.simps) simp
  also have "\<dots> = Some (Inr (s\<lparr>kt := m2, kflushed := rev (map kmap_addr [i..<i + Suc k]) @ kflushed s\<rparr>))"
    using m2(1) s upt_conv_Cons [of i "i + Suc k"] by (simp add: flush_tlb_addr_def del: upt_Suc)
  finally show ?case using remapped_trans [OF pte(2) m2(2)] by auto
qed

section \<open>The operations\<close>

text \<open>
  The state of the window: the ranges, and page tables that are complete for it and map no page that is free.
\<close>

definition window_ok :: "segs \<Rightarrow> kernel_map \<Rightarrow> bool" where
  "window_ok S g \<longleftrightarrow> kinv S (kranges g) 0 0 \<and> window_tables (kt g) (kcr3 g) \<and>
     (\<forall>x. in_window x \<longrightarrow> addr_kmap x \<in> room S \<longrightarrow> lookup (kt g) 3 (kcr3 g) x = None)"

lemma kmap_pages_ok:
  assumes g: "window_ok S g" and c: "2 \<le> count" "count \<le> length pages"
    and tgt: "\<forall>j<count. page_addr (pages ! j) (hzones (kheap g)) = Inr (tgt j) \<and> frame (of_nat (tgt j))"
  shows "(\<exists>i S' m rs fl. kmap_unlocked pages count g = Some (Inr (kmap_addr i, g\<lparr>kt := m, kranges := rs, kflushed := fl\<rparr>)) \<and>
      window_ok S' (g\<lparr>kt := m, kranges := rs, kflushed := fl\<rparr>) \<and> held S' = insert (i, count) (held S) \<and>
      {i..<i + count} \<subseteq> room S \<and> room S' = room S - {i..<i + count} \<and> fl = rev (map kmap_addr [i..<i + count]) @ kflushed g \<and>
      remapped (kcr3 g) i count (mapped_to (\<lambda>n. tgt (n - i))) (kt g) m) \<or>
    kmap_unlocked pages count g = Some (Inr (0, g)) \<and> (count < 2 ^ KMAP_ORDERS \<longrightarrow> (\<forall>i n. S i = Some (n, True) \<longrightarrow> n < count))"
proof -
  have k: "kinv S (kranges g) 0 0" "0 < count" "count \<noteq> 0" "count \<noteq> 1" using g c(1) by (simp_all add: window_ok_def)
  obtain r rs where r: "kmap_alloc_range count (kranges g) = Some (Inr (r, rs))"
    "case r of Some i \<Rightarrow> \<exists>S'. kinv S' rs 0 0 \<and> held S' = insert (i, count) (held S) \<and> (\<forall>n. (i, n) \<notin> held S) \<and>
         {i..<i + count} \<subseteq> room S \<and> room S' = room S - {i..<i + count}
     | None \<Rightarrow> rs = kranges g \<and> (count < 2 ^ KMAP_ORDERS \<longrightarrow> (\<forall>i n. S i = Some (n, True) \<longrightarrow> n < count))"
    using kmap_range_ok [OF k(1,2)] by blast
  show ?thesis
  proof (cases r)
    case None
    then show ?thesis using r k(3,4) by (simp add: kmap_unlocked_def)
  next
    case (Some i)
    obtain S' where S': "kinv S' rs 0 0" "held S' = insert (i, count) (held S)" "{i..<i + count} \<subseteq> room S" "room S' = room S - {i..<i + count}"
      using r(2) Some by auto
    let ?g = "g\<lparr>kranges := rs\<rparr>"
    have "(i, count) \<in> held S'" using S'(2) by simp
    then have "S' i = Some (count, False)" by (simp add: held_def)
    then have ic: "i + count \<le> KMAP_PAGES" by (rule seg_okD(3) [OF kinvD(1) [OF S'(1)]])
    have "\<exists>m. kmap_loop pages (phys_ptr (kcr3 ?g)) (kmap_addr (i + count)) (kmap_addr i) 0 ?g =
      Some (Inr (?g\<lparr>kt := m, kflushed := rev (map kmap_addr [i..<i + count]) @ kflushed ?g\<rparr>)) \<and>
      remapped (kcr3 ?g) i count (mapped_to (\<lambda>n. tgt (n - i))) (kt ?g) m"
    proof (rule kmap_loop_ok)
      show "window_tables (kt ?g) (kcr3 ?g)" using g by (simp add: window_ok_def)
      show "i + count \<le> KMAP_PAGES" "0 + count \<le> length pages" using ic c(2) by simp_all
      show "lookup (kt ?g) 3 (kcr3 ?g) x = None" if "in_window x" "i \<le> addr_kmap x" "addr_kmap x < i + count" for x
        using g S'(3) that unfolding window_ok_def by auto
      show "page_addr (pages ! (0 + j)) (hzones (kheap ?g)) = Inr (tgt (i + j - i)) \<and> frame (of_nat (tgt (i + j - i)))" if "j < count" for j
        using tgt that by simp
    qed
    then obtain m where m: "kmap_loop pages (phys_ptr (kcr3 g)) (kmap_addr (i + count)) (kmap_addr i) 0 ?g =
      Some (Inr (?g\<lparr>kt := m, kflushed := rev (map kmap_addr [i..<i + count]) @ kflushed g\<rparr>))"
      "remapped (kcr3 g) i count (mapped_to (\<lambda>n. tgt (n - i))) (kt g) m" by auto
    have "push_bit 12 (of_nat (i + count)) = push_bit 12 (of_nat i) + of_nat count * (0x1000 :: u64)" by (simp add: push_bit_eq_mult algebra_simps)
    then have "kmap_addr i + of_nat count * Paging.PAGE_SIZE = kmap_addr (i + count)" by (simp add: kmap_addr_def Paging.PAGE_SIZE_def)
    then have run: "kmap_unlocked pages count g = Some (Inr (kmap_addr i, ?g\<lparr>kt := m, kflushed := rev (map kmap_addr [i..<i + count]) @ kflushed g\<rparr>))"
      using r(1) Some k(3,4) m(1) by (simp add: kmap_unlocked_def Let_def)
    let ?h = "g\<lparr>kt := m, kranges := rs, kflushed := rev (map kmap_addr [i..<i + count]) @ kflushed g\<rparr>"
    have "lookup m 3 (kcr3 g) x = None" if x: "in_window x" "addr_kmap x \<in> room S'" for x
      using remappedD(3) [OF m(2) window_upper [OF x(1)]] x S'(4) g unfolding window_ok_def by auto
    then have "window_ok S' ?h" using S'(1) remapped_tables [OF _ m(2)] g by (simp add: window_ok_def)
    then show ?thesis using run S' m(2) by (intro disjI1 ex3I [of _ i S' m] exI [of _ rs] exI [of _ "kflushed ?h"]) simp
  qed
qed

lemma kunmap_pages_ok:
  assumes g: "window_ok S g" and h: "(i, n) \<in> held S"
  shows "\<exists>S' m rs fl. kunmap_unlocked (kmap_addr i) g = Some (Inr (g\<lparr>kt := m, kranges := rs, kflushed := fl\<rparr>)) \<and>
      window_ok S' (g\<lparr>kt := m, kranges := rs, kflushed := fl\<rparr>) \<and> held S' = held S - {(i, n)} \<and> room S' = room S \<union> {i..<i + n} \<and>
      fl = rev (map kmap_addr [i..<i + n]) @ kflushed g \<and> remapped (kcr3 g) i n (\<lambda>_. None) (kt g) m"
proof -
  have g': "kinv S (kranges g) 0 0" "window_tables (kt g) (kcr3 g)" using g by (simp_all add: window_ok_def)
  have hi: "S i = Some (n, False)" using h by (simp add: held_def)
  note d = kinvD [OF g'(1)]
  have b: "0 < n" "i + n \<le> KMAP_PAGES" using seg_okD(2,3) [OF d(1) hi] by blast+
  then have ik: "i < KMAP_PAGES" by linarith
  note w = window_page [OF ik refl refl]
  have nw: "\<not> (kmap_addr i < KMAP_BEGIN \<or> kmap_addr i \<ge> KMAP_END)" using w(7) unfolding in_window_def by auto
  have rd: "rd_pages i (kranges g) = Inr n" using tags_okD [OF d(3) hi] ik by (simp add: rd_pages_def)
  obtain m where m: "kunmap_loop (kmap_addr (i + n)) (kmap_addr i) g =
      Some (Inr (g\<lparr>kt := m, kflushed := rev (map kmap_addr [i..<i + n]) @ kflushed g\<rparr>))"
    "remapped (kcr3 g) i n (\<lambda>_. None) (kt g) m" using kunmap_loop_ok [OF g'(2) b(2)] by blast
  obtain S' rs where S': "kmap_free_range i n (kranges g) = Inr rs" "kinv S' rs 0 0" "held S' = held S - {(i, n)}" "room S' = room S \<union> {i..<i + n}"
    using release_ok [OF g'(1) h] rd by (auto simp: range_return_def)
  have "push_bit 12 (of_nat (i + n)) = push_bit 12 (of_nat i) + of_nat n * (0x1000 :: u64)" by (simp add: push_bit_eq_mult algebra_simps)
  then have "kmap_addr i + of_nat n * Paging.PAGE_SIZE = kmap_addr (i + n)" by (simp add: kmap_addr_def Paging.PAGE_SIZE_def)
  then have run: "kunmap_unlocked (kmap_addr i) g =
      Some (Inr (g\<lparr>kt := m, kranges := rs, kflushed := rev (map kmap_addr [i..<i + n]) @ kflushed g\<rparr>))"
    using nw w(8) rd m(1) S'(1) by (simp add: kunmap_unlocked_def Let_def)
  let ?h = "g\<lparr>kt := m, kranges := rs, kflushed := rev (map kmap_addr [i..<i + n]) @ kflushed g\<rparr>"
  have "lookup m 3 (kcr3 g) x = None" if x: "in_window x" "addr_kmap x \<in> room S'" for x
    using remappedD(3) [OF m(2) window_upper [OF x(1)]] x S'(4) g unfolding window_ok_def by auto
  then have "window_ok S' ?h" using S'(2) remapped_tables [OF g'(2) m(2)] by (simp add: window_ok_def)
  then show ?thesis using run S' m(2) by (intro ex3I [of _ S' m rs] exI [of _ "kflushed ?h"]) simp
qed

section \<open>Under the lock\<close>

lemma lock_restores: "spin_lock_irqsave s = (e, s') \<Longrightarrow> spin_unlock_irqrestore e s' = s"
  by (auto simp: spin_lock_irqsave_def spin_unlock_irqrestore_def spin_lock_def spin_unlock_def disable_preempt_def enable_preempt_def Let_def)

lemma window_ok_cong: "kt g' = kt g \<Longrightarrow> kcr3 g' = kcr3 g \<Longrightarrow> kranges g' = kranges g \<Longrightarrow> window_ok S g' = window_ok S g"
  by (simp add: window_ok_def)

lemma kmap_locked:
  assumes "spin_lock_irqsave (ksched g) = (en, sc)"
    and "kmap_unlocked pages count (g\<lparr>ksched := sc\<rparr>) = Some (Inr (v, g\<lparr>ksched := sc, kt := m, kranges := rs, kflushed := fl\<rparr>))"
  shows "kmap pages count g = Some (Inr (v, g\<lparr>kt := m, kranges := rs, kflushed := fl\<rparr>))"
  using assms lock_restores [OF assms(1)] by (simp add: kmap_def)

lemma kunmap_locked:
  assumes "spin_lock_irqsave (ksched g) = (en, sc)"
    and "kunmap_unlocked v (g\<lparr>ksched := sc\<rparr>) = Some (Inr (g\<lparr>ksched := sc, kt := m, kranges := rs, kflushed := fl\<rparr>))"
  shows "kunmap v g = Some (Inr (g\<lparr>kt := m, kranges := rs, kflushed := fl\<rparr>))"
  using assms lock_restores [OF assms(1)] by (simp add: kunmap_def)

lemma kmap_ok:
  assumes g: "window_ok S g" and c: "2 \<le> count" "count \<le> length pages"
    and tgt: "\<forall>j<count. page_addr (pages ! j) (hzones (kheap g)) = Inr (tgt j) \<and> frame (of_nat (tgt j))"
  shows "(\<exists>i S' m rs fl. kmap pages count g = Some (Inr (kmap_addr i, g\<lparr>kt := m, kranges := rs, kflushed := fl\<rparr>)) \<and>
      window_ok S' (g\<lparr>kt := m, kranges := rs, kflushed := fl\<rparr>) \<and> held S' = insert (i, count) (held S) \<and>
      {i..<i + count} \<subseteq> room S \<and> room S' = room S - {i..<i + count} \<and> fl = rev (map kmap_addr [i..<i + count]) @ kflushed g \<and>
      remapped (kcr3 g) i count (mapped_to (\<lambda>n. tgt (n - i))) (kt g) m) \<or>
    kmap pages count g = Some (Inr (0, g)) \<and> (count < 2 ^ KMAP_ORDERS \<longrightarrow> (\<forall>i n. S i = Some (n, True) \<longrightarrow> n < count))"
proof -
  obtain en sc where l: "spin_lock_irqsave (ksched g) = (en, sc)" by fastforce
  let ?g = "g\<lparr>ksched := sc\<rparr>"
  have "window_ok S ?g" using g by (simp add: window_ok_cong [of ?g g])
  note a = kmap_pages_ok [OF this c]
  have tgt': "\<forall>j<count. page_addr (pages ! j) (hzones (kheap ?g)) = Inr (tgt j) \<and> frame (of_nat (tgt j))" using tgt by simp
  from a [OF tgt'] show ?thesis
  proof (elim disjE exE conjE)
    fix i S' m rs fl
    assume d: "kmap_unlocked pages count ?g = Some (Inr (kmap_addr i, ?g\<lparr>kt := m, kranges := rs, kflushed := fl\<rparr>))"
        "window_ok S' (?g\<lparr>kt := m, kranges := rs, kflushed := fl\<rparr>)" "held S' = insert (i, count) (held S)" "{i..<i + count} \<subseteq> room S"
        "room S' = room S - {i..<i + count}" "fl = rev (map kmap_addr [i..<i + count]) @ kflushed ?g"
        "remapped (kcr3 ?g) i count (mapped_to (\<lambda>n. tgt (n - i))) (kt ?g) m"
    have "window_ok S' (g\<lparr>kt := m, kranges := rs, kflushed := fl\<rparr>)" using d(2) by (simp add: window_ok_def)
    then show ?thesis using kmap_locked [OF l] d by (intro disjI1 ex3I [of _ i S' m] exI [of _ rs] exI [of _ fl]) simp
  next
    assume "kmap_unlocked pages count ?g = Some (Inr (0, ?g))" "count < 2 ^ KMAP_ORDERS \<longrightarrow> (\<forall>i n. S i = Some (n, True) \<longrightarrow> n < count)"
    then show ?thesis using kmap_locked [OF l, where m = "kt g" and rs = "kranges g" and fl = "kflushed g"] by simp
  qed
qed

lemma kunmap_ok:
  assumes g: "window_ok S g" and h: "(i, n) \<in> held S"
  shows "\<exists>S' m rs fl. kunmap (kmap_addr i) g = Some (Inr (g\<lparr>kt := m, kranges := rs, kflushed := fl\<rparr>)) \<and>
      window_ok S' (g\<lparr>kt := m, kranges := rs, kflushed := fl\<rparr>) \<and> held S' = held S - {(i, n)} \<and> room S' = room S \<union> {i..<i + n} \<and>
      fl = rev (map kmap_addr [i..<i + n]) @ kflushed g \<and> remapped (kcr3 g) i n (\<lambda>_. None) (kt g) m"
proof -
  obtain en sc where l: "spin_lock_irqsave (ksched g) = (en, sc)" by fastforce
  let ?g = "g\<lparr>ksched := sc\<rparr>"
  have "window_ok S ?g" using g by (simp add: window_ok_cong [of ?g g])
  from kunmap_pages_ok [OF this h] obtain S' m rs fl where r: "kunmap_unlocked (kmap_addr i) ?g = Some (Inr (?g\<lparr>kt := m, kranges := rs, kflushed := fl\<rparr>))"
      "window_ok S' (?g\<lparr>kt := m, kranges := rs, kflushed := fl\<rparr>)" "held S' = held S - {(i, n)}" "room S' = room S \<union> {i..<i + n}"
      "fl = rev (map kmap_addr [i..<i + n]) @ kflushed g" "remapped (kcr3 g) i n (\<lambda>_. None) (kt g) m" by auto
  have "window_ok S' (g\<lparr>kt := m, kranges := rs, kflushed := fl\<rparr>)" using r(2) by (simp add: window_ok_def)
  then show ?thesis using kunmap_locked [OF l] r by (intro ex3I [of _ S' m rs] exI [of _ fl]) simp
qed

end
