(* ===== verification/Kmap_Setup.thy ===== *)
theory Kmap_Setup
  imports Kmap_Run Buddy_Props
begin

unbundle bit_operations_syntax

text \<open>
  The set-up of the window: the tables that \<open>pt_populate_pages\<close> adds are counted, the page allocator is a supply of
  pages for them, and afterwards the window is complete and free.
\<close>

section \<open>How many tables\<close>

text \<open>At most one table for every entry of every level that the range touches.\<close>

definition entries :: "nat \<Rightarrow> u64 \<Rightarrow> u64 \<Rightarrow> nat" where
  "entries d b e = (\<Sum>j\<in>{1..d}. span j e - span j b + 1)"

lemma div_pred: "0 < z \<Longrightarrow> z dvd n + 1 \<Longrightarrow> (n + 1) div z = n div z + (1 :: nat)"
proof -
  assume z: "0 < z" "z dvd n + 1"
  then obtain k where k: "n + 1 = z * k" by blast
  then obtain j where j: "k = Suc j" by (cases k) auto
  have "n = j * z + (z - 1)" using k j z(1) by (simp add: mult.commute)
  then have "n div z = j" using div_of_end [OF z(1)] by simp
  then show ?thesis using k j z(1) by simp
qed

lemma entries_split:
  assumes "d < 4" "b \<le> e" "me = map_end_in (entry_size d) b e" "me \<noteq> e" "k \<le> d"
  shows "entries k b me + entries k (me + 1) e = entries k b e"
proof -
  note s = segment [OF assms(1-3)] and n = segment(5) [OF assms(1-4)]
  have "(span j me - span j b + 1) + (span j e - span j (me + 1) + 1) = span j e - span j b + 1" if "j \<le> k" for j
  proof -
    have "(2 :: nat) ^ shift_of j dvd 2 ^ shift_of d" using that assms(5) by (intro le_imp_power_dvd) (simp add: shift_of_def)
    then have "2 ^ shift_of j dvd unat me + 1" using n by (metis dvd_trans mod_0_imp_dvd)
    then have "span j (me + 1) = span j me + 1" using div_pred [of "2 ^ shift_of j" "unat me"] n by (simp add: span_def)
    moreover have "span j b \<le> span j me" "span j (me + 1) \<le> span j e" using s(1) n by (auto intro: span_mono)
    ultimately show ?thesis by linarith
  qed
  then show ?thesis unfolding entries_def sum.distrib [symmetric] by (intro sum.cong) auto
qed

lemma entries_Suc: "entries (Suc d) b e = entries d b e + (span (Suc d) e - span (Suc d) b + 1)"
  by (simp add: entries_def)

lemma needs_bound: "d < 4 \<Longrightarrow> in_table d b e \<Longrightarrow> needs m fl d po b e phys \<le> entries d b e"
proof (induction d arbitrary: po b e phys)
  case (Suc d)
  have "need_entries (needs m fl d) m (Suc d) fl po is b e phys \<le> entries (Suc d) b e"
    if "is = [idx (Suc d) b..<Suc (idx (Suc d) e)]" "in_table (Suc d) b e" for "is" b phys
    using that
  proof (induction "is" arbitrary: b phys)
    case (Cons i "is")
    let ?me = "map_end_in (entry_size (Suc d)) b e"
    note t = in_table_segment [OF Suc(2) Cons(3) refl]
    have be: "b \<le> e" using Cons(3) by (simp add: in_table_def)
    have tl: "is = [Suc (idx (Suc d) b)..<Suc (idx (Suc d) e)]"
      using Cons(2) upt_conv_Cons [of "idx (Suc d) b" "Suc (idx (Suc d) e)"] t(4) by (simp del: upt_Suc)
    have "needs m fl d po' b ?me phys \<le> entries d b ?me" for po' using Suc(1) [OF _ t(2)] Suc(2) by simp
    then have en: "entry_need (needs m fl d) m (Suc d) fl po i b ?me phys \<le> Suc (entries d b ?me)"
      by (auto simp: entry_need_def le_SucI split: option.splits)
    show ?case
    proof (cases "?me = e")
      case True
      then have "is = []" using t(3) tl by simp
      then show ?thesis using en True by (simp add: entries_Suc Let_def)
    next
      case False
      note n = t(5) [OF False]
      have "need_entries (needs m fl d) m (Suc d) fl po is (?me + 1) e (phys + (?me - b + 1)) \<le> entries (Suc d) (?me + 1) e"
        by (rule Cons(1)) (use tl n in simp_all)
      moreover have "entries d b ?me + entries d (?me + 1) e = entries d b e"
        by (rule entries_split [OF Suc(2) be refl False]) simp
      moreover have "span (Suc d) (?me + 1) = Suc (span (Suc d) b)" "span (Suc d) (?me + 1) \<le> span (Suc d) e"
        using segment(5) [OF Suc(2) be refl False] span_mono [of "?me + 1" e "Suc d"] by blast+
      moreover have "b + (?me - b + 1) = ?me + 1" by (simp add: algebra_simps)
      ultimately show ?thesis using en by (simp add: entries_Suc Let_def)
    qed
  qed simp
  from this [OF refl Suc(3)] show ?case by simp
qed (simp add: entries_def)

section \<open>Pages from the page allocator\<close>

definition page_of :: "nat \<Rightarrow> u64" where "page_of f = of_nat (f * 4096)"

text \<open>The free frames are below \<open>2 ^ 38\<close>, and none of them is in \<open>U\<close>.\<close>

definition zone_stock :: "u64 set \<Rightarrow> nat \<Rightarrow> zone list \<Rightarrow> bool" where
  "zone_stock U n zs \<longleftrightarrow> (\<exists>G. zones_inv zs G \<and> n \<le> card (free_frames zs G) \<and> free_frames zs G \<subseteq> {..<2 ^ 38} \<and>
     page_of ` free_frames zs G \<inter> U = {})"

lemma page_of_ok: "f < 2 ^ 38 \<Longrightarrow> unat (page_of f) = f * 4096" "f < 2 ^ 38 \<Longrightarrow> frame (page_of f)"
proof -
  assume f: "f < 2 ^ 38"
  then have lt: "f * 4096 < 2 ^ 50" by simp
  then show u: "unat (page_of f) = f * 4096" unfolding page_of_def unat_of_nat by simp
  show "frame (page_of f)" by (rule frameI) (unfold u, use lt in simp_all)
qed

lemma page_of_inj: "f < 2 ^ 38 \<Longrightarrow> f' < 2 ^ 38 \<Longrightarrow> page_of f = page_of f' \<Longrightarrow> f = f'"
  using page_of_ok(1) by (metis mult_cancel2 zero_neq_numeral)

lemma free_frames_finite: "zones_inv zs G \<Longrightarrow> finite (free_frames zs G)"
proof -
  assume z: "zones_inv zs G"
  have "finite (Blocks.cover (free_blocks (fst (G ! n))))" if "n < length zs" for n
    using zones_inv_zone [OF z that] finite_subset [of _ "{zbegin (zs ! n)..<zend (zs ! n)}"]
    by (simp add: zone_inv_def blocks_inv_def cover_Un)
  then show ?thesis by (simp add: free_frames_def)
qed

text \<open>One page of the allocator: as long as a frame is free, the call gives one.\<close>

lemma page_alloc_one:
  assumes z: "zones_inv zs G" and f: "free_frames zs G \<noteq> {}"
  obtains q zs' G' where "page_alloc 0 zs = Inr (q * 4096, zs')" "zones_inv zs' G'" "q \<in> free_frames zs G" "free_frames zs' G' = free_frames zs G - {q}" "q \<noteq> 0"
proof -
  have len: "length G = length zs" using z by (simp add: zones_inv_def)
  obtain n i l where n: "n < length zs" "(i, l) \<in> free_blocks (fst (G ! n))"
    using f by (auto simp: free_frames_def Blocks.cover_def)
  then have "\<exists>n<length zs. zone_serves 0 (fst (G ! n))" unfolding zone_serves_def free_blocks_def by force
  with page_alloc_cases [OF z, of 0] obtain n i z' F' where r: "n < length zs" "page_alloc 0 zs = Inr ((zbegin (zs ! n) + i) * 4096, zs[n := z'])"
    "Blocks.cover (free_blocks (fst (G ! n))) = blk (zbegin (zs ! n) + i) 0 \<union> Blocks.cover (free_blocks F')"
    "zones_inv (zs[n := z']) (G[n := (F', insert (zbegin (zs ! n) + i, 0) (snd (G ! n)))])" "zbegin (zs ! n) + i \<noteq> 0"
    by auto
  let ?q = "zbegin (zs ! n) + i" and ?G = "G[n := (F', insert (zbegin (zs ! n) + i, 0) (snd (G ! n)))]"
  show thesis
  proof (rule that [OF r(2,4) _ _ r(5)])
    show "?q \<in> free_frames zs G" unfolding free_frames_split [OF r(1)] using r(3) by simp
    have zn: "?q \<notin> Blocks.cover (free_blocks F')" "in_zone_at zs n ?q"
    proof -
      have "zone_inv (zs[n := z'] ! n) (fst (?G ! n)) (snd (?G ! n)) {}" using zones_inv_zone [OF r(4), of n] r(1) by (simp only: length_list_update)
      then have "Blocks.cover (free_blocks F') \<inter> Blocks.cover (insert (?q, 0) (snd (G ! n))) = {}" using r(1) len by (simp add: zone_inv_def blocks_inv_def)
      then show "?q \<notin> Blocks.cover (free_blocks F')" using mem_cover [of ?q 0 "insert (?q, 0) (snd (G ! n))"] by blast
      have "Blocks.cover (free_blocks (fst (G ! n))) \<subseteq> {zbegin (zs ! n)..<zend (zs ! n)}"
        using zones_inv_zone [OF z r(1)] by (simp add: zone_inv_def blocks_inv_def)
      moreover have "?q \<in> Blocks.cover (free_blocks (fst (G ! n)))" unfolding r(3) by simp
      ultimately have "?q \<in> {zbegin (zs ! n)..<zend (zs ! n)}" by (rule subsetD)
      then show "in_zone_at zs n ?q" using r(1) by (simp add: in_zone_at_def)
    qed
    have "?q \<notin> Blocks.cover (free_blocks (fst (G ! m)))" if m: "m < length zs" "m \<noteq> n" for m
    proof
      assume "?q \<in> Blocks.cover (free_blocks (fst (G ! m)))"
      moreover have "Blocks.cover (free_blocks (fst (G ! m))) \<subseteq> {zbegin (zs ! m)..<zend (zs ! m)}"
        using zones_inv_zone [OF z m(1)] by (simp add: zone_inv_def blocks_inv_def)
      ultimately have "in_zone_at zs m ?q" using m(1) by (auto simp: in_zone_at_def)
      then show False using zn(2) z m(2) unfolding zones_inv_def by blast
    qed
    moreover have "blk ?q 0 = {?q}" by (simp add: blk_def)
    ultimately show "free_frames (zs[n := z']) ?G = free_frames zs G - {?q}"
      unfolding free_frames_update [OF r(1) len] free_frames_split [OF r(1)] using r(3) zn(1) by auto
  qed
qed

lemma take_zone_page:
  assumes "zone_stock U (Suc n) zs"
  shows "\<exists>q zs'. pool_get_page (Some kmap_pool) m zs = Some (Inr (q, zero_page q m, zs')) \<and> frame q \<and> q \<notin> U \<and> zone_stock (insert q U) n zs'"
proof -
  obtain G where G: "zones_inv zs G" "Suc n \<le> card (free_frames zs G)" "free_frames zs G \<subseteq> {..<2 ^ 38}" "page_of ` free_frames zs G \<inter> U = {}"
    using assms unfolding zone_stock_def by blast
  have "free_frames zs G \<noteq> {}" using G(2) by auto
  then obtain q zs' G' where q: "page_alloc 0 zs = Inr (q * 4096, zs')" "zones_inv zs' G'" "q \<in> free_frames zs G" "free_frames zs' G' = free_frames zs G - {q}" "q \<noteq> 0"
    by (rule page_alloc_one [OF G(1)])
  have q38: "q < 2 ^ 38" using q(3) G(3) by auto
  have "n \<le> card (free_frames zs' G')" using q(3,4) G(2) free_frames_finite [OF G(1)] by (simp add: card_Diff_singleton)
  moreover have "page_of q \<notin> page_of ` free_frames zs' G'"
  proof
    assume "page_of q \<in> page_of ` free_frames zs' G'"
    then obtain f where f: "f \<in> free_frames zs G" "f \<noteq> q" "page_of q = page_of f" unfolding q(4) by blast
    have "f < 2 ^ 38" using f(1) G(3) by auto
    from page_of_inj [OF q38 this f(3)] show False using f(2) by simp
  qed
  ultimately have "zone_stock (insert (page_of q) U) n zs'"
    unfolding zone_stock_def using q(2,4) G(3,4) by (intro exI [of _ G']) auto
  moreover have "page_of q \<notin> U" using q(3) G(4) by blast
  moreover have "pool_get_page (Some kmap_pool) m zs = Some (Inr (page_of q, zero_page (page_of q) m, zs'))"
    using q(1,5) by (simp add: pool_get_page_def kmap_pool_def kmap_setup_get_page_def page_of_def)
  ultimately show ?thesis using page_of_ok(2) [OF q38] by blast
qed

interpretation zone_pages: page_supply "Some kmap_pool" zone_stock
  by unfold_locales (rule take_zone_page)

section \<open>The tables of the window\<close>

lemma window_range:
  "in_table 3 KMAP_BEGIN (KMAP_END - 1)" "pages_ok KMAP_BEGIN (KMAP_END - 1) 0" "entries 3 KMAP_BEGIN (KMAP_END - 1) = 1027"
  "KMAP_BEGIN AND PAGE_MASK = 0" "KMAP_END AND PAGE_MASK = 0" "in_window x \<longleftrightarrow> KMAP_BEGIN \<le> x \<and> x \<le> KMAP_END - 1"
proof -
  have b: "unat KMAP_BEGIN = 0xffffffff00000000" "unat (KMAP_END - 1) = 0xffffffff7fffffff"
    by (simp_all add: KMAP_BEGIN_def KMAP_END_def KMAP_SIZE_def VIRTUAL_BASE_def)
  have s: "span j KMAP_BEGIN = 0xffffffff00000000 div 2 ^ (12 + 9 * j)" "span j (KMAP_END - 1) = 0xffffffff7fffffff div 2 ^ (12 + 9 * j)" for j
    by (simp_all add: span_def shift_of_def b)
  show "in_table 3 KMAP_BEGIN (KMAP_END - 1)" by (simp add: in_table_def s word_le_nat_alt b)
  show "pages_ok KMAP_BEGIN (KMAP_END - 1) 0" by (simp add: pages_ok_def b)
  show "entries 3 KMAP_BEGIN (KMAP_END - 1) = 1027" 
  proof -
    have "{1..3} = {1, 2, 3 :: nat}" by auto
    then show ?thesis by (simp add: entries_def s)
  qed
  show "KMAP_BEGIN AND PAGE_MASK = 0" "KMAP_END AND PAGE_MASK = 0"
    by (simp_all add: KMAP_BEGIN_def KMAP_END_def KMAP_SIZE_def VIRTUAL_BASE_def PAGE_MASK_def Paging.PAGE_SIZE_def)
  show "in_window x \<longleftrightarrow> KMAP_BEGIN \<le> x \<and> x \<le> KMAP_END - 1" by (auto simp: in_window_unat word_le_nat_alt b)
qed

lemma populate_window:
  assumes ok: "tables_ok m 3 p" "\<And>x. in_window x \<Longrightarrow> lookup m 3 p x = None" and z: "zones_inv zs G" "1027 \<le> card (free_frames zs G)"
    "free_frames zs G \<subseteq> {..<2 ^ 38}" "page_of ` free_frames zs G \<inter> frames m 3 p = {}"
  shows "\<exists>m' zs'. pt_populate_pages (phys_ptr p) KMAP_BEGIN KMAP_END (Some kmap_pool) (m, zs) = Some (Inr (m', zs')) \<and>
    window_tables m' p \<and> (\<forall>x\<ge>Paging.HIGHER_BASE. lookup m' 3 p x = lookup m 3 p x)"
proof -
  let ?U = "insert 0 (frames m 3 p)" and ?e = "KMAP_END - 1"
  note w = window_range
  have n0: "0 \<notin> free_frames zs G"
    using z(1) by (auto simp: free_frames_def zones_inv_def)
  have zs: "zone_stock ?U 1027 zs" unfolding zone_stock_def
  proof (intro exI [of _ G] conjI z)
    have "page_of f \<noteq> 0" if "f \<in> free_frames zs G" for f
    proof
      have f: "f < 2 ^ 38" "f \<noteq> 0" using that z(3) n0 by (auto intro: ccontr)
      assume "page_of f = 0"
      then show False using page_of_ok(1) [OF f(1)] f(2) by simp
    qed
    then show "page_of ` free_frames zs G \<inter> ?U = {}" using z(4) by auto
  qed
  have "needs m 0 3 (Some p) KMAP_BEGIN ?e 0 \<le> 1027" using needs_bound [OF _ w(1), of m 0 "Some p" 0] w(3) by simp
  then obtain k where k: "1027 = needs m 0 3 (Some p) KMAP_BEGIN ?e 0 + k" using le_Suc_ex by blast
  have un: "lookup m 3 p x = None" if "KMAP_BEGIN \<le> x" "x \<le> ?e" for x using ok(2) w(6) that by blast
  have sub: "frames m 3 p \<subseteq> ?U" "0 \<in> ?U" by auto
  have lv: "level_ok (Some kmap_pool) zone_stock 3 0" by (rule zone_pages.map_level_ok) simp_all
  obtain m' zs' U' where m': "pt_map_level (Suc 3) 0 (Some kmap_pool) (phys_ptr p) KMAP_BEGIN ?e 0 (m, zs) = Some (Inr (m', zs'))"
    "maps 3 p KMAP_BEGIN ?e 0 0 m ?U m' U'"
    by (rule zone_pages.level_okD [OF lv ok(1) sub w(1,2) un zs [unfolded k]])
  note d = mapsD [OF m'(2)]
  have "Paging.HIGHER_BASE \<le> KMAP_BEGIN" by (simp add: Paging.HIGHER_BASE_def KMAP_BEGIN_def KMAP_SIZE_def VIRTUAL_BASE_def)
  then have sp: "span (Suc 3) x = span (Suc 3) KMAP_BEGIN" if "Paging.HIGHER_BASE \<le> x" for x
    using upper_half [OF that] upper_half [of KMAP_BEGIN] by simp
  have pop: "populated m' 3 p x" if "in_window x" for x
    using d(7) [OF sp [OF window_upper [OF that]]] w(6) that by simp
  have "lookup m' 3 p x = lookup m 3 p x" if x: "Paging.HIGHER_BASE \<le> x" for x
    using d(5) [OF sp [OF x]] ok(2) [of x] w(6) [of x] by (auto simp: leaf_of_def)
  moreover have "pt_populate_pages (phys_ptr p) KMAP_BEGIN KMAP_END (Some kmap_pool) (m, zs) = Some (Inr (m', zs'))"
    using w(4,5) m'(1) by (simp add: pt_populate_pages_def)
  ultimately show ?thesis using d(1) pop unfolding window_tables_def by blast
qed

section \<open>The set-up\<close>

lemma kmap_setup_ok:
  assumes ok: "tables_ok (kt g) 3 (kcr3 g)" "\<And>x. in_window x \<Longrightarrow> lookup (kt g) 3 (kcr3 g) x = None"
    and z: "zones_inv (hzones (kheap g)) G" "1027 \<le> card (free_frames (hzones (kheap g)) G)"
    "free_frames (hzones (kheap g)) G \<subseteq> {..<2 ^ 38}" "page_of ` free_frames (hzones (kheap g)) G \<inter> frames (kt g) 3 (kcr3 g) = {}"
    and hd: "KHead ` {..<KMAP_ORDERS} \<subseteq> dom (klinks (kranges g))"
  shows "\<exists>m zs. case mem_alloc (24 * KMAP_PAGES) ((kheap g)\<lparr>hzones := zs\<rparr>) of
      Inl t \<Rightarrow> kmap_setup raw g = Some (Inl t)
    | Inr (None, h) \<Rightarrow> kmap_setup raw g = Some (Inl Bug)
    | Inr (Some a, h) \<Rightarrow> \<exists>rs S. kmap_setup raw g = Some (Inr (g\<lparr>kt := m, kheap := h, kranges := rs\<rparr>)) \<and>
        window_ok S (g\<lparr>kt := m, kheap := h, kranges := rs\<rparr>) \<and> Kmap_Inv.held S = {} \<and> room S = {..<KMAP_PAGES} \<and>
        (\<forall>x\<ge>Paging.HIGHER_BASE. lookup m 3 (kcr3 g) x = lookup (kt g) 3 (kcr3 g) x)"
proof -
  obtain m zs where m: "pt_populate_pages (phys_ptr (kcr3 g)) KMAP_BEGIN KMAP_END (Some kmap_pool) (kt g, hzones (kheap g)) = Some (Inr (m, zs))"
    "window_tables m (kcr3 g)" "\<forall>x\<ge>Paging.HIGHER_BASE. lookup m 3 (kcr3 g) x = lookup (kt g) 3 (kcr3 g) x"
    using populate_window [OF ok z] by blast
  let ?l = "\<lambda>x. case x of KHead i \<Rightarrow> klinks (kranges g) (KHead i) | KRange i \<Rightarrow> if i < KMAP_PAGES then Some (fst (raw i)) else None"
  have "KHead ` {..<KMAP_ORDERS} \<union> KRange ` {..<KMAP_PAGES} \<subseteq> dom ?l" using hd by auto
  from window_setup [OF this, of "\<lambda>i. snd (raw i)"] obtain l' rs S where w: "init_heads [0..<KMAP_ORDERS] ?l = Inr l'"
    "kmap_free_range 0 KMAP_PAGES \<lparr>klinks = l', kpages = (\<lambda>i. snd (raw i))\<rparr> = Inr rs" "kinv S rs 0 0" "Kmap_Inv.held S = {}" "room S = {..<KMAP_PAGES}" by blast
  have un: "lookup m 3 (kcr3 g) x = None" if "in_window x" for x using m(3) ok(2) [OF that] window_upper [OF that] by simp
  have "window_ok S (g\<lparr>kt := m, kheap := h, kranges := rs\<rparr>)" for h using w(3) m(2) un by (simp add: window_ok_def)
  then show ?thesis using m(1,3) w
    by (intro exI [of _ m] exI [of _ zs]) (auto simp: kmap_setup_def Let_def split: sum.split option.split)
qed

end
