(* ===== verification/Kmap_Props.thy ===== *)
theory Kmap_Props
  imports Kmap_Setup
begin

unbundle bit_operations_syntax

text \<open>The properties of \<open>kmap\<close> and \<open>kunmap\<close>.\<close>

section \<open>A concrete window\<close>

text \<open>A zone of 2048 frames, and an empty table at \<open>0x1000\<close>.\<close>

definition wide_links :: "znode lheap" where
  "wide_links n = (case n of
     OrderHead k \<Rightarrow> if k \<le> MAX_ORDER then Some \<lparr>nxt = Some (OrderHead k), prv = Some (OrderHead k)\<rparr> else None
   | PageLL i \<Rightarrow> if i < 2048 then Some \<lparr>nxt = None, prv = None\<rparr> else None)"

definition wide_zone :: zone where
  "wide_zone = \<lparr>zbegin = 2048, zend = 4096, zlinks = wide_links, zpages = \<lambda>_. blank_page\<rparr>"

lemma wide_inv: "zone_inv wide_zone (\<lambda>_. []) {(2048, 11)} {}"
proof -
  have r: "lists_rep wide_links order_heads (zlists 2048 (\<lambda>_. []))"
    by (auto simp: lists_rep_def order_heads_def dlist_def nx_def pv_def wide_links_def)
  have d: "dom wide_links = order_heads \<union> PageLL ` {..<2048}"
    by (auto simp: wide_links_def order_heads_def split: znode.splits if_splits)
  show ?thesis
    by (auto simp: zone_inv_def links_inv_def blocks_inv_def flags_inv_def wide_zone_def r d
      cover_insert aligned_def blk_def coalesced_def MAX_ORDER_def frame_desc_def)
qed

lemma wide_free: "\<exists>zs G. zones_inv zs G \<and> free_frames zs G = {2048..<4096}"
proof -
  have c: "Blocks.cover {(2048, 11)} = {2048..<4096}" by (simp add: cover_insert blk_def)
  have z: "zones_inv [wide_zone] [(\<lambda>_. [], {(2048, 11)})]" using wide_inv c by (simp add: zones_inv_def in_zone_at_def)
  obtain z' F' where "zones_inv [z'] [(F', {})]" "Blocks.cover (free_blocks F') = blk 2048 11"
    using page_free_held [OF z, of 0 2048 11] by auto
  then show ?thesis by (intro exI [of _ "[z']"] exI [of _ "[(F', {})]"]) (simp add: free_frames_def blk_def lessThan_Suc)
qed

lemma empty_table:
  "frames (\<lambda>_. 0) d 0x1000 = {0x1000}" "tables_ok (\<lambda>_. 0) d 0x1000" "lookup (\<lambda>_. 0) d 0x1000 x = None"
proof -
  have fr: "frame 0x1000" by (simp add: frame_def PTE_PHYS_MASK_def)
  have e: "\<forall>i<512. ent (\<lambda>_. 0) 0x1000 i = 0" by (simp add: ent_def)
  show "frames (\<lambda>_. 0) d 0x1000 = {0x1000}" "tables_ok (\<lambda>_. 0) d 0x1000" "lookup (\<lambda>_. 0) d 0x1000 x = None"
    by (rule zero_table [OF fr e])+
qed

lemma demo_start:
  "\<exists>zs G. zones_inv zs G \<and> 1027 \<le> card (free_frames zs G) \<and> free_frames zs G \<subseteq> {..<2 ^ 38} \<and>
    page_of ` free_frames zs G \<inter> frames (\<lambda>_. 0) 3 0x1000 = {}"
proof -
  obtain zs G where z: "zones_inv zs G" "free_frames zs G = {2048..<4096}" using wide_free by blast
  have "page_of f \<noteq> 0x1000" if f: "f \<in> {2048..<4096}" for f
  proof
    assume "page_of f = 0x1000"
    then have "f * 4096 = 4096" using page_of_ok(1) [of f] f by simp
    then show False using f by simp
  qed
  then have "page_of ` {2048..<4096} \<inter> frames (\<lambda>_. 0) 3 0x1000 = {}" unfolding empty_table(1) by auto
  moreover have "{2048..<4096} \<subseteq> {..<2 ^ 38 :: nat}" "1027 \<le> card {2048..<4096 :: nat}" by auto
  ultimately show ?thesis using z by (intro exI [of _ zs] exI [of _ G]) simp
qed

lemma demo_tables: "\<exists>m. window_tables m 0x1000 \<and> (\<forall>x\<ge>Paging.HIGHER_BASE. lookup m 3 0x1000 x = None)"
proof -
  obtain zs G where z: "zones_inv zs G" "1027 \<le> card (free_frames zs G)" "free_frames zs G \<subseteq> {..<2 ^ 38}"
    "page_of ` free_frames zs G \<inter> frames (\<lambda>_. 0) 3 0x1000 = {}" using demo_start by blast
  from populate_window [OF empty_table(2,3) z] empty_table(3) show ?thesis by auto
qed

lemma demo_window:
  "\<exists>S g. window_ok S g \<and> Kmap_Inv.held S = {} \<and> room S = {..<KMAP_PAGES} \<and> hzones (kheap g) = [wide_zone]"
proof -
  obtain m where m: "window_tables m 0x1000" "\<forall>x\<ge>Paging.HIGHER_BASE. lookup m 3 0x1000 x = None" using demo_tables by blast
  obtain l' s S where w: "kinv S s 0 0" "Kmap_Inv.held S = {}" "room S = {..<KMAP_PAGES}"
    using window_setup [of "\<lambda>_. Some \<lparr>nxt = None, prv = None\<rparr>" "\<lambda>_. 0"] by auto
  let ?g = "\<lparr>kt = m, kcr3 = 0x1000, kflushed = [], kranges = s, kheap = undefined\<lparr>hzones := [wide_zone]\<rparr>, ksched = undefined\<rparr>"
  have "lookup m 3 0x1000 x = None" if "in_window x" for x using m(2) window_upper [OF that] by simp
  then have "window_ok S ?g" using w(1) m(1) by (simp add: window_ok_def)
  moreover have "hzones (kheap ?g) = [wide_zone]" by (cases "undefined :: heap") simp
  ultimately show ?thesis using w by blast
qed

lemma big_free: "S 0 = Some (KMAP_PAGES, True) \<Longrightarrow> \<not> (\<forall>i n. S i = Some (n, True) \<longrightarrow> n < 2)"
proof
  assume "S 0 = Some (KMAP_PAGES, True)" "\<forall>i n. S i = Some (n, True) \<longrightarrow> n < 2"
  then have "KMAP_PAGES < 2" by blast
  then show False by (simp add: KMAP_PAGES_eq)
qed

lemma demo_targets: "\<forall>j<2. page_addr ([(0, 7), (0, 5)] ! j) [wide_zone] = Inr ([0x807000, 0x805000] ! j) \<and> frame (of_nat ([0x807000, 0x805000] ! j))"
  by (auto simp: less_2_cases_iff page_addr_def page_zone_def wide_zone_def PAGE_SHIFT_def push_bit_eq_mult frame_def PTE_PHYS_MASK_def)

section \<open>Properties\<close>

text \<open>
  C36. \<open>kmap\<close> of two pages or more: either it returns the address of a range of the window that was free and is now
  held, where the pages are translated to their frames in the order given, writable, and every other address of the upper half
  is translated as before; or it returns null and changes nothing, and then no free range of the window is long
  enough or \<open>2 ^ 16\<close> pages or more were asked for.  The window stays well formed.
\<close>
theorem kmap_maps:
  assumes "window_ok S g" "2 \<le> count" "count \<le> length pages"
    and "\<forall>j<count. page_addr (pages ! j) (hzones (kheap g)) = Inr (tgt j) \<and> frame (of_nat (tgt j))"
  shows "(\<exists>i S' g'. kmap pages count g = Some (Inr (kmap_addr i, g')) \<and> window_ok S' g' \<and>
      {i..<i + count} \<subseteq> room S \<and> room S' = room S - {i..<i + count} \<and> Kmap_Inv.held S' = insert (i, count) (Kmap_Inv.held S) \<and>
      (\<forall>x\<ge>Paging.HIGHER_BASE. lookup (kt g') 3 (kcr3 g') x =
        (if in_window x \<and> i \<le> addr_kmap x \<and> addr_kmap x < i + count
         then Some (of_nat (tgt (addr_kmap x - i)) + (x AND PAGE_MASK), PTE_WRITE OR PTE_USER)
         else lookup (kt g) 3 (kcr3 g) x))) \<or>
    kmap pages count g = Some (Inr (0, g)) \<and> (count < 2 ^ 16 \<longrightarrow> (\<forall>i n. S i = Some (n, True) \<longrightarrow> n < count))"
  using kmap_ok [OF assms]
proof (elim disjE exE conjE)
  fix i S' m rs fl
  let ?g = "g\<lparr>kt := m, kranges := rs, kflushed := fl\<rparr>"
  assume "kmap pages count g = Some (Inr (kmap_addr i, ?g))" "window_ok S' ?g" "Kmap_Inv.held S' = insert (i, count) (Kmap_Inv.held S)"
    "{i..<i + count} \<subseteq> room S" "room S' = room S - {i..<i + count}" "remapped (kcr3 g) i count (mapped_to (\<lambda>n. tgt (n - i))) (kt g) m"
  then show ?thesis by (intro disjI1 ex3I [of _ i S' ?g]) (simp add: remapped_def mapped_to_def)
qed (simp add: KMAP_ORDERS_def)

theorem kmap_maps_witness:
  "\<exists>g i g'. kmap [(0, 7), (0, 5)] 2 g = Some (Inr (kmap_addr i, g')) \<and>
    (\<forall>x. in_window x \<and> addr_kmap x = i + 1 \<longrightarrow> lookup (kt g') 3 (kcr3 g') x = Some (0x805000 + (x AND PAGE_MASK), 6))"
proof -
  obtain S g where g: "window_ok S g" "Kmap_Inv.held S = {}" "hzones (kheap g) = [wide_zone]" using demo_window by blast
  have "S 0 = Some (KMAP_PAGES, True)" using whole_window [OF _ g(2)] g(1) unfolding window_ok_def by blast
  then have big: "\<not> (\<forall>i n. S i = Some (n, True) \<longrightarrow> n < 2)" by (rule big_free)
  have two: "(2 :: nat) \<le> 2" "2 \<le> length [(0 :: nat, 7 :: nat), (0, 5)]" by simp_all
  obtain i g' where k: "kmap [(0, 7), (0, 5)] 2 g = Some (Inr (kmap_addr i, g'))"
    "\<forall>x\<ge>Paging.HIGHER_BASE. lookup (kt g') 3 (kcr3 g') x =
        (if in_window x \<and> i \<le> addr_kmap x \<and> addr_kmap x < i + 2
         then Some (of_nat ([0x807000, 0x805000] ! (addr_kmap x - i)) + (x AND PAGE_MASK), PTE_WRITE OR PTE_USER)
         else lookup (kt g) 3 (kcr3 g) x)"
    using kmap_maps [where tgt = "\<lambda>j. [0x807000, 0x805000] ! j", OF g(1) two demo_targets [folded g(3)]] big by auto
  have "lookup (kt g') 3 (kcr3 g') x = Some (0x805000 + (x AND PAGE_MASK), 6)" if x: "in_window x" "addr_kmap x = i + 1" for x
    using k(2) window_upper [OF x(1)] x by (simp add: PTE_WRITE_def PTE_USER_def)
  then show ?thesis using k(1) by blast
qed

text \<open>
  C37. \<open>kunmap\<close> undoes \<open>kmap\<close>: unmapping the address that \<open>kmap\<close> returned succeeds, frees the range again, and all
  addresses of the upper half are translated as they were before; the translations of all the pages of the range have been dropped from the cache of the processor.
\<close>
theorem kunmap_undoes_kmap:
  assumes "window_ok S g" "2 \<le> count" "count \<le> length pages"
    and "\<forall>j<count. page_addr (pages ! j) (hzones (kheap g)) = Inr (tgt j) \<and> frame (of_nat (tgt j))"
    and "kmap pages count g = Some (Inr (v, g'))" "v \<noteq> 0"
  shows "\<exists>S' g''. kunmap v g' = Some (Inr g'') \<and> window_ok S' g'' \<and> Kmap_Inv.held S' = Kmap_Inv.held S \<and> room S' = room S \<and>
    (\<forall>x\<ge>Paging.HIGHER_BASE. lookup (kt g'') 3 (kcr3 g'') x = lookup (kt g) 3 (kcr3 g) x) \<and>
    (\<exists>i. v = kmap_addr i \<and> kflushed g'' = rev (map kmap_addr [i..<i + count]) @ kflushed g')"
proof -
  from kmap_ok [OF assms(1-4)] obtain i S1 m rs fl where a: "v = kmap_addr i" "g' = g\<lparr>kt := m, kranges := rs, kflushed := fl\<rparr>"
    "window_ok S1 g'" "Kmap_Inv.held S1 = insert (i, count) (Kmap_Inv.held S)" "{i..<i + count} \<subseteq> room S" "room S1 = room S - {i..<i + count}"
    "remapped (kcr3 g) i count (mapped_to (\<lambda>n. tgt (n - i))) (kt g) m" using assms(5,6) by auto
  have "(i, count) \<in> Kmap_Inv.held S1" using a(4) by simp
  from kunmap_ok [OF a(3) this] obtain S2 m2 rs2 fl2 where b: "kunmap v g' = Some (Inr (g'\<lparr>kt := m2, kranges := rs2, kflushed := fl2\<rparr>))"
    "window_ok S2 (g'\<lparr>kt := m2, kranges := rs2, kflushed := fl2\<rparr>)" "Kmap_Inv.held S2 = Kmap_Inv.held S1 - {(i, count)}" "room S2 = room S1 \<union> {i..<i + count}"
    "fl2 = rev (map kmap_addr [i..<i + count]) @ kflushed g'" "remapped (kcr3 g') i count (\<lambda>_. None) (kt g') m2" unfolding a(1) by blast
  let ?g = "g'\<lparr>kt := m2, kranges := rs2, kflushed := fl2\<rparr>"
  have fresh: "(i, count) \<notin> Kmap_Inv.held S"
  proof
    assume "(i, count) \<in> Kmap_Inv.held S"
    moreover have "seg_ok S 0 0" "i \<in> room S" using assms(1,2) a(5) by (auto simp: window_ok_def kinv_def)
    ultimately show False using held_not_free [of S i count i] assms(2) by simp
  qed
  have lk: "lookup m2 3 (kcr3 g) x = lookup (kt g) 3 (kcr3 g) x" if x: "Paging.HIGHER_BASE \<le> x" for x
  proof (cases "in_window x \<and> i \<le> addr_kmap x \<and> addr_kmap x < i + count")
    case True
    then have "lookup (kt g) 3 (kcr3 g) x = None" using assms(1) a(5) unfolding window_ok_def by auto
    then show ?thesis using remappedD(3) [OF b(6) x] True a(2) by simp
  next
    case False
    then show ?thesis using remappedD(3) [OF b(6) x] remappedD(3) [OF a(7) x] a(2) by auto
  qed
  show ?thesis
  proof (intro exI [of _ S2] exI [of _ ?g] conjI b(1,2) exI [of _ i] a(1))
    show "Kmap_Inv.held S2 = Kmap_Inv.held S" "room S2 = room S" using a(4-6) b(3,4) fresh by auto
  qed (use lk b(5) a(2) in simp_all)
qed

theorem kunmap_undoes_kmap_witness:
  "\<exists>g v g' g''. kmap [(0, 7), (0, 5)] 2 g = Some (Inr (v, g')) \<and> v \<noteq> 0 \<and> kunmap v g' = Some (Inr g'') \<and>
    (\<forall>x\<ge>Paging.HIGHER_BASE. lookup (kt g'') 3 (kcr3 g'') x = lookup (kt g) 3 (kcr3 g) x)"
proof -
  obtain S g where g: "window_ok S g" "Kmap_Inv.held S = {}" "hzones (kheap g) = [wide_zone]" using demo_window by blast
  have "S 0 = Some (KMAP_PAGES, True)" using whole_window [OF _ g(2)] g(1) unfolding window_ok_def by blast
  then have big: "\<not> (\<forall>i n. S i = Some (n, True) \<longrightarrow> n < 2)" by (rule big_free)
  have two: "(2 :: nat) \<le> 2" "2 \<le> length [(0 :: nat, 7 :: nat), (0, 5)]" by simp_all
  note dp = demo_targets [folded g(3)]
  obtain i S' g' where k: "kmap [(0, 7), (0, 5)] 2 g = Some (Inr (kmap_addr i, g'))" "{i..<i + 2} \<subseteq> room S" "window_ok S g"
    using kmap_ok [where tgt = "\<lambda>j. [0x807000, 0x805000] ! j", OF g(1) two dp] big g(1) by (auto simp: KMAP_ORDERS_def)
  have "i \<in> room S" using k(2) by auto
  then have "i < KMAP_PAGES" using seg_okD(3) [of S 0 0] g(1) by (fastforce simp: room_def window_ok_def kinv_def)
  then have "kmap_addr i \<noteq> 0" using kmap_addr_unat [of i] by auto
  from kunmap_undoes_kmap [where tgt = "\<lambda>j. [0x807000, 0x805000] ! j", OF g(1) two dp k(1) this] k(1) this show ?thesis by blast
qed

text \<open>
  C38. A request for \<open>2 ^ 16\<close> pages or more always returns null, whatever is free: \<open>kmap_order\<close> stops at \<open>KMAP_ORDERS\<close>, no
  list of that order is searched, and the last list is only searched for less, although it holds all the larger ranges.
\<close>
theorem kmap_limit:
  assumes "2 ^ 16 \<le> count"
  shows "kmap pages count g = Some (Inr (0, g))"
proof -
  have "kmap_order count = KMAP_ORDERS"
  proof (rule ccontr)
    assume "kmap_order count \<noteq> KMAP_ORDERS"
    then have l: "kmap_order count < KMAP_ORDERS" using kmap_order_ok(1) [of count] by simp
    then have "count \<le> 2 ^ kmap_order count" by (rule kmap_order_ok(2))
    also have "\<dots> \<le> 2 ^ 15" using l by (intro power_increasing) (simp_all add: KMAP_ORDERS_def)
    finally show False using assms by simp
  qed
  then have "kmap_alloc_range count rs = Some (Inr (None, rs))" for rs
    using assms by (simp add: kmap_alloc_range_def KMAP_ORDERS_def Let_def)
  moreover have "count \<noteq> 0" "count \<noteq> 1" using assms by auto
  moreover obtain en sc where l: "spin_lock_irqsave (ksched g) = (en, sc)" by fastforce
  ultimately show ?thesis
    using kmap_locked [OF l, where m = "kt g" and rs = "kranges g" and fl = "kflushed g" and v = 0 and pages = pages and count = count]
    by (simp add: kmap_unlocked_def)
qed

theorem kmap_limit_witness:
  "\<exists>S g. window_ok S g \<and> S 0 = Some (0x80000, True) \<and> kmap (replicate 65536 (0, 7)) 65536 g = Some (Inr (0, g))"
proof -
  obtain S g where g: "window_ok S g" "Kmap_Inv.held S = {}" using demo_window by blast
  have "S 0 = Some (KMAP_PAGES, True)" using whole_window [OF _ g(2)] g(1) unfolding window_ok_def by blast
  then show ?thesis using g(1) kmap_limit [of 65536 "replicate 65536 (0, 7)" g] by (auto simp: KMAP_PAGES_eq)
qed

text \<open>
  C39. The ranges of the window as an allocator: from the set-up on, any sequence of requests and returns runs to its end without stopping the
  kernel or leaving it in a loop; the ranges held at the end do not overlap, and if none is left the window is one free range again.
\<close>
theorem kmap_ranges_safe:
  assumes "KHead ` {..<KMAP_ORDERS} \<union> KRange ` {..<KMAP_PAGES} \<subseteq> dom l"
  shows "\<exists>l' s hs s' S. init_heads [0..<KMAP_ORDERS] l = Inr l' \<and> kmap_free_range 0 KMAP_PAGES \<lparr>klinks = l', kpages = pg\<rparr> = Inr s \<and>
    run_requests range_request range_return rs [] s = Inr (hs, s') \<and> distinct hs \<and> kinv S s' 0 0 \<and> Kmap_Inv.held S = set hs \<and>
    (\<forall>(i, n)\<in>set hs. i + n \<le> KMAP_PAGES \<and> (\<forall>(j, m)\<in>set hs. i \<noteq> j \<longrightarrow> {i..<i + n} \<inter> {j..<j + m} = {})) \<and>
    (hs = [] \<longrightarrow> S 0 = Some (KMAP_PAGES, True))"
proof -
  obtain l' s S where w: "init_heads [0..<KMAP_ORDERS] l = Inr l'" "kmap_free_range 0 KMAP_PAGES \<lparr>klinks = l', kpages = pg\<rparr> = Inr s"
    "kinv S s 0 0" "Kmap_Inv.held S = {}" using window_setup [OF assms] by blast
  then have "window_inv s {}" by (auto simp: window_inv_def)
  from ranges.run_from_empty [OF this] obtain hs s' where r: "run_requests range_request range_return rs [] s = Inr (hs, s')" "distinct hs"
    "window_inv s' (set hs)" by blast
  then obtain S' where S': "kinv S' s' 0 0" "Kmap_Inv.held S' = set hs" unfolding window_inv_def by blast
  note d = kinvD [OF S'(1)]
  have at: "S' i = Some (n, False)" if "(i, n) \<in> set hs" for i n using S'(2) that by (auto simp: Kmap_Inv.held_def)
  have "i + n \<le> KMAP_PAGES" if "(i, n) \<in> set hs" for i n using seg_okD(3) [OF d(1) at [OF that]] .
  moreover have "{i..<i + n} \<inter> {j..<j + m} = {}" if h: "(i, n) \<in> set hs" "(j, m) \<in> set hs" "i \<noteq> j" for i n j m
    using seg_okD(5) [OF d(1) at [OF h(1)] at [OF h(2)]] seg_okD(5) [OF d(1) at [OF h(2)] at [OF h(1)]] h(3) by (cases "i < j") auto
  moreover have "S' 0 = Some (KMAP_PAGES, True)" if "hs = []" using whole_window [OF S'(1)] S'(2) that by simp
  ultimately show ?thesis using w(1,2) r(1,2) S' by blast
qed

theorem kmap_ranges_safe_witness:
  "\<exists>s hs s'. run_requests range_request range_return [Request 3, Request 70000, Request 2, Return 1, Request 5] [] s = Inr (hs, s')"
  using kmap_ranges_safe [of "\<lambda>_. Some \<lparr>nxt = None, prv = None\<rparr>" "\<lambda>_. 0" "[Request 3, Request 70000, Request 2, Return 1, Request 5]"]
  by (simp del: run_requests.simps) blast



end
