(* ===== verification/Spec2Isabelle.thy ===== *)
theory Spec2Isabelle
  imports Slab_Props Text_Props Sched_Props Printf_Props Ramfs_Props RbTree_Props Balloc_Props
    Paging_Props Kmap_Props
begin

text \<open>
  A verification library for a small x86-64 teaching kernel.

  \<^bold>\<open>The program.\<close>  At boot \<open>main.c\<close> sets up the serial port, the interrupts and the timer, finds the
  archive with the initial files among the modules of the boot loader, and builds the memory management
  in three layers: ranges of physical memory (\<open>balloc.c\<close> over the red-black trees of \<open>rbtree.c\<close>), pages
  (\<open>memory.c\<close>), objects (\<open>alloc.c\<close>).  Then come the threads (\<open>threads.c\<close>) with the mutexes and condition
  variables that build on them, and the file system in memory (\<open>ramfs.c\<close>), into which the archive is
  loaded (\<open>initramfs.c\<close>).  Everything prints through \<open>print.c\<close> to the serial port.

  \<^bold>\<open>Conventions.\<close>  An operation that can stop the kernel or run into undefined behaviour returns a
  \<open>'a res\<close> of \<open>Kernel_Base\<close>: \<open>Inl Bug\<close> is a \<open>BUG_ON\<close>, \<open>Inl Fault\<close> an access outside of what exists, \<open>Inl Hang\<close> a
  wait that never ends.  Where a loop need not end the result is an option and \<open>None\<close> is the loop that does
  not; such loops are \<open>partial_function (option)\<close>, and the theorems that an operation returns say so by
  \<open>Some (Inr _)\<close>.  No fuel is used.  Flag words, bit maps and the integers of the text and archive formats are words of their
  width; indices of pages and objects and addresses are numbers, with the bounds as hypotheses where
  the code relies on them.

  \<^bold>\<open>The theories.\<close>
  \<^item> \<open>Kernel_Base\<close>: results, their binds, and the collections \<open>res_simps\<close> and \<open>heap_upd\<close>.
  \<^item> \<open>KList\<close>: the circular lists of \<open>list.c\<close>, one definition per function at the level of its writes, and
    their refinement to lists (\<open>dlist\<close>, and \<open>lists_rep\<close> for a family of lists with distinct heads).
  \<^item> \<open>Buddy\<close>: the page allocator of \<open>memory.c\<close>.  \<open>Blocks\<close> holds the arithmetic of aligned blocks and
    buddies, \<open>Buddy_Inv\<close> the invariant of a zone, \<open>Buddy_Ops\<close> the operations on one zone, \<open>Buddy_Zones\<close> the
    set-up and the list of zones, \<open>Buddy_Client\<close> the interpretation of the contract \<open>Allocator.allocator\<close>
    and \<open>Buddy_Props\<close> the properties.
  \<^item> \<open>Slab\<close>: the caches and the general allocator of \<open>alloc.c\<close>.  \<open>Slab_Pool\<close> treats the layout and the bit map of
    one pool, \<open>Page_Desc\<close> the fields of page descriptors the heap uses, \<open>Slab_Inv\<close> and \<open>Slab_Ops\<close> the caches,
    \<open>Slab_Heap\<close> the general allocator on top of the page allocator, \<open>Slab_Props\<close> the properties.
  \<^item> \<open>CString\<close>, \<open>CType\<close>, \<open>Stdlib\<close>: \<open>string.c\<close>, \<open>ctype.c\<close>, \<open>stdlib.c\<close> over a memory of bytes; properties in
    \<open>Text_Props\<close>.
  \<^item> \<open>Printf\<close>: \<open>print.c\<close> and the writing half of \<open>serial.c\<close>.  \<open>Printf_Spec\<close> says what a format means (pieces, the
    relation \<open>renders\<close>), \<open>Printf_Sink\<close> proves \<open>__vprintf\<close> in the locale \<open>sink\<close>, the contract of \<open>print_ctx.out\<close>, which
    the serial port and the string buffer interpret.  Properties in \<open>Printf_Props\<close>.
  \<^item> \<open>Sched\<close>: the scheduler of \<open>threads.c\<close>, \<open>spinlock.c\<close>, \<open>mutex.c\<close>, \<open>condition.c\<close> and the timer handler of \<open>time.c\<close>.
    \<open>Sched_Spec\<close> is the abstract system with plain queues and the simulation of each operation,
    \<open>Sched_Machine\<close> threads, events and the step relation, \<open>Sched_Inv\<close> the invariant and the refinement
    of steps, \<open>Sched_Props\<close> the properties.
  \<^item> \<open>Ramfs\<close>: the file system of \<open>ramfs.c\<close> over a store of entries and lists.  \<open>Ramfs_Tree\<close> relates the links to
    trees and proves search and insertion, \<open>Ramfs_Ops\<close> the operations; \<open>Initramfs\<close> is \<open>initramfs.c\<close> and
    \<open>Initramfs_Spec\<close> the archive format and the loading of an archive; properties in \<open>Ramfs_Props\<close>.

  \<^item> \<open>RbTree\<close>: the linked nodes of \<open>rbtree.c\<close> with the colour packed into the parent pointer.  \<open>RbTree_Heap\<close>
    relates the links around a place to a subtree and the frames above it and proves the rotations,
    \<open>RbTree_Insert\<close> is the loop of \<open>rb_insert\<close> on trees and its colours, \<open>RbTree_Walk\<close> the traversal, \<open>RbTree_Fix\<close> the
    loop of \<open>rb_erase_fix\<close>, \<open>RbTree_Erase\<close> the removal, \<open>RbTree_Order\<close> the contract of an ordered set of nodes
    (locale \<open>ordered_nodes\<close>) that the clients of the tree use; properties in \<open>RbTree_Props\<close>.
  \<^item> \<open>Balloc\<close>: the ranges of memory of \<open>balloc.c\<close>: the nodes, the two trees and the list of free nodes.  \<open>Balloc_Nodes\<close>
    says that every node is in one tree or free, \<open>Balloc_Spec\<close> has the operations on sorted lists of ranges and what
    they cover, \<open>Balloc_Refine\<close> adding a range, \<open>Balloc_Ops\<close> removing one, \<open>Balloc_Alloc\<close> the search for a block,
    \<open>Balloc_Rep\<close> the abstract view of the whole state and the operations on it; properties in \<open>Balloc_Props\<close>.
  \<^item> \<open>Paging\<close>: the first half of \<open>paging.c\<close>, the tables as entries of a memory.  \<open>Paging_Tables\<close> says when the entries
    are a tree of tables and what the processor reads from it, \<open>Paging_Seg\<close> has the arithmetic of the parts of a range,
    \<open>Paging_Map\<close> the effect of a mapping, \<open>Paging_Run\<close> the recursion over any supply of pages (locale
    \<open>page_supply\<close>, the contract of \<open>struct page_pool\<close>), \<open>Paging_Boot\<close> the supply from the ranges of \<open>balloc.c\<close> and \<open>paging_setup\<close>;
    properties in \<open>Paging_Props\<close>.
  \<^item> \<open>Kmap\<close>: the second half of \<open>paging.c\<close>, the window for temporary mappings.  \<open>Kmap_Inv\<close> is the partition of the window into
    held and free ranges, \<open>Kmap_Ops\<close> the release of a range, \<open>Kmap_Alloc\<close> the search and the allocation,
    \<open>Kmap_Start\<close> the set-up and the ranges as an \<open>Allocator.allocator\<close>, \<open>Kmap_Map\<close> one page in the tables, \<open>Kmap_Run\<close> the loops of
    \<open>kmap\<close> and \<open>kunmap\<close>, \<open>Kmap_Setup\<close> the tables of the window with pages from \<open>memory.c\<close>; properties in \<open>Kmap_Props\<close>.

  \<^bold>\<open>What the lemmas show.\<close>  Page allocator: an invariant of every zone, allocation and release as moves
  of whole blocks between the free blocks and the client, no overlap, failure exactly when nothing fits.
  Heap: the same one level up, with the sizes of the caches and the map from an address back to its
  cache.  Text: numerals and strings read back what was written.  Printing: the text of any well formed format.
  Scheduler: every step of threads and timer refines the system with plain queues, so mutual exclusion,
  round robin and the bound on waiting are proved there.  File system: the links always represent a tree
  with distinct paths, and loading an archive builds the tree of its entries.  Red-black trees: insertion and
  removal keep the order, the colours and the links, and walking goes through the nodes in order.  Boot-time ranges:
  the trees hold sorted ranges apart from each other, removing and allocating take exactly the addresses asked for.  Page tables:
  every mapping leaves a tree of distinct tables in which exactly the addresses of the range are translated anew, with
  pages from either allocator, and the window for temporary mappings gives and takes back ranges without overlap.  Theorems of the kind
  \<open>error\<close> pin down where the code does not do what it means to.

  \<^bold>\<open>Simplifications.\<close>  Operations of the heap and of the file system run one at a time, so the locks around them are
  left out of the heap and are a flag in the file system.  Interrupts are taken between calls of kernel
  operations, not inside.  A port of the serial line always gets ready.

  \<^bold>\<open>Not modelled.\<close>  The
  creation and the stacks of threads (the rest of \<open>threads.c\<close>), the dispatch of interrupts (\<open>ints.c\<close>, \<open>i8259a.c\<close>,
  \<open>syscall.c\<close>), \<open>backtrace.c\<close>, \<open>main.c\<close>, the assembly files, and the two exercise kernels in the directories 1 and 2.
\<close>

end
